(* ===== verification/Prelude.thy ===== *)
theory Prelude
  imports Main "HOL-Library.Word"
begin

text \<open>
  Shared vocabulary of the development: the machine types of the 32-bit build of the kernel
  (\<open>-m32\<close>: \<open>size_t\<close>, \<open>UBaseType_t\<close>, \<open>TickType_t\<close> are 32-bit unsigned), the constants of
  \<open>portmacro.h\<close> and \<open>projdefs.h\<close>, the theorem collections the components fill, and the generic
  facts on lists, maps and words they share.
\<close>

unbundle bit_operations_syntax

section \<open>Machine types\<close>

type_synonym u8 = "8 word"
type_synonym u32 = "32 word"
type_synonym tick = "32 word"

definition portMAX_DELAY :: tick where
  "portMAX_DELAY = 0xffffffff"

section \<open>Outcomes\<close>

text \<open>
  What a call does: it returns a value, a \<open>configASSERT\<close> of the code fails (\<open>vAssertCalled\<close> of
  \<open>lwip/project/simRtos.c\<close> prints and exits, so nothing after the assertion runs), or a loop of
  the code never ends.
\<close>

datatype 'a outcome = Returns 'a | Asserts | Diverges

fun obind :: "'a outcome \<Rightarrow> ('a \<Rightarrow> 'b outcome) \<Rightarrow> 'b outcome" where
  "obind (Returns x) f = f x"
| "obind Asserts f = Asserts"
| "obind Diverges f = Diverges"

fun oreturns :: "'a option \<Rightarrow> 'a outcome" where
  "oreturns (Some x) = Returns x"
| "oreturns None = Diverges"

definition configASSERT :: "bool \<Rightarrow> 'a outcome \<Rightarrow> 'a outcome" where
  "configASSERT c k = (if c then k else Asserts)"

lemma configASSERT_True [simp]: "c \<Longrightarrow> configASSERT c k = k"
  by (simp add: configASSERT_def)

lemma configASSERT_Returns [simp]: "configASSERT c k = Returns x \<longleftrightarrow> c \<and> k = Returns x"
  by (simp add: configASSERT_def)

lemma obind_Returns [simp]: "obind m f = Returns y \<longleftrightarrow> (\<exists>x. m = Returns x \<and> f x = Returns y)"
  by (cases m) auto

section \<open>Theorem collections\<close>

named_theorems frame_simps \<open>what an update leaves unchanged\<close>
named_theorems refine_intros \<open>refinement facts, one per operation\<close>
named_theorems inv_intros \<open>invariant preservation, one per operation\<close>

section \<open>Words\<close>

lemma portMAX_DELAY_max_word [simp]: "v \<le> portMAX_DELAY"
  using unsigned_less [where w = v and 'a = nat] by (simp add: word_le_nat_alt portMAX_DELAY_def)

lemma less_portMAX_DELAY_iff: "v < portMAX_DELAY \<longleftrightarrow> v \<noteq> portMAX_DELAY"
  using portMAX_DELAY_max_word [of v] by (auto simp: order.strict_iff_order)

lemma portMAX_DELAY_le_iff [simp]: "portMAX_DELAY \<le> v \<longleftrightarrow> v = portMAX_DELAY"
  using portMAX_DELAY_max_word [of v] by (auto intro: order.antisym)

lemma unat_portMAX_DELAY: "unat portMAX_DELAY = 2 ^ 32 - 1"
  by (simp add: portMAX_DELAY_def)

lemma unat_of_nat_small: "n < 2 ^ 32 \<Longrightarrow> unat (of_nat n :: u32) = n"
  by (simp add: unat_of_nat)

lemma word_of_nat_of_unat: "unat (x :: 'a :: len word) = n \<Longrightarrow> x = of_nat n"
  by auto

text \<open>The low two bits, and rounding down to a multiple of four.\<close>

lemma mask3: "unat (w AND (3 :: u32)) = unat w mod 4"
proof -
  have "w AND 3 = take_bit 2 w" by (simp add: take_bit_eq_mask mask_eq_exp_minus_1)
  then show ?thesis by (simp only: unsigned_take_bit_eq) (simp add: take_bit_eq_mod)
qed

lemma mask3_eq_0: "w AND (3 :: u32) = 0 \<longleftrightarrow> 4 dvd unat w"
  using mask3 [of w] by (metis dvd_eq_mod_eq_0 unat_eq_zero)

lemma mask3_round: "unat (x AND NOT (3 :: u32)) = unat x - unat x mod 4"
proof -
  have "(x AND NOT m) AND (x AND m) = 0" "(x AND NOT m) OR (x AND m) = x" for m :: u32
    by (rule bit_word_eqI; auto simp: bit_and_iff bit_or_iff bit_not_iff)+
  from this [of 3] have x: "x AND NOT 3 = x - (x AND 3)"
    using word_plus_and_or [of "x AND NOT 3" "x AND 3"] by (simp add: algebra_simps)
  have "unat (x AND 3) \<le> unat x" by (simp add: mask3)
  then show ?thesis unfolding x by (subst unat_sub) (simp_all add: word_le_nat_alt mask3)
qed

section \<open>Words as bytes\<close>

text \<open>A \<open>size_t\<close> or a pointer in memory, on the little-endian target.\<close>

definition word_bytes :: "u32 \<Rightarrow> u8 list" where
  "word_bytes w = map (\<lambda>k. ucast (drop_bit (8 * k) w)) [0, 1, 2, 3]"

fun bytes_word :: "u8 list \<Rightarrow> u32" where
  "bytes_word [] = 0"
| "bytes_word (b # bs) = ucast b OR push_bit 8 (bytes_word bs)"

lemma length_word_bytes [simp]: "length (word_bytes w) = 4"
  by (simp add: word_bytes_def)

lemma split8: "take_bit 8 w OR push_bit 8 (drop_bit 8 w) = (w :: u32)"
proof (rule bit_word_eqI)
  fix n assume "n < LENGTH(32)"
  then show "bit (take_bit 8 w OR push_bit 8 (drop_bit 8 w)) n = bit w n"
    by (cases "n < 8") (auto simp: bit_or_iff bit_take_bit_iff bit_push_bit_iff bit_drop_bit_eq)
qed

lemma bytes_word_bytes: "bytes_word (word_bytes w) = w"
proof -
  have u: "ucast (ucast v :: u8) = take_bit 8 v" for v :: u32
    by (rule bit_word_eqI) (auto simp: bit_ucast_iff bit_take_bit_iff)
  have z: "drop_bit 8 (drop_bit 24 w) = 0"
    by (rule bit_word_eqI) (auto simp: bit_drop_bit_eq dest: bit_imp_le_length)
  have d: "drop_bit 16 w = drop_bit 8 (drop_bit 8 w)" "drop_bit 24 w = drop_bit 8 (drop_bit 16 w)"
    by simp_all
  have "bytes_word (word_bytes w) = take_bit 8 w OR push_bit 8 (take_bit 8 (drop_bit 8 w) OR
      push_bit 8 (take_bit 8 (drop_bit 16 w) OR push_bit 8 (take_bit 8 (drop_bit 24 w) OR push_bit 8 0)))"
    by (simp add: word_bytes_def u)
  also have "push_bit 8 (0 :: u32) = push_bit 8 (drop_bit 8 (drop_bit 24 w))" by (simp only: z)
  also have "take_bit 8 (drop_bit 24 w) OR \<dots> = drop_bit 8 (drop_bit 16 w)" unfolding split8 by (rule d(2))
  also have "take_bit 8 (drop_bit 16 w) OR push_bit 8 \<dots> = drop_bit 8 (drop_bit 8 w)"
    unfolding split8 by (rule d(1))
  also have "take_bit 8 (drop_bit 8 w) OR push_bit 8 \<dots> = drop_bit 8 w" by (rule split8)
  also have "take_bit 8 w OR push_bit 8 \<dots> = w" by (rule split8)
  finally show ?thesis .
qed

section \<open>Lists\<close>

lemma takeWhile_all: "(\<And>x. x \<in> set xs \<Longrightarrow> P x) \<Longrightarrow> takeWhile P xs = xs"
  by simp

lemma dropWhile_none: "(\<And>x. x \<in> set xs \<Longrightarrow> P x) \<Longrightarrow> dropWhile P xs = []"
  by simp

lemma tl_dropWhile_mem: "tl (dropWhile P xs) = z # zs \<Longrightarrow> z \<in> set xs"
  by (induction xs) (auto split: if_splits)

lemma dropWhile_le_greater:
  fixes f :: "'a \<Rightarrow> 'b::linorder"
  shows "sorted (map f xs) \<Longrightarrow> y \<in> set (dropWhile (\<lambda>y. f y \<le> k) xs) \<Longrightarrow> k < f y"
  by (induction xs) (force split: if_splits)+

lemma takeWhile_le: "y \<in> set (takeWhile (\<lambda>y. f y \<le> k) xs) \<Longrightarrow> f y \<le> k"
  by (auto dest: set_takeWhileD)

end
