(* ===== verification/List_Store.thy ===== *)
theory List_Store
  imports Prelude
begin

text \<open>
  The doubly linked lists of \<open>freeRtos/Source/list.c\<close> on an explicit store. A
  \<open>ListItem_t *\<close> points to a list item or to the end marker \<open>xListEnd\<close> embedded in a list;
  the store gives every field of \<open>struct xLIST_ITEM\<close>, \<open>struct xMINI_LIST_ITEM\<close> and
  \<open>struct xLIST\<close> as a function of the address. Item addresses have type \<open>'i\<close>, list addresses
  type \<open>'l\<close>, owners (the \<open>pvOwner\<close> pointers) type \<open>'o\<close>. The list integrity check bytes
  (\<open>configUSE_LIST_DATA_INTEGRITY_CHECK_BYTES\<close>) are off in this build and not modelled.
\<close>

section \<open>The store\<close>

datatype ('i, 'l) lptr = Item 'i | Mark 'l

record ('i, 'l, 'o) store =
  xItemValue :: "('i, 'l) lptr \<Rightarrow> tick"
  pxNext :: "('i, 'l) lptr \<Rightarrow> ('i, 'l) lptr"
  pxPrevious :: "('i, 'l) lptr \<Rightarrow> ('i, 'l) lptr"
  pvOwner :: "'i \<Rightarrow> 'o option"
  pvContainer :: "'i \<Rightarrow> 'l option"
  pxIndex :: "'l \<Rightarrow> ('i, 'l) lptr"
  uxNumberOfItems :: "'l \<Rightarrow> u32"

text \<open>Assignments through a pointer.\<close>

abbreviation set_next :: "('i, 'l) lptr \<Rightarrow> ('i, 'l) lptr \<Rightarrow> ('i, 'l, 'o) store \<Rightarrow> ('i, 'l, 'o) store" where
  "set_next p q s \<equiv> s\<lparr>pxNext := (pxNext s)(p := q)\<rparr>"

abbreviation set_prev :: "('i, 'l) lptr \<Rightarrow> ('i, 'l) lptr \<Rightarrow> ('i, 'l, 'o) store \<Rightarrow> ('i, 'l, 'o) store" where
  "set_prev p q s \<equiv> s\<lparr>pxPrevious := (pxPrevious s)(p := q)\<rparr>"

section \<open>The operations of list.c\<close>

definition vListInitialise :: "'l \<Rightarrow> ('i, 'l, 'o) store \<Rightarrow> ('i, 'l, 'o) store" where
  "vListInitialise l s =
     (let s1 = s\<lparr>pxIndex := (pxIndex s)(l := Mark l)\<rparr>;
          s2 = s1\<lparr>xItemValue := (xItemValue s1)(Mark l := portMAX_DELAY)\<rparr>;
          s3 = set_next (Mark l) (Mark l) s2;
          s4 = set_prev (Mark l) (Mark l) s3
      in s4\<lparr>uxNumberOfItems := (uxNumberOfItems s4)(l := 0)\<rparr>)"

definition vListInitialiseItem :: "'i \<Rightarrow> ('i, 'l, 'o) store \<Rightarrow> ('i, 'l, 'o) store" where
  "vListInitialiseItem x s = s\<lparr>pvContainer := (pvContainer s)(x := None)\<rparr>"

definition vListInsertEnd :: "'l \<Rightarrow> 'i \<Rightarrow> ('i, 'l, 'o) store \<Rightarrow> ('i, 'l, 'o) store" where
  "vListInsertEnd l x s =
     (let idx = pxIndex s l;
          s1 = set_next (Item x) idx s;
          s2 = set_prev (Item x) (pxPrevious s1 idx) s1;
          s3 = set_next (pxPrevious s2 idx) (Item x) s2;
          s4 = set_prev idx (Item x) s3;
          s5 = s4\<lparr>pvContainer := (pvContainer s4)(x := Some l)\<rparr>
      in s5\<lparr>uxNumberOfItems := (uxNumberOfItems s5)(l := uxNumberOfItems s5 l + 1)\<rparr>)"

text \<open>
  The search loop of \<open>vListInsert\<close>: advance while the next item's value is not above the new
  value. A list whose end marker does not hold \<open>portMAX_DELAY\<close> may make it run forever, so it is
  a partial function; \<open>None\<close> is not returning.
\<close>

partial_function (option) insert_point ::
  "('i, 'l, 'o) store \<Rightarrow> tick \<Rightarrow> ('i, 'l) lptr \<Rightarrow> ('i, 'l) lptr option" where
  "insert_point s v p =
     (if xItemValue s (pxNext s p) \<le> v then insert_point s v (pxNext s p) else Some p)"

definition vListInsert :: "'l \<Rightarrow> 'i \<Rightarrow> ('i, 'l, 'o) store \<Rightarrow> ('i, 'l, 'o) store option" where
  "vListInsert l x s =
     (let v = xItemValue s (Item x)
      in case (if v = portMAX_DELAY then Some (pxPrevious s (Mark l))
               else insert_point s v (Mark l)) of
           None \<Rightarrow> None
         | Some it \<Rightarrow>
             (let s1 = set_next (Item x) (pxNext s it) s;
                  s2 = set_prev (pxNext s1 (Item x)) (Item x) s1;
                  s3 = set_prev (Item x) it s2;
                  s4 = set_next it (Item x) s3;
                  s5 = s4\<lparr>pvContainer := (pvContainer s4)(x := Some l)\<rparr>
              in Some (s5\<lparr>uxNumberOfItems := (uxNumberOfItems s5)(l := uxNumberOfItems s5 l + 1)\<rparr>)))"

text \<open>\<open>uxListRemove\<close> reads the list from the item's container: \<open>None\<close> is the read through NULL.\<close>

definition uxListRemove :: "'i \<Rightarrow> ('i, 'l, 'o) store \<Rightarrow> (u32 \<times> ('i, 'l, 'o) store) option" where
  "uxListRemove x s =
     (case pvContainer s x of
        None \<Rightarrow> None
      | Some l \<Rightarrow>
          (let s1 = set_prev (pxNext s (Item x)) (pxPrevious s (Item x)) s;
               s2 = set_next (pxPrevious s1 (Item x)) (pxNext s1 (Item x)) s1;
               s3 = (if pxIndex s2 l = Item x
                     then s2\<lparr>pxIndex := (pxIndex s2)(l := pxPrevious s2 (Item x))\<rparr> else s2);
               s4 = s3\<lparr>pvContainer := (pvContainer s3)(x := None)\<rparr>;
               s5 = s4\<lparr>uxNumberOfItems := (uxNumberOfItems s4)(l := uxNumberOfItems s4 l - 1)\<rparr>
           in Some (uxNumberOfItems s5 l, s5)))"

section \<open>The access macros of list.h\<close>

definition listGET_ITEM_VALUE_OF_HEAD_ENTRY :: "'l \<Rightarrow> ('i, 'l, 'o) store \<Rightarrow> tick" where
  "listGET_ITEM_VALUE_OF_HEAD_ENTRY l s = xItemValue s (pxNext s (Mark l))"

definition listGET_HEAD_ENTRY :: "'l \<Rightarrow> ('i, 'l, 'o) store \<Rightarrow> ('i, 'l) lptr" where
  "listGET_HEAD_ENTRY l s = pxNext s (Mark l)"

definition listLIST_IS_EMPTY :: "'l \<Rightarrow> ('i, 'l, 'o) store \<Rightarrow> bool" where
  "listLIST_IS_EMPTY l s \<longleftrightarrow> uxNumberOfItems s l = 0"

definition listIS_CONTAINED_WITHIN :: "'l \<Rightarrow> 'i \<Rightarrow> ('i, 'l, 'o) store \<Rightarrow> bool" where
  "listIS_CONTAINED_WITHIN l x s \<longleftrightarrow> pvContainer s x = Some l"

text \<open>
  The owner of the next entry: step \<open>pxIndex\<close>, step once more over the end marker. On an empty
  list the index is left on the end marker, which has no \<open>pvOwner\<close> field: the model returns no
  item there.
\<close>

definition listGET_OWNER_OF_NEXT_ENTRY ::
  "'l \<Rightarrow> ('i, 'l, 'o) store \<Rightarrow> 'i option \<times> ('i, 'l, 'o) store" where
  "listGET_OWNER_OF_NEXT_ENTRY l s =
     (let s1 = s\<lparr>pxIndex := (pxIndex s)(l := pxNext s (pxIndex s l))\<rparr>;
          s2 = (if pxIndex s1 l = Mark l
                then s1\<lparr>pxIndex := (pxIndex s1)(l := pxNext s1 (pxIndex s1 l))\<rparr> else s1)
      in (case pxIndex s2 l of Item x \<Rightarrow> Some x | Mark _ \<Rightarrow> None, s2))"

end
