(* ===== verification/List_Refine.thy ===== *)
theory List_Refine
  imports List_Store
begin

text \<open>
  What the lists of \<open>list.c\<close> mean. \<open>linked\<close> says that consecutive nodes of a path point at each
  other, \<open>ring s l xs\<close> that list \<open>l\<close> is the circular chain end marker - \<open>xs\<close> - end marker with the
  bookkeeping fields consistent. The abstract store \<open>alists\<close> holds for each list its sequence of
  items and the position of \<open>pxIndex\<close>; every operation of \<open>list.c\<close> refines an operation on it.
\<close>

section \<open>Paths of linked nodes\<close>

definition link :: "('i, 'l, 'o) store \<Rightarrow> ('i, 'l) lptr \<Rightarrow> ('i, 'l) lptr \<Rightarrow> bool" where
  "link s p q \<longleftrightarrow> pxNext s p = q \<and> pxPrevious s q = p"

fun linked :: "('i, 'l, 'o) store \<Rightarrow> ('i, 'l) lptr list \<Rightarrow> bool" where
  "linked s (p # q # ps) \<longleftrightarrow> link s p q \<and> linked s (q # ps)"
| "linked s _ \<longleftrightarrow> True"

lemma linked_append:
  "linked s (ps @ q # qs) \<longleftrightarrow> linked s (ps @ [q]) \<and> linked s (q # qs)"
  by (induction s ps rule: linked.induct) (auto simp: neq_Nil_conv)

lemma linked_append2:
  "linked s (ps @ p # q # qs) \<longleftrightarrow> linked s (ps @ [p]) \<and> link s p q \<and> linked s (q # qs)"
  using linked_append [of s ps p "q # qs"] by simp

lemma linked_cong:
  assumes "\<And>u. u \<in> set (butlast ps) \<Longrightarrow> pxNext s' u = pxNext s u"
    and "\<And>v. v \<in> set (tl ps) \<Longrightarrow> pxPrevious s' v = pxPrevious s v"
  shows "linked s' ps \<longleftrightarrow> linked s ps"
  using assms by (induction s ps rule: linked.induct) (auto simp: link_def)

section \<open>Lists as rings\<close>

definition ring :: "('i, 'l, 'o) store \<Rightarrow> 'l \<Rightarrow> 'i list \<Rightarrow> bool" where
  "ring s l xs \<longleftrightarrow>
     linked s (Mark l # map Item xs @ [Mark l]) \<and> distinct xs
     \<and> (\<forall>x. pvContainer s x = Some l \<longleftrightarrow> x \<in> set xs)
     \<and> uxNumberOfItems s l = of_nat (length xs)
     \<and> pxIndex s l \<in> insert (Mark l) (Item ` set xs)
     \<and> xItemValue s (Mark l) = portMAX_DELAY"

lemma ring_distinct: "ring s l xs \<Longrightarrow> distinct xs"
  by (simp add: ring_def)

lemma ring_container: "ring s l xs \<Longrightarrow> pvContainer s x = Some l \<longleftrightarrow> x \<in> set xs"
  by (simp add: ring_def)

lemma ring_disjoint:
  assumes "ring s l xs" and "ring s m ys" and "l \<noteq> m"
  shows "set xs \<inter> set ys = {}"
  using ring_container [OF assms(1)] ring_container [OF assms(2)] assms(3)
  by (metis disjoint_iff option.inject)

text \<open>The neighbours of a node, read off the ring.\<close>

lemma ring_link:
  assumes "ring s l xs" and "Mark l # map Item xs @ [Mark l] = ps @ p # q # qs"
  shows "link s p q"
  using assms by (auto simp: ring_def linked_append2)

lemma ring_next_split:
  assumes "ring s l (as @ bs)"
  shows "pxNext s (last (Mark l # map Item as)) = hd (map Item bs @ [Mark l])"
    and "pxPrevious s (hd (map Item bs @ [Mark l])) = last (Mark l # map Item as)"
proof -
  have "link s (last (Mark l # map Item as)) (hd (map Item bs @ [Mark l]))"
    by (rule ring_link [OF assms, where ps = "butlast (Mark l # map Item as)"
          and qs = "tl (map Item bs @ [Mark l])"]) simp
  then show "pxNext s (last (Mark l # map Item as)) = hd (map Item bs @ [Mark l])"
    and "pxPrevious s (hd (map Item bs @ [Mark l])) = last (Mark l # map Item as)"
    by (simp_all add: link_def)
qed

text \<open>
  A ring is a matter of the links of its own nodes, the containers, and its own fields: an
  operation on other nodes keeps it.
\<close>

lemma ring_frame:
  assumes "ring s l xs"
    and "\<And>p. p \<in> insert (Mark l) (Item ` set xs) \<Longrightarrow> pxNext s' p = pxNext s p"
    and "\<And>p. p \<in> insert (Mark l) (Item ` set xs) \<Longrightarrow> pxPrevious s' p = pxPrevious s p"
    and "\<And>x. pvContainer s' x = Some l \<longleftrightarrow> pvContainer s x = Some l"
    and "pxIndex s' l = pxIndex s l" and "uxNumberOfItems s' l = uxNumberOfItems s l"
    and "xItemValue s' (Mark l) = xItemValue s (Mark l)"
  shows "ring s' l xs"
proof -
  have "linked s' (Mark l # map Item xs @ [Mark l]) \<longleftrightarrow> linked s (Mark l # map Item xs @ [Mark l])"
    by (rule linked_cong) (use assms(2,3) in \<open>auto simp: butlast_append\<close>)
  with assms show ?thesis by (simp add: ring_def)
qed

section \<open>Splicing a node in and out\<close>

lemma linked_splice_in:
  assumes "linked s (us @ p # q # ws)"
    and "distinct (butlast (us @ p # q # ws))" and "distinct (tl (us @ p # q # ws))"
    and "n \<notin> set (us @ p # q # ws)"
    and "pxNext s' = (pxNext s)(p := n, n := q)"
    and "pxPrevious s' = (pxPrevious s)(q := n, n := p)"
  shows "linked s' (us @ p # n # q # ws)"
proof -
  from assms(1) have old: "linked s (us @ [p])" "linked s (q # ws)"
    by (simp_all add: linked_append2)
  have n: "n \<notin> set (butlast (q # ws))"
    using assms(4) in_set_butlastD [of n "q # ws"] by auto
  have "linked s' (us @ [p])"
    by (rule linked_cong [THEN iffD2, OF _ _ old(1)])
      (use assms(2-) in \<open>auto simp: butlast_append tl_append split: if_splits list.splits\<close>)
  moreover have "linked s' (q # ws)"
    by (rule linked_cong [THEN iffD2, OF _ _ old(2)])
      (use n assms(2-) in \<open>auto simp: butlast_append tl_append split: if_splits list.splits\<close>)
  moreover have "link s' p n" "link s' n q"
    using assms(4-) by (auto simp: link_def)
  ultimately show ?thesis
    by (simp add: linked_append2)
qed

lemma linked_splice_out:
  assumes "linked s (us @ p # n # q # ws)"
    and "distinct (butlast (us @ p # n # q # ws))" and "distinct (tl (us @ p # n # q # ws))"
    and "pxNext s' = (pxNext s)(p := q)"
    and "pxPrevious s' = (pxPrevious s)(q := p)"
  shows "linked s' (us @ p # q # ws)"
proof -
  from assms(1) have old: "linked s (us @ [p])" "linked s (q # ws)"
    by (simp_all add: linked_append2)
  have "linked s' (us @ [p])"
    by (rule linked_cong [THEN iffD2, OF _ _ old(1)])
      (use assms(2-) in \<open>auto simp: butlast_append tl_append split: if_splits list.splits\<close>)
  moreover have "linked s' (q # ws)"
    by (rule linked_cong [THEN iffD2, OF _ _ old(2)])
      (use assms(2-) in \<open>auto simp: butlast_append tl_append split: if_splits list.splits\<close>)
  moreover have "link s' p q"
    using assms(4-) by (auto simp: link_def)
  ultimately show ?thesis
    by (simp add: linked_append2)
qed

text \<open>The node before and the node after a position of a ring.\<close>

abbreviation before :: "'l \<Rightarrow> 'i list \<Rightarrow> ('i, 'l) lptr" where
  "before l as \<equiv> last (Mark l # map Item as)"

abbreviation after :: "'l \<Rightarrow> 'i list \<Rightarrow> ('i, 'l) lptr" where
  "after l bs \<equiv> hd (map Item bs @ [Mark l])"

lemma ring_path_split:
  obtains us ws where
    "Mark l # map Item (as @ bs) @ [Mark l] = us @ before l as # after l bs # ws"
    "Mark l # map Item (as @ x # bs) @ [Mark l] = us @ before l as # Item x # after l bs # ws"
proof
  let ?us = "butlast (Mark l # map Item as)" and ?ws = "tl (map Item bs @ [Mark l])"
  have l: "?us @ [before l as] = Mark l # map Item as"
    by (rule append_butlast_last_id) simp
  have r: "after l bs # ?ws = map Item bs @ [Mark l]"
    by (rule hd_Cons_tl) simp
  show "Mark l # map Item (as @ bs) @ [Mark l] = ?us @ before l as # after l bs # ?ws"
    unfolding r using l by (metis append.assoc append_Cons append_Nil map_append)
  show "Mark l # map Item (as @ x # bs) @ [Mark l] = ?us @ before l as # Item x # after l bs # ?ws"
    unfolding r using l by (metis append.assoc append_Cons append_Nil list.simps(9) map_append)
qed

lemma ring_path_distinct:
  "distinct xs \<Longrightarrow> distinct (butlast (Mark l # map Item xs @ [Mark l]))"
  "distinct xs \<Longrightarrow> distinct (tl (Mark l # map Item xs @ [Mark l]))"
  by (auto simp: butlast_append distinct_map inj_on_def)

lemma ring_insert_links:
  assumes "linked s (Mark l # map Item (as @ bs) @ [Mark l])"
    and "distinct (as @ bs)" and "x \<notin> set (as @ bs)"
    and "pxNext s' = (pxNext s)(before l as := Item x, Item x := after l bs)"
    and "pxPrevious s' = (pxPrevious s)(after l bs := Item x, Item x := before l as)"
  shows "linked s' (Mark l # map Item (as @ x # bs) @ [Mark l])"
proof -
  obtain us ws where
    old: "Mark l # map Item (as @ bs) @ [Mark l] = us @ before l as # after l bs # ws" and
    new: "Mark l # map Item (as @ x # bs) @ [Mark l] = us @ before l as # Item x # after l bs # ws"
    by (rule ring_path_split)
  have "Item x \<notin> set (us @ before l as # after l bs # ws)"
    unfolding old [symmetric] using assms(3) by auto
  then show ?thesis
    unfolding new
    by (intro linked_splice_in [OF _ _ _ _ assms(4,5)])
      (use assms(1) ring_path_distinct [OF assms(2), of l] in
        \<open>simp_all only: old not_False_eq_True\<close>)
qed

lemma ring_remove_links:
  assumes "linked s (Mark l # map Item (as @ x # bs) @ [Mark l])"
    and "distinct (as @ x # bs)"
    and "pxNext s' = (pxNext s)(before l as := after l bs)"
    and "pxPrevious s' = (pxPrevious s)(after l bs := before l as)"
  shows "linked s' (Mark l # map Item (as @ bs) @ [Mark l])"
proof -
  obtain us ws where
    new: "Mark l # map Item (as @ bs) @ [Mark l] = us @ before l as # after l bs # ws" and
    old: "Mark l # map Item (as @ x # bs) @ [Mark l] = us @ before l as # Item x # after l bs # ws"
    by (rule ring_path_split)
  show ?thesis
    unfolding new
    by (rule linked_splice_out [OF _ _ _ assms(3,4)])
      (use assms(1) ring_path_distinct [OF assms(2), of l] in \<open>simp_all only: old\<close>)
qed

text \<open>The links around an item of a ring.\<close>

lemma ring_item_links:
  assumes "ring s l (as @ x # bs)"
  shows "pxNext s (before l as) = Item x" "pxPrevious s (Item x) = before l as"
    "pxNext s (Item x) = after l bs" "pxPrevious s (after l bs) = Item x"
proof -
  obtain us ws where e:
    "Mark l # map Item (as @ x # bs) @ [Mark l] = us @ before l as # Item x # after l bs # ws"
    by (rule ring_path_split [of l as bs x])
  from assms have "linked s (Mark l # map Item (as @ x # bs) @ [Mark l])"
    by (simp only: ring_def)
  then have "linked s (us @ before l as # Item x # after l bs # ws)"
    by (simp only: e)
  then have "link s (before l as) (Item x)" "link s (Item x) (after l bs)"
    by (simp_all add: linked_append2)
  then show "pxNext s (before l as) = Item x" "pxPrevious s (Item x) = before l as"
    "pxNext s (Item x) = after l bs" "pxPrevious s (after l bs) = Item x"
    by (simp_all add: link_def)
qed

section \<open>The abstract lists\<close>

record ('i, 'l) alists =
  content :: "'l \<Rightarrow> 'i list"
  cursor :: "'l \<Rightarrow> 'i option"
  avalue :: "'i \<Rightarrow> tick"
  acontainer :: "'i \<Rightarrow> 'l option"

definition a_init :: "'l \<Rightarrow> ('i, 'l) alists \<Rightarrow> ('i, 'l) alists" where
  "a_init l a = a\<lparr>content := (content a)(l := []), cursor := (cursor a)(l := None)\<rparr>"

text \<open>The cursor \<open>None\<close> is \<open>pxIndex\<close> at the end marker: the new item goes before the cursor.\<close>

definition insert_before :: "'i option \<Rightarrow> 'i \<Rightarrow> 'i list \<Rightarrow> 'i list" where
  "insert_before c x xs =
     (case c of None \<Rightarrow> xs @ [x]
      | Some y \<Rightarrow> takeWhile (\<lambda>z. z \<noteq> y) xs @ x # dropWhile (\<lambda>z. z \<noteq> y) xs)"

definition a_insert_end :: "'l \<Rightarrow> 'i \<Rightarrow> ('i, 'l) alists \<Rightarrow> ('i, 'l) alists" where
  "a_insert_end l x a =
     a\<lparr>content := (content a)(l := insert_before (cursor a l) x (content a l)),
       acontainer := (acontainer a)(x := Some l)\<rparr>"

text \<open>Sorted insertion by value, after the items of the same value.\<close>

definition insert_sorted :: "('i \<Rightarrow> tick) \<Rightarrow> 'i \<Rightarrow> 'i list \<Rightarrow> 'i list" where
  "insert_sorted f x xs = takeWhile (\<lambda>y. f y \<le> f x) xs @ x # dropWhile (\<lambda>y. f y \<le> f x) xs"

definition a_insert :: "'l \<Rightarrow> 'i \<Rightarrow> ('i, 'l) alists \<Rightarrow> ('i, 'l) alists" where
  "a_insert l x a =
     a\<lparr>content := (content a)(l := insert_sorted (avalue a) x (content a l)),
       acontainer := (acontainer a)(x := Some l)\<rparr>"

text \<open>Removal moves a cursor that stands on the item to the item before it.\<close>

definition cursor_before :: "'i \<Rightarrow> 'i list \<Rightarrow> 'i option" where
  "cursor_before x xs =
     (case rev (takeWhile (\<lambda>z. z \<noteq> x) xs) of [] \<Rightarrow> None | y # _ \<Rightarrow> Some y)"

definition a_remove :: "'i \<Rightarrow> ('i, 'l) alists \<Rightarrow> ('i, 'l) alists" where
  "a_remove x a =
     (case acontainer a x of
        None \<Rightarrow> a
      | Some l \<Rightarrow>
          a\<lparr>content := (content a)(l := remove1 x (content a l)),
            cursor := (cursor a)(l := (if cursor a l = Some x then cursor_before x (content a l)
                                       else cursor a l)),
            acontainer := (acontainer a)(x := None)\<rparr>)"

text \<open>Walking: the item after the cursor, wrapping over the end marker.\<close>

definition walk_from :: "'i option \<Rightarrow> 'i list \<Rightarrow> 'i option" where
  "walk_from c xs =
     (case (case c of None \<Rightarrow> xs | Some y \<Rightarrow> tl (dropWhile (\<lambda>z. z \<noteq> y) xs)) of
        z # _ \<Rightarrow> Some z
      | [] \<Rightarrow> (case xs of [] \<Rightarrow> None | z # _ \<Rightarrow> Some z))"

definition set_cursor :: "'l \<Rightarrow> 'i option \<Rightarrow> ('i, 'l) alists \<Rightarrow> ('i, 'l) alists" where
  "set_cursor l c a = a\<lparr>cursor := (cursor a)(l := c)\<rparr>"

lemma set_cursor_simps [simp]:
  "cursor (set_cursor l c a) = (cursor a)(l := c)" "content (set_cursor l c a) = content a"
  "avalue (set_cursor l c a) = avalue a" "acontainer (set_cursor l c a) = acontainer a"
  "set_cursor l c (set_cursor l d a) = set_cursor l c a" "set_cursor l (cursor a l) a = a"
  by (simp_all add: set_cursor_def)

definition a_next :: "'l \<Rightarrow> ('i, 'l) alists \<Rightarrow> 'i option \<times> ('i, 'l) alists" where
  "a_next l a =
     (let c = walk_from (cursor a l) (content a l) in (c, set_cursor l c a))"

text \<open>The store \<open>s\<close> holds the abstract lists \<open>a\<close>, for the lists \<open>D\<close> initialised so far.\<close>

definition holds_lists :: "'l set \<Rightarrow> ('i, 'l, 'o) store \<Rightarrow> ('i, 'l) alists \<Rightarrow> bool" where
  "holds_lists D s a \<longleftrightarrow>
     (\<forall>l\<in>D. ring s l (content a l)
         \<and> pxIndex s l = (case cursor a l of None \<Rightarrow> Mark l | Some x \<Rightarrow> Item x))
     \<and> (\<forall>x. xItemValue s (Item x) = avalue a x \<and> pvContainer s x = acontainer a x)"

lemma holds_listsD:
  assumes "holds_lists D s a" and "l \<in> D"
  shows "ring s l (content a l)"
    and "pxIndex s l = (case cursor a l of None \<Rightarrow> Mark l | Some x \<Rightarrow> Item x)"
  using assms by (auto simp: holds_lists_def)

lemma holds_lists_item:
  assumes "holds_lists D s a"
  shows "xItemValue s (Item x) = avalue a x" and "pvContainer s x = acontainer a x"
  using assms by (auto simp: holds_lists_def)

text \<open>Inserting a free item at a known split of the content keeps the other lists.\<close>

lemma holds_lists_insert:
  assumes h: "holds_lists D s a" and l: "l \<in> D" and free: "acontainer a x = None"
    and split: "content a l = as @ bs"
    and s': "pxNext s' = (pxNext s)(before l as := Item x, Item x := after l bs)"
      "pxPrevious s' = (pxPrevious s)(after l bs := Item x, Item x := before l as)"
      "pvContainer s' = (pvContainer s)(x := Some l)"
      "uxNumberOfItems s' = (uxNumberOfItems s)(l := uxNumberOfItems s l + 1)"
      "pxIndex s' = pxIndex s" "xItemValue s' = xItemValue s"
  shows "holds_lists D s'
           (a\<lparr>content := (content a)(l := as @ x # bs), acontainer := (acontainer a)(x := Some l)\<rparr>)"
proof -
  have r: "ring s l (as @ bs)"
    using holds_listsD [OF h l] split by simp
  have x: "x \<notin> set (as @ bs)"
    using ring_container [OF r, of x] free holds_lists_item [OF h, of x] by simp
  have "linked s' (Mark l # map Item (as @ x # bs) @ [Mark l])"
    by (rule ring_insert_links [OF _ _ x s'(1,2)]) (use r in \<open>auto simp: ring_def\<close>)
  then have "ring s' l (as @ x # bs)"
    using r x s' by (auto simp: ring_def)
  moreover have "ring s' m (content a m)" if m: "m \<in> D" "m \<noteq> l" for m
  proof (rule ring_frame [OF holds_listsD(1) [OF h m(1)]])
    have d: "set (as @ bs) \<inter> set (content a m) = {}"
      using ring_disjoint [OF r holds_listsD(1) [OF h m(1)]] m(2) by auto
    have x': "x \<notin> set (content a m)"
      using ring_container [OF holds_listsD(1) [OF h m(1)], of x] free holds_lists_item [OF h, of x]
      by simp
    have b: "before l as \<in> insert (Mark l) (Item ` set as)"
      by (cases as rule: rev_cases) auto
    have a: "after l bs \<in> insert (Mark l) (Item ` set bs)"
      by (cases bs) auto
    fix p
    assume "p \<in> insert (Mark m) (Item ` set (content a m))"
    with d x' b a m(2) have "p \<noteq> Item x" "p \<noteq> before l as" "p \<noteq> after l bs"
      by auto
    then show "pxNext s' p = pxNext s p" "pxPrevious s' p = pxPrevious s p"
      by (simp_all add: s' del: last.simps)
  qed (use m(2) free holds_lists_item [OF h, of x] in \<open>auto simp: s'\<close>)
  ultimately show ?thesis
    using h by (auto simp: holds_lists_def s')
qed

section \<open>Refinement, operation by operation\<close>

lemma vListInitialise_refines [refine_intros]:
  assumes h: "holds_lists D s a" and new: "l \<notin> D" and fresh: "\<And>x. acontainer a x \<noteq> Some l"
  shows "holds_lists (insert l D) (vListInitialise l s) (a_init l a)"
proof -
  let ?s = "vListInitialise l s"
  have f: "pxNext ?s = (pxNext s)(Mark l := Mark l)" "pxPrevious ?s = (pxPrevious s)(Mark l := Mark l)"
    "pxIndex ?s = (pxIndex s)(l := Mark l)" "pvContainer ?s = pvContainer s"
    "uxNumberOfItems ?s = (uxNumberOfItems s)(l := 0)"
    "xItemValue ?s = (xItemValue s)(Mark l := portMAX_DELAY)"
    by (simp_all add: vListInitialise_def Let_def)
  have "ring ?s l []"
    using fresh holds_lists_item [OF h] by (simp add: ring_def link_def f)
  moreover have "ring ?s m (content a m)" if "m \<in> D" for m
    by (rule ring_frame [OF holds_listsD(1) [OF h that]]) (use that new in \<open>auto simp: f\<close>)
  ultimately show ?thesis
    using h new by (auto simp: holds_lists_def a_init_def f)
qed

text \<open>Where \<open>pxIndex\<close> stands, the content splits around it.\<close>

lemma cursor_split:
  assumes h: "holds_lists D s a" and l: "l \<in> D"
  obtains as bs where "content a l = as @ bs" "after l bs = pxIndex s l"
    "insert_before (cursor a l) x (content a l) = as @ x # bs"
proof (cases "cursor a l")
  case None
  then show ?thesis
    using holds_listsD(2) [OF h l] that [of "content a l" "[]"] by (simp add: insert_before_def)
next
  case (Some y)
  then have i: "pxIndex s l = Item y"
    using holds_listsD(2) [OF h l] by simp
  with holds_listsD(1) [OF h l] have "y \<in> set (content a l)"
    by (auto simp: ring_def)
  then have ne: "dropWhile (\<lambda>z. z \<noteq> y) (content a l) \<noteq> []"
    by auto
  then have "after l (dropWhile (\<lambda>z. z \<noteq> y) (content a l)) = Item y"
    using hd_dropWhile [OF ne] by (simp add: hd_append hd_map)
  with that [of "takeWhile (\<lambda>z. z \<noteq> y) (content a l)" "dropWhile (\<lambda>z. z \<noteq> y) (content a l)"]
  show ?thesis
    using Some i by (simp add: insert_before_def)
qed

lemma vListInsertEnd_refines [refine_intros]:
  assumes h: "holds_lists D s a" and l: "l \<in> D" and free: "acontainer a x = None"
  shows "holds_lists D (vListInsertEnd l x s) (a_insert_end l x a)"
proof -
  obtain as bs where c: "content a l = as @ bs" and i: "after l bs = pxIndex s l"
    and ins: "insert_before (cursor a l) x (content a l) = as @ x # bs"
    by (rule cursor_split [OF h l])
  have r: "ring s l (as @ bs)"
    using holds_listsD(1) [OF h l] c by simp
  have x: "x \<notin> set (as @ bs)"
    using ring_container [OF r, of x] free holds_lists_item [OF h, of x] by simp
  have p: "pxPrevious s (pxIndex s l) = before l as"
    using ring_next_split(2) [OF r] i by simp
  have "before l as \<noteq> Item x" "after l bs \<noteq> Item x"
    using x by (cases as rule: rev_cases, auto) (cases bs, auto)
  with p i have "holds_lists D (vListInsertEnd l x s)
      (a\<lparr>content := (content a)(l := as @ x # bs), acontainer := (acontainer a)(x := Some l)\<rparr>)"
    by (intro holds_lists_insert [OF h l free c])
      (auto simp: vListInsertEnd_def Let_def fun_upd_twist simp del: last.simps)
  then show ?thesis
    by (simp add: a_insert_end_def ins)
qed

text \<open>
  The search loop of \<open>vListInsert\<close> returns: it walks the ring and cannot pass the end marker,
  whose value is above every value searched for.
\<close>

lemma insert_point_ring:
  assumes "linked s (p # map Item bs @ [Mark l])" and "xItemValue s (Mark l) = portMAX_DELAY"
    and "v \<noteq> portMAX_DELAY"
  shows "insert_point s v p =
     Some (last (p # map Item (takeWhile (\<lambda>y. xItemValue s (Item y) \<le> v) bs)))"
  using assms(1)
proof (induction bs arbitrary: p)
  case Nil
  with assms(2,3) show ?case
    by (subst insert_point.simps) (simp add: link_def)
next
  case (Cons b bs)
  then have "pxNext s p = Item b" and "linked s (Item b # map Item bs @ [Mark l])"
    by (simp_all add: link_def)
  then show ?case
    using Cons.IH [of "Item b"] by (subst insert_point.simps) simp
qed

lemma vListInsert_refines [refine_intros]:
  assumes h: "holds_lists D s a" and l: "l \<in> D" and free: "acontainer a x = None"
  shows "\<exists>s'. vListInsert l x s = Some s' \<and> holds_lists D s' (a_insert l x a)"
proof -
  let ?v = "avalue a x" and ?xs = "content a l"
  define as where "as = takeWhile (\<lambda>y. avalue a y \<le> ?v) ?xs"
  define bs where "bs = dropWhile (\<lambda>y. avalue a y \<le> ?v) ?xs"
  have c: "?xs = as @ bs"
    by (simp add: as_def bs_def)
  have r: "ring s l (as @ bs)"
    using holds_listsD(1) [OF h l] c by simp
  have x: "x \<notin> set (as @ bs)"
    using ring_container [OF r, of x] free holds_lists_item [OF h, of x] by simp
  have it: "(if ?v = portMAX_DELAY then Some (pxPrevious s (Mark l)) else insert_point s ?v (Mark l))
              = Some (before l as)"
  proof (cases "?v = portMAX_DELAY")
    case True
    then have "bs = []" by (simp add: bs_def)
    with True show ?thesis using ring_next_split(2) [OF r] by simp
  next
    case False
    have "linked s (Mark l # map Item ?xs @ [Mark l])" "xItemValue s (Mark l) = portMAX_DELAY"
      using holds_listsD(1) [OF h l] by (simp_all only: ring_def)
    from insert_point_ring [OF this False] False show ?thesis
      by (simp add: holds_lists_item [OF h] as_def)
  qed
  have ne: "before l as \<noteq> Item x" "after l bs \<noteq> Item x"
    using x by (cases as rule: rev_cases, auto) (cases bs, auto)
  obtain s' where s': "vListInsert l x s = Some s'"
    using it by (simp add: vListInsert_def Let_def holds_lists_item [OF h] del: last.simps)
  have "holds_lists D s'
      (a\<lparr>content := (content a)(l := as @ x # bs), acontainer := (acontainer a)(x := Some l)\<rparr>)"
    by (rule holds_lists_insert [OF h l free c])
      (use s' it ne ring_next_split(1) [OF r] in
        \<open>auto simp: vListInsert_def Let_def holds_lists_item [OF h] fun_upd_twist simp del: last.simps\<close>)
  then show ?thesis
    by (simp add: s' a_insert_def insert_sorted_def as_def bs_def)
qed

lemma takeWhile_dropWhile_mem:
  assumes "x \<in> set xs" and "distinct xs"
  obtains as bs where "xs = as @ x # bs" "takeWhile (\<lambda>z. z \<noteq> x) xs = as"
    "dropWhile (\<lambda>z. z \<noteq> x) xs = x # bs" "remove1 x xs = as @ bs"
proof -
  obtain as bs where xs: "xs = as @ x # bs"
    using split_list [OF assms(1)] by blast
  with assms(2) have "x \<notin> set as" by simp
  then show ?thesis
    using that [OF xs] xs by (auto simp: takeWhile_append dropWhile_append remove1_append)
qed

lemma cursor_before_split:
  assumes "x \<notin> set as"
  shows "before l as = (case cursor_before x (as @ x # bs) of None \<Rightarrow> Mark l | Some y \<Rightarrow> Item y)"
proof -
  have "takeWhile (\<lambda>z. z \<noteq> x) (as @ x # bs) = as"
    using assms by (subst takeWhile_append2) auto
  then show ?thesis
    by (cases as rule: rev_cases) (simp_all add: cursor_before_def)
qed

lemma uxListRemove_refines [refine_intros]:
  assumes h: "holds_lists D s a" and l: "l \<in> D" and on: "acontainer a x = Some l"
  shows "\<exists>s'. uxListRemove x s = Some (of_nat (length (content a l) - 1), s')
             \<and> holds_lists D s' (a_remove x a)"
proof -
  have x: "x \<in> set (content a l)"
    using ring_container [OF holds_listsD(1) [OF h l], of x] on holds_lists_item [OF h, of x] by simp
  obtain as bs where c: "content a l = as @ x # bs" and rem: "remove1 x (content a l) = as @ bs"
    by (rule takeWhile_dropWhile_mem [OF x ring_distinct [OF holds_listsD(1) [OF h l]]])
  have r: "ring s l (as @ x # bs)"
    using holds_listsD(1) [OF h l] c by simp
  have d: "x \<notin> set as" "x \<notin> set bs"
    using ring_distinct [OF r] by auto
  note links = ring_item_links [OF r]
  have ne: "before l as \<noteq> Item x" "after l bs \<noteq> Item x"
    using d by (cases as rule: rev_cases, auto) (cases bs, auto)
  obtain s' where s': "uxListRemove x s = Some (uxNumberOfItems s l - 1, s')"
    and f: "pxNext s' = (pxNext s)(before l as := after l bs)"
      "pxPrevious s' = (pxPrevious s)(after l bs := before l as)"
      "pvContainer s' = (pvContainer s)(x := None)"
      "uxNumberOfItems s' = (uxNumberOfItems s)(l := uxNumberOfItems s l - 1)"
      "pxIndex s' = (if pxIndex s l = Item x then (pxIndex s)(l := before l as) else pxIndex s)"
      "xItemValue s' = xItemValue s"
    using on links ne
    by (simp add: uxListRemove_def Let_def holds_lists_item [OF h] del: last.simps)
  have n: "uxNumberOfItems s l - 1 = of_nat (length (content a l) - 1)"
    using r c by (simp add: ring_def)
  have i: "pxIndex s l = Item x \<longleftrightarrow> cursor a l = Some x"
    using holds_listsD(2) [OF h l] by (auto split: option.splits)
  have "linked s' (Mark l # map Item (as @ bs) @ [Mark l])"
    by (rule ring_remove_links [OF _ _ f(1,2)]) (use r in \<open>auto simp: ring_def\<close>)
  moreover have "pxIndex s' l \<in> insert (Mark l) (Item ` set (as @ bs))"
    using r by (cases as rule: rev_cases) (auto simp: ring_def f)
  ultimately have rl: "ring s' l (as @ bs)"
    using r d by (auto simp: ring_def f)
  have rm: "ring s' m (content a m)" if m: "m \<in> D" "m \<noteq> l" for m
  proof (rule ring_frame [OF holds_listsD(1) [OF h m(1)]])
    have dj: "set (as @ x # bs) \<inter> set (content a m) = {}"
      using ring_disjoint [OF r holds_listsD(1) [OF h m(1)]] m(2) by auto
    have b: "before l as \<in> insert (Mark l) (Item ` set as)"
      by (cases as rule: rev_cases) auto
    have a: "after l bs \<in> insert (Mark l) (Item ` set bs)"
      by (cases bs) auto
    fix p
    assume "p \<in> insert (Mark m) (Item ` set (content a m))"
    with dj b a m(2) have "p \<noteq> before l as" "p \<noteq> after l bs"
      by auto
    then show "pxNext s' p = pxNext s p" "pxPrevious s' p = pxPrevious s p"
      by (simp_all add: f del: last.simps)
  qed (use m(2) on holds_lists_item [OF h, of x] in \<open>auto simp: f\<close>)
  have "holds_lists D s' (a_remove x a)"
    using h rl rm on holds_listsD(2) [OF h] i cursor_before_split [OF d(1), of l bs] c rem
    by (auto simp: holds_lists_def a_remove_def f simp del: last.simps)
  with s' n show ?thesis by simp
qed

lemma listGET_OWNER_OF_NEXT_ENTRY_refines [refine_intros]:
  assumes h: "holds_lists D s a" and l: "l \<in> D"
  shows "\<exists>s'. listGET_OWNER_OF_NEXT_ENTRY l s = (fst (a_next l a), s')
             \<and> holds_lists D s' (snd (a_next l a))"
proof -
  let ?xs = "content a l"
  have r: "ring s l ?xs" by (rule holds_listsD(1) [OF h l])
  have first: "pxNext s (Mark l) = after l ?xs"
    using ring_next_split(1) [where as = "[]" and bs = ?xs] r by simp
  have walk: "(let p = pxNext s (pxIndex s l) in if p = Mark l then pxNext s p else p)
      = (case walk_from (cursor a l) ?xs of None \<Rightarrow> Mark l | Some x \<Rightarrow> Item x)"
  proof (cases "cursor a l")
    case None
    then show ?thesis
      using first holds_listsD(2) [OF h l] by (cases ?xs) (auto simp: walk_from_def Let_def)
  next
    case (Some y)
    then have i: "pxIndex s l = Item y" using holds_listsD(2) [OF h l] by simp
    then have "y \<in> set ?xs" using r by (auto simp: ring_def)
    then obtain as bs where c: "?xs = as @ y # bs" and dw: "dropWhile (\<lambda>z. z \<noteq> y) ?xs = y # bs"
      by (rule takeWhile_dropWhile_mem [OF _ ring_distinct [OF r]])
    have "pxNext s (Item y) = after l bs"
      using ring_item_links(3) r c by metis
    with i Some first c dw show ?thesis
      by (cases bs; cases as) (auto simp: walk_from_def Let_def)
  qed
  have mem: "x \<in> set ?xs" if "walk_from (cursor a l) ?xs = Some x" for x
    using that by (auto simp: walk_from_def split: option.splits list.splits
        dest: tl_dropWhile_mem)
  define i where "i = (let p = pxNext s (pxIndex s l) in if p = Mark l then pxNext s p else p)"
  define s' where "s' = s\<lparr>pxIndex := (pxIndex s)(l := i)\<rparr>"
  have i: "i = (case walk_from (cursor a l) ?xs of None \<Rightarrow> Mark l | Some x \<Rightarrow> Item x)"
    unfolding i_def by (rule walk)
  have s': "listGET_OWNER_OF_NEXT_ENTRY l s = (case i of Item x \<Rightarrow> Some x | Mark _ \<Rightarrow> None, s')"
    by (simp add: listGET_OWNER_OF_NEXT_ENTRY_def Let_def i_def s'_def)
  have "ring s' m (content a m)" if m: "m \<in> D" for m
  proof (cases "m = l")
    case True
    have "linked s' (Mark l # map Item ?xs @ [Mark l])"
      using r by (subst linked_cong [where s = s]) (auto simp: s'_def ring_def)
    with r True mem show ?thesis
      by (auto simp: ring_def s'_def i split: option.splits)
  next
    case False
    then show ?thesis
      by (intro ring_frame [OF holds_listsD(1) [OF h m]]) (auto simp: s'_def)
  qed
  then have "holds_lists D s' (snd (a_next l a))"
    using h by (auto simp: holds_lists_def a_next_def Let_def s'_def i)
  then show ?thesis
    using s' i by (auto simp: a_next_def Let_def split: option.splits)
qed

end
