(* ===== verification/List_Spec.thy ===== *)
theory List_Spec
  imports List_Refine
begin

text \<open>
  What the users of the kernel lists rely on: the contract of a list kept sorted by
  \<open>vListInsert\<close> as a locale, the fairness of the round robin walk of
  \<open>listGET_OWNER_OF_NEXT_ENTRY\<close>, and the properties of \<open>list.c\<close> on the pointer store.
\<close>

section \<open>Sorted insertion\<close>

lemma set_insert_sorted [simp]: "set (insert_sorted f x xs) = insert x (set xs)"
  by (auto simp: insert_sorted_def dest: set_takeWhileD set_dropWhileD)
    (metis Un_iff set_append takeWhile_dropWhile_id)

lemma length_insert_sorted [simp]: "length (insert_sorted f x xs) = Suc (length xs)"
  by (simp add: insert_sorted_def) (metis length_append takeWhile_dropWhile_id)

lemma distinct_insert_sorted:
  assumes "distinct xs" and "x \<notin> set xs"
  shows "distinct (insert_sorted f x xs)"
proof -
  let ?P = "\<lambda>y. f y \<le> f x"
  have "distinct (takeWhile ?P xs @ dropWhile ?P xs)" using assms(1) by simp
  then have "distinct (takeWhile ?P xs)" "distinct (dropWhile ?P xs)"
    "set (takeWhile ?P xs) \<inter> set (dropWhile ?P xs) = {}"
    by (simp_all only: distinct_append)
  with assms(2) show ?thesis
    by (auto simp: insert_sorted_def dest: set_takeWhileD set_dropWhileD)
qed

lemma sorted_insert_sorted:
  assumes "sorted (map f xs)"
  shows "sorted (map f (insert_sorted f x xs))"
proof -
  let ?P = "\<lambda>y. f y \<le> f x"
  have "sorted (map f (takeWhile ?P xs @ dropWhile ?P xs))" using assms by simp
  then have "sorted (map f (takeWhile ?P xs))" "sorted (map f (dropWhile ?P xs))"
    by (simp_all only: map_append sorted_append)
  moreover have "f x < f y" if "y \<in> set (dropWhile ?P xs)" for y
    using assms that by (rule dropWhile_le_greater)
  ultimately show ?thesis
    by (fastforce simp: insert_sorted_def sorted_append dest: takeWhile_le)
qed

text \<open>Among items of one value, insertion appends: first in, first out.\<close>

lemma filter_insert_sorted:
  assumes "sorted (map f xs)"
  shows "filter (\<lambda>y. f y = k) (insert_sorted f x xs) =
           filter (\<lambda>y. f y = k) xs @ (if f x = k then [x] else [])"
proof -
  let ?P = "\<lambda>y. f y \<le> f x" and ?Q = "\<lambda>y. f y = k"
  have split: "filter ?Q xs = filter ?Q (takeWhile ?P xs) @ filter ?Q (dropWhile ?P xs)"
    by (metis filter_append takeWhile_dropWhile_id)
  have "filter ?Q (dropWhile ?P xs) = []" if "f x = k"
    using that dropWhile_le_greater [OF assms, of _ "f x"] by (fastforce simp: filter_empty_conv)
  then show ?thesis by (simp add: insert_sorted_def split)
qed

section \<open>The contract of a sorted kernel list\<close>

locale sorted_list =
  fixes items :: "'s \<Rightarrow> 'i list"
    and key :: "'s \<Rightarrow> 'i \<Rightarrow> tick"
    and ins :: "'i \<Rightarrow> 's \<Rightarrow> 's"
    and del :: "'i \<Rightarrow> 's \<Rightarrow> 's"
    and listed :: "'i \<Rightarrow> 's \<Rightarrow> bool"
    and sound :: "'s \<Rightarrow> bool"
  assumes items_ins: "sound s \<Longrightarrow> \<not> listed x s \<Longrightarrow> items (ins x s) = insert_sorted (key s) x (items s)"
    and items_del: "sound s \<Longrightarrow> listed x s \<Longrightarrow> items (del x s) = remove1 x (items s)"
    and key_ins: "key (ins x s) = key s"
    and key_del: "key (del x s) = key s"
    and listed_items: "sound s \<Longrightarrow> listed x s \<longleftrightarrow> x \<in> set (items s)"
    and sound_distinct: "sound s \<Longrightarrow> distinct (items s)"
begin

definition in_order :: "'s \<Rightarrow> bool" where
  "in_order s \<longleftrightarrow> sorted (map (key s) (items s))"

lemma in_order_ins: "sound s \<Longrightarrow> \<not> listed x s \<Longrightarrow> in_order s \<Longrightarrow> in_order (ins x s)"
  by (simp add: in_order_def items_ins key_ins sorted_insert_sorted)

lemma in_order_del: "sound s \<Longrightarrow> listed x s \<Longrightarrow> in_order s \<Longrightarrow> in_order (del x s)"
  by (simp add: in_order_def items_del key_del sorted_map_remove1)

lemma head_least: "in_order s \<Longrightarrow> items s = x # xs \<Longrightarrow> y \<in> set (items s) \<Longrightarrow> key s x \<le> key s y"
  by (auto simp: in_order_def)

lemma set_items_ins: "sound s \<Longrightarrow> \<not> listed x s \<Longrightarrow> set (items (ins x s)) = insert x (set (items s))"
  by (simp add: items_ins)

lemma set_items_del: "sound s \<Longrightarrow> listed x s \<Longrightarrow> set (items (del x s)) = set (items s) - {x}"
  by (simp add: items_del sound_distinct)

lemma fifo_ins:
  "sound s \<Longrightarrow> \<not> listed x s \<Longrightarrow> in_order s \<Longrightarrow>
     filter (\<lambda>y. key s y = k) (items (ins x s)) =
       filter (\<lambda>y. key s y = k) (items s) @ (if key s x = k then [x] else [])"
  by (simp add: in_order_def items_ins filter_insert_sorted)

end

text \<open>The abstract lists are consistent: contents are distinct and agree with the containers.\<close>

definition alists_ok :: "('i, 'l) alists \<Rightarrow> bool" where
  "alists_ok a \<longleftrightarrow> (\<forall>l. distinct (content a l)
     \<and> (\<forall>x. acontainer a x = Some l \<longleftrightarrow> x \<in> set (content a l))
     \<and> (\<forall>x. cursor a l = Some x \<longrightarrow> x \<in> set (content a l)))"

lemma alists_okD:
  assumes "alists_ok a"
  shows "distinct (content a l)" and "acontainer a x = Some l \<longleftrightarrow> x \<in> set (content a l)"
    and "cursor a l = Some x \<Longrightarrow> x \<in> set (content a l)"
  using assms by (auto simp: alists_ok_def)

lemma holds_lists_ok: "holds_lists UNIV s a \<Longrightarrow> alists_ok a"
  unfolding holds_lists_def alists_ok_def ring_def by (fastforce split: option.splits)

interpretation kl: sorted_list
  "\<lambda>a. content a l" avalue "\<lambda>x a. a_insert l x a" "\<lambda>x a. a_remove x a"
  "\<lambda>x a. acontainer a x = Some l" alists_ok for l
  by unfold_locales
    (simp add: a_insert_def | simp add: a_remove_def split: option.split | simp add: alists_okD)+

section \<open>The round robin walk\<close>

text \<open>\<open>n\<close> successive calls of \<open>listGET_OWNER_OF_NEXT_ENTRY\<close>: the items returned, the final state.\<close>

fun a_walk :: "nat \<Rightarrow> 'l \<Rightarrow> ('i, 'l) alists \<Rightarrow> 'i option list \<times> ('i, 'l) alists" where
  "a_walk 0 l a = ([], a)"
| "a_walk (Suc n) l a =
     (let (x, a1) = a_next l a; (xs, a2) = a_walk n l a1 in (x # xs, a2))"

fun owner_walk ::
  "nat \<Rightarrow> 'l \<Rightarrow> ('i, 'l, 'o) store \<Rightarrow> 'i option list \<times> ('i, 'l, 'o) store" where
  "owner_walk 0 l s = ([], s)"
| "owner_walk (Suc n) l s =
     (let (x, s1) = listGET_OWNER_OF_NEXT_ENTRY l s; (xs, s2) = owner_walk n l s1 in (x # xs, s2))"

lemma owner_walk_refines:
  assumes "holds_lists D s a" and "l \<in> D"
  shows "fst (owner_walk n l s) = fst (a_walk n l a)
     \<and> holds_lists D (snd (owner_walk n l s)) (snd (a_walk n l a))"
  using assms(1)
proof (induction n arbitrary: s a)
  case (Suc n)
  obtain s1 where "listGET_OWNER_OF_NEXT_ENTRY l s = (fst (a_next l a), s1)"
    and "holds_lists D s1 (snd (a_next l a))"
    using listGET_OWNER_OF_NEXT_ENTRY_refines [OF Suc.prems assms(2)] by blast
  with Suc.IH [of s1 "snd (a_next l a)"] show ?case
    by (auto simp: Let_def split: prod.splits)
qed simp_all

text \<open>What lies after the cursor up to the end marker, and what lies before it.\<close>

definition ahead :: "'i option \<Rightarrow> 'i list \<Rightarrow> 'i list" where
  "ahead c xs = (case c of None \<Rightarrow> xs | Some y \<Rightarrow> tl (dropWhile (\<lambda>z. z \<noteq> y) xs))"

definition behind :: "'i option \<Rightarrow> 'i list \<Rightarrow> 'i list" where
  "behind c xs = (case c of None \<Rightarrow> [] | Some y \<Rightarrow> takeWhile (\<lambda>z. z \<noteq> y) xs)"

lemma ahead_Some_split [simp]: "y \<notin> set us \<Longrightarrow> ahead (Some y) (us @ y # vs) = vs"
  by (simp add: ahead_def dropWhile_append)

lemma behind_Some_split [simp]: "y \<notin> set us \<Longrightarrow> behind (Some y) (us @ y # vs) = us"
  by (simp add: behind_def takeWhile_append)

lemma ahead_behind_Cons [simp]: "ahead (Some y) (y # vs) = vs" "behind (Some y) (y # vs) = []"
  by (simp_all add: ahead_def behind_def)

lemma ahead_behind_None [simp]: "ahead None xs = xs" "behind None xs = []"
  by (simp_all add: ahead_def behind_def)

lemma a_walk_ahead:
  assumes "distinct (content a l)" and "ahead (cursor a l) (content a l) = zs @ ws"
  shows "a_walk (length zs) l a = (map Some zs,
           set_cursor l (if zs = [] then cursor a l else Some (last zs)) a)"
  using assms
proof (induction zs arbitrary: a)
  case (Cons z zs)
  let ?a = "set_cursor l (Some z) a"
  have n: "a_next l a = (Some z, ?a)"
    using Cons.prems(2) by (simp add: a_next_def walk_from_def ahead_def Let_def)
  have "\<exists>us. content a l = us @ z # zs @ ws"
  proof (cases "cursor a l")
    case None
    with Cons.prems(2) show ?thesis by (auto simp: ahead_def)
  next
    case (Some y)
    with Cons.prems(2) have "tl (dropWhile (\<lambda>z. z \<noteq> y) (content a l)) = z # zs @ ws"
      by (simp add: ahead_def)
    then obtain d where "dropWhile (\<lambda>z. z \<noteq> y) (content a l) = d # z # zs @ ws"
      by (cases "dropWhile (\<lambda>z. z \<noteq> y) (content a l)") auto
    then have "content a l = takeWhile (\<lambda>z. z \<noteq> y) (content a l) @ d # z # zs @ ws"
      using takeWhile_dropWhile_id [of "\<lambda>z. z \<noteq> y" "content a l"] by simp
    then show ?thesis by (intro exI [of _ "takeWhile (\<lambda>z. z \<noteq> y) (content a l) @ [d]"]) simp
  qed
  then obtain us where us: "content a l = us @ z # zs @ ws" by blast
  with Cons.prems(1) have "z \<notin> set us" by auto
  then have "ahead (cursor ?a l) (content ?a l) = zs @ ws"
    using us by (simp add: ahead_def dropWhile_append)
  from Cons.IH [OF _ this] Cons.prems(1) n show ?case
    by (auto simp: Let_def split: prod.splits)
qed simp_all

lemma a_walk_add:
  "a_walk m l a = (xs, a1) \<Longrightarrow> fst (a_walk (m + n) l a) = xs @ fst (a_walk n l a1)"
  by (induction m arbitrary: a xs) (fastforce simp: Let_def split: prod.splits)+

text \<open>Past the end marker the walk starts again at the head.\<close>

lemma a_walk_wrap:
  assumes "distinct (content a l)" and "ahead (cursor a l) (content a l) = []"
    and "content a l = zs @ ws"
  shows "fst (a_walk (length zs) l a) = map Some zs"
proof (cases zs)
  case (Cons z zs')
  let ?a = "set_cursor l (Some z) a"
  have n: "a_next l a = (Some z, ?a)"
    using assms(2,3) Cons by (simp add: a_next_def walk_from_def ahead_def Let_def)
  have "ahead (cursor ?a l) (content ?a l) = zs' @ ws"
    using assms(3) Cons by (simp add: ahead_def)
  from a_walk_ahead [OF _ this] assms(1) n Cons show ?thesis
    by (auto simp: Let_def split: prod.splits)
qed simp

lemma a_walk_round:
  assumes d: "distinct (content a l)" and c: "\<And>y. cursor a l = Some y \<Longrightarrow> y \<in> set (content a l)"
    and b: "behind (cursor a l) (content a l) @ (case cursor a l of None \<Rightarrow> [] | Some y \<Rightarrow> [y]) = zs @ ws"
  shows "fst (a_walk (length (ahead (cursor a l) (content a l) @ zs)) l a)
           = map Some (ahead (cursor a l) (content a l) @ zs)"
proof -
  let ?xs = "content a l" and ?h = "ahead (cursor a l) (content a l)"
  let ?a = "set_cursor l (if ?h = [] then cursor a l else Some (last ?h)) a"
  have 1: "a_walk (length ?h) l a = (map Some ?h, ?a)"
    by (rule a_walk_ahead [OF d, of _ "[]"]) simp
  have "fst (a_walk (length zs) l ?a) = map Some zs"
  proof (cases "cursor a l")
    case None
    with b show ?thesis by (simp add: behind_def)
  next
    case (Some y)
    obtain as bs where xs: "?xs = as @ y # bs" and tw: "takeWhile (\<lambda>z. z \<noteq> y) ?xs = as"
      and dw: "dropWhile (\<lambda>z. z \<noteq> y) ?xs = y # bs"
      by (rule takeWhile_dropWhile_mem [OF c [OF Some] d])
    have h: "?h = bs" using Some dw by (simp add: ahead_def)
    have zs: "as @ [y] = zs @ ws" using b Some tw by (simp add: behind_def)
    have "ahead (cursor ?a l) (content ?a l) = []"
    proof (cases bs rule: rev_cases)
      case Nil
      with Some h show ?thesis by simp
    next
      case (snoc cs c)
      have "c \<notin> set (as @ y # cs)" using d xs snoc by auto
      then show ?thesis
        using h ahead_Some_split [of c "as @ y # cs" "[]"] xs snoc by simp
    qed
    moreover have "content ?a l = zs @ ws @ bs"
      using xs zs by (simp add: append_eq_append_conv2)
    ultimately show ?thesis
      using a_walk_wrap [of ?a l zs "ws @ bs"] d by simp
  qed
  with a_walk_add [OF 1, of "length zs"] show ?thesis by simp
qed

text \<open>The order of the next round: after the cursor, before it, the cursor's own item last.\<close>

definition rotation :: "'i option \<Rightarrow> 'i list \<Rightarrow> 'i list" where
  "rotation c xs = ahead c xs @ behind c xs @ (case c of None \<Rightarrow> [] | Some y \<Rightarrow> [y])"

lemma length_rotation:
  "distinct xs \<Longrightarrow> (\<And>y. c = Some y \<Longrightarrow> y \<in> set xs) \<Longrightarrow> length (rotation c xs) = length xs"
  by (cases c) (auto simp: rotation_def elim!: takeWhile_dropWhile_mem)

lemma a_walk_prefix:
  assumes "distinct (content a l)" and "\<And>y. cursor a l = Some y \<Longrightarrow> y \<in> set (content a l)"
    and "rotation (cursor a l) (content a l) = ys @ zs"
    and "length (ahead (cursor a l) (content a l)) \<le> length ys"
  shows "fst (a_walk (length ys) l a) = map Some ys"
proof -
  let ?h = "ahead (cursor a l) (content a l)"
  from assms(3,4) obtain us where "ys = ?h @ us"
    unfolding rotation_def by (auto simp: append_eq_append_conv2)
  with assms(3) a_walk_round [OF assms(1,2), where zs = us and ws = zs] show ?thesis
    by (simp add: rotation_def)
qed

lemma rotation_insert_before:
  assumes "distinct xs" and "\<And>y. c = Some y \<Longrightarrow> y \<in> set xs" and "x \<notin> set xs"
  shows "ahead c (insert_before c x xs) = ahead c xs @ (if c = None then [x] else [])"
    and "rotation c (insert_before c x xs) = ahead c xs @ behind c xs @ x # (case c of None \<Rightarrow> [] | Some y \<Rightarrow> [y])"
proof -
  have "ahead c (insert_before c x xs) = ahead c xs @ (if c = None then [x] else [])
    \<and> rotation c (insert_before c x xs) = ahead c xs @ behind c xs @ x # (case c of None \<Rightarrow> [] | Some y \<Rightarrow> [y])"
  proof (cases c)
    case (Some y)
    obtain as bs where xs: "xs = as @ y # bs" and "takeWhile (\<lambda>z. z \<noteq> y) xs = as"
      and "dropWhile (\<lambda>z. z \<noteq> y) xs = y # bs"
      by (rule takeWhile_dropWhile_mem [OF assms(2) [OF Some] assms(1)])
    then have "insert_before c x xs = (as @ [x]) @ y # bs" by (simp add: Some insert_before_def)
    moreover have "y \<notin> set (as @ [x])" "y \<notin> set as" using assms(1,3) xs by auto
    ultimately show ?thesis
      using ahead_Some_split [of y "as @ [x]" bs] behind_Some_split [of y "as @ [x]" bs]
      by (simp add: Some rotation_def xs)
  qed (simp add: rotation_def insert_before_def)
  then show "ahead c (insert_before c x xs) = ahead c xs @ (if c = None then [x] else [])"
    "rotation c (insert_before c x xs) = ahead c xs @ behind c xs @ x # (case c of None \<Rightarrow> [] | Some y \<Rightarrow> [y])"
    by simp_all
qed

lemma rotation_remove:
  assumes "distinct xs" and "\<And>y. c = Some y \<Longrightarrow> y \<in> set xs" and "x \<in> set xs"
  shows "rotation (if c = Some x then cursor_before x xs else c) (remove1 x xs)
           = remove1 x (rotation c xs)"
proof (cases c)
  case None
  then show ?thesis by (simp add: rotation_def)
next
  case (Some y)
  obtain as bs where xs: "xs = as @ x # bs" and r: "remove1 x xs = as @ bs"
    and tw: "takeWhile (\<lambda>z. z \<noteq> x) xs = as"
    by (rule takeWhile_dropWhile_mem [OF assms(3,1)])
  have d: "x \<notin> set as" "x \<notin> set bs" "distinct as" "distinct bs" "set as \<inter> set bs = {}"
    using assms(1) xs by auto
  consider "y = x" | "y \<in> set as" | "y \<in> set bs"
    using assms(2) [OF Some] xs by auto
  then show ?thesis
  proof cases
    case 1
    show ?thesis
    proof (cases as rule: rev_cases)
      case Nil
      with 1 Some tw xs d show ?thesis by (simp add: rotation_def cursor_before_def remove1_append)
    next
      case (snoc us u)
      have "u \<notin> set us" using d snoc by simp
      with 1 Some tw xs d snoc show ?thesis
        using ahead_Some_split [of x "us @ [u]" bs] behind_Some_split [of x "us @ [u]" bs]
        by (simp add: rotation_def cursor_before_def remove1_append)
    qed
  next
    case 2
    then obtain us vs where as: "as = us @ y # vs" using split_list by metis
    have "y \<notin> set us" "y \<noteq> x" using d as by auto
    with Some xs as d r show ?thesis
      using ahead_Some_split [of y us "vs @ x # bs"] behind_Some_split [of y us "vs @ x # bs"]
      by (simp add: rotation_def remove1_append)
  next
    case 3
    then obtain us vs where bs: "bs = us @ y # vs" using split_list by metis
    have "y \<notin> set (as @ x # us)" "y \<notin> set (as @ us)" "y \<noteq> x" using d bs by auto
    with Some xs bs d r show ?thesis
      using ahead_Some_split [of y "as @ x # us" vs] behind_Some_split [of y "as @ x # us" vs]
        ahead_Some_split [of y "as @ us" vs] behind_Some_split [of y "as @ us" vs]
      by (simp add: rotation_def remove1_append)
  qed
qed

declare a_walk.simps [simp del] owner_walk.simps [simp del]

section \<open>Properties of list.c\<close>

text \<open>A concrete store for the witnesses: list 0 holding items 1 (value 10), 2 (value 20).\<close>

definition blank_store :: "(nat, nat, nat) store" where
  "blank_store = \<lparr>xItemValue = (\<lambda>p. case p of Item x \<Rightarrow> of_nat (10 * x) | Mark _ \<Rightarrow> 0),
     pxNext = (\<lambda>_. Mark 0), pxPrevious = (\<lambda>_. Mark 0), pvOwner = (\<lambda>_. None),
     pvContainer = (\<lambda>_. None), pxIndex = (\<lambda>_. Mark 0), uxNumberOfItems = (\<lambda>_. 0)\<rparr>"

definition blank_lists :: "(nat, nat) alists" where
  "blank_lists = \<lparr>content = (\<lambda>_. []), cursor = (\<lambda>_. None), avalue = (\<lambda>x. of_nat (10 * x)),
     acontainer = (\<lambda>_. None)\<rparr>"

definition demo_store :: "(nat, nat, nat) store" where
  "demo_store = vListInsertEnd 0 2 (vListInsertEnd 0 1 (vListInitialise 0 blank_store))"

definition demo_lists :: "(nat, nat) alists" where
  "demo_lists = a_insert_end 0 2 (a_insert_end 0 1 (a_init 0 blank_lists))"

lemma demo_holds: "holds_lists {0} demo_store demo_lists"
proof -
  have "holds_lists {} blank_store blank_lists"
    by (simp add: holds_lists_def blank_store_def blank_lists_def)
  then have "holds_lists {0} (vListInitialise 0 blank_store) (a_init 0 blank_lists)"
    by (rule vListInitialise_refines) (simp_all add: blank_lists_def)
  then show ?thesis
    unfolding demo_store_def demo_lists_def
    by (intro vListInsertEnd_refines) (simp_all add: a_init_def blank_lists_def a_insert_end_def)
qed

lemma demo_lists_simps [simp]:
  "content demo_lists 0 = [1, 2]" "cursor demo_lists 0 = None"
  "avalue demo_lists x = of_nat (10 * x)"
  "acontainer demo_lists x = (if x \<in> {1, 2} then Some 0 else None)"
  by (simp_all add: demo_lists_def a_insert_end_def a_init_def blank_lists_def insert_before_def)

text \<open>
  C1. \<open>vListInsert\<close> always returns on a well-formed list, whatever the value inserted
  (\<open>portMAX_DELAY\<close> included), and puts the free item behind every item whose value is not above
  its own: the list and all other lists of the store stay well formed, a list in ascending order
  stays in ascending order, and among items of one value the new one comes last.
\<close>

theorem vListInsert_sorted_insertion:
  assumes "holds_lists D s a" and "l \<in> D" and "acontainer a x = None"
  shows "\<exists>s'. vListInsert l x s = Some s' \<and> holds_lists D s' (a_insert l x a)
    \<and> (sorted (map (avalue a) (content a l)) \<longrightarrow>
         sorted (map (avalue a) (content (a_insert l x a) l))
         \<and> (\<forall>k. filter (\<lambda>y. avalue a y = k) (content (a_insert l x a) l) =
               filter (\<lambda>y. avalue a y = k) (content a l) @ (if avalue a x = k then [x] else [])))"
  using vListInsert_refines [OF assms]
  by (simp add: a_insert_def sorted_insert_sorted filter_insert_sorted)

theorem vListInsert_sorted_insertion_witness:
  "\<exists>s'. vListInsert 0 3 demo_store = Some s' \<and> holds_lists {0} s' (a_insert 0 3 demo_lists)
    \<and> sorted (map (avalue demo_lists) (content (a_insert 0 3 demo_lists) 0))"
proof -
  have "sorted (map (avalue demo_lists) (content demo_lists 0))" by simp
  then show ?thesis
    using vListInsert_sorted_insertion [OF demo_holds, of 0 3] by auto
qed

text \<open>
  Fairness of the ready lists: after \<open>vListInsertEnd\<close> the walk of
  \<open>listGET_OWNER_OF_NEXT_ENTRY\<close> returns every other item of the list once, in the order it would
  have returned them, and then the new item, before it comes back to the item \<open>pxIndex\<close> stands on.
\<close>

theorem vListInsertEnd_returned_last:
  assumes "holds_lists D s a" and "l \<in> D" and "acontainer a x = None"
  shows "let others = ahead (cursor a l) (content a l) @ behind (cursor a l) (content a l)
         in fst (owner_walk (Suc (length others)) l (vListInsertEnd l x s)) = map Some (others @ [x])"
proof -
  let ?c = "cursor a l" and ?xs = "content a l" and ?a = "a_insert_end l x a"
  note r = holds_listsD(1) [OF assms(1,2)]
  have h: "holds_lists D (vListInsertEnd l x s) ?a"
    by (rule vListInsertEnd_refines [OF assms])
  have c: "\<And>y. ?c = Some y \<Longrightarrow> y \<in> set ?xs"
    using r holds_listsD(2) [OF assms(1,2)] by (auto simp: ring_def)
  have x: "x \<notin> set ?xs"
    using ring_container [OF r, of x] assms(3) holds_lists_item [OF assms(1)] by simp
  have n: "content ?a l = insert_before ?c x ?xs" "cursor ?a l = ?c"
    by (simp_all add: a_insert_end_def)
  have c': "\<And>y. cursor ?a l = Some y \<Longrightarrow> y \<in> set (content ?a l)"
    using holds_listsD [OF h assms(2)] by (auto simp: ring_def)
  have "fst (a_walk (length (ahead ?c ?xs @ behind ?c ?xs @ [x])) l ?a)
        = map Some (ahead ?c ?xs @ behind ?c ?xs @ [x])"
    by (rule a_walk_prefix [OF ring_distinct [OF holds_listsD(1) [OF h assms(2)]] c',
          where zs = "case ?c of None \<Rightarrow> [] | Some y \<Rightarrow> [y]"])
      (use rotation_insert_before [OF ring_distinct [OF r] c x] in \<open>simp_all add: n\<close>)
  then show ?thesis
    using owner_walk_refines [OF h assms(2)] by (simp add: Let_def)
qed

theorem vListInsertEnd_returned_last_witness:
  "fst (owner_walk 3 0 (vListInsertEnd 0 3 demo_store)) = [Some 1, Some 2, Some 3]"
  using vListInsertEnd_returned_last [OF demo_holds, of 0 3] by (simp add: Let_def eval_nat_numeral)

text \<open>
  \<open>uxListRemove\<close> takes the item out of its list in place: it returns the number of items left,
  every other list is untouched, and the round robin walk continues in the same order without it
  (\<open>pxIndex\<close> steps back when it stood on the item removed).
\<close>

theorem uxListRemove_keeps_walk_order:
  assumes "holds_lists D s a" and "l \<in> D" and "acontainer a x = Some l"
  shows "\<exists>s'. uxListRemove x s = Some (of_nat (length (content a l) - 1), s')
    \<and> holds_lists D s' (a_remove x a)
    \<and> fst (owner_walk (length (content a l) - 1) l s') =
        map Some (remove1 x (rotation (cursor a l) (content a l)))"
proof -
  let ?c = "cursor a l" and ?xs = "content a l" and ?a = "a_remove x a"
  note r = holds_listsD(1) [OF assms(1,2)]
  obtain s' where s': "uxListRemove x s = Some (of_nat (length ?xs - 1), s')"
    and h: "holds_lists D s' ?a"
    using uxListRemove_refines [OF assms] by blast
  have c: "\<And>y. ?c = Some y \<Longrightarrow> y \<in> set ?xs"
    using r holds_listsD(2) [OF assms(1,2)] by (auto simp: ring_def)
  have x: "x \<in> set ?xs"
    using ring_container [OF r, of x] assms(3) holds_lists_item [OF assms(1)] by simp
  have n: "content ?a l = remove1 x ?xs" "cursor ?a l = (if ?c = Some x then cursor_before x ?xs else ?c)"
    by (simp_all add: a_remove_def assms(3))
  have c': "\<And>y. cursor ?a l = Some y \<Longrightarrow> y \<in> set (content ?a l)"
    using holds_listsD [OF h assms(2)] by (auto simp: ring_def)
  have d: "distinct (content ?a l)"
    by (rule ring_distinct [OF holds_listsD(1) [OF h assms(2)]])
  have rot: "rotation (cursor ?a l) (content ?a l) = remove1 x (rotation ?c ?xs)"
    unfolding n by (rule rotation_remove [OF ring_distinct [OF r] c x])
  have "length (remove1 x (rotation ?c ?xs)) = length ?xs - 1"
    using length_rotation [OF d c'] x by (simp add: rot [symmetric] n length_remove1)
  moreover have "length (ahead (cursor ?a l) (content ?a l)) \<le> length (remove1 x (rotation ?c ?xs))"
    unfolding rot [symmetric] by (simp add: rotation_def)
  then have "fst (a_walk (length (remove1 x (rotation ?c ?xs))) l ?a)
        = map Some (remove1 x (rotation ?c ?xs))"
    by (intro a_walk_prefix [OF d c', where zs = "[]"]) (simp_all add: rot)
  ultimately show ?thesis
    using s' h owner_walk_refines [OF h assms(2)] by simp
qed

theorem uxListRemove_keeps_walk_order_witness:
  "\<exists>s'. uxListRemove 1 demo_store = Some (1, s') \<and> fst (owner_walk 1 0 s') = [Some 2]"
  using uxListRemove_keeps_walk_order [OF demo_holds, of 0 1]
  by (auto simp: rotation_def eval_nat_numeral)

end
