(* ===== verification/Heap4.thy ===== *)
theory Heap4
  imports Prelude
begin

text \<open>
  The allocator \<open>freeRtos/Source/portable/MemMang/heap_4.c\<close>: first fit over an address ordered
  list of free blocks, with splitting and coalescing. A block starts with an 8-byte
  \<open>BlockLink_t\<close> header; the state gives the two header fields of every address. Pointers are
  addresses (\<open>nat\<close>, NULL is 0: C has no wrap-around on pointers), \<open>size_t\<close> values are 32-bit
  words. The scheduler suspension around the list accesses makes each call one step, and the
  \<open>vApplicationMallocFailedHook\<close> of the application is an argument of \<open>pvPortMalloc\<close>.
\<close>

section \<open>State\<close>

record heap4 =
  ucHeap :: nat
  xStart :: nat
  pxEnd :: nat
  pxNextFreeBlock :: "nat \<Rightarrow> nat"
  xBlockSize :: "nat \<Rightarrow> u32"
  xFreeBytesRemaining :: u32
  xMinimumEverFreeBytesRemaining :: u32
  xBlockAllocatedBit :: u32

definition portBYTE_ALIGNMENT :: u32 where "portBYTE_ALIGNMENT = 4"
definition portBYTE_ALIGNMENT_MASK :: u32 where "portBYTE_ALIGNMENT_MASK = 3"
definition configTOTAL_HEAP_SIZE :: u32 where "configTOTAL_HEAP_SIZE = 64 * 1024"

text \<open>\<open>sizeof( BlockLink_t )\<close> is 8 on the 32-bit target.\<close>

definition xHeapStructSize :: u32 where
  "xHeapStructSize = (8 + (portBYTE_ALIGNMENT - 1)) AND NOT portBYTE_ALIGNMENT_MASK"

definition heapMINIMUM_BLOCK_SIZE :: u32 where
  "heapMINIMUM_BLOCK_SIZE = push_bit 1 xHeapStructSize"

abbreviation write_next :: "nat \<Rightarrow> nat \<Rightarrow> heap4 \<Rightarrow> heap4" where
  "write_next p q h \<equiv> h\<lparr>pxNextFreeBlock := (pxNextFreeBlock h)(p := q)\<rparr>"

abbreviation write_size :: "nat \<Rightarrow> u32 \<Rightarrow> heap4 \<Rightarrow> heap4" where
  "write_size p n h \<equiv> h\<lparr>xBlockSize := (xBlockSize h)(p := n)\<rparr>"

section \<open>Operations\<close>

definition prvHeapInit :: "heap4 \<Rightarrow> heap4" where
  "prvHeapInit h =
     (let addr0 = (of_nat (ucHeap h) :: u32);
          (addr1, total) =
            (if addr0 AND portBYTE_ALIGNMENT_MASK \<noteq> 0
             then (let a = (addr0 + (portBYTE_ALIGNMENT - 1)) AND NOT portBYTE_ALIGNMENT_MASK
                   in (a, configTOTAL_HEAP_SIZE - (a - of_nat (ucHeap h))))
             else (addr0, configTOTAL_HEAP_SIZE));
          aligned = unat addr1;
          h1 = write_size (xStart h) 0 (write_next (xStart h) aligned h);
          addr2 = ((of_nat aligned + total) - xHeapStructSize) AND NOT portBYTE_ALIGNMENT_MASK;
          h2 = h1\<lparr>pxEnd := unat addr2\<rparr>;
          h3 = write_next (pxEnd h2) 0 (write_size (pxEnd h2) 0 h2);
          h4 = write_next aligned (pxEnd h3) (write_size aligned (addr2 - of_nat aligned) h3)
      in h4\<lparr>xMinimumEverFreeBytesRemaining := xBlockSize h4 aligned,
            xFreeBytesRemaining := xBlockSize h4 aligned,
            xBlockAllocatedBit := push_bit (4 * 8 - 1) 1\<rparr>)"

partial_function (option) insert_position :: "heap4 \<Rightarrow> nat \<Rightarrow> nat \<Rightarrow> nat option" where
  "insert_position h b it =
     (if pxNextFreeBlock h it < b then insert_position h b (pxNextFreeBlock h it) else Some it)"

definition prvInsertBlockIntoFreeList :: "nat \<Rightarrow> heap4 \<Rightarrow> heap4 option" where
  "prvInsertBlockIntoFreeList b h =
     (case insert_position h b (xStart h) of
        None \<Rightarrow> None
      | Some it \<Rightarrow>
          (let (h1, b1) =
                 (if it + unat (xBlockSize h it) = b
                  then (write_size it (xBlockSize h it + xBlockSize h b) h, it) else (h, b));
               nx = pxNextFreeBlock h1 it;
               h2 =
                 (if b1 + unat (xBlockSize h1 b1) = nx
                  then (if nx \<noteq> pxEnd h1
                        then (let h' = write_size b1 (xBlockSize h1 b1 + xBlockSize h1 nx) h1
                              in write_next b1 (pxNextFreeBlock h' (pxNextFreeBlock h' it)) h')
                        else write_next b1 (pxEnd h1) h1)
                  else write_next b1 nx h1)
           in Some (if it \<noteq> b1 then write_next it b1 h2 else h2)))"

partial_function (option) first_fit :: "heap4 \<Rightarrow> u32 \<Rightarrow> nat \<Rightarrow> nat \<Rightarrow> (nat \<times> nat) option" where
  "first_fit h w prev blk =
     (if xBlockSize h blk < w \<and> pxNextFreeBlock h blk \<noteq> 0
      then first_fit h w blk (pxNextFreeBlock h blk) else Some (prev, blk))"

text \<open>The size asked for, with the header added and rounded up to the alignment.\<close>

definition adjust_size :: "u32 \<Rightarrow> u32 outcome" where
  "adjust_size w =
     (if w > 0
      then (let w1 = w + xHeapStructSize
            in if w1 AND portBYTE_ALIGNMENT_MASK \<noteq> 0
               then (let w2 = w1 + (portBYTE_ALIGNMENT - (w1 AND portBYTE_ALIGNMENT_MASK))
                     in configASSERT (w2 AND portBYTE_ALIGNMENT_MASK = 0) (Returns w2))
               else Returns w1)
      else Returns w)"

text \<open>Accounting for a block that was taken off the list, and marking it allocated.\<close>

definition charge_block :: "nat \<Rightarrow> heap4 \<Rightarrow> heap4" where
  "charge_block blk h =
     (let h3 = h\<lparr>xFreeBytesRemaining := xFreeBytesRemaining h - xBlockSize h blk\<rparr>;
          h4 = (if xFreeBytesRemaining h3 < xMinimumEverFreeBytesRemaining h3
                then h3\<lparr>xMinimumEverFreeBytesRemaining := xFreeBytesRemaining h3\<rparr> else h3)
      in write_next blk 0 (write_size blk (xBlockSize h4 blk OR xBlockAllocatedBit h4) h4))"

text \<open>Taking the block found by the search: unlink it, split it if it is large enough.\<close>

definition take_block :: "u32 \<Rightarrow> nat \<Rightarrow> nat \<Rightarrow> heap4 \<Rightarrow> heap4 outcome" where
  "take_block w prev blk h =
     (let h1 = write_next prev (pxNextFreeBlock h blk) h
      in obind
           (if xBlockSize h1 blk - w > heapMINIMUM_BLOCK_SIZE
            then (let new = blk + unat w
                  in configASSERT ((of_nat new :: u32) AND portBYTE_ALIGNMENT_MASK = 0)
                       (oreturns (prvInsertBlockIntoFreeList new
                          (write_size blk w (write_size new (xBlockSize h1 blk - w) h1)))))
            else Returns h1)
           (\<lambda>h2. Returns (charge_block blk h2)))"

definition pvPortMalloc :: "(heap4 \<Rightarrow> heap4 outcome) \<Rightarrow> u32 \<Rightarrow> heap4 \<Rightarrow> (nat \<times> heap4) outcome" where
  "pvPortMalloc hook xWantedSize h =
     (let h0 = (if pxEnd h = 0 then prvHeapInit h else h)
      in obind
           (if xWantedSize AND xBlockAllocatedBit h0 = 0
            then obind (adjust_size xWantedSize) (\<lambda>w.
                   if w > 0 \<and> w \<le> xFreeBytesRemaining h0
                   then obind (oreturns (first_fit h0 w (xStart h0) (pxNextFreeBlock h0 (xStart h0))))
                          (\<lambda>(prev, blk).
                             if blk \<noteq> pxEnd h0
                             then obind (take_block w prev blk h0)
                                    (\<lambda>h1. Returns (pxNextFreeBlock h0 prev + unat xHeapStructSize, h1))
                             else Returns (0, h0))
                   else Returns (0, h0))
            else Returns (0, h0))
           (\<lambda>(p, h1). obind (if p = 0 then hook h1 else Returns h1)
              (\<lambda>h2. configASSERT ((of_nat p :: u32) AND portBYTE_ALIGNMENT_MASK = 0)
                       (Returns (p, h2)))))"

text \<open>The hook of \<open>lwip/project/simRtos.c\<close> asserts: a failed allocation ends the program.\<close>

definition vApplicationMallocFailedHook :: "heap4 \<Rightarrow> heap4 outcome" where
  "vApplicationMallocFailedHook h = Asserts"

definition vPortFree :: "nat \<Rightarrow> heap4 \<Rightarrow> heap4 outcome" where
  "vPortFree pv h =
     (if pv \<noteq> 0
      then (let b = pv - unat xHeapStructSize
            in configASSERT (xBlockSize h b AND xBlockAllocatedBit h \<noteq> 0)
                 (configASSERT (pxNextFreeBlock h b = 0)
                   (if xBlockSize h b AND xBlockAllocatedBit h \<noteq> 0
                    then (if pxNextFreeBlock h b = 0
                          then (let h1 = write_size b (xBlockSize h b AND NOT (xBlockAllocatedBit h)) h;
                                    h2 = h1\<lparr>xFreeBytesRemaining := xFreeBytesRemaining h1 + xBlockSize h1 b\<rparr>
                                in oreturns (prvInsertBlockIntoFreeList b h2))
                          else Returns h)
                    else Returns h)))
      else Returns h)"

definition xPortGetFreeHeapSize :: "heap4 \<Rightarrow> u32" where
  "xPortGetFreeHeapSize h = xFreeBytesRemaining h"

definition xPortGetMinimumEverFreeHeapSize :: "heap4 \<Rightarrow> u32" where
  "xPortGetMinimumEverFreeHeapSize h = xMinimumEverFreeBytesRemaining h"

end
