(* ===== verification/Tiling.thy ===== *)
theory Tiling
  imports Main
begin

text \<open>
  A memory range tiled by free and used segments: the abstract view of the two allocators of the
  repository, \<open>heap_4.c\<close> and \<open>mem.c\<close>. First fit takes the lowest free segment that is large enough
  and splits it when more than a bound is left; freeing gives a used segment back, and coalescing
  joins adjacent free segments.
\<close>

section \<open>Tilings\<close>

datatype seg = is_Free: Free nat | is_Used: Used nat

primrec seg_size :: "seg \<Rightarrow> nat" where
  "seg_size (Free n) = n"
| "seg_size (Used n) = n"

abbreviation total :: "seg list \<Rightarrow> nat" where
  "total segs \<equiv> sum_list (map seg_size segs)"

text \<open>The free and the used blocks of a tiling laid out from an address, as (address, size).\<close>

fun fblocks :: "nat \<Rightarrow> seg list \<Rightarrow> (nat \<times> nat) list" where
  "fblocks a [] = []"
| "fblocks a (Free n # segs) = (a, n) # fblocks (a + n) segs"
| "fblocks a (Used n # segs) = fblocks (a + n) segs"

fun ublocks :: "nat \<Rightarrow> seg list \<Rightarrow> (nat \<times> nat) list" where
  "ublocks a [] = []"
| "ublocks a (Free n # segs) = ublocks (a + n) segs"
| "ublocks a (Used n # segs) = (a, n) # ublocks (a + n) segs"

definition starts_free :: "seg list \<Rightarrow> bool" where
  "starts_free xs \<longleftrightarrow> xs \<noteq> [] \<and> is_Free (hd xs)"

definition ends_free :: "seg list \<Rightarrow> bool" where
  "ends_free xs \<longleftrightarrow> xs \<noteq> [] \<and> is_Free (last xs)"

fun coalesced :: "seg list \<Rightarrow> bool" where
  "coalesced [] \<longleftrightarrow> True"
| "coalesced (s # segs) \<longleftrightarrow> coalesced segs \<and> \<not> (is_Free s \<and> starts_free segs)"

fun coalesce :: "seg list \<Rightarrow> seg list" where
  "coalesce (Free m # Free n # segs) = coalesce (Free (m + n) # segs)"
| "coalesce [Free m] = [Free m]"
| "coalesce (Free m # Used n # segs) = Free m # Used n # coalesce segs"
| "coalesce (Used n # segs) = Used n # coalesce segs"
| "coalesce [] = []"

lemma fblocks_append: "fblocks a (xs @ ys) = fblocks a xs @ fblocks (a + total xs) ys"
  by (induction a xs rule: fblocks.induct) (simp_all add: add.assoc)

lemma ublocks_append: "ublocks a (xs @ ys) = ublocks a xs @ ublocks (a + total xs) ys"
  by (induction a xs rule: ublocks.induct) (simp_all add: add.assoc)

lemma fblocks_bounds: "(p, n) \<in> set (fblocks a xs) \<Longrightarrow> a \<le> p \<and> p + n \<le> a + total xs \<and> Free n \<in> set xs"
  by (induction a xs rule: fblocks.induct) fastforce+

lemma ublocks_bounds: "(p, n) \<in> set (ublocks a xs) \<Longrightarrow> a \<le> p \<and> p + n \<le> a + total xs \<and> Used n \<in> set xs"
  by (induction a xs rule: ublocks.induct) fastforce+

lemma fblocks_addr_bounds:
  assumes "p \<in> fst ` set (fblocks a xs)" and "\<forall>s\<in>set xs. 0 < seg_size s"
  shows "a \<le> p" and "p < a + total xs"
  using assms by (fastforce dest: fblocks_bounds)+

lemma distinct_fblocks:
  "\<forall>s\<in>set xs. 0 < seg_size s \<Longrightarrow> distinct (map fst (fblocks a xs))"
  by (induction a xs rule: fblocks.induct) (auto dest: fblocks_bounds)

lemma ublocks_fblocks_disjoint:
  "\<forall>s\<in>set xs. 0 < seg_size s \<Longrightarrow> (p, n) \<in> set (ublocks a xs) \<Longrightarrow> p \<notin> fst ` set (fblocks a xs)"
proof (induction a xs rule: fblocks.induct)
  case (2 a k segs)
  then have "a + k \<le> p" using ublocks_bounds [of p n "a + k" segs] by simp
  with 2 show ?case by auto
next
  case (3 a k segs)
  have "a \<notin> fst ` set (fblocks (a + k) segs)" using 3(2) by (auto dest: fblocks_bounds)
  with 3 show ?case by auto
qed simp

lemma split_used_block:
  assumes "(p, n) \<in> set (ublocks a xs)"
  obtains as bs where "xs = as @ Used n # bs" "p = a + total as"
  using assms
proof (induction a xs arbitrary: thesis rule: ublocks.induct)
  case (2 a m segs)
  then obtain as bs where "segs = as @ Used n # bs" "p = a + m + total as" by auto
  then show ?case using 2(2) [of "Free m # as" bs] by simp
next
  case (3 a m segs)
  show ?case
  proof (cases "(p, n) = (a, m)")
    case True
    then show ?thesis using 3(2) [of "[]" segs] by simp
  next
    case False
    then obtain as bs where "segs = as @ Used n # bs" "p = a + m + total as" using 3 by auto
    then show ?thesis using 3(2) [of "Used m # as" bs] by simp
  qed
qed simp

section \<open>Coalescing\<close>

lemma coalesce_id: "coalesced xs \<Longrightarrow> coalesce xs = xs"
  by (induction xs rule: coalesce.induct) (auto simp: starts_free_def)

lemma coalesced_append:
  "coalesced (xs @ ys) \<longleftrightarrow> coalesced xs \<and> coalesced ys \<and> \<not> (ends_free xs \<and> starts_free ys)"
  by (induction xs) (auto simp: starts_free_def ends_free_def)

lemma coalesce_not_Free: "\<not> is_Free s \<Longrightarrow> coalesce (s # xs) = s # coalesce xs"
  by (cases s) simp_all

lemma coalesce_append: "coalesced xs \<Longrightarrow> \<not> ends_free xs \<Longrightarrow> coalesce (xs @ ys) = xs @ coalesce ys"
  by (induction xs rule: coalesce.induct)
    (auto simp: starts_free_def ends_free_def coalesce_not_Free split: if_splits)

lemma coalesce_Free:
  "coalesced ys \<Longrightarrow> coalesce (Free k # ys) =
     (case ys of Free n # zs \<Rightarrow> Free (k + n) # zs | _ \<Rightarrow> Free k # ys)"
  by (cases ys; cases "hd ys"; cases "tl ys"; cases "hd (tl ys)")
    (auto simp: starts_free_def coalesce_id)

text \<open>What putting a free block between two coalesced runs gives.\<close>

definition join_right :: "nat \<Rightarrow> seg list \<Rightarrow> seg list" where
  "join_right k ys = (case ys of Free n # zs \<Rightarrow> Free (k + n) # zs | _ \<Rightarrow> Free k # ys)"

lemma coalesce_around:
  assumes "coalesced (xs @ [Free m])" and "coalesced ys"
  shows "coalesce ((xs @ [Free m]) @ Free k # ys) = xs @ join_right (m + k) ys"
  using assms by (simp add: coalesced_append coalesce_append starts_free_def join_right_def coalesce_Free)

lemma coalesce_left_used:
  assumes "coalesced xs" and "\<not> ends_free xs" and "coalesced ys"
  shows "coalesce (xs @ Free k # ys) = xs @ join_right k ys"
  using assms by (simp add: coalesce_append coalesce_Free join_right_def)

lemma total_coalesce [simp]: "total (coalesce xs) = total xs"
  by (induction xs rule: coalesce.induct) auto

lemma coalesced_coalesce: "coalesced (coalesce xs)"
  by (induction xs rule: coalesce.induct) (auto simp: starts_free_def)

lemma ublocks_coalesce [simp]: "ublocks a (coalesce xs) = ublocks a xs"
  by (induction xs arbitrary: a rule: coalesce.induct) (auto simp: add.assoc)

definition free_total :: "seg list \<Rightarrow> nat" where
  "free_total xs = total (filter is_Free xs)"

lemma free_total_simps [simp]:
  "free_total [] = 0" "free_total (Free n # xs) = n + free_total xs"
  "free_total (Used n # xs) = free_total xs" "free_total (xs @ ys) = free_total xs + free_total ys"
  by (simp_all add: free_total_def)

lemma free_total_coalesce [simp]: "free_total (coalesce xs) = free_total xs"
  by (induction xs rule: coalesce.induct) auto

lemma free_total_le: "free_total xs \<le> total xs"
  by (induction xs) (auto simp: free_total_def)

section \<open>First fit on tilings\<close>

definition cut_above :: "nat \<Rightarrow> nat \<Rightarrow> nat \<Rightarrow> seg list" where
  "cut_above r w k = (if r < k - w then [Used w, Free (k - w)] else [Used k])"

fun fit_first :: "nat \<Rightarrow> nat \<Rightarrow> seg list \<Rightarrow> (nat \<times> seg list) option" where
  "fit_first r w [] = None"
| "fit_first r w (Free k # segs) =
     (if w \<le> k then Some (0, cut_above r w k @ segs)
      else map_option (\<lambda>(off, ss). (k + off, Free k # ss)) (fit_first r w segs))"
| "fit_first r w (Used k # segs) = map_option (\<lambda>(off, ss). (k + off, Used k # ss)) (fit_first r w segs)"

lemma fit_first_None_iff: "fit_first r w segs = None \<longleftrightarrow> (\<forall>k. Free k \<in> set segs \<longrightarrow> k < w)"
  by (induction r w segs rule: fit_first.induct) (auto simp: not_le)

lemma fit_first_Some:
  "fit_first r w segs = Some (off, segs') \<Longrightarrow>
     \<exists>as k bs. segs = as @ Free k # bs \<and> off = total as \<and> w \<le> k
       \<and> (\<forall>j. Free j \<in> set as \<longrightarrow> j < w) \<and> segs' = as @ cut_above r w k @ bs"
proof (induction r w segs arbitrary: off segs' rule: fit_first.induct)
  case (2 r w k segs)
  show ?case
  proof (cases "w \<le> k")
    case True
    with 2(2) show ?thesis by (intro exI [of _ "[]"]) auto
  next
    case False
    then obtain o' ss where r: "fit_first r w segs = Some (o', ss)" "off = k + o'" "segs' = Free k # ss"
      using 2(2) by auto
    from 2(1) [OF False r(1)] obtain as j bs where "segs = as @ Free j # bs" "o' = total as" "w \<le> j"
      "\<forall>j. Free j \<in> set as \<longrightarrow> j < w" "ss = as @ cut_above r w j @ bs" by blast
    with r False show ?thesis by (intro exI [of _ "Free k # as"] exI [of _ j] exI [of _ bs]) auto
  qed
next
  case (3 r w k segs)
  then obtain o' ss where r: "fit_first r w segs = Some (o', ss)" "off = k + o'" "segs' = Used k # ss"
    by auto
  from 3(1) [OF r(1)] obtain as j bs where "segs = as @ Free j # bs" "o' = total as" "w \<le> j"
    "\<forall>j. Free j \<in> set as \<longrightarrow> j < w" "ss = as @ cut_above r w j @ bs" by blast
  with r show ?case by (intro exI [of _ "Used k # as"] exI [of _ j] exI [of _ bs]) auto
qed simp

lemma total_cut_above [simp]: "w \<le> k \<Longrightarrow> total (cut_above r w k) = k"
  by (simp add: cut_above_def)

section \<open>Giving a segment back\<close>

text \<open>Giving back the used segment at an offset.\<close>

fun a_free :: "nat \<Rightarrow> seg list \<Rightarrow> seg list option" where
  "a_free off [] = None"
| "a_free off (s # segs) =
     (if off = 0 then (if is_Used s then Some (Free (seg_size s) # segs) else None)
      else if off < seg_size s then None
      else map_option ((#) s) (a_free (off - seg_size s) segs))"

lemma a_free_Some:
  "a_free off segs = Some segs' \<Longrightarrow>
     \<exists>as n bs. segs = as @ Used n # bs \<and> off = total as \<and> segs' = as @ Free n # bs"
proof (induction off segs arbitrary: segs' rule: a_free.induct)
  case (2 off s segs)
  show ?case
  proof (cases "off = 0")
    case True
    with 2(2) show ?thesis by (intro exI [of _ "[]"]) (cases s; auto)
  next
    case False
    then obtain ss where r: "a_free (off - seg_size s) segs = Some ss" "\<not> off < seg_size s" "segs' = s # ss"
      using 2(2) by (auto split: if_splits)
    from 2(1) [OF False r(2,1)] obtain as n bs where "segs = as @ Used n # bs" "off - seg_size s = total as"
      "ss = as @ Free n # bs" by blast
    with r show ?thesis by (intro exI [of _ "s # as"] exI [of _ n] exI [of _ bs]) auto
  qed
qed simp

lemma a_free_at: "\<forall>s\<in>set as. 0 < seg_size s \<Longrightarrow> a_free (total as) (as @ Used n # bs) = Some (as @ Free n # bs)"
  by (induction as) auto


section \<open>Used blocks\<close>

lemma ublocks_disjoint:
  "(p, n) \<in> set (ublocks a xs) \<Longrightarrow> (q, m) \<in> set (ublocks a xs) \<Longrightarrow> (p, n) \<noteq> (q, m) \<Longrightarrow>
     p + n \<le> q \<or> q + m \<le> p"
  by (induction a xs rule: ublocks.induct) (fastforce dest: ublocks_bounds)+

lemma ublocks_free_mid:
  "set (ublocks a (as @ Used n # bs)) = insert (a + total as, n) (set (ublocks a (as @ Free n # bs)))"
  by (simp add: ublocks_append)

lemma ublocks_free_addr:
  assumes "0 < n" and "\<forall>s\<in>set as. 0 < seg_size s"
  shows "a + total as \<notin> fst ` set (ublocks a (as @ Free n # bs))"
proof
  assume "a + total as \<in> fst ` set (ublocks a (as @ Free n # bs))"
  then obtain m where m: "(a + total as, m) \<in> set (ublocks a (as @ Free n # bs))" by auto
  then consider "(a + total as, m) \<in> set (ublocks a as)" | "(a + total as, m) \<in> set (ublocks (a + total as + n) bs)"
    by (auto simp: ublocks_append)
  then show False
  proof cases
    case 1
    then have "m = 0" "Used m \<in> set as" using ublocks_bounds [OF 1] by auto
    then show ?thesis using assms(2) by auto
  next
    case 2
    then show ?thesis using ublocks_bounds [OF 2] assms(1) by simp
  qed
qed

lemma fit_first_blocks:
  assumes "fit_first r w segs = Some (off, segs')"
  shows "\<exists>m. w \<le> m \<and> set (ublocks a segs') = insert (a + off, m) (set (ublocks a segs))
           \<and> off + m \<le> total segs \<and> (\<forall>(q, j)\<in>set (ublocks a segs). q + j \<le> a + off \<or> a + off + m \<le> q)"
proof -
  obtain as k bs where s: "segs = as @ Free k # bs" "off = total as" "w \<le> k" "segs' = as @ cut_above r w k @ bs"
    using fit_first_Some [OF assms] by blast
  define m where "m = (if r < k - w then w else k)"
  have m: "w \<le> m" "m \<le> k" using s(3) by (auto simp: m_def)
  have "ublocks a segs' = ublocks a as @ (a + off, m) # ublocks (a + off + k) bs"
    using s(2-4) by (auto simp: cut_above_def m_def ublocks_append add.assoc)
  moreover have "ublocks a segs = ublocks a as @ ublocks (a + off + k) bs"
    using s(1,2) by (simp add: ublocks_append)
  moreover have "q + j \<le> a + off" if "(q, j) \<in> set (ublocks a as)" for q j
    using ublocks_bounds [OF that] s(2) by simp
  moreover have "a + off + m \<le> q" if "(q, j) \<in> set (ublocks (a + off + k) bs)" for q j
    using ublocks_bounds [OF that] m by simp
  ultimately show ?thesis using m s(1,2) by (intro exI [of _ m]) auto
qed

end
