(* ===== verification/Heap4_Insert.thy ===== *)
theory Heap4_Insert
  imports Heap4 Tiling
begin

text \<open>
  The free list of \<open>heap_4.c\<close> in memory: paths over \<open>pxNextFreeBlock\<close>, the invariant \<open>heap_inv\<close>
  that ties the headers to a tiling of the heap, and the correctness of the primitive
  \<open>prvInsertBlockIntoFreeList\<close>: it links the block in address order and coalesces it with the
  neighbours it touches.
\<close>

section \<open>The free list in memory\<close>

definition npath :: "heap4 \<Rightarrow> nat \<Rightarrow> nat list \<Rightarrow> nat \<Rightarrow> bool" where
  "npath h p ps q \<longleftrightarrow> map (pxNextFreeBlock h) (p # ps) = ps @ [q]"

lemma npath_Nil: "npath h p [] q \<longleftrightarrow> pxNextFreeBlock h p = q"
  by (simp add: npath_def)

lemma npath_Cons: "npath h p (a # as) q \<longleftrightarrow> pxNextFreeBlock h p = a \<and> npath h a as q"
  by (auto simp: npath_def)

lemma npath_split:
  "npath h p (as @ bs) q \<longleftrightarrow>
     map (pxNextFreeBlock h) (butlast (p # as)) = as
     \<and> pxNextFreeBlock h (last (p # as)) = hd (bs @ [q])
     \<and> map (pxNextFreeBlock h) bs = tl (bs @ [q])"
proof (induction as arbitrary: p)
  case Nil
  show ?case by (cases bs) (auto simp: npath_def)
next
  case (Cons a as)
  then show ?case by (auto simp: npath_Cons)
qed

lemma insert_position_finds:
  assumes "npath h p (as @ bs) q" and "\<forall>a\<in>set as. a < b" and "b \<le> hd (bs @ [q])"
  shows "insert_position h b p = Some (last (p # as))"
  using assms
proof (induction as arbitrary: p)
  case Nil
  then show ?case by (subst insert_position.simps) (cases bs; auto simp: npath_def)
next
  case (Cons a as)
  then have "pxNextFreeBlock h p = a" "npath h a (as @ bs) q" by (auto simp: npath_def)
  with Cons show ?case by (subst insert_position.simps) simp
qed

section \<open>The invariant\<close>

definition sizes_ok :: "heap4 \<Rightarrow> (nat \<times> nat) list \<Rightarrow> bool" where
  "sizes_ok h fs \<longleftrightarrow> (\<forall>(a, n)\<in>set fs. xBlockSize h a = of_nat n)"

definition used_ok :: "heap4 \<Rightarrow> (nat \<times> nat) list \<Rightarrow> bool" where
  "used_ok h us \<longleftrightarrow>
     (\<forall>(a, n)\<in>set us. xBlockSize h a = of_nat n OR 0x80000000 \<and> pxNextFreeBlock h a = 0)"

definition segs_ok :: "seg list \<Rightarrow> bool" where
  "segs_ok segs \<longleftrightarrow> (\<forall>s\<in>set segs. 8 \<le> seg_size s \<and> 4 dvd seg_size s)"

text \<open>Where the heap lies, what its free list holds, and its counters.\<close>

definition heap_bounds :: "heap4 \<Rightarrow> nat \<Rightarrow> nat \<Rightarrow> bool" where
  "heap_bounds h base len \<longleftrightarrow>
     0 < base \<and> base mod 4 = 0 \<and> pxEnd h = base + len \<and> pxEnd h + 8 < 2 ^ 32 \<and> len < 2 ^ 31
     \<and> (xStart h < base \<or> pxEnd h < xStart h) \<and> xBlockAllocatedBit h = 0x80000000"

definition free_list_ok :: "heap4 \<Rightarrow> nat \<Rightarrow> seg list \<Rightarrow> bool" where
  "free_list_ok h base segs \<longleftrightarrow>
     segs_ok segs \<and> coalesced segs
     \<and> npath h (xStart h) (map fst (fblocks base segs)) (pxEnd h) \<and> pxNextFreeBlock h (pxEnd h) = 0
     \<and> xBlockSize h (xStart h) = 0 \<and> xBlockSize h (pxEnd h) = 0
     \<and> sizes_ok h (fblocks base segs)"

definition counters_ok :: "heap4 \<Rightarrow> seg list \<Rightarrow> bool" where
  "counters_ok h segs \<longleftrightarrow>
     xFreeBytesRemaining h = of_nat (free_total segs)
     \<and> xMinimumEverFreeBytesRemaining h \<le> xFreeBytesRemaining h"

definition heap_inv :: "heap4 \<Rightarrow> nat \<Rightarrow> seg list \<Rightarrow> bool" where
  "heap_inv h base segs \<longleftrightarrow>
     heap_bounds h base (total segs) \<and> free_list_ok h base segs
     \<and> used_ok h (ublocks base segs) \<and> counters_ok h segs"

lemma heap_bounds_frame [simp, frame_simps]:
  "heap_bounds (h\<lparr>pxNextFreeBlock := nx\<rparr>) base len = heap_bounds h base len"
  "heap_bounds (h\<lparr>xBlockSize := sz\<rparr>) base len = heap_bounds h base len"
  "heap_bounds (h\<lparr>xFreeBytesRemaining := m\<rparr>) base len = heap_bounds h base len"
  "heap_bounds (h\<lparr>xMinimumEverFreeBytesRemaining := m\<rparr>) base len = heap_bounds h base len"
  by (simp_all add: heap_bounds_def)

lemma segs_ok_append [simp]: "segs_ok (xs @ ys) \<longleftrightarrow> segs_ok xs \<and> segs_ok ys"
  by (auto simp: segs_ok_def)

lemma segs_ok_Nil [simp]: "segs_ok []"
  by (simp add: segs_ok_def)

lemma segs_ok_Cons [simp]:
  "segs_ok (s # xs) \<longleftrightarrow> 8 \<le> seg_size s \<and> 4 dvd seg_size s \<and> segs_ok xs"
  by (auto simp: segs_ok_def)

lemma segs_ok_pos: "segs_ok xs \<Longrightarrow> \<forall>s\<in>set xs. 0 < seg_size s"
  by (auto simp: segs_ok_def)

lemma segs_ok_coalesce: "segs_ok xs \<Longrightarrow> segs_ok (coalesce xs)"
  by (induction xs rule: coalesce.induct) auto

text \<open>Whether the block before, or the block after, touches the block inserted.\<close>

lemma last_free_touches:
  assumes "segs_ok as" and "sizes_ok h (fblocks base as)" and "base + total as < 2 ^ 32"
    and "xBlockSize h st = 0" and "st < base \<or> base + total as < st"
  shows "last (st # map fst (fblocks base as)) + unat (xBlockSize h (last (st # map fst (fblocks base as))))
           = base + total as \<longleftrightarrow> ends_free as"
proof (cases as rule: rev_cases)
  case Nil
  with assms show ?thesis by (auto simp: ends_free_def)
next
  case (snoc us s)
  show ?thesis
  proof (cases s)
    case (Free n)
    with snoc assms(2,3) show ?thesis
      by (auto simp: fblocks_append ends_free_def sizes_ok_def unat_of_nat_small)
  next
    case (Used n)
    have n: "0 < n" using assms(1) snoc Used by simp
    show ?thesis
    proof (cases "fblocks base us" rule: rev_cases)
      case Nil
      with assms snoc Used show ?thesis by (auto simp: fblocks_append ends_free_def)
    next
      case (snoc fs f)
      obtain p k where f: "f = (p, k)" by fastforce
      have "(p, k) \<in> set (fblocks base us)" using snoc f by simp
      then have "p + k \<le> base + total us" by (auto dest: fblocks_bounds)
      moreover have "unat (xBlockSize h p) = k"
        using assms(2,3) \<open>as = us @ [s]\<close> Used snoc f \<open>p + k \<le> base + total us\<close>
        by (auto simp: fblocks_append sizes_ok_def unat_of_nat_small)
      ultimately show ?thesis
        using n \<open>as = us @ [s]\<close> Used snoc f by (simp add: fblocks_append ends_free_def)
    qed
  qed
qed

lemma next_free_touches:
  assumes "segs_ok bs" and "bs \<noteq> []"
  shows "hd (map fst (fblocks b bs) @ [b + total bs]) = b \<longleftrightarrow> starts_free bs"
proof (cases bs)
  case (Cons s zs)
  show ?thesis
  proof (cases s)
    case (Used n)
    have "b + n \<le> hd (map fst (fblocks (b + n) zs) @ [b + n + total zs])"
      using fblocks_bounds [of _ _ "b + n" zs] by (cases "fblocks (b + n) zs") fastforce+
    with Used Cons assms(1) show ?thesis by (simp add: starts_free_def add.assoc)
  qed (use Cons in \<open>simp add: starts_free_def\<close>)
qed (use assms in simp)

section \<open>Inserting a block into the free list\<close>

lemma npath_parts:
  assumes "npath h p (as @ cs @ bs) q"
    and "\<forall>a\<in>set (butlast (p # as)) \<union> set bs. pxNextFreeBlock h' a = pxNextFreeBlock h a"
  shows "map (pxNextFreeBlock h') (butlast (p # as)) = as"
    and "map (pxNextFreeBlock h') bs = tl (bs @ [q])"
proof -
  have "map (pxNextFreeBlock h') (butlast (p # as)) = map (pxNextFreeBlock h) (butlast (p # as))"
    by (rule map_cong) (use assms(2) in auto)
  also have "\<dots> = as"
    using assms(1) by (simp add: npath_split)
  finally show "map (pxNextFreeBlock h') (butlast (p # as)) = as" .
  have "map (pxNextFreeBlock h') bs = map (pxNextFreeBlock h) bs"
    by (rule map_cong) (use assms(2) in auto)
  also have "\<dots> = tl (bs @ [q])"
    using assms(1) npath_split [of h p "as @ cs" bs q] by simp
  finally show "map (pxNextFreeBlock h') bs = tl (bs @ [q])" .
qed

lemma npath_bridge:
  assumes "npath h p (as @ cs @ bs) q"
    and "\<forall>a\<in>set (butlast (p # as)) \<union> set bs. pxNextFreeBlock h' a = pxNextFreeBlock h a"
    and "pxNextFreeBlock h' (last (p # as)) = hd (bs @ [q])"
  shows "npath h' p (as @ bs) q"
  using npath_parts [OF assms(1,2)] assms(3) by (simp only: npath_split)

lemma npath_insert:
  assumes "npath h p (as @ cs @ bs) q"
    and "\<forall>a\<in>set (butlast (p # as)) \<union> set bs. pxNextFreeBlock h' a = pxNextFreeBlock h a"
    and "pxNextFreeBlock h' (last (p # as)) = b" and "pxNextFreeBlock h' b = hd (bs @ [q])"
  shows "npath h' p (as @ b # bs) q"
proof -
  have "map (pxNextFreeBlock h') (b # bs) = tl ((b # bs) @ [q])"
    using npath_parts(2) [OF assms(1,2)] assms(4) by (cases bs) auto
  with npath_parts(1) [OF assms(1,2)] assms(3) show ?thesis
    unfolding npath_split by simp
qed

text \<open>
  The situation of an insertion: the segments before the block, its size, the segments behind it.
\<close>

definition insertable :: "heap4 \<Rightarrow> nat \<Rightarrow> seg list \<Rightarrow> nat \<Rightarrow> seg list \<Rightarrow> bool" where
  "insertable h base as n bs \<longleftrightarrow>
     segs_ok as \<and> segs_ok bs \<and> coalesced as \<and> coalesced bs \<and> 0 < n
     \<and> pxEnd h = base + total as + n + total bs \<and> pxEnd h < 2 ^ 32
     \<and> npath h (xStart h)
         (map fst (fblocks base as) @ map fst (fblocks (base + total as + n) bs)) (pxEnd h)
     \<and> sizes_ok h (fblocks base as) \<and> sizes_ok h (fblocks (base + total as + n) bs)
     \<and> xBlockSize h (base + total as) = of_nat n
     \<and> xBlockSize h (xStart h) = 0 \<and> (xStart h < base \<or> pxEnd h < xStart h)"

text \<open>The headers an insertion may write: those before the block, and the block's own.\<close>

definition insert_writes :: "heap4 \<Rightarrow> heap4 \<Rightarrow> nat set \<Rightarrow> bool" where
  "insert_writes h h' ps \<longleftrightarrow>
     (\<exists>nx sz. h' = h\<lparr>pxNextFreeBlock := nx, xBlockSize := sz\<rparr>
        \<and> (\<forall>p. p \<notin> insert (xStart h) ps \<longrightarrow> nx p = pxNextFreeBlock h p)
        \<and> (\<forall>p. p \<notin> ps \<longrightarrow> sz p = xBlockSize h p))"

lemma insertable_facts:
  assumes i: "insertable h base as n bs"
  defines "b \<equiv> base + total as"
  defines "A \<equiv> map fst (fblocks base as)" and "B \<equiv> map fst (fblocks (b + n) bs)"
  shows "\<forall>a\<in>set A. base \<le> a \<and> a < b" and "\<forall>a\<in>set B. b + n \<le> a \<and> a < pxEnd h"
    and "distinct A" and "distinct B" and "insert_position h b (xStart h) = Some (last (xStart h # A))"
    and "pxNextFreeBlock h (last (xStart h # A)) = hd (B @ [pxEnd h])"
    and "last (xStart h # A) + unat (xBlockSize h (last (xStart h # A))) = b \<longleftrightarrow> ends_free as"
proof -
  have ok: "segs_ok as" "segs_ok bs" and e: "pxEnd h = b + n + total bs"
    using i by (simp_all add: insertable_def b_def)
  have p: "npath h (xStart h) (A @ B) (pxEnd h)"
    using i unfolding insertable_def b_def A_def B_def by blast
  show A: "\<forall>a\<in>set A. base \<le> a \<and> a < b"
    using fblocks_addr_bounds [OF _ segs_ok_pos [OF ok(1)], of _ base] by (simp add: A_def b_def)
  show B: "\<forall>a\<in>set B. b + n \<le> a \<and> a < pxEnd h"
    using fblocks_addr_bounds [OF _ segs_ok_pos [OF ok(2)], of _ "b + n"] by (simp add: B_def e)
  show "distinct A" "distinct B"
    using distinct_fblocks segs_ok_pos ok by (simp_all add: A_def B_def)
  have "b \<le> hd (B @ [pxEnd h])"
    using B e by (cases B) auto
  with A show "insert_position h b (xStart h) = Some (last (xStart h # A))"
    by (intro insert_position_finds [OF p]) auto
  show "pxNextFreeBlock h (last (xStart h # A)) = hd (B @ [pxEnd h])"
    using p by (simp add: npath_split)
  show "last (xStart h # A) + unat (xBlockSize h (last (xStart h # A))) = b \<longleftrightarrow> ends_free as"
    unfolding A_def b_def by (rule last_free_touches) (use i in \<open>auto simp: insertable_def\<close>)
qed

text \<open>The four ways a block meets its neighbours, each with the state the insertion leaves.\<close>

definition inserted :: "heap4 \<Rightarrow> heap4 \<Rightarrow> nat \<Rightarrow> seg list \<Rightarrow> nat \<Rightarrow> seg list \<Rightarrow> bool" where
  "inserted h h' base as n bs \<longleftrightarrow>
     insert_writes h h' (fst ` set (fblocks base (as @ Free n # bs)))
     \<and> npath h' (xStart h) (map fst (fblocks base (coalesce (as @ Free n # bs)))) (pxEnd h)
     \<and> sizes_ok h' (fblocks base (coalesce (as @ Free n # bs)))"

lemma starts_free_Cons [simp]: "starts_free (s # xs) \<longleftrightarrow> is_Free s"
  by (simp add: starts_free_def)

lemma starts_freeE:
  assumes "starts_free xs" obtains k ys where "xs = Free k # ys"
  using assms by (cases xs; cases "hd xs") (auto simp: starts_free_def)

lemma ends_freeE:
  assumes "ends_free xs" obtains k ys where "xs = ys @ [Free k]"
  using assms by (cases xs rule: rev_cases; cases "last xs") (auto simp: ends_free_def)

lemma sizes_ok_Cons [simp]: "sizes_ok h (f # fs) \<longleftrightarrow> xBlockSize h (fst f) = of_nat (snd f) \<and> sizes_ok h fs"
  by (auto simp: sizes_ok_def split: prod.splits)

lemma sizes_ok_append [simp]: "sizes_ok h (fs @ gs) \<longleftrightarrow> sizes_ok h fs \<and> sizes_ok h gs"
  by (auto simp: sizes_ok_def)

lemma sizes_ok_links [simp]: "sizes_ok (h\<lparr>pxNextFreeBlock := nx\<rparr>) fs \<longleftrightarrow> sizes_ok h fs"
  by (simp add: sizes_ok_def)

lemma sizes_ok_write_size:
  "a \<notin> fst ` set fs \<Longrightarrow>
     sizes_ok (h\<lparr>xBlockSize := f(a := n)\<rparr>) fs \<longleftrightarrow> sizes_ok (h\<lparr>xBlockSize := f\<rparr>) fs"
  unfolding sizes_ok_def by (intro ball_cong) (auto simp: image_iff)

lemma sizes_ok_cong:
  "sizes_ok h fs \<Longrightarrow> \<forall>a\<in>fst ` set fs. xBlockSize h' a = xBlockSize h a \<Longrightarrow> sizes_ok h' fs"
  by (force simp: sizes_ok_def)

lemma join_right_used: "\<not> starts_free bs \<Longrightarrow> join_right n bs = Free n # bs"
  by (cases bs; cases "hd bs") (auto simp: join_right_def)

lemma last_notin: "distinct (xs @ ys) \<Longrightarrow> xs \<noteq> [] \<Longrightarrow> last xs \<notin> set (butlast xs) \<union> set ys"
  by (cases xs rule: rev_cases) auto

lemma mid_notin: "distinct (xs @ y # ys) \<Longrightarrow> y \<notin> set (butlast xs) \<union> set ys"
  by (auto dest: in_set_butlastD)

lemma fun_upd2_frame: "a \<notin> X \<Longrightarrow> b \<notin> X \<Longrightarrow> \<forall>x\<in>X. (f(a := u, b := v)) x = f x"
  by auto

text \<open>Every header the insertion looks at is a different one.\<close>

lemma insertable_distinct:
  assumes i: "insertable h base as n bs"
  defines "b \<equiv> base + total as"
  defines "A \<equiv> map fst (fblocks base as)" and "B \<equiv> map fst (fblocks (b + n) bs)"
  shows "distinct ((xStart h # A) @ b # B @ [pxEnd h])"
proof -
  note f = insertable_facts(1-4) [OF i, folded b_def, folded A_def B_def]
  have n: "0 < n" and e: "b + n \<le> pxEnd h" and st: "xStart h < base \<or> pxEnd h < xStart h"
    using i unfolding insertable_def b_def by auto
  have "base \<le> b" by (simp add: b_def)
  with f n e st have "xStart h \<notin> set (A @ b # B @ [pxEnd h])" by fastforce
  moreover have "set A \<inter> set (b # B @ [pxEnd h]) = {}" using f(1,2) n e by fastforce
  moreover have "b \<notin> set (B @ [pxEnd h])" "pxEnd h \<notin> set B" using f(2) n e by fastforce+
  ultimately show ?thesis using f(3,4) by auto
qed

lemma insertable_path:
  "insertable h base as n bs \<Longrightarrow>
     npath h (xStart h)
       (map fst (fblocks base as) @ map fst (fblocks (base + total as + n) bs)) (pxEnd h)"
  unfolding insertable_def by blast

lemma insertable_sizes:
  assumes "insertable h base as n bs"
  shows "sizes_ok h (fblocks base as)" and "sizes_ok h (fblocks (base + total as + n) bs)"
    and "xBlockSize h (base + total as) = of_nat n" and "unat (of_nat n :: u32) = n"
    and "base + total as + n + total bs < 2 ^ 32"
    and "hd (map fst (fblocks (base + total as + n) bs) @ [pxEnd h]) = base + total as + n
           \<longleftrightarrow> bs = [] \<or> starts_free bs"
proof -
  have e: "pxEnd h = base + total as + n + total bs" and l: "pxEnd h < 2 ^ 32" and ok: "segs_ok bs"
    using assms unfolding insertable_def by blast+
  show "sizes_ok h (fblocks base as)" "sizes_ok h (fblocks (base + total as + n) bs)"
    and "xBlockSize h (base + total as) = of_nat n"
    using assms unfolding insertable_def by blast+
  show "base + total as + n + total bs < 2 ^ 32" using e l by simp
  then show "unat (of_nat n :: u32) = n" by (intro unat_of_nat_small) simp
  show "hd (map fst (fblocks (base + total as + n) bs) @ [pxEnd h]) = base + total as + n
          \<longleftrightarrow> bs = [] \<or> starts_free bs"
    using next_free_touches [OF ok, of "base + total as + n"] e by (cases "bs = []") auto
qed

lemma insert_between_used:
  assumes i: "insertable h base as n bs" and "\<not> ends_free as" and "\<not> starts_free bs"
  shows "\<exists>h'. prvInsertBlockIntoFreeList (base + total as) h = Some h' \<and> inserted h h' base as n bs"
proof -
  define b where "b = base + total as"
  define A where "A = map fst (fblocks base as)"
  define B where "B = map fst (fblocks (b + n) bs)"
  define it where "it = last (xStart h # A)"
  note f = insertable_facts(5-7) [OF i, folded b_def, folded A_def B_def, folded it_def]
  note s = insertable_sizes [OF i, folded b_def, folded A_def B_def]
  have d: "distinct ((xStart h # A) @ b # B @ [pxEnd h])"
    using insertable_distinct [OF i, folded b_def, folded A_def B_def] by simp
  have itb: "it \<notin> set (butlast (xStart h # A)) \<union> set (b # B @ [pxEnd h])"
    using last_notin [OF d] by (simp add: it_def)
  have itin: "it \<in> insert (xStart h) (set A)"
    using last_in_set [of "xStart h # A"] by (simp add: it_def)
  have p: "npath h (xStart h) (A @ [] @ B) (pxEnd h)"
    using insertable_path [OF i, folded b_def, folded A_def B_def] by simp
  have c: "coalesce (as @ Free n # bs) = as @ Free n # bs"
    using assms by (auto simp: coalesce_left_used join_right_used insertable_def)
  let ?h = "write_next it b (write_next b (hd (B @ [pxEnd h])) h)"
  have "prvInsertBlockIntoFreeList b h = Some ?h"
    using f assms(2,3) s(3,4,6) itb by (auto simp: prvInsertBlockIntoFreeList_def Let_def B_def)
  moreover have "npath ?h (xStart h) (A @ b # B) (pxEnd h)"
    by (rule npath_insert [OF p]) (use itb d in \<open>auto simp: it_def dest: in_set_butlastD\<close>)
  moreover have "insert_writes h ?h (fst ` set (fblocks base (as @ Free n # bs)))"
    unfolding insert_writes_def
    by (rule exI [of _ "pxNextFreeBlock ?h"], rule exI [of _ "xBlockSize ?h"])
      (use itin in \<open>auto simp: fblocks_append A_def b_def\<close>)
  moreover have "sizes_ok ?h (fblocks base as)" "sizes_ok ?h (fblocks (b + n) bs)"
    using s(1,2) by simp_all
  ultimately show ?thesis
    using s(3) by (intro exI [of _ ?h])
      (simp add: inserted_def c fblocks_append A_def B_def b_def)
qed

lemma insert_before_free:
  assumes i: "insertable h base as n (Free k # bs)" and "\<not> ends_free as"
  shows "\<exists>h'. prvInsertBlockIntoFreeList (base + total as) h = Some h'
           \<and> inserted h h' base as n (Free k # bs)"
proof -
  define b where "b = base + total as"
  define A where "A = map fst (fblocks base as)"
  define B where "B = map fst (fblocks (b + n + k) bs)"
  define it where "it = last (xStart h # A)"
  have B': "map fst (fblocks (b + n) (Free k # bs)) = (b + n) # B"
    by (simp add: B_def)
  note f = insertable_facts(5-7) [OF i, folded b_def, folded A_def, unfolded B', folded it_def]
  note s = insertable_sizes [OF i, folded b_def, folded A_def, unfolded B']
  have d: "distinct ((xStart h # A) @ b # (b + n) # B @ [pxEnd h])"
    using insertable_distinct [OF i, folded b_def, folded A_def, unfolded B'] by simp
  have itb: "it \<notin> set (butlast (xStart h # A)) \<union> set (b # (b + n) # B @ [pxEnd h])"
    using last_notin [OF d] by (simp add: it_def)
  have itin: "it \<in> insert (xStart h) (set A)"
    using last_in_set [of "xStart h # A"] by (simp add: it_def)
  have p: "npath h (xStart h) (A @ [b + n] @ B) (pxEnd h)"
    using insertable_path [OF i, folded b_def, folded A_def, unfolded B'] by simp
  have nn: "pxNextFreeBlock h (b + n) = hd (B @ [pxEnd h])"
    using p npath_split [of h "xStart h" "A @ [b + n]" B "pxEnd h"] by simp
  have c: "coalesce (as @ Free n # Free k # bs) = as @ Free (n + k) # bs"
    using i assms(2) by (auto simp: coalesce_left_used join_right_def insertable_def)
  let ?h = "write_next it b (write_next b (hd (B @ [pxEnd h])) (write_size b (of_nat (n + k)) h))"
  have "prvInsertBlockIntoFreeList b h = Some ?h"
  proof -
    have ne: "b + n \<noteq> pxEnd h" "it \<noteq> b" using d itb by simp_all
    have at: "it + unat (xBlockSize h it) \<noteq> b" "pxNextFreeBlock h it = b + n"
      using f(2,3) assms(2) by simp_all
    have sz: "xBlockSize h (b + n) = of_nat k" using s(2) by simp
    show ?thesis
      unfolding prvInsertBlockIntoFreeList_def f(1) option.case Let_def
      by (simp only: at if_False prod.case sz s(3,4) ne simp_thms if_True not_False_eq_True) (simp add: at nn)
  qed
  moreover have "npath ?h (xStart h) (A @ b # B) (pxEnd h)"
  proof (rule npath_insert [OF p])
    have "b \<notin> set (butlast (xStart h # A)) \<union> set B" "it \<notin> set (butlast (xStart h # A)) \<union> set B"
      using mid_notin [OF d] itb by auto
    note fr = fun_upd2_frame [OF this, of "pxNextFreeBlock h" "hd (B @ [pxEnd h])" b]
    have "pxNextFreeBlock ?h = (pxNextFreeBlock h)(b := hd (B @ [pxEnd h]), it := b)" by simp
    with fr show "\<forall>a\<in>set (butlast (xStart h # A)) \<union> set B. pxNextFreeBlock ?h a = pxNextFreeBlock h a"
      by (simp only:)
    show "pxNextFreeBlock ?h (last (xStart h # A)) = b" by (simp only: it_def [symmetric]) simp
    have "it \<noteq> b" using itb by auto
    then show "pxNextFreeBlock ?h b = hd (B @ [pxEnd h])" by simp
  qed
  moreover have "insert_writes h ?h (fst ` set (fblocks base (as @ Free n # Free k # bs)))"
    unfolding insert_writes_def
    by (rule exI [of _ "pxNextFreeBlock ?h"], rule exI [of _ "xBlockSize ?h"])
      (use itin in \<open>auto simp: fblocks_append A_def b_def\<close>)
  moreover have "sizes_ok ?h (fblocks base as)" "sizes_ok ?h (fblocks (b + n + k) bs)"
    using s(1,2) d by (simp_all add: sizes_ok_write_size A_def B_def)
  ultimately show ?thesis
    by (intro exI [of _ ?h]) (simp add: inserted_def c fblocks_append A_def B_def b_def add.assoc)
qed

lemma insert_after_free:
  assumes i: "insertable h base (as @ [Free m]) n bs" and "\<not> starts_free bs"
  shows "\<exists>h'. prvInsertBlockIntoFreeList (base + total (as @ [Free m])) h = Some h'
           \<and> inserted h h' base (as @ [Free m]) n bs"
proof -
  define it where "it = base + total as"
  define b where "b = it + m"
  define A where "A = map fst (fblocks base as)"
  define B where "B = map fst (fblocks (b + n) bs)"
  have A': "map fst (fblocks base (as @ [Free m])) = A @ [it]"
    and b': "base + total (as @ [Free m]) = b"
    by (simp_all add: A_def fblocks_append it_def b_def)
  note f = insertable_facts(5-7) [OF i, unfolded b' A', folded B_def]
  note s = insertable_sizes [OF i, unfolded b' A', folded B_def]
  have d: "distinct ((xStart h # A) @ it # b # B @ [pxEnd h])"
    using insertable_distinct [OF i] unfolding b' A' B_def by simp
  have p: "npath h (xStart h) (A @ it # B) (pxEnd h)"
    using insertable_path [OF i, unfolded b' A', folded B_def] by simp
  have c: "coalesce ((as @ [Free m]) @ Free n # bs) = as @ Free (m + n) # bs"
    using i assms(2) by (subst coalesce_around) (auto simp: join_right_used insertable_def)
  have u: "unat (of_nat (m + n) :: u32) = m + n"
    using s(5) by (intro unat_of_nat_small) (simp add: b_def)
  have w: "xBlockSize h it + xBlockSize h b = of_nat (m + n)"
    using s(1,3) by (simp add: fblocks_append it_def)
  let ?h = "write_size it (of_nat (m + n)) h"
  have n: "pxNextFreeBlock h it = hd (B @ [pxEnd h])" using f(2) by simp
  have "prvInsertBlockIntoFreeList b h = Some ?h"
  proof -
    have "it + unat (xBlockSize h it) = b" using f(3) by (simp add: ends_free_def)
    moreover have "it + (m + n) = hd (B @ [pxEnd h]) \<longrightarrow> bs = []"
      using s(6) assms(2) by (auto simp: b_def add.assoc)
    ultimately show ?thesis
      using f(1) n w u by (auto simp: prvInsertBlockIntoFreeList_def Let_def B_def
          intro!: heap4.equality)
  qed
  moreover have "npath ?h (xStart h) (A @ it # B) (pxEnd h)"
    using p by (simp add: npath_def)
  moreover have "insert_writes h ?h (fst ` set (fblocks base ((as @ [Free m]) @ Free n # bs)))"
    unfolding insert_writes_def
    by (rule exI [of _ "pxNextFreeBlock ?h"], rule exI [of _ "xBlockSize ?h"])
      (auto simp: fblocks_append it_def)
  moreover have "sizes_ok ?h (fblocks base as)" "sizes_ok ?h (fblocks (b + n) bs)"
    using s(1,2) d by (simp_all add: sizes_ok_write_size A_def B_def fblocks_append)
  ultimately show ?thesis
    unfolding b' inserted_def c
    by (intro exI [of _ ?h]) (simp add: fblocks_append A_def B_def b_def it_def add.assoc)
qed

lemma insert_between_free:
  assumes i: "insertable h base (as @ [Free m]) n (Free k # bs)"
  shows "\<exists>h'. prvInsertBlockIntoFreeList (base + total (as @ [Free m])) h = Some h'
           \<and> inserted h h' base (as @ [Free m]) n (Free k # bs)"
proof -
  define it where "it = base + total as"
  define b where "b = it + m"
  define A where "A = map fst (fblocks base as)"
  define B where "B = map fst (fblocks (b + n + k) bs)"
  have A': "map fst (fblocks base (as @ [Free m])) = A @ [it]"
    and b': "base + total (as @ [Free m]) = b"
    and B': "map fst (fblocks (b + n) (Free k # bs)) = (b + n) # B"
    by (simp_all add: A_def B_def fblocks_append it_def b_def)
  note f = insertable_facts(5-7) [OF i, unfolded b' A' B']
  note s = insertable_sizes [OF i, unfolded b' A' B']
  have d: "distinct ((xStart h # A) @ it # b # (b + n) # B @ [pxEnd h])"
    using insertable_distinct [OF i] unfolding b' A' B' by simp
  have p: "npath h (xStart h) ((A @ [it]) @ [b + n] @ B) (pxEnd h)"
    using insertable_path [OF i, unfolded b' A' B'] by simp
  have c: "coalesce ((as @ [Free m]) @ Free n # Free k # bs) = as @ Free (m + n + k) # bs"
    using i by (subst coalesce_around) (auto simp: join_right_def insertable_def)
  have u: "unat (of_nat (m + n) :: u32) = m + n"
    using s(5) by (intro unat_of_nat_small) (simp add: b_def)
  have w: "xBlockSize h it + xBlockSize h b = of_nat (m + n)" "xBlockSize h (b + n) = of_nat k"
    using s(1-3) by (simp_all add: fblocks_append it_def)
  have nn: "pxNextFreeBlock h it = b + n" "pxNextFreeBlock h (b + n) = hd (B @ [pxEnd h])"
    using f(2) p npath_split [of h "xStart h" "(A @ [it]) @ [b + n]" B "pxEnd h"] by simp_all
  let ?h = "write_next it (hd (B @ [pxEnd h])) (write_size it (of_nat (m + n + k)) h)"
  have "prvInsertBlockIntoFreeList b h = Some ?h"
  proof -
    have "it + unat (xBlockSize h it) = b" using f(3) by (simp add: ends_free_def)
    then show ?thesis
      using f(1) nn w u d by (auto simp: prvInsertBlockIntoFreeList_def Let_def b_def
          intro!: heap4.equality)
  qed
  moreover have "npath ?h (xStart h) ((A @ [it]) @ B) (pxEnd h)"
    by (rule npath_bridge [OF p]) (use d in \<open>auto dest: in_set_butlastD\<close>)
  moreover have "insert_writes h ?h (fst ` set (fblocks base ((as @ [Free m]) @ Free n # Free k # bs)))"
    unfolding insert_writes_def
    by (rule exI [of _ "pxNextFreeBlock ?h"], rule exI [of _ "xBlockSize ?h"])
      (auto simp: fblocks_append it_def)
  moreover have "sizes_ok ?h (fblocks base as)" "sizes_ok ?h (fblocks (b + n + k) bs)"
    using s(1,2) d by (simp_all add: sizes_ok_write_size A_def B_def fblocks_append)
  ultimately show ?thesis
    unfolding b' inserted_def c
    by (intro exI [of _ ?h]) (simp add: fblocks_append A_def B_def b_def it_def add.assoc)
qed

lemma prvInsertBlockIntoFreeList_inserts:
  assumes "insertable h base as n bs"
  shows "\<exists>h'. prvInsertBlockIntoFreeList (base + total as) h = Some h' \<and> inserted h h' base as n bs"
  using assms insert_between_used insert_before_free insert_after_free insert_between_free
  by (metis ends_freeE starts_freeE)

text \<open>An insertion keeps the heap well formed, and leaves the used blocks and the counters alone.\<close>

lemma insert_block:
  assumes i: "insertable h base as n bs" and g: "heap_bounds h base (total as + n + total bs)"
    and e: "pxNextFreeBlock h (pxEnd h) = 0" "xBlockSize h (pxEnd h) = 0" and n: "8 \<le> n" "4 dvd n"
  shows "\<exists>h'. prvInsertBlockIntoFreeList (base + total as) h = Some h'
           \<and> heap_bounds h' base (total as + n + total bs)
           \<and> free_list_ok h' base (coalesce (as @ Free n # bs))
           \<and> (\<forall>p. p \<in> fst ` set (ublocks base (as @ Free n # bs)) \<longrightarrow>
                 pxNextFreeBlock h' p = pxNextFreeBlock h p \<and> xBlockSize h' p = xBlockSize h p)
           \<and> h' = h\<lparr>pxNextFreeBlock := pxNextFreeBlock h', xBlockSize := xBlockSize h'\<rparr>"
proof -
  obtain h' where h': "prvInsertBlockIntoFreeList (base + total as) h = Some h'"
    "inserted h h' base as n bs"
    using prvInsertBlockIntoFreeList_inserts [OF i] by blast
  let ?P = "fst ` set (fblocks base (as @ Free n # bs))"
  obtain nx sz where w: "h' = h\<lparr>pxNextFreeBlock := nx, xBlockSize := sz\<rparr>"
    "\<forall>p. p \<notin> insert (xStart h) ?P \<longrightarrow> nx p = pxNextFreeBlock h p" "\<forall>p. p \<notin> ?P \<longrightarrow> sz p = xBlockSize h p"
    using h'(2) by (auto simp: inserted_def insert_writes_def)
  have ok: "segs_ok (as @ Free n # bs)" using i n by (simp add: insertable_def)
  note pos = segs_ok_pos [OF ok]
  have end': "pxEnd h = base + (total as + n + total bs)" and st: "xStart h < base \<or> pxEnd h < xStart h"
    using g unfolding heap_bounds_def by blast+
  have P: "base \<le> p \<and> p < pxEnd h" if "p \<in> ?P" for p
    using fblocks_addr_bounds [OF that pos] end' by simp
  have U: "p \<notin> insert (xStart h) ?P" if u: "p \<in> fst ` set (ublocks base (as @ Free n # bs))" for p
  proof -
    obtain m where m: "(p, m) \<in> set (ublocks base (as @ Free n # bs))"
      using u unfolding image_iff by (metis prod.collapse)
    then have "Used m \<in> set (as @ Free n # bs)" by (blast dest: ublocks_bounds)
    then have "0 < m" using pos by fastforce
    with ublocks_bounds [OF m] end' have "base \<le> p" "p < pxEnd h" by auto
    with st ublocks_fblocks_disjoint [OF pos m] show ?thesis by auto
  qed
  have "pxEnd h \<notin> insert (xStart h) ?P" "xStart h \<notin> ?P"
    using P st end' by fastforce+
  then have "nx (pxEnd h) = 0" "sz (pxEnd h) = 0" "sz (xStart h) = 0"
    using w e i by (simp_all add: insertable_def)
  moreover have "segs_ok (coalesce (as @ Free n # bs))" "coalesced (coalesce (as @ Free n # bs))"
    using ok by (simp_all add: segs_ok_coalesce coalesced_coalesce)
  ultimately have "free_list_ok h' base (coalesce (as @ Free n # bs))"
    using h'(2) w(1) by (simp add: inserted_def free_list_ok_def)
  moreover have "heap_bounds h' base (total as + n + total bs)" using g w(1) by simp
  ultimately show ?thesis using h'(1) w U by (intro exI [of _ h']) simp
qed

end
