(* ===== verification/Heap4_Spec.thy ===== *)
theory Heap4_Spec
  imports Heap4_Insert
begin

text \<open>
  The correctness of \<open>heap_4.c\<close>: \<open>pvPortMalloc\<close> is first fit over the tiling and \<open>vPortFree\<close>
  turns a used segment back into a free one that is merged with its neighbours, both keeping
  \<open>heap_inv\<close>. The properties of the allocator follow from these two refinements.
\<close>

section \<open>Sizes and the allocated bit\<close>

lemma heap_constants:
  "xHeapStructSize = 8" "heapMINIMUM_BLOCK_SIZE = 16"
  by (simp_all add: xHeapStructSize_def heapMINIMUM_BLOCK_SIZE_def portBYTE_ALIGNMENT_def
      portBYTE_ALIGNMENT_MASK_def)

lemma top_bit_clear: "w AND (0x80000000 :: u32) = 0 \<longleftrightarrow> unat w < 2 ^ 31"
proof -
  have "unat w < 2 ^ 32" using unsigned_less [where w = w and 'a = nat] by simp
  moreover have "w AND 0x80000000 = 0 \<longleftrightarrow> \<not> bit w 31"
    using and_exp_eq_0_iff_not_bit [of w 31] by simp
  moreover have "bit w 31 \<longleftrightarrow> odd (unat w div 2 ^ 31)"
    using bit_iff_odd [of "unat w" 31] by (simp add: bit_unsigned_iff)
  moreover have "unat w < 2 ^ 32 \<Longrightarrow> unat w div 2 ^ 31 = (if unat w < 2 ^ 31 then 0 else 1)"
    by (auto intro: div_nat_eqI)
  ultimately show ?thesis by (auto split: if_splits)
qed

lemma allocated_bit:
  assumes "n < 2 ^ 31"
  shows "(of_nat n OR 0x80000000) AND (0x80000000 :: u32) \<noteq> 0"
    and "(of_nat n OR 0x80000000) AND NOT (0x80000000 :: u32) = of_nat n"
proof -
  have b: "\<not> bit (of_nat n :: u32) 31"
    using top_bit_clear [of "of_nat n"] and_exp_eq_0_iff_not_bit [of "of_nat n :: u32" 31] assms
    by (simp add: unat_of_nat_small)
  show "(of_nat n OR 0x80000000) AND (0x80000000 :: u32) \<noteq> 0"
    using and_exp_eq_0_iff_not_bit [of "of_nat n OR 0x80000000 :: u32" 31]
    by (simp add: bit_or_iff bit_exp_iff [of 31, simplified])
  have "(w OR 2 ^ k) AND NOT (2 ^ k) = w" if "\<not> bit w k" for w :: u32 and k
    by (rule bit_word_eqI) (use that in \<open>auto simp: bit_and_iff bit_or_iff bit_not_iff bit_exp_iff\<close>)
  from this [OF b] show "(of_nat n OR 0x80000000) AND NOT (0x80000000 :: u32) = of_nat n" by simp
qed

text \<open>The block size a request needs: header added, rounded up to four bytes.\<close>

definition block_size :: "nat \<Rightarrow> nat" where
  "block_size n = (n + 11) div 4 * 4"

lemma round4: "x mod 4 \<noteq> 0 \<Longrightarrow> x + (4 - x mod 4) = (x + 3) div 4 * (4 :: nat)"
  by presburger

lemma round4_id: "x mod 4 = 0 \<Longrightarrow> x = (x + 3) div 4 * (4 :: nat)"
  by presburger

lemma adjust_size_rounds:
  assumes "0 < w" and "unat w < 2 ^ 31"
  shows "\<exists>v. adjust_size w = Returns v \<and> unat v = block_size (unat w)"
proof -
  have x: "unat (w + 8) = unat w + 8" using assms(2) by (simp add: unat_plus_if')
  define r where "r = unat (w + 8) mod 4"
  show ?thesis
  proof (cases "r = 0")
    case True
    then have "(w + 8) AND 3 = 0" by (simp add: mask3_eq_0 r_def dvd_eq_mod_eq_0)
    moreover have "unat w + 8 = block_size (unat w)"
      using round4_id [of "unat w + 8"] True x by (simp add: r_def block_size_def)
    ultimately show ?thesis
      using assms(1) x by (simp add: adjust_size_def heap_constants portBYTE_ALIGNMENT_MASK_def Let_def)
  next
    case False
    have r: "unat ((w + 8) AND 3) = r" "r < 4" by (simp_all add: mask3 r_def)
    then have "unat (4 - ((w + 8) AND 3)) = 4 - r"
      by (subst unat_sub) (simp_all add: word_le_nat_alt)
    then have v: "unat (w + 8 + (4 - ((w + 8) AND 3))) = unat w + 8 + (4 - r)"
      using x assms(2) by (subst unat_plus_if') simp
    also have "\<dots> = block_size (unat w)"
      using round4 [of "unat w + 8"] False x by (simp add: r_def block_size_def)
    finally have u: "unat (w + 8 + (4 - ((w + 8) AND 3))) = block_size (unat w)" .
    have "(w + 8) AND 3 \<noteq> 0" using False r by (metis unat_0)
    moreover have "(w + 8 + (4 - ((w + 8) AND 3))) AND 3 = 0"
      unfolding mask3_eq_0 u by (simp add: block_size_def)
    ultimately show ?thesis
      using assms(1) u
      by (simp add: adjust_size_def heap_constants portBYTE_ALIGNMENT_MASK_def portBYTE_ALIGNMENT_def Let_def)
  qed
qed

section \<open>First fit\<close>

text \<open>A block is split when more than \<open>heapMINIMUM_BLOCK_SIZE\<close> would be left.\<close>

abbreviation cut :: "nat \<Rightarrow> nat \<Rightarrow> seg list" where
  "cut \<equiv> cut_above 16"

abbreviation a_alloc :: "nat \<Rightarrow> seg list \<Rightarrow> (nat \<times> seg list) option" where
  "a_alloc \<equiv> fit_first 16"

lemmas cut_def = cut_above_def [of 16]

section \<open>The search\<close>

lemma first_fit_stops:
  assumes "npath h p as c" and "\<forall>a\<in>set as. xBlockSize h a < w \<and> pxNextFreeBlock h a \<noteq> 0"
    and "\<not> (xBlockSize h c < w \<and> pxNextFreeBlock h c \<noteq> 0)"
  shows "first_fit h w p (pxNextFreeBlock h p) = Some (last (p # as), c)"
  using assms
proof (induction as arbitrary: p)
  case Nil
  then show ?case by (subst first_fit.simps) (auto simp: npath_Nil)
next
  case (Cons a as)
  then have "first_fit h w a (pxNextFreeBlock h a) = Some (last (a # as), c)" by (simp add: npath_Cons)
  with Cons.prems show ?case by (subst first_fit.simps) (auto simp: npath_Cons)
qed

lemma npath_next_mem:
  assumes "npath h p as q" and "a \<in> set as"
  shows "pxNextFreeBlock h a \<in> insert q (set as)"
proof -
  have "map (pxNextFreeBlock h) as = tl (as @ [q])"
    using assms(1) npath_split [of h p "[]" as q] by simp
  then have "pxNextFreeBlock h a \<in> set (tl (as @ [q]))" using assms(2) by (metis image_eqI list.set_map)
  then show ?thesis by (cases as) auto
qed

lemma npath_prefix: "npath h p (as @ c # bs) q \<Longrightarrow> npath h p as c"
  using npath_split [of h p as "c # bs" q] npath_split [of h p as "[]" c] by simp

lemma free_nexts:
  assumes i: "heap_inv h base segs" and "a \<in> fst ` set (fblocks base segs)"
  shows "pxNextFreeBlock h a \<noteq> 0"
proof -
  have "pxNextFreeBlock h a \<in> insert (pxEnd h) (fst ` set (fblocks base segs))"
    using i assms(2) npath_next_mem by (fastforce simp: heap_inv_def free_list_ok_def)
  moreover have "0 < pxEnd h" "0 < base"
    using i by (simp_all add: heap_inv_def heap_bounds_def)
  moreover have "base \<le> p" if "p \<in> fst ` set (fblocks base segs)" for p
    using that by (auto dest: fblocks_bounds)
  ultimately show ?thesis by fastforce
qed

lemma free_size:
  assumes i: "heap_inv h base segs" and "(a, n) \<in> set (fblocks base segs)"
  shows "unat (xBlockSize h a) = n" and "Free n \<in> set segs"
proof -
  have "n < 2 ^ 32" "Free n \<in> set segs"
    using fblocks_bounds [OF assms(2)] i by (auto simp: heap_inv_def heap_bounds_def)
  then show "unat (xBlockSize h a) = n" "Free n \<in> set segs"
    using i assms(2) by (auto simp: heap_inv_def free_list_ok_def sizes_ok_def unat_of_nat_small)
qed

lemma first_fit_finds:
  assumes i: "heap_inv h base (as @ Free k # bs)" and "unat w \<le> k"
    and "\<forall>j. Free j \<in> set as \<longrightarrow> j < unat w"
  shows "first_fit h w (xStart h) (pxNextFreeBlock h (xStart h)) =
           Some (last (xStart h # map fst (fblocks base as)), base + total as)"
proof (rule first_fit_stops)
  have "npath h (xStart h) (map fst (fblocks base (as @ Free k # bs))) (pxEnd h)"
    using i by (simp add: heap_inv_def free_list_ok_def)
  then show "npath h (xStart h) (map fst (fblocks base as)) (base + total as)"
    by (simp add: fblocks_append npath_prefix)
  have "xBlockSize h p < w \<and> pxNextFreeBlock h p \<noteq> 0" if "(p, n) \<in> set (fblocks base as)" for p n
  proof -
    have m: "(p, n) \<in> set (fblocks base (as @ Free k # bs))" using that by (simp add: fblocks_append)
    then have "pxNextFreeBlock h p \<noteq> 0" using free_nexts [OF i] by force
    moreover have "Free n \<in> set as" using that by (blast dest: fblocks_bounds)
    ultimately show ?thesis using free_size [OF i m] assms(3) by (simp add: word_less_nat_alt)
  qed
  then show "\<forall>a\<in>set (map fst (fblocks base as)). xBlockSize h a < w \<and> pxNextFreeBlock h a \<noteq> 0" by auto
  have "unat (xBlockSize h (base + total as)) = k"
    using free_size(1) [OF i, of "base + total as" k] by (simp add: fblocks_append)
  then show "\<not> (xBlockSize h (base + total as) < w \<and> pxNextFreeBlock h (base + total as) \<noteq> 0)"
    using assms(2) by (simp add: word_less_nat_alt)
qed

lemma first_fit_fails:
  assumes i: "heap_inv h base segs" and "\<forall>k. Free k \<in> set segs \<longrightarrow> k < unat w"
  shows "\<exists>p. first_fit h w (xStart h) (pxNextFreeBlock h (xStart h)) = Some (p, pxEnd h)"
proof (intro exI, rule first_fit_stops)
  show "npath h (xStart h) (map fst (fblocks base segs)) (pxEnd h)"
    "\<not> (xBlockSize h (pxEnd h) < w \<and> pxNextFreeBlock h (pxEnd h) \<noteq> 0)"
    using i by (simp_all add: heap_inv_def free_list_ok_def)
  have "xBlockSize h p < w \<and> pxNextFreeBlock h p \<noteq> 0" if "(p, n) \<in> set (fblocks base segs)" for p n
    using free_nexts [OF i, of p] free_size [OF i that] that assms(2)
    by (force simp: word_less_nat_alt)
  then show "\<forall>a\<in>set (map fst (fblocks base segs)). xBlockSize h a < w \<and> pxNextFreeBlock h a \<noteq> 0"
    by auto
qed

section \<open>Taking a block\<close>

lemma used_ok_Cons [simp]:
  "used_ok h (u # us) \<longleftrightarrow>
     xBlockSize h (fst u) = of_nat (snd u) OR 0x80000000 \<and> pxNextFreeBlock h (fst u) = 0 \<and> used_ok h us"
  by (auto simp: used_ok_def split: prod.splits)

lemma used_ok_Nil [simp]: "used_ok h []"
  by (simp add: used_ok_def)

lemma used_ok_append [simp]: "used_ok h (us @ vs) \<longleftrightarrow> used_ok h us \<and> used_ok h vs"
  by (auto simp: used_ok_def)

lemma used_ok_cong:
  "used_ok h us \<Longrightarrow> \<forall>p\<in>fst ` set us. pxNextFreeBlock h' p = pxNextFreeBlock h p \<and> xBlockSize h' p = xBlockSize h p
     \<Longrightarrow> used_ok h' us"
  by (force simp: used_ok_def)

lemma used_ok_write:
  assumes "a \<notin> fst ` set us"
  shows "used_ok (h\<lparr>pxNextFreeBlock := nx(a := p)\<rparr>) us \<longleftrightarrow> used_ok (h\<lparr>pxNextFreeBlock := nx\<rparr>) us"
    and "used_ok (h\<lparr>pxNextFreeBlock := nx(a := p), xBlockSize := sz\<rparr>) us
           \<longleftrightarrow> used_ok (h\<lparr>pxNextFreeBlock := nx, xBlockSize := sz\<rparr>) us"
    and "used_ok (h\<lparr>xBlockSize := sz(a := n)\<rparr>) us \<longleftrightarrow> used_ok (h\<lparr>xBlockSize := sz\<rparr>) us"
  unfolding used_ok_def using assms by (intro ball_cong; auto simp: image_iff)+

lemma npath_cong:
  "\<forall>a\<in>set (p # ps). pxNextFreeBlock h' a = pxNextFreeBlock h a \<Longrightarrow> npath h' p ps q \<longleftrightarrow> npath h p ps q"
  unfolding npath_def by (metis (no_types, lifting) map_cong)

lemma ublocks_addr:
  assumes "segs_ok segs" and "p \<in> fst ` set (ublocks base segs)"
  shows "base \<le> p" and "p < base + total segs" and "p \<notin> fst ` set (fblocks base segs)"
proof -
  obtain m where m: "(p, m) \<in> set (ublocks base segs)" using assms(2) by fastforce
  then have "Used m \<in> set segs" by (blast dest: ublocks_bounds)
  then have "0 < m" using segs_ok_pos [OF assms(1)] by fastforce
  with ublocks_bounds [OF m] show "base \<le> p" "p < base + total segs" by auto
  show "p \<notin> fst ` set (fblocks base segs)"
    by (rule ublocks_fblocks_disjoint [OF segs_ok_pos [OF assms(1)] m])
qed

lemma free_total_word:
  assumes "heap_bounds h base (total segs)"
  shows "unat (of_nat (free_total segs) :: u32) = free_total segs"
proof -
  have "free_total segs < 2 ^ 32"
    using assms free_total_le [of segs] by (simp add: heap_bounds_def)
  then show ?thesis by (rule unat_of_nat_small)
qed

text \<open>The last part of \<open>pvPortMalloc\<close>: the block is charged to the counters and marked.\<close>

lemma charge_block_allocates:
  assumes g: "heap_bounds h base (total (as @ Used m # bs))" and l: "free_list_ok h base (as @ Used m # bs)"
    and u: "used_ok h (ublocks base as)" "used_ok h (ublocks (base + total as + m) bs)"
    and b: "xBlockSize h (base + total as) = of_nat m"
    and c: "xFreeBytesRemaining h = of_nat (free_total (as @ bs) + m)"
  shows "heap_inv (charge_block (base + total as) h) base (as @ Used m # bs)"
    and "xMinimumEverFreeBytesRemaining (charge_block (base + total as) h) =
           min (xMinimumEverFreeBytesRemaining h) (of_nat (free_total (as @ bs)))"
proof -
  let ?b = "base + total as"
  have ok: "segs_ok (as @ Used m # bs)" using l by (simp add: free_list_ok_def)
  have "?b \<in> fst ` set (ublocks base (as @ Used m # bs))" by (simp add: ublocks_append)
  note a = ublocks_addr [OF ok this]
  have d: "?b \<notin> fst ` set (ublocks base as) \<union> fst ` set (ublocks (?b + m) bs)"
  proof -
    have "p < ?b" if "p \<in> fst ` set (ublocks base as)" for p
      using ublocks_addr(2) [OF _ that] ok by simp
    moreover have "?b + m \<le> p" if "p \<in> fst ` set (ublocks (?b + m) bs)" for p
      using ublocks_addr(1) [OF _ that] ok by simp
    ultimately show ?thesis using ok by fastforce
  qed
  have e: "pxEnd h = base + total (as @ Used m # bs)" "xStart h < base \<or> pxEnd h < xStart h"
    and bit: "xBlockAllocatedBit h = 0x80000000"
    using g unfolding heap_bounds_def by blast+
  have ne: "?b \<noteq> xStart h" "?b \<noteq> pxEnd h" using a(1,2) e by (elim disjE; linarith)+
  have frees: "xFreeBytesRemaining h - of_nat m = of_nat (free_total (as @ bs))" by (simp add: c)
  obtain M where M: "charge_block ?b h =
      h\<lparr>pxNextFreeBlock := (pxNextFreeBlock h)(?b := 0),
        xBlockSize := (xBlockSize h)(?b := of_nat m OR 0x80000000),
        xFreeBytesRemaining := of_nat (free_total (as @ bs)), xMinimumEverFreeBytesRemaining := M\<rparr>"
    "M = min (xMinimumEverFreeBytesRemaining h) (of_nat (free_total (as @ bs)))"
    unfolding charge_block_def Let_def b frees
    by (auto simp: bit b min_def not_less intro!: heap4.equality)
  have fr: "\<forall>p\<in>X. pxNextFreeBlock (charge_block ?b h) p = pxNextFreeBlock h p"
    "\<forall>p\<in>X. xBlockSize (charge_block ?b h) p = xBlockSize h p" if "?b \<notin> X" for X
    using that by (auto simp: M(1))
  have "free_list_ok (charge_block ?b h) base (as @ Used m # bs)"
  proof -
    have "npath (charge_block ?b h) (xStart h) (map fst (fblocks base (as @ Used m # bs))) (pxEnd h)"
      using l npath_cong [OF fr(1), of "xStart h" "map fst (fblocks base (as @ Used m # bs))" "pxEnd h"] a(3) ne
      by (simp add: free_list_ok_def)
    moreover have "sizes_ok (charge_block ?b h) (fblocks base (as @ Used m # bs))"
      by (rule sizes_ok_cong [of h, OF _ fr(2)]) (use l a(3) in \<open>simp_all add: free_list_ok_def\<close>)
    ultimately show ?thesis using l ne by (simp add: free_list_ok_def M(1))
  qed
  moreover have "used_ok (charge_block ?b h) (ublocks base (as @ Used m # bs))"
  proof -
    have "used_ok (charge_block ?b h) (ublocks base as)"
      by (rule used_ok_cong [OF u(1)]) (use fr d in blast)
    moreover have "used_ok (charge_block ?b h) (ublocks (?b + m) bs)"
      by (rule used_ok_cong [OF u(2)]) (use fr d in blast)
    ultimately show ?thesis by (simp add: M(1) ublocks_append)
  qed
  moreover have "counters_ok (charge_block ?b h) (as @ Used m # bs)"
    by (simp add: counters_ok_def M)
  ultimately show "heap_inv (charge_block ?b h) base (as @ Used m # bs)"
    using g by (simp add: heap_inv_def M(1))
  show "xMinimumEverFreeBytesRemaining (charge_block ?b h) =
           min (xMinimumEverFreeBytesRemaining h) (of_nat (free_total (as @ bs)))"
    by (simp add: M)
qed

text \<open>Unlinking the block the search returned.\<close>

lemma heap_invD:
  assumes "heap_inv h base segs"
  shows "heap_bounds h base (total segs)" and "free_list_ok h base segs"
    and "used_ok h (ublocks base segs)" and "counters_ok h segs" and "segs_ok segs" and "coalesced segs"
    and "npath h (xStart h) (map fst (fblocks base segs)) (pxEnd h)"
    and "pxEnd h = base + total segs" and "xStart h < base \<or> pxEnd h < xStart h"
    and "pxNextFreeBlock h (pxEnd h) = 0" and "xBlockSize h (pxEnd h) = 0" and "xBlockSize h (xStart h) = 0"
    and "sizes_ok h (fblocks base segs)"
  using assms unfolding heap_inv_def heap_bounds_def free_list_ok_def by blast+

lemma heap_headers_distinct:
  assumes "heap_inv h base segs"
  shows "xStart h \<notin> fst ` set (fblocks base segs)" and "pxEnd h \<notin> fst ` set (fblocks base segs)"
    and "xStart h \<notin> fst ` set (ublocks base segs)" and "xStart h \<noteq> pxEnd h"
    and "pxEnd h \<notin> fst ` set (ublocks base segs)"
proof -
  note d = heap_invD [OF assms]
  have notin: "xStart h \<notin> X \<and> pxEnd h \<notin> X" if "\<And>p. p \<in> X \<Longrightarrow> base \<le> p \<and> p < pxEnd h" for X
    using that [of "xStart h"] that [of "pxEnd h"] d(9) by auto
  show "xStart h \<notin> fst ` set (fblocks base segs)" "pxEnd h \<notin> fst ` set (fblocks base segs)"
    using notin [of "fst ` set (fblocks base segs)"] fblocks_addr_bounds [OF _ segs_ok_pos [OF d(5)], of _ base]
    unfolding d(8) by (metis (no_types))+
  show "xStart h \<notin> fst ` set (ublocks base segs)" "pxEnd h \<notin> fst ` set (ublocks base segs)"
    using notin [of "fst ` set (ublocks base segs)"] ublocks_addr(1,2) [OF d(5), of _ base]
    unfolding d(8) by (metis (no_types))+
  show "xStart h \<noteq> pxEnd h" using d(8,9) by auto
qed

lemma unlink_block:
  fixes h k as bs base
  defines "blk \<equiv> base + total as"
  defines "prev \<equiv> last (xStart h # map fst (fblocks base as))"
  assumes i: "heap_inv h base (as @ Free k # bs)"
  shows "pxNextFreeBlock h prev = blk"
    and "npath (write_next prev (pxNextFreeBlock h blk) h) (xStart h)
           (map fst (fblocks base as) @ map fst (fblocks (blk + k) bs)) (pxEnd h)"
    and "prev \<notin> fst ` set (ublocks base (as @ Free k # bs))" and "prev \<noteq> pxEnd h" and "prev \<noteq> blk"
proof -
  define A where "A = map fst (fblocks base as)"
  define B where "B = map fst (fblocks (blk + k) bs)"
  note d = heap_invD [OF i]
  have f: "map fst (fblocks base (as @ Free k # bs)) = A @ [blk] @ B"
    by (simp add: fblocks_append A_def B_def blk_def)
  have p: "npath h (xStart h) (A @ [blk] @ B) (pxEnd h)"
    using d(7) unfolding f .
  then show "pxNextFreeBlock h prev = blk"
    using npath_split [of h "xStart h" A "[blk] @ B" "pxEnd h"] by (simp add: prev_def A_def)
  have n: "pxNextFreeBlock h blk = hd (B @ [pxEnd h])"
    using p npath_split [of h "xStart h" "A @ [blk]" B "pxEnd h"] by simp
  have "distinct (map fst (fblocks base (as @ Free k # bs)))"
    by (rule distinct_fblocks) (use segs_ok_pos [OF d(5)] in blast)
  moreover have s: "set (A @ [blk] @ B) = fst ` set (fblocks base (as @ Free k # bs))"
    unfolding f [symmetric] by simp
  moreover have sA: "set A \<subseteq> fst ` set (fblocks base (as @ Free k # bs))" using s by auto
  ultimately have dist: "distinct ((xStart h # A) @ blk # B @ [pxEnd h])"
    using heap_headers_distinct [OF i] unfolding f s [symmetric] by auto
  have prev: "prev \<notin> set (butlast (xStart h # A)) \<union> set (blk # B @ [pxEnd h])"
    using last_notin [OF dist] by (simp add: prev_def A_def)
  then show "prev \<noteq> pxEnd h" "prev \<noteq> blk" by auto
  have "prev \<in> insert (xStart h) (set A)"
    using last_in_set [of "xStart h # A"] by (simp add: prev_def A_def)
  then show "prev \<notin> fst ` set (ublocks base (as @ Free k # bs))"
    using heap_headers_distinct(3) [OF i] ublocks_addr(3) [OF d(5), of prev base] sA by (metis insertE subsetD)
  show "npath (write_next prev (pxNextFreeBlock h blk) h) (xStart h)
           (map fst (fblocks base as) @ map fst (fblocks (blk + k) bs)) (pxEnd h)"
    unfolding A_def [symmetric] B_def [symmetric] n
    by (rule npath_bridge [OF p])
      (use prev in \<open>auto simp: prev_def [folded A_def] dest: in_set_butlastD\<close>)
qed

lemma take_whole_block:
  assumes i: "heap_inv h base (as @ Free k # bs)" and small: "k - unat w \<le> 16" "unat w \<le> k"
  shows "\<exists>h'. take_block w (last (xStart h # map fst (fblocks base as))) (base + total as) h = Returns h'
           \<and> heap_inv h' base (as @ Used k # bs)
           \<and> xMinimumEverFreeBytesRemaining h' =
               min (xMinimumEverFreeBytesRemaining h) (of_nat (free_total (as @ bs)))"
proof -
  define blk where "blk = base + total as"
  define prev where "prev = last (xStart h # map fst (fblocks base as))"
  note d = heap_invD [OF i] and u = unlink_block [OF i, folded blk_def, folded prev_def]
  note hd = heap_headers_distinct [OF i]
  let ?h = "write_next prev (pxNextFreeBlock h blk) h"
  have sz: "xBlockSize h blk = of_nat k" "unat (xBlockSize h blk) = k"
    using free_size(1) [OF i, of blk k] d(13) by (simp_all add: fblocks_append blk_def)
  have "unat (xBlockSize h blk - w) = k - unat w"
    using sz small by (subst unat_sub) (simp_all add: word_le_nat_alt)
  then have take: "take_block w prev blk h = Returns (charge_block blk ?h)"
    using small by (simp add: take_block_def heap_constants word_less_nat_alt)
  have "coalesced (as @ Used k # bs)" using d(6) by (auto simp: coalesced_append)
  then have "free_list_ok ?h base (as @ Used k # bs)"
    using d(5,10-13) u(2,4) by (simp add: free_list_ok_def fblocks_append blk_def)
  moreover have "used_ok ?h (ublocks base as)" "used_ok ?h (ublocks (blk + k) bs)"
    using d(3) u(3) by (simp_all add: ublocks_append blk_def used_ok_write image_Un)
  moreover have "xFreeBytesRemaining h = of_nat (free_total (as @ bs) + k)"
    using d(4) by (simp add: counters_ok_def)
  ultimately have "heap_inv (charge_block blk ?h) base (as @ Used k # bs)"
    "xMinimumEverFreeBytesRemaining (charge_block blk ?h) =
       min (xMinimumEverFreeBytesRemaining ?h) (of_nat (free_total (as @ bs)))"
    unfolding blk_def using d(1) sz(1)
    by (intro charge_block_allocates; simp add: blk_def)+
  with take show ?thesis unfolding blk_def prev_def by simp
qed

lemma segs_ok_total: "segs_ok segs \<Longrightarrow> 4 dvd total segs"
  by (induction segs) auto

lemma free_addr_after:
  assumes "heap_inv h base (as @ Free k # bs)"
  shows "\<forall>p\<in>fst ` set (fblocks base as). p < base + total as"
    and "\<forall>p\<in>fst ` set (ublocks base as). p < base + total as"
    and "\<forall>p\<in>fst ` set (fblocks (base + total as + k) bs). base + total as + k \<le> p"
    and "\<forall>p\<in>fst ` set (ublocks (base + total as + k) bs). base + total as + k \<le> p"
proof -
  have ok: "segs_ok as" "segs_ok bs"
    using heap_invD(5) [OF assms] by simp_all
  show "\<forall>p\<in>fst ` set (fblocks base as). p < base + total as"
    by (intro ballI fblocks_addr_bounds(2) [OF _ segs_ok_pos [OF ok(1)]])
  show "\<forall>p\<in>fst ` set (ublocks base as). p < base + total as"
    by (intro ballI ublocks_addr(2) [OF ok(1)])
  show "\<forall>p\<in>fst ` set (fblocks (base + total as + k) bs). base + total as + k \<le> p"
    by (intro ballI fblocks_addr_bounds(1) [OF _ segs_ok_pos [OF ok(2)]])
  show "\<forall>p\<in>fst ` set (ublocks (base + total as + k) bs). base + total as + k \<le> p"
    by (intro ballI ublocks_addr(1) [OF ok(2)])
qed

text \<open>The state in which the remainder of a split block is inserted.\<close>

lemma split_insertable:
  fixes h k as bs base
  defines "blk \<equiv> base + total as"
  defines "prev \<equiv> last (xStart h # map fst (fblocks base as))"
  assumes i: "heap_inv h base (as @ Free k # bs)" and n: "8 \<le> n" "4 dvd n" "n < k"
  defines "h' \<equiv> write_size blk (of_nat n) (write_size (blk + n) (of_nat (k - n))
                    (write_next prev (pxNextFreeBlock h blk) h))"
  shows "insertable h' base (as @ [Used n]) (k - n) bs"
    and "used_ok h' (ublocks base as)" and "used_ok h' (ublocks (blk + k) bs)"
    and "pxNextFreeBlock h' (pxEnd h') = 0" and "xBlockSize h' (pxEnd h') = 0"
    and "heap_bounds h' base (total (as @ Free k # bs))" and "xBlockSize h' blk = of_nat n"
proof -
  note d = heap_invD [OF i] and u = unlink_block [OF i, folded blk_def, folded prev_def]
  note a = free_addr_after [OF i, folded blk_def]
  have e: "pxEnd h = blk + k + total bs" using d(8) by (simp add: blk_def)
  have out: "\<forall>p\<in>X. p < blk \<Longrightarrow> blk \<notin> X \<and> blk + n \<notin> X" "\<forall>p\<in>X. blk + k \<le> p \<Longrightarrow> blk \<notin> X \<and> blk + n \<notin> X" for X
    using n by auto
  note nF = out(1) [OF a(1)] out(2) [OF a(3)] and nU = out(1) [OF a(2)] out(2) [OF a(4)]
  have st: "xStart h \<noteq> blk" "xStart h \<noteq> blk + n" and en: "pxEnd h \<noteq> blk" "pxEnd h \<noteq> blk + n"
    using d(9) e n by (auto simp: blk_def)
  have ab: "base + total (as @ [Used n]) = blk + n" "blk + n + (k - n) = blk + k" using n by (simp_all add: blk_def)
  have fb: "fblocks base (as @ [Used n]) = fblocks base as" by (simp add: fblocks_append)
  have co: "coalesced (as @ [Used n])" "coalesced bs"
    using d(6) by (simp_all add: coalesced_append starts_free_def)
  have "npath h' (xStart h) (map fst (fblocks base as) @ map fst (fblocks (blk + k) bs)) (pxEnd h)"
    using u(2) by (simp add: h'_def npath_def)
  moreover have "sizes_ok h' (fblocks base as)" "sizes_ok h' (fblocks (blk + k) bs)"
    using d(13) nF by (simp_all add: h'_def sizes_ok_write_size fblocks_append blk_def)
  ultimately show "insertable h' base (as @ [Used n]) (k - n) bs"
    unfolding insertable_def ab fb using d(1,5,9,12) n st co e
    by (auto simp: h'_def heap_bounds_def)
  have "used_ok h (ublocks base as)" "used_ok h (ublocks (blk + k) bs)"
    using d(3) by (simp_all add: ublocks_append blk_def)
  moreover have "prev \<notin> fst ` set (ublocks base as)" "prev \<notin> fst ` set (ublocks (blk + k) bs)"
    using u(3) by (simp_all add: ublocks_append blk_def image_Un)
  ultimately show "used_ok h' (ublocks base as)" "used_ok h' (ublocks (blk + k) bs)"
    using nU by (simp_all add: h'_def used_ok_write)
  show "pxNextFreeBlock h' (pxEnd h') = 0" "xBlockSize h' (pxEnd h') = 0"
    using d(10,11) en u(4) by (simp_all add: h'_def)
  show "heap_bounds h' base (total (as @ Free k # bs))" using d(1) by (simp add: h'_def)
  show "xBlockSize h' blk = of_nat n" by (simp add: h'_def)
qed

lemma take_split_block:
  assumes i: "heap_inv h base (as @ Free k # bs)" and big: "16 < k - unat w"
    and w: "8 \<le> unat w" "4 dvd unat w"
  shows "\<exists>h'. take_block w (last (xStart h # map fst (fblocks base as))) (base + total as) h = Returns h'
           \<and> heap_inv h' base (as @ [Used (unat w), Free (k - unat w)] @ bs)
           \<and> xMinimumEverFreeBytesRemaining h' =
               min (xMinimumEverFreeBytesRemaining h) (of_nat (free_total (as @ bs) + (k - unat w)))"
proof -
  define n where "n = unat w"
  define blk where "blk = base + total as"
  define prev where "prev = last (xStart h # map fst (fblocks base as))"
  note d = heap_invD [OF i]
  have n: "8 \<le> n" "4 dvd n" "n < k" using big w by (simp_all add: n_def)
  have wn: "w = of_nat n" by (simp add: n_def)
  let ?h = "write_size blk (of_nat n) (write_size (blk + n) (of_nat (k - n))
              (write_next prev (pxNextFreeBlock h blk) h))"
  note s = split_insertable [OF i n, folded blk_def, folded prev_def]
  have kn: "k - n \<ge> 8" "4 dvd k - n" using n big d(5) by (auto simp: n_def)
  have tot: "total (as @ [Used n]) + (k - n) + total bs = total (as @ Free k # bs)" using n by simp
  have at: "base + total (as @ [Used n]) = blk + n" "base + total as = blk" by (simp_all add: blk_def)
  obtain h2 where h2: "prvInsertBlockIntoFreeList (blk + n) ?h = Some h2"
    "heap_bounds h2 base (total (as @ Free k # bs))"
    "free_list_ok h2 base (coalesce ((as @ [Used n]) @ Free (k - n) # bs))"
    "\<forall>p. p \<in> fst ` set (ublocks base ((as @ [Used n]) @ Free (k - n) # bs)) \<longrightarrow>
         pxNextFreeBlock h2 p = pxNextFreeBlock ?h p \<and> xBlockSize h2 p = xBlockSize ?h p"
    "h2 = ?h\<lparr>pxNextFreeBlock := pxNextFreeBlock h2, xBlockSize := xBlockSize h2\<rparr>"
    using insert_block [OF s(1) s(6) [folded tot] s(4,5) kn] unfolding tot at by blast
  have sz: "xBlockSize h blk = of_nat k" "unat (xBlockSize h blk) = k"
    using free_size(1) [OF i, of blk k] d(13) by (simp_all add: fblocks_append blk_def)
  have prevblk: "blk \<noteq> prev" using unlink_block(5) [OF i] by (simp add: blk_def prev_def)
  have rem: "xBlockSize h blk - w = of_nat (k - n)" using sz(1) wn n by (simp add: of_nat_diff)
  have remu: "unat (of_nat (k - n) :: u32) = k - n"
    using d(1) by (intro unat_of_nat_small) (auto simp: heap_bounds_def)
  have al: "(of_nat (blk + n) :: u32) AND 3 = 0"
  proof -
    have "4 dvd base" "4 dvd total as"
      using d(1,5) segs_ok_total [of as] by (simp_all add: heap_bounds_def mod_eq_0_iff_dvd)
    with n have "4 dvd blk + n" unfolding blk_def by (intro dvd_add)
    moreover have "unat (of_nat (blk + n) :: u32) = blk + n"
      using d(1) n by (intro unat_of_nat_small) (simp add: blk_def heap_bounds_def)
    ultimately show ?thesis by (simp only: mask3_eq_0)
  qed
  have take: "take_block w prev blk h = Returns (charge_block blk h2)"
    using h2(1) big al remu rem
    by (simp add: take_block_def Let_def heap_constants word_less_nat_alt portBYTE_ALIGNMENT_MASK_def n_def)
  have c: "coalesce ((as @ [Used n]) @ Free (k - n) # bs) = as @ Used n # Free (k - n) # bs"
    using d(6) by (subst coalesce_id) (auto simp: coalesced_append ends_free_def)
  have us: "ublocks base ((as @ [Used n]) @ Free (k - n) # bs) =
      ublocks base as @ (blk, n) # ublocks (blk + n) (Free (k - n) # bs)"
    using n by (simp add: ublocks_append blk_def)
  let ?U = "fst ` set (ublocks base ((as @ [Used n]) @ Free (k - n) # bs))"
  have sub: "fst ` set (ublocks base as) \<subseteq> ?U" "fst ` set (ublocks (blk + k) bs) \<subseteq> ?U"
    unfolding us using n by auto
  have "used_ok h2 (ublocks base as)"
    by (rule used_ok_cong [OF s(2)], rule ballI, rule h2(4) [rule_format], rule subsetD [OF sub(1)])
  moreover have "used_ok h2 (ublocks (blk + k) bs)"
    by (rule used_ok_cong [OF s(3)], rule ballI, rule h2(4) [rule_format], rule subsetD [OF sub(2)])
  then have "used_ok h2 (ublocks (blk + n) (Free (k - n) # bs))" using n by simp
  moreover have "xBlockSize h2 blk = of_nat n"
  proof -
    have "blk \<in> ?U" unfolding us by simp
    from h2(4) [rule_format, OF this] show ?thesis by simp
  qed
  moreover have "xFreeBytesRemaining h2 = xFreeBytesRemaining h"
    "xMinimumEverFreeBytesRemaining h2 = xMinimumEverFreeBytesRemaining h"
    by (subst h2(5), simp)+
  moreover have "xFreeBytesRemaining h = of_nat (free_total (as @ Free (k - n) # bs) + n)"
    using d(4) n by (simp add: counters_ok_def)
  ultimately have "heap_inv (charge_block blk h2) base (as @ Used n # Free (k - n) # bs)"
    "xMinimumEverFreeBytesRemaining (charge_block blk h2) =
       min (xMinimumEverFreeBytesRemaining h) (of_nat (free_total (as @ Free (k - n) # bs)))"
    using charge_block_allocates [of h2 base as n "Free (k - n) # bs"] h2(2,3) n unfolding c by (simp_all add: blk_def)
  with take show ?thesis by (simp add: blk_def prev_def n_def ac_simps)
qed

lemma take_block_allocates:
  assumes i: "heap_inv h base (as @ Free k # bs)" and w: "8 \<le> unat w" "4 dvd unat w" "unat w \<le> k"
  shows "\<exists>h'. take_block w (last (xStart h # map fst (fblocks base as))) (base + total as) h = Returns h'
           \<and> heap_inv h' base (as @ cut (unat w) k @ bs)
           \<and> xMinimumEverFreeBytesRemaining h' = min (xMinimumEverFreeBytesRemaining h)
               (of_nat (free_total (as @ cut (unat w) k @ bs)))"
  using take_split_block [OF i _ w(1,2)] take_whole_block [OF i _ w(3)]
  by (cases "16 < k - unat w") (simp_all add: cut_def ac_simps)

section \<open>pvPortMalloc\<close>

text \<open>A request as the tiling sees it: nothing for a size of zero or above \<open>2 ^ 31\<close>.\<close>

definition a_malloc :: "nat \<Rightarrow> seg list \<Rightarrow> (nat \<times> seg list) option" where
  "a_malloc n segs = (if 0 < n \<and> n < 2 ^ 31 then a_alloc (block_size n) segs else None)"

lemma block_size_bounds: "0 < n \<Longrightarrow> 8 \<le> block_size n \<and> n + 8 \<le> block_size n \<and> 4 dvd block_size n"
  unfolding block_size_def by presburger

lemma heap_inv_initialised: "heap_inv h base segs \<Longrightarrow> pxEnd h \<noteq> 0 \<and> xBlockAllocatedBit h = 0x80000000"
  by (auto simp: heap_inv_def heap_bounds_def)

lemma a_alloc_free_total: "a_alloc w segs = Some (off, segs') \<Longrightarrow> w \<le> free_total segs"
  by (drule fit_first_Some) auto

lemma user_pointer_aligned:
  assumes "heap_inv h base (as @ x # bs)"
  shows "(of_nat (base + total as + 8) :: u32) AND 3 = 0"
proof -
  note d = heap_invD [OF assms]
  have "4 dvd base" "4 dvd total as" "8 \<le> seg_size x"
    using d(1,5) segs_ok_total [of as] by (simp_all add: heap_bounds_def mod_eq_0_iff_dvd)
  moreover from this d(1) have "unat (of_nat (base + total as + 8) :: u32) = base + total as + 8"
    by (intro unat_of_nat_small) (auto simp: heap_bounds_def)
  ultimately show ?thesis by (simp add: mask3_eq_0 del: of_nat_add)
qed

lemma malloc_succeeds:
  assumes i: "heap_inv h base segs" and a: "a_malloc (unat n) segs = Some (off, segs')"
  shows "\<exists>h'. pvPortMalloc hook n h = Returns (base + off + 8, h') \<and> heap_inv h' base segs'
           \<and> xMinimumEverFreeBytesRemaining h' =
               min (xMinimumEverFreeBytesRemaining h) (xFreeBytesRemaining h')"
proof -
  have n: "0 < unat n" "unat n < 2 ^ 31" and al: "a_alloc (block_size (unat n)) segs = Some (off, segs')"
    using a by (auto simp: a_malloc_def split: if_splits)
  obtain as k bs where s: "segs = as @ Free k # bs" "off = total as" "block_size (unat n) \<le> k"
    "\<forall>j. Free j \<in> set as \<longrightarrow> j < block_size (unat n)" "segs' = as @ cut (block_size (unat n)) k @ bs"
    using fit_first_Some [OF al] by blast
  obtain w where w: "adjust_size n = Returns w" "unat w = block_size (unat n)"
    using adjust_size_rounds [of n] n by (auto simp: word_less_nat_alt)
  note i' = i [unfolded s(1)]
  define prev where "prev = last (xStart h # map fst (fblocks base as))"
  have bz: "8 \<le> unat w" "4 dvd unat w" "0 < w"
    using block_size_bounds [OF n(1)] w(2) by (auto simp: word_less_nat_alt)
  obtain h' where h': "take_block w prev (base + off) h = Returns h'" "heap_inv h' base segs'"
    "xMinimumEverFreeBytesRemaining h' = min (xMinimumEverFreeBytesRemaining h) (of_nat (free_total segs'))"
    using take_block_allocates [OF i' bz(1,2)] s w(2) unfolding prev_def by auto
  have ff: "first_fit h w (xStart h) (pxNextFreeBlock h (xStart h)) = Some (prev, base + off)"
    using first_fit_finds [OF i'] s w(2) by (simp add: prev_def)
  have nx: "pxNextFreeBlock h prev = base + off"
    using unlink_block(1) [OF i'] s(2) by (simp add: prev_def)
  have le: "w \<le> xFreeBytesRemaining h"
    using heap_invD(1,4) [OF i] a_alloc_free_total [OF al] free_total_word [of h base segs] w(2)
    by (simp add: word_le_nat_alt counters_ok_def)
  have ne: "base + off \<noteq> pxEnd h"
    using heap_invD(5,8) [OF i'] s(2) by auto
  have "n AND 0x80000000 = 0" using n(2) by (simp add: top_bit_clear)
  then have "pvPortMalloc hook n h = Returns (base + off + 8, h')"
    using heap_inv_initialised [OF i] w(1) bz(3) ff nx le ne h'(1) user_pointer_aligned [OF i'] s(2)
    by (simp add: pvPortMalloc_def Let_def heap_constants portBYTE_ALIGNMENT_MASK_def)
  moreover have "xFreeBytesRemaining h' = of_nat (free_total segs')"
    using heap_invD(4) [OF h'(2)] by (simp add: counters_ok_def)
  ultimately show ?thesis using h' by auto
qed

lemma malloc_fails:
  assumes i: "heap_inv h base segs" and a: "a_malloc (unat n) segs = None"
  shows "pvPortMalloc hook n h = obind (hook h) (\<lambda>h'. Returns (0, h'))"
proof -
  note ini = heap_inv_initialised [OF i]
  show ?thesis
  proof (cases "0 < unat n \<and> unat n < 2 ^ 31")
    case False
    then have "n = 0 \<or> n AND 0x80000000 \<noteq> 0" by (auto simp: top_bit_clear unat_gt_0)
    then show ?thesis using ini
      by (auto simp: pvPortMalloc_def Let_def adjust_size_def configASSERT_def)
  next
    case True
    then have al: "a_alloc (block_size (unat n)) segs = None" using a by (simp add: a_malloc_def)
    obtain w where w: "adjust_size n = Returns w" "unat w = block_size (unat n)"
      using adjust_size_rounds [of n] True by (auto simp: word_less_nat_alt)
    obtain p where p: "first_fit h w (xStart h) (pxNextFreeBlock h (xStart h)) = Some (p, pxEnd h)"
      using first_fit_fails [OF i, of w] al w(2) by (auto simp: fit_first_None_iff)
    have "n AND 0x80000000 = 0" using True by (simp add: top_bit_clear)
    then show ?thesis using ini w(1) p
      by (simp add: pvPortMalloc_def Let_def configASSERT_def)
  qed
qed

section \<open>vPortFree\<close>

text \<open>The block put back is ready for the insertion.\<close>

lemma freed_insertable:
  fixes h as n bs base and m :: u32
  defines "b \<equiv> base + total as"
  assumes i: "heap_inv h base (as @ Used n # bs)"
  defines "h' \<equiv> (write_size b (of_nat n) h)\<lparr>xFreeBytesRemaining := m\<rparr>"
  shows "insertable h' base as n bs"
    and "used_ok h' (ublocks base as)" and "used_ok h' (ublocks (b + n) bs)"
    and "pxNextFreeBlock h' (pxEnd h') = 0" and "xBlockSize h' (pxEnd h') = 0"
    and "heap_bounds h' base (total as + n + total bs)"
proof -
  note d = heap_invD [OF i]
  have "b \<in> fst ` set (ublocks base (as @ Used n # bs))" by (simp add: ublocks_append b_def)
  note a = ublocks_addr [OF d(5) this]
  have "b \<noteq> xStart h" "b \<noteq> pxEnd h" using a(1,2) d(8,9) by (elim disjE; linarith)+
  note ne = this
  have nF: "b \<notin> fst ` set (fblocks base as)" "b \<notin> fst ` set (fblocks (b + n) bs)"
    using a(3) by (simp_all add: fblocks_append b_def image_Un)
  have nU: "b \<notin> fst ` set (ublocks base as)" "b \<notin> fst ` set (ublocks (b + n) bs)"
  proof -
    have "\<forall>p\<in>fst ` set (ublocks base as). p < b"
      using ublocks_addr(2) [of as] d(5) by (simp add: b_def)
    moreover have "\<forall>p\<in>fst ` set (ublocks (b + n) bs). b + n \<le> p"
      using ublocks_addr(1) [of bs] d(5) by simp
    moreover have "0 < n" using d(5) by simp
    ultimately show "b \<notin> fst ` set (ublocks base as)" "b \<notin> fst ` set (ublocks (b + n) bs)"
      by fastforce+
  qed
  have fr: "\<forall>p\<in>X. xBlockSize h' p = xBlockSize h p"
    "\<forall>p\<in>X. pxNextFreeBlock h' p = pxNextFreeBlock h p \<and> xBlockSize h' p = xBlockSize h p"
    if "b \<notin> X" for X using that by (auto simp: h'_def)
  have "npath h' (xStart h) (map fst (fblocks base as) @ map fst (fblocks (b + n) bs)) (pxEnd h)"
    using d(7) by (simp add: h'_def npath_def fblocks_append b_def)
  moreover have "sizes_ok h (fblocks base as)" "sizes_ok h (fblocks (b + n) bs)"
    using d(13) by (simp_all add: fblocks_append b_def)
  then have "sizes_ok h' (fblocks base as)" "sizes_ok h' (fblocks (b + n) bs)"
    using fr(1) [OF nF(1)] fr(1) [OF nF(2)] by (blast intro: sizes_ok_cong)+
  moreover have "coalesced as" "coalesced bs" using d(6) by (simp_all add: coalesced_append)
  moreover have "pxEnd h < 2 ^ 32" using d(1) by (simp add: heap_bounds_def)
  ultimately show "insertable h' base as n bs"
    unfolding insertable_def b_def [symmetric] using d(5,8,9,12) ne by (auto simp: h'_def b_def)
  have "used_ok h (ublocks base as)" "used_ok h (ublocks (b + n) bs)"
    using d(3) by (simp_all add: ublocks_append b_def)
  then show "used_ok h' (ublocks base as)" "used_ok h' (ublocks (b + n) bs)"
    using fr(2) [OF nU(1)] fr(2) [OF nU(2)] by (blast intro: used_ok_cong)+
  show "pxNextFreeBlock h' (pxEnd h') = 0" "xBlockSize h' (pxEnd h') = 0"
    using d(10,11) ne by (simp_all add: h'_def)
  show "heap_bounds h' base (total as + n + total bs)" using d(1) by (simp add: h'_def add.assoc)
qed

lemma used_header:
  assumes "heap_inv h base (as @ Used n # bs)"
  shows "xBlockSize h (base + total as) = of_nat n OR 0x80000000"
    and "pxNextFreeBlock h (base + total as) = 0" and "n < 2 ^ 31"
proof -
  show "xBlockSize h (base + total as) = of_nat n OR 0x80000000" "pxNextFreeBlock h (base + total as) = 0"
    using heap_invD(3) [OF assms] by (simp_all add: ublocks_append)
  show "n < 2 ^ 31" using heap_invD(1) [OF assms] unfolding heap_bounds_def by simp
qed

lemma free_succeeds:
  assumes i: "heap_inv h base segs" and a: "a_free off segs = Some segs'"
  shows "\<exists>h'. vPortFree (base + off + 8) h = Returns h' \<and> heap_inv h' base (coalesce segs')
           \<and> xMinimumEverFreeBytesRemaining h' = xMinimumEverFreeBytesRemaining h"
proof -
  obtain as n bs where s: "segs = as @ Used n # bs" "off = total as" "segs' = as @ Free n # bs"
    using a_free_Some [OF a] by blast
  define b where "b = base + total as"
  note i' = i [unfolded s(1)]
  note d = heap_invD [OF i'] and hdr = used_header [OF i', folded b_def]
  have bit: "xBlockAllocatedBit h = 0x80000000" using heap_inv_initialised [OF i] by simp
  let ?m = "xFreeBytesRemaining h + of_nat n"
  let ?h = "(write_size b (of_nat n) h)\<lparr>xFreeBytesRemaining := ?m\<rparr>"
  note f = freed_insertable [OF i', of ?m, folded b_def]
  have n: "8 \<le> n" "4 dvd n" using d(5) by simp_all
  obtain h2 where h2: "prvInsertBlockIntoFreeList b ?h = Some h2"
    "heap_bounds h2 base (total as + n + total bs)" "free_list_ok h2 base (coalesce (as @ Free n # bs))"
    "\<forall>p. p \<in> fst ` set (ublocks base (as @ Free n # bs)) \<longrightarrow>
         pxNextFreeBlock h2 p = pxNextFreeBlock ?h p \<and> xBlockSize h2 p = xBlockSize ?h p"
    "h2 = ?h\<lparr>pxNextFreeBlock := pxNextFreeBlock h2, xBlockSize := xBlockSize h2\<rparr>"
    using insert_block [OF f(1,6,4,5) n] unfolding b_def by blast
  have "vPortFree (base + off + 8) h = Returns h2"
    using h2(1) hdr bit allocated_bit [OF hdr(3)]
    by (simp add: vPortFree_def Let_def heap_constants s(2) flip: b_def)
  moreover have "used_ok h2 (ublocks base (as @ Free n # bs))"
    by (rule used_ok_cong [of ?h]) (use f(2,3) h2(4) in \<open>auto simp only: ublocks_append ublocks.simps used_ok_append b_def\<close>)
  moreover have "xFreeBytesRemaining h2 = ?m"
    and m: "xMinimumEverFreeBytesRemaining h2 = xMinimumEverFreeBytesRemaining h"
    by (subst h2(5), simp)+
  moreover have "xMinimumEverFreeBytesRemaining h \<le> ?m"
  proof -
    have "?m = of_nat (free_total (as @ Free n # bs))"
      using d(4) by (simp add: counters_ok_def ac_simps)
    then have "unat ?m = free_total (as @ Free n # bs)"
      using free_total_word [of h base "as @ Free n # bs"] d(1) by (simp only: map_append list.map sum_list.append sum_list.Cons seg_size.simps)
    moreover have "unat (xFreeBytesRemaining h) = free_total (as @ Used n # bs)"
      using free_total_word [OF d(1)] d(4) by (simp add: counters_ok_def)
    ultimately have "xFreeBytesRemaining h \<le> ?m" by (simp add: word_le_nat_alt)
    with d(4) show ?thesis unfolding counters_ok_def by (blast intro: order_trans)
  qed
  ultimately have "heap_inv h2 base (coalesce segs')"
    using h2(2,3) d(4) by (simp add: heap_inv_def s(3) counters_ok_def ac_simps)
  then show ?thesis using \<open>vPortFree (base + off + 8) h = Returns h2\<close> m by blast
qed

section \<open>prvHeapInit\<close>

text \<open>Where the linker may put the heap and \<open>xStart\<close>, and the heap \<open>prvHeapInit\<close> makes of it.\<close>

definition boot_ok :: "heap4 \<Rightarrow> bool" where
  "boot_ok h \<longleftrightarrow>
     0 < ucHeap h \<and> ucHeap h + 65544 < 2 ^ 32 \<and> (xStart h < ucHeap h \<or> ucHeap h + 65536 \<le> xStart h)"

definition heap_base :: "heap4 \<Rightarrow> nat" where
  "heap_base h = (ucHeap h + 3) div 4 * 4"

definition heap_room :: "heap4 \<Rightarrow> nat" where
  "heap_room h = (if ucHeap h mod 4 = 0 then 65528 else 65524)"

lemma prvHeapInit_result:
  assumes "boot_ok h"
  defines "b \<equiv> heap_base h" and "r \<equiv> heap_room h"
  shows "prvHeapInit h = h\<lparr>pxEnd := b + r,
           pxNextFreeBlock := (pxNextFreeBlock h)(xStart h := b, b + r := 0, b := b + r),
           xBlockSize := (xBlockSize h)(xStart h := 0, b + r := 0, b := of_nat r),
           xFreeBytesRemaining := of_nat r, xMinimumEverFreeBytesRemaining := of_nat r,
           xBlockAllocatedBit := 0x80000000\<rparr>"
proof -
  let ?a = "ucHeap h"
  have lim: "?a + 65544 < 2 ^ 32" using assms(1) by (simp add: boot_ok_def)
  have ua: "unat (of_nat ?a :: u32) = ?a" using lim by (intro unat_of_nat_small) simp
  have ua3: "unat ((of_nat ?a :: u32) + 3) = ?a + 3" using ua lim by (simp add: unat_plus_if')
  define addr where "addr = (if ?a mod 4 = 0 then of_nat ?a else ((of_nat ?a :: u32) + 3) AND NOT 3)"
  have addr: "unat addr = b" "addr = of_nat b"
  proof -
    show "unat addr = b"
    proof (cases "?a mod 4 = 0")
      case True
      then show ?thesis using ua unfolding addr_def b_def heap_base_def by simp presburger
    next
      case False
      then have "unat addr = ?a + 3 - (?a + 3) mod 4" by (simp only: addr_def if_False mask3_round ua3)
      also have "\<dots> = b" unfolding b_def heap_base_def by presburger
      finally show ?thesis .
    qed
    then show "addr = of_nat b" by (rule word_of_nat_of_unat)
  qed
  have top: "unat ((of_nat (?a + 65528) :: u32) AND NOT 3) = b + r"
  proof -
    have "unat (of_nat (?a + 65528) :: u32) = ?a + 65528" using lim by (intro unat_of_nat_small) simp
    moreover have "?a + 65528 - (?a + 65528) mod 4 = b + r"
    proof -
      have "(?a + 16382 * 4) div 4 = ?a div 4 + 16382" by (subst div_mult_self1) simp_all
      then have t: "?a + 65528 - (?a + 65528) mod 4 = ?a div 4 * 4 + 65528"
        by (simp add: minus_mod_eq_div_mult)
      have q: "?a div 4 * 4 + ?a mod 4 = ?a" "?a mod 4 < 4" by simp_all
      show ?thesis
      proof (cases "?a mod 4 = 0")
        case True
        then have "b = ?a" "r = 65528"
          unfolding b_def heap_base_def r_def heap_room_def using round4_id [OF True] by simp_all
        with t q(1) True show ?thesis by linarith
      next
        case False
        then have "b = ?a + (4 - ?a mod 4)" "r = 65524"
          unfolding b_def heap_base_def r_def heap_room_def round4 [OF False] by simp_all
        with t q show ?thesis by linarith
      qed
    qed
    ultimately show ?thesis by (simp only: mask3_round)
  qed
  then have topw: "(of_nat (?a + 65528) :: u32) AND NOT 3 = of_nat (b + r)" by (rule word_of_nat_of_unat)
  have al: "(of_nat ?a :: u32) AND 3 = 0 \<longleftrightarrow> ?a mod 4 = 0"
    unfolding mask3_eq_0 ua by (rule dvd_eq_mod_eq_0)
  have r: "0 < r" "of_nat (b + r) - of_nat b = (of_nat r :: u32)" "xStart h \<noteq> b" "xStart h \<noteq> b + r"
    using assms(1) unfolding r_def b_def heap_base_def heap_room_def boot_ok_def by auto
  have parts: "(if (of_nat ?a :: u32) AND 3 \<noteq> 0
       then ((of_nat ?a + (4 - 1)) AND NOT 3, 64 * 1024 - (((of_nat ?a + (4 - 1)) AND NOT 3) - of_nat ?a))
       else (of_nat ?a, 64 * 1024)) = (of_nat b :: u32, 64 * 1024 - (of_nat b - (of_nat ?a :: u32)))"
    using addr(2) by (auto simp: al addr_def Let_def)
  have ub: "unat (of_nat b :: u32) = b" using addr by simp
  have add2: "((of_nat b + (64 * 1024 - (of_nat b - (of_nat ?a :: u32)))) - 8) AND NOT 3 = of_nat (b + r)"
    using topw by (simp add: algebra_simps)
  have ubr: "unat (of_nat (b + r) :: u32) = b + r" using top topw by simp
  show ?thesis
    unfolding prvHeapInit_def portBYTE_ALIGNMENT_MASK_def portBYTE_ALIGNMENT_def configTOTAL_HEAP_SIZE_def
      heap_constants
    unfolding Let_def
    unfolding parts prod.case ub add2 ubr
    using r by (simp add: fun_upd_twist heap_constants)
qed

lemma heap_inv_init:
  assumes "boot_ok h"
  shows "heap_inv (prvHeapInit h) (heap_base h) [Free (heap_room h)]"
proof -
  have b: "heap_base h mod 4 = 0" "ucHeap h \<le> heap_base h" "0 < heap_base h"
    "heap_base h + heap_room h \<le> ucHeap h + 65528" "4 dvd heap_room h"
    "65524 \<le> heap_room h" "heap_room h \<le> 65528"
    using assms unfolding heap_base_def heap_room_def boot_ok_def by auto
  have x: "xStart h \<noteq> heap_base h" "xStart h \<noteq> heap_base h + heap_room h"
    "xStart h < heap_base h \<or> heap_base h + heap_room h < xStart h"
    using assms b unfolding boot_ok_def by auto
  show ?thesis
    using b x assms
    by (simp add: prvHeapInit_result heap_inv_def heap_bounds_def free_list_ok_def npath_def
        sizes_ok_def counters_ok_def starts_free_def boot_ok_def)
qed

section \<open>Running the allocator\<close>

lemma a_malloc_blocks:
  assumes "a_malloc n segs = Some (off, segs')"
  shows "\<exists>m. n + 8 \<le> m \<and> set (ublocks base segs') = insert (base + off, m) (set (ublocks base segs))
           \<and> base + off + m \<le> base + total segs
           \<and> (\<forall>(q, j)\<in>set (ublocks base segs). q + j \<le> base + off \<or> base + off + m \<le> q)"
proof -
  have n: "0 < n" and al: "a_alloc (block_size n) segs = Some (off, segs')"
    using assms by (auto simp: a_malloc_def split: if_splits)
  obtain m where "block_size n \<le> m" "set (ublocks base segs') = insert (base + off, m) (set (ublocks base segs))"
    "off + m \<le> total segs" "\<forall>(q, j)\<in>set (ublocks base segs). q + j \<le> base + off \<or> base + off + m \<le> q"
    using fit_first_blocks [OF al, of base] by blast
  then show ?thesis using block_size_bounds [OF n] by (intro exI [of _ m]) auto
qed

lemma a_free_blocks:
  assumes "(q, m) \<in> set (ublocks base segs)" and "segs_ok segs"
  obtains segs' where "a_free (q - base) segs = Some segs'"
    and "fst ` set (ublocks base (coalesce segs')) = fst ` set (ublocks base segs) - {q}" and "base \<le> q"
proof -
  obtain as bs where s: "segs = as @ Used m # bs" "q = base + total as"
    by (rule split_used_block [OF assms(1)])
  have ok: "segs_ok as" "segs_ok bs" "0 < m" using assms(2) s(1) by auto
  have U: "\<forall>p\<in>fst ` set (ublocks base as). p < q" "\<forall>p\<in>fst ` set (ublocks (q + m) bs). q + m \<le> p"
    using ublocks_addr(2) [OF ok(1)] ublocks_addr(1) [OF ok(2)] s(2) by simp_all
  have "fst ` set (ublocks base (coalesce (as @ Free m # bs))) = fst ` set (ublocks base segs) - {q}"
  proof -
    have below: "\<forall>p\<in>X. p < q \<Longrightarrow> q \<notin> X" and above: "\<forall>p\<in>X. q + m \<le> p \<Longrightarrow> q \<notin> X" for X
      using ok(3) by auto
    have "q \<notin> fst ` set (ublocks base as)" "q \<notin> fst ` set (ublocks (q + m) bs)"
      by (rule below [OF U(1)], rule above [OF U(2)])
    then show ?thesis using s by (simp add: ublocks_append image_Un)
  qed
  moreover have "a_free (q - base) segs = Some (as @ Free m # bs)"
    using a_free_at [OF segs_ok_pos [OF ok(1)]] s by simp
  ultimately show ?thesis using that s(2) by simp
qed

text \<open>
  The runs of the allocator: every \<open>malloc\<close> that returned adds its pointer to the live ones, a live
  pointer may be freed; the history keeps the free sizes after every call.
\<close>

inductive heap_run :: "heap4 \<Rightarrow> heap4 \<Rightarrow> nat set \<Rightarrow> u32 list \<Rightarrow> bool" for h0 where
  boot: "heap_run h0 (prvHeapInit h0) {} [xFreeBytesRemaining (prvHeapInit h0)]"
| malloc: "heap_run h0 h live fs \<Longrightarrow> pvPortMalloc vApplicationMallocFailedHook n h = Returns (p, h') \<Longrightarrow>
     heap_run h0 h' (insert p live) (xFreeBytesRemaining h' # fs)"
| free: "heap_run h0 h live fs \<Longrightarrow> p \<in> live \<Longrightarrow> vPortFree p h = Returns h' \<Longrightarrow>
     heap_run h0 h' (live - {p}) (xFreeBytesRemaining h' # fs)"

definition live_blocks :: "nat \<Rightarrow> seg list \<Rightarrow> nat set" where
  "live_blocks base segs = (\<lambda>q. q + 8) ` fst ` set (ublocks base segs)"

lemma malloc_returns:
  assumes i: "heap_inv h base segs" and r: "pvPortMalloc vApplicationMallocFailedHook n h = Returns (p, h')"
  obtains off segs' where "a_malloc (unat n) segs = Some (off, segs')" "p = base + off + 8"
    "heap_inv h' base segs'"
    "xMinimumEverFreeBytesRemaining h' = min (xMinimumEverFreeBytesRemaining h) (xFreeBytesRemaining h')"
proof (cases "a_malloc (unat n) segs")
  case None
  with malloc_fails [OF i] r show ?thesis by (simp add: vApplicationMallocFailedHook_def)
next
  case (Some a)
  obtain off segs' where a: "a = (off, segs')" by fastforce
  with malloc_succeeds [OF i, of n off segs' vApplicationMallocFailedHook] Some r that show ?thesis by auto
qed

lemma free_live:
  assumes i: "heap_inv h base segs" and p: "p \<in> live_blocks base segs"
  obtains h' segs' where "vPortFree p h = Returns h'" "heap_inv h' base segs'"
    "live_blocks base segs' = live_blocks base segs - {p}"
    "xMinimumEverFreeBytesRemaining h' = xMinimumEverFreeBytesRemaining h"
proof -
  obtain q m where q: "(q, m) \<in> set (ublocks base segs)" "p = q + 8"
    using p by (auto simp: live_blocks_def)
  obtain ss where s: "a_free (q - base) segs = Some ss"
    "fst ` set (ublocks base (coalesce ss)) = fst ` set (ublocks base segs) - {q}" "base \<le> q"
    by (rule a_free_blocks [OF q(1) heap_invD(5) [OF i]])
  obtain h' where "vPortFree p h = Returns h'" "heap_inv h' base (coalesce ss)"
    "xMinimumEverFreeBytesRemaining h' = xMinimumEverFreeBytesRemaining h"
    using free_succeeds [OF i s(1)] s(3) q(2) by auto
  moreover have "live_blocks base (coalesce ss) = live_blocks base segs - {p}"
    unfolding live_blocks_def s(2) q(2) by auto
  ultimately show ?thesis using that by blast
qed

lemma heap_run_inv:
  assumes "heap_run h0 h live fs" and "boot_ok h0"
  shows "\<exists>segs. heap_inv h (heap_base h0) segs \<and> live = live_blocks (heap_base h0) segs
           \<and> fs \<noteq> [] \<and> hd fs = xFreeBytesRemaining h \<and> xMinimumEverFreeBytesRemaining h = Min (set fs)"
  using assms
proof (induction rule: heap_run.induct)
  case boot
  then show ?case using heap_inv_init [OF boot] prvHeapInit_result [OF boot]
    by (intro exI [of _ "[Free (heap_room h0)]"]) (simp add: live_blocks_def)
next
  case (malloc h live fs n p h')
  then obtain segs where i: "heap_inv h (heap_base h0) segs" "live = live_blocks (heap_base h0) segs"
    "fs \<noteq> []" "xMinimumEverFreeBytesRemaining h = Min (set fs)" by blast
  obtain off segs' where r: "a_malloc (unat n) segs = Some (off, segs')" "p = heap_base h0 + off + 8"
    "heap_inv h' (heap_base h0) segs'"
    "xMinimumEverFreeBytesRemaining h' = min (xMinimumEverFreeBytesRemaining h) (xFreeBytesRemaining h')"
    by (rule malloc_returns [OF i(1) malloc(2)])
  obtain m where "set (ublocks (heap_base h0) segs') =
      insert (heap_base h0 + off, m) (set (ublocks (heap_base h0) segs))"
    using a_malloc_blocks [OF r(1)] by blast
  then have "live_blocks (heap_base h0) segs' = insert p live"
    using i(2) r(2) by (simp add: live_blocks_def)
  with r i show ?case by (intro exI [of _ segs']) (simp add: min.commute)
next
  case (free h live fs p h')
  then obtain segs where i: "heap_inv h (heap_base h0) segs" "live = live_blocks (heap_base h0) segs"
    "fs \<noteq> []" "hd fs = xFreeBytesRemaining h" "xMinimumEverFreeBytesRemaining h = Min (set fs)" by blast
  obtain h'' segs' where r: "vPortFree p h = Returns h''" "heap_inv h'' (heap_base h0) segs'"
    "live_blocks (heap_base h0) segs' = live_blocks (heap_base h0) segs - {p}"
    "xMinimumEverFreeBytesRemaining h'' = xMinimumEverFreeBytesRemaining h"
    using free_live [OF i(1)] free(2) i(2) by blast
  have "h'' = h'" using r(1) free(3) by simp
  moreover have "xMinimumEverFreeBytesRemaining h'' \<le> xFreeBytesRemaining h''"
    using heap_invD(4) [OF r(2)] unfolding counters_ok_def by blast
  ultimately show ?case using r i
    by (intro exI [of _ segs']) (simp add: min_absorb2)
qed

section \<open>The properties of the allocator\<close>

text \<open>A heap at address 4097 for the concrete applications of the properties.\<close>

definition demo_heap :: heap4 where
  "demo_heap = \<lparr>ucHeap = 4097, xStart = 16, pxEnd = 0, pxNextFreeBlock = (\<lambda>p. 0), xBlockSize = (\<lambda>p. 0),
     xFreeBytesRemaining = 0, xMinimumEverFreeBytesRemaining = 0, xBlockAllocatedBit = 0\<rparr>"

lemma demo_heap_inv:
  "boot_ok demo_heap" "heap_inv (prvHeapInit demo_heap) 4100 [Free 65524]" "heap_base demo_heap = 4100"
  using heap_inv_init [of demo_heap]
  by (simp_all add: demo_heap_def boot_ok_def heap_base_def heap_room_def)

lemma demo_alloc: "a_malloc 10 [Free 65524] = Some (0, [Used 20, Free 65504])"
  by (simp add: a_malloc_def block_size_def cut_def)

text \<open>
  C2. \<open>pvPortMalloc\<close> is first fit: for every request on a well formed heap it returns the address
  behind the header of the first free segment that holds the rounded size, splits the segment when
  more than \<open>heapMINIMUM_BLOCK_SIZE\<close> is left over, leaves every other segment as it was, and updates
  the low-water mark; with no such segment (or size 0, or a size with the allocated bit) it calls the
  failure hook and returns NULL, leaving the heap unchanged.
\<close>

theorem pvPortMalloc_first_fit:
  assumes "heap_inv h base segs"
  shows "case a_malloc (unat n) segs of
           None \<Rightarrow> pvPortMalloc hook n h = obind (hook h) (\<lambda>h'. Returns (0, h'))
         | Some (off, segs') \<Rightarrow>
             (\<exists>h'. pvPortMalloc hook n h = Returns (base + off + 8, h') \<and> heap_inv h' base segs'
                \<and> xMinimumEverFreeBytesRemaining h' =
                    min (xMinimumEverFreeBytesRemaining h) (xFreeBytesRemaining h'))"
  using malloc_fails [OF assms] malloc_succeeds [OF assms] by (auto split: option.splits)

theorem pvPortMalloc_first_fit_witness:
  "\<exists>h'. pvPortMalloc vApplicationMallocFailedHook 10 (prvHeapInit demo_heap) = Returns (4108, h')
     \<and> heap_inv h' 4100 [Used 20, Free 65504]"
  using pvPortMalloc_first_fit [OF demo_heap_inv(2), where n = 10 and hook = vApplicationMallocFailedHook] demo_alloc
  by auto

text \<open>
  C3. \<open>vPortFree\<close> of a used segment turns it into a free one and coalesces it with the free segments
  it touches on either side; nothing else of the heap changes and no assertion fails.
\<close>

theorem vPortFree_coalesces:
  assumes "heap_inv h base segs" and "a_free off segs = Some segs'"
  shows "\<exists>h'. vPortFree (base + off + 8) h = Returns h' \<and> heap_inv h' base (coalesce segs')
           \<and> xMinimumEverFreeBytesRemaining h' = xMinimumEverFreeBytesRemaining h"
  by (rule free_succeeds [OF assms])

theorem vPortFree_coalesces_witness:
  "\<exists>h h'. heap_inv h 4100 [Used 20, Free 65504] \<and> vPortFree 4108 h = Returns h'
     \<and> heap_inv h' 4100 [Free 65524]"
proof -
  obtain h where h: "heap_inv h 4100 [Used 20, Free 65504]"
    using malloc_succeeds [OF demo_heap_inv(2), of 10] demo_alloc by auto
  from vPortFree_coalesces [OF h, of 0 "[Free 20, Free 65504]"] h show ?thesis by auto
qed

text \<open>
  C4. Along every run from boot of allocations and of frees of live pointers: the heap stays well
  formed, the live pointers are exactly the used segments, freeing any of them returns (it never
  asserts or diverges), and \<open>xPortGetMinimumEverFreeHeapSize\<close> is the minimum of all the values
  \<open>xPortGetFreeHeapSize\<close> had.
\<close>

theorem heap_run_safe:
  assumes "heap_run h0 h live fs" and "boot_ok h0"
  shows "(\<exists>segs. heap_inv h (heap_base h0) segs \<and> live = live_blocks (heap_base h0) segs)
       \<and> (\<forall>p\<in>live. \<exists>h'. vPortFree p h = Returns h')
       \<and> xPortGetFreeHeapSize h = hd fs \<and> xPortGetMinimumEverFreeHeapSize h = Min (set fs)"
proof -
  obtain segs where s: "heap_inv h (heap_base h0) segs" "live = live_blocks (heap_base h0) segs"
    "hd fs = xFreeBytesRemaining h" "xMinimumEverFreeBytesRemaining h = Min (set fs)"
    using heap_run_inv [OF assms] by blast
  moreover have "\<exists>h'. vPortFree p h = Returns h'" if "p \<in> live" for p
    using free_live [OF s(1)] that s(2) by blast
  ultimately show ?thesis
    by (auto simp: xPortGetFreeHeapSize_def xPortGetMinimumEverFreeHeapSize_def)
qed

theorem heap_run_safe_witness:
  "\<exists>h. pvPortMalloc vApplicationMallocFailedHook 10 (prvHeapInit demo_heap) = Returns (4108, h)
     \<and> (\<exists>h'. vPortFree 4108 h = Returns h')"
proof -
  obtain h where h: "pvPortMalloc vApplicationMallocFailedHook 10 (prvHeapInit demo_heap) = Returns (4108, h)"
    using malloc_succeeds [OF demo_heap_inv(2), of 10] demo_alloc by auto
  from heap_run_safe [OF heap_run.malloc [OF heap_run.boot h] demo_heap_inv(1)] h show ?thesis by simp
qed

text \<open>
  What \<open>pvPortMalloc\<close> hands out is fresh: in any run the returned pointer is aligned, was not
  live, and the \<open>n\<close> bytes behind it lie inside the heap and meet no block (header or payload) of any
  live allocation.
\<close>

theorem pvPortMalloc_fresh:
  assumes "heap_inv h base segs"
    and "pvPortMalloc vApplicationMallocFailedHook n h = Returns (p, h')"
  shows "p mod 4 = 0 \<and> p \<notin> live_blocks base segs \<and> base + 8 \<le> p \<and> p + unat n \<le> pxEnd h
       \<and> (\<forall>(q, m)\<in>set (ublocks base segs). {q..<q + m} \<inter> {p - 8..<p + unat n} = {})"
proof -
  obtain off segs' where r: "a_malloc (unat n) segs = Some (off, segs')" "p = base + off + 8"
    "heap_inv h' base segs'"
    by (rule malloc_returns [OF assms])
  note d = heap_invD [OF assms(1)] and d' = heap_invD [OF r(3)]
  obtain m where m: "unat n + 8 \<le> m" "base + off + m \<le> base + total segs"
    "set (ublocks base segs') = insert (base + off, m) (set (ublocks base segs))"
    "\<forall>(q, j)\<in>set (ublocks base segs). q + j \<le> base + off \<or> base + off + m \<le> q"
    using a_malloc_blocks [OF r(1), of base] by blast
  have "(base + off, m) \<in> set (ublocks base segs')" by (simp add: m(3))
  then obtain as bs where "segs' = as @ Used m # bs" "base + off = base + total as"
    by (rule split_used_block)
  then have "4 dvd base" "4 dvd off"
    using d'(1,5) segs_ok_total [of as] by (simp_all add: heap_bounds_def mod_eq_0_iff_dvd)
  then have "p mod 4 = 0" using r(2) by (simp add: mod_eq_0_iff_dvd)
  moreover have disj: "{q..<q + j} \<inter> {p - 8..<p + unat n} = {}" if "(q, j) \<in> set (ublocks base segs)" for q j
    using m(1,4) that r(2) by fastforce
  moreover have "p \<notin> live_blocks base segs"
  proof
    assume "p \<in> live_blocks base segs"
    then obtain j where j: "(base + off, j) \<in> set (ublocks base segs)"
      using r(2) by (auto simp: live_blocks_def)
    then have "0 < j" using ublocks_bounds [OF j] segs_ok_pos [OF d(5)] by fastforce
    with disj [OF j] r(2) show False by auto
  qed
  ultimately show ?thesis using m(1,2) r(2) d(8) by auto
qed

theorem pvPortMalloc_fresh_witness:
  "\<exists>h h'. pvPortMalloc vApplicationMallocFailedHook 10 h = Returns (4128, h')
     \<and> 4128 \<notin> live_blocks 4100 [Used 20, Free 65504]
     \<and> (\<forall>(q, m)\<in>set (ublocks 4100 [Used 20, Free 65504]). {q..<q + m} \<inter> {4120..<4138} = {})"
proof -
  obtain h where h: "heap_inv h 4100 [Used 20, Free 65504]"
    using malloc_succeeds [OF demo_heap_inv(2), of 10] demo_alloc by auto
  have "a_malloc (unat (10 :: u32)) [Used 20, Free 65504] = Some (20, [Used 20, Used 20, Free 65484])"
    by (simp add: a_malloc_def block_size_def cut_def)
  then obtain h' where "pvPortMalloc vApplicationMallocFailedHook 10 h = Returns (4128, h')"
    using malloc_succeeds [OF h, of 10] by fastforce
  from pvPortMalloc_fresh [OF h this] this show ?thesis by auto
qed

text \<open>
  Allocating and then freeing restores the heap: the tiling and the free size are the ones before.
\<close>

theorem pvPortMalloc_vPortFree:
  assumes "heap_inv h base segs"
    and "pvPortMalloc vApplicationMallocFailedHook n h = Returns (p, h')"
  shows "\<exists>h''. vPortFree p h' = Returns h'' \<and> heap_inv h'' base segs
           \<and> xPortGetFreeHeapSize h'' = xPortGetFreeHeapSize h"
proof -
  obtain off segs' where r: "a_malloc (unat n) segs = Some (off, segs')" "p = base + off + 8"
    "heap_inv h' base segs'"
    by (rule malloc_returns [OF assms])
  have "a_alloc (block_size (unat n)) segs = Some (off, segs')"
    using r(1) by (auto simp: a_malloc_def split: if_splits)
  then obtain as k bs where s: "segs = as @ Free k # bs" "off = total as"
    "segs' = as @ cut (block_size (unat n)) k @ bs" using fit_first_Some by blast
  have pos: "\<forall>s\<in>set as. 0 < seg_size s" by (rule segs_ok_pos) (use heap_invD(5) [OF assms(1)] s(1) in simp)
  have co: "coalesced as" "coalesced (Free k # bs)" "\<not> ends_free as"
    using heap_invD(6) [OF assms(1)] s(1) by (auto simp: coalesced_append)
  obtain ss where "a_free off segs' = Some ss" "coalesce ss = segs"
  proof (cases "16 < k - block_size (unat n)")
    case True
    then show ?thesis
      using that [of "as @ [Free (block_size (unat n)), Free (k - block_size (unat n))] @ bs"]
        a_free_at [OF pos] s co coalesce_id [OF co(2)] by (simp add: cut_def coalesce_append)
  next
    case False
    then show ?thesis
      using that [of segs] a_free_at [OF pos] s coalesce_id [OF heap_invD(6) [OF assms(1)]]
      by (simp add: cut_def)
  qed
  then obtain h'' where h: "vPortFree p h' = Returns h''" "heap_inv h'' base segs"
    using free_succeeds [OF r(3)] r(2) by blast
  then have "xFreeBytesRemaining h'' = xFreeBytesRemaining h"
    using heap_invD(4) [OF assms(1)] heap_invD(4) [OF h(2)] by (simp add: counters_ok_def)
  with h show ?thesis by (auto simp: xPortGetFreeHeapSize_def)
qed

theorem pvPortMalloc_vPortFree_witness:
  "\<exists>h' h''. pvPortMalloc vApplicationMallocFailedHook 10 (prvHeapInit demo_heap) = Returns (4108, h')
     \<and> vPortFree 4108 h' = Returns h'' \<and> heap_inv h'' 4100 [Free 65524]"
proof -
  obtain h where h: "pvPortMalloc vApplicationMallocFailedHook 10 (prvHeapInit demo_heap) = Returns (4108, h)"
    using malloc_succeeds [OF demo_heap_inv(2), of 10] demo_alloc by auto
  from pvPortMalloc_vPortFree [OF demo_heap_inv(2) h] h show ?thesis by blast
qed

text \<open>
  Freeing a block that is already free is caught: \<open>vPortFree\<close> on the first byte behind the header
  of a free segment fails its assertion instead of corrupting the list.
\<close>

theorem vPortFree_double_free:
  assumes "heap_inv h base (as @ Free n # bs)"
  shows "vPortFree (base + total as + 8) h = Asserts"
proof -
  note d = heap_invD [OF assms]
  have "xBlockSize h (base + total as) = of_nat n" using d(13) by (simp add: fblocks_append)
  moreover have "n < 2 ^ 31" using d(1) unfolding heap_bounds_def by simp
  then have "(of_nat n :: u32) AND 0x80000000 = 0" by (simp add: top_bit_clear unat_of_nat_small)
  ultimately show ?thesis
    using heap_inv_initialised [OF assms] by (simp add: vPortFree_def Let_def heap_constants configASSERT_def)
qed

theorem vPortFree_double_free_witness: "vPortFree 4108 (prvHeapInit demo_heap) = Asserts"
  using vPortFree_double_free [of "prvHeapInit demo_heap" 4100 "[]" 65524 "[]"] demo_heap_inv(2) by simp

end
