(* ===== verification/Ring.thy ===== *)
theory Ring
  imports Prelude
begin

text \<open>
  Rings of bytes in a fixed array, shared by the stream buffers and the queues: what is read from
  a position on, the effect of \<open>memcpy\<close> into the array, and the two facts the users need: bytes
  written behind the contents extend them, bytes written before the contents precede them.
\<close>

section \<open>memcpy\<close>

text \<open>\<open>memcpy( &buf[ i ], src, n )\<close> with \<open>src\<close> the \<open>n\<close> bytes copied.\<close>

definition memcpy_to :: "'a list \<Rightarrow> nat \<Rightarrow> 'a list \<Rightarrow> 'a list" where
  "memcpy_to buf i src = take i buf @ src @ drop (i + length src) buf"

text \<open>The \<open>n\<close> bytes \<open>memcpy\<close> reads at \<open>&buf[ i ]\<close>.\<close>

definition memcpy_from :: "'a list \<Rightarrow> nat \<Rightarrow> nat \<Rightarrow> 'a list" where
  "memcpy_from buf i n = take n (drop i buf)"

lemma length_memcpy_to [simp]: "i + length src \<le> length buf \<Longrightarrow> length (memcpy_to buf i src) = length buf"
  by (simp add: memcpy_to_def)

lemma length_memcpy_from [simp]: "i + n \<le> length buf \<Longrightarrow> length (memcpy_from buf i n) = n"
  by (simp add: memcpy_from_def)

lemma nth_memcpy_to:
  assumes "i + length src \<le> length buf" and "j < length buf"
  shows "memcpy_to buf i src ! j = (if i \<le> j \<and> j < i + length src then src ! (j - i) else buf ! j)"
  using assms by (auto simp: memcpy_to_def nth_append min_def)

lemma nth_memcpy_from: "i + n \<le> length buf \<Longrightarrow> j < n \<Longrightarrow> memcpy_from buf i n ! j = buf ! (i + j)"
  by (simp add: memcpy_from_def)

section \<open>Reading around the ring\<close>

definition ring_get :: "'a list \<Rightarrow> nat \<Rightarrow> nat \<Rightarrow> 'a list" where
  "ring_get buf t n = map (\<lambda>i. buf ! ((t + i) mod length buf)) [0..<n]"

lemma length_ring_get [simp]: "length (ring_get buf t n) = n"
  by (simp add: ring_get_def)

lemma ring_get_0 [simp]: "ring_get buf t 0 = []"
  by (simp add: ring_get_def)

lemma nth_ring_get [simp]: "i < n \<Longrightarrow> ring_get buf t n ! i = buf ! ((t + i) mod length buf)"
  by (simp add: ring_get_def)

lemma ring_get_add: "ring_get buf t (m + n) = ring_get buf t m @ ring_get buf ((t + m) mod length buf) n"
proof (rule nth_equalityI)
  fix i assume "i < length (ring_get buf t (m + n))"
  then have i: "i < m + n" by simp
  show "ring_get buf t (m + n) ! i = (ring_get buf t m @ ring_get buf ((t + m) mod length buf) n) ! i"
  proof (cases "i < m")
    case False
    then obtain j where "i = m + j" using le_Suc_ex by (auto simp: not_less)
    with i show ?thesis by (simp add: nth_append mod_simps add.assoc)
  qed (use i in \<open>simp add: nth_append\<close>)
qed simp

lemma take_ring_get: "m \<le> n \<Longrightarrow> take m (ring_get buf t n) = ring_get buf t m"
  by (rule nth_equalityI) auto

lemma drop_ring_get: "m \<le> n \<Longrightarrow> drop m (ring_get buf t n) = ring_get buf ((t + m) mod length buf) (n - m)"
  by (rule nth_equalityI) (auto simp: mod_simps add.assoc)

lemma ring_get_straight: "t + n \<le> length buf \<Longrightarrow> ring_get buf t n = memcpy_from buf t n"
  by (rule nth_equalityI) (auto simp: nth_memcpy_from)

lemma ring_get_wrap:
  assumes "t < length buf" and "length buf \<le> t + n" and "n \<le> length buf"
  shows "ring_get buf t n =
           memcpy_from buf t (length buf - t) @ memcpy_from buf 0 (n - (length buf - t))"
proof (rule nth_equalityI)
  show "length (ring_get buf t n) =
      length (memcpy_from buf t (length buf - t) @ memcpy_from buf 0 (n - (length buf - t)))"
    using assms by simp
  fix i assume "i < length (ring_get buf t n)"
  then have i: "i < n" by simp
  show "ring_get buf t n ! i =
      (memcpy_from buf t (length buf - t) @ memcpy_from buf 0 (n - (length buf - t))) ! i"
  proof (cases "t + i < length buf")
    case True
    then have "i < length buf - t" by simp
    then show ?thesis using True assms by (simp add: nth_append nth_memcpy_from)
  next
    case False
    then have "(t + i) mod length buf = t + i - length buf"
      using i assms by (simp add: mod_if)
    moreover have "\<not> i < length buf - t" "t + i - length buf = i - (length buf - t)" using False assms by linarith+
    moreover have "i - (length buf - t) < n - (length buf - t)" "n - (length buf - t) \<le> length buf"
      using False i assms by linarith+
    ultimately show ?thesis using i assms by (simp add: nth_append nth_memcpy_from)
  qed
qed

section \<open>Writing around the ring\<close>

text \<open>The writes of the kernel: \<open>src\<close> at \<open>h\<close>, the part over the end at the start of the array.\<close>

definition ring_put :: "'a list \<Rightarrow> nat \<Rightarrow> 'a list \<Rightarrow> 'a list" where
  "ring_put buf h src =
     (let m = min (length buf - h) (length src);
          buf' = memcpy_to buf h (take m src)
      in if m < length src then memcpy_to buf' 0 (drop m src) else buf')"

lemma length_ring_put [simp]:
  "h < length buf \<Longrightarrow> length src \<le> length buf \<Longrightarrow> length (ring_put buf h src) = length buf"
  by (simp add: ring_put_def Let_def)

lemma nth_ring_put:
  assumes "h < length buf" and "length src \<le> length buf" and "i < length buf"
  shows "ring_put buf h src ! ((h + i) mod length buf) =
           (if i < length src then src ! i else buf ! ((h + i) mod length buf))"
proof -
  have e: "(h + i) mod length buf = (if h + i < length buf then h + i else h + i - length buf)"
    using assms by (simp add: mod_if)
  show ?thesis
  proof (cases "length src \<le> length buf - h")
    case True
    then have "ring_put buf h src = memcpy_to buf h src" by (simp add: ring_put_def)
    moreover have "h + length src \<le> length buf" using True assms by simp
    moreover have "\<not> i < length src \<and> h + i - length buf < h" if "\<not> h + i < length buf"
      using that True assms by linarith
    ultimately show ?thesis unfolding e using assms
      by (cases "h + i < length buf") (simp_all add: nth_memcpy_to)
  next
    case False
    define m where "m = length buf - h"
    have m: "m < length src" "h + m = length buf" using False assms by (simp_all add: m_def)
    have p: "ring_put buf h src = memcpy_to (memcpy_to buf h (take m src)) 0 (drop m src)"
      using m by (simp add: ring_put_def Let_def m_def)
    have l: "length (memcpy_to buf h (take m src)) = length buf" using m by simp
    show ?thesis
    proof (cases "h + i < length buf")
      case True
      then have "i < m" "\<not> h + i < length src - m" using m assms(2) by linarith+
      then show ?thesis using True m assms l unfolding e p by (simp add: nth_memcpy_to)
    next
      case False
      then have "m \<le> i" "h + i - length buf = i - m" "m + (i - m) = i" using m by simp_all
      moreover have "h + i - length buf < h" using assms(3) False by simp
      moreover have "i - m < length src - m \<longleftrightarrow> i < length src" using m \<open>m \<le> i\<close> by linarith
      ultimately show ?thesis using False m assms l unfolding e p by (simp add: nth_memcpy_to)
    qed
  qed
qed

lemma ring_put_other:
  assumes "h < length buf" and "length src + n \<le> length buf" and "t < length buf"
    and "t = (h + length src) mod length buf"
  shows "ring_get (ring_put buf h src) t n = ring_get buf t n"
proof (rule nth_equalityI)
  fix i assume "i < length (ring_get (ring_put buf h src) t n)"
  then have i: "length src + i < length buf" "i < n" using assms by simp_all
  have "(t + i) mod length buf = (h + (length src + i)) mod length buf"
    using assms(4) by (simp add: mod_simps add.assoc)
  then show "ring_get (ring_put buf h src) t n ! i = ring_get buf t n ! i"
    using nth_ring_put [OF assms(1) _ i(1)] assms i by simp
qed simp

lemma ring_get_put_self:
  assumes "h < length buf" and "length src \<le> length buf"
  shows "ring_get (ring_put buf h src) h (length src) = src"
  by (rule nth_equalityI) (use nth_ring_put [OF assms] assms in auto)

text \<open>Writing behind \<open>n\<close> bytes of contents appends; writing just before them prepends.\<close>

lemma ring_put_append:
  assumes "t < length buf" and "n + length src \<le> length buf"
  shows "ring_get (ring_put buf ((t + n) mod length buf) src) t (n + length src) = ring_get buf t n @ src"
proof -
  let ?h = "(t + n) mod length buf"
  let ?b = "ring_put buf ?h src"
  have h: "?h < length buf" using assms(1) by (intro mod_less_divisor) linarith
  have l: "length ?b = length buf" using h assms by simp
  have "ring_get ?b t n = ring_get buf t n"
  proof (rule nth_equalityI)
    fix i assume "i < length (ring_get ?b t n)"
    then have i: "i < n" by simp
    define j where "j = length buf - n + i"
    have "(?h + j) mod length buf = (t + n + j) mod length buf" by (simp add: mod_simps)
    also have "t + n + j = t + i + length buf" using i assms by (simp add: j_def)
    finally have "(t + i) mod length buf = (?h + j) mod length buf" by simp
    moreover have "j < length buf" "length src \<le> j" using i assms by (simp_all add: j_def)
    ultimately have "?b ! ((t + i) mod length buf) = buf ! ((t + i) mod length buf)"
      using nth_ring_put [OF h, of src j] assms by simp
    then show "ring_get ?b t n ! i = ring_get buf t n ! i" using i l by simp
  qed simp
  moreover have "ring_get ?b ((t + n) mod length ?b) (length src) = src"
    unfolding l by (rule ring_get_put_self [OF h]) (use assms in simp)
  ultimately show ?thesis by (simp add: ring_get_add)
qed

lemma ring_put_prepend:
  assumes "h < length buf" and "n + length src \<le> length buf" and "t = (h + length src) mod length buf"
  shows "ring_get (ring_put buf h src) h (length src + n) = src @ ring_get buf t n"
proof -
  have t: "t < length buf" unfolding assms(3) using assms(1) by (intro mod_less_divisor) linarith
  have l: "length (ring_put buf h src) = length buf" using assms by simp
  show ?thesis
    unfolding ring_get_add l assms(3) [symmetric]
    using ring_get_put_self [OF assms(1)] ring_put_other [OF assms(1) _ t assms(3), of n] assms(2) by simp
qed

end
