(* ===== verification/Stream_Buffer.thy ===== *)
theory Stream_Buffer
  imports Ring Heap4
begin

text \<open>
  The stream and message buffers of \<open>freeRtos/Source/stream_buffer.c\<close>. The structure is a record of
  32-bit words, its storage area a list of bytes; a \<open>configASSERT\<close> that fails is \<open>Asserts\<close>. Sends and
  receives return, with their result and the new state, the tasks they notify
  (\<open>xTaskNotify( t, 0, eNoAction )\<close>). A call that blocks gets the behaviour of the rest of the system
  as an argument: what happened to the buffer while it slept and whether
  \<open>xTaskCheckForTimeOut\<close> then reports a time-out; no wake-up at all is \<open>Diverges\<close>. Apart from that
  wait a call is one step of the model: the code copies outside a critical section, relying on its
  users to have one writer and one reader, and the interleaving of the two copies is not modelled. The pointer
  checks \<open>configASSERT( pxStreamBuffer )\<close> and \<open>configASSERT( pvTxData )\<close> hold by typing.
\<close>

section \<open>State\<close>

record sbuf =
  xTail :: u32
  xHead :: u32
  xLength :: u32
  xTriggerLevelBytes :: u32
  xTaskWaitingToReceive :: "nat option"
  xTaskWaitingToSend :: "nat option"
  pucBuffer :: "u8 list"
  ucFlags :: u8

definition sbBYTES_TO_STORE_MESSAGE_LENGTH :: u32 where "sbBYTES_TO_STORE_MESSAGE_LENGTH = 4"
definition sbFLAGS_IS_MESSAGE_BUFFER :: u8 where "sbFLAGS_IS_MESSAGE_BUFFER = 1"
definition sbFLAGS_IS_STATICALLY_ALLOCATED :: u8 where "sbFLAGS_IS_STATICALLY_ALLOCATED = 2"

definition is_message_buffer :: "sbuf \<Rightarrow> bool" where
  "is_message_buffer s \<longleftrightarrow> ucFlags s AND sbFLAGS_IS_MESSAGE_BUFFER \<noteq> 0"

section \<open>Creation, deletion, reset\<close>

text \<open>The structure is scrubbed and the buffer filled with \<open>0x55\<close> (\<open>configASSERT_DEFINED\<close> is 1).\<close>

definition prvInitialiseNewStreamBuffer :: "u32 \<Rightarrow> u32 \<Rightarrow> bool \<Rightarrow> sbuf" where
  "prvInitialiseNewStreamBuffer xBufferSizeBytes xTrigger xIsMessageBuffer =
     \<lparr>xTail = 0, xHead = 0, xLength = xBufferSizeBytes, xTriggerLevelBytes = xTrigger,
      xTaskWaitingToReceive = None, xTaskWaitingToSend = None,
      pucBuffer = replicate (unat xBufferSizeBytes) 0x55,
      ucFlags = (if xIsMessageBuffer then sbFLAGS_IS_MESSAGE_BUFFER else 0)\<rparr>"

text \<open>\<open>sizeof( StreamBuffer_t )\<close>: seven words and the flags byte, padded.\<close>

definition sizeof_StreamBuffer_t :: u32 where "sizeof_StreamBuffer_t = 32"

definition xStreamBufferGenericCreate ::
  "(heap4 \<Rightarrow> heap4 outcome) \<Rightarrow> u32 \<Rightarrow> u32 \<Rightarrow> bool \<Rightarrow> heap4 \<Rightarrow> (nat \<times> sbuf option \<times> heap4) outcome" where
  "xStreamBufferGenericCreate hook xBufferSizeBytes xTrigger xIsMessageBuffer h =
     configASSERT (xBufferSizeBytes > sbBYTES_TO_STORE_MESSAGE_LENGTH)
       (configASSERT (xTrigger \<le> xBufferSizeBytes)
         (let trigger = (if xTrigger = 0 then 1 else xTrigger);
              bytes = xBufferSizeBytes + 1
          in obind (pvPortMalloc hook (bytes + sizeof_StreamBuffer_t) h)
               (\<lambda>(p, h'). Returns
                  (if p \<noteq> 0
                   then (p, Some (prvInitialiseNewStreamBuffer bytes trigger xIsMessageBuffer), h')
                   else (p, None, h')))))"

definition xStreamBufferGenericCreateStatic :: "u32 \<Rightarrow> u32 \<Rightarrow> bool \<Rightarrow> sbuf outcome" where
  "xStreamBufferGenericCreateStatic xBufferSizeBytes xTrigger xIsMessageBuffer =
     configASSERT (xTrigger \<le> xBufferSizeBytes)
       (let trigger = (if xTrigger = 0 then 1 else xTrigger)
        in configASSERT (xBufferSizeBytes > sbBYTES_TO_STORE_MESSAGE_LENGTH)
             (let s = prvInitialiseNewStreamBuffer xBufferSizeBytes trigger xIsMessageBuffer
              in Returns (s\<lparr>ucFlags := ucFlags s OR sbFLAGS_IS_STATICALLY_ALLOCATED\<rparr>)))"

text \<open>Deleting frees the structure at \<open>p\<close>, or scrubs a static one: \<open>None\<close> is the freed buffer.\<close>

definition vStreamBufferDelete :: "nat \<Rightarrow> sbuf \<Rightarrow> heap4 \<Rightarrow> (sbuf option \<times> heap4) outcome" where
  "vStreamBufferDelete p s h =
     (if ucFlags s AND sbFLAGS_IS_STATICALLY_ALLOCATED = 0
      then obind (vPortFree p h) (\<lambda>h'. Returns (None, h'))
      else Returns (Some \<lparr>xTail = 0, xHead = 0, xLength = 0, xTriggerLevelBytes = 0,
                      xTaskWaitingToReceive = None, xTaskWaitingToSend = None,
                      pucBuffer = [], ucFlags = 0\<rparr>, h))"

definition xStreamBufferReset :: "sbuf \<Rightarrow> bool \<times> sbuf" where
  "xStreamBufferReset s =
     (if xTaskWaitingToReceive s = None
      then (if xTaskWaitingToSend s = None
            then (True, prvInitialiseNewStreamBuffer (xLength s) (xTriggerLevelBytes s) (is_message_buffer s))
            else (False, s))
      else (False, s))"

definition xStreamBufferSetTriggerLevel :: "u32 \<Rightarrow> sbuf \<Rightarrow> bool \<times> sbuf" where
  "xStreamBufferSetTriggerLevel xTriggerLevel s =
     (let t = (if xTriggerLevel = 0 then 1 else xTriggerLevel)
      in if t \<le> xLength s then (True, s\<lparr>xTriggerLevelBytes := t\<rparr>) else (False, s))"

section \<open>Levels\<close>

definition xStreamBufferSpacesAvailable :: "sbuf \<Rightarrow> u32" where
  "xStreamBufferSpacesAvailable s =
     (let sp = xLength s + xTail s - xHead s - 1
      in if sp \<ge> xLength s then sp - xLength s else sp)"

definition prvBytesInBuffer :: "sbuf \<Rightarrow> u32" where
  "prvBytesInBuffer s =
     (let c = xLength s + xHead s - xTail s
      in if c \<ge> xLength s then c - xLength s else c)"

definition xStreamBufferBytesAvailable :: "sbuf \<Rightarrow> u32" where
  "xStreamBufferBytesAvailable s = prvBytesInBuffer s"

definition xStreamBufferIsEmpty :: "sbuf \<Rightarrow> bool" where
  "xStreamBufferIsEmpty s \<longleftrightarrow> xHead s = xTail s"

definition header_bytes :: "sbuf \<Rightarrow> u32" where
  "header_bytes s = (if is_message_buffer s then sbBYTES_TO_STORE_MESSAGE_LENGTH else 0)"

definition xStreamBufferIsFull :: "sbuf \<Rightarrow> bool" where
  "xStreamBufferIsFull s \<longleftrightarrow> xStreamBufferSpacesAvailable s \<le> header_bytes s"

section \<open>Copying\<close>

definition prvWriteBytesToBuffer :: "u8 list \<Rightarrow> u32 \<Rightarrow> sbuf \<Rightarrow> (u32 \<times> sbuf) outcome" where
  "prvWriteBytesToBuffer pucData xCount s =
     configASSERT (xCount > 0)
       (let first = min (xLength s - xHead s) xCount
        in configASSERT (xHead s + first \<le> xLength s)
             (let s1 = s\<lparr>pucBuffer := memcpy_to (pucBuffer s) (unat (xHead s)) (take (unat first) pucData)\<rparr>
              in obind
                   (if xCount > first
                    then configASSERT (xCount - first \<le> xLength s)
                           (Returns (s1\<lparr>pucBuffer := memcpy_to (pucBuffer s1) 0
                              (take (unat (xCount - first)) (drop (unat first) pucData))\<rparr>))
                    else Returns s1)
                   (\<lambda>s2. let next = xHead s + xCount;
                             next' = (if next \<ge> xLength s then next - xLength s else next)
                         in Returns (xCount, s2\<lparr>xHead := next'\<rparr>))))"

definition prvReadBytesFromBuffer :: "u32 \<Rightarrow> u32 \<Rightarrow> sbuf \<Rightarrow> (u8 list \<times> sbuf) outcome" where
  "prvReadBytesFromBuffer xMaxCount xBytesAvailable s =
     (let xCount = min xBytesAvailable xMaxCount
      in if xCount > 0
         then (let first = min (xLength s - xTail s) xCount
               in configASSERT (first \<le> xMaxCount)
                    (configASSERT (xTail s + first \<le> xLength s)
                      (let d1 = memcpy_from (pucBuffer s) (unat (xTail s)) (unat first)
                       in obind
                            (if xCount > first
                             then configASSERT (xCount \<le> xMaxCount)
                                    (Returns (d1 @ memcpy_from (pucBuffer s) 0 (unat (xCount - first))))
                             else Returns d1)
                            (\<lambda>d. let next = xTail s + xCount;
                                     next' = (if next \<ge> xLength s then next - xLength s else next)
                                 in Returns (d, s\<lparr>xTail := next'\<rparr>)))))
         else Returns ([], s))"

definition prvWriteMessageToBuffer :: "u8 list \<Rightarrow> u32 \<Rightarrow> u32 \<Rightarrow> u32 \<Rightarrow> sbuf \<Rightarrow> (u32 \<times> sbuf) outcome" where
  "prvWriteMessageToBuffer pvTxData xDataLengthBytes xSpace xRequiredSpace s =
     (if xSpace = 0 then Returns (0, s)
      else if \<not> is_message_buffer s
      then prvWriteBytesToBuffer pvTxData (min xDataLengthBytes xSpace) s
      else if xSpace \<ge> xRequiredSpace
      then obind (prvWriteBytesToBuffer (word_bytes xDataLengthBytes) sbBYTES_TO_STORE_MESSAGE_LENGTH s)
             (\<lambda>(n, s1). prvWriteBytesToBuffer pvTxData xDataLengthBytes s1)
      else Returns (0, s))"

definition prvReadMessageFromBuffer :: "u32 \<Rightarrow> u32 \<Rightarrow> u32 \<Rightarrow> sbuf \<Rightarrow> (u8 list \<times> sbuf) outcome" where
  "prvReadMessageFromBuffer xBufferLengthBytes xBytesAvailable xHeader s =
     (if xHeader \<noteq> 0
      then obind (prvReadBytesFromBuffer xHeader xBytesAvailable s)
             (\<lambda>(hdr, s1). let len = bytes_word hdr
                in if len > xBufferLengthBytes
                   then prvReadBytesFromBuffer 0 (xBytesAvailable - xHeader) (s1\<lparr>xTail := xTail s\<rparr>)
                   else prvReadBytesFromBuffer len (xBytesAvailable - xHeader) s1)
      else prvReadBytesFromBuffer xBufferLengthBytes xBytesAvailable s)"

section \<open>Sending\<close>

text \<open>\<open>sbSEND_COMPLETED\<close> and \<open>sbRECEIVE_COMPLETED\<close>: notify the waiting task and forget it.\<close>

definition sbSEND_COMPLETED :: "sbuf \<Rightarrow> sbuf \<times> nat list" where
  "sbSEND_COMPLETED s =
     (case xTaskWaitingToReceive s of
        Some t \<Rightarrow> (s\<lparr>xTaskWaitingToReceive := None\<rparr>, [t]) | None \<Rightarrow> (s, []))"

definition sbRECEIVE_COMPLETED :: "sbuf \<Rightarrow> sbuf \<times> nat list" where
  "sbRECEIVE_COMPLETED s =
     (case xTaskWaitingToSend s of
        Some t \<Rightarrow> (s\<lparr>xTaskWaitingToSend := None\<rparr>, [t]) | None \<Rightarrow> (s, []))"

definition xRequiredSpace :: "u32 \<Rightarrow> sbuf \<Rightarrow> u32" where
  "xRequiredSpace n s = n + header_bytes s"

text \<open>The part of both sends behind the wait.\<close>

definition send_now :: "u8 list \<Rightarrow> u32 \<Rightarrow> u32 \<Rightarrow> u32 \<Rightarrow> sbuf \<Rightarrow> (u32 \<times> sbuf \<times> nat list) outcome" where
  "send_now pvTxData xDataLengthBytes xSpace xRequired s =
     obind (prvWriteMessageToBuffer pvTxData xDataLengthBytes xSpace xRequired s)
       (\<lambda>(n, s1).
          Returns (if n > 0 \<and> prvBytesInBuffer s1 \<ge> xTriggerLevelBytes s1
                   then (n, sbSEND_COMPLETED s1) else (n, s1, [])))"

text \<open>
  The wait of \<open>xStreamBufferSend\<close>: one element of \<open>wakes\<close> per \<open>xTaskNotifyWait\<close>, holding what the
  other tasks did to the buffer meanwhile and the answer of \<open>xTaskCheckForTimeOut\<close>.
\<close>

fun send_wait :: "nat \<Rightarrow> u32 \<Rightarrow> ((sbuf \<Rightarrow> sbuf) \<times> bool) list \<Rightarrow> sbuf \<Rightarrow> (u32 \<times> sbuf) outcome" where
  "send_wait me req [] s =
     (if xStreamBufferSpacesAvailable s < req
      then configASSERT (xTaskWaitingToSend s = None) Diverges
      else Returns (xStreamBufferSpacesAvailable s, s))"
| "send_wait me req ((others, timeout) # wakes) s =
     (if xStreamBufferSpacesAvailable s < req
      then configASSERT (xTaskWaitingToSend s = None)
             (let s1 = (others (s\<lparr>xTaskWaitingToSend := Some me\<rparr>))\<lparr>xTaskWaitingToSend := None\<rparr>
              in if timeout then Returns (xStreamBufferSpacesAvailable s, s1)
                 else send_wait me req wakes s1)
      else Returns (xStreamBufferSpacesAvailable s, s))"

definition xStreamBufferSend ::
  "nat \<Rightarrow> ((sbuf \<Rightarrow> sbuf) \<times> bool) list \<Rightarrow> u8 list \<Rightarrow> u32 \<Rightarrow> tick \<Rightarrow> sbuf \<Rightarrow> (u32 \<times> sbuf \<times> nat list) outcome" where
  "xStreamBufferSend me wakes pvTxData xDataLengthBytes xTicksToWait s =
     (let req = xRequiredSpace xDataLengthBytes s
      in obind (if xTicksToWait \<noteq> 0 then send_wait me req wakes s else Returns (0, s))
           (\<lambda>(sp, s1).
              let sp1 = (if sp = 0 then xStreamBufferSpacesAvailable s1 else sp)
              in send_now pvTxData xDataLengthBytes sp1 req s1))"

definition xStreamBufferSendFromISR :: "u8 list \<Rightarrow> u32 \<Rightarrow> sbuf \<Rightarrow> (u32 \<times> sbuf \<times> nat list) outcome" where
  "xStreamBufferSendFromISR pvTxData xDataLengthBytes s =
     send_now pvTxData xDataLengthBytes (xStreamBufferSpacesAvailable s)
       (xRequiredSpace xDataLengthBytes s) s"

section \<open>Receiving\<close>

definition receive_now :: "u32 \<Rightarrow> u32 \<Rightarrow> u32 \<Rightarrow> sbuf \<Rightarrow> (u8 list \<times> sbuf \<times> nat list) outcome" where
  "receive_now xHeader xBufferLengthBytes xBytesAvailable s =
     (if xBytesAvailable > xHeader
      then obind (prvReadMessageFromBuffer xBufferLengthBytes xBytesAvailable xHeader s)
             (\<lambda>(d, s1). Returns (if d \<noteq> [] then (d, sbRECEIVE_COMPLETED s1) else (d, s1, [])))
      else Returns ([], s, []))"

text \<open>A receive blocks at most once; \<open>None\<close> is never being woken.\<close>

definition xStreamBufferReceive ::
  "nat \<Rightarrow> (sbuf \<Rightarrow> sbuf) option \<Rightarrow> u32 \<Rightarrow> tick \<Rightarrow> sbuf \<Rightarrow> (u8 list \<times> sbuf \<times> nat list) outcome" where
  "xStreamBufferReceive me wake xBufferLengthBytes xTicksToWait s =
     (let hdr = header_bytes s
      in if xTicksToWait \<noteq> 0 \<and> prvBytesInBuffer s \<le> hdr
         then configASSERT (xTaskWaitingToReceive s = None)
                (case wake of
                   None \<Rightarrow> Diverges
                 | Some others \<Rightarrow>
                     (let s1 = (others (s\<lparr>xTaskWaitingToReceive := Some me\<rparr>))\<lparr>xTaskWaitingToReceive := None\<rparr>
                      in receive_now hdr xBufferLengthBytes (prvBytesInBuffer s1) s1))
         else receive_now hdr xBufferLengthBytes (prvBytesInBuffer s) s)"

definition xStreamBufferReceiveFromISR :: "u32 \<Rightarrow> sbuf \<Rightarrow> (u8 list \<times> sbuf \<times> nat list) outcome" where
  "xStreamBufferReceiveFromISR xBufferLengthBytes s =
     receive_now (header_bytes s) xBufferLengthBytes (prvBytesInBuffer s) s"

definition xStreamBufferSendCompletedFromISR :: "sbuf \<Rightarrow> bool \<times> sbuf \<times> nat list" where
  "xStreamBufferSendCompletedFromISR s =
     (case xTaskWaitingToReceive s of
        Some t \<Rightarrow> (True, s\<lparr>xTaskWaitingToReceive := None\<rparr>, [t]) | None \<Rightarrow> (False, s, []))"

definition xStreamBufferReceiveCompletedFromISR :: "sbuf \<Rightarrow> bool \<times> sbuf \<times> nat list" where
  "xStreamBufferReceiveCompletedFromISR s =
     (case xTaskWaitingToSend s of
        Some t \<Rightarrow> (True, s\<lparr>xTaskWaitingToSend := None\<rparr>, [t]) | None \<Rightarrow> (False, s, []))"

end
