(* ===== verification/Fifo.thy ===== *)
theory Fifo
  imports Main
begin

text \<open>
  What the buffers of the kernel promise their users. A run interleaves steps that put items in and
  steps that take items out; the interface \<open>fifo\<close> asks that the state always holds a list of items,
  that putting appends to it and taking removes a prefix. Then nothing is lost, repeated or reordered
  in any run. Stream buffers and queues are its two providers.
\<close>

inductive fifo_run ::
  "('s \<Rightarrow> 'y list \<Rightarrow> 's \<Rightarrow> bool) \<Rightarrow> ('s \<Rightarrow> 'y list \<Rightarrow> 's \<Rightarrow> bool) \<Rightarrow> 's \<Rightarrow> 's \<Rightarrow> 'y list \<Rightarrow> 'y list \<Rightarrow> bool"
  for putting taking s0 where
  start: "fifo_run putting taking s0 s0 [] []"
| put: "fifo_run putting taking s0 s sent got \<Longrightarrow> putting s a s' \<Longrightarrow> fifo_run putting taking s0 s' (sent @ a) got"
| take: "fifo_run putting taking s0 s sent got \<Longrightarrow> taking s a s' \<Longrightarrow> fifo_run putting taking s0 s' sent (got @ a)"

lemma fifo_run_trans:
  assumes "fifo_run p t s1 s2 sent' got'" and "fifo_run p t s0 s1 sent got"
  shows "fifo_run p t s0 s2 (sent @ sent') (got @ got')"
  using assms by (induction rule: fifo_run.induct) (auto simp flip: append_assoc intro: fifo_run.intros)

lemma fifo_run_put: "p s a s' \<Longrightarrow> fifo_run p t s s' a []"
  using fifo_run.put [OF fifo_run.start] by fastforce

lemma fifo_run_take: "t s a s' \<Longrightarrow> fifo_run p t s s' [] a"
  using fifo_run.take [OF fifo_run.start] by fastforce

locale fifo =
  fixes holds :: "'s \<Rightarrow> 'y list \<Rightarrow> bool"
    and putting :: "'s \<Rightarrow> 'y list \<Rightarrow> 's \<Rightarrow> bool"
    and taking :: "'s \<Rightarrow> 'y list \<Rightarrow> 's \<Rightarrow> bool"
  assumes put_appends: "putting s a s' \<Longrightarrow> holds s ys \<Longrightarrow> holds s' (ys @ a)"
    and take_prefix: "taking s a s' \<Longrightarrow> holds s ys \<Longrightarrow> \<exists>rest. ys = a @ rest \<and> holds s' rest"
begin

lemma run_fifo:
  assumes "fifo_run putting taking s0 s sent got" and "holds s0 ys0"
  shows "\<exists>ys. ys0 @ sent = got @ ys \<and> holds s ys"
  using assms
proof (induction rule: fifo_run.induct)
  case (put s sent got a s')
  then obtain ys where ys: "ys0 @ sent = got @ ys" "holds s ys" by blast
  then have "holds s' (ys @ a)" using put_appends put.hyps(2) by blast
  then show ?case using ys(1) by (intro exI [of _ "ys @ a"]) (simp flip: append_assoc)
next
  case (take s sent got a s')
  then obtain ys where ys: "ys0 @ sent = got @ ys" "holds s ys" by blast
  then obtain rest where "ys = a @ rest" "holds s' rest" using take_prefix take.hyps(2) by blast
  then show ?case using ys(1) by (intro exI [of _ rest]) simp
qed simp

lemma run_empty: "fifo_run putting taking s0 s sent got \<Longrightarrow> holds s0 [] \<Longrightarrow> \<exists>ys. sent = got @ ys \<and> holds s ys"
  using run_fifo [of s0 s sent got "[]"] by simp

end

end
