(* ===== verification/Stream_Buffer_Spec.thy ===== *)
theory Stream_Buffer_Spec
  imports Fifo Stream_Buffer Heap4_Spec
begin

text \<open>
  The correctness of the stream and message buffers: the contents of the ring as a list of bytes,
  the refinement of the two copy routines to append and drop on that list, and from these the
  behaviour of the sends and receives, the message framing, and the order of the bytes.
\<close>

section \<open>Levels\<close>

definition sb_ok :: "sbuf \<Rightarrow> bool" where
  "sb_ok s \<longleftrightarrow> unat (xLength s) \<le> 2 ^ 31 \<and> xHead s < xLength s \<and> xTail s < xLength s
     \<and> length (pucBuffer s) = unat (xLength s)"

definition sb_data :: "sbuf \<Rightarrow> u8 list" where
  "sb_data s = ring_get (pucBuffer s) (unat (xTail s)) (unat (prvBytesInBuffer s))"

abbreviation L :: "sbuf \<Rightarrow> nat" where "L s \<equiv> unat (xLength s)"

lemma unat_min: "unat (min a b) = min (unat a) (unat (b :: 'a :: len word))"
  by (simp add: min_def word_le_nat_alt)

lemma unat_wrap: "unat (if c \<ge> len then c - len else c) =
    (if unat len \<le> unat (c :: u32) then unat c - unat len else unat c)"
  by (simp add: unat_sub word_le_nat_alt)

lemma sb_okD:
  assumes "sb_ok s"
  shows "L s \<le> 2 ^ 31" and "unat (xHead s) < L s" and "unat (xTail s) < L s"
    and "length (pucBuffer s) = L s" and "0 < L s"
  using assms by (auto simp: sb_ok_def word_less_nat_alt)

lemma unat_bytes:
  assumes "sb_ok s"
  shows "unat (prvBytesInBuffer s) =
           (if xTail s \<le> xHead s then unat (xHead s) - unat (xTail s)
            else L s + unat (xHead s) - unat (xTail s))"
proof -
  note d = sb_okD [OF assms]
  have s: "unat (xLength s + xHead s) = L s + unat (xHead s)"
    using d by (subst unat_plus_if') simp
  have t: "unat (xLength s + xHead s - xTail s) = L s + unat (xHead s) - unat (xTail s)"
    using d by (subst unat_sub) (simp_all add: word_le_nat_alt s)
  show ?thesis
    unfolding prvBytesInBuffer_def Let_def unat_wrap t
    using d by (auto simp: word_le_nat_alt)
qed

lemma bytes_bound: "sb_ok s \<Longrightarrow> unat (prvBytesInBuffer s) < L s"
  using unat_bytes [of s] sb_okD [of s] by (auto simp: word_le_nat_alt split: if_splits)

lemma head_is: "sb_ok s \<Longrightarrow> unat (xHead s) = (unat (xTail s) + unat (prvBytesInBuffer s)) mod L s"
  using unat_bytes [of s] sb_okD [of s] by (auto simp: word_le_nat_alt split: if_splits)

lemma unat_spaces:
  assumes "sb_ok s"
  shows "unat (xStreamBufferSpacesAvailable s) = L s - 1 - unat (prvBytesInBuffer s)"
proof -
  note d = sb_okD [OF assms]
  have s: "unat (xLength s + xTail s) = L s + unat (xTail s)"
    using d by (subst unat_plus_if') simp
  have t: "unat (xLength s + xTail s - xHead s) = L s + unat (xTail s) - unat (xHead s)"
    using d by (subst unat_sub) (simp_all add: word_le_nat_alt s)
  have u: "unat (xLength s + xTail s - xHead s - 1) = L s + unat (xTail s) - unat (xHead s) - 1"
    using d t by (subst unat_sub) (simp_all add: word_le_nat_alt)
  show ?thesis
    unfolding xStreamBufferSpacesAvailable_def Let_def unat_wrap u unat_bytes [OF assms]
    using d by (auto simp: word_le_nat_alt)
qed

lemma length_sb_data [simp]: "length (sb_data s) = unat (prvBytesInBuffer s)"
  by (simp add: sb_data_def)

text \<open>The byte count is determined by head and tail: what a position update makes of it.\<close>

lemma bytes_of_positions:
  assumes "sb_ok s" and "unat (xHead s) = (unat (xTail s) + n) mod L s" and "n < L s"
  shows "unat (prvBytesInBuffer s) = n"
proof -
  note d = sb_okD [OF assms(1)]
  have "(unat (xTail s) + n) mod L s = (if unat (xTail s) + n < L s then unat (xTail s) + n
      else unat (xTail s) + n - L s)"
    using d assms(3) by (simp add: mod_if)
  then show ?thesis
    using unat_bytes [OF assms(1)] assms(2,3) d by (auto simp: word_le_nat_alt split: if_splits)
qed

text \<open>Advancing a position of the ring, as both copy routines do.\<close>

lemma advance:
  assumes "a < len" and "unat n < unat len" and "unat len \<le> 2 ^ 31"
  shows "unat (if a + n \<ge> len then a + n - len else a + n) = (unat a + unat n) mod unat (len :: u32)"
    and "(if a + n \<ge> len then a + n - len else a + n) < len"
proof -
  have s: "unat (a + n) = unat a + unat n"
    using assms by (subst unat_plus_if') (simp add: word_less_nat_alt)
  show e: "unat (if a + n \<ge> len then a + n - len else a + n) = (unat a + unat n) mod unat len"
    unfolding unat_wrap s using assms by (simp add: word_less_nat_alt mod_if)
  show "(if a + n \<ge> len then a + n - len else a + n) < len"
    unfolding word_less_nat_alt e using assms(1) by (intro mod_less_divisor) (simp add: word_less_nat_alt)
qed

section \<open>The copy routines\<close>

lemma unat_first:
  assumes "a < len"
  shows "unat (min (len - a) n) = min (unat len - unat a) (unat (n :: u32))"
  using assms by (simp add: unat_min unat_sub word_less_nat_alt word_le_nat_alt)

lemma first_fits:
  assumes "a < (len :: u32)" and "unat len \<le> 2 ^ 31"
  shows "a + min (len - a) n \<le> len"
proof -
  have "unat (a + min (len - a) n) = unat a + min (unat len - unat a) (unat n)"
    using assms unat_first [OF assms(1), of n] by (subst unat_plus_if') (auto simp: word_less_nat_alt)
  with assms(1) show ?thesis by (simp add: word_le_nat_alt word_less_nat_alt)
qed

lemma write_bytes:
  assumes ok: "sb_ok s" and n: "0 < n" "unat n \<le> unat (xStreamBufferSpacesAvailable s)"
    and data: "unat n \<le> length data"
  shows "\<exists>s'. prvWriteBytesToBuffer data n s = Returns (n, s') \<and> sb_ok s'
           \<and> sb_data s' = sb_data s @ take (unat n) data
           \<and> s' = s\<lparr>pucBuffer := pucBuffer s', xHead := xHead s'\<rparr>"
proof -
  note d = sb_okD [OF ok]
  have room: "unat n + unat (prvBytesInBuffer s) < L s"
    using n(2) bytes_bound [OF ok] d(5) by (simp add: unat_spaces [OF ok])
  have h: "xHead s < xLength s" using ok by (simp add: sb_ok_def)
  define first where "first = min (xLength s - xHead s) n"
  have first: "unat first = min (L s - unat (xHead s)) (unat n)"
    unfolding first_def by (rule unat_first [OF h])
  have fit: "xHead s + first \<le> xLength s" unfolding first_def by (rule first_fits [OF h d(1)])
  have more: "n > first \<longleftrightarrow> unat first < unat n" by (simp add: word_less_nat_alt)
  have rest: "unat (n - first) = unat n - unat first"
    by (rule unat_sub) (simp add: first word_le_nat_alt)
  have restle: "n - first \<le> xLength s" using room by (simp add: word_le_nat_alt rest)
  define next' where "next' = (if xHead s + n \<ge> xLength s then xHead s + n - xLength s else xHead s + n)"
  have next': "unat next' = (unat (xHead s) + unat n) mod L s" "next' < xLength s"
    unfolding next'_def using advance [OF h _ d(1), of n] room by simp_all
  define buf where "buf = ring_put (pucBuffer s) (unat (xHead s)) (take (unat n) data)"
  let ?s = "s\<lparr>pucBuffer := buf, xHead := next'\<rparr>"
  have lt: "length (take (unat n) data) = unat n" using data by simp
  have puts: "buf = (if unat first < unat n
      then memcpy_to (memcpy_to (pucBuffer s) (unat (xHead s)) (take (unat first) data)) 0
             (take (unat n - unat first) (drop (unat first) data))
      else memcpy_to (pucBuffer s) (unat (xHead s)) (take (unat first) data))"
    unfolding buf_def ring_put_def Let_def lt d(4) first [symmetric]
    using first by (simp add: drop_take min.absorb1)
  have "prvWriteBytesToBuffer data n s = Returns (n, ?s)"
    unfolding prvWriteBytesToBuffer_def Let_def first_def [symmetric] next'_def [symmetric]
    using n(1) fit restle more by (simp add: puts rest)
  moreover have lb: "length buf = L s"
    unfolding buf_def using d room lt by (subst length_ring_put) simp_all
  then have ok': "sb_ok ?s" using ok next'(2) by (simp add: sb_ok_def)
  moreover have nb: "unat (prvBytesInBuffer ?s) = unat (prvBytesInBuffer s) + unat n"
  proof (rule bytes_of_positions [OF ok'])
    show "unat (xHead ?s) = (unat (xTail ?s) + (unat (prvBytesInBuffer s) + unat n)) mod L ?s"
      using next'(1) head_is [OF ok] by (simp add: mod_simps add.assoc)
  qed (use room in simp)
  moreover have "sb_data ?s = sb_data s @ take (unat n) data"
    unfolding sb_data_def nb
    using ring_put_append [of "unat (xTail s)" "pucBuffer s" "unat (prvBytesInBuffer s)" "take (unat n) data"]
      d room lt head_is [OF ok] by (simp add: buf_def)
  ultimately show ?thesis by (intro exI [of _ ?s]) simp
qed

lemma read_bytes:
  fixes mx :: u32
  assumes ok: "sb_ok s" and avail: "unat avail \<le> unat (prvBytesInBuffer s)"
  defines "c \<equiv> min (unat avail) (unat mx)"
  shows "\<exists>s'. prvReadBytesFromBuffer mx avail s = Returns (take c (sb_data s), s') \<and> sb_ok s'
           \<and> sb_data s' = drop c (sb_data s) \<and> s' = s\<lparr>xTail := xTail s'\<rparr>"
proof (cases "min avail mx > 0")
  case False
  then have z: "min avail mx = 0" by (simp only: word_neq_0_conv [symmetric] not_not)
  moreover from z have "unat (min avail mx) = 0" by (simp only: unat_0)
  then have "c = 0" by (simp only: c_def unat_min)
  ultimately show ?thesis using ok
    by (intro exI [of _ s]) (simp add: prvReadBytesFromBuffer_def Let_def del: min_less_iff_conj)
next
  case True
  note d = sb_okD [OF ok]
  have cb: "c \<le> unat (prvBytesInBuffer s)" "c < L s"
    using avail bytes_bound [OF ok] by (auto simp: c_def)
  define n where "n = min avail mx"
  have n: "unat n = c" by (simp add: n_def c_def unat_min)
  have t: "xTail s < xLength s" using ok by (simp add: sb_ok_def)
  define first where "first = min (xLength s - xTail s) n"
  have first: "unat first = min (L s - unat (xTail s)) c"
    unfolding first_def n [symmetric] by (rule unat_first [OF t])
  have fit: "xTail s + first \<le> xLength s" unfolding first_def by (rule first_fits [OF t d(1)])
  have mx: "first \<le> mx" "n \<le> mx" by (auto simp: word_le_nat_alt first n c_def)
  have more: "n > first \<longleftrightarrow> unat first < c" by (simp add: word_less_nat_alt n)
  have rest: "unat (n - first) = c - unat first"
    unfolding n [symmetric] by (rule unat_sub) (simp add: first word_le_nat_alt n)
  define next' where "next' = (if xTail s + n \<ge> xLength s then xTail s + n - xLength s else xTail s + n)"
  have next': "unat next' = (unat (xTail s) + c) mod L s" "next' < xLength s"
    unfolding next'_def using advance [OF t _ d(1), of n] cb n by simp_all
  let ?s = "s\<lparr>xTail := next'\<rparr>"
  have gets: "take c (sb_data s) = (if unat first < c
      then memcpy_from (pucBuffer s) (unat (xTail s)) (unat first) @ memcpy_from (pucBuffer s) 0 (c - unat first)
      else memcpy_from (pucBuffer s) (unat (xTail s)) (unat first))"
  proof (cases "unat first < c")
    case True
    then have "unat first = L s - unat (xTail s)" using first by simp
    then show ?thesis
      using True cb d ring_get_wrap [of "unat (xTail s)" "pucBuffer s" c]
      by (simp add: sb_data_def take_ring_get first)
  next
    case False
    then have "unat first = c" "unat (xTail s) + c \<le> L s" using first d by auto
    then show ?thesis using cb d by (simp add: sb_data_def take_ring_get ring_get_straight)
  qed
  have "prvReadBytesFromBuffer mx avail s = Returns (take c (sb_data s), ?s)"
    unfolding prvReadBytesFromBuffer_def Let_def n_def [symmetric] first_def [symmetric] next'_def [symmetric]
    using True [folded n_def] mx fit more by (simp add: gets rest)
  moreover have ok': "sb_ok ?s" using ok next'(2) by (simp add: sb_ok_def)
  moreover have nb: "unat (prvBytesInBuffer ?s) = unat (prvBytesInBuffer s) - c"
  proof (rule bytes_of_positions [OF ok'])
    have "unat (xTail s) + c + (unat (prvBytesInBuffer s) - c) = unat (xTail s) + unat (prvBytesInBuffer s)"
      using cb by simp
    then have "unat (xHead s) = (unat next' + (unat (prvBytesInBuffer s) - c)) mod L s"
      by (simp only: next'(1) head_is [OF ok] mod_add_left_eq)
    then show "unat (xHead ?s) = (unat (xTail ?s) + (unat (prvBytesInBuffer s) - c)) mod L ?s" by simp
    show "unat (prvBytesInBuffer s) - c < L ?s" using bytes_bound [OF ok] by simp
  qed
  moreover have "sb_data ?s = drop c (sb_data s)"
    unfolding sb_data_def nb using cb d next'(1) by (simp add: drop_ring_get)
  ultimately show ?thesis by (intro exI [of _ ?s]) simp
qed

section \<open>Frames\<close>

lemma sb_ok_frame [simp, frame_simps]:
  "sb_ok (s\<lparr>xTaskWaitingToReceive := t\<rparr>) = sb_ok s" "sb_ok (s\<lparr>xTaskWaitingToSend := t\<rparr>) = sb_ok s"
  by (simp_all add: sb_ok_def)

lemma bytes_frame [simp, frame_simps]:
  "prvBytesInBuffer (s\<lparr>xTaskWaitingToReceive := t\<rparr>) = prvBytesInBuffer s"
  "prvBytesInBuffer (s\<lparr>xTaskWaitingToSend := t\<rparr>) = prvBytesInBuffer s"
  by (simp_all add: prvBytesInBuffer_def Let_def)

lemma sb_data_frame [simp, frame_simps]:
  "sb_data (s\<lparr>xTaskWaitingToReceive := t\<rparr>) = sb_data s" "sb_data (s\<lparr>xTaskWaitingToSend := t\<rparr>) = sb_data s"
  by (simp_all add: sb_data_def)

lemma SEND_COMPLETED_frame [simp]:
  "sb_ok (fst (sbSEND_COMPLETED s)) = sb_ok s" "sb_data (fst (sbSEND_COMPLETED s)) = sb_data s"
  "snd (sbSEND_COMPLETED s) = (case xTaskWaitingToReceive s of None \<Rightarrow> [] | Some t \<Rightarrow> [t])"
  by (simp_all add: sbSEND_COMPLETED_def split: option.splits)

lemma RECEIVE_COMPLETED_frame [simp]:
  "sb_ok (fst (sbRECEIVE_COMPLETED s)) = sb_ok s" "sb_data (fst (sbRECEIVE_COMPLETED s)) = sb_data s"
  "snd (sbRECEIVE_COMPLETED s) = (case xTaskWaitingToSend s of None \<Rightarrow> [] | Some t \<Rightarrow> [t])"
  by (simp_all add: sbRECEIVE_COMPLETED_def split: option.splits)

section \<open>Streams\<close>

text \<open>How many of \<open>n\<close> bytes fit.\<close>

definition sb_room :: "sbuf \<Rightarrow> nat" where
  "sb_room s = L s - 1 - length (sb_data s)"

lemma unat_spaces_room: "sb_ok s \<Longrightarrow> unat (xStreamBufferSpacesAvailable s) = sb_room s"
  by (simp add: unat_spaces sb_room_def)

lemma send_now_stream:
  assumes ok: "sb_ok s" and m: "\<not> is_message_buffer s" and n: "0 < n" "unat n \<le> length data"
  defines "k \<equiv> min (unat n) (sb_room s)"
  shows "\<exists>s'. send_now data n (xStreamBufferSpacesAvailable s) req s = Returns (of_nat k, s',
             if 0 < k \<and> unat (xTriggerLevelBytes s) \<le> length (sb_data s) + k
             then (case xTaskWaitingToReceive s of None \<Rightarrow> [] | Some t \<Rightarrow> [t]) else [])
           \<and> sb_ok s' \<and> sb_data s' = sb_data s @ take k data
           \<and> xTaskWaitingToSend s' = xTaskWaitingToSend s \<and> ucFlags s' = ucFlags s"
proof (cases "xStreamBufferSpacesAvailable s = 0")
  case True
  then have "k = 0" using unat_spaces_room [OF ok] by (simp add: k_def)
  with True ok show ?thesis by (simp add: send_now_def prvWriteMessageToBuffer_def)
next
  case False
  let ?w = "min n (xStreamBufferSpacesAvailable s)"
  have w: "unat ?w = k" by (simp add: unat_min k_def unat_spaces_room [OF ok])
  have pos: "0 < ?w" using False n(1) by (simp add: word_neq_0_conv)
  then have k: "0 < k" using w by (simp add: word_less_nat_alt)
  obtain s' where s': "prvWriteBytesToBuffer data ?w s = Returns (?w, s')" "sb_ok s'"
    "sb_data s' = sb_data s @ take k data" "s' = s\<lparr>pucBuffer := pucBuffer s', xHead := xHead s'\<rparr>"
  proof -
    have "unat ?w \<le> unat (xStreamBufferSpacesAvailable s)" "unat ?w \<le> length data"
      using n(2) unat_spaces_room [OF ok] unfolding w by (simp_all add: k_def)
    from write_bytes [OF ok pos this] that show ?thesis unfolding w by blast
  qed
  have f: "xTriggerLevelBytes s' = xTriggerLevelBytes s" "xTaskWaitingToReceive s' = xTaskWaitingToReceive s"
    "xTaskWaitingToSend s' = xTaskWaitingToSend s" "ucFlags s' = ucFlags s"
    by (subst s'(4), simp)+
  have b: "unat (prvBytesInBuffer s') = length (sb_data s) + k"
    using arg_cong [OF s'(3), of length] n(2) by (simp add: k_def)
  have wk: "?w = of_nat k" using w by (rule word_of_nat_of_unat)
  show ?thesis
    using s' False m k f b pos
    by (auto simp: send_now_def prvWriteMessageToBuffer_def word_le_nat_alt wk sbSEND_COMPLETED_def
        split: option.splits)
qed

lemma receive_now_stream:
  fixes mx :: u32
  assumes ok: "sb_ok s"
  defines "k \<equiv> min (length (sb_data s)) (unat mx)"
  shows "\<exists>s'. receive_now 0 mx (prvBytesInBuffer s) s = Returns (take k (sb_data s), s',
             if 0 < k then (case xTaskWaitingToSend s of None \<Rightarrow> [] | Some t \<Rightarrow> [t]) else [])
           \<and> sb_ok s' \<and> sb_data s' = drop k (sb_data s)
           \<and> xTaskWaitingToReceive s' = xTaskWaitingToReceive s \<and> ucFlags s' = ucFlags s"
proof (cases "prvBytesInBuffer s = 0")
  case True
  then have "length (sb_data s) = 0" by simp
  then have "k = 0" by (simp add: k_def)
  with True ok show ?thesis by (simp add: receive_now_def)
next
  case False
  then have pos: "0 < prvBytesInBuffer s" by (simp add: word_neq_0_conv)
  obtain s' where s': "prvReadBytesFromBuffer mx (prvBytesInBuffer s) s = Returns (take k (sb_data s), s')"
    "sb_ok s'" "sb_data s' = drop k (sb_data s)" "s' = s\<lparr>xTail := xTail s'\<rparr>"
    using read_bytes [OF ok order_refl, of mx] unfolding k_def length_sb_data by blast
  have f: "xTaskWaitingToSend s' = xTaskWaitingToSend s"
    "xTaskWaitingToReceive s' = xTaskWaitingToReceive s" "ucFlags s' = ucFlags s"
    by (subst s'(4), simp)+
  have "take k (sb_data s) \<noteq> [] \<longleftrightarrow> 0 < k" unfolding k_def by (auto simp del: length_sb_data)
  with s' f pos show ?thesis
    by (auto simp: receive_now_def prvReadMessageFromBuffer_def sbRECEIVE_COMPLETED_def split: option.splits)
qed

section \<open>Messages\<close>

definition encode :: "u8 list \<Rightarrow> u8 list" where
  "encode m = word_bytes (of_nat (length m)) @ m"

lemma length_encode [simp]: "length (encode m) = 4 + length m"
  by (simp add: encode_def)

lemma send_now_message:
  assumes ok: "sb_ok s" and m: "is_message_buffer s" and len: "msg \<noteq> []" "length msg + 4 < 2 ^ 32"
  defines "n \<equiv> of_nat (length msg)"
  shows "\<exists>s'. send_now msg n (xStreamBufferSpacesAvailable s) (n + 4) s =
           (if length msg + 4 \<le> sb_room s
            then Returns (n, s', if unat (xTriggerLevelBytes s) \<le> length (sb_data s') 
                   then (case xTaskWaitingToReceive s of None \<Rightarrow> [] | Some t \<Rightarrow> [t]) else [])
            else Returns (0, s, []))
           \<and> (length msg + 4 \<le> sb_room s \<longrightarrow> sb_ok s' \<and> sb_data s' = sb_data s @ encode msg
                \<and> is_message_buffer s')"
proof (cases "length msg + 4 \<le> sb_room s")
  case False
  have "unat (n + 4) = length msg + 4"
    using unat_of_nat_small [OF len(2)] by (simp add: n_def)
  then have "\<not> n + 4 \<le> xStreamBufferSpacesAvailable s"
    using False by (simp add: word_le_nat_alt unat_spaces_room [OF ok])
  then show ?thesis using False m by (simp add: send_now_def prvWriteMessageToBuffer_def)
next
  case True
  have un: "unat n = length msg" unfolding n_def using len(2) by (intro unat_of_nat_small) simp
  have "unat (n + 4) = length msg + 4"
    using unat_of_nat_small [OF len(2)] by (simp add: n_def)
  then have req: "n + 4 \<le> xStreamBufferSpacesAvailable s" "xStreamBufferSpacesAvailable s \<noteq> 0"
    using True unat_spaces_room [OF ok] by (auto simp: word_le_nat_alt simp flip: unat_eq_zero)
  obtain s1 where s1: "prvWriteBytesToBuffer (word_bytes n) 4 s = Returns (4, s1)" "sb_ok s1"
    "sb_data s1 = sb_data s @ word_bytes n" "s1 = s\<lparr>pucBuffer := pucBuffer s1, xHead := xHead s1\<rparr>"
  proof -
    have "0 < (4 :: u32)" "unat (4 :: u32) \<le> unat (xStreamBufferSpacesAvailable s)"
      "unat (4 :: u32) \<le> length (word_bytes n)" using True by (simp_all add: unat_spaces_room [OF ok])
    from write_bytes [OF ok this] that show ?thesis by auto
  qed
  have f1: "xLength s1 = xLength s" "xTriggerLevelBytes s1 = xTriggerLevelBytes s"
    "xTaskWaitingToReceive s1 = xTaskWaitingToReceive s" "ucFlags s1 = ucFlags s"
    by (subst s1(4), simp)+
  have room1: "length msg \<le> sb_room s1"
    using True arg_cong [OF s1(3), of length] by (simp add: sb_room_def f1)
  have npos: "0 < n" using len(1) un by (simp add: word_less_nat_alt)
  obtain s' where s': "prvWriteBytesToBuffer msg n s1 = Returns (n, s')" "sb_ok s'"
    "sb_data s' = sb_data s1 @ msg" "s' = s1\<lparr>pucBuffer := pucBuffer s', xHead := xHead s'\<rparr>"
  proof -
    have "unat n \<le> unat (xStreamBufferSpacesAvailable s1)" "unat n \<le> length msg"
      using room1 un by (simp_all add: unat_spaces_room [OF s1(2)])
    from write_bytes [OF s1(2) npos this] that show ?thesis by (auto simp: un)
  qed
  have f: "xTriggerLevelBytes s' = xTriggerLevelBytes s" "ucFlags s' = ucFlags s"
    "xTaskWaitingToReceive s' = xTaskWaitingToReceive s"
    using f1 by (subst s'(4), simp)+
  have d: "sb_data s' = sb_data s @ encode msg" using s'(3) s1(3) by (simp add: encode_def n_def)
  let ?s = "fst (if unat (xTriggerLevelBytes s) \<le> length (sb_data s') then sbSEND_COMPLETED s' else (s', []))"
  have "send_now msg n (xStreamBufferSpacesAvailable s) (n + 4) s = Returns (n, ?s,
      if unat (xTriggerLevelBytes s) \<le> length (sb_data ?s)
      then (case xTaskWaitingToReceive s of None \<Rightarrow> [] | Some t \<Rightarrow> [t]) else [])"
    using m req s1(1) s'(1) npos f
    by (auto simp: send_now_def prvWriteMessageToBuffer_def sbBYTES_TO_STORE_MESSAGE_LENGTH_def
        word_le_nat_alt sbSEND_COMPLETED_def split: option.splits)
  moreover have "ucFlags ?s = ucFlags s" using f by (simp add: sbSEND_COMPLETED_def split: option.splits)
  ultimately show ?thesis
    using True d s'(2) m by (intro exI [of _ ?s]) (simp add: is_message_buffer_def)
qed

lemma receive_now_message:
  assumes ok: "sb_ok s" and d: "sb_data s = encode msg @ rest" and len: "msg \<noteq> []"
  shows "\<exists>s'. receive_now 4 mx (prvBytesInBuffer s) s =
           (if length msg \<le> unat mx
            then Returns (msg, s', case xTaskWaitingToSend s of None \<Rightarrow> [] | Some t \<Rightarrow> [t])
            else Returns ([], s, []))
           \<and> (length msg \<le> unat mx \<longrightarrow> sb_ok s' \<and> sb_data s' = rest \<and> ucFlags s' = ucFlags s)"
proof -
  have lens: "unat (prvBytesInBuffer s) = 4 + length msg + length rest"
    using arg_cong [OF d, of length] by simp
  have avail: "4 < prvBytesInBuffer s" using lens len by (cases msg) (simp_all add: word_less_nat_alt)
  have small: "length msg < 2 ^ 32"
    using lens unsigned_less [of "prvBytesInBuffer s", where 'a = nat] by simp
  obtain s1 where s1: "prvReadBytesFromBuffer 4 (prvBytesInBuffer s) s = Returns (word_bytes (of_nat (length msg)), s1)"
    "sb_ok s1" "sb_data s1 = msg @ rest" "s1 = s\<lparr>xTail := xTail s1\<rparr>"
    using read_bytes [OF ok order_refl, of 4] lens by (auto simp: d encode_def)
  have hdr: "unat (bytes_word (word_bytes (of_nat (length msg)))) = length msg"
    using small by (simp add: bytes_word_bytes unat_of_nat)
  show ?thesis
  proof (cases "length msg \<le> unat mx")
    case False
    have "s1\<lparr>xTail := xTail s\<rparr> = s" by (subst s1(4)) simp
    then show ?thesis
      using False avail s1(1) hdr
      by (simp add: receive_now_def prvReadMessageFromBuffer_def Let_def word_less_nat_alt
          prvReadBytesFromBuffer_def [of 0])
  next
    case True
    have b1: "unat (prvBytesInBuffer s1) = length msg + length rest"
      using arg_cong [OF s1(3), of length] by simp
    have "unat (prvBytesInBuffer s - 4) = length msg + length rest"
      using lens by (subst unat_sub) (simp_all add: word_le_nat_alt)
    then obtain s' where s': "prvReadBytesFromBuffer (bytes_word (word_bytes (of_nat (length msg))))
        (prvBytesInBuffer s - 4) s1 = Returns (msg, s')" "sb_ok s'" "sb_data s' = rest"
      "s' = s1\<lparr>xTail := xTail s'\<rparr>"
      using read_bytes [OF s1(2), of "prvBytesInBuffer s - 4" "bytes_word (word_bytes (of_nat (length msg)))"]
        b1 hdr by (auto simp: s1(3))
    have f: "xTaskWaitingToSend s' = xTaskWaitingToSend s" "ucFlags s' = ucFlags s"
      by (subst s'(4), subst s1(4), simp)+
    have "receive_now 4 mx (prvBytesInBuffer s) s = Returns (msg, sbRECEIVE_COMPLETED s')"
      using avail s1(1) s'(1) hdr True len
      by (simp add: receive_now_def prvReadMessageFromBuffer_def Let_def word_less_nat_alt)
    then show ?thesis using True s'(2,3) f
      by (cases "xTaskWaitingToSend s") (auto simp: sbRECEIVE_COMPLETED_def)
  qed
qed

section \<open>The properties of the stream buffers\<close>

text \<open>A 16-byte stream buffer, and the same as a message buffer, for the concrete applications.\<close>

definition demo_stream :: sbuf where "demo_stream = prvInitialiseNewStreamBuffer 17 1 False"
definition demo_messages :: sbuf where "demo_messages = prvInitialiseNewStreamBuffer 17 1 True"

lemma new_buffer:
  assumes "0 < len" and "unat len \<le> 2 ^ 31"
  shows "sb_ok (prvInitialiseNewStreamBuffer len t m)" and "sb_data (prvInitialiseNewStreamBuffer len t m) = []"
    and "is_message_buffer (prvInitialiseNewStreamBuffer len t m) = m"
  using assms by (auto simp: prvInitialiseNewStreamBuffer_def sb_ok_def sb_data_def prvBytesInBuffer_def
      is_message_buffer_def sbFLAGS_IS_MESSAGE_BUFFER_def)

lemma demo_stream_ok:
  "sb_ok demo_stream" "sb_data demo_stream = []" "\<not> is_message_buffer demo_stream" "sb_room demo_stream = 16"
  "sb_ok demo_messages" "sb_data demo_messages = []" "is_message_buffer demo_messages" "sb_room demo_messages = 16"
  using new_buffer [of 17 1] by (simp_all add: demo_stream_def demo_messages_def sb_room_def)
    (simp_all add: prvInitialiseNewStreamBuffer_def)

lemma demo_stream_fields:
  "xTaskWaitingToReceive demo_stream = None" "xTaskWaitingToSend demo_stream = None"
  "xTaskWaitingToReceive demo_messages = None" "xTriggerLevelBytes demo_messages = 1"
  "xLength demo_stream = 17"
  by (simp_all add: demo_stream_def demo_messages_def prvInitialiseNewStreamBuffer_def)

text \<open>
  A send to a stream buffer that does not block appends exactly the longest prefix of the data
  that fits behind the bytes already there, returns its length, and notifies the waiting reader
  exactly when something was written and the trigger level is reached.
\<close>

theorem xStreamBufferSend_stream:
  assumes "sb_ok s" and "\<not> is_message_buffer s" and "0 < n" and "unat n \<le> length data"
  shows "\<exists>s'. let k = min (unat n) (sb_room s) in
           xStreamBufferSend me [] data n 0 s = Returns (of_nat k, s',
             if 0 < k \<and> unat (xTriggerLevelBytes s) \<le> length (sb_data s) + k
             then (case xTaskWaitingToReceive s of None \<Rightarrow> [] | Some t \<Rightarrow> [t]) else [])
           \<and> sb_ok s' \<and> sb_data s' = sb_data s @ take k data"
  using send_now_stream [OF assms, of "xRequiredSpace n s"] by (auto simp: xStreamBufferSend_def Let_def)

theorem xStreamBufferSend_stream_witness:
  "\<exists>s'. xStreamBufferSend 7 [] [10, 20, 30] 3 0 demo_stream = Returns (3, s', []) \<and> sb_data s' = [10, 20, 30]"
  using xStreamBufferSend_stream [OF demo_stream_ok(1,3), of 3 "[10, 20, 30]" 7]
  by (auto simp: demo_stream_ok demo_stream_fields Let_def)

text \<open>
  A receive from a stream buffer that does not block takes the oldest bytes, as many as there
  are up to the size asked for, leaves the rest in order, and notifies the waiting writer exactly
  when it took something.
\<close>

theorem xStreamBufferReceive_stream:
  assumes "sb_ok s" and "\<not> is_message_buffer s"
  shows "\<exists>s'. let k = min (length (sb_data s)) (unat n) in
           xStreamBufferReceive me None n 0 s = Returns (take k (sb_data s), s',
             if 0 < k then (case xTaskWaitingToSend s of None \<Rightarrow> [] | Some t \<Rightarrow> [t]) else [])
           \<and> sb_ok s' \<and> sb_data s' = drop k (sb_data s)"
  using receive_now_stream [OF assms(1), of n] assms(2)
  by (auto simp: xStreamBufferReceive_def header_bytes_def Let_def)

theorem xStreamBufferReceive_stream_witness:
  "\<exists>s s'. sb_data s = [10, 20, 30] \<and> xStreamBufferReceive 8 None 2 0 s = Returns ([10, 20], s', [])
     \<and> sb_data s' = [30]"
proof -
  obtain s where s: "sb_ok s" "sb_data s = [10, 20, 30]" "ucFlags s = ucFlags demo_stream"
    "xTaskWaitingToSend s = xTaskWaitingToSend demo_stream"
    using send_now_stream [OF demo_stream_ok(1,3), of 3 "[10, 20, 30]"] by (auto simp: demo_stream_ok)
  then have "\<not> is_message_buffer s" "xTaskWaitingToSend s = None"
    using demo_stream_ok(3) by (simp_all add: is_message_buffer_def)
      (simp add: demo_stream_fields)
  with xStreamBufferReceive_stream [OF s(1), of 2 8] s show ?thesis by (auto simp: Let_def)
qed

text \<open>
  The messages in a message buffer, oldest first, and receiving several of them, each with a destination
  of its own length.
\<close>

definition holds_messages :: "sbuf \<Rightarrow> u8 list list \<Rightarrow> bool" where
  "holds_messages s ms \<longleftrightarrow> sb_ok s \<and> is_message_buffer s \<and> sb_data s = concat (map encode ms) \<and> [] \<notin> set ms"

fun receive_messages :: "nat \<Rightarrow> tick \<Rightarrow> u32 list \<Rightarrow> sbuf \<Rightarrow> (u8 list list \<times> sbuf) outcome" where
  "receive_messages me wait [] s = Returns ([], s)"
| "receive_messages me wait (n # ns) s =
     obind (xStreamBufferReceive me None n wait s) (\<lambda>(m, s1, w).
     obind (receive_messages me wait ns s1) (\<lambda>(ms, s2). Returns (m # ms, s2)))"

text \<open>Sending when there is room, and when there is none, for any time to wait.\<close>

lemma send_message:
  assumes h: "holds_messages s ms" and m: "msg \<noteq> []" "length msg + 4 \<le> sb_room s"
  shows "\<exists>s' w. xStreamBufferSend me wakes msg (of_nat (length msg)) wait s = Returns (of_nat (length msg), s', w)
     \<and> holds_messages s' (ms @ [msg])"
proof -
  let ?n = "of_nat (length msg) :: u32"
  have ok: "sb_ok s" "is_message_buffer s" using h by (simp_all add: holds_messages_def)
  have l: "length msg + 4 < 2 ^ 32" using m(2) unsigned_less [of "xLength s", where 'a = nat] by (simp add: sb_room_def)
  have u: "unat (?n + 4) = length msg + 4" using unat_of_nat_small [OF l] by simp
  have req: "\<not> xStreamBufferSpacesAvailable s < ?n + 4" "xStreamBufferSpacesAvailable s \<noteq> 0"
    using m u by (auto simp: word_less_nat_alt unat_spaces_room [OF ok(1)] simp flip: unat_eq_zero)
  have "send_wait me (?n + 4) wakes s = Returns (xStreamBufferSpacesAvailable s, s)"
    using req(1) by (cases wakes) auto
  then have "xStreamBufferSend me wakes msg ?n wait s = send_now msg ?n (xStreamBufferSpacesAvailable s) (?n + 4) s"
    using req(2) ok(2) by (simp add: xStreamBufferSend_def xRequiredSpace_def header_bytes_def Let_def
        sbBYTES_TO_STORE_MESSAGE_LENGTH_def)
  then show ?thesis
    using send_now_message [OF ok m(1) l] m h by (auto simp: holds_messages_def)
qed

lemma send_message_full:
  assumes h: "holds_messages s ms" and m: "msg \<noteq> []" "length msg + 4 < 2 ^ 32" "\<not> length msg + 4 \<le> sb_room s"
  shows "xStreamBufferSend me wakes msg (of_nat (length msg)) 0 s = Returns (0, s, [])"
  using send_now_message [of s msg] h m
  by (auto simp: holds_messages_def xStreamBufferSend_def xRequiredSpace_def header_bytes_def
      sbBYTES_TO_STORE_MESSAGE_LENGTH_def)

lemma receive_message:
  assumes h: "holds_messages s (msg # ms)"
  shows "unat n < length msg \<Longrightarrow> xStreamBufferReceive me wake n wait s = Returns ([], s, [])"
    and "length msg \<le> unat n \<Longrightarrow> \<exists>s' w. xStreamBufferReceive me wake n wait s = Returns (msg, s', w) \<and> holds_messages s' ms"
proof -
  have ok: "sb_ok s" "is_message_buffer s" "sb_data s = encode msg @ concat (map encode ms)" "msg \<noteq> []"
    using h by (auto simp: holds_messages_def)
  have "length (sb_data s) > 4" using ok(3,4) by simp
  then have "\<not> prvBytesInBuffer s \<le> 4" using ok(1) by (simp add: word_le_nat_alt)
  then have r: "xStreamBufferReceive me wake n wait s = receive_now 4 n (prvBytesInBuffer s) s"
    using ok(2) by (simp add: xStreamBufferReceive_def header_bytes_def sbBYTES_TO_STORE_MESSAGE_LENGTH_def Let_def)
  note m = receive_now_message [OF ok(1,3,4), of n]
  show "xStreamBufferReceive me wake n wait s = Returns ([], s, [])" if "unat n < length msg" using m that r by auto
  show "\<exists>s' w. xStreamBufferReceive me wake n wait s = Returns (msg, s', w) \<and> holds_messages s' ms"
    if "length msg \<le> unat n"
    using m that r ok(2) h by (auto simp: holds_messages_def is_message_buffer_def)
qed

lemma receive_messages_all:
  assumes "holds_messages s ms" and "list_all2 (\<lambda>n m. length m \<le> unat n) ns ms"
  shows "\<exists>s'. receive_messages me wait ns s = Returns (ms, s') \<and> holds_messages s' []"
  using assms
proof (induction ms arbitrary: ns s)
  case (Cons m ms)
  then obtain n ns' where ns: "ns = n # ns'" "length m \<le> unat n" "list_all2 (\<lambda>n m. length m \<le> unat n) ns' ms"
    by (cases ns) auto
  obtain s1 w where "xStreamBufferReceive me None n wait s = Returns (m, s1, w)" "holds_messages s1 ms"
    using receive_message(2) [OF Cons.prems(1) ns(2)] by blast
  then show ?case using Cons.IH [OF _ ns(3)] ns(1) by auto
qed simp

lemma waiting_fields [simp]:
  "holds_messages (s\<lparr>xTaskWaitingToReceive := t\<rparr>) ms = holds_messages s ms"
  "sb_room (s\<lparr>xTaskWaitingToReceive := t\<rparr>) = sb_room s" "prvBytesInBuffer (s\<lparr>xTaskWaitingToReceive := t\<rparr>) = prvBytesInBuffer s"
  by (simp_all add: holds_messages_def sb_ok_def is_message_buffer_def sb_data_def sb_room_def prvBytesInBuffer_def Let_def cong: if_cong)

text \<open>What the other task does while a receive waits: it sends \<open>msg\<close>.\<close>

definition sends :: "nat \<Rightarrow> u8 list \<Rightarrow> sbuf \<Rightarrow> sbuf" where
  "sends me msg s = (case xStreamBufferSend me [] msg (of_nat (length msg)) 0 s of Returns (k, s', w) \<Rightarrow> s' | _ \<Rightarrow> s)"

text \<open>
  C5. What is sent to a message buffer is received, whole and in order: a send of a message for which,
  with its length, there is room returns the message's length; then receives with destinations large
  enough return the messages that were in the buffer before, one each, and after them the message sent,
  byte for byte, and the buffer is empty. A destination too small for the oldest message gets nothing and the
  message stays. A send that finds no room and does not wait writes nothing and returns 0. A receive
  that waits on an empty buffer returns the message that another task sends meanwhile.
\<close>

theorem message_round_trip:
  assumes h: "holds_messages s ms" and m: "msg \<noteq> []" "length msg + 4 < 2 ^ 32"
  shows "if length msg + 4 \<le> sb_room s
    then (\<exists>s1 w. xStreamBufferSend me wakes msg (of_nat (length msg)) wait s = Returns (of_nat (length msg), s1, w)
            \<and> (\<forall>n. unat n < length (hd (ms @ [msg])) \<longrightarrow> xStreamBufferReceive you None n wait' s1 = Returns ([], s1, []))
            \<and> (\<forall>ns. list_all2 (\<lambda>n m. length m \<le> unat n) ns (ms @ [msg]) \<longrightarrow>
                 (\<exists>s2. receive_messages you wait' ns s1 = Returns (ms @ [msg], s2) \<and> sb_ok s2 \<and> sb_data s2 = [])))
       \<and> (\<forall>n. ms = [] \<and> xTaskWaitingToReceive s = None \<and> wait' \<noteq> 0 \<and> length msg \<le> unat n \<longrightarrow>
            (\<exists>s2 w. xStreamBufferReceive you (Some (sends me msg)) n wait' s = Returns (msg, s2, w) \<and> sb_data s2 = []))
    else xStreamBufferSend me wakes msg (of_nat (length msg)) 0 s = Returns (0, s, [])"
proof (cases "length msg + 4 \<le> sb_room s")
  case False
  then show ?thesis using send_message_full [OF h m False] by simp
next
  case True
  obtain s1 w where s1: "xStreamBufferSend me wakes msg (of_nat (length msg)) wait s = Returns (of_nat (length msg), s1, w)"
    "holds_messages s1 (ms @ [msg])" using send_message [OF h m(1) True] by blast
  have small: "xStreamBufferReceive you None n wait' s1 = Returns ([], s1, [])" if "unat n < length (hd (ms @ [msg]))" for n
    using receive_message(1) [of s1 "hd (ms @ [msg])" "tl (ms @ [msg])"] s1(2) that by simp
  have all: "\<exists>s2. receive_messages you wait' ns s1 = Returns (ms @ [msg], s2) \<and> sb_ok s2 \<and> sb_data s2 = []"
    if "list_all2 (\<lambda>n m. length m \<le> unat n) ns (ms @ [msg])" for ns
    using receive_messages_all [OF s1(2) that] by (auto simp: holds_messages_def)
  have blocked: "\<exists>s2 w. xStreamBufferReceive you (Some (sends me msg)) n wait' s = Returns (msg, s2, w) \<and> sb_data s2 = []"
    if b: "ms = []" "xTaskWaitingToReceive s = None" "wait' \<noteq> 0" "length msg \<le> unat n" for n
  proof -
    let ?s = "s\<lparr>xTaskWaitingToReceive := Some you\<rparr>"
    have h0: "holds_messages ?s []" using h b(1) by simp
    obtain t w where t: "xStreamBufferSend me [] msg (of_nat (length msg)) 0 ?s = Returns (of_nat (length msg), t, w)"
      "holds_messages t [msg]" using send_message [OF h0 m(1), of me "[]" 0] True by auto
    let ?t = "t\<lparr>xTaskWaitingToReceive := None\<rparr>"
    obtain s2 w2 where s2: "xStreamBufferReceive you None n 0 ?t = Returns (msg, s2, w2)" "holds_messages s2 []"
      using receive_message(2) [of ?t msg "[]" n you None 0] t(2) b(4) by auto
    have "prvBytesInBuffer s = 0" "is_message_buffer s"
      using h b(1) by (auto simp: holds_messages_def simp flip: length_sb_data unat_eq_zero)
    moreover have "is_message_buffer ?t" using t(2) by (simp add: holds_messages_def is_message_buffer_def)
    ultimately have "xStreamBufferReceive you (Some (sends me msg)) n wait' s = xStreamBufferReceive you None n 0 ?t"
      using b(2,3) t(1) by (simp add: xStreamBufferReceive_def sends_def header_bytes_def Let_def)
    then show ?thesis using s2 by (auto simp: holds_messages_def)
  qed
  show ?thesis using True s1(1) small all blocked by auto
qed

theorem message_round_trip_witness:
  "\<exists>s1 w s2 s3 w3. xStreamBufferSend 7 [] [10, 20] 2 0 demo_messages = Returns (2, s1, w)
     \<and> xStreamBufferReceive 8 None 1 5 s1 = Returns ([], s1, [])
     \<and> receive_messages 8 5 [3] s1 = Returns ([[10, 20]], s2) \<and> sb_data s2 = []
     \<and> xStreamBufferReceive 8 (Some (sends 7 [10, 20])) 3 5 demo_messages = Returns ([10, 20], s3, w3)"
proof -
  have h: "holds_messages demo_messages []" "length [10, 20 :: u8] + 4 \<le> sb_room demo_messages"
    using demo_stream_ok by (simp_all add: holds_messages_def)
  obtain s1 w where s1: "xStreamBufferSend 7 [] [10, 20] 2 0 demo_messages = Returns (2, s1, w)"
    "\<forall>n. unat n < Suc (Suc 0) \<longrightarrow> xStreamBufferReceive 8 None n 5 s1 = Returns ([], s1, [])"
    "\<forall>ns. list_all2 (\<lambda>n m. length m \<le> unat n) ns [[10, 20 :: u8]] \<longrightarrow>
       (\<exists>s2. receive_messages 8 5 ns s1 = Returns ([[10, 20]], s2) \<and> sb_data s2 = [])"
    "\<forall>n. Suc (Suc 0) \<le> unat n \<longrightarrow> (\<exists>s3 w3. xStreamBufferReceive 8 (Some (sends 7 [10, 20])) n 5 demo_messages = Returns ([10, 20], s3, w3))"
    using message_round_trip [OF h(1), of "[10, 20]" 7 "[]" 0 8 5] h(2) demo_stream_fields(3)
    by (auto simp del: receive_messages.simps) blast
  have "xStreamBufferReceive 8 None 1 5 s1 = Returns ([], s1, [])" using s1(2) by simp
  moreover obtain s2 where "receive_messages 8 5 [3] s1 = Returns ([[10, 20]], s2)" "sb_data s2 = []"
    using s1(3) [rule_format, of "[3]"] by (auto simp del: receive_messages.simps)
  moreover obtain s3 w3 where "xStreamBufferReceive 8 (Some (sends 7 [10, 20])) 3 5 demo_messages = Returns ([10, 20], s3, w3)"
    using s1(4) [rule_format, of 3] by auto
  ultimately show ?thesis using s1(1) by blast
qed

text \<open>The steps of one writer and one reader, each a task or an interrupt.\<close>

definition stream_put :: "sbuf \<Rightarrow> u8 list \<Rightarrow> sbuf \<Rightarrow> bool" where
  "stream_put s a s' \<longleftrightarrow>
     (\<exists>data n k. 0 < n \<and> unat n \<le> length data \<and> a = take (unat k) data
        \<and> ((\<exists>me w. xStreamBufferSend me [] data n 0 s = Returns (k, s', w))
          \<or> (\<exists>w. xStreamBufferSendFromISR data n s = Returns (k, s', w))))"

definition stream_get :: "sbuf \<Rightarrow> u8 list \<Rightarrow> sbuf \<Rightarrow> bool" where
  "stream_get s a s' \<longleftrightarrow>
     (\<exists>n. (\<exists>me w. xStreamBufferReceive me None n 0 s = Returns (a, s', w))
        \<or> (\<exists>w. xStreamBufferReceiveFromISR n s = Returns (a, s', w)))"

definition stream_holds :: "sbuf \<Rightarrow> u8 list \<Rightarrow> bool" where
  "stream_holds s ys \<longleftrightarrow> sb_ok s \<and> \<not> is_message_buffer s \<and> sb_data s = ys"

lemma send_now_step:
  assumes "sb_ok s" "\<not> is_message_buffer s" "0 < n" "unat n \<le> length data"
    and r: "send_now data n (xStreamBufferSpacesAvailable s) req s = Returns (k, s', w)"
  shows "sb_ok s' \<and> \<not> is_message_buffer s' \<and> sb_data s' = sb_data s @ take (unat k) data"
proof -
  have "min (unat n) (sb_room s) < 2 ^ 32" using unsigned_less [of n, where 'a = nat] by simp
  with send_now_stream [OF assms(1-4), of req] r assms(2) show ?thesis
    by (auto simp: unat_of_nat_small is_message_buffer_def)
qed

lemma receive_now_step:
  assumes "sb_ok s" "\<not> is_message_buffer s" and r: "receive_now 0 n (prvBytesInBuffer s) s = Returns (d, s', w)"
  shows "sb_ok s' \<and> \<not> is_message_buffer s' \<and> sb_data s = d @ sb_data s'"
  using receive_now_stream [OF assms(1), of n] r assms(2) by (auto simp: is_message_buffer_def)

lemma stream_put_appends:
  assumes "stream_put s a s'" and "stream_holds s ys"
  shows "stream_holds s' (ys @ a)"
proof -
  obtain data n k w where p: "0 < n" "unat n \<le> length data" "a = take (unat k) data"
    "send_now data n (xStreamBufferSpacesAvailable s) (xRequiredSpace n s) s = Returns (k, s', w)"
    using assms unfolding stream_put_def stream_holds_def
    by (auto simp: xStreamBufferSend_def xStreamBufferSendFromISR_def Let_def)
  with send_now_step [of s n data "xRequiredSpace n s" k s' w] assms(2) show ?thesis
    by (simp add: stream_holds_def)
qed

lemma stream_get_prefix:
  assumes "stream_get s a s'" and "stream_holds s ys"
  shows "\<exists>rest. ys = a @ rest \<and> stream_holds s' rest"
proof -
  obtain n w where "receive_now 0 n (prvBytesInBuffer s) s = Returns (a, s', w)"
    using assms unfolding stream_get_def stream_holds_def
    by (auto simp: xStreamBufferReceive_def xStreamBufferReceiveFromISR_def header_bytes_def Let_def)
  with receive_now_step [of s n a s' w] assms(2) show ?thesis by (simp add: stream_holds_def)
qed

interpretation stream: fifo stream_holds stream_put stream_get
  by unfold_locales (blast intro: stream_put_appends stream_get_prefix)+

text \<open>
  C6. Whatever the interleaving of sends and receives, by tasks or interrupts, the bytes received so
  far followed by the bytes in the buffer are exactly the bytes sent, in order: nothing is lost,
  repeated or reordered, and free space plus stored bytes is one less than the length.
\<close>

theorem stream_run_fifo:
  assumes "fifo_run stream_put stream_get s0 s sent got" and "sb_ok s0" and "sb_data s0 = []"
    and "\<not> is_message_buffer s0"
  shows "sent = got @ sb_data s \<and> sb_ok s
       \<and> unat (xStreamBufferSpacesAvailable s) + unat (xStreamBufferBytesAvailable s) = L s - 1"
proof -
  have "stream_holds s0 []" using assms(2-4) by (simp add: stream_holds_def)
  from stream.run_empty [OF assms(1) this] show ?thesis
    using bytes_bound [of s] by (auto simp: stream_holds_def unat_spaces xStreamBufferBytesAvailable_def)
qed

theorem stream_run_fifo_witness:
  "\<exists>s. (\<exists>w. xStreamBufferSend 7 [] [10, 20, 30] 3 0 demo_stream = Returns (3, s, w)) \<and> sb_data s = [10, 20, 30]"
proof -
  obtain s w where s: "xStreamBufferSend 7 [] [10, 20, 30] 3 0 demo_stream = Returns (3, s, w)"
    using send_now_stream [OF demo_stream_ok(1,3), of 3 "[10, 20, 30]" "xRequiredSpace 3 demo_stream"]
    by (auto simp: xStreamBufferSend_def demo_stream_ok Let_def)
  then have "stream_put demo_stream (take (unat (3 :: u32)) [10, 20, 30]) s"
    unfolding stream_put_def by (intro exI [of _ "[10, 20, 30]"] exI [of _ 3]) auto
  from stream_run_fifo [OF fifo_run_put [of stream_put, OF this] demo_stream_ok(1-3)] s show ?thesis by auto
qed

text \<open>
  \<open>xStreamBufferSetTriggerLevel\<close> accepts a level equal to the length of the storage area, but the
  area never holds that many bytes: a reader that waits for this level is never notified, whatever
  is sent.
\<close>

theorem trigger_level_unreachable:
  assumes "sb_ok s" and "\<not> is_message_buffer s" and "xLength s > 1"
  shows "fst (xStreamBufferSetTriggerLevel (xLength s) s)
       \<and> (\<forall>data n. 0 < n \<longrightarrow> unat n \<le> length data \<longrightarrow>
            (\<exists>k s'. xStreamBufferSend me [] data n 0 (snd (xStreamBufferSetTriggerLevel (xLength s) s)) =
               Returns (k, s', [])))"
proof -
  let ?s = "s\<lparr>xTriggerLevelBytes := xLength s\<rparr>"
  have set: "xStreamBufferSetTriggerLevel (xLength s) s = (True, ?s)"
    using assms(3) by (auto simp: xStreamBufferSetTriggerLevel_def Let_def)
  have "prvBytesInBuffer ?s = prvBytesInBuffer s" by (simp add: prvBytesInBuffer_def Let_def)
  then have d: "sb_data ?s = sb_data s" "sb_room ?s = sb_room s" by (simp_all add: sb_data_def sb_room_def)
  have ok: "sb_ok ?s" "\<not> is_message_buffer ?s" using assms by (simp_all add: sb_ok_def is_message_buffer_def)
  have "\<exists>k s'. xStreamBufferSend me [] data n 0 ?s = Returns (k, s', [])"
    if "0 < n" "unat n \<le> length data" for data and n :: u32
  proof -
    have "\<not> L s \<le> length (sb_data s) + min (unat n) (sb_room s)"
      using bytes_bound [OF assms(1)] by (simp add: sb_room_def)
    with send_now_stream [OF ok that, of "xRequiredSpace n ?s"] d show ?thesis
      by (auto simp: xStreamBufferSend_def Let_def)
  qed
  then show ?thesis by (simp add: set)
qed

theorem trigger_level_unreachable_witness:
  "\<exists>k s'. xStreamBufferSend 7 [] (replicate 16 0) 16 0
            (snd (xStreamBufferSetTriggerLevel 17 demo_stream)) = Returns (k, s', [])"
  using trigger_level_unreachable [OF demo_stream_ok(1,3), of 7]
  by (simp add: demo_stream_fields)

text \<open>
  \<open>xStreamBufferReset\<close> on a statically allocated buffer forgets that it is static: a later
  \<open>vStreamBufferDelete\<close> passes the static memory to \<open>vPortFree\<close> instead of scrubbing it.
\<close>

theorem reset_forgets_static:
  assumes "xStreamBufferGenericCreateStatic n t m = Returns s"
  shows "(\<exists>s'. vStreamBufferDelete p s h = Returns (Some s', h))
       \<and> fst (xStreamBufferReset s)
       \<and> vStreamBufferDelete p (snd (xStreamBufferReset s)) h = obind (vPortFree p h) (\<lambda>h'. Returns (None, h'))"
proof -
  have "xTaskWaitingToReceive s = None" "xTaskWaitingToSend s = None"
    "ucFlags s = (if m then sbFLAGS_IS_MESSAGE_BUFFER else 0) OR sbFLAGS_IS_STATICALLY_ALLOCATED"
    using assms by (auto simp: xStreamBufferGenericCreateStatic_def prvInitialiseNewStreamBuffer_def Let_def)
  then show ?thesis
    by (simp add: vStreamBufferDelete_def xStreamBufferReset_def prvInitialiseNewStreamBuffer_def
        sbFLAGS_IS_MESSAGE_BUFFER_def sbFLAGS_IS_STATICALLY_ALLOCATED_def)
qed

theorem reset_forgets_static_witness:
  "\<exists>s. xStreamBufferGenericCreateStatic 100 10 True = Returns s \<and> fst (xStreamBufferReset s)"
proof -
  obtain s where "xStreamBufferGenericCreateStatic 100 10 True = Returns s"
    by (simp add: xStreamBufferGenericCreateStatic_def sbBYTES_TO_STORE_MESSAGE_LENGTH_def Let_def)
  from this reset_forgets_static [OF this, of 0 undefined] show ?thesis by blast
qed

text \<open>
  The size computation of \<open>xStreamBufferGenericCreate\<close> wraps around: for a size within 32 of the
  largest \<open>size_t\<close> it asks the heap for less than 33 bytes and, when it gets them, returns a buffer
  whose length is nearly 4 GB, far beyond the memory it owns.
\<close>

theorem create_size_wraps:
  assumes "n \<ge> 0xffffffe0" and "n \<noteq> 0xffffffff" and "t \<le> n"
    and "pvPortMalloc hook (n + 33) h = Returns (p, h')" and "p \<noteq> 0"
  shows "unat (n + 33) \<le> 32
       \<and> (\<exists>s. xStreamBufferGenericCreate hook n t m h = Returns (p, Some s, h') \<and> xLength s = n + 1
             \<and> unat (xLength s) > 2 ^ 31)"
proof -
  have "unat n \<noteq> 0xffffffff" using assms(2) by (auto dest: word_of_nat_of_unat)
  then have n: "unat n \<ge> 0xffffffe0" "unat n < 0xffffffff"
    using assms(1) unsigned_less [of n, where 'a = nat] by (simp_all add: word_le_nat_alt)
  have "unat (n + 33) \<le> 32" using n by (simp add: unat_plus_if')
  moreover have "unat (n + 1) > 2 ^ 31" using n by (simp add: unat_plus_if')
  moreover have "n > 4" using n by (simp add: word_less_nat_alt)
  then have "xStreamBufferGenericCreate hook n t m h = Returns (p,
      Some (prvInitialiseNewStreamBuffer (n + 1) (if t = 0 then 1 else t) m), h')"
    using assms(3-5) by (simp add: xStreamBufferGenericCreate_def sbBYTES_TO_STORE_MESSAGE_LENGTH_def
        sizeof_StreamBuffer_t_def Let_def add.commute)
  moreover have "xLength (prvInitialiseNewStreamBuffer (n + 1) (if t = 0 then 1 else t) m) = n + 1"
    by (simp add: prvInitialiseNewStreamBuffer_def)
  ultimately show ?thesis by auto
qed

theorem create_size_wraps_witness:
  "\<exists>s h'. xStreamBufferGenericCreate vApplicationMallocFailedHook 0xffffffe0 1 False (prvHeapInit demo_heap)
             = Returns (4108, Some s, h') \<and> xLength s = 0xffffffe1"
proof -
  have "a_malloc 1 [Free 65524] = Some (0, [Used 12, Free 65512])"
    by (simp add: a_malloc_def block_size_def cut_def)
  then have a: "a_malloc (unat (1 :: u32)) [Free 65524] = Some (0, [Used 12, Free 65512])" by simp
  have w: "(0xffffffe0 + 33 :: u32) = 1" by simp
  from malloc_succeeds [OF demo_heap_inv(2) a, of vApplicationMallocFailedHook]
  obtain h' where h: "pvPortMalloc vApplicationMallocFailedHook (0xffffffe0 + 33) (prvHeapInit demo_heap)
      = Returns (4108, h')" unfolding w by auto
  have "(0xffffffe0 :: u32) \<ge> 0xffffffe0" "(0xffffffe0 :: u32) \<noteq> 0xffffffff" "(1 :: u32) \<le> 0xffffffe0"
    "(4108 :: nat) \<noteq> 0" by simp_all
  from create_size_wraps [OF this(1-3) h this(4), of False] obtain s where
    "xStreamBufferGenericCreate vApplicationMallocFailedHook 0xffffffe0 1 False (prvHeapInit demo_heap) =
       Returns (4108, Some s, h')" "xLength s = 0xffffffe0 + 1" by blast
  moreover have "(0xffffffe0 :: u32) + 1 = 0xffffffe1" by simp
  ultimately show ?thesis by metis
qed

end
