(* ===== verification/List_Effects.thy ===== *)
theory List_Effects
  imports List_Spec
begin

text \<open>
  The effect of the list operations on consistent abstract lists, in the form the kernel proofs use:
  an item is on the list its container names, removing it filters it out of every list, inserting it
  adds it to one list and changes no other.
\<close>

lemma alists_ok_mem: "alists_ok a \<Longrightarrow> x \<in> set (content a l) \<longleftrightarrow> acontainer a x = Some l"
  by (auto simp: alists_ok_def)

lemma acontainer_remove [simp]: "acontainer (a_remove x a) = (acontainer a)(x := None)"
  by (auto simp: a_remove_def split: option.split)

lemma avalue_remove [simp]: "avalue (a_remove x a) = avalue a"
  by (auto simp: a_remove_def split: option.split)

lemma content_remove:
  assumes "alists_ok a"
  shows "content (a_remove x a) l = filter (\<lambda>y. y \<noteq> x) (content a l)"
proof (cases "acontainer a x = Some l")
  case True
  then show ?thesis
    using distinct_remove1_removeAll [of "content a l" x] alists_okD(1) [OF assms, of l]
    by (simp add: a_remove_def removeAll_filter_not_eq)
      (metis (mono_tags, lifting) filter_cong)
next
  case False
  then have "x \<notin> set (content a l)" using assms by (simp add: alists_ok_mem)
  then have "filter (\<lambda>y. y \<noteq> x) (content a l) = content a l" by (auto simp: filter_id_conv)
  with False show ?thesis by (auto simp: a_remove_def split: option.split)
qed

lemma cursor_before_mem: "cursor_before x xs = Some y \<Longrightarrow> y \<in> set xs \<and> y \<noteq> x"
  unfolding cursor_before_def
  by (auto split: list.splits simp: rev_swap dest: set_takeWhileD [of y "\<lambda>z. z \<noteq> x" xs])
    (metis in_set_conv_decomp set_rev set_takeWhileD list.set_intros(1))+

lemma alists_ok_remove: "alists_ok a \<Longrightarrow> alists_ok (a_remove x a)"
  unfolding alists_ok_def [of "a_remove x a"]
proof (intro allI conjI)
  fix l assume ok: "alists_ok a"
  show "distinct (content (a_remove x a) l)"
    using alists_okD(1) [OF ok] by (simp add: content_remove [OF ok])
  show "(acontainer (a_remove x a) y = Some l) = (y \<in> set (content (a_remove x a) l))" for y
    using alists_okD(2) [OF ok] by (simp add: content_remove [OF ok])
  show "cursor (a_remove x a) l = Some y \<longrightarrow> y \<in> set (content (a_remove x a) l)" for y
  proof
    assume c: "cursor (a_remove x a) l = Some y"
    show "y \<in> set (content (a_remove x a) l)"
    proof (cases "cursor a l = Some x")
      case True
      then have "acontainer a x = Some l" using alists_okD(2,3) [OF ok] by blast
      with True c have "cursor_before x (content a l) = Some y" by (simp add: a_remove_def)
      then show ?thesis using cursor_before_mem by (fastforce simp: content_remove [OF ok])
    next
      case False
      with c have "cursor a l = Some y" by (simp add: a_remove_def split: option.splits if_splits)
      with False show ?thesis using alists_okD(3) [OF ok] by (auto simp: content_remove [OF ok])
    qed
  qed
qed

lemma acontainer_insert_end [simp]: "acontainer (a_insert_end l x a) = (acontainer a)(x := Some l)"
  and avalue_insert_end [simp]: "avalue (a_insert_end l x a) = avalue a"
  and content_insert_end_other: "m \<noteq> l \<Longrightarrow> content (a_insert_end l x a) m = content a m"
  by (simp_all add: a_insert_end_def)

lemma acontainer_insert [simp]: "acontainer (a_insert l x a) = (acontainer a)(x := Some l)"
  and avalue_insert [simp]: "avalue (a_insert l x a) = avalue a"
  and content_insert: "content (a_insert l x a) m =
        (if m = l then insert_sorted (avalue a) x (content a l) else content a m)"
  by (simp_all add: a_insert_def)

lemma set_insert_before: "set (insert_before c x xs) = insert x (set xs)"
  unfolding insert_before_def
  by (auto split: option.splits dest: set_takeWhileD set_dropWhileD)
    (metis Un_iff set_append takeWhile_dropWhile_id)

lemma distinct_insert_before:
  assumes "distinct xs" and "x \<notin> set xs"
  shows "distinct (insert_before c x xs)"
proof (cases c)
  case (Some y)
  let ?P = "\<lambda>z. z \<noteq> y"
  have "distinct (takeWhile ?P xs @ dropWhile ?P xs)" using assms(1) by simp
  then have "distinct (takeWhile ?P xs)" "distinct (dropWhile ?P xs)"
    "set (takeWhile ?P xs) \<inter> set (dropWhile ?P xs) = {}"
    by (simp_all only: distinct_append)
  moreover have "x \<notin> set (takeWhile ?P xs)" "x \<notin> set (dropWhile ?P xs)"
    using assms(2) by (auto dest: set_takeWhileD set_dropWhileD)
  ultimately show ?thesis using Some by (simp add: insert_before_def)
qed (use assms in \<open>simp add: insert_before_def\<close>)

lemma alists_ok_add:
  assumes ok: "alists_ok a" and x: "acontainer a x = None"
    and xs: "set xs = insert x (set (content a l))" "distinct xs"
  shows "alists_ok (a\<lparr>content := (content a)(l := xs), acontainer := (acontainer a)(x := Some l)\<rparr>)"
proof -
  have "x \<notin> set (content a m)" for m using x by (simp add: alists_ok_mem [OF ok])
  then show ?thesis
    using alists_okD [OF ok] xs by (auto simp: alists_ok_def)
qed

lemma alists_ok_insert_end:
  assumes "alists_ok a" and "acontainer a x = None"
  shows "alists_ok (a_insert_end l x a)"
  unfolding a_insert_end_def
  by (rule alists_ok_add [OF assms set_insert_before distinct_insert_before])
    (use assms in \<open>simp_all add: alists_okD(1) alists_ok_mem\<close>)

lemma alists_ok_insert:
  assumes "alists_ok a" and "acontainer a x = None"
  shows "alists_ok (a_insert l x a)"
  unfolding a_insert_def
  by (rule alists_ok_add [OF assms set_insert_sorted distinct_insert_sorted])
    (use assms in \<open>simp_all add: alists_okD(1) alists_ok_mem\<close>)

lemma alists_ok_value: "alists_ok a \<Longrightarrow> alists_ok (a\<lparr>avalue := f\<rparr>)"
  by (simp add: alists_ok_def)

lemma a_next_simps [simp]:
  "content (snd (a_next l a)) = content a" "avalue (snd (a_next l a)) = avalue a"
  "acontainer (snd (a_next l a)) = acontainer a"
  by (simp_all add: a_next_def Let_def)

lemma walk_from_mem:
  assumes "xs \<noteq> []"
  shows "\<exists>x\<in>set xs. walk_from c xs = Some x"
proof -
  obtain z zs where xs: "xs = z # zs" using assms by (cases xs) auto
  define r where "r = (case c of None \<Rightarrow> xs | Some y \<Rightarrow> tl (dropWhile (\<lambda>z. z \<noteq> y) xs))"
  have w: "walk_from c xs = (case r of x # _ \<Rightarrow> Some x | [] \<Rightarrow> Some z)"
    unfolding walk_from_def r_def xs by (cases c) (simp_all split: list.split)
  have m: "x \<in> set xs" if "r = x # ys" for x ys
    using that by (cases c) (auto simp: r_def dest: tl_dropWhile_mem)
  show ?thesis
  proof (cases r)
    case Nil
    with w xs show ?thesis by simp
  next
    case (Cons x ys)
    with w m show ?thesis by simp
  qed
qed

lemma a_next_mem: "content a l \<noteq> [] \<Longrightarrow> \<exists>x\<in>set (content a l). fst (a_next l a) = Some x"
  using walk_from_mem [of "content a l" "cursor a l"] by (simp add: a_next_def Let_def)

lemma alists_ok_next:
  assumes "alists_ok a"
  shows "alists_ok (snd (a_next l a))"
proof -
  have "walk_from (cursor a l) (content a l) = Some y \<Longrightarrow> y \<in> set (content a l)" for y
    using walk_from_mem [of "content a l" "cursor a l"]
    by (cases "content a l = []") (auto simp: walk_from_def split: option.splits)
  then show ?thesis
    using assms by (auto simp: alists_ok_def a_next_def Let_def)
qed

lemma sorted_filter_map: "sorted (map f xs) \<Longrightarrow> sorted (map f (filter P xs))"
  for f :: "'a \<Rightarrow> 'b::linorder"
  by (rule sorted_filter)

lemma sorted_map_cong:
  "(\<And>x. x \<in> set xs \<Longrightarrow> f x = g x) \<Longrightarrow> sorted (map f xs) \<longleftrightarrow> sorted (map g xs)"
  by (metis map_cong)

end
