(* ===== verification/Tasks.thy ===== *)
theory Tasks
  imports List_Spec
begin

text \<open>
  The scheduler of \<open>tasks.c\<close>: the task control blocks, the task lists and the kernel variables, the
  choice of the running task, the tick, and blocking on time and on event lists.

  The lists are the abstract lists of \<open>List_Refine\<close>, whose operations \<open>a_insert\<close>, \<open>a_insert_end\<close>,
  \<open>a_remove\<close> and \<open>a_next\<close> the functions of \<open>list.c\<close> are proved to implement. Every task has two
  items, \<open>xStateListItem\<close> and \<open>xEventListItem\<close>. A call runs up to its last yield: in the POSIX port
  \<open>portYIELD\<close> calls \<open>vTaskSwitchContext\<close> and hands over to the thread of the task selected, so a yield
  is modelled as that call. Critical sections make each function one step.
\<close>

section \<open>Data\<close>

type_synonym task = nat

datatype tlist =
    Ready nat \<comment> \<open>\<open>pxReadyTasksLists[ n ]\<close>\<close>
  | xDelayedTaskList1 | xDelayedTaskList2 | xPendingReadyList
  | xTasksWaitingTermination | xSuspendedTaskList
  | EventList nat \<comment> \<open>a list of a queue, event group or timer queue\<close>

datatype titem = StateItem task | EventItem task

fun item_owner :: "titem \<Rightarrow> task" where
  "item_owner (StateItem t) = t"
| "item_owner (EventItem t) = t"

datatype notify_state =
  taskNOT_WAITING_NOTIFICATION | taskWAITING_NOTIFICATION | taskNOTIFICATION_RECEIVED

record tcb =
  uxPriority :: u32
  uxBasePriority :: u32
  uxMutexesHeld :: u32
  pcTaskName :: string
  pxStack :: nat
  pxTaskTag :: "nat option"
  ulRunTimeCounter :: u32
  ulNotifiedValue :: u32
  ucNotifyState :: notify_state
  ucDelayAborted :: bool

record kernel =
  klists :: "(titem, tlist) alists"
  tcbs :: "task \<Rightarrow> tcb"
  pxCurrentTCB :: "task option"
  pxDelayedTaskList :: tlist
  pxOverflowDelayedTaskList :: tlist
  uxDeletedTasksWaitingCleanUp :: u32
  uxCurrentNumberOfTasks :: u32
  xTickCount :: tick
  uxTopReadyPriority :: u32
  xSchedulerRunning :: bool
  uxPendedTicks :: u32
  xYieldPending :: bool
  xNumOfOverflows :: u32
  uxTaskNumber :: u32
  xNextTaskUnblockTime :: tick
  uxSchedulerSuspended :: u32
  ulTaskSwitchedInTime :: u32
  ulTotalRunTime :: u32
  ulPortTimerValue :: u32 \<comment> \<open>what \<open>portGET_RUN_TIME_COUNTER_VALUE()\<close> reads next\<close>

definition configMAX_PRIORITIES :: u32 where "configMAX_PRIORITIES = 10"
definition tskIDLE_PRIORITY :: u32 where "tskIDLE_PRIORITY = 0"
definition configMAX_TASK_NAME_LEN :: nat where "configMAX_TASK_NAME_LEN = 16"
definition taskEVENT_LIST_ITEM_VALUE_IN_USE :: tick where
  "taskEVENT_LIST_ITEM_VALUE_IN_USE = 0x80000000"

section \<open>Access to the lists and the control blocks\<close>

text \<open>
  The items removed are on a list, which the callers see to (they test the container, or the invariant
  of the scheduler says so); of an item on no list, where the code would follow a null pointer,
  \<open>a_remove\<close> says nothing changes.
\<close>

definition uxListRemove_k :: "titem \<Rightarrow> kernel \<Rightarrow> kernel" where
  "uxListRemove_k x k = k\<lparr>klists := a_remove x (klists k)\<rparr>"

definition vListInsertEnd_k :: "tlist \<Rightarrow> titem \<Rightarrow> kernel \<Rightarrow> kernel" where
  "vListInsertEnd_k l x k = k\<lparr>klists := a_insert_end l x (klists k)\<rparr>"

definition vListInsert_k :: "tlist \<Rightarrow> titem \<Rightarrow> kernel \<Rightarrow> kernel" where
  "vListInsert_k l x k = k\<lparr>klists := a_insert l x (klists k)\<rparr>"

definition listSET_LIST_ITEM_VALUE :: "titem \<Rightarrow> tick \<Rightarrow> kernel \<Rightarrow> kernel" where
  "listSET_LIST_ITEM_VALUE x v k = k\<lparr>klists := (klists k)\<lparr>avalue := (avalue (klists k))(x := v)\<rparr>\<rparr>"

abbreviation listGET_LIST_ITEM_VALUE :: "kernel \<Rightarrow> titem \<Rightarrow> tick" where
  "listGET_LIST_ITEM_VALUE k x \<equiv> avalue (klists k) x"

abbreviation listLIST_ITEM_CONTAINER :: "kernel \<Rightarrow> titem \<Rightarrow> tlist option" where
  "listLIST_ITEM_CONTAINER k x \<equiv> acontainer (klists k) x"

abbreviation list_items :: "kernel \<Rightarrow> tlist \<Rightarrow> titem list" where
  "list_items k l \<equiv> content (klists k) l"

text \<open>\<open>listGET_OWNER_OF_HEAD_ENTRY\<close>, called on lists that are not empty.\<close>

definition listGET_OWNER_OF_HEAD_ENTRY :: "kernel \<Rightarrow> tlist \<Rightarrow> task" where
  "listGET_OWNER_OF_HEAD_ENTRY k l = item_owner (hd (list_items k l))"

definition update_tcb :: "task \<Rightarrow> (tcb \<Rightarrow> tcb) \<Rightarrow> kernel \<Rightarrow> kernel" where
  "update_tcb t f k = k\<lparr>tcbs := (tcbs k)(t := f (tcbs k t))\<rparr>"

text \<open>The running task, once a task has been created.\<close>

abbreviation current :: "kernel \<Rightarrow> task" where
  "current k \<equiv> the (pxCurrentTCB k)"

abbreviation prio :: "kernel \<Rightarrow> task \<Rightarrow> u32" where
  "prio k t \<equiv> uxPriority (tcbs k t)"

definition prvGetTCBFromHandle :: "task option \<Rightarrow> kernel \<Rightarrow> task" where
  "prvGetTCBFromHandle pxHandle k = (case pxHandle of None \<Rightarrow> current k | Some t \<Rightarrow> t)"

section \<open>Choosing the running task\<close>

definition taskRECORD_READY_PRIORITY :: "u32 \<Rightarrow> kernel \<Rightarrow> kernel" where
  "taskRECORD_READY_PRIORITY p k =
     (if p > uxTopReadyPriority k then k\<lparr>uxTopReadyPriority := p\<rparr> else k)"

definition prvAddTaskToReadyList :: "task \<Rightarrow> kernel \<Rightarrow> kernel" where
  "prvAddTaskToReadyList t k =
     (let k1 = taskRECORD_READY_PRIORITY (prio k t) k
      in vListInsertEnd_k (Ready (unat (prio k1 t))) (StateItem t) k1)"

text \<open>The search loop of \<open>taskSELECT_HIGHEST_PRIORITY_TASK\<close>; \<open>None\<close> is its failing assertion.\<close>

fun top_ready :: "kernel \<Rightarrow> nat \<Rightarrow> nat option" where
  "top_ready k 0 = (if list_items k (Ready 0) = [] then None else Some 0)"
| "top_ready k (Suc p) = (if list_items k (Ready (Suc p)) = [] then top_ready k p else Some (Suc p))"

definition taskSELECT_HIGHEST_PRIORITY_TASK :: "kernel \<Rightarrow> kernel outcome" where
  "taskSELECT_HIGHEST_PRIORITY_TASK k =
     (case top_ready k (unat (uxTopReadyPriority k)) of
        None \<Rightarrow> Asserts
      | Some p \<Rightarrow>
          (let (x, a) = a_next (Ready p) (klists k)
           in Returns (k\<lparr>klists := a, pxCurrentTCB := map_option item_owner x, uxTopReadyPriority := of_nat p\<rparr>)))"

text \<open>The accounting of run time on a context switch.\<close>

definition account_run_time :: "kernel \<Rightarrow> kernel" where
  "account_run_time k =
     (let k1 = k\<lparr>ulTotalRunTime := ulPortTimerValue k\<rparr>;
          k2 = (if ulTotalRunTime k1 > ulTaskSwitchedInTime k1
                then update_tcb (current k1) (\<lambda>c. c\<lparr>ulRunTimeCounter :=
                       ulRunTimeCounter c + (ulTotalRunTime k1 - ulTaskSwitchedInTime k1)\<rparr>) k1
                else k1)
      in k2\<lparr>ulTaskSwitchedInTime := ulTotalRunTime k2\<rparr>)"

definition vTaskSwitchContext :: "kernel \<Rightarrow> kernel outcome" where
  "vTaskSwitchContext k =
     (if uxSchedulerSuspended k \<noteq> 0 then Returns (k\<lparr>xYieldPending := True\<rparr>)
      else taskSELECT_HIGHEST_PRIORITY_TASK (account_run_time (k\<lparr>xYieldPending := False\<rparr>)))"

text \<open>\<open>portYIELD_WITHIN_API\<close> and \<open>taskYIELD_IF_USING_PREEMPTION\<close> (\<open>configUSE_PREEMPTION\<close> is 1).\<close>

definition portYIELD :: "kernel \<Rightarrow> kernel outcome" where
  "portYIELD k = vTaskSwitchContext k"

section \<open>The tick\<close>

definition prvResetNextTaskUnblockTime :: "kernel \<Rightarrow> kernel" where
  "prvResetNextTaskUnblockTime k =
     (if list_items k (pxDelayedTaskList k) = []
      then k\<lparr>xNextTaskUnblockTime := portMAX_DELAY\<rparr>
      else let t = listGET_OWNER_OF_HEAD_ENTRY k (pxDelayedTaskList k)
           in k\<lparr>xNextTaskUnblockTime := listGET_LIST_ITEM_VALUE k (StateItem t)\<rparr>)"

definition taskSWITCH_DELAYED_LISTS :: "kernel \<Rightarrow> kernel outcome" where
  "taskSWITCH_DELAYED_LISTS k =
     configASSERT (list_items k (pxDelayedTaskList k) = [])
       (Returns (prvResetNextTaskUnblockTime
          (k\<lparr>pxDelayedTaskList := pxOverflowDelayedTaskList k,
             pxOverflowDelayedTaskList := pxDelayedTaskList k,
             xNumOfOverflows := xNumOfOverflows k + 1\<rparr>)))"

text \<open>
  One delayed task made ready: off its delayed list, off the event list it also waits on, if any.
\<close>

definition unblock_task :: "task \<Rightarrow> kernel \<Rightarrow> kernel" where
  "unblock_task t k =
     (let k1 = uxListRemove_k (StateItem t) k;
          k2 = (if listLIST_ITEM_CONTAINER k1 (EventItem t) \<noteq> None
                then uxListRemove_k (EventItem t) k1 else k1)
      in prvAddTaskToReadyList t k2)"

text \<open>The loop of \<open>xTaskIncrementTick\<close>; \<open>sw\<close> is \<open>xSwitchRequired\<close>.\<close>

partial_function (option) unblock_loop :: "tick \<Rightarrow> bool \<Rightarrow> kernel \<Rightarrow> (bool \<times> kernel) option" where
  "unblock_loop xConstTickCount sw k =
     (if list_items k (pxDelayedTaskList k) = []
      then Some (sw, k\<lparr>xNextTaskUnblockTime := portMAX_DELAY\<rparr>)
      else let t = listGET_OWNER_OF_HEAD_ENTRY k (pxDelayedTaskList k);
               v = listGET_LIST_ITEM_VALUE k (StateItem t)
           in if xConstTickCount < v then Some (sw, k\<lparr>xNextTaskUnblockTime := v\<rparr>)
              else let k1 = unblock_task t k
                   in unblock_loop xConstTickCount (sw \<or> prio k1 t \<ge> prio k1 (current k1)) k1)"

definition xTaskIncrementTick :: "kernel \<Rightarrow> (bool \<times> kernel) outcome" where
  "xTaskIncrementTick k =
     obind
       (if uxSchedulerSuspended k = 0
        then let now = xTickCount k + 1; k1 = k\<lparr>xTickCount := now\<rparr>
             in obind (if now = 0 then taskSWITCH_DELAYED_LISTS k1 else Returns k1) (\<lambda>k2.
                obind (if now \<ge> xNextTaskUnblockTime k2 then oreturns (unblock_loop now False k2)
                       else Returns (False, k2)) (\<lambda>(sw, k3).
                Returns (sw \<or> length (list_items k3 (Ready (unat (prio k3 (current k3))))) > 1, k3)))
        else Returns (False, k\<lparr>uxPendedTicks := uxPendedTicks k + 1\<rparr>))
       (\<lambda>(sw, k4). Returns (sw \<or> xYieldPending k4, k4))"

definition vTaskSuspendAll :: "kernel \<Rightarrow> kernel" where
  "vTaskSuspendAll k = k\<lparr>uxSchedulerSuspended := uxSchedulerSuspended k + 1\<rparr>"

text \<open>
  The loops of \<open>xTaskResumeAll\<close>: readying the tasks that interrupts readied meanwhile (the flag says
  whether there was one) and processing the \<open>n\<close> pended ticks.
\<close>

partial_function (option) ready_pending :: "bool \<Rightarrow> kernel \<Rightarrow> (bool \<times> kernel) option" where
  "ready_pending any k =
     (if list_items k xPendingReadyList = [] then Some (any, k)
      else let t = listGET_OWNER_OF_HEAD_ENTRY k xPendingReadyList;
               k1 = prvAddTaskToReadyList t (uxListRemove_k (StateItem t) (uxListRemove_k (EventItem t) k));
               k2 = (if prio k1 t \<ge> prio k1 (current k1) then k1\<lparr>xYieldPending := True\<rparr> else k1)
           in ready_pending True k2)"

fun pended_ticks :: "nat \<Rightarrow> kernel \<Rightarrow> kernel outcome" where
  "pended_ticks 0 k = Returns k"
| "pended_ticks (Suc n) k =
     obind (xTaskIncrementTick k)
       (\<lambda>(sw, k1). pended_ticks n (if sw then k1\<lparr>xYieldPending := True\<rparr> else k1))"

definition xTaskResumeAll :: "kernel \<Rightarrow> (bool \<times> kernel) outcome" where
  "xTaskResumeAll k =
     configASSERT (uxSchedulerSuspended k \<noteq> 0)
       (let k1 = k\<lparr>uxSchedulerSuspended := uxSchedulerSuspended k - 1\<rparr>
        in if uxSchedulerSuspended k1 = 0 \<and> uxCurrentNumberOfTasks k1 > 0
           then obind (oreturns (ready_pending False k1)) (\<lambda>(any, k2).
                let k3 = (if any then prvResetNextTaskUnblockTime k2 else k2)
                in obind (if uxPendedTicks k3 > 0
                          then obind (pended_ticks (unat (uxPendedTicks k3)) k3)
                                 (\<lambda>k4. Returns (k4\<lparr>uxPendedTicks := 0\<rparr>))
                          else Returns k3) (\<lambda>k5.
                if xYieldPending k5 then obind (portYIELD k5) (\<lambda>k6. Returns (True, k6))
                else Returns (False, k5)))
           else Returns (False, k1))"

section \<open>Blocking for a time\<close>

definition prvAddCurrentTaskToDelayedList :: "tick \<Rightarrow> bool \<Rightarrow> kernel \<Rightarrow> kernel" where
  "prvAddCurrentTaskToDelayedList xTicksToWait xCanBlockIndefinitely k =
     (let t = current k; now = xTickCount k;
          k1 = update_tcb t (\<lambda>c. c\<lparr>ucDelayAborted := False\<rparr>) k;
          k2 = uxListRemove_k (StateItem t) k1
      in if xTicksToWait = portMAX_DELAY \<and> xCanBlockIndefinitely
         then vListInsertEnd_k xSuspendedTaskList (StateItem t) k2
         else let wake = now + xTicksToWait;
                  k3 = listSET_LIST_ITEM_VALUE (StateItem t) wake k2
              in if wake < now then vListInsert_k (pxOverflowDelayedTaskList k3) (StateItem t) k3
                 else let k4 = vListInsert_k (pxDelayedTaskList k3) (StateItem t) k3
                      in if wake < xNextTaskUnblockTime k4 then k4\<lparr>xNextTaskUnblockTime := wake\<rparr> else k4)"

definition vTaskDelay :: "tick \<Rightarrow> kernel \<Rightarrow> kernel outcome" where
  "vTaskDelay xTicksToDelay k =
     obind (if xTicksToDelay > 0
            then configASSERT (uxSchedulerSuspended k = 0)
                   (xTaskResumeAll (prvAddCurrentTaskToDelayedList xTicksToDelay False (vTaskSuspendAll k)))
            else Returns (False, k))
       (\<lambda>(already, k1). if \<not> already then portYIELD k1 else Returns k1)"

text \<open>\<open>vTaskDelayUntil\<close>: whether to delay, and the call; it returns the new \<open>*pxPreviousWakeTime\<close>.\<close>

definition xShouldDelay :: "tick \<Rightarrow> tick \<Rightarrow> tick \<Rightarrow> bool" where
  "xShouldDelay xPreviousWakeTime xTimeToWake xConstTickCount =
     (if xConstTickCount < xPreviousWakeTime
      then xTimeToWake < xPreviousWakeTime \<and> xTimeToWake > xConstTickCount
      else xTimeToWake < xPreviousWakeTime \<or> xTimeToWake > xConstTickCount)"

definition vTaskDelayUntil :: "tick \<Rightarrow> tick \<Rightarrow> kernel \<Rightarrow> (tick \<times> kernel) outcome" where
  "vTaskDelayUntil xPreviousWakeTime xTimeIncrement k =
     configASSERT (xTimeIncrement > 0) (configASSERT (uxSchedulerSuspended k = 0)
       (let k1 = vTaskSuspendAll k;
            now = xTickCount k1;
            wake = xPreviousWakeTime + xTimeIncrement;
            k2 = (if xShouldDelay xPreviousWakeTime wake now
                  then prvAddCurrentTaskToDelayedList (wake - now) False k1 else k1)
        in obind (xTaskResumeAll k2) (\<lambda>(already, k3).
           obind (if \<not> already then portYIELD k3 else Returns k3) (\<lambda>k4. Returns (wake, k4)))))"

section \<open>Blocking on event lists\<close>

definition vTaskPlaceOnEventList :: "nat \<Rightarrow> tick \<Rightarrow> kernel \<Rightarrow> kernel" where
  "vTaskPlaceOnEventList e xTicksToWait k =
     prvAddCurrentTaskToDelayedList xTicksToWait True
       (vListInsert_k (EventList e) (EventItem (current k)) k)"

definition vTaskPlaceOnUnorderedEventList :: "nat \<Rightarrow> tick \<Rightarrow> tick \<Rightarrow> kernel \<Rightarrow> kernel outcome" where
  "vTaskPlaceOnUnorderedEventList e xItemVal xTicksToWait k =
     configASSERT (uxSchedulerSuspended k \<noteq> 0)
       (let k1 = listSET_LIST_ITEM_VALUE (EventItem (current k))
                   (xItemVal OR taskEVENT_LIST_ITEM_VALUE_IN_USE) k;
            k2 = vListInsertEnd_k (EventList e) (EventItem (current k1)) k1
        in Returns (prvAddCurrentTaskToDelayedList xTicksToWait True k2))"

definition vTaskPlaceOnEventListRestricted :: "nat \<Rightarrow> tick \<Rightarrow> bool \<Rightarrow> kernel \<Rightarrow> kernel" where
  "vTaskPlaceOnEventListRestricted e xTicksToWait xWaitIndefinitely k =
     (let k1 = vListInsertEnd_k (EventList e) (EventItem (current k)) k
      in prvAddCurrentTaskToDelayedList
           (if xWaitIndefinitely then portMAX_DELAY else xTicksToWait) xWaitIndefinitely k1)"

definition xTaskRemoveFromEventList :: "nat \<Rightarrow> kernel \<Rightarrow> bool \<times> kernel" where
  "xTaskRemoveFromEventList e k =
     (let t = listGET_OWNER_OF_HEAD_ENTRY k (EventList e);
          k1 = uxListRemove_k (EventItem t) k;
          k2 = (if uxSchedulerSuspended k1 = 0
                then prvAddTaskToReadyList t (uxListRemove_k (StateItem t) k1)
                else vListInsertEnd_k xPendingReadyList (EventItem t) k1)
      in if prio k2 t > prio k2 (current k2) then (True, k2\<lparr>xYieldPending := True\<rparr>) else (False, k2))"

definition vTaskRemoveFromUnorderedEventList :: "task \<Rightarrow> tick \<Rightarrow> kernel \<Rightarrow> kernel outcome" where
  "vTaskRemoveFromUnorderedEventList t xItemVal k =
     configASSERT (uxSchedulerSuspended k \<noteq> 0)
       (let k1 = listSET_LIST_ITEM_VALUE (EventItem t) (xItemVal OR taskEVENT_LIST_ITEM_VALUE_IN_USE) k;
            k2 = uxListRemove_k (StateItem t) (uxListRemove_k (EventItem t) k1);
            k3 = prvAddTaskToReadyList t k2
        in Returns (if prio k3 t > prio k3 (current k3) then k3\<lparr>xYieldPending := True\<rparr> else k3))"

definition uxTaskResetEventItemValue :: "kernel \<Rightarrow> tick \<times> kernel" where
  "uxTaskResetEventItemValue k =
     (listGET_LIST_ITEM_VALUE k (EventItem (current k)),
      listSET_LIST_ITEM_VALUE (EventItem (current k)) (configMAX_PRIORITIES - prio k (current k)) k)"

definition vTaskMissedYield :: "kernel \<Rightarrow> kernel" where
  "vTaskMissedYield k = k\<lparr>xYieldPending := True\<rparr>"

section \<open>Time-outs\<close>

record TimeOut_t =
  xOverflowCount :: u32
  xTimeOnEntering :: tick

definition vTaskInternalSetTimeOutState :: "kernel \<Rightarrow> TimeOut_t" where
  "vTaskInternalSetTimeOutState k =
     \<lparr>xOverflowCount = xNumOfOverflows k, xTimeOnEntering = xTickCount k\<rparr>"

definition vTaskSetTimeOutState :: "kernel \<Rightarrow> TimeOut_t" where
  "vTaskSetTimeOutState k =
     \<lparr>xOverflowCount = xNumOfOverflows k, xTimeOnEntering = xTickCount k\<rparr>"

definition xTaskCheckForTimeOut :: "TimeOut_t \<Rightarrow> tick \<Rightarrow> kernel \<Rightarrow> bool \<times> TimeOut_t \<times> tick \<times> kernel" where
  "xTaskCheckForTimeOut tmo wait k =
     (let now = xTickCount k; elapsed = now - xTimeOnEntering tmo
      in if ucDelayAborted (tcbs k (current k))
         then (True, tmo, wait, update_tcb (current k) (\<lambda>c. c\<lparr>ucDelayAborted := False\<rparr>) k)
         else if wait = portMAX_DELAY then (False, tmo, wait, k)
         else if xNumOfOverflows k \<noteq> xOverflowCount tmo \<and> now \<ge> xTimeOnEntering tmo
         then (True, tmo, wait, k)
         else if elapsed < wait
         then (False, vTaskInternalSetTimeOutState k, wait - elapsed, k)
         else (True, tmo, 0, k))"

end
