(* ===== verification/Tasks_Control.thy ===== *)
theory Tasks_Control
  imports Tasks
begin

text \<open>
  The rest of \<open>tasks.c\<close> that works on existing tasks: their state and priority, suspending and
  resuming, aborting a delay, priority inheritance for the mutexes of \<open>queue.c\<close>, and the direct to
  task notifications. \<open>None\<close> as a task handle is the \<open>NULL\<close> handle.
\<close>

section \<open>Queries\<close>

datatype eTaskState = eRunning | eReady | eBlocked | eSuspended | eDeleted

definition eTaskGetState :: "task \<Rightarrow> kernel \<Rightarrow> eTaskState" where
  "eTaskGetState t k =
     (if pxCurrentTCB k = Some t then eRunning
      else let l = listLIST_ITEM_CONTAINER k (StateItem t)
           in if l = Some (pxDelayedTaskList k) \<or> l = Some (pxOverflowDelayedTaskList k) then eBlocked
              else if l = Some xSuspendedTaskList
              then (if listLIST_ITEM_CONTAINER k (EventItem t) = None then eSuspended else eBlocked)
              else if l = Some xTasksWaitingTermination \<or> l = None then eDeleted
              else eReady)"

definition uxTaskPriorityGet :: "task option \<Rightarrow> kernel \<Rightarrow> u32" where
  "uxTaskPriorityGet h k = prio k (prvGetTCBFromHandle h k)"

definition uxTaskPriorityGetFromISR :: "task option \<Rightarrow> kernel \<Rightarrow> u32" where
  "uxTaskPriorityGetFromISR h k = prio k (prvGetTCBFromHandle h k)"

definition xTaskGetTickCount :: "kernel \<Rightarrow> tick" where "xTaskGetTickCount k = xTickCount k"
definition xTaskGetTickCountFromISR :: "kernel \<Rightarrow> tick" where "xTaskGetTickCountFromISR k = xTickCount k"
definition uxTaskGetNumberOfTasks :: "kernel \<Rightarrow> u32" where
  "uxTaskGetNumberOfTasks k = uxCurrentNumberOfTasks k"
definition pcTaskGetName :: "task option \<Rightarrow> kernel \<Rightarrow> string" where
  "pcTaskGetName h k = pcTaskName (tcbs k (prvGetTCBFromHandle h k))"
definition xTaskGetCurrentTaskHandle :: "kernel \<Rightarrow> task option" where
  "xTaskGetCurrentTaskHandle k = pxCurrentTCB k"

datatype scheduler_state = taskSCHEDULER_NOT_STARTED | taskSCHEDULER_RUNNING | taskSCHEDULER_SUSPENDED

definition xTaskGetSchedulerState :: "kernel \<Rightarrow> scheduler_state" where
  "xTaskGetSchedulerState k =
     (if \<not> xSchedulerRunning k then taskSCHEDULER_NOT_STARTED
      else if uxSchedulerSuspended k = 0 then taskSCHEDULER_RUNNING else taskSCHEDULER_SUSPENDED)"

definition vTaskSetApplicationTaskTag :: "task option \<Rightarrow> nat option \<Rightarrow> kernel \<Rightarrow> kernel" where
  "vTaskSetApplicationTaskTag h f k = update_tcb (prvGetTCBFromHandle h k) (\<lambda>c. c\<lparr>pxTaskTag := f\<rparr>) k"

definition xTaskGetApplicationTaskTag :: "task option \<Rightarrow> kernel \<Rightarrow> nat option" where
  "xTaskGetApplicationTaskTag h k = pxTaskTag (tcbs k (prvGetTCBFromHandle h k))"

section \<open>Priorities\<close>

text \<open>Set the event item's value, unless the item is in use by an event group.\<close>

definition set_event_priority :: "task \<Rightarrow> u32 \<Rightarrow> kernel \<Rightarrow> kernel" where
  "set_event_priority t p k =
     (if listGET_LIST_ITEM_VALUE k (EventItem t) AND taskEVENT_LIST_ITEM_VALUE_IN_USE = 0
      then listSET_LIST_ITEM_VALUE (EventItem t) (configMAX_PRIORITIES - p) k else k)"

text \<open>Move a task that is on the ready list of its former priority to that of its present one.\<close>

definition requeue_if_ready :: "u32 \<Rightarrow> task \<Rightarrow> kernel \<Rightarrow> kernel" where
  "requeue_if_ready former t k =
     (if listLIST_ITEM_CONTAINER k (StateItem t) = Some (Ready (unat former))
      then prvAddTaskToReadyList t (uxListRemove_k (StateItem t) k) else k)"

definition vTaskPrioritySet :: "task option \<Rightarrow> u32 \<Rightarrow> kernel \<Rightarrow> kernel outcome" where
  "vTaskPrioritySet h uxNewPriority k =
     configASSERT (uxNewPriority < configMAX_PRIORITIES)
       (let t = prvGetTCBFromHandle h k;
            base = uxBasePriority (tcbs k t)
        in if base \<noteq> uxNewPriority
           then let yield =
                      (if uxNewPriority > base
                       then Some t \<noteq> pxCurrentTCB k \<and> uxNewPriority \<ge> prio k (current k)
                       else Some t = pxCurrentTCB k);
                    entry = prio k t;
                    k1 = (if base = entry then update_tcb t (\<lambda>c. c\<lparr>uxPriority := uxNewPriority\<rparr>) k else k);
                    k2 = update_tcb t (\<lambda>c. c\<lparr>uxBasePriority := uxNewPriority\<rparr>) k1;
                    k3 = requeue_if_ready entry t (set_event_priority t uxNewPriority k2)
                in if yield then portYIELD k3 else Returns k3
           else Returns k)"

definition xTaskPriorityInherit :: "task option \<Rightarrow> kernel \<Rightarrow> bool \<times> kernel" where
  "xTaskPriorityInherit pxMutexHolder k =
     (case pxMutexHolder of None \<Rightarrow> (False, k)
      | Some t \<Rightarrow>
          (let p = prio k (current k)
           in if prio k t < p
              then let k1 = set_event_priority t p k
                   in (True,
                       if listLIST_ITEM_CONTAINER k1 (StateItem t) = Some (Ready (unat (prio k1 t)))
                       then prvAddTaskToReadyList t
                              (update_tcb t (\<lambda>c. c\<lparr>uxPriority := p\<rparr>) (uxListRemove_k (StateItem t) k1))
                       else update_tcb t (\<lambda>c. c\<lparr>uxPriority := p\<rparr>) k1)
              else (uxBasePriority (tcbs k t) < p, k)))"

definition xTaskPriorityDisinherit :: "task option \<Rightarrow> kernel \<Rightarrow> (bool \<times> kernel) outcome" where
  "xTaskPriorityDisinherit pxMutexHolder k =
     (case pxMutexHolder of None \<Rightarrow> Returns (False, k)
      | Some t \<Rightarrow>
          configASSERT (Some t = pxCurrentTCB k) (configASSERT (uxMutexesHeld (tcbs k t) \<noteq> 0)
            (let k1 = update_tcb t (\<lambda>c. c\<lparr>uxMutexesHeld := uxMutexesHeld c - 1\<rparr>) k
             in if prio k1 t \<noteq> uxBasePriority (tcbs k1 t) \<and> uxMutexesHeld (tcbs k1 t) = 0
                then let k2 = uxListRemove_k (StateItem t) k1;
                         k3 = update_tcb t (\<lambda>c. c\<lparr>uxPriority := uxBasePriority c\<rparr>) k2;
                         k4 = listSET_LIST_ITEM_VALUE (EventItem t) (configMAX_PRIORITIES - prio k3 t) k3
                     in Returns (True, prvAddTaskToReadyList t k4)
                else Returns (False, k1))))"

definition vTaskPriorityDisinheritAfterTimeout :: "task option \<Rightarrow> u32 \<Rightarrow> kernel \<Rightarrow> kernel outcome" where
  "vTaskPriorityDisinheritAfterTimeout pxMutexHolder uxHighestPriorityWaitingTask k =
     (case pxMutexHolder of None \<Rightarrow> Returns k
      | Some t \<Rightarrow>
          configASSERT (uxMutexesHeld (tcbs k t) \<noteq> 0)
            (let p = (if uxBasePriority (tcbs k t) < uxHighestPriorityWaitingTask
                      then uxHighestPriorityWaitingTask else uxBasePriority (tcbs k t))
             in if prio k t \<noteq> p \<and> uxMutexesHeld (tcbs k t) = 1
                then configASSERT (Some t \<noteq> pxCurrentTCB k)
                       (let entry = prio k t;
                            k1 = update_tcb t (\<lambda>c. c\<lparr>uxPriority := p\<rparr>) k
                        in Returns (requeue_if_ready entry t (set_event_priority t p k1)))
                else Returns k))"

definition pvTaskIncrementMutexHeldCount :: "kernel \<Rightarrow> task option \<times> kernel" where
  "pvTaskIncrementMutexHeldCount k =
     (pxCurrentTCB k,
      case pxCurrentTCB k of None \<Rightarrow> k
      | Some t \<Rightarrow> update_tcb t (\<lambda>c. c\<lparr>uxMutexesHeld := uxMutexesHeld c + 1\<rparr>) k)"

section \<open>Suspending, resuming and aborting a delay\<close>

definition vTaskSuspend :: "task option \<Rightarrow> kernel \<Rightarrow> kernel outcome" where
  "vTaskSuspend h k =
     (let t = prvGetTCBFromHandle h k;
          k1 = uxListRemove_k (StateItem t) k;
          k2 = (if listLIST_ITEM_CONTAINER k1 (EventItem t) \<noteq> None
                then uxListRemove_k (EventItem t) k1 else k1);
          k3 = vListInsertEnd_k xSuspendedTaskList (StateItem t) k2;
          k4 = (if ucNotifyState (tcbs k3 t) = taskWAITING_NOTIFICATION
                then update_tcb t (\<lambda>c. c\<lparr>ucNotifyState := taskNOT_WAITING_NOTIFICATION\<rparr>) k3 else k3);
          k5 = (if xSchedulerRunning k4 then prvResetNextTaskUnblockTime k4 else k4)
      in if Some t = pxCurrentTCB k5
         then (if xSchedulerRunning k5
               then configASSERT (uxSchedulerSuspended k5 = 0) (portYIELD k5)
               else if of_nat (length (list_items k5 xSuspendedTaskList)) = uxCurrentNumberOfTasks k5
               then Returns (k5\<lparr>pxCurrentTCB := None\<rparr>)
               else vTaskSwitchContext k5)
         else Returns k5)"

definition prvTaskIsTaskSuspended :: "task \<Rightarrow> kernel \<Rightarrow> bool" where
  "prvTaskIsTaskSuspended t k \<longleftrightarrow>
     listLIST_ITEM_CONTAINER k (StateItem t) = Some xSuspendedTaskList
     \<and> listLIST_ITEM_CONTAINER k (EventItem t) \<noteq> Some xPendingReadyList
     \<and> listLIST_ITEM_CONTAINER k (EventItem t) = None"

definition vTaskResume :: "task option \<Rightarrow> kernel \<Rightarrow> kernel outcome" where
  "vTaskResume h k =
     (case h of None \<Rightarrow> Asserts
      | Some t \<Rightarrow>
          if Some t \<noteq> pxCurrentTCB k \<and> prvTaskIsTaskSuspended t k
          then let k1 = prvAddTaskToReadyList t (uxListRemove_k (StateItem t) k)
               in if prio k1 t \<ge> prio k1 (current k1) then portYIELD k1 else Returns k1
          else Returns k)"

definition xTaskResumeFromISR :: "task option \<Rightarrow> kernel \<Rightarrow> (bool \<times> kernel) outcome" where
  "xTaskResumeFromISR h k =
     (case h of None \<Rightarrow> Asserts
      | Some t \<Rightarrow>
          if prvTaskIsTaskSuspended t k
          then if uxSchedulerSuspended k = 0
               then Returns (prio k t \<ge> prio k (current k),
                             prvAddTaskToReadyList t (uxListRemove_k (StateItem t) k))
               else Returns (False, vListInsertEnd_k xPendingReadyList (EventItem t) k)
          else Returns (False, k))"

definition xTaskAbortDelay :: "task option \<Rightarrow> kernel \<Rightarrow> (bool \<times> kernel) outcome" where
  "xTaskAbortDelay h k =
     (case h of None \<Rightarrow> Asserts
      | Some t \<Rightarrow>
          (let k1 = vTaskSuspendAll k;
               (r, k2) =
                 (if eTaskGetState t k1 = eBlocked
                  then let k3 = uxListRemove_k (StateItem t) k1;
                           k4 = (if listLIST_ITEM_CONTAINER k3 (EventItem t) \<noteq> None
                                 then update_tcb t (\<lambda>c. c\<lparr>ucDelayAborted := True\<rparr>)
                                        (uxListRemove_k (EventItem t) k3)
                                 else k3);
                           k5 = prvAddTaskToReadyList t k4
                       in (True, if prio k5 t > prio k5 (current k5) then k5\<lparr>xYieldPending := True\<rparr> else k5)
                  else (False, k1))
           in obind (xTaskResumeAll k2) (\<lambda>(already, k6). Returns (r, k6))))"

section \<open>Notifications\<close>

datatype eNotifyAction =
  eNoAction | eSetBits | eIncrement | eSetValueWithOverwrite | eSetValueWithoutOverwrite

text \<open>The \<open>switch\<close> on the action: the result and the new value, from the state before.\<close>

fun notify_action :: "eNotifyAction \<Rightarrow> u32 \<Rightarrow> notify_state \<Rightarrow> u32 \<Rightarrow> bool \<times> u32" where
  "notify_action eSetBits ulValue original v = (True, v OR ulValue)"
| "notify_action eIncrement ulValue original v = (True, v + 1)"
| "notify_action eSetValueWithOverwrite ulValue original v = (True, ulValue)"
| "notify_action eSetValueWithoutOverwrite ulValue original v =
     (if original \<noteq> taskNOTIFICATION_RECEIVED then (True, ulValue) else (False, v))"
| "notify_action eNoAction ulValue original v = (True, v)"

text \<open>Record the notification: state received, value updated; returns the former state as well.\<close>

definition post_notification ::
  "task \<Rightarrow> u32 \<Rightarrow> eNotifyAction \<Rightarrow> kernel \<Rightarrow> bool \<times> u32 \<times> notify_state \<times> kernel" where
  "post_notification t ulValue eAction k =
     (let previous = ulNotifiedValue (tcbs k t);
          original = ucNotifyState (tcbs k t);
          (ok, v) = notify_action eAction ulValue original previous
      in (ok, previous, original,
          update_tcb t (\<lambda>c. c\<lparr>ucNotifyState := taskNOTIFICATION_RECEIVED, ulNotifiedValue := v\<rparr>) k))"

definition xTaskGenericNotify ::
  "task option \<Rightarrow> u32 \<Rightarrow> eNotifyAction \<Rightarrow> kernel \<Rightarrow> (bool \<times> u32 \<times> kernel) outcome" where
  "xTaskGenericNotify h ulValue eAction k =
     (case h of None \<Rightarrow> Asserts
      | Some t \<Rightarrow>
          (let (ok, previous, original, k1) = post_notification t ulValue eAction k
           in obind
                (if original = taskWAITING_NOTIFICATION
                 then let k2 = prvAddTaskToReadyList t (uxListRemove_k (StateItem t) k1)
                      in configASSERT (listLIST_ITEM_CONTAINER k2 (EventItem t) = None)
                           (if prio k2 t > prio k2 (current k2) then portYIELD k2 else Returns k2)
                 else Returns k1)
                (\<lambda>k3. Returns (ok, previous, k3))))"

text \<open>
  The part the two interrupt versions share: ready a waiting task, or leave it pending while the
  scheduler is suspended; \<open>woken\<close> is \<open>pxHigherPriorityTaskWoken\<close>, \<open>None\<close> for a null pointer.
\<close>

definition ready_from_isr :: "task \<Rightarrow> bool option \<Rightarrow> kernel \<Rightarrow> (bool option \<times> kernel) outcome" where
  "ready_from_isr t woken k =
     configASSERT (listLIST_ITEM_CONTAINER k (EventItem t) = None)
       (let k1 = (if uxSchedulerSuspended k = 0
                  then prvAddTaskToReadyList t (uxListRemove_k (StateItem t) k)
                  else vListInsertEnd_k xPendingReadyList (EventItem t) k)
        in Returns
             (if prio k1 t > prio k1 (current k1)
              then (case woken of Some w \<Rightarrow> (Some True, k1) | None \<Rightarrow> (None, k1\<lparr>xYieldPending := True\<rparr>))
              else (woken, k1)))"

definition xTaskGenericNotifyFromISR ::
  "task option \<Rightarrow> u32 \<Rightarrow> eNotifyAction \<Rightarrow> bool option \<Rightarrow> kernel
     \<Rightarrow> (bool \<times> u32 \<times> bool option \<times> kernel) outcome" where
  "xTaskGenericNotifyFromISR h ulValue eAction woken k =
     (case h of None \<Rightarrow> Asserts
      | Some t \<Rightarrow>
          (let (ok, previous, original, k1) = post_notification t ulValue eAction k
           in obind (if original = taskWAITING_NOTIFICATION then ready_from_isr t woken k1
                     else Returns (woken, k1))
                (\<lambda>(w, k2). Returns (ok, previous, w, k2))))"

definition vTaskNotifyGiveFromISR :: "task option \<Rightarrow> bool option \<Rightarrow> kernel \<Rightarrow> (bool option \<times> kernel) outcome" where
  "vTaskNotifyGiveFromISR h woken k =
     (case h of None \<Rightarrow> Asserts
      | Some t \<Rightarrow>
          (let original = ucNotifyState (tcbs k t);
               k1 = update_tcb t (\<lambda>c. c\<lparr>ucNotifyState := taskNOTIFICATION_RECEIVED,
                                         ulNotifiedValue := ulNotifiedValue c + 1\<rparr>) k
           in if original = taskWAITING_NOTIFICATION then ready_from_isr t woken k1
              else Returns (woken, k1)))"

text \<open>
  A wait has two critical sections with a yield between them: the first blocks the task, the second
  runs when it is scheduled again (at once, when it did not block). The flag says whether it blocked.
\<close>

definition ulTaskNotifyTake_block :: "tick \<Rightarrow> kernel \<Rightarrow> (bool \<times> kernel) outcome" where
  "ulTaskNotifyTake_block xTicksToWait k =
     (if ulNotifiedValue (tcbs k (current k)) = 0
      then let k1 = update_tcb (current k) (\<lambda>c. c\<lparr>ucNotifyState := taskWAITING_NOTIFICATION\<rparr>) k
           in if xTicksToWait > 0
              then obind (portYIELD (prvAddCurrentTaskToDelayedList xTicksToWait True k1))
                     (\<lambda>k2. Returns (True, k2))
              else Returns (False, k1)
      else Returns (False, k))"

definition ulTaskNotifyTake_finish :: "bool \<Rightarrow> kernel \<Rightarrow> u32 \<times> kernel" where
  "ulTaskNotifyTake_finish xClearCountOnExit k =
     (let r = ulNotifiedValue (tcbs k (current k));
          k1 = (if r \<noteq> 0
                then update_tcb (current k) (\<lambda>c. c\<lparr>ulNotifiedValue := if xClearCountOnExit then 0 else r - 1\<rparr>) k
                else k)
      in (r, update_tcb (current k1) (\<lambda>c. c\<lparr>ucNotifyState := taskNOT_WAITING_NOTIFICATION\<rparr>) k1))"

definition xTaskNotifyWait_block :: "u32 \<Rightarrow> tick \<Rightarrow> kernel \<Rightarrow> (bool \<times> kernel) outcome" where
  "xTaskNotifyWait_block ulBitsToClearOnEntry xTicksToWait k =
     (if ucNotifyState (tcbs k (current k)) \<noteq> taskNOTIFICATION_RECEIVED
      then let k1 = update_tcb (current k)
                      (\<lambda>c. c\<lparr>ulNotifiedValue := ulNotifiedValue c AND NOT ulBitsToClearOnEntry,
                             ucNotifyState := taskWAITING_NOTIFICATION\<rparr>) k
           in if xTicksToWait > 0
              then obind (portYIELD (prvAddCurrentTaskToDelayedList xTicksToWait True k1))
                     (\<lambda>k2. Returns (True, k2))
              else Returns (False, k1)
      else Returns (False, k))"

definition xTaskNotifyWait_finish :: "u32 \<Rightarrow> kernel \<Rightarrow> bool \<times> u32 \<times> kernel" where
  "xTaskNotifyWait_finish ulBitsToClearOnExit k =
     (let c = tcbs k (current k);
          (r, k1) = (if ucNotifyState c \<noteq> taskNOTIFICATION_RECEIVED then (False, k)
                     else (True, update_tcb (current k)
                             (\<lambda>c. c\<lparr>ulNotifiedValue := ulNotifiedValue c AND NOT ulBitsToClearOnExit\<rparr>) k))
      in (r, ulNotifiedValue c,
          update_tcb (current k1) (\<lambda>c. c\<lparr>ucNotifyState := taskNOT_WAITING_NOTIFICATION\<rparr>) k1))"

definition xTaskNotifyStateClear :: "task option \<Rightarrow> kernel \<Rightarrow> bool \<times> kernel" where
  "xTaskNotifyStateClear h k =
     (let t = prvGetTCBFromHandle h k
      in if ucNotifyState (tcbs k t) = taskNOTIFICATION_RECEIVED
         then (True, update_tcb t (\<lambda>c. c\<lparr>ucNotifyState := taskNOT_WAITING_NOTIFICATION\<rparr>) k)
         else (False, k))"

end
