(* ===== verification/Tasks_Inv.thy ===== *)
theory Tasks_Inv
  imports Tasks_Control List_Effects
begin

text \<open>
  The invariant of the scheduler's state and how the elementary changes of \<open>tasks.c\<close> keep it: taking
  an item off its list, readying a task, delaying it, putting it on an event list, changing fields of a
  control block. \<open>L\<close> are the tasks whose state item is on a list, \<open>T\<close> the tasks that exist; between
  two calls \<open>L = T\<close>, inside a call a task may be off its list. The flag \<open>s\<close> is false inside a tick
  only, when the tasks due at this tick are still delayed.
\<close>

section \<open>The invariant\<close>

abbreviation sl :: "kernel \<Rightarrow> task \<Rightarrow> tlist option" where
  "sl k t \<equiv> listLIST_ITEM_CONTAINER k (StateItem t)"

abbreviation el :: "kernel \<Rightarrow> task \<Rightarrow> tlist option" where
  "el k t \<equiv> listLIST_ITEM_CONTAINER k (EventItem t)"

abbreviation dval :: "kernel \<Rightarrow> task \<Rightarrow> tick" where
  "dval k t \<equiv> listGET_LIST_ITEM_VALUE k (StateItem t)"

fun state_list :: "tlist \<Rightarrow> bool" where
  "state_list xPendingReadyList = False"
| "state_list (EventList e) = False"
| "state_list l = True"

definition placed :: "task set \<Rightarrow> task set \<Rightarrow> kernel \<Rightarrow> bool" where
  "placed L T k \<longleftrightarrow> alists_ok (klists k)
     \<and> (\<forall>t. sl k t \<noteq> None \<longleftrightarrow> t \<in> L)
     \<and> (\<forall>t l. sl k t = Some l \<longrightarrow> state_list l)
     \<and> (\<forall>t l. el k t = Some l \<longrightarrow> t \<in> T \<and> \<not> state_list l)"

definition prio_ok :: "task set \<Rightarrow> kernel \<Rightarrow> bool" where
  "prio_ok T k \<longleftrightarrow> uxTopReadyPriority k < configMAX_PRIORITIES
     \<and> (\<forall>t\<in>T. prio k t < configMAX_PRIORITIES \<and> uxBasePriority (tcbs k t) < configMAX_PRIORITIES)"

definition ready_ok :: "kernel \<Rightarrow> bool" where
  "ready_ok k \<longleftrightarrow>
     (\<forall>t p. sl k t = Some (Ready p) \<longrightarrow> p = unat (prio k t) \<and> p \<le> unat (uxTopReadyPriority k))"

definition two_delayed_lists :: "kernel \<Rightarrow> bool" where
  "two_delayed_lists k \<longleftrightarrow>
     pxDelayedTaskList k = xDelayedTaskList1 \<and> pxOverflowDelayedTaskList k = xDelayedTaskList2
   \<or> pxDelayedTaskList k = xDelayedTaskList2 \<and> pxOverflowDelayedTaskList k = xDelayedTaskList1"

definition value_sorted :: "kernel \<Rightarrow> tlist \<Rightarrow> bool" where
  "value_sorted k l \<longleftrightarrow> sorted (map (avalue (klists k)) (list_items k l))"

text \<open>
  Delayed tasks wake up in the future: those on the current list before the tick count wraps, not
  before \<open>xNextTaskUnblockTime\<close>; those on the overflow list after it has wrapped.
\<close>

definition delay_ok :: "bool \<Rightarrow> kernel \<Rightarrow> bool" where
  "delay_ok s k \<longleftrightarrow> two_delayed_lists k
     \<and> value_sorted k xDelayedTaskList1 \<and> value_sorted k xDelayedTaskList2
     \<and> (\<forall>t. sl k t = Some (pxDelayedTaskList k) \<longrightarrow>
            (if s then xTickCount k < dval k t else xTickCount k \<le> dval k t) \<and> xNextTaskUnblockTime k \<le> dval k t)
     \<and> (\<forall>t. sl k t = Some (pxOverflowDelayedTaskList k) \<longrightarrow> dval k t \<le> xTickCount k)"

definition kinv :: "bool \<Rightarrow> task set \<Rightarrow> task set \<Rightarrow> kernel \<Rightarrow> bool" where
  "kinv s L T k \<longleftrightarrow> placed L T k \<and> prio_ok T k \<and> ready_ok k \<and> delay_ok s k"

lemma kinv_parts:
  assumes "kinv s L T k"
  shows "placed L T k" and "prio_ok T k" and "ready_ok k" and "delay_ok s k"
  using assms by (auto simp: kinv_def)

lemma placedD:
  assumes "placed L T k"
  shows "alists_ok (klists k)" and "sl k t = None \<longleftrightarrow> t \<notin> L" and "sl k t = Some l \<Longrightarrow> state_list l"
    and "el k t = Some l \<Longrightarrow> t \<in> T" and "el k t = Some l \<Longrightarrow> \<not> state_list l"
  using assms unfolding placed_def by blast+

lemma kinv_ok: "kinv s L T k \<Longrightarrow> alists_ok (klists k)"
  by (simp add: kinv_def placed_def)

lemma kinv_sl_None: "kinv s L T k \<Longrightarrow> sl k t = None \<longleftrightarrow> t \<notin> L"
  using placedD(2) [OF kinv_parts(1)] .

lemma two_delayed_listsD:
  assumes "two_delayed_lists k"
  shows "pxDelayedTaskList k \<noteq> pxOverflowDelayedTaskList k"
    and "state_list (pxDelayedTaskList k)" and "state_list (pxOverflowDelayedTaskList k)"
    and "pxDelayedTaskList k \<noteq> Ready p" and "pxOverflowDelayedTaskList k \<noteq> Ready p"
    and "pxDelayedTaskList k \<noteq> xSuspendedTaskList" and "pxOverflowDelayedTaskList k \<noteq> xSuspendedTaskList"
    and "pxDelayedTaskList k \<noteq> xTasksWaitingTermination"
    and "pxOverflowDelayedTaskList k \<noteq> xTasksWaitingTermination"
    and "pxDelayedTaskList k \<noteq> EventList e" and "pxOverflowDelayedTaskList k \<noteq> EventList e"
    and "pxDelayedTaskList k \<noteq> xPendingReadyList" and "pxOverflowDelayedTaskList k \<noteq> xPendingReadyList"
  using assms by (auto simp: two_delayed_lists_def)

lemma kinv_two: "kinv s L T k \<Longrightarrow> two_delayed_lists k"
  by (simp add: kinv_def delay_ok_def)

lemma state_listed_item:
  assumes "placed L T k" and "state_list l" and "x \<in> set (list_items k l)"
  shows "\<exists>t. x = StateItem t \<and> sl k t = Some l"
proof -
  have "acontainer (klists k) x = Some l"
    using assms(3) alists_ok_mem [OF placedD(1) [OF assms(1)]] by simp
  then show ?thesis using placedD(5) [OF assms(1)] assms(2) by (cases x) auto
qed

lemma event_listed_item:
  assumes "placed L T k" and "\<not> state_list l" and "x \<in> set (list_items k l)"
  shows "\<exists>t\<in>T. x = EventItem t \<and> el k t = Some l"
proof -
  have "acontainer (klists k) x = Some l"
    using assms(3) alists_ok_mem [OF placedD(1) [OF assms(1)]] by simp
  then show ?thesis using placedD(3,4) [OF assms(1)] assms(2) by (cases x) auto
qed

section \<open>Definitions of the elementary changes, unfolded\<close>

lemmas prim_defs = uxListRemove_k_def vListInsertEnd_k_def vListInsert_k_def
  listSET_LIST_ITEM_VALUE_def update_tcb_def taskRECORD_READY_PRIORITY_def

lemma prim_frame [simp]:
  "tcbs (uxListRemove_k x k) = tcbs k" "tcbs (vListInsertEnd_k l x k) = tcbs k"
  "tcbs (vListInsert_k l x k) = tcbs k" "tcbs (listSET_LIST_ITEM_VALUE x v k) = tcbs k"
  "pxCurrentTCB (uxListRemove_k x k) = pxCurrentTCB k" "pxCurrentTCB (vListInsertEnd_k l x k) = pxCurrentTCB k"
  "pxCurrentTCB (vListInsert_k l x k) = pxCurrentTCB k"
  "pxCurrentTCB (listSET_LIST_ITEM_VALUE x v k) = pxCurrentTCB k"
  "pxCurrentTCB (update_tcb t f k) = pxCurrentTCB k"
  "klists (update_tcb t f k) = klists k"
  "tcbs (update_tcb t f k) = (tcbs k)(t := f (tcbs k t))"
  "pxDelayedTaskList (uxListRemove_k x k) = pxDelayedTaskList k"
  "pxDelayedTaskList (vListInsertEnd_k l x k) = pxDelayedTaskList k"
  "pxDelayedTaskList (vListInsert_k l x k) = pxDelayedTaskList k"
  "pxDelayedTaskList (listSET_LIST_ITEM_VALUE x v k) = pxDelayedTaskList k"
  "pxDelayedTaskList (update_tcb t f k) = pxDelayedTaskList k"
  "pxOverflowDelayedTaskList (uxListRemove_k x k) = pxOverflowDelayedTaskList k"
  "pxOverflowDelayedTaskList (vListInsertEnd_k l x k) = pxOverflowDelayedTaskList k"
  "pxOverflowDelayedTaskList (vListInsert_k l x k) = pxOverflowDelayedTaskList k"
  "pxOverflowDelayedTaskList (listSET_LIST_ITEM_VALUE x v k) = pxOverflowDelayedTaskList k"
  "pxOverflowDelayedTaskList (update_tcb t f k) = pxOverflowDelayedTaskList k"
  "xTickCount (uxListRemove_k x k) = xTickCount k" "xTickCount (vListInsertEnd_k l x k) = xTickCount k"
  "xTickCount (vListInsert_k l x k) = xTickCount k" "xTickCount (listSET_LIST_ITEM_VALUE x v k) = xTickCount k"
  "xTickCount (update_tcb t f k) = xTickCount k"
  "xNextTaskUnblockTime (uxListRemove_k x k) = xNextTaskUnblockTime k"
  "xNextTaskUnblockTime (vListInsertEnd_k l x k) = xNextTaskUnblockTime k"
  "xNextTaskUnblockTime (vListInsert_k l x k) = xNextTaskUnblockTime k"
  "xNextTaskUnblockTime (listSET_LIST_ITEM_VALUE x v k) = xNextTaskUnblockTime k"
  "xNextTaskUnblockTime (update_tcb t f k) = xNextTaskUnblockTime k"
  "uxTopReadyPriority (uxListRemove_k x k) = uxTopReadyPriority k"
  "uxTopReadyPriority (vListInsertEnd_k l x k) = uxTopReadyPriority k"
  "uxTopReadyPriority (vListInsert_k l x k) = uxTopReadyPriority k"
  "uxTopReadyPriority (listSET_LIST_ITEM_VALUE x v k) = uxTopReadyPriority k"
  "uxTopReadyPriority (update_tcb t f k) = uxTopReadyPriority k"
  "uxSchedulerSuspended (uxListRemove_k x k) = uxSchedulerSuspended k"
  "uxSchedulerSuspended (vListInsertEnd_k l x k) = uxSchedulerSuspended k"
  "uxSchedulerSuspended (vListInsert_k l x k) = uxSchedulerSuspended k"
  "uxSchedulerSuspended (listSET_LIST_ITEM_VALUE x v k) = uxSchedulerSuspended k"
  "uxSchedulerSuspended (update_tcb t f k) = uxSchedulerSuspended k"
  "xYieldPending (uxListRemove_k x k) = xYieldPending k"
  "xYieldPending (vListInsertEnd_k l x k) = xYieldPending k"
  "xYieldPending (vListInsert_k l x k) = xYieldPending k"
  "xYieldPending (listSET_LIST_ITEM_VALUE x v k) = xYieldPending k"
  "xYieldPending (update_tcb t f k) = xYieldPending k"
  "xNumOfOverflows (uxListRemove_k x k) = xNumOfOverflows k"
  "xNumOfOverflows (vListInsertEnd_k l x k) = xNumOfOverflows k"
  "xNumOfOverflows (vListInsert_k l x k) = xNumOfOverflows k"
  "xNumOfOverflows (listSET_LIST_ITEM_VALUE x v k) = xNumOfOverflows k"
  "xNumOfOverflows (update_tcb t f k) = xNumOfOverflows k"
  "xSchedulerRunning (uxListRemove_k x k) = xSchedulerRunning k"
  "xSchedulerRunning (vListInsertEnd_k l x k) = xSchedulerRunning k"
  "xSchedulerRunning (vListInsert_k l x k) = xSchedulerRunning k"
  "xSchedulerRunning (listSET_LIST_ITEM_VALUE x v k) = xSchedulerRunning k"
  "xSchedulerRunning (update_tcb t f k) = xSchedulerRunning k"
  "uxCurrentNumberOfTasks (uxListRemove_k x k) = uxCurrentNumberOfTasks k"
  "uxCurrentNumberOfTasks (vListInsertEnd_k l x k) = uxCurrentNumberOfTasks k"
  "uxCurrentNumberOfTasks (vListInsert_k l x k) = uxCurrentNumberOfTasks k"
  "uxCurrentNumberOfTasks (listSET_LIST_ITEM_VALUE x v k) = uxCurrentNumberOfTasks k"
  "uxCurrentNumberOfTasks (update_tcb t f k) = uxCurrentNumberOfTasks k"
  "uxPendedTicks (uxListRemove_k x k) = uxPendedTicks k"
  "uxPendedTicks (vListInsertEnd_k l x k) = uxPendedTicks k"
  "uxPendedTicks (vListInsert_k l x k) = uxPendedTicks k"
  "uxPendedTicks (listSET_LIST_ITEM_VALUE x v k) = uxPendedTicks k"
  "uxPendedTicks (update_tcb t f k) = uxPendedTicks k"
  by (simp_all add: prim_defs)

lemma prim_containers [simp]:
  "acontainer (klists (uxListRemove_k x k)) = (acontainer (klists k))(x := None)"
  "acontainer (klists (vListInsertEnd_k l x k)) = (acontainer (klists k))(x := Some l)"
  "acontainer (klists (vListInsert_k l x k)) = (acontainer (klists k))(x := Some l)"
  "acontainer (klists (listSET_LIST_ITEM_VALUE x v k)) = acontainer (klists k)"
  "avalue (klists (uxListRemove_k x k)) = avalue (klists k)"
  "avalue (klists (vListInsertEnd_k l x k)) = avalue (klists k)"
  "avalue (klists (vListInsert_k l x k)) = avalue (klists k)"
  "avalue (klists (listSET_LIST_ITEM_VALUE x v k)) = (avalue (klists k))(x := v)"
  "content (klists (listSET_LIST_ITEM_VALUE x v k)) = content (klists k)"
  by (simp_all add: prim_defs)

lemma add_ready_frame [simp]:
  "tcbs (prvAddTaskToReadyList t k) = tcbs k"
  "pxCurrentTCB (prvAddTaskToReadyList t k) = pxCurrentTCB k"
  "pxDelayedTaskList (prvAddTaskToReadyList t k) = pxDelayedTaskList k"
  "pxOverflowDelayedTaskList (prvAddTaskToReadyList t k) = pxOverflowDelayedTaskList k"
  "xTickCount (prvAddTaskToReadyList t k) = xTickCount k"
  "xNextTaskUnblockTime (prvAddTaskToReadyList t k) = xNextTaskUnblockTime k"
  "uxSchedulerSuspended (prvAddTaskToReadyList t k) = uxSchedulerSuspended k"
  "xYieldPending (prvAddTaskToReadyList t k) = xYieldPending k"
  "xNumOfOverflows (prvAddTaskToReadyList t k) = xNumOfOverflows k"
  "xSchedulerRunning (prvAddTaskToReadyList t k) = xSchedulerRunning k"
  "uxCurrentNumberOfTasks (prvAddTaskToReadyList t k) = uxCurrentNumberOfTasks k"
  "uxPendedTicks (prvAddTaskToReadyList t k) = uxPendedTicks k"
  "acontainer (klists (prvAddTaskToReadyList t k)) =
     (acontainer (klists k))(StateItem t := Some (Ready (unat (prio k t))))"
  "avalue (klists (prvAddTaskToReadyList t k)) = avalue (klists k)"
  "uxTopReadyPriority (prvAddTaskToReadyList t k) = max (uxTopReadyPriority k) (prio k t)"
  by (auto simp: prvAddTaskToReadyList_def prim_defs Let_def max_def not_less not_le)

section \<open>Sortedness of the delayed lists\<close>

lemma value_sorted_remove:
  "alists_ok (klists k) \<Longrightarrow> value_sorted k l \<Longrightarrow> value_sorted (uxListRemove_k x k) l"
  by (simp add: value_sorted_def uxListRemove_k_def content_remove sorted_filter_map)

lemma value_sorted_insert_end:
  "m \<noteq> l \<Longrightarrow> value_sorted k l \<Longrightarrow> value_sorted (vListInsertEnd_k m x k) l"
  by (simp add: value_sorted_def vListInsertEnd_k_def content_insert_end_other)

lemma value_sorted_insert: "value_sorted k l \<Longrightarrow> value_sorted (vListInsert_k m x k) l"
  by (auto simp: value_sorted_def vListInsert_k_def content_insert intro: sorted_insert_sorted)

lemma value_sorted_set:
  assumes "alists_ok (klists k)" and "acontainer (klists k) x \<noteq> Some l" and "value_sorted k l"
  shows "value_sorted (listSET_LIST_ITEM_VALUE x v k) l"
proof -
  have "x \<notin> set (list_items k l)" using assms(2) alists_ok_mem [OF assms(1)] by simp
  then have "map (avalue (klists (listSET_LIST_ITEM_VALUE x v k))) (list_items k l) =
      map (avalue (klists k)) (list_items k l)" by auto
  then show ?thesis using assms(3) by (simp add: value_sorted_def del: map_eq_conv)
qed

lemma value_sorted_lists: "klists k' = klists k \<Longrightarrow> value_sorted k' l = value_sorted k l"
  by (simp add: value_sorted_def)

lemma value_sorted_add_ready:
  "(\<And>p. l \<noteq> Ready p) \<Longrightarrow> value_sorted k l \<Longrightarrow> value_sorted (prvAddTaskToReadyList t k) l"
  unfolding prvAddTaskToReadyList_def Let_def
  by (rule value_sorted_insert_end) (auto simp: value_sorted_def taskRECORD_READY_PRIORITY_def)

section \<open>Elementary changes keep the invariant\<close>

text \<open>A change of fields the invariant does not look at.\<close>

lemma kinv_cong:
  assumes "kinv s L T k" and "klists k' = klists k" and "uxTopReadyPriority k' = uxTopReadyPriority k"
    and "\<And>t. prio k' t = prio k t" and "\<And>t. uxBasePriority (tcbs k' t) = uxBasePriority (tcbs k t)"
    and "pxDelayedTaskList k' = pxDelayedTaskList k"
    and "pxOverflowDelayedTaskList k' = pxOverflowDelayedTaskList k"
    and "xTickCount k' = xTickCount k" and "xNextTaskUnblockTime k' = xNextTaskUnblockTime k"
  shows "kinv s L T k'"
  using assms(1) unfolding kinv_def placed_def prio_ok_def ready_ok_def delay_ok_def
    two_delayed_lists_def value_sorted_def assms(2-) by simp

lemma kinv_remove_state [inv_intros]:
  assumes "kinv s L T k"
  shows "kinv s (L - {t}) T (uxListRemove_k (StateItem t) k)"
proof -
  note p = kinv_parts [OF assms]
  have "placed (L - {t}) T (uxListRemove_k (StateItem t) k)"
    using p(1) alists_ok_remove unfolding placed_def uxListRemove_k_def by auto
  moreover have "prio_ok T (uxListRemove_k (StateItem t) k)" using p(2) by (simp add: prio_ok_def)
  moreover have "ready_ok (uxListRemove_k (StateItem t) k)" using p(3) by (simp add: ready_ok_def)
  moreover have "delay_ok s (uxListRemove_k (StateItem t) k)"
    using p(4) value_sorted_remove [OF kinv_ok [OF assms]]
    by (simp add: delay_ok_def two_delayed_lists_def)
  ultimately show ?thesis by (simp add: kinv_def)
qed

lemma kinv_remove_event [inv_intros]:
  assumes "kinv s L T k"
  shows "kinv s L T (uxListRemove_k (EventItem t) k)"
proof -
  note p = kinv_parts [OF assms]
  have "placed L T (uxListRemove_k (EventItem t) k)"
    using p(1) alists_ok_remove unfolding placed_def uxListRemove_k_def by auto
  moreover have "prio_ok T (uxListRemove_k (EventItem t) k)" using p(2) by (simp add: prio_ok_def)
  moreover have "ready_ok (uxListRemove_k (EventItem t) k)" using p(3) by (simp add: ready_ok_def)
  moreover have "delay_ok s (uxListRemove_k (EventItem t) k)"
    using p(4) value_sorted_remove [OF kinv_ok [OF assms]]
    by (simp add: delay_ok_def two_delayed_lists_def)
  ultimately show ?thesis by (simp add: kinv_def)
qed

lemma placed_insert_state:
  assumes "placed L T k" and "t \<notin> L" and "state_list l"
    and "klists k' = a_insert_end l (StateItem t) (klists k) \<or> klists k' = a_insert l (StateItem t) (klists k)"
  shows "placed (insert t L) T k'"
proof -
  have "sl k t = None" using placedD(2) [OF assms(1)] assms(2) by simp
  then have "alists_ok (klists k')" "acontainer (klists k') = (acontainer (klists k))(StateItem t := Some l)"
    using assms(4) alists_ok_insert alists_ok_insert_end placedD(1) [OF assms(1)] by auto
  then show ?thesis using assms(1,3) by (auto simp: placed_def)
qed

lemma kinv_add_ready [inv_intros]:
  assumes "kinv s L T k" and "t \<in> T" and "t \<notin> L"
  shows "kinv s (insert t L) T (prvAddTaskToReadyList t k)"
proof -
  note p = kinv_parts [OF assms(1)]
  let ?k = "prvAddTaskToReadyList t k"
  have "placed (insert t L) T ?k"
    by (rule placed_insert_state [OF p(1) assms(3), of "Ready (unat (prio k t))"])
      (auto simp: prvAddTaskToReadyList_def prim_defs Let_def)
  moreover have "prio_ok T ?k" using p(2) assms(2) by (simp add: prio_ok_def)
  moreover have "ready_ok ?k"
    using p(3) unfolding ready_ok_def by (auto simp: max_def word_le_nat_alt dest: order.trans)
  moreover have "delay_ok s ?k"
    using p(4) value_sorted_add_ready [of xDelayedTaskList1] value_sorted_add_ready [of xDelayedTaskList2]
    by (auto simp: delay_ok_def two_delayed_lists_def)
  ultimately show ?thesis by (simp add: kinv_def)
qed

lemma kinv_insert_end_state [inv_intros]:
  assumes "kinv s L T k" and "t \<notin> L" and "l \<in> {xSuspendedTaskList, xTasksWaitingTermination}"
  shows "kinv s (insert t L) T (vListInsertEnd_k l (StateItem t) k)"
proof -
  note p = kinv_parts [OF assms(1)]
  let ?k = "vListInsertEnd_k l (StateItem t) k"
  have "placed (insert t L) T ?k"
    by (rule placed_insert_state [OF p(1) assms(2), of l])
      (use assms(3) in \<open>auto simp: prim_defs\<close>)
  moreover have "prio_ok T ?k" using p(2) by (simp add: prio_ok_def)
  moreover have "ready_ok ?k" using p(3) assms(3) unfolding ready_ok_def by auto
  moreover have "delay_ok s ?k"
    using p(4) value_sorted_insert_end [of l] two_delayed_listsD(6-9) [OF kinv_two [OF assms(1)]] assms(3)
    by (auto simp: delay_ok_def two_delayed_lists_def)
  ultimately show ?thesis by (simp add: kinv_def)
qed

lemma placed_insert_event:
  assumes "placed L T k" and "t \<in> T" and "el k t = None" and "\<not> state_list l"
    and "klists k' = a_insert_end l (EventItem t) (klists k) \<or> klists k' = a_insert l (EventItem t) (klists k)"
  shows "placed L T k'"
proof -
  have "alists_ok (klists k')" "acontainer (klists k') = (acontainer (klists k))(EventItem t := Some l)"
    using assms(3,5) alists_ok_insert alists_ok_insert_end placedD(1) [OF assms(1)] by auto
  then show ?thesis using assms(1,2,4) by (auto simp: placed_def)
qed

lemma kinv_insert_end_event [inv_intros]:
  assumes "kinv s L T k" and "t \<in> T" and "el k t = None" and "\<not> state_list l"
  shows "kinv s L T (vListInsertEnd_k l (EventItem t) k)"
proof -
  note p = kinv_parts [OF assms(1)]
  let ?k = "vListInsertEnd_k l (EventItem t) k"
  have "placed L T ?k"
    by (rule placed_insert_event [OF p(1) assms(2,3,4)]) (simp add: prim_defs)
  moreover have "prio_ok T ?k" using p(2) by (simp add: prio_ok_def)
  moreover have "ready_ok ?k" using p(3) unfolding ready_ok_def by auto
  moreover have "delay_ok s ?k"
    using p(4) value_sorted_insert_end [of l xDelayedTaskList1] value_sorted_insert_end [of l xDelayedTaskList2] assms(4)
    by (cases l) (auto simp: delay_ok_def two_delayed_lists_def)
  ultimately show ?thesis by (simp add: kinv_def)
qed

lemma kinv_insert_event [inv_intros]:
  assumes "kinv s L T k" and "t \<in> T" and "el k t = None" and "\<not> state_list l"
  shows "kinv s L T (vListInsert_k l (EventItem t) k)"
proof -
  note p = kinv_parts [OF assms(1)]
  let ?k = "vListInsert_k l (EventItem t) k"
  have "placed L T ?k"
    by (rule placed_insert_event [OF p(1) assms(2,3,4)]) (simp add: prim_defs)
  moreover have "prio_ok T ?k" using p(2) by (simp add: prio_ok_def)
  moreover have "ready_ok ?k" using p(3) unfolding ready_ok_def by auto
  moreover have "delay_ok s ?k"
    using p(4) value_sorted_insert [of k] by (auto simp: delay_ok_def two_delayed_lists_def)
  ultimately show ?thesis by (simp add: kinv_def)
qed

lemma kinv_set_event_value [inv_intros]:
  assumes "kinv s L T k"
  shows "kinv s L T (listSET_LIST_ITEM_VALUE (EventItem t) v k)"
proof -
  note p = kinv_parts [OF assms]
  let ?k = "listSET_LIST_ITEM_VALUE (EventItem t) v k"
  have "placed L T ?k" using p(1)
    unfolding placed_def listSET_LIST_ITEM_VALUE_def by (simp add: alists_ok_value)
  moreover have "prio_ok T ?k" using p(2) by (simp add: prio_ok_def)
  moreover have "ready_ok ?k" using p(3) unfolding ready_ok_def by auto
  moreover have "el k t \<noteq> Some xDelayedTaskList1" "el k t \<noteq> Some xDelayedTaskList2"
    using placedD(5) [OF p(1), of t] by (metis state_list.simps(4), metis state_list.simps(5))
  then have "delay_ok s ?k"
    using p(4) value_sorted_set [OF kinv_ok [OF assms]] by (auto simp: delay_ok_def two_delayed_lists_def)
  ultimately show ?thesis by (simp add: kinv_def)
qed

lemma kinv_next_unblock [inv_intros]:
  assumes "kinv s L T k" and "\<And>t. sl k t = Some (pxDelayedTaskList k) \<Longrightarrow> n \<le> dval k t"
  shows "kinv s L T (k\<lparr>xNextTaskUnblockTime := n\<rparr>)"
  using assms unfolding kinv_def placed_def prio_ok_def ready_ok_def delay_ok_def
    two_delayed_lists_def value_sorted_def by simp

end
