(* ===== verification/Tasks_Steps.thy ===== *)
theory Tasks_Steps
  imports Tasks_Inv
begin

text \<open>
  The composite changes of \<open>tasks.c\<close> keep the invariant: delaying the running task, changing a
  priority, resetting the next unblock time, choosing the running task, the tick and resuming the
  scheduler. The loops of the tick and of \<open>xTaskResumeAll\<close> end, and their assertions hold.
\<close>

section \<open>Changing control blocks and values\<close>

lemma kinv_update_same [inv_intros]:
  assumes "kinv s L T k" and "\<And>c. uxPriority (f c) = uxPriority c" and "\<And>c. uxBasePriority (f c) = uxBasePriority c"
  shows "kinv s L T (update_tcb t f k)"
  by (rule kinv_cong [OF assms(1)]) (simp_all add: assms(2,3) update_tcb_def)

lemma kinv_update_prio:
  assumes "kinv s L T k" and "\<And>p. sl k t \<noteq> Some (Ready p)"
    and "uxPriority (f (tcbs k t)) < configMAX_PRIORITIES" "uxBasePriority (f (tcbs k t)) < configMAX_PRIORITIES"
  shows "kinv s L T (update_tcb t f k)"
proof -
  note p = kinv_parts [OF assms(1)]
  have "prio_ok T (update_tcb t f k)" using p(2) assms(3,4) by (simp add: prio_ok_def)
  moreover have "ready_ok (update_tcb t f k)" using p(3) assms(2) by (auto simp: ready_ok_def)
  moreover have "placed L T (update_tcb t f k)" "delay_ok s (update_tcb t f k)"
    using p by (simp_all add: placed_def delay_ok_def two_delayed_lists_def value_sorted_def)
  ultimately show ?thesis by (simp add: kinv_def)
qed

lemma kinv_set_state_value [inv_intros]:
  assumes "kinv s L T k" and "t \<notin> L"
  shows "kinv s L T (listSET_LIST_ITEM_VALUE (StateItem t) v k)"
proof -
  note p = kinv_parts [OF assms(1)]
  let ?k = "listSET_LIST_ITEM_VALUE (StateItem t) v k"
  have n: "sl k t = None" using kinv_sl_None [OF assms(1)] assms(2) by simp
  have "placed L T ?k" using p(1) unfolding placed_def listSET_LIST_ITEM_VALUE_def by (simp add: alists_ok_value)
  moreover have "prio_ok T ?k" using p(2) by (simp add: prio_ok_def)
  moreover have "ready_ok ?k" using p(3) by (simp add: ready_ok_def)
  moreover have "delay_ok s ?k"
    using p(4) value_sorted_set [OF kinv_ok [OF assms(1)]] n by (auto simp: delay_ok_def two_delayed_lists_def)
  ultimately show ?thesis by (simp add: kinv_def)
qed

lemma kinv_insert_delayed:
  assumes "kinv s L T k" and "t \<notin> L"
    and "l = pxOverflowDelayedTaskList k \<and> dval k t \<le> xTickCount k
       \<or> l = pxDelayedTaskList k \<and> xTickCount k < dval k t \<and> n \<le> dval k t \<and> n \<le> xNextTaskUnblockTime k"
    and "l = pxOverflowDelayedTaskList k \<Longrightarrow> n = xNextTaskUnblockTime k"
  shows "kinv s (insert t L) T ((vListInsert_k l (StateItem t) k)\<lparr>xNextTaskUnblockTime := n\<rparr>)"
proof -
  note p = kinv_parts [OF assms(1)] and two = two_delayed_listsD [OF kinv_two [OF assms(1)]]
  let ?k = "(vListInsert_k l (StateItem t) k)\<lparr>xNextTaskUnblockTime := n\<rparr>"
  have "state_list l" using two(2,3) assms(3) by blast
  then have "placed (insert t L) T ?k"
    by (rule placed_insert_state [OF p(1) assms(2)]) (simp add: prim_defs)
  moreover have "prio_ok T ?k" using p(2) by (simp add: prio_ok_def)
  moreover have "l \<noteq> Ready q" for q using assms(3) two(4,5) by metis
  then have "ready_ok ?k" using p(3) by (auto simp: ready_ok_def)
  moreover have "value_sorted ?k xDelayedTaskList1" "value_sorted ?k xDelayedTaskList2"
    using p(4) value_sorted_insert [of k] by (auto simp: delay_ok_def value_sorted_def)
  then have "delay_ok s ?k"
    using p(4) assms(3,4) two(1)
    unfolding delay_ok_def two_delayed_lists_def by (auto intro: order.trans)
  ultimately show ?thesis by (simp add: kinv_def)
qed

section \<open>Delaying the running task\<close>

definition delays_forever :: "tick \<Rightarrow> bool \<Rightarrow> bool" where
  "delays_forever n b \<longleftrightarrow> n = portMAX_DELAY \<and> b"

definition delay_list :: "tick \<Rightarrow> bool \<Rightarrow> kernel \<Rightarrow> tlist" where
  "delay_list n b k =
     (if delays_forever n b then xSuspendedTaskList
      else if xTickCount k + n < xTickCount k then pxOverflowDelayedTaskList k else pxDelayedTaskList k)"

lemma wake_later: "(n :: tick) \<noteq> 0 \<Longrightarrow> \<not> now + n < now \<Longrightarrow> now < now + n"
  by (metis add_cancel_right_right linorder_neqE)

lemma delay_current:
  fixes n :: tick and b :: bool
  assumes "pxCurrentTCB k = Some c"
  defines "k' \<equiv> prvAddCurrentTaskToDelayedList n b k"
  shows "acontainer (klists k') = (acontainer (klists k))(StateItem c := Some (delay_list n b k))"
    and "avalue (klists k') = (if delays_forever n b then avalue (klists k)
           else (avalue (klists k))(StateItem c := xTickCount k + n))"
    and "tcbs k' = (tcbs k)(c := (tcbs k c)\<lparr>ucDelayAborted := False\<rparr>)"
    and "pxCurrentTCB k' = Some c" "xTickCount k' = xTickCount k" "xNumOfOverflows k' = xNumOfOverflows k"
    and "uxSchedulerSuspended k' = uxSchedulerSuspended k" "xYieldPending k' = xYieldPending k"
    and "uxTopReadyPriority k' = uxTopReadyPriority k" "uxPendedTicks k' = uxPendedTicks k"
    and "pxDelayedTaskList k' = pxDelayedTaskList k"
    and "pxOverflowDelayedTaskList k' = pxOverflowDelayedTaskList k"
    and "uxCurrentNumberOfTasks k' = uxCurrentNumberOfTasks k" "xSchedulerRunning k' = xSchedulerRunning k"
  unfolding k'_def prvAddCurrentTaskToDelayedList_def Let_def delay_list_def delays_forever_def
  using assms(1) by (auto simp: prim_defs)

lemma kinv_delay_current [inv_intros]:
  assumes k: "kinv s L T k" and c: "pxCurrentTCB k = Some c" "c \<in> L" and n: "n \<noteq> 0"
  shows "kinv s L T (prvAddCurrentTaskToDelayedList n b k)"
proof -
  let ?k2 = "uxListRemove_k (StateItem c) (update_tcb c (\<lambda>d. d\<lparr>ucDelayAborted := False\<rparr>) k)"
  let ?k3 = "listSET_LIST_ITEM_VALUE (StateItem c) (xTickCount k + n) ?k2"
  have k2: "kinv s (L - {c}) T ?k2" by (intro inv_intros k) simp_all
  have k3: "kinv s (L - {c}) T ?k3" by (intro inv_intros k2) simp
  have L: "insert c (L - {c}) = L" using c(2) by auto
  consider (forever) "n = portMAX_DELAY" "b"
    | (over) "\<not> (n = portMAX_DELAY \<and> b)" "xTickCount k + n < xTickCount k"
    | (near) "\<not> (n = portMAX_DELAY \<and> b)" "\<not> xTickCount k + n < xTickCount k" by blast
  then show ?thesis
  proof cases
    case forever
    then show ?thesis
      using kinv_insert_end_state [OF k2, of c xSuspendedTaskList] c
      by (simp add: prvAddCurrentTaskToDelayedList_def Let_def insert_absorb)
  next
    case over
    let ?r = "vListInsert_k (pxOverflowDelayedTaskList ?k3) (StateItem c) ?k3"
    have "kinv s (insert c (L - {c})) T (?r\<lparr>xNextTaskUnblockTime := xNextTaskUnblockTime ?k3\<rparr>)"
      by (rule kinv_insert_delayed [OF k3]) (use over(2) in \<open>auto intro: less_imp_le\<close>)
    moreover have "?r\<lparr>xNextTaskUnblockTime := xNextTaskUnblockTime ?k3\<rparr> = ?r" by (simp add: prim_defs)
    ultimately have "kinv s L T ?r" using L by metis
    then show ?thesis using over c by (auto simp: prvAddCurrentTaskToDelayedList_def Let_def)
  next
    case near
    let ?r = "vListInsert_k (pxDelayedTaskList ?k3) (StateItem c) ?k3"
    let ?n = "if xTickCount k + n < xNextTaskUnblockTime k then xTickCount k + n else xNextTaskUnblockTime k"
    have "pxDelayedTaskList k \<noteq> pxOverflowDelayedTaskList k"
      using two_delayed_listsD(1) [OF kinv_two [OF k]] .
    then have K: "kinv s L T (?r\<lparr>xNextTaskUnblockTime := ?n\<rparr>)"
      using kinv_insert_delayed [OF k3, of c "pxDelayedTaskList ?k3" ?n] near(2) wake_later [OF n] L by auto
    have E: "?r\<lparr>xNextTaskUnblockTime := xNextTaskUnblockTime k\<rparr> = ?r" by (simp add: prim_defs)
    have "kinv s L T (if xTickCount k + n < xNextTaskUnblockTime k
        then ?r\<lparr>xNextTaskUnblockTime := xTickCount k + n\<rparr> else ?r)"
    proof (cases "xTickCount k + n < xNextTaskUnblockTime k")
      case False
      with K have "kinv s L T (?r\<lparr>xNextTaskUnblockTime := xNextTaskUnblockTime k\<rparr>)" by (simp only: if_False)
      with False show ?thesis unfolding E by (simp only: if_False)
    qed (use K in simp)
    then show ?thesis using near c by (auto simp: prvAddCurrentTaskToDelayedList_def Let_def)
  qed
qed

section \<open>Changing a priority\<close>

lemma kinv_set_event_priority [inv_intros]: "kinv s L T k \<Longrightarrow> kinv s L T (set_event_priority t p k)"
  by (simp add: set_event_priority_def kinv_set_event_value)

lemma set_event_priority_frame [simp]:
  "tcbs (set_event_priority t p k) = tcbs k" "acontainer (klists (set_event_priority t p k)) = acontainer (klists k)"
  "pxCurrentTCB (set_event_priority t p k) = pxCurrentTCB k"
  "content (klists (set_event_priority t p k)) = content (klists k)"
  "uxSchedulerSuspended (set_event_priority t p k) = uxSchedulerSuspended k"
  "xYieldPending (set_event_priority t p k) = xYieldPending k"
  "uxTopReadyPriority (set_event_priority t p k) = uxTopReadyPriority k"
  by (simp_all add: set_event_priority_def)

lemma remove_update_commute:
  "uxListRemove_k x (update_tcb t f k) = update_tcb t f (uxListRemove_k x k)"
  "uxListRemove_k x (set_event_priority t p k) = set_event_priority t p (uxListRemove_k x k)"
  by (auto simp: prim_defs set_event_priority_def a_remove_def split: option.split)

lemma ready_only_at_prio: "kinv s L T k \<Longrightarrow> sl k t = Some (Ready p) \<Longrightarrow> p = unat (prio k t)"
  by (simp add: kinv_def ready_ok_def)

text \<open>Ready a task, taking it from wherever it is.\<close>

lemma kinv_move_ready [inv_intros]:
  assumes "kinv s L T k" and "t \<in> T" and "t \<in> L"
  shows "kinv s L T (prvAddTaskToReadyList t (uxListRemove_k (StateItem t) k))"
proof -
  have "kinv s (insert t (L - {t})) T (prvAddTaskToReadyList t (uxListRemove_k (StateItem t) k))"
    by (intro inv_intros assms) simp
  with assms(3) show ?thesis by (simp add: insert_absorb)
qed

lemma kinv_reprioritise:
  assumes k: "kinv s L T k" and t: "t \<in> T" "t \<in> L"
    and f: "uxPriority (f (tcbs k t)) < configMAX_PRIORITIES" "uxBasePriority (f (tcbs k t)) < configMAX_PRIORITIES"
  shows "kinv s L T (requeue_if_ready (prio k t) t (set_event_priority t p (update_tcb t f k)))"
proof (cases "sl k t = Some (Ready (unat (prio k t)))")
  case True
  let ?k = "set_event_priority t p (update_tcb t f (uxListRemove_k (StateItem t) k))"
  have "kinv s (L - {t}) T (update_tcb t f (uxListRemove_k (StateItem t) k))"
    by (rule kinv_update_prio [OF kinv_remove_state [OF k]]) (use f in simp_all)
  then have "kinv s (L - {t}) T ?k" by (rule kinv_set_event_priority)
  then have "kinv s (insert t (L - {t})) T (prvAddTaskToReadyList t ?k)"
    by (intro kinv_add_ready t) simp_all
  with True t(2) show ?thesis
    by (simp add: requeue_if_ready_def remove_update_commute insert_absorb)
next
  case False
  have "kinv s L T (update_tcb t f k)"
    by (rule kinv_update_prio) (use k f False ready_only_at_prio [OF k, of t] in auto)
  with False show ?thesis by (simp add: requeue_if_ready_def kinv_set_event_priority)
qed

section \<open>The next unblock time\<close>

lemma delayed_head:
  assumes k: "kinv s L T k" and ne: "list_items k (pxDelayedTaskList k) \<noteq> []"
  defines "t \<equiv> listGET_OWNER_OF_HEAD_ENTRY k (pxDelayedTaskList k)"
  shows "sl k t = Some (pxDelayedTaskList k)"
    and "sl k u = Some (pxDelayedTaskList k) \<Longrightarrow> dval k t \<le> dval k u"
proof -
  obtain x xs where xs: "list_items k (pxDelayedTaskList k) = x # xs" using ne by (meson list.exhaust)
  have st: "state_list (pxDelayedTaskList k)" using two_delayed_listsD(2) [OF kinv_two [OF k]] .
  with state_listed_item [OF kinv_parts(1) [OF k] st, of x] xs have x: "x = StateItem t"
    "sl k t = Some (pxDelayedTaskList k)"
    by (auto simp: t_def listGET_OWNER_OF_HEAD_ENTRY_def)
  then show "sl k t = Some (pxDelayedTaskList k)" by simp
  have s: "value_sorted k (pxDelayedTaskList k)"
    using kinv_parts(4) [OF k] by (auto simp: delay_ok_def two_delayed_lists_def)
  assume "sl k u = Some (pxDelayedTaskList k)"
  then have "StateItem u \<in> set (x # xs)" using alists_ok_mem [OF kinv_ok [OF k]] xs by metis
  with s xs x(1) show "dval k t \<le> dval k u" by (auto simp: value_sorted_def)
qed

lemma delayed_empty:
  assumes "kinv s L T k" and "list_items k (pxDelayedTaskList k) = []"
  shows "sl k u \<noteq> Some (pxDelayedTaskList k)"
  using alists_ok_mem [OF kinv_ok [OF assms(1)], of "StateItem u" "pxDelayedTaskList k"] assms(2) by simp

lemma kinv_reset_next [inv_intros]:
  assumes "kinv s L T k"
  shows "kinv s L T (prvResetNextTaskUnblockTime k)"
  unfolding prvResetNextTaskUnblockTime_def Let_def
  using kinv_next_unblock [OF assms] delayed_head [OF assms] delayed_empty [OF assms] by auto

lemma reset_next_frame [simp]:
  "klists (prvResetNextTaskUnblockTime k) = klists k" "tcbs (prvResetNextTaskUnblockTime k) = tcbs k"
  "pxCurrentTCB (prvResetNextTaskUnblockTime k) = pxCurrentTCB k"
  "xTickCount (prvResetNextTaskUnblockTime k) = xTickCount k"
  "xNumOfOverflows (prvResetNextTaskUnblockTime k) = xNumOfOverflows k"
  "uxSchedulerSuspended (prvResetNextTaskUnblockTime k) = uxSchedulerSuspended k"
  "xYieldPending (prvResetNextTaskUnblockTime k) = xYieldPending k"
  "uxTopReadyPriority (prvResetNextTaskUnblockTime k) = uxTopReadyPriority k"
  "pxDelayedTaskList (prvResetNextTaskUnblockTime k) = pxDelayedTaskList k"
  "pxOverflowDelayedTaskList (prvResetNextTaskUnblockTime k) = pxOverflowDelayedTaskList k"
  "uxPendedTicks (prvResetNextTaskUnblockTime k) = uxPendedTicks k"
  "xSchedulerRunning (prvResetNextTaskUnblockTime k) = xSchedulerRunning k"
  "uxCurrentNumberOfTasks (prvResetNextTaskUnblockTime k) = uxCurrentNumberOfTasks k"
  by (simp_all add: prvResetNextTaskUnblockTime_def Let_def)

end
