(* ===== verification/Tasks_Tick.thy ===== *)
theory Tasks_Tick
  imports Tasks_Steps
begin

text \<open>
  The tick. Time is counted without wrapping: \<open>E\<close> counts the overflows of \<open>xTickCount\<close>, so the
  current time and the wake time of a delayed task are natural numbers. A tick advances the time by
  one and readies exactly the tasks whose wake time has come, over an overflow too; its loop ends and
  the assertion of \<open>taskSWITCH_DELAYED_LISTS\<close> holds.
\<close>

section \<open>What the tick changes\<close>

definition lists_frame :: "kernel \<Rightarrow> kernel \<Rightarrow> bool" where
  "lists_frame k k' \<longleftrightarrow>
     k' = k\<lparr>klists := klists k', uxTopReadyPriority := uxTopReadyPriority k',
           xNextTaskUnblockTime := xNextTaskUnblockTime k'\<rparr>"

lemma lists_frame_trans: "lists_frame k k' \<Longrightarrow> lists_frame k' k'' \<Longrightarrow> lists_frame k k''"
  unfolding lists_frame_def by (cases k; cases k'; cases k'') simp

lemma lists_frameD:
  assumes "lists_frame k k'"
  shows "tcbs k' = tcbs k" "pxCurrentTCB k' = pxCurrentTCB k" "xTickCount k' = xTickCount k"
    "pxDelayedTaskList k' = pxDelayedTaskList k" "pxOverflowDelayedTaskList k' = pxOverflowDelayedTaskList k"
    "uxSchedulerSuspended k' = uxSchedulerSuspended k" "xYieldPending k' = xYieldPending k"
    "xNumOfOverflows k' = xNumOfOverflows k" "uxPendedTicks k' = uxPendedTicks k"
    "xSchedulerRunning k' = xSchedulerRunning k" "uxCurrentNumberOfTasks k' = uxCurrentNumberOfTasks k"
  using assms unfolding lists_frame_def by (cases k; cases k'; simp)+

lemma lists_frame_unblock: "lists_frame k (unblock_task t k)"
  unfolding lists_frame_def unblock_task_def prvAddTaskToReadyList_def prim_defs Let_def
  by (cases k) simp

text \<open>The containers once the tasks \<open>due\<close> are ready and on no event list.\<close>

definition readied :: "(task \<Rightarrow> bool) \<Rightarrow> kernel \<Rightarrow> titem \<Rightarrow> tlist option" where
  "readied due k x = (case x of
     StateItem t \<Rightarrow> if due t then Some (Ready (unat (prio k t))) else sl k t
   | EventItem t \<Rightarrow> if due t then None else el k t)"

lemma unblock_containers:
  "acontainer (klists (unblock_task t k)) = readied (\<lambda>u. u = t) k"
  by (rule ext) (auto simp: unblock_task_def Let_def readied_def split: titem.split)

lemma unblock_values [simp]: "avalue (klists (unblock_task t k)) = avalue (klists k)"
  by (simp add: unblock_task_def Let_def)

lemma readied_readied:
  assumes "tcbs k' = tcbs k" and "acontainer (klists k') = readied P k"
  shows "readied Q k' = readied (\<lambda>t. P t \<or> Q t) k"
  using assms by (intro ext) (auto simp: readied_def split: titem.splits)

lemma readied_cong: "(\<And>t. P t = Q t) \<Longrightarrow> readied P k = readied Q k"
  by (intro ext) (simp add: readied_def split: titem.splits)

lemma readied_none: "readied (\<lambda>t. False) k = acontainer (klists k)"
  by (intro ext) (simp add: readied_def split: titem.splits)

lemma kinv_unblock [inv_intros]:
  assumes "kinv s T T k" and "t \<in> T"
  shows "kinv s T T (unblock_task t k)"
proof -
  have "kinv s (T - {t}) T (uxListRemove_k (EventItem t) (uxListRemove_k (StateItem t) k))"
    "kinv s (T - {t}) T (uxListRemove_k (StateItem t) k)" by (intro inv_intros assms(1))+
  then have "kinv s (insert t (T - {t})) T (unblock_task t k)"
    unfolding unblock_task_def Let_def by (intro kinv_add_ready assms(2)) simp_all
  then show ?thesis using assms(2) by (simp add: insert_absorb)
qed

section \<open>The loop of the tick\<close>

definition due :: "kernel \<Rightarrow> task \<Rightarrow> bool" where
  "due k t \<longleftrightarrow> sl k t = Some (pxDelayedTaskList k) \<and> dval k t \<le> xTickCount k"

text \<open>With no task due left, the weak form of the invariant is the full one.\<close>

lemma kinv_strict:
  assumes "kinv False L T k" and "\<And>t. \<not> due k t"
  shows "kinv True L T k"
  using assms unfolding kinv_def delay_ok_def due_def by (auto simp: not_le)

lemma delayed_shrinks:
  assumes k: "kinv s T T k" and t: "sl k t = Some (pxDelayedTaskList k)"
  shows "length (list_items (unblock_task t k) (pxDelayedTaskList k)) < length (list_items k (pxDelayedTaskList k))"
proof -
  let ?l = "pxDelayedTaskList k" and ?k1 = "uxListRemove_k (StateItem t) k"
  let ?k2 = "if listLIST_ITEM_CONTAINER ?k1 (EventItem t) \<noteq> None then uxListRemove_k (EventItem t) ?k1 else ?k1"
  have ok: "alists_ok (klists k)" by (rule kinv_ok [OF k])
  have r: "content (klists (unblock_task t k)) ?l = content (klists ?k2) ?l"
    using two_delayed_listsD(4) [OF kinv_two [OF k]] unfolding unblock_task_def Let_def prvAddTaskToReadyList_def
    by (simp add: vListInsertEnd_k_def taskRECORD_READY_PRIORITY_def content_insert_end_other del: not_None_eq)
  have 1: "content (klists ?k1) ?l = filter (\<lambda>y. y \<noteq> StateItem t) (list_items k ?l)"
    by (simp add: uxListRemove_k_def content_remove [OF ok])
  have "alists_ok (klists ?k1)" using alists_ok_remove [OF ok] by (simp add: uxListRemove_k_def)
  then have "length (content (klists ?k2) ?l) \<le> length (content (klists ?k1) ?l)"
    by (simp add: uxListRemove_k_def [of "EventItem t"] content_remove)
  moreover have "StateItem t \<in> set (list_items k ?l)" using t alists_ok_mem [OF ok] by simp
  then have "length (content (klists ?k1) ?l) < length (list_items k ?l)"
    unfolding 1 by (rule length_filter_less) simp
  ultimately show ?thesis unfolding r by simp
qed

lemma unblock_loop_effect:
  assumes "kinv False T T k" and "xTickCount k = now"
  shows "\<exists>k'. unblock_loop now sw k = Some (sw \<or> (\<exists>t. due k t \<and> prio k t \<ge> prio k (current k)), k')
     \<and> kinv True T T k' \<and> lists_frame k k' \<and> avalue (klists k') = avalue (klists k)
     \<and> acontainer (klists k') = readied (due k) k"
  using assms
proof (induction "length (list_items k (pxDelayedTaskList k))" arbitrary: k sw rule: less_induct)
  case less
  note k = less.prems(1)
  let ?t = "listGET_OWNER_OF_HEAD_ENTRY k (pxDelayedTaskList k)"
  let ?stop = "\<lambda>n. \<exists>k'. Some (sw, k\<lparr>xNextTaskUnblockTime := n\<rparr>) =
      Some (sw \<or> (\<exists>t. due k t \<and> prio k t \<ge> prio k (current k)), k') \<and> kinv True T T k'
      \<and> lists_frame k k' \<and> avalue (klists k') = avalue (klists k) \<and> acontainer (klists k') = readied (due k) k"
  have stop: "?stop n" if "\<And>t. \<not> due k t" "\<And>t. sl k t = Some (pxDelayedTaskList k) \<Longrightarrow> n \<le> dval k t" for n
    using kinv_next_unblock [OF kinv_strict [OF k that(1)] that(2)] that(1)
      readied_cong [of "due k" "\<lambda>t. False" k] readied_none [of k]
    by (auto simp: lists_frame_def)
  show ?case
  proof (cases "list_items k (pxDelayedTaskList k) = []")
    case True
    then have "?stop portMAX_DELAY"
      using delayed_empty [OF k] by (intro stop) (auto simp: due_def)
    with True show ?thesis by (subst unblock_loop.simps) simp
  next
    case ne: False
    note h = delayed_head [OF k ne]
    show ?thesis
    proof (cases "now < dval k ?t")
      case True
      then have "?stop (dval k ?t)"
        using h(2) less.prems(2) by (intro stop) (auto simp: due_def not_le intro: order.strict_trans2)
      with ne True show ?thesis by (subst unblock_loop.simps) (simp add: Let_def)
    next
      case False
      let ?k = "unblock_task ?t k"
      have "?t \<in> T" using h(1) kinv_sl_None [OF k, of ?t] by auto
      then have k1: "kinv False T T ?k" by (intro inv_intros k)
      note fr = lists_frameD [OF lists_frame_unblock [of k ?t]]
      have short: "length (list_items ?k (pxDelayedTaskList ?k)) < length (list_items k (pxDelayedTaskList k))"
        using delayed_shrinks [OF k h(1)] fr by simp
      have dueT: "due k ?t" using h(1) False less.prems(2) by (simp add: due_def not_less)
      have due1: "due ?k = (\<lambda>t. due k t \<and> t \<noteq> ?t)"
        using h(1) two_delayed_listsD(4) [OF kinv_two [OF k], THEN not_sym]
        by (intro ext) (auto simp: due_def unblock_containers readied_def fr)
      from less.hyps [OF short k1, of "sw \<or> prio k ?t \<ge> prio k (current k)"] less.prems(2)
      obtain k' where k': "unblock_loop now (sw \<or> prio k ?t \<ge> prio k (current k)) ?k =
          Some ((sw \<or> prio k ?t \<ge> prio k (current k)) \<or> (\<exists>t. due ?k t \<and> prio ?k t \<ge> prio ?k (current ?k)), k')"
        "kinv True T T k'" "lists_frame ?k k'" "avalue (klists k') = avalue (klists ?k)"
        "acontainer (klists k') = readied (due ?k) ?k" by (auto simp: fr)
      have sw: "((sw \<or> prio k ?t \<ge> prio k (current k)) \<or> (\<exists>t. due ?k t \<and> prio ?k t \<ge> prio ?k (current ?k)))
          = (sw \<or> (\<exists>t. due k t \<and> prio k t \<ge> prio k (current k)))"
        unfolding due1 fr using dueT by blast
      have "readied (due ?k) ?k = readied (due k) k"
        unfolding readied_readied [OF fr(1) unblock_containers] due1
        by (rule readied_cong) (use dueT in auto)
      moreover have "unblock_loop now sw k = unblock_loop now (sw \<or> prio k ?t \<ge> prio k (current k)) ?k"
        using ne False by (subst unblock_loop.simps) (simp add: Let_def fr)
      moreover have "lists_frame k k'"
        using k'(3) lists_frame_unblock lists_frame_trans by blast
      ultimately show ?thesis using k' sw by simp
    qed
  qed
qed

section \<open>Absolute time\<close>

definition now_time :: "nat \<Rightarrow> kernel \<Rightarrow> nat" where
  "now_time E k = E * 2 ^ 32 + unat (xTickCount k)"

definition wake_time :: "nat \<Rightarrow> kernel \<Rightarrow> task \<Rightarrow> nat option" where
  "wake_time E k t =
     (if sl k t = Some (pxDelayedTaskList k) then Some (E * 2 ^ 32 + unat (dval k t))
      else if sl k t = Some (pxOverflowDelayedTaskList k) then Some ((E + 1) * 2 ^ 32 + unat (dval k t))
      else None)"

lemma unat_tick_Suc: "(v :: tick) + 1 \<noteq> 0 \<Longrightarrow> unat (v + 1) = unat v + 1"
  by (metis Suc_eq_plus1 add.commute unatSuc)

lemma tick_le_Suc: "(v :: tick) < w \<Longrightarrow> v + 1 \<le> w"
  by (simp add: inc_le)

lemma tick_wrap:
  assumes "(v :: tick) + 1 = 0"
  shows "unat v + 1 = 2 ^ 32"
proof -
  have "portMAX_DELAY + 1 = 0" by (simp add: portMAX_DELAY_def)
  with assms have "v = portMAX_DELAY" by (metis add_right_cancel)
  then show ?thesis by (simp add: unat_portMAX_DELAY)
qed

lemma tick_le_Suc_self: "(v :: tick) + 1 \<noteq> 0 \<Longrightarrow> v \<le> v + 1"
  using unat_tick_Suc [of v] by (simp add: word_le_nat_alt)

lemma epoch_unique:
  fixes v w :: tick
  shows "(E + 1) * 2 ^ 32 + unat v \<noteq> E * 2 ^ 32 + unat w"
  using unsigned_less [of w, where 'a = nat] by simp

lemma wake_later_than_now:
  assumes "kinv True L T k" and "wake_time E k t = Some w"
  shows "now_time E k < w"
  using assms(2) kinv_parts(4) [OF assms(1)] unsigned_less [of "xTickCount k", where 'a = nat]
  by (auto simp: wake_time_def now_time_def delay_ok_def word_less_nat_alt split: if_splits)

section \<open>One tick\<close>

definition overflow_now :: "kernel \<Rightarrow> nat" where
  "overflow_now k = (if xTickCount k + 1 = 0 then 1 else 0)"

text \<open>The state in which the loop of the tick starts, when it starts.\<close>

lemma tick_start_plain:
  assumes k: "kinv True T T k" and n: "xTickCount k + 1 \<noteq> 0"
  defines "k1 \<equiv> k\<lparr>xTickCount := xTickCount k + 1\<rparr>"
  shows "kinv False T T k1" and "due k1 t \<longleftrightarrow> wake_time E k t = Some (now_time E k + 1)"
proof -
  note p = kinv_parts [OF k]
  have le: "xTickCount k \<le> xTickCount k + 1" by (rule tick_le_Suc_self [OF n])
  show "kinv False T T k1"
    using p tick_le_Suc le unfolding kinv_def k1_def
    by (auto simp: placed_def prio_ok_def ready_ok_def delay_ok_def two_delayed_lists_def value_sorted_def
        intro: order.trans)
  have "dval k t \<le> xTickCount k + 1 \<longleftrightarrow> unat (dval k t) = unat (xTickCount k) + 1"
    if "sl k t = Some (pxDelayedTaskList k)"
  proof -
    have "xTickCount k < dval k t" using p(4) that by (auto simp: delay_ok_def)
    then show ?thesis using unat_tick_Suc [OF n] by (auto simp: word_le_nat_alt word_less_nat_alt)
  qed
  then show "due k1 t \<longleftrightarrow> wake_time E k t = Some (now_time E k + 1)"
    using two_delayed_listsD(1) [OF kinv_two [OF k]] epoch_unique [of E "dval k t" "xTickCount k + 1"]
      unat_tick_Suc [OF n]
    by (auto simp: due_def k1_def wake_time_def now_time_def)
qed

lemma tick_start_overflow:
  assumes k: "kinv True T T k" and n: "xTickCount k + 1 = 0"
  shows "\<exists>k1. taskSWITCH_DELAYED_LISTS (k\<lparr>xTickCount := 0\<rparr>) = Returns k1 \<and> kinv False T T k1
    \<and> (\<forall>t. due k1 t \<longleftrightarrow> wake_time E k t = Some (now_time E k + 1))
    \<and> klists k1 = klists k \<and> tcbs k1 = tcbs k \<and> pxCurrentTCB k1 = pxCurrentTCB k
    \<and> xTickCount k1 = 0 \<and> xNumOfOverflows k1 = xNumOfOverflows k + 1
    \<and> pxDelayedTaskList k1 = pxOverflowDelayedTaskList k \<and> pxOverflowDelayedTaskList k1 = pxDelayedTaskList k
    \<and> uxSchedulerSuspended k1 = uxSchedulerSuspended k \<and> xYieldPending k1 = xYieldPending k
    \<and> uxPendedTicks k1 = uxPendedTicks k \<and> xSchedulerRunning k1 = xSchedulerRunning k
    \<and> uxCurrentNumberOfTasks k1 = uxCurrentNumberOfTasks k"
proof -
  note p = kinv_parts [OF k]
  let ?k = "k\<lparr>xTickCount := 0, pxDelayedTaskList := pxOverflowDelayedTaskList k,
       pxOverflowDelayedTaskList := pxDelayedTaskList k, xNumOfOverflows := xNumOfOverflows k + 1\<rparr>"
  have mx: "\<not> xTickCount k < v" for v
    using tick_wrap [OF n] unsigned_less [of v, where 'a = nat] by (simp add: word_less_nat_alt)
  then have none: "sl k t \<noteq> Some (pxDelayedTaskList k)" for t
    using p(4) by (auto simp: delay_ok_def)
  have e: "list_items k (pxDelayedTaskList k) = []"
  proof (rule ccontr)
    assume "list_items k (pxDelayedTaskList k) \<noteq> []"
    from delayed_head(1) [OF k this] none show False by blast
  qed
  \<comment> \<open>before \<open>xNextTaskUnblockTime\<close> is reset, with it at 0\<close>
  have "kinv False T T (?k\<lparr>xNextTaskUnblockTime := 0\<rparr>)"
    using p none unfolding kinv_def
    by (auto simp: placed_def prio_ok_def ready_ok_def delay_ok_def two_delayed_lists_def value_sorted_def)
  then have "kinv False T T (prvResetNextTaskUnblockTime (?k\<lparr>xNextTaskUnblockTime := 0\<rparr>))"
    by (rule kinv_reset_next)
  moreover have "prvResetNextTaskUnblockTime (?k\<lparr>xNextTaskUnblockTime := 0\<rparr>) = prvResetNextTaskUnblockTime ?k"
    by (simp add: prvResetNextTaskUnblockTime_def listGET_OWNER_OF_HEAD_ENTRY_def Let_def)
  ultimately have inv: "kinv False T T (prvResetNextTaskUnblockTime ?k)" by simp
  have "taskSWITCH_DELAYED_LISTS (k\<lparr>xTickCount := 0\<rparr>) = Returns (prvResetNextTaskUnblockTime ?k)"
    using e by (simp add: taskSWITCH_DELAYED_LISTS_def)
  moreover have "due (prvResetNextTaskUnblockTime ?k) t \<longleftrightarrow> wake_time E k t = Some (now_time E k + 1)" for t
  proof -
    have "now_time E k + 1 = (E + 1) * 2 ^ 32" using tick_wrap [OF n] by (simp add: now_time_def)
    moreover have "dval k t \<le> 0 \<longleftrightarrow> unat (dval k t) = 0" by (simp add: word_le_nat_alt)
    ultimately show ?thesis using none [of t] by (auto simp: due_def wake_time_def)
  qed
  ultimately show ?thesis using inv by simp
qed

text \<open>One tick of a scheduler that is not suspended.\<close>

definition tick_effect :: "nat \<Rightarrow> kernel \<Rightarrow> bool \<Rightarrow> kernel \<Rightarrow> bool" where
  "tick_effect E k sw k' \<longleftrightarrow>
     now_time (E + overflow_now k) k' = now_time E k + 1
   \<and> xNumOfOverflows k' = xNumOfOverflows k + of_nat (overflow_now k)
   \<and> acontainer (klists k') = readied (\<lambda>t. wake_time E k t = Some (now_time E k + 1)) k
   \<and> avalue (klists k') = avalue (klists k)
   \<and> tcbs k' = tcbs k \<and> pxCurrentTCB k' = pxCurrentTCB k \<and> xYieldPending k' = xYieldPending k
   \<and> uxSchedulerSuspended k' = uxSchedulerSuspended k \<and> uxPendedTicks k' = uxPendedTicks k
   \<and> xSchedulerRunning k' = xSchedulerRunning k \<and> uxCurrentNumberOfTasks k' = uxCurrentNumberOfTasks k
   \<and> pxDelayedTaskList k' = (if overflow_now k = 0 then pxDelayedTaskList k else pxOverflowDelayedTaskList k)
   \<and> pxOverflowDelayedTaskList k' = (if overflow_now k = 0 then pxOverflowDelayedTaskList k else pxDelayedTaskList k)
   \<and> (sw \<longleftrightarrow> (\<exists>t. wake_time E k t = Some (now_time E k + 1) \<and> prio k t \<ge> prio k (current k))
          \<or> length (list_items k' (Ready (unat (prio k' (current k'))))) > 1 \<or> xYieldPending k)"

lemma tick_loop:
  assumes k1: "kinv False T T k1" and now: "xTickCount k1 = now"
  shows "\<exists>k2. (if now \<ge> xNextTaskUnblockTime k1 then oreturns (unblock_loop now False k1) else Returns (False, k1))
           = Returns (\<exists>t. due k1 t \<and> prio k1 t \<ge> prio k1 (current k1), k2)
     \<and> kinv True T T k2 \<and> lists_frame k1 k2 \<and> avalue (klists k2) = avalue (klists k1)
     \<and> acontainer (klists k2) = readied (due k1) k1"
proof (cases "now \<ge> xNextTaskUnblockTime k1")
  case True
  from unblock_loop_effect [OF k1 now, of False] obtain k2 where
    "unblock_loop now False k1 = Some (\<exists>t. due k1 t \<and> prio k1 t \<ge> prio k1 (current k1), k2)"
    "kinv True T T k2" "lists_frame k1 k2" "avalue (klists k2) = avalue (klists k1)"
    "acontainer (klists k2) = readied (due k1) k1" by auto
  with True show ?thesis by auto
next
  case False
  have none: "\<not> due k1 t" for t
  proof
    assume d: "due k1 t"
    then have "xNextTaskUnblockTime k1 \<le> dval k1 t"
      using kinv_parts(4) [OF k1] by (simp add: due_def delay_ok_def)
    with d have "xNextTaskUnblockTime k1 \<le> now" unfolding due_def now by (blast intro: order.trans)
    with False show False by simp
  qed
  then have "due k1 = (\<lambda>t. False)" by (intro ext) simp
  with False kinv_strict [OF k1 none] show ?thesis
    by (auto simp: lists_frame_def readied_none)
qed

lemma tick_spec:
  assumes k: "kinv True T T k" and s: "uxSchedulerSuspended k = 0"
  shows "\<exists>sw k'. xTaskIncrementTick k = Returns (sw, k') \<and> kinv True T T k' \<and> tick_effect E k sw k'"
proof -
  let ?n = "xTickCount k + 1" and ?w = "\<lambda>t. wake_time E k t = Some (now_time E k + 1)"
  have "\<exists>k1. (if ?n = 0 then taskSWITCH_DELAYED_LISTS (k\<lparr>xTickCount := ?n\<rparr>)
                else Returns (k\<lparr>xTickCount := ?n\<rparr>)) = Returns k1
    \<and> kinv False T T k1 \<and> (\<forall>t. due k1 t \<longleftrightarrow> ?w t)
    \<and> klists k1 = klists k \<and> tcbs k1 = tcbs k \<and> pxCurrentTCB k1 = pxCurrentTCB k
    \<and> xTickCount k1 = ?n \<and> xNumOfOverflows k1 = xNumOfOverflows k + of_nat (overflow_now k)
    \<and> pxDelayedTaskList k1 = (if overflow_now k = 0 then pxDelayedTaskList k else pxOverflowDelayedTaskList k)
    \<and> pxOverflowDelayedTaskList k1 = (if overflow_now k = 0 then pxOverflowDelayedTaskList k else pxDelayedTaskList k)
    \<and> uxSchedulerSuspended k1 = uxSchedulerSuspended k \<and> xYieldPending k1 = xYieldPending k
    \<and> uxPendedTicks k1 = uxPendedTicks k \<and> xSchedulerRunning k1 = xSchedulerRunning k
    \<and> uxCurrentNumberOfTasks k1 = uxCurrentNumberOfTasks k"
  proof (cases "?n = 0")
    case True
    with tick_start_overflow [OF k True, of E] show ?thesis by (auto simp: overflow_now_def)
  next
    case False
    with tick_start_plain(1) [OF k False] tick_start_plain(2) [OF k False, where E = E] show ?thesis by (auto simp: overflow_now_def)
  qed
  then obtain k1 where k1: "(if ?n = 0 then taskSWITCH_DELAYED_LISTS (k\<lparr>xTickCount := ?n\<rparr>)
                else Returns (k\<lparr>xTickCount := ?n\<rparr>)) = Returns k1" "kinv False T T k1"
    and d: "\<And>t. due k1 t \<longleftrightarrow> ?w t"
    and f: "klists k1 = klists k" "tcbs k1 = tcbs k" "pxCurrentTCB k1 = pxCurrentTCB k"
    "xTickCount k1 = ?n" "xNumOfOverflows k1 = xNumOfOverflows k + of_nat (overflow_now k)"
    "pxDelayedTaskList k1 = (if overflow_now k = 0 then pxDelayedTaskList k else pxOverflowDelayedTaskList k)"
    "pxOverflowDelayedTaskList k1 = (if overflow_now k = 0 then pxOverflowDelayedTaskList k else pxDelayedTaskList k)"
    "uxSchedulerSuspended k1 = uxSchedulerSuspended k" "xYieldPending k1 = xYieldPending k"
    "uxPendedTicks k1 = uxPendedTicks k" "xSchedulerRunning k1 = xSchedulerRunning k"
    "uxCurrentNumberOfTasks k1 = uxCurrentNumberOfTasks k"
    by blast
  from tick_loop [OF k1(2) f(4)] obtain k2 where
    k2: "(if ?n \<ge> xNextTaskUnblockTime k1 then oreturns (unblock_loop ?n False k1) else Returns (False, k1))
           = Returns (\<exists>t. due k1 t \<and> prio k1 t \<ge> prio k1 (current k1), k2)"
      "kinv True T T k2" "lists_frame k1 k2" "avalue (klists k2) = avalue (klists k1)"
      "acontainer (klists k2) = readied (due k1) k1" by blast
  note g = lists_frameD [OF k2(3)]
  have a: "readied (due k1) k1 = readied ?w k"
    using d by (intro ext) (simp add: readied_def f split: titem.split)
  have t: "now_time (E + overflow_now k) k2 = now_time E k + 1"
    using unat_tick_Suc [of "xTickCount k"] tick_wrap [of "xTickCount k"] f(4) g(3)
    by (auto simp: now_time_def overflow_now_def)
  let ?sw = "((\<exists>t. due k1 t \<and> prio k1 t \<ge> prio k1 (current k1))
      \<or> length (list_items k2 (Ready (unat (prio k2 (current k2))))) > 1) \<or> xYieldPending k2"
  have "xTaskIncrementTick k = Returns (?sw, k2)"
    unfolding xTaskIncrementTick_def Let_def using s k1(1) k2(1) by (simp only: if_True) simp
  moreover have "tick_effect E k ?sw k2"
    unfolding tick_effect_def using t a k2(4,5) by (simp add: f g d)
  ultimately show ?thesis using k2(2) by blast
qed

lemma tick_suspended:
  "uxSchedulerSuspended k \<noteq> 0 \<Longrightarrow>
     xTaskIncrementTick k = Returns (xYieldPending k, k\<lparr>uxPendedTicks := uxPendedTicks k + 1\<rparr>)"
  by (simp add: xTaskIncrementTick_def)

end
