(* ===== verification/Tasks_Sched.thy ===== *)
theory Tasks_Sched
  imports Tasks_Tick
begin

text \<open>
  The context switch chooses a ready task of the highest priority, and \<open>xTaskResumeAll\<close> readies the
  tasks readied by interrupts meanwhile and catches up with the pended ticks.
\<close>

section \<open>Choosing the task\<close>

lemma top_ready_Some:
  "top_ready k n = Some p \<Longrightarrow> p \<le> n \<and> list_items k (Ready p) \<noteq> [] \<and> (\<forall>q. p < q \<and> q \<le> n \<longrightarrow> list_items k (Ready q) = [])"
  by (induction k n rule: top_ready.induct) (auto split: if_splits simp: le_Suc_eq)

lemma top_ready_exists: "list_items k (Ready q) \<noteq> [] \<Longrightarrow> q \<le> n \<Longrightarrow> \<exists>p. top_ready k n = Some p"
  by (induction k n rule: top_ready.induct) (auto simp: le_Suc_eq)

lemma ready_listed: "kinv s L T k \<Longrightarrow> sl k t = Some (Ready p) \<longleftrightarrow> StateItem t \<in> set (list_items k (Ready p))"
  using alists_ok_mem [OF kinv_ok] by simp

lemma ready_bounds:
  assumes "kinv s L T k" and "sl k t = Some (Ready p)"
  shows "p = unat (prio k t)" and "p \<le> unat (uxTopReadyPriority k)"
  using kinv_parts(3) [OF assms(1)] assms(2) by (auto simp: ready_ok_def)

definition highest_ready :: "kernel \<Rightarrow> task \<Rightarrow> bool" where
  "highest_ready k c \<longleftrightarrow> sl k c = Some (Ready (unat (prio k c)))
     \<and> (\<forall>t p. sl k t = Some (Ready p) \<longrightarrow> prio k t \<le> prio k c)"

lemma select_spec:
  assumes k: "kinv s T T k" and i: "sl k i = Some (Ready q)"
  shows "\<exists>k' c a. taskSELECT_HIGHEST_PRIORITY_TASK k = Returns k' \<and> kinv s T T k'
     \<and> k' = k\<lparr>klists := a, pxCurrentTCB := Some c, uxTopReadyPriority := prio k c\<rparr>
     \<and> content a = content (klists k) \<and> acontainer a = acontainer (klists k)
     \<and> avalue a = avalue (klists k) \<and> c \<in> T \<and> highest_ready k c
     \<and> a = snd (a_next (Ready (unat (prio k c))) (klists k))
     \<and> fst (a_next (Ready (unat (prio k c))) (klists k)) = Some (StateItem c)"
proof -
  note p = kinv_parts [OF k]
  have "StateItem i \<in> set (list_items k (Ready q))" using i ready_listed [OF k] by blast
  then have "list_items k (Ready q) \<noteq> []" by auto
  with ready_bounds(2) [OF k i] obtain n where n: "top_ready k (unat (uxTopReadyPriority k)) = Some n"
    using top_ready_exists by blast
  note tr = top_ready_Some [OF n]
  then obtain x where x: "x \<in> set (list_items k (Ready n))" "fst (a_next (Ready n) (klists k)) = Some x"
    using a_next_mem [of "klists k" "Ready n"] by auto
  obtain c where c: "x = StateItem c" "sl k c = Some (Ready n)"
    using state_listed_item [OF p(1) _ x(1)] by auto
  have cT: "c \<in> T" using c(2) placedD(2) [OF p(1), of c] by auto
  have nc: "n = unat (prio k c)" by (rule ready_bounds(1) [OF k c(2)])
  define a where "a = snd (a_next (Ready n) (klists k))"
  have a: "content a = content (klists k)" "acontainer a = acontainer (klists k)"
    "avalue a = avalue (klists k)" "alists_ok a"
    using alists_ok_next [OF kinv_ok [OF k]] by (simp_all add: a_def)
  have le: "prio k t \<le> prio k c" if t: "sl k t = Some (Ready m)" for t m
  proof (rule ccontr)
    assume "\<not> prio k t \<le> prio k c"
    with ready_bounds [OF k t] have "n < m" "m \<le> unat (uxTopReadyPriority k)"
      by (simp_all add: nc word_le_nat_alt)
    with tr have "list_items k (Ready m) = []" by blast
    with t ready_listed [OF k, of t m] show False by simp
  qed
  then have h: "highest_ready k c" using c(2) nc by (simp add: highest_ready_def)
  define k' where "k' = k\<lparr>klists := a, pxCurrentTCB := Some c, uxTopReadyPriority := prio k c\<rparr>"
  have "taskSELECT_HIGHEST_PRIORITY_TASK k = Returns k'"
    using n x(2) c(1)
    by (cases "a_next (Ready n) (klists k)")
      (simp add: taskSELECT_HIGHEST_PRIORITY_TASK_def k'_def a_def nc)
  moreover have "placed T T k'" using p(1) a(2,4) by (simp add: placed_def k'_def)
  moreover have "prio_ok T k'" using p(2) cT by (simp add: prio_ok_def k'_def)
  moreover have "ready_ok k'"
    using ready_bounds(1) [OF k] le a(2) by (simp add: ready_ok_def k'_def word_le_nat_alt)
  moreover have "delay_ok s k'" using p(4) a(1-3)
    by (simp add: delay_ok_def two_delayed_lists_def value_sorted_def k'_def)
  ultimately show ?thesis
    using a(1-3) cT h nc x(2) c(1) by (auto simp: kinv_def k'_def a_def)
qed

section \<open>The context switch\<close>

definition switch_frame :: "kernel \<Rightarrow> kernel \<Rightarrow> bool" where
  "switch_frame k k' \<longleftrightarrow>
     k' = k\<lparr>klists := klists k', tcbs := tcbs k', pxCurrentTCB := pxCurrentTCB k',
           uxTopReadyPriority := uxTopReadyPriority k', xYieldPending := False,
           ulTaskSwitchedInTime := ulTaskSwitchedInTime k', ulTotalRunTime := ulTotalRunTime k'\<rparr>
   \<and> (\<forall>t. tcbs k' t = (tcbs k t)\<lparr>ulRunTimeCounter := ulRunTimeCounter (tcbs k' t)\<rparr>)
   \<and> content (klists k') = content (klists k) \<and> acontainer (klists k') = acontainer (klists k)
   \<and> avalue (klists k') = avalue (klists k)"

lemma switch_frameD:
  assumes "switch_frame k k'"
  shows "content (klists k') = content (klists k)" "acontainer (klists k') = acontainer (klists k)"
    "avalue (klists k') = avalue (klists k)"
    "prio k' t = prio k t" "uxBasePriority (tcbs k' t) = uxBasePriority (tcbs k t)"
    "uxMutexesHeld (tcbs k' t) = uxMutexesHeld (tcbs k t)"
    "ucNotifyState (tcbs k' t) = ucNotifyState (tcbs k t)"
    "ulNotifiedValue (tcbs k' t) = ulNotifiedValue (tcbs k t)"
    "ucDelayAborted (tcbs k' t) = ucDelayAborted (tcbs k t)"
    "xTickCount k' = xTickCount k" "xNumOfOverflows k' = xNumOfOverflows k"
    "pxDelayedTaskList k' = pxDelayedTaskList k" "pxOverflowDelayedTaskList k' = pxOverflowDelayedTaskList k"
    "uxSchedulerSuspended k' = uxSchedulerSuspended k" "uxPendedTicks k' = uxPendedTicks k"
    "xSchedulerRunning k' = xSchedulerRunning k" "uxCurrentNumberOfTasks k' = uxCurrentNumberOfTasks k"
    "xNextTaskUnblockTime k' = xNextTaskUnblockTime k" "xYieldPending k' = False"
proof -
  have t: "tcbs k' t = (tcbs k t)\<lparr>ulRunTimeCounter := ulRunTimeCounter (tcbs k' t)\<rparr>"
    using assms by (simp add: switch_frame_def)
  show "prio k' t = prio k t" "uxBasePriority (tcbs k' t) = uxBasePriority (tcbs k t)"
    "uxMutexesHeld (tcbs k' t) = uxMutexesHeld (tcbs k t)"
    "ucNotifyState (tcbs k' t) = ucNotifyState (tcbs k t)"
    "ulNotifiedValue (tcbs k' t) = ulNotifiedValue (tcbs k t)"
    "ucDelayAborted (tcbs k' t) = ucDelayAborted (tcbs k t)"
    by (subst t, simp)+
  show "content (klists k') = content (klists k)" "acontainer (klists k') = acontainer (klists k)"
    "avalue (klists k') = avalue (klists k)"
    using assms by (simp_all add: switch_frame_def)
  have e: "k' = k\<lparr>klists := klists k', tcbs := tcbs k', pxCurrentTCB := pxCurrentTCB k',
           uxTopReadyPriority := uxTopReadyPriority k', xYieldPending := False,
           ulTaskSwitchedInTime := ulTaskSwitchedInTime k', ulTotalRunTime := ulTotalRunTime k'\<rparr>"
    using assms unfolding switch_frame_def by blast
  show "xTickCount k' = xTickCount k" "xNumOfOverflows k' = xNumOfOverflows k"
    "pxDelayedTaskList k' = pxDelayedTaskList k" "pxOverflowDelayedTaskList k' = pxOverflowDelayedTaskList k"
    "uxSchedulerSuspended k' = uxSchedulerSuspended k" "uxPendedTicks k' = uxPendedTicks k"
    "xSchedulerRunning k' = xSchedulerRunning k" "uxCurrentNumberOfTasks k' = uxCurrentNumberOfTasks k"
    "xNextTaskUnblockTime k' = xNextTaskUnblockTime k" "xYieldPending k' = False"
    by (subst e, simp)+
qed

lemma switch_spec:
  assumes k: "kinv s T T k" and i: "sl k i = Some (Ready q)" and u: "uxSchedulerSuspended k = 0"
  shows "\<exists>k' c. vTaskSwitchContext k = Returns k' \<and> kinv s T T k' \<and> switch_frame k k'
     \<and> pxCurrentTCB k' = Some c \<and> c \<in> T \<and> highest_ready k' c
     \<and> klists k' = snd (a_next (Ready (unat (prio k c))) (klists k))
     \<and> fst (a_next (Ready (unat (prio k c))) (klists k)) = Some (StateItem c)"
proof -
  let ?a = "account_run_time (k\<lparr>xYieldPending := False\<rparr>)"
  have t: "tcbs ?a t = (tcbs k t)\<lparr>ulRunTimeCounter := ulRunTimeCounter (tcbs ?a t)\<rparr>" for t
    by (simp add: account_run_time_def Let_def update_tcb_def)
  have l: "klists ?a = klists k" by (simp add: account_run_time_def Let_def update_tcb_def)
  have f: "?a = k\<lparr>tcbs := tcbs ?a, xYieldPending := False,
      ulTaskSwitchedInTime := ulTaskSwitchedInTime ?a, ulTotalRunTime := ulTotalRunTime ?a\<rparr>"
    unfolding account_run_time_def Let_def update_tcb_def by (cases k) simp
  have pr: "prio ?a u = prio k u" "uxBasePriority (tcbs ?a u) = uxBasePriority (tcbs k u)" for u
    by (subst t, simp)+
  have "kinv s T T ?a"
    by (rule kinv_cong [OF k l])
      (simp_all add: pr, simp_all add: account_run_time_def Let_def update_tcb_def)
  moreover have "sl ?a i = Some (Ready q)" using i l by simp
  ultimately obtain k' c a where s: "taskSELECT_HIGHEST_PRIORITY_TASK ?a = Returns k'" "kinv s T T k'"
    "k' = ?a\<lparr>klists := a, pxCurrentTCB := Some c, uxTopReadyPriority := prio ?a c\<rparr>"
    "content a = content (klists ?a)" "acontainer a = acontainer (klists ?a)"
    "avalue a = avalue (klists ?a)" "c \<in> T" "highest_ready ?a c"
    "a = snd (a_next (Ready (unat (prio ?a c))) (klists ?a))"
    "fst (a_next (Ready (unat (prio ?a c))) (klists ?a)) = Some (StateItem c)"
    using select_spec by blast
  have "vTaskSwitchContext k = Returns k'"
    using u s(1) by (simp add: vTaskSwitchContext_def)
  moreover have "switch_frame k k'"
    unfolding switch_frame_def s(3) using t s(4-6) l by (subst f) simp
  moreover have "highest_ready k' c"
    using s(8) unfolding highest_ready_def s(3) by (simp add: s(5))
  ultimately show ?thesis using s(2,3,7,9,10) by (auto simp: l pr)
qed

lemma switch_suspended:
  "uxSchedulerSuspended k \<noteq> 0 \<Longrightarrow> vTaskSwitchContext k = Returns (k\<lparr>xYieldPending := True\<rparr>)"
  by (simp add: vTaskSwitchContext_def)

section \<open>Resuming the scheduler\<close>

definition pending_frame :: "kernel \<Rightarrow> kernel \<Rightarrow> bool" where
  "pending_frame k k' \<longleftrightarrow>
     k' = k\<lparr>klists := klists k', uxTopReadyPriority := uxTopReadyPriority k', xYieldPending := xYieldPending k'\<rparr>
   \<and> avalue (klists k') = avalue (klists k)"

lemma pending_frame_trans: "pending_frame k k' \<Longrightarrow> pending_frame k' k'' \<Longrightarrow> pending_frame k k''"
  unfolding pending_frame_def by (cases k; cases k'; cases k'') simp

lemma pending_frameD:
  assumes "pending_frame k k'"
  shows "tcbs k' = tcbs k" "pxCurrentTCB k' = pxCurrentTCB k" "xTickCount k' = xTickCount k"
    "pxDelayedTaskList k' = pxDelayedTaskList k" "pxOverflowDelayedTaskList k' = pxOverflowDelayedTaskList k"
    "uxSchedulerSuspended k' = uxSchedulerSuspended k" "avalue (klists k') = avalue (klists k)"
    "xNumOfOverflows k' = xNumOfOverflows k" "uxPendedTicks k' = uxPendedTicks k"
    "xSchedulerRunning k' = xSchedulerRunning k" "uxCurrentNumberOfTasks k' = uxCurrentNumberOfTasks k"
    "xNextTaskUnblockTime k' = xNextTaskUnblockTime k"
  using assms unfolding pending_frame_def by (cases k; cases k'; simp)+

definition pending :: "kernel \<Rightarrow> task \<Rightarrow> bool" where
  "pending k t \<longleftrightarrow> el k t = Some xPendingReadyList"

lemma pending_head:
  assumes k: "kinv s T T k" and ne: "list_items k xPendingReadyList \<noteq> []"
  defines "t \<equiv> listGET_OWNER_OF_HEAD_ENTRY k xPendingReadyList"
  shows "pending k t" and "t \<in> T"
proof -
  obtain x xs where xs: "list_items k xPendingReadyList = x # xs" using ne by (meson list.exhaust)
  with event_listed_item [OF kinv_parts(1) [OF k], of xPendingReadyList x]
  show "pending k t" "t \<in> T" by (auto simp: t_def listGET_OWNER_OF_HEAD_ENTRY_def pending_def)
qed

lemma pending_empty: "kinv s T T k \<Longrightarrow> list_items k xPendingReadyList = [] \<Longrightarrow> \<not> pending k t"
  using alists_ok_mem [OF kinv_ok, of s T T k "EventItem t" xPendingReadyList] by (simp add: pending_def)

lemma ready_pending_effect:
  assumes "kinv s T T k"
  shows "\<exists>k'. ready_pending any k = Some (any \<or> (\<exists>t. pending k t), k') \<and> kinv s T T k' \<and> pending_frame k k'
     \<and> acontainer (klists k') = readied (pending k) k
     \<and> (xYieldPending k' \<longleftrightarrow> xYieldPending k \<or> (\<exists>t. pending k t \<and> prio k t \<ge> prio k (current k)))"
  using assms
proof (induction "length (list_items k xPendingReadyList)" arbitrary: k any rule: less_induct)
  case less
  note k = less.prems
  show ?case
  proof (cases "list_items k xPendingReadyList = []")
    case True
    then have n: "pending k = (\<lambda>t. False)" using pending_empty [OF k] by (intro ext) simp
    show ?thesis
      using True k by (subst ready_pending.simps) (simp add: n readied_none pending_frame_def)
  next
    case ne: False
    let ?t = "listGET_OWNER_OF_HEAD_ENTRY k xPendingReadyList"
    note h = pending_head [OF k ne]
    let ?k1 = "prvAddTaskToReadyList ?t (uxListRemove_k (StateItem ?t) (uxListRemove_k (EventItem ?t) k))"
    let ?k2 = "if prio ?k1 ?t \<ge> prio ?k1 (current ?k1) then ?k1\<lparr>xYieldPending := True\<rparr> else ?k1"
    have k1: "kinv s T T ?k1" by (intro inv_intros k h(2))
    have k2: "kinv s T T ?k2" using k1 kinv_cong [OF k1, of "?k1\<lparr>xYieldPending := True\<rparr>"] by simp
    have fr: "pending_frame k ?k2"
      unfolding pending_frame_def prvAddTaskToReadyList_def prim_defs Let_def by (cases k) simp
    note g = pending_frameD [OF fr]
    have c: "acontainer (klists ?k2) = readied (\<lambda>u. u = ?t) k"
      by (rule ext) (auto simp: readied_def split: titem.split)
    have p2: "pending ?k2 = (\<lambda>u. pending k u \<and> u \<noteq> ?t)"
      by (intro ext) (auto simp: pending_def)
    have ok: "alists_ok (klists k)" by (rule kinv_ok [OF k])
    have c2: "list_items ?k2 xPendingReadyList
        = filter (\<lambda>y. y \<noteq> StateItem ?t) (filter (\<lambda>y. y \<noteq> EventItem ?t) (list_items k xPendingReadyList))"
      using ok by (simp add: prvAddTaskToReadyList_def vListInsertEnd_k_def taskRECORD_READY_PRIORITY_def
          content_insert_end_other uxListRemove_k_def content_remove alists_ok_remove)
    have "EventItem ?t \<in> set (list_items k xPendingReadyList)"
      using h(1) alists_ok_mem [OF ok] by (simp add: pending_def)
    then have lt: "length (filter (\<lambda>y. y \<noteq> EventItem ?t) (list_items k xPendingReadyList))
        < length (list_items k xPendingReadyList)" by (rule length_filter_less) simp
    have short: "length (list_items ?k2 xPendingReadyList) < length (list_items k xPendingReadyList)"
      unfolding c2 by (rule le_less_trans [OF length_filter_le lt])
    from less.hyps [OF short k2, of True] obtain k' where
      k': "ready_pending True ?k2 = Some (True, k')" "kinv s T T k'" "pending_frame ?k2 k'"
        "acontainer (klists k') = readied (pending ?k2) ?k2"
        "xYieldPending k' \<longleftrightarrow> xYieldPending ?k2 \<or> (\<exists>t. pending ?k2 t \<and> prio ?k2 t \<ge> prio ?k2 (current ?k2))"
      by auto
    have "ready_pending any k = ready_pending True ?k2"
      using ne by (subst ready_pending.simps) (simp add: Let_def)
    moreover have "pending_frame k k'" by (rule pending_frame_trans [OF fr k'(3)])
    moreover have "readied (pending ?k2) ?k2 = readied (pending k) k"
      unfolding readied_readied [OF g(1) c] p2 by (rule readied_cong) (use h(1) in auto)
    moreover have "xYieldPending ?k2 \<longleftrightarrow> xYieldPending k \<or> prio k ?t \<ge> prio k (current k)" by simp
    then have "xYieldPending k' \<longleftrightarrow> xYieldPending k \<or> (\<exists>t. pending k t \<and> prio k t \<ge> prio k (current k))"
      unfolding k'(5) p2 g using h(1) by blast
    ultimately show ?thesis using k'(1,2,4) h(1) by auto
  qed
qed

end
