(* ===== verification/Tasks_Resume.thy ===== *)
theory Tasks_Resume
  imports Tasks_Sched
begin

text \<open>
  Several ticks in a row and the catching up of \<open>xTaskResumeAll\<close>: after \<open>n\<close> ticks the tasks readied are
  those whose wake time lies within them, however the ticks were counted, one by one or pended.
\<close>

section \<open>Elapsed time\<close>

definition woken :: "nat \<Rightarrow> kernel \<Rightarrow> nat \<Rightarrow> task \<Rightarrow> bool" where
  "woken E k n t \<longleftrightarrow> (\<exists>w. wake_time E k t = Some w \<and> w \<le> now_time E k + n)"

definition elapsed :: "nat \<Rightarrow> kernel \<Rightarrow> nat \<Rightarrow> nat \<Rightarrow> kernel \<Rightarrow> bool" where
  "elapsed E k n E' k' \<longleftrightarrow>
     now_time E' k' = now_time E k + n
   \<and> acontainer (klists k') = readied (woken E k n) k
   \<and> (\<forall>t. wake_time E' k' t = (if woken E k n t then None else wake_time E k t))
   \<and> avalue (klists k') = avalue (klists k)
   \<and> tcbs k' = tcbs k \<and> pxCurrentTCB k' = pxCurrentTCB k
   \<and> uxSchedulerSuspended k' = uxSchedulerSuspended k
   \<and> xSchedulerRunning k' = xSchedulerRunning k \<and> uxCurrentNumberOfTasks k' = uxCurrentNumberOfTasks k
   \<and> E \<le> E' \<and> xNumOfOverflows k' = xNumOfOverflows k + of_nat (E' - E)"

lemma elapsedD:
  assumes "elapsed E k n E' k'"
  shows "now_time E' k' = now_time E k + n" "acontainer (klists k') = readied (woken E k n) k"
    "wake_time E' k' t = (if woken E k n t then None else wake_time E k t)"
    "avalue (klists k') = avalue (klists k)"
    "tcbs k' = tcbs k" "pxCurrentTCB k' = pxCurrentTCB k"
    "uxSchedulerSuspended k' = uxSchedulerSuspended k"
    "xSchedulerRunning k' = xSchedulerRunning k" "uxCurrentNumberOfTasks k' = uxCurrentNumberOfTasks k"
    "E \<le> E'" "xNumOfOverflows k' = xNumOfOverflows k + of_nat (E' - E)"
  using assms by (simp_all add: elapsed_def)

lemma elapsed_refl:
  assumes "kinv True T T k"
  shows "elapsed E k 0 E k"
proof -
  have "\<not> woken E k 0 t" for t using wake_later_than_now [OF assms, of E t] by (auto simp: woken_def)
  then have "woken E k 0 = (\<lambda>t. False)" by (intro ext) simp
  then show ?thesis by (simp add: elapsed_def readied_none)
qed

lemma woken_add:
  assumes "elapsed E k m E1 k1"
  shows "woken E k (m + n) t \<longleftrightarrow> woken E k m t \<or> woken E1 k1 n t"
  unfolding woken_def [of E1] elapsedD(1,3) [OF assms] by (auto simp: woken_def)

lemma elapsed_trans:
  assumes 1: "elapsed E k m E1 k1" and 2: "elapsed E1 k1 n E2 k2"
  shows "elapsed E k (m + n) E2 k2"
proof -
  note a = elapsedD [OF 1] and b = elapsedD [OF 2]
  have w: "woken E k (m + n) = (\<lambda>t. woken E k m t \<or> woken E1 k1 n t)"
    using woken_add [OF 1] by (intro ext) simp
  have "readied (woken E1 k1 n) k1 = readied (woken E k (m + n)) k"
    unfolding readied_readied [OF a(5,2)] w ..
  moreover have "E2 - E = (E1 - E) + (E2 - E1)" using a(10) b(10) by linarith
  then have "xNumOfOverflows k2 = xNumOfOverflows k + of_nat (E2 - E)"
    unfolding b(11) a(11) by simp
  ultimately show ?thesis
    unfolding elapsed_def w using a b by (auto intro: order.trans)
qed

lemma tick_elapsed:
  assumes k: "kinv True T T k" and e: "tick_effect E k sw k'"
  shows "elapsed E k 1 (E + overflow_now k) k'"
proof -
  let ?w = "\<lambda>t. wake_time E k t = Some (now_time E k + 1)"
  note two = two_delayed_listsD [OF kinv_two [OF k]]
  have w: "woken E k 1 = ?w"
    using wake_later_than_now [OF k, of E] by (intro ext) (fastforce simp: woken_def)
  have sl: "sl k' t = (if ?w t then Some (Ready (unat (prio k t))) else sl k t)" for t
    using e by (simp add: tick_effect_def readied_def)
  have v: "avalue (klists k') = avalue (klists k)" using e by (simp add: tick_effect_def)
  have d: "pxDelayedTaskList k' = (if overflow_now k = 0 then pxDelayedTaskList k else pxOverflowDelayedTaskList k)"
    "pxOverflowDelayedTaskList k' = (if overflow_now k = 0 then pxOverflowDelayedTaskList k else pxDelayedTaskList k)"
    using e by (simp_all add: tick_effect_def)
  have "wake_time (E + overflow_now k) k' t = (if ?w t then None else wake_time E k t)" for t
  proof (cases "overflow_now k = 0")
    case True
    with two(4,5) [THEN not_sym] show ?thesis by (simp add: wake_time_def sl v d)
  next
    case False
    then have z: "xTickCount k + 1 = 0" and o: "overflow_now k = 1" by (simp_all add: overflow_now_def split: if_splits)
    have "\<not> xTickCount k < u" for u
      using tick_wrap [OF z] unsigned_less [of u, where 'a = nat] by (simp add: word_less_nat_alt)
    then have "sl k t \<noteq> Some (pxDelayedTaskList k)" using kinv_parts(4) [OF k] by (auto simp: delay_ok_def)
    then show ?thesis using o two(1) two(4,5) [THEN not_sym] by (auto simp: wake_time_def sl v d)
  qed
  then show ?thesis unfolding elapsed_def w using e by (simp add: tick_effect_def)
qed

lemma time_upd [simp]:
  "wake_time E (k\<lparr>xYieldPending := b\<rparr>) t = wake_time E k t" "now_time E (k\<lparr>xYieldPending := b\<rparr>) = now_time E k"
  "wake_time E (k\<lparr>uxPendedTicks := n\<rparr>) t = wake_time E k t" "now_time E (k\<lparr>uxPendedTicks := n\<rparr>) = now_time E k"
  by (simp_all add: wake_time_def now_time_def)

lemma elapsed_yield: "elapsed E k n E' (k'\<lparr>xYieldPending := b\<rparr>) = elapsed E k n E' k'"
  by (simp add: elapsed_def)

section \<open>Pended ticks\<close>

lemma pended_ticks_effect:
  assumes "kinv True T T k" and "uxSchedulerSuspended k = 0"
  shows "\<exists>k' E'. pended_ticks n k = Returns k' \<and> kinv True T T k' \<and> elapsed E k n E' k'
     \<and> (xYieldPending k \<longrightarrow> xYieldPending k')
     \<and> ((\<exists>t. woken E k n t \<and> prio k t \<ge> prio k (current k)) \<longrightarrow> xYieldPending k')"
  using assms
proof (induction n arbitrary: E k)
  case 0
  have "\<not> woken E k 0 t" for t using wake_later_than_now [OF 0(1), of E t] by (auto simp: woken_def)
  with 0 elapsed_refl [OF 0(1), of E] show ?case by auto
next
  case (Suc n)
  obtain sw k1 where t: "xTaskIncrementTick k = Returns (sw, k1)" "kinv True T T k1" "tick_effect E k sw k1"
    using tick_spec [OF Suc.prems] by blast
  let ?k = "if sw then k1\<lparr>xYieldPending := True\<rparr> else k1"
  let ?E = "E + overflow_now k"
  have k1: "kinv True T T ?k" using t(2) kinv_cong [OF t(2), of "k1\<lparr>xYieldPending := True\<rparr>"] by simp
  have e: "elapsed E k 1 ?E ?k"
    using tick_elapsed [OF Suc.prems(1) t(3)] by (cases sw) (simp_all only: elapsed_yield if_True if_False)
  note f = elapsedD [OF e]
  have "uxSchedulerSuspended ?k = 0" unfolding f(7) by (rule Suc.prems(2))
  from Suc.IH [OF k1 this, of ?E] obtain k' E' where k': "pended_ticks n ?k = Returns k'" "kinv True T T k'"
    "elapsed ?E ?k n E' k'" "xYieldPending ?k \<longrightarrow> xYieldPending k'"
    "(\<exists>t. woken ?E ?k n t \<and> prio ?k t \<ge> prio ?k (current ?k)) \<longrightarrow> xYieldPending k'" by blast
  have "woken E k 1 u \<Longrightarrow> prio k u \<ge> prio k (current k) \<Longrightarrow> sw" for u
    using t(3) wake_later_than_now [OF Suc.prems(1), of E u] by (fastforce simp: tick_effect_def woken_def)
  then have "woken E k (1 + n) u \<Longrightarrow> prio k u \<ge> prio k (current k) \<Longrightarrow> xYieldPending k'" for u
    using k'(4,5) unfolding woken_add [OF e] f(5,6) by auto
  moreover have "xYieldPending k \<longrightarrow> xYieldPending k'"
    using k'(4) t(3) by (auto simp: tick_effect_def)
  ultimately show ?case
    using t(1) k'(1,2) elapsed_trans [OF e k'(3)] by (intro exI [of _ k'] exI [of _ E']) auto
qed

section \<open>xTaskResumeAll\<close>

text \<open>The state when the pending tasks are ready and the ticks are processed, before the yield.\<close>

definition resumed :: "nat \<Rightarrow> kernel \<Rightarrow> nat \<Rightarrow> kernel \<Rightarrow> bool" where
  "resumed E k E' k' \<longleftrightarrow>
     now_time E' k' = now_time E k + unat (uxPendedTicks k)
   \<and> (\<forall>t. pending k t \<longrightarrow> wake_time E' k' t = None)
   \<and> (\<forall>t. \<not> pending k t \<longrightarrow> wake_time E' k' t =
            (if woken E k (unat (uxPendedTicks k)) t then None else wake_time E k t))
   \<and> acontainer (klists k') = readied (\<lambda>t. pending k t \<or> woken E k (unat (uxPendedTicks k)) t) k
   \<and> avalue (klists k') = avalue (klists k)
   \<and> tcbs k' = tcbs k \<and> pxCurrentTCB k' = pxCurrentTCB k
   \<and> uxSchedulerSuspended k' = 0 \<and> uxPendedTicks k' = 0
   \<and> xSchedulerRunning k' = xSchedulerRunning k \<and> uxCurrentNumberOfTasks k' = uxCurrentNumberOfTasks k
   \<and> (xYieldPending k \<longrightarrow> xYieldPending k')
   \<and> ((\<exists>t. (pending k t \<or> woken E k (unat (uxPendedTicks k)) t) \<and> prio k t \<ge> prio k (current k))
         \<longrightarrow> xYieldPending k')"

lemma resume_all_last:
  assumes k: "kinv True T T k" and u: "uxSchedulerSuspended k = 1" and n: "uxCurrentNumberOfTasks k \<noteq> 0"
  shows "\<exists>E' k1. resumed E k E' k1 \<and> kinv True T T k1
     \<and> xTaskResumeAll k = (if xYieldPending k1 then obind (portYIELD k1) (\<lambda>k2. Returns (True, k2))
                            else Returns (False, k1))"
proof -
  let ?k1 = "k\<lparr>uxSchedulerSuspended := uxSchedulerSuspended k - 1\<rparr>"
  let ?n = "unat (uxPendedTicks k)"
  have k1: "kinv True T T ?k1" by (rule kinv_cong [OF k]) simp_all
  obtain k2 where k2: "ready_pending False ?k1 = Some (\<exists>t. pending ?k1 t, k2)" "kinv True T T k2"
    "pending_frame ?k1 k2" "acontainer (klists k2) = readied (pending ?k1) ?k1"
    "xYieldPending k2 \<longleftrightarrow> xYieldPending ?k1 \<or> (\<exists>t. pending ?k1 t \<and> prio ?k1 t \<ge> prio ?k1 (current ?k1))"
    using ready_pending_effect [OF k1, of False] by auto
  note g = pending_frameD [OF k2(3)]
  let ?k3 = "if \<exists>t. pending ?k1 t then prvResetNextTaskUnblockTime k2 else k2"
  have k3: "kinv True T T ?k3" using k2(2) kinv_reset_next [OF k2(2)] by simp
  have k3f: "klists ?k3 = klists k2" "tcbs ?k3 = tcbs k" "pxCurrentTCB ?k3 = pxCurrentTCB k"
    "xTickCount ?k3 = xTickCount k" "uxSchedulerSuspended ?k3 = 0" "uxPendedTicks ?k3 = uxPendedTicks k"
    "xYieldPending ?k3 = xYieldPending k2" "xSchedulerRunning ?k3 = xSchedulerRunning k"
    "uxCurrentNumberOfTasks ?k3 = uxCurrentNumberOfTasks k"
    "pxDelayedTaskList ?k3 = pxDelayedTaskList k" "pxOverflowDelayedTaskList ?k3 = pxOverflowDelayedTaskList k"
    using g u by simp_all
  have p1: "pending ?k1 = pending k" by (intro ext) (simp add: pending_def)
  have "readied (pending ?k1) ?k1 = readied (pending k) k"
    unfolding p1 by (intro ext) (simp add: readied_def split: titem.split)
  then have c3: "acontainer (klists ?k3) = readied (pending k) k"
    using k2(4) k3f(1) by (simp only:)
  have v3: "avalue (klists ?k3) = avalue (klists k)" using g(7) k3f(1) by simp
  have now3: "now_time E ?k3 = now_time E k" by (simp add: now_time_def g(3))
  note two = two_delayed_listsD [OF kinv_two [OF k]]
  have wake3: "wake_time E ?k3 t = (if pending k t then None else wake_time E k t)" for t
    unfolding wake_time_def c3 v3 k3f(10,11) readied_def
    using two(4,5) [THEN not_sym] by simp
  obtain k4 E' where k4: "pended_ticks ?n ?k3 = Returns k4" "kinv True T T k4" "elapsed E ?k3 ?n E' k4"
    "xYieldPending ?k3 \<longrightarrow> xYieldPending k4"
    "(\<exists>t. woken E ?k3 ?n t \<and> prio ?k3 t \<ge> prio ?k3 (current ?k3)) \<longrightarrow> xYieldPending k4"
    using pended_ticks_effect [OF k3 k3f(5), of ?n E] by blast
  note e = elapsedD [OF k4(3)]
  let ?k5 = "k4\<lparr>uxPendedTicks := 0\<rparr>"
  have k5: "kinv True T T ?k5" by (rule kinv_cong [OF k4(2)]) simp_all
  have w3: "woken E ?k3 ?n t \<longleftrightarrow> \<not> pending k t \<and> woken E k ?n t" for t
    unfolding woken_def wake3 now3 by simp
  have "readied (woken E ?k3 ?n) ?k3 = readied (\<lambda>t. pending k t \<or> woken E k ?n t) k"
    unfolding readied_readied [OF k3f(2) c3] by (rule readied_cong) (use w3 in auto)
  then have c5: "acontainer (klists ?k5) = readied (\<lambda>t. pending k t \<or> woken E k ?n t) k"
    unfolding e(2) [symmetric] by simp
  have wt5: "wake_time E' ?k5 t = wake_time E' k4 t" for t by (simp add: wake_time_def)
  have y: "(\<exists>t. (pending k t \<or> woken E k ?n t) \<and> prio k t \<ge> prio k (current k)) \<longrightarrow> xYieldPending k4"
  proof
    assume "\<exists>t. (pending k t \<or> woken E k ?n t) \<and> prio k t \<ge> prio k (current k)"
    then obtain t where t: "pending k t \<or> woken E k ?n t" "prio k t \<ge> prio k (current k)" by blast
    show "xYieldPending k4"
    proof (cases "pending k t")
      case True
      with t(2) k2(5) p1 have "xYieldPending k2" by auto
      with k4(4) k3f(7) show ?thesis by simp
    next
      case False
      with t w3 have "woken E ?k3 ?n t" by blast
      with t(2) k4(5) show ?thesis unfolding k3f(2,3) by blast
    qed
  qed
  have "resumed E k E' ?k5"
    unfolding resumed_def wt5 e(3) w3 wake3 c5
    using e k4(4) k2(5) y now3 v3 by (simp add: now_time_def k3f)
  moreover have "xTaskResumeAll k = (if xYieldPending ?k5 then obind (portYIELD ?k5) (\<lambda>k2. Returns (True, k2))
      else Returns (False, ?k5))"
  proof -
    have t: "(if 0 < uxPendedTicks ?k3 then obind (pended_ticks (unat (uxPendedTicks ?k3)) ?k3)
          (\<lambda>k4. Returns (k4\<lparr>uxPendedTicks := 0\<rparr>)) else Returns ?k3) = Returns ?k5"
    proof (cases "uxPendedTicks k = 0")
      case True
      with k4(1) have "?k3 = k4" unfolding k3f(6) by simp
      moreover have "k4\<lparr>uxPendedTicks := 0\<rparr> = k4" using True k3f(6) \<open>?k3 = k4\<close> by (cases k4) auto
      ultimately show ?thesis unfolding k3f(6) using True by simp
    next
      case False
      then have "0 < uxPendedTicks k" by (simp add: word_neq_0_conv)
      with k4(1) show ?thesis unfolding k3f(6) by simp
    qed
    have s: "uxSchedulerSuspended ?k1 = 0 \<and> uxCurrentNumberOfTasks ?k1 > 0"
      using u n by (simp add: word_neq_0_conv)
    show ?thesis
      unfolding xTaskResumeAll_def Let_def configASSERT_def
      by (subst if_P, simp add: u, subst if_P [OF s], unfold k2(1) oreturns.simps obind.simps prod.case t)
        (rule refl)
  qed
  ultimately show ?thesis using k5 by blast
qed

lemma resume_all_nested:
  assumes "uxSchedulerSuspended k \<noteq> 0" and "uxSchedulerSuspended k \<noteq> 1"
  shows "xTaskResumeAll k = Returns (False, k\<lparr>uxSchedulerSuspended := uxSchedulerSuspended k - 1\<rparr>)"
  using assms by (simp add: xTaskResumeAll_def)

end
