(* ===== verification/Tasks_Run.thy ===== *)
theory Tasks_Run
  imports Tasks_Resume
begin

text \<open>
  The calls of \<open>tasks.c\<close> in any order, by tasks and interrupts: \<open>good\<close> holds between two calls of a
  running kernel, every allowed call returns (no assertion fails, no loop hangs) and keeps it. Its
  last part is what preemption promises: no ready task has a higher priority than the running one,
  unless a context switch is pending.
\<close>

section \<open>The state between two calls\<close>

abbreviation (input) waiting :: "kernel \<Rightarrow> task \<Rightarrow> bool" where
  "waiting k t \<equiv> ucNotifyState (tcbs k t) = taskWAITING_NOTIFICATION"

definition mid :: "task \<Rightarrow> task set \<Rightarrow> kernel \<Rightarrow> bool" where
  "mid i T k \<longleftrightarrow> kinv True T T k
     \<and> i \<in> T \<and> (\<exists>p. sl k i = Some (Ready p))
     \<and> (\<exists>c\<in>T. pxCurrentTCB k = Some c)
     \<and> xSchedulerRunning k \<and> uxCurrentNumberOfTasks k \<noteq> 0
     \<and> (\<forall>t. waiting k t \<longrightarrow> el k t = None)
     \<and> (\<forall>t e. el k t = Some (EventList e) \<longrightarrow> (\<forall>p. sl k t \<noteq> Some (Ready p)))
     \<and> (uxSchedulerSuspended k = 0 \<longrightarrow> (\<forall>t. \<not> pending k t))"

definition cur_ready :: "kernel \<Rightarrow> bool" where
  "cur_ready k \<longleftrightarrow> (\<exists>p. sl k (current k) = Some (Ready p))"

definition calm :: "kernel \<Rightarrow> bool" where
  "calm k \<longleftrightarrow> xYieldPending k \<or> (\<forall>t p. sl k t = Some (Ready p) \<longrightarrow> prio k t \<le> prio k (current k))"

definition good :: "task \<Rightarrow> task set \<Rightarrow> kernel \<Rightarrow> bool" where
  "good i T k \<longleftrightarrow> mid i T k \<and> cur_ready k \<and> calm k"

lemma midD:
  assumes "mid i T k"
  shows "kinv True T T k" "i \<in> T" "\<exists>p. sl k i = Some (Ready p)" "\<exists>c\<in>T. pxCurrentTCB k = Some c"
    "xSchedulerRunning k" "uxCurrentNumberOfTasks k \<noteq> 0"
    "waiting k t \<Longrightarrow> el k t = None"
    "el k t = Some (EventList e) \<Longrightarrow> sl k t \<noteq> Some (Ready p)"
    "uxSchedulerSuspended k = 0 \<Longrightarrow> \<not> pending k t"
  using assms unfolding mid_def by blast+

lemma mid_cur: "mid i T k \<Longrightarrow> pxCurrentTCB k = Some (current k) \<and> current k \<in> T"
  using midD(4) by fastforce

lemma goodD: "good i T k \<Longrightarrow> mid i T k" "good i T k \<Longrightarrow> cur_ready k" "good i T k \<Longrightarrow> calm k"
  by (simp_all add: good_def)

text \<open>How a change of the containers and control blocks keeps \<open>mid\<close>.\<close>

lemma mid_step:
  assumes m: "mid i T k" and k': "kinv True T T k'"
    and f: "pxCurrentTCB k' = pxCurrentTCB k" "xSchedulerRunning k' = xSchedulerRunning k"
      "uxCurrentNumberOfTasks k' = uxCurrentNumberOfTasks k"
    and i: "\<exists>p. sl k' i = Some (Ready p)"
    and w: "\<And>t. waiting k' t \<Longrightarrow> el k' t = None"
    and b: "\<And>t e p. el k' t = Some (EventList e) \<Longrightarrow> sl k' t = Some (Ready p) \<Longrightarrow> False"
    and p: "\<And>t. uxSchedulerSuspended k' = 0 \<Longrightarrow> pending k' t \<Longrightarrow> False"
  shows "mid i T k'"
  unfolding mid_def f using midD(2,4,5,6) [OF m] k' i w b p by blast

text \<open>Only fields \<open>mid\<close> does not look at.\<close>

lemma mid_same:
  assumes m: "mid i T k" and "klists k' = klists k" "uxTopReadyPriority k' = uxTopReadyPriority k"
    and "\<And>t. prio k' t = prio k t" "\<And>t. uxBasePriority (tcbs k' t) = uxBasePriority (tcbs k t)"
    and "pxDelayedTaskList k' = pxDelayedTaskList k"
    and "pxOverflowDelayedTaskList k' = pxOverflowDelayedTaskList k"
    and "xTickCount k' = xTickCount k" "xNextTaskUnblockTime k' = xNextTaskUnblockTime k"
    and "pxCurrentTCB k' = pxCurrentTCB k" "xSchedulerRunning k' = xSchedulerRunning k"
      "uxCurrentNumberOfTasks k' = uxCurrentNumberOfTasks k"
    and "\<And>t. waiting k' t \<Longrightarrow> waiting k t \<or> el k t = None"
    and "uxSchedulerSuspended k' = 0 \<Longrightarrow> uxSchedulerSuspended k = 0"
  shows "mid i T k'"
  by (rule mid_step [OF m kinv_cong [OF midD(1) [OF m]]])
    (use assms(2-) midD [OF m] in \<open>auto simp: pending_def\<close>)

lemma good_same:
  assumes g: "good i T k" and "klists k' = klists k" "uxTopReadyPriority k' = uxTopReadyPriority k"
    and "\<And>t. prio k' t = prio k t" "\<And>t. uxBasePriority (tcbs k' t) = uxBasePriority (tcbs k t)"
    and "pxDelayedTaskList k' = pxDelayedTaskList k"
    and "pxOverflowDelayedTaskList k' = pxOverflowDelayedTaskList k"
    and "xTickCount k' = xTickCount k" "xNextTaskUnblockTime k' = xNextTaskUnblockTime k"
    and "pxCurrentTCB k' = pxCurrentTCB k" "xSchedulerRunning k' = xSchedulerRunning k"
      "uxCurrentNumberOfTasks k' = uxCurrentNumberOfTasks k"
    and "\<And>t. waiting k' t \<Longrightarrow> waiting k t \<or> el k t = None"
    and "uxSchedulerSuspended k' = 0 \<Longrightarrow> uxSchedulerSuspended k = 0"
    and "xYieldPending k \<Longrightarrow> xYieldPending k'"
  shows "good i T k'"
proof -
  have "mid i T k'" by (rule mid_same [OF goodD(1) [OF g] assms(2-14)])
  moreover have "cur_ready k'" using goodD(2) [OF g] assms(2,10) by (simp add: cur_ready_def)
  moreover have "calm k'" using goodD(3) [OF g] assms(2,4,10,15) by (auto simp: calm_def)
  ultimately show ?thesis by (simp add: good_def)
qed

text \<open>The running task is on no event list.\<close>

lemma running_no_event:
  assumes "good i T k" and "uxSchedulerSuspended k = 0"
  shows "el k (current k) = None"
proof (rule ccontr)
  assume "el k (current k) \<noteq> None"
  then obtain l where l: "el k (current k) = Some l" by blast
  with placedD(5) [OF kinv_parts(1) [OF midD(1) [OF goodD(1) [OF assms(1)]]]] have "\<not> state_list l" by blast
  with l midD(8,9) [OF goodD(1) [OF assms(1)]] assms(2) goodD(2) [OF assms(1)] show False
    by (cases l) (auto simp: pending_def cur_ready_def)
qed

section \<open>Yielding\<close>

lemma yield_good:
  assumes m: "mid i T k" and c: "uxSchedulerSuspended k \<noteq> 0 \<Longrightarrow> cur_ready k"
  shows "\<exists>k'. portYIELD k = Returns k' \<and> good i T k' \<and> uxSchedulerSuspended k' = uxSchedulerSuspended k"
proof (cases "uxSchedulerSuspended k = 0")
  case True
  obtain q where q: "sl k i = Some (Ready q)" using midD(3) [OF m] by blast
  from switch_spec [OF midD(1) [OF m] q True] obtain k' c where
    s: "vTaskSwitchContext k = Returns k'" "kinv True T T k'" "switch_frame k k'"
      "pxCurrentTCB k' = Some c" "c \<in> T" "highest_ready k' c" by blast
  note f = switch_frameD [OF s(3)]
  have "mid i T k'"
    unfolding mid_def using midD [OF m] s(2,4,5) by (simp add: f pending_def)
  moreover have "cur_ready k'" "calm k'"
    using s(4,6) by (auto simp: cur_ready_def calm_def highest_ready_def)
  ultimately show ?thesis using s(1) f by (auto simp: portYIELD_def good_def)
next
  case False
  let ?k = "k\<lparr>xYieldPending := True\<rparr>"
  have "mid i T ?k" by (rule mid_same [OF m]) simp_all
  moreover have "cur_ready ?k" "calm ?k" using c [OF False] by (simp_all add: cur_ready_def calm_def)
  ultimately show ?thesis using switch_suspended [OF False] by (simp add: portYIELD_def good_def)
qed

section \<open>Readying a task\<close>

definition make_ready :: "task \<Rightarrow> kernel \<Rightarrow> kernel" where
  "make_ready t k = prvAddTaskToReadyList t (uxListRemove_k (StateItem t) k)"

lemma make_ready_frame [simp]:
  "acontainer (klists (make_ready t k)) = (acontainer (klists k))(StateItem t := Some (Ready (unat (prio k t))))"
  "tcbs (make_ready t k) = tcbs k" "pxCurrentTCB (make_ready t k) = pxCurrentTCB k"
  "uxSchedulerSuspended (make_ready t k) = uxSchedulerSuspended k"
  "xSchedulerRunning (make_ready t k) = xSchedulerRunning k"
  "uxCurrentNumberOfTasks (make_ready t k) = uxCurrentNumberOfTasks k"
  "xYieldPending (make_ready t k) = xYieldPending k" "xTickCount (make_ready t k) = xTickCount k"
  "avalue (klists (make_ready t k)) = avalue (klists k)"
  "pxDelayedTaskList (make_ready t k) = pxDelayedTaskList k"
  "pxOverflowDelayedTaskList (make_ready t k) = pxOverflowDelayedTaskList k"
  by (auto simp: make_ready_def prvAddTaskToReadyList_def prim_defs Let_def)

lemma mid_make_ready:
  assumes m: "mid i T k" and t: "t \<in> T" and e: "\<And>e. el k t \<noteq> Some (EventList e)"
  shows "mid i T (make_ready t k)"
proof (rule mid_step [OF m])
  show "kinv True T T (make_ready t k)"
    unfolding make_ready_def by (intro inv_intros midD(1) [OF m] t)
  show "\<exists>p. sl (make_ready t k) i = Some (Ready p)" using midD(3) [OF m] by auto
  show "el (make_ready t k) u = None" if "waiting (make_ready t k) u" for u
    using midD(7) [OF m, of u] that by simp
  show False if "el (make_ready t k) u = Some (EventList x)" "sl (make_ready t k) u = Some (Ready p)" for u x p
    using midD(8) [OF m, of u x] that e by (auto split: if_splits)
  show False if "uxSchedulerSuspended (make_ready t k) = 0" "pending (make_ready t k) u" for u
    using midD(9) [OF m, of u] that by (simp add: pending_def)
qed simp_all

lemma good_make_ready:
  assumes g: "good i T k" and t: "t \<in> T" and e: "\<And>e. el k t \<noteq> Some (EventList e)"
    and p: "xYieldPending k \<or> prio k t \<le> prio k (current k)"
  shows "good i T (make_ready t k)"
  using mid_make_ready [OF goodD(1) [OF g] t e] goodD(2,3) [OF g] p
  by (auto simp: good_def cur_ready_def calm_def)

text \<open>Ready a task, then yield when \<open>b\<close>, which is so when it has a higher priority.\<close>

lemma ready_then_yield:
  assumes g: "good i T k" and t: "t \<in> T" and e: "\<And>e. el k t \<noteq> Some (EventList e)"
    and b: "\<not> b \<Longrightarrow> prio k t \<le> prio k (current k)"
  shows "\<exists>k'. (if b then portYIELD (make_ready t k) else Returns (make_ready t k)) = Returns k' \<and> good i T k'"
proof (cases b)
  case True
  have "cur_ready (make_ready t k)" using goodD(2) [OF g] by (auto simp: cur_ready_def)
  then show ?thesis using True yield_good [OF mid_make_ready [OF goodD(1) [OF g] t e]] by auto
next
  case False
  then show ?thesis using good_make_ready [OF g t e] b by auto
qed

section \<open>Resuming the scheduler\<close>

lemma mid_resumed:
  assumes m: "mid i T k" and r: "resumed E k E' k'" and k': "kinv True T T k'"
  shows "mid i T k'"
proof (rule mid_step [OF m k'])
  have c: "acontainer (klists k') = readied (\<lambda>t. pending k t \<or> woken E k (unat (uxPendedTicks k)) t) k"
    using r by (simp add: resumed_def)
  have t: "tcbs k' = tcbs k" using r by (simp add: resumed_def)
  show "pxCurrentTCB k' = pxCurrentTCB k" "xSchedulerRunning k' = xSchedulerRunning k"
    "uxCurrentNumberOfTasks k' = uxCurrentNumberOfTasks k" using r by (simp_all add: resumed_def)
  show "\<exists>p. sl k' i = Some (Ready p)" using midD(3) [OF m] by (auto simp: c readied_def)
  show "el k' u = None" if "waiting k' u" for u using midD(7) [OF m, of u] that by (simp add: c t readied_def)
  show False if "el k' u = Some (EventList e)" "sl k' u = Some (Ready p)" for u e p
    using midD(8) [OF m, of u e] that by (auto simp: c readied_def split: if_splits)
  show False if "pending k' u" for u using that by (auto simp: pending_def c readied_def split: if_splits)
qed

lemma resume_all_good:
  assumes m: "mid i T k" and u: "uxSchedulerSuspended k \<noteq> 0"
  shows "\<exists>b k'. xTaskResumeAll k = Returns (b, k') \<and> mid i T k' \<and> (b \<longrightarrow> good i T k')
     \<and> (cur_ready k \<and> calm k \<longrightarrow> good i T k')
     \<and> uxSchedulerSuspended k' = uxSchedulerSuspended k - 1"
proof (cases "uxSchedulerSuspended k = 1")
  case True
  obtain E' k1 where r: "resumed 0 k E' k1" "kinv True T T k1"
    and x: "xTaskResumeAll k = (if xYieldPending k1 then obind (portYIELD k1) (\<lambda>k2. Returns (True, k2))
              else Returns (False, k1))"
    using resume_all_last [OF midD(1) [OF m] True midD(6) [OF m], of 0] by blast
  have m1: "mid i T k1" by (rule mid_resumed [OF m r])
  have s1: "uxSchedulerSuspended k1 = 0" using r(1) by (simp add: resumed_def)
  show ?thesis
  proof (cases "xYieldPending k1")
    case True
    from yield_good [OF m1] s1 obtain k' where "portYIELD k1 = Returns k'" "good i T k'"
      "uxSchedulerSuspended k' = 0" by auto
    then show ?thesis using x True \<open>uxSchedulerSuspended k = 1\<close> by (auto simp: good_def)
  next
    case False
    let ?R = "\<lambda>t. pending k t \<or> woken 0 k (unat (uxPendedTicks k)) t"
    have c: "acontainer (klists k1) = readied ?R k" "tcbs k1 = tcbs k" "pxCurrentTCB k1 = pxCurrentTCB k"
      and y: "\<not> xYieldPending k" "\<And>t. ?R t \<Longrightarrow> prio k t < prio k (current k)"
      using r(1) False by (auto simp: resumed_def not_le)
    have "good i T k1" if "cur_ready k" "calm k"
    proof -
      have "cur_ready k1" using that(1) by (auto simp: cur_ready_def c readied_def)
      moreover have "calm k1"
        using that(2) y unfolding calm_def c readied_def
        by (auto split: if_splits dest: less_imp_le)
      ultimately show ?thesis using m1 by (simp add: good_def)
    qed
    then show ?thesis using x False m1 s1 \<open>uxSchedulerSuspended k = 1\<close>
      by (intro exI [of _ False] exI [of _ k1]) simp
  qed
next
  case False
  let ?k = "k\<lparr>uxSchedulerSuspended := uxSchedulerSuspended k - 1\<rparr>"
  have "uxSchedulerSuspended k - 1 \<noteq> 0" using False by simp
  then have "mid i T ?k" by (intro mid_same [OF m]) simp_all
  moreover have "cur_ready ?k = cur_ready k" "calm ?k = calm k" by (simp_all add: cur_ready_def calm_def)
  ultimately show ?thesis using resume_all_nested [OF u False]
    by (intro exI [of _ False] exI [of _ ?k]) (simp add: good_def)
qed

lemma mid_suspend_all:
  assumes "mid i T k" and "uxSchedulerSuspended k + 1 \<noteq> 0"
  shows "mid i T (vTaskSuspendAll k)"
  unfolding vTaskSuspendAll_def by (rule mid_same [OF assms(1)]) (use assms(2) in simp_all)

lemma suspend_all_frame [simp]:
  "klists (vTaskSuspendAll k) = klists k" "tcbs (vTaskSuspendAll k) = tcbs k"
  "pxCurrentTCB (vTaskSuspendAll k) = pxCurrentTCB k" "xYieldPending (vTaskSuspendAll k) = xYieldPending k"
  "uxSchedulerSuspended (vTaskSuspendAll k) = uxSchedulerSuspended k + 1"
  "xTickCount (vTaskSuspendAll k) = xTickCount k" "xSchedulerRunning (vTaskSuspendAll k) = xSchedulerRunning k"
  "pxDelayedTaskList (vTaskSuspendAll k) = pxDelayedTaskList k"
  "pxOverflowDelayedTaskList (vTaskSuspendAll k) = pxOverflowDelayedTaskList k"
  "cur_ready (vTaskSuspendAll k) = cur_ready k" "calm (vTaskSuspendAll k) = calm k"
  by (simp_all add: vTaskSuspendAll_def cur_ready_def calm_def)

section \<open>Blocking the running task\<close>

lemma delay_list_not_ready: "kinv s L T k \<Longrightarrow> delay_list n b k \<noteq> Ready p"
  using two_delayed_listsD(4,5) [OF kinv_two] by (simp add: delay_list_def)

lemma mid_delay_current:
  assumes m: "mid i T k" and c: "current k \<noteq> i" and n: "n \<noteq> 0"
  shows "mid i T (prvAddCurrentTaskToDelayedList n b k)"
proof -
  obtain c where cc: "pxCurrentTCB k = Some c" "c \<in> T" using mid_cur [OF m] by blast
  note d = delay_current [OF cc(1), of n b]
  show ?thesis
  proof (rule mid_step [OF m])
    show "kinv True T T (prvAddCurrentTaskToDelayedList n b k)"
      by (rule kinv_delay_current [OF midD(1) [OF m] cc(1) cc(2) n])
    show "\<exists>p. sl (prvAddCurrentTaskToDelayedList n b k) i = Some (Ready p)"
      using midD(3) [OF m] c cc(1) by (auto simp: d)
    show "el (prvAddCurrentTaskToDelayedList n b k) u = None" if "waiting (prvAddCurrentTaskToDelayedList n b k) u" for u
      using midD(7) [OF m, of u] that by (auto simp: d split: if_splits)
    show False if "el (prvAddCurrentTaskToDelayedList n b k) u = Some (EventList e)"
      "sl (prvAddCurrentTaskToDelayedList n b k) u = Some (Ready p)" for u e p
      using midD(8) [OF m, of u e] that delay_list_not_ready [OF midD(1) [OF m]]
      by (auto simp: d split: if_splits)
    show False if "uxSchedulerSuspended (prvAddCurrentTaskToDelayedList n b k) = 0"
      "pending (prvAddCurrentTaskToDelayedList n b k) u" for u
      using midD(9) [OF m, of u] that by (simp add: pending_def d)
  qed (simp_all add: d cc(1))
qed

text \<open>The end of a blocking call: resume the scheduler, yield unless it has yielded.\<close>

lemma resume_then_yield:
  assumes "mid i T k" and "uxSchedulerSuspended k = 1"
  shows "\<exists>k'. obind (xTaskResumeAll k) (\<lambda>(already, k1). if \<not> already then portYIELD k1 else Returns k1)
     = Returns k' \<and> good i T k' \<and> uxSchedulerSuspended k' = 0"
proof -
  obtain b k1 where r: "xTaskResumeAll k = Returns (b, k1)" "mid i T k1" "b \<longrightarrow> good i T k1"
    "uxSchedulerSuspended k1 = 0" using resume_all_good [OF assms(1)] assms(2) by auto
  with yield_good [OF r(2)] show ?thesis by (cases b) auto
qed

end
