(* ===== verification/Tasks_Calls.thy ===== *)
theory Tasks_Calls
  imports Tasks_Run
begin

text \<open>
  Every call of \<open>tasks.c\<close> on existing tasks keeps \<open>good\<close>. The calls, with what their callers must
  respect: the idle task never blocks, blocking needs a scheduler that is not suspended, handles are
  of existing tasks, an interrupt does not resume a task that waits for a notification.
\<close>

section \<open>The calls\<close>

datatype kcall =
    Delay tick | DelayUntil tick tick
  | Suspend "task option" | Resume task | ResumeFromISR task | AbortDelay task
  | PrioritySet "task option" u32
  | Notify task u32 eNotifyAction | NotifyFromISR task u32 eNotifyAction "bool option"
  | GiveFromISR task "bool option"
  | NotifyTake tick | NotifyTakeEnd bool | NotifyWait u32 tick | NotifyWaitEnd u32
  | NotifyStateClear "task option"
  | SuspendAll | ResumeAll | Tick
  | EventWait nat tick | EventWake nat bool

definition yield_if :: "bool \<Rightarrow> kernel \<Rightarrow> kernel outcome" where
  "yield_if b k = (if b then portYIELD k else Returns k)"

fun kexec :: "kcall \<Rightarrow> kernel \<Rightarrow> kernel outcome" where
  "kexec (Delay n) k = vTaskDelay n k"
| "kexec (DelayUntil p n) k = obind (vTaskDelayUntil p n k) (\<lambda>(w, k1). Returns k1)"
| "kexec (Suspend h) k = vTaskSuspend h k"
| "kexec (Resume t) k = vTaskResume (Some t) k"
| "kexec (ResumeFromISR t) k = obind (xTaskResumeFromISR (Some t) k) (\<lambda>(y, k1). yield_if y k1)"
| "kexec (AbortDelay t) k = obind (xTaskAbortDelay (Some t) k) (\<lambda>(r, k1). Returns k1)"
| "kexec (PrioritySet h p) k = vTaskPrioritySet h p k"
| "kexec (Notify t v a) k = obind (xTaskGenericNotify (Some t) v a k) (\<lambda>(r, p, k1). Returns k1)"
| "kexec (NotifyFromISR t v a w) k =
     obind (xTaskGenericNotifyFromISR (Some t) v a w k) (\<lambda>(r, p, w', k1). yield_if (w' = Some True) k1)"
| "kexec (GiveFromISR t w) k =
     obind (vTaskNotifyGiveFromISR (Some t) w k) (\<lambda>(w', k1). yield_if (w' = Some True) k1)"
| "kexec (NotifyTake n) k = obind (ulTaskNotifyTake_block n k) (\<lambda>(b, k1). Returns k1)"
| "kexec (NotifyTakeEnd c) k = Returns (snd (ulTaskNotifyTake_finish c k))"
| "kexec (NotifyWait c n) k = obind (xTaskNotifyWait_block c n k) (\<lambda>(b, k1). Returns k1)"
| "kexec (NotifyWaitEnd c) k = Returns (snd (snd (xTaskNotifyWait_finish c k)))"
| "kexec (NotifyStateClear h) k = Returns (snd (xTaskNotifyStateClear h k))"
| "kexec SuspendAll k = Returns (vTaskSuspendAll k)"
| "kexec ResumeAll k = obind (xTaskResumeAll k) (\<lambda>(b, k1). Returns k1)"
| "kexec Tick k = obind (xTaskIncrementTick k) (\<lambda>(sw, k1). vTaskSwitchContext k1)"
| "kexec (EventWait e n) k =
     obind (xTaskResumeAll (vTaskPlaceOnEventList e n (vTaskSuspendAll k)))
       (\<lambda>(already, k1). if \<not> already then portYIELD k1 else Returns k1)"
| "kexec (EventWake e b) k = (let (y, k1) = xTaskRemoveFromEventList e k in yield_if (y \<and> b) k1)"

text \<open>Blocking calls: not by the idle task \<open>i\<close>, not with the scheduler suspended.\<close>

definition may_block :: "task \<Rightarrow> kernel \<Rightarrow> bool" where
  "may_block i k \<longleftrightarrow> uxSchedulerSuspended k = 0 \<and> current k \<noteq> i"

fun allowed :: "task \<Rightarrow> task set \<Rightarrow> kcall \<Rightarrow> kernel \<Rightarrow> bool" where
  "allowed i T (Delay n) k = (n = 0 \<or> may_block i k)"
| "allowed i T (DelayUntil p n) k = (n \<noteq> 0 \<and> may_block i k)"
| "allowed i T (Suspend h) k =
     (let t = prvGetTCBFromHandle h k in t \<in> T \<and> t \<noteq> i \<and> (t = current k \<longrightarrow> uxSchedulerSuspended k = 0))"
| "allowed i T (Resume t) k = (t \<in> T)"
| "allowed i T (ResumeFromISR t) k = (t \<in> T \<and> (waiting k t \<longrightarrow> uxSchedulerSuspended k = 0))"
| "allowed i T (AbortDelay t) k = (t \<in> T \<and> uxSchedulerSuspended k + 1 \<noteq> 0)"
| "allowed i T (PrioritySet h p) k = (prvGetTCBFromHandle h k \<in> T \<and> p < configMAX_PRIORITIES)"
| "allowed i T (Notify t v a) k = (t \<in> T)"
| "allowed i T (NotifyFromISR t v a w) k = (t \<in> T)"
| "allowed i T (GiveFromISR t w) k = (t \<in> T)"
| "allowed i T (NotifyTake n) k = may_block i k"
| "allowed i T (NotifyWait c n) k = may_block i k"
| "allowed i T SuspendAll k = (uxSchedulerSuspended k + 1 \<noteq> 0)"
| "allowed i T ResumeAll k = (uxSchedulerSuspended k \<noteq> 0)"
| "allowed i T (EventWait e n) k = (n \<noteq> 0 \<and> may_block i k \<and> \<not> waiting k (current k))"
| "allowed i T (EventWake e b) k = (list_items k (EventList e) \<noteq> [])"
| "allowed i T c k = True"

lemmas allowed_cases = allowed.simps kexec.simps

definition keeps :: "task \<Rightarrow> task set \<Rightarrow> kernel outcome \<Rightarrow> bool" where
  "keeps i T r \<longleftrightarrow> (\<exists>k'. r = Returns k' \<and> good i T k')"

lemma keepsI: "r = Returns k' \<Longrightarrow> good i T k' \<Longrightarrow> keeps i T r"
  by (auto simp: keeps_def)

lemma keeps_yield_if:
  assumes "mid i T k" and "cur_ready k" and "\<not> b \<Longrightarrow> calm k"
  shows "keeps i T (yield_if b k)"
  using yield_good [OF assms(1)] assms by (cases b) (auto simp: keeps_def yield_if_def good_def)

section \<open>Blocking\<close>

lemma block_resume:
  assumes "good i T k" and "may_block i k" and "n \<noteq> 0"
  shows "keeps i T (obind (xTaskResumeAll (prvAddCurrentTaskToDelayedList n b (vTaskSuspendAll k)))
           (\<lambda>(already, k1). if \<not> already then portYIELD k1 else Returns k1))"
proof -
  have m: "mid i T (vTaskSuspendAll k)"
    by (rule mid_suspend_all [OF goodD(1) [OF assms(1)]]) (use assms(2) in \<open>simp add: may_block_def\<close>)
  have "mid i T (prvAddCurrentTaskToDelayedList n b (vTaskSuspendAll k))"
    by (rule mid_delay_current [OF m]) (use assms(2,3) in \<open>simp_all add: may_block_def\<close>)
  moreover obtain c where "pxCurrentTCB (vTaskSuspendAll k) = Some c" using mid_cur [OF m] by blast
  then have "uxSchedulerSuspended (prvAddCurrentTaskToDelayedList n b (vTaskSuspendAll k)) = 1"
    using assms(2) by (simp add: delay_current may_block_def)
  ultimately show ?thesis unfolding keeps_def using resume_then_yield by blast
qed

lemma resume_idle_then_yield:
  assumes "good i T k" and "uxSchedulerSuspended k = 0"
  shows "keeps i T (obind (xTaskResumeAll (vTaskSuspendAll k))
           (\<lambda>(already, k1). if \<not> already then portYIELD k1 else Returns k1))"
proof -
  have "mid i T (vTaskSuspendAll k)" by (rule mid_suspend_all [OF goodD(1) [OF assms(1)]]) (simp add: assms(2))
  moreover have "uxSchedulerSuspended (vTaskSuspendAll k) = 1" by (simp add: assms(2))
  ultimately show ?thesis unfolding keeps_def using resume_then_yield by blast
qed

lemma good_delay:
  assumes g: "good i T k" and a: "allowed i T (Delay n) k"
  shows "keeps i T (vTaskDelay n k)"
proof (cases "n = 0")
  case True
  then show ?thesis using yield_good [OF goodD(1) [OF g]] goodD(2) [OF g]
    by (auto simp: vTaskDelay_def keeps_def)
next
  case False
  then have "0 < n" "may_block i k" using a by (auto simp: word_neq_0_conv)
  then show ?thesis using block_resume [OF g _ False, of False]
    by (simp add: vTaskDelay_def may_block_def configASSERT_def)
qed

lemma sub_ne: "(v :: tick) \<noteq> w \<Longrightarrow> v - w \<noteq> 0"
  by simp

lemma xShouldDelay_later: "xShouldDelay p w now \<Longrightarrow> w \<noteq> now"
  by (auto simp: xShouldDelay_def split: if_splits)

lemma good_delay_until:
  assumes g: "good i T k" and a: "allowed i T (DelayUntil p n) k"
  shows "keeps i T (kexec (DelayUntil p n) k)"
proof -
  let ?k = "if xShouldDelay p (p + n) (xTickCount k)
      then prvAddCurrentTaskToDelayedList (p + n - xTickCount k) False (vTaskSuspendAll k) else vTaskSuspendAll k"
  have n: "0 < n" "may_block i k" "uxSchedulerSuspended k = 0" using a by (simp_all add: word_neq_0_conv may_block_def)
  have "keeps i T (obind (xTaskResumeAll ?k) (\<lambda>(already, k1). if \<not> already then portYIELD k1 else Returns k1))"
    using block_resume [OF g n(2) sub_ne [OF xShouldDelay_later]] resume_idle_then_yield [OF g n(3)] by simp
  then obtain b k1 k2 where r: "xTaskResumeAll ?k = Returns (b, k1)"
    "(if \<not> b then portYIELD k1 else Returns k1) = Returns k2" "good i T k2"
    by (auto simp: keeps_def split: prod.splits)
  have "kexec (DelayUntil p n) k = Returns k2"
    by (simp only: kexec.simps vTaskDelayUntil_def Let_def configASSERT_def n(1,3) if_True refl
        suspend_all_frame(6) r(1,2) obind.simps prod.case)
  then show ?thesis using r(3) by (rule keepsI)
qed

text \<open>The state in which a task has put itself on an event list, the scheduler still suspended.\<close>

lemma event_wait_placed:
  assumes g: "good i T k" and a: "allowed i T (EventWait e n) k" and cc: "pxCurrentTCB k = Some c"
  defines "k3 \<equiv> vTaskPlaceOnEventList e n (vTaskSuspendAll k)"
  shows "mid i T k3" "uxSchedulerSuspended k3 = 1" "uxPendedTicks k3 = uxPendedTicks k"
    "el k3 c = Some (EventList e)" "sl k3 c = Some (delay_list n True k3)" "\<And>t. prio k3 t = prio k t"
proof -
  have n: "n \<noteq> 0" "uxSchedulerSuspended k = 0" "c \<noteq> i" "\<not> waiting k c"
    using a cc by (simp_all add: may_block_def)
  let ?k1 = "vTaskSuspendAll k"
  have c: "pxCurrentTCB ?k1 = Some c" "c \<in> T" using mid_cur [OF goodD(1) [OF g]] cc by simp_all
  let ?k2 = "vListInsert_k (EventList e) (EventItem c) ?k1"
  have k3: "k3 = prvAddCurrentTaskToDelayedList n True ?k2"
    using c(1) by (simp add: k3_def vTaskPlaceOnEventList_def)
  have m: "mid i T ?k1" by (rule mid_suspend_all [OF goodD(1) [OF g]]) (simp add: n(2))
  have e: "el ?k1 c = None" using running_no_event [OF g n(2)] cc by simp
  have k2: "kinv True T T ?k2" by (intro inv_intros midD(1) [OF m] c(2) e) simp
  have c2: "pxCurrentTCB ?k2 = Some c" using c(1) by simp
  note d = delay_current [OF c2, of n True]
  have "uxPendedTicks ?k1 = uxPendedTicks k" by (simp add: vTaskSuspendAll_def)
  have f: "xSchedulerRunning ?k2 = xSchedulerRunning ?k1"
    "uxCurrentNumberOfTasks ?k2 = uxCurrentNumberOfTasks ?k1" by (simp_all add: prim_defs)
  show "mid i T k3" unfolding k3
  proof (rule mid_step [OF m])
    let ?k3 = "prvAddCurrentTaskToDelayedList n True ?k2"
    show "kinv True T T ?k3" by (rule kinv_delay_current [OF k2 c2 c(2) n(1)])
    show "\<exists>p. sl ?k3 i = Some (Ready p)" using midD(3) [OF m] n(3) by (auto simp: d)
    show "el ?k3 u = None" if "waiting ?k3 u" for u
      using midD(7) [OF m, of u] that n(4) by (auto simp: d split: if_splits)
    show False if "el ?k3 u = Some (EventList x)" "sl ?k3 u = Some (Ready p)" for u x p
      using midD(8) [OF m, of u x] that delay_list_not_ready [OF k2, of n True]
      by (auto simp: d split: if_splits)
    show False if "uxSchedulerSuspended ?k3 = 0" for u using that by (simp add: d n(2))
  qed (use c(1) in \<open>simp_all add: d f\<close>)
  show "uxSchedulerSuspended k3 = 1" "uxPendedTicks k3 = uxPendedTicks k" "el k3 c = Some (EventList e)"
    "sl k3 c = Some (delay_list n True k3)" "\<And>t. prio k3 t = prio k t"
    unfolding k3 using \<open>uxPendedTicks ?k1 = uxPendedTicks k\<close> by (auto simp: d f n(2) delay_list_def)
qed

lemma good_event_wait:
  assumes g: "good i T k" and a: "allowed i T (EventWait e n) k"
  shows "keeps i T (kexec (EventWait e n) k)"
proof -
  obtain c where "pxCurrentTCB k = Some c" using mid_cur [OF goodD(1) [OF g]] by blast
  note p = event_wait_placed [OF g a this]
  from resume_then_yield [OF p(1,2)] show ?thesis unfolding keeps_def by (simp only: kexec.simps) blast
qed

section \<open>Waiting for a notification\<close>

lemma good_block_now:
  assumes g: "good i T k" and a: "may_block i k" and n: "n \<noteq> 0"
    and f: "\<And>c. uxPriority (f c) = uxPriority c" "\<And>c. uxBasePriority (f c) = uxBasePriority c"
  shows "keeps i T (portYIELD (prvAddCurrentTaskToDelayedList n True (update_tcb (current k) f k)))"
proof -
  have s: "uxSchedulerSuspended k = 0" "current k \<noteq> i" using a by (simp_all add: may_block_def)
  have m: "mid i T (update_tcb (current k) f k)"
    by (rule mid_same [OF goodD(1) [OF g]])
      (use f running_no_event [OF g s(1)] in \<open>auto simp: update_tcb_def split: if_splits\<close>)
  then have m': "mid i T (prvAddCurrentTaskToDelayedList n True (update_tcb (current k) f k))"
    by (rule mid_delay_current) (use s(2) n in simp_all)
  obtain c where "pxCurrentTCB (update_tcb (current k) f k) = Some c" using mid_cur [OF m] by blast
  then have "uxSchedulerSuspended (prvAddCurrentTaskToDelayedList n True (update_tcb (current k) f k)) = 0"
    using s(1) by (simp add: delay_current)
  with yield_good [OF m'] show ?thesis by (auto simp: keeps_def)
qed

lemma good_update_current:
  assumes g: "good i T k" and s: "uxSchedulerSuspended k = 0 \<or> (\<forall>c. ucNotifyState (f c) \<noteq> taskWAITING_NOTIFICATION)"
    and f: "\<And>c. uxPriority (f c) = uxPriority c" "\<And>c. uxBasePriority (f c) = uxBasePriority c"
  shows "good i T (update_tcb (current k) f k)"
  by (rule good_same [OF g]) (use f s running_no_event [OF g] in \<open>auto simp: update_tcb_def split: if_splits\<close>)

lemma good_notify_take:
  assumes g: "good i T k" and a: "allowed i T (NotifyTake n) k"
  shows "keeps i T (kexec (NotifyTake n) k)"
proof (cases "ulNotifiedValue (tcbs k (current k)) = 0 \<and> n > 0")
  case True
  then have "n \<noteq> 0" by auto
  from good_block_now [OF g _ this, of "\<lambda>c. c\<lparr>ucNotifyState := taskWAITING_NOTIFICATION\<rparr>"] a True
  show ?thesis by (auto simp: ulTaskNotifyTake_block_def keeps_def)
next
  case False
  from a have "uxSchedulerSuspended k = 0" by (simp add: may_block_def)
  with False g good_update_current [OF g, of "\<lambda>c. c\<lparr>ucNotifyState := taskWAITING_NOTIFICATION\<rparr>"]
  show ?thesis by (auto simp: ulTaskNotifyTake_block_def keeps_def)
qed

lemma good_notify_wait:
  assumes g: "good i T k" and a: "allowed i T (NotifyWait c n) k"
  shows "keeps i T (kexec (NotifyWait c n) k)"
proof (cases "ucNotifyState (tcbs k (current k)) \<noteq> taskNOTIFICATION_RECEIVED \<and> n > 0")
  case True
  let ?f = "\<lambda>d. d\<lparr>ulNotifiedValue := ulNotifiedValue d AND NOT c, ucNotifyState := taskWAITING_NOTIFICATION\<rparr>"
  from True have "n \<noteq> 0" by auto
  from good_block_now [OF g _ this, of ?f] a True
  show ?thesis by (auto simp: xTaskNotifyWait_block_def keeps_def)
next
  case False
  let ?f = "\<lambda>d. d\<lparr>ulNotifiedValue := ulNotifiedValue d AND NOT c, ucNotifyState := taskWAITING_NOTIFICATION\<rparr>"
  from a have "uxSchedulerSuspended k = 0" by (simp add: may_block_def)
  with False g good_update_current [OF g, of ?f]
  show ?thesis by (auto simp: xTaskNotifyWait_block_def keeps_def)
qed

lemma good_notify_ends:
  assumes g: "good i T k"
  shows "good i T (snd (ulTaskNotifyTake_finish c k))"
    and "good i T (snd (snd (xTaskNotifyWait_finish b k)))"
    and "good i T (snd (xTaskNotifyStateClear h k))"
proof -
  show "good i T (snd (ulTaskNotifyTake_finish c k))"
    by (rule good_same [OF g]) (auto simp: ulTaskNotifyTake_finish_def update_tcb_def Let_def split: if_splits)
  show "good i T (snd (snd (xTaskNotifyWait_finish b k)))"
    by (rule good_same [OF g]) (auto simp: xTaskNotifyWait_finish_def update_tcb_def Let_def split: if_splits)
  show "good i T (snd (xTaskNotifyStateClear h k))"
    by (rule good_same [OF g]) (auto simp: xTaskNotifyStateClear_def update_tcb_def Let_def split: if_splits)
qed

end
