(* ===== verification/Tasks_Wake.thy ===== *)
theory Tasks_Wake
  imports Tasks_Calls
begin

text \<open>
  The calls that wake, suspend or reprioritise tasks and the tick keep \<open>good\<close>; so does every call.
\<close>

section \<open>Notifying\<close>

lemma update_frame_good:
  assumes g: "good i T k"
    and f: "\<And>c. uxPriority (f c) = uxPriority c" "\<And>c. uxBasePriority (f c) = uxBasePriority c"
      "\<And>c. ucNotifyState (f c) \<noteq> taskWAITING_NOTIFICATION"
  shows "good i T (update_tcb t f k)"
  by (rule good_same [OF g]) (use f in \<open>auto simp: update_tcb_def split: if_splits\<close>)

lemma post_frame:
  "post_notification t v a k = (ok, previous, original, k1) \<Longrightarrow> original = ucNotifyState (tcbs k t)
     \<and> (\<exists>u. k1 = update_tcb t (\<lambda>c. c\<lparr>ucNotifyState := taskNOTIFICATION_RECEIVED, ulNotifiedValue := u\<rparr>) k)"
  by (auto simp: post_notification_def Let_def split: prod.splits)

lemma good_notify:
  assumes g: "good i T k" and t: "t \<in> T"
  shows "keeps i T (kexec (Notify t v a) k)"
proof -
  obtain ok pv w k1 where p: "post_notification t v a k = (ok, pv, w, k1)" by (metis prod_cases4)
  then obtain u where w: "w = ucNotifyState (tcbs k t)"
    and k1: "k1 = update_tcb t (\<lambda>c. c\<lparr>ucNotifyState := taskNOTIFICATION_RECEIVED, ulNotifiedValue := u\<rparr>) k"
    using post_frame [OF p] by auto
  have g1: "good i T k1" unfolding k1 by (rule update_frame_good [OF g]) simp_all
  show ?thesis
  proof (cases "w = taskWAITING_NOTIFICATION")
    case True
    have e: "el k t = None" using midD(7) [OF goodD(1) [OF g]] True w by simp
    let ?b = "prio k1 t > prio k1 (current k1)"
    obtain k' where k': "(if ?b then portYIELD (make_ready t k1) else Returns (make_ready t k1)) = Returns k'" "good i T k'"
      using ready_then_yield [OF g1 t, of ?b] e by (auto simp: k1 not_less)
    have "el (make_ready t k1) t = None" using e by (simp add: k1)
    then have "kexec (Notify t v a) k = Returns k'"
      using True k'(1) by (simp add: xTaskGenericNotify_def p make_ready_def [symmetric] configASSERT_def)
    then show ?thesis using k'(2) by (rule keepsI)
  next
    case False
    then show ?thesis using g1 by (simp add: xTaskGenericNotify_def p keeps_def)
  qed
qed

text \<open>A task that cannot be readied now, the scheduler being suspended, is left pending.\<close>

lemma mid_pend:
  assumes m: "mid i T k" and t: "t \<in> T" and e: "el k t = None" and w: "\<not> waiting k t"
    and u: "uxSchedulerSuspended k \<noteq> 0"
  shows "mid i T (vListInsertEnd_k xPendingReadyList (EventItem t) k)"
proof (rule mid_step [OF m])
  let ?k = "vListInsertEnd_k xPendingReadyList (EventItem t) k"
  show "kinv True T T ?k" by (intro inv_intros midD(1) [OF m] t e) simp
  show "el ?k v = None" if "waiting ?k v" for v using midD(7) [OF m, of v] that w by auto
  show False if "el ?k v = Some (EventList x)" "sl ?k v = Some (Ready p)" for v x p
    using midD(8) [OF m, of v x] that by (auto split: if_splits)
qed (use u midD(3) [OF m] in simp_all)

lemma good_ready_from_isr:
  assumes g: "good i T k" and t: "t \<in> T" and e: "el k t = None" and w: "\<not> waiting k t"
  shows "\<exists>w' k1. ready_from_isr t wk k = Returns (w', k1) \<and> keeps i T (yield_if (w' = Some True) k1)"
proof -
  note m = goodD(1) [OF g]
  let ?k1 = "if uxSchedulerSuspended k = 0 then make_ready t k else vListInsertEnd_k xPendingReadyList (EventItem t) k"
  have f: "tcbs ?k1 = tcbs k" "pxCurrentTCB ?k1 = pxCurrentTCB k" "xYieldPending ?k1 = xYieldPending k" by simp_all
  have m1: "mid i T ?k1"
  proof (cases "uxSchedulerSuspended k = 0")
    case True
    then show ?thesis using mid_make_ready [OF m t] e by simp
  next
    case False
    then show ?thesis using mid_pend [OF m t e w] by simp
  qed
  have c1: "cur_ready ?k1" using goodD(2) [OF g] by (auto simp: cur_ready_def)
  have l1: "calm ?k1" if "prio k t \<le> prio k (current k)"
    using goodD(3) [OF g] that by (auto simp: calm_def)
  let ?r = "if prio ?k1 t > prio ?k1 (current ?k1)
     then (case wk of Some w \<Rightarrow> (Some True, ?k1) | None \<Rightarrow> (None, ?k1\<lparr>xYieldPending := True\<rparr>)) else (wk, ?k1)"
  have r: "ready_from_isr t wk k = Returns ?r"
    using e unfolding ready_from_isr_def make_ready_def configASSERT_def Let_def
    by (cases wk) simp_all
  have my: "mid i T (?k1\<lparr>xYieldPending := True\<rparr>)" by (rule mid_same [OF m1]) simp_all
  have cy: "cur_ready (?k1\<lparr>xYieldPending := True\<rparr>)" using c1 by (simp add: cur_ready_def)
  have "keeps i T (yield_if (fst ?r = Some True) (snd ?r))"
  proof (cases "prio k t > prio k (current k)")
    case True
    then show ?thesis
      using keeps_yield_if [OF m1 c1, of True] keeps_yield_if [OF my cy, of False]
      unfolding f by (cases wk) (simp_all add: calm_def)
  next
    case False
    then show ?thesis
      using keeps_yield_if [OF m1 c1, of "wk = Some True"] l1 [OF leI [OF False]] unfolding f by simp
  qed
  with r show ?thesis by (metis prod.collapse)
qed

lemma good_notify_from_isr:
  assumes g: "good i T k" and t: "t \<in> T"
  shows "keeps i T (kexec (NotifyFromISR t v a wk) k)"
proof -
  obtain ok pv w k1 where p: "post_notification t v a k = (ok, pv, w, k1)" by (metis prod_cases4)
  then obtain u where w: "w = ucNotifyState (tcbs k t)"
    and k1: "k1 = update_tcb t (\<lambda>c. c\<lparr>ucNotifyState := taskNOTIFICATION_RECEIVED, ulNotifiedValue := u\<rparr>) k"
    using post_frame [OF p] by auto
  have g1: "good i T k1" unfolding k1 by (rule update_frame_good [OF g]) simp_all
  show ?thesis
  proof (cases "w = taskWAITING_NOTIFICATION")
    case True
    have "el k1 t = None" using midD(7) [OF goodD(1) [OF g]] True w by (simp add: k1)
    moreover have "\<not> waiting k1 t" by (simp add: k1)
    ultimately obtain w' k2 where "ready_from_isr t wk k1 = Returns (w', k2)"
      "keeps i T (yield_if (w' = Some True) k2)" using good_ready_from_isr [OF g1 t] by blast
    then show ?thesis using True by (simp add: xTaskGenericNotifyFromISR_def p)
  next
    case False
    then show ?thesis
      using keeps_yield_if [OF goodD(1,2) [OF g1], of "wk = Some True"] goodD(3) [OF g1]
      by (simp add: xTaskGenericNotifyFromISR_def p)
  qed
qed

lemma good_give_from_isr:
  assumes g: "good i T k" and t: "t \<in> T"
  shows "keeps i T (kexec (GiveFromISR t wk) k)"
proof -
  let ?k1 = "update_tcb t (\<lambda>c. c\<lparr>ucNotifyState := taskNOTIFICATION_RECEIVED,
     ulNotifiedValue := ulNotifiedValue c + 1\<rparr>) k"
  have g1: "good i T ?k1" by (rule update_frame_good [OF g]) simp_all
  show ?thesis
  proof (cases "waiting k t")
    case True
    have "el ?k1 t = None" using midD(7) [OF goodD(1) [OF g] True] by simp
    moreover have "\<not> waiting ?k1 t" by simp
    ultimately obtain w' k2 where "ready_from_isr t wk ?k1 = Returns (w', k2)"
      "keeps i T (yield_if (w' = Some True) k2)" using good_ready_from_isr [OF g1 t] by blast
    then show ?thesis using True by (simp add: vTaskNotifyGiveFromISR_def)
  next
    case False
    then show ?thesis
      using keeps_yield_if [OF goodD(1,2) [OF g1], of "wk = Some True"] goodD(3) [OF g1]
      by (simp add: vTaskNotifyGiveFromISR_def)
  qed
qed

section \<open>Suspending and resuming\<close>

lemma good_suspend:
  assumes g: "good i T k" and a: "allowed i T (Suspend h) k"
  shows "keeps i T (kexec (Suspend h) k)"
proof -
  let ?t = "prvGetTCBFromHandle h k"
  have t: "?t \<in> T" "?t \<noteq> i" "?t = current k \<Longrightarrow> uxSchedulerSuspended k = 0" using a by (simp_all add: Let_def)
  note m = goodD(1) [OF g]
  let ?k1 = "uxListRemove_k (StateItem ?t) k"
  let ?k2 = "if listLIST_ITEM_CONTAINER ?k1 (EventItem ?t) \<noteq> None then uxListRemove_k (EventItem ?t) ?k1 else ?k1"
  let ?k3 = "vListInsertEnd_k xSuspendedTaskList (StateItem ?t) ?k2"
  let ?k4 = "if ucNotifyState (tcbs ?k3 ?t) = taskWAITING_NOTIFICATION
    then update_tcb ?t (\<lambda>c. c\<lparr>ucNotifyState := taskNOT_WAITING_NOTIFICATION\<rparr>) ?k3 else ?k3"
  let ?k5 = "if xSchedulerRunning ?k4 then prvResetNextTaskUnblockTime ?k4 else ?k4"
  have "kinv True (T - {?t}) T ?k1" "kinv True (T - {?t}) T (uxListRemove_k (EventItem ?t) ?k1)"
    by (intro inv_intros midD(1) [OF m])+
  then have "kinv True (insert ?t (T - {?t})) T ?k3" by (intro kinv_insert_end_state) simp_all
  then have k3: "kinv True T T ?k3" using t(1) by (simp add: insert_absorb)
  then have k4: "kinv True T T ?k4" using kinv_update_same [OF k3] by simp
  then have k5: "kinv True T T ?k5" using kinv_reset_next by simp
  have c: "acontainer (klists ?k5) = (acontainer (klists k))(StateItem ?t := Some xSuspendedTaskList, EventItem ?t := None)"
    by (rule ext) auto
  have n: "ucNotifyState (tcbs ?k5 u) = taskWAITING_NOTIFICATION \<Longrightarrow> waiting k u" for u
    by (auto split: if_splits)
  have f: "pxCurrentTCB ?k5 = pxCurrentTCB k" "prio ?k5 u = prio k u" "xYieldPending ?k5 = xYieldPending k"
    "uxSchedulerSuspended ?k5 = uxSchedulerSuspended k" "xSchedulerRunning ?k5 = xSchedulerRunning k"
    "uxCurrentNumberOfTasks ?k5 = uxCurrentNumberOfTasks k" for u
    by (simp_all add: uxListRemove_k_def vListInsertEnd_k_def update_tcb_def)
  have m5: "mid i T ?k5"
  proof (rule mid_step [OF m k5])
    show "\<exists>p. sl ?k5 i = Some (Ready p)" using midD(3) [OF m] t(2) by (simp add: c)
    show "el ?k5 u = None" if "waiting ?k5 u" for u using midD(7) [OF m n [OF that]] by (simp add: c)
    show False if "el ?k5 u = Some (EventList e)" "sl ?k5 u = Some (Ready p)" for u e p
      using that midD(8) [OF m, of u e p] by (simp add: c split: if_splits)
    show False if "uxSchedulerSuspended ?k5 = 0" "pending ?k5 u" for u
      using that midD(9) [OF m, of u] by (simp add: c f(4) pending_def split: if_splits)
  qed (simp_all add: f)
  have x: "kexec (Suspend h) k = (if Some ?t = pxCurrentTCB ?k5
      then (if xSchedulerRunning ?k5 then configASSERT (uxSchedulerSuspended ?k5 = 0) (portYIELD ?k5)
            else if of_nat (length (list_items ?k5 xSuspendedTaskList)) = uxCurrentNumberOfTasks ?k5
            then Returns (?k5\<lparr>pxCurrentTCB := None\<rparr>) else vTaskSwitchContext ?k5)
      else Returns ?k5)"
    unfolding kexec.simps vTaskSuspend_def Let_def ..
  obtain K where K: "K = ?k5" by blast
  note x = x [folded K] and f = f [folded K] and c = c [folded K] and m5 = m5 [folded K]
  have run: "xSchedulerRunning K" using midD(5) [OF m] f(5) by simp
  show ?thesis
  proof (cases "Some ?t = pxCurrentTCB K")
    case True
    then have "uxSchedulerSuspended K = 0" using t(3) f(1,4) by (metis option.sel)
    with x True run have "kexec (Suspend h) k = portYIELD K" by (simp add: configASSERT_def)
    moreover have "uxSchedulerSuspended K \<noteq> 0 \<Longrightarrow> cur_ready K" using \<open>uxSchedulerSuspended K = 0\<close> by simp
    ultimately show ?thesis using yield_good [OF m5] by (auto simp: keeps_def)
  next
    case False
    then have ne: "current k \<noteq> ?t" using mid_cur [OF m] f(1) by metis
    have "cur_ready K" using goodD(2) [OF g] ne by (auto simp: cur_ready_def f c)
    moreover have "calm K" using goodD(3) [OF g] by (auto simp: calm_def f c)
    ultimately have "good i T K" using m5 by (simp add: good_def)
    then show ?thesis using x False by (simp add: keeps_def)
  qed
qed

lemma suspended_facts:
  assumes "prvTaskIsTaskSuspended t k"
  shows "sl k t = Some xSuspendedTaskList" and "el k t = None"
  using assms by (auto simp: prvTaskIsTaskSuspended_def)

lemma good_resume:
  assumes g: "good i T k" and t: "t \<in> T"
  shows "keeps i T (kexec (Resume t) k)"
proof (cases "Some t \<noteq> pxCurrentTCB k \<and> prvTaskIsTaskSuspended t k")
  case True
  let ?b = "prio k t \<ge> prio k (current k)"
  obtain k' where "(if ?b then portYIELD (make_ready t k) else Returns (make_ready t k)) = Returns k'" "good i T k'"
    using ready_then_yield [OF g t, of ?b] suspended_facts(2) [of t k] True by force
  with True show ?thesis by (auto simp: vTaskResume_def make_ready_def Let_def keeps_def)
qed (use g in \<open>auto simp: vTaskResume_def keeps_def\<close>)

lemma good_resume_from_isr:
  assumes g: "good i T k" and a: "allowed i T (ResumeFromISR t) k"
  shows "keeps i T (kexec (ResumeFromISR t) k)"
proof (cases "prvTaskIsTaskSuspended t k")
  case True
  note s = suspended_facts [OF True] and m = goodD(1) [OF g]
  have t: "t \<in> T" using a by simp
  show ?thesis
  proof (cases "uxSchedulerSuspended k = 0")
    case z: True
    have "mid i T (make_ready t k)" "cur_ready (make_ready t k)"
      using mid_make_ready [OF m t] s(2) goodD(2) [OF g] by (auto simp: cur_ready_def)
    moreover have "calm (make_ready t k)" if "\<not> prio k t \<ge> prio k (current k)"
      using goodD(3) [OF g] that by (auto simp: calm_def)
    ultimately have "keeps i T (yield_if (prio k t \<ge> prio k (current k)) (make_ready t k))"
      by (rule keeps_yield_if)
    then show ?thesis using True z by (simp add: xTaskResumeFromISR_def make_ready_def)
  next
    case False
    let ?k = "vListInsertEnd_k xPendingReadyList (EventItem t) k"
    have "mid i T ?k" by (rule mid_pend [OF m t s(2)]) (use a False in auto)
    then have "good i T ?k" using goodD(2,3) [OF g] by (auto simp: good_def cur_ready_def calm_def)
    then show ?thesis using True False by (simp add: xTaskResumeFromISR_def yield_if_def keeps_def)
  qed
qed (use g in \<open>simp add: xTaskResumeFromISR_def yield_if_def keeps_def\<close>)

section \<open>Aborting a delay\<close>

lemma mid_remove_event:
  assumes m: "mid i T k"
  shows "mid i T (uxListRemove_k (EventItem t) k)"
proof (rule mid_step [OF m])
  show "kinv True T T (uxListRemove_k (EventItem t) k)" by (intro inv_intros midD(1) [OF m])
  show "el (uxListRemove_k (EventItem t) k) u = None" if "waiting (uxListRemove_k (EventItem t) k) u" for u
    using midD(7) [OF m, of u] that by auto
  show False if "el (uxListRemove_k (EventItem t) k) u = Some (EventList x)"
    "sl (uxListRemove_k (EventItem t) k) u = Some (Ready p)" for u x p
    using midD(8) [OF m, of u x] that by (auto split: if_splits)
  show False if "uxSchedulerSuspended (uxListRemove_k (EventItem t) k) = 0" "pending (uxListRemove_k (EventItem t) k) u" for u
    using midD(9) [OF m, of u] that by (auto simp: pending_def split: if_splits)
qed (use midD(3) [OF m] in \<open>simp_all add: prim_defs\<close>)

lemma good_remove_event: "good i T k \<Longrightarrow> good i T (uxListRemove_k (EventItem t) k)"
  using mid_remove_event by (auto simp: good_def cur_ready_def calm_def)

text \<open>Ready a task and ask for a context switch when it has a higher priority.\<close>

lemma good_ready_pend:
  assumes g: "good i T k" and t: "t \<in> T" and e: "\<And>e. el k t \<noteq> Some (EventList e)"
  shows "good i T (if prio k t > prio k (current k) then (make_ready t k)\<lparr>xYieldPending := True\<rparr> else make_ready t k)"
proof (cases "prio k t > prio k (current k)")
  case True
  have "mid i T ((make_ready t k)\<lparr>xYieldPending := True\<rparr>)"
    by (rule mid_same [OF mid_make_ready [OF goodD(1) [OF g] t e]]) simp_all
  then show ?thesis using True goodD(2) [OF g] by (auto simp: good_def cur_ready_def calm_def)
next
  case False
  then have "good i T (make_ready t k)" using good_make_ready [OF g t e] by (simp add: not_less)
  then show ?thesis using False by simp
qed

lemma update_neutral_good:
  assumes g: "good i T k"
    and f: "\<And>c. uxPriority (f c) = uxPriority c" "\<And>c. uxBasePriority (f c) = uxBasePriority c"
      "\<And>c. ucNotifyState (f c) = ucNotifyState c"
  shows "good i T (update_tcb t f k)"
  by (rule good_same [OF g]) (use f in \<open>auto simp: update_tcb_def split: if_splits\<close>)

lemma remove_commute:
  "alists_ok a \<Longrightarrow> a_remove x (a_remove y a) = a_remove y (a_remove x a)"
  if "acontainer a x \<noteq> acontainer a y \<or> acontainer a x = None"
  using that by (cases "acontainer a x"; cases "acontainer a y") (auto simp: a_remove_def fun_upd_twist)

lemma good_abort_delay:
  assumes g: "good i T k" and a: "allowed i T (AbortDelay t) k"
  shows "keeps i T (kexec (AbortDelay t) k)"
proof -
  have t: "t \<in> T" and u: "uxSchedulerSuspended k + 1 \<noteq> 0" using a by simp_all
  let ?k1 = "vTaskSuspendAll k"
  have g1: "good i T ?k1" using mid_suspend_all [OF goodD(1) [OF g] u] goodD(2,3) [OF g] by (simp add: good_def)
  let ?k3 = "uxListRemove_k (StateItem t) ?k1"
  let ?k4 = "if listLIST_ITEM_CONTAINER ?k3 (EventItem t) \<noteq> None
    then update_tcb t (\<lambda>c. c\<lparr>ucDelayAborted := True\<rparr>) (uxListRemove_k (EventItem t) ?k3) else ?k3"
  let ?k5 = "prvAddTaskToReadyList t ?k4"
  let ?r = "if eTaskGetState t ?k1 = eBlocked
    then (True, if prio ?k5 t > prio ?k5 (current ?k5) then ?k5\<lparr>xYieldPending := True\<rparr> else ?k5)
    else (False, ?k1)"
  let ?e = "if el k t \<noteq> None then update_tcb t (\<lambda>c. c\<lparr>ucDelayAborted := True\<rparr>) (uxListRemove_k (EventItem t) ?k1)
    else ?k1"
  have ge: "good i T ?e"
    using update_neutral_good [OF good_remove_event [OF g1, of t], of "\<lambda>c. c\<lparr>ucDelayAborted := True\<rparr>" t] g1
    by simp
  note pl = kinv_parts(1) [OF midD(1) [OF goodD(1) [OF g1]]]
  have "el ?k1 t = Some l \<Longrightarrow> sl ?k1 t \<noteq> Some l" for l using placedD(3,5) [OF pl] by blast
  then have "el ?k1 t \<noteq> sl ?k1 t \<or> el ?k1 t = None" by (cases "el ?k1 t") auto
  then have "uxListRemove_k (EventItem t) ?k3 = uxListRemove_k (StateItem t) (uxListRemove_k (EventItem t) ?k1)"
    using remove_commute [of "klists ?k1" "EventItem t" "StateItem t"] placedD(1) [OF pl]
    by (simp add: uxListRemove_k_def)
  then have k5: "?k5 = make_ready t ?e"
    by (auto simp: make_ready_def remove_update_commute)
  have e: "el ?e t \<noteq> Some (EventList x)" for x by simp
  have "good i T (snd ?r)"
    using good_ready_pend [OF ge t e] g1 unfolding k5 by (simp del: not_None_eq)
  then obtain b k' where "xTaskResumeAll (snd ?r) = Returns (b, k')" "good i T k'"
    using resume_all_good [of i T "snd ?r"] u
    by (auto simp: good_def k5 split: if_splits)
  then have "kexec (AbortDelay t) k = Returns k'"
    by (simp add: xTaskAbortDelay_def Let_def split: prod.split) (auto split: if_splits)
  then show ?thesis using \<open>good i T k'\<close> by (rule keepsI)
qed

end
