(* ===== verification/Tasks_Safe.thy ===== *)
theory Tasks_Safe
  imports Tasks_Wake
begin

text \<open>
  The remaining calls: changing a priority, the tick, waking a task from an event list. With them every
  allowed call keeps \<open>good\<close>, and so does every run.
\<close>

section \<open>Changing a priority\<close>

definition set_priority_tcb :: "u32 \<Rightarrow> tcb \<Rightarrow> tcb" where
  "set_priority_tcb p c =
     (if uxBasePriority c = uxPriority c then c\<lparr>uxPriority := p, uxBasePriority := p\<rparr> else c\<lparr>uxBasePriority := p\<rparr>)"

lemma set_priority_tcb_simps [simp]:
  "uxPriority (set_priority_tcb p c) = (if uxBasePriority c = uxPriority c then p else uxPriority c)"
  "uxBasePriority (set_priority_tcb p c) = p" "ucNotifyState (set_priority_tcb p c) = ucNotifyState c"
  by (simp_all add: set_priority_tcb_def)

lemma vTaskPrioritySet_eq:
  fixes h k p
  defines "t \<equiv> prvGetTCBFromHandle h k"
  defines "K \<equiv> requeue_if_ready (prio k t) t (set_event_priority t p (update_tcb t (set_priority_tcb p) k))"
  assumes "p < configMAX_PRIORITIES"
  shows "vTaskPrioritySet h p k =
    (if uxBasePriority (tcbs k t) = p then Returns k
     else yield_if (if p > uxBasePriority (tcbs k t)
                    then Some t \<noteq> pxCurrentTCB k \<and> p \<ge> prio k (current k) else Some t = pxCurrentTCB k) K)"
proof -
  have "update_tcb t (\<lambda>c. c\<lparr>uxBasePriority := p\<rparr>)
      (if uxBasePriority (tcbs k t) = prio k t then update_tcb t (\<lambda>c. c\<lparr>uxPriority := p\<rparr>) k else k)
    = update_tcb t (set_priority_tcb p) k"
    by (simp add: update_tcb_def set_priority_tcb_def)
  then show ?thesis
    unfolding vTaskPrioritySet_def Let_def configASSERT_def yield_if_def K_def t_def using assms(3) by simp
qed

lemma requeue_frame [simp]:
  "tcbs (requeue_if_ready q t k) = tcbs k" "pxCurrentTCB (requeue_if_ready q t k) = pxCurrentTCB k"
  "uxSchedulerSuspended (requeue_if_ready q t k) = uxSchedulerSuspended k"
  "xSchedulerRunning (requeue_if_ready q t k) = xSchedulerRunning k"
  "uxCurrentNumberOfTasks (requeue_if_ready q t k) = uxCurrentNumberOfTasks k"
  "xYieldPending (requeue_if_ready q t k) = xYieldPending k"
  "acontainer (klists (requeue_if_ready q t k)) = (if sl k t = Some (Ready (unat q))
     then (acontainer (klists k))(StateItem t := Some (Ready (unat (prio k t)))) else acontainer (klists k))"
  by (auto simp: requeue_if_ready_def)

lemma set_event_priority_frame2 [simp]:
  "xSchedulerRunning (set_event_priority t p k) = xSchedulerRunning k"
  "uxCurrentNumberOfTasks (set_event_priority t p k) = uxCurrentNumberOfTasks k"
  by (simp_all add: set_event_priority_def)

text \<open>Reprioritising a task keeps \<open>mid\<close>; \<open>f\<close> is the change of its control block.\<close>

lemma mid_reprioritise:
  assumes m: "mid i T k" and t: "t \<in> T"
    and f: "uxPriority (f (tcbs k t)) < configMAX_PRIORITIES" "uxBasePriority (f (tcbs k t)) < configMAX_PRIORITIES"
      "\<And>c. ucNotifyState (f c) = ucNotifyState c"
  shows "mid i T (requeue_if_ready (prio k t) t (set_event_priority t p (update_tcb t f k)))"
    (is "mid i T ?K")
proof (rule mid_step [OF m])
  show "kinv True T T ?K" by (intro kinv_reprioritise midD(1) [OF m] t f(1,2))
  show "\<exists>q. sl ?K i = Some (Ready q)" using midD(3) [OF m] by auto
  show "el ?K u = None" if "waiting ?K u" for u using midD(7) [OF m, of u] that f(3) by (auto split: if_splits)
  show False if "el ?K u = Some (EventList e)" "sl ?K u = Some (Ready q)" for u e q
    using midD(8) [OF m, of u e] that by (auto split: if_splits)
  show False if "uxSchedulerSuspended ?K = 0" "pending ?K u" for u
    using midD(9) [OF m, of u] that by (auto simp: pending_def split: if_splits)
qed simp_all

lemma good_priority_set:
  assumes g: "good i T k" and a: "allowed i T (PrioritySet h p) k"
  shows "keeps i T (kexec (PrioritySet h p) k)"
proof -
  let ?t = "prvGetTCBFromHandle h k"
  have t: "?t \<in> T" and p: "p < configMAX_PRIORITIES" using a by simp_all
  note m = goodD(1) [OF g]
  let ?K = "requeue_if_ready (prio k ?t) ?t (set_event_priority ?t p (update_tcb ?t (set_priority_tcb p) k))"
  let ?b = "if p > uxBasePriority (tcbs k ?t)
    then Some ?t \<noteq> pxCurrentTCB k \<and> p \<ge> prio k (current k) else Some ?t = pxCurrentTCB k"
  have pr: "prio k ?t < configMAX_PRIORITIES"
    using kinv_parts(2) [OF midD(1) [OF m]] t by (simp add: prio_ok_def)
  have M: "mid i T ?K" by (rule mid_reprioritise [OF m t]) (use pr p in simp_all)
  obtain c where c: "pxCurrentTCB k = Some c" using mid_cur [OF m] by blast
  have "cur_ready ?K" using goodD(2) [OF g] by (auto simp: cur_ready_def)
  moreover have "calm ?K" if nb: "\<not> ?b" "uxBasePriority (tcbs k ?t) \<noteq> p"
  proof (cases "xYieldPending k")
    case False
    then have l: "sl k u = Some (Ready q) \<Longrightarrow> prio k u \<le> prio k c" for u q
      using goodD(3) [OF g] c by (auto simp: calm_def)
    have "prio ?K u \<le> prio ?K c" if u: "sl ?K u = Some (Ready q)" for u q
    proof -
      have ru: "\<exists>q. sl k u = Some (Ready q)" using u by (auto split: if_splits)
      have nt: "?t \<noteq> c \<Longrightarrow> p > uxBasePriority (tcbs k ?t) \<Longrightarrow> p < prio k c"
        and tc: "?t = c \<Longrightarrow> p > uxBasePriority (tcbs k c)"
        using nb c by (auto split: if_splits)
      show ?thesis
      proof (cases "u = ?t")
        case ut: True
        show ?thesis
        proof (cases "?t = c")
          case ne: False
          have "uxBasePriority (tcbs k ?t) = prio k ?t \<Longrightarrow> p \<le> prio k c"
          proof -
            assume b: "uxBasePriority (tcbs k ?t) = prio k ?t"
            have "prio k ?t \<le> prio k c" using ru l ut by blast
            then show "p \<le> prio k c"
              using nt [OF ne] unfolding b by (cases "p > prio k ?t") (auto simp: not_less intro: order.trans)
          qed
          then show ?thesis using ut ne ru l by auto
        qed (use ut in simp)
      next
        case ut: False
        show ?thesis
        proof (cases "?t = c")
          case True
          have "prio k u \<le> prio k c" using ru l by blast
          then have "uxBasePriority (tcbs k c) = prio k c \<Longrightarrow> prio k u \<le> p"
            using tc [OF True] by (auto dest: less_imp_le intro: order.trans)
          with True \<open>prio k u \<le> prio k c\<close> show ?thesis using ut by auto
        next
          case False
          then show ?thesis using ut ru l by auto
        qed
      qed
    qed
    then show ?thesis using c by (simp add: calm_def)
  qed (simp add: calm_def)
  ultimately show ?thesis
    using vTaskPrioritySet_eq [OF p, of h k] keeps_yield_if [OF M, of ?b] g by (auto simp: keeps_def)
qed

section \<open>The tick\<close>

lemma good_tick:
  assumes g: "good i T k"
  shows "keeps i T (kexec Tick k)"
proof (cases "uxSchedulerSuspended k = 0")
  case True
  note m = goodD(1) [OF g]
  obtain sw k1 where t: "xTaskIncrementTick k = Returns (sw, k1)" "kinv True T T k1" "tick_effect 0 k sw k1"
    using tick_spec [OF midD(1) [OF m] True] by blast
  have f: "tcbs k1 = tcbs k" "pxCurrentTCB k1 = pxCurrentTCB k" "uxSchedulerSuspended k1 = 0"
    "xSchedulerRunning k1 = xSchedulerRunning k" "uxCurrentNumberOfTasks k1 = uxCurrentNumberOfTasks k"
    "acontainer (klists k1) = readied (\<lambda>t. wake_time 0 k t = Some (now_time 0 k + 1)) k"
    using t(3) True unfolding tick_effect_def by simp_all
  have "mid i T k1"
  proof (rule mid_step [OF m t(2) f(2,4,5)])
    show "\<exists>p. sl k1 i = Some (Ready p)" using midD(3) [OF m] by (auto simp: f(6) readied_def)
    show "el k1 u = None" if "waiting k1 u" for u using midD(7) [OF m, of u] that by (simp add: f(1,6) readied_def)
    show False if "el k1 u = Some (EventList e)" "sl k1 u = Some (Ready p)" for u e p
      using midD(8) [OF m, of u e] that by (auto simp: f(6) readied_def split: if_splits)
    show False if "pending k1 u" for u
      using midD(9) [OF m True, of u] that by (auto simp: pending_def f(6) readied_def split: if_splits)
  qed
  then show ?thesis using yield_good [of i T k1] f(3) t(1) by (auto simp: keeps_def portYIELD_def)
next
  case False
  let ?k = "k\<lparr>uxPendedTicks := uxPendedTicks k + 1\<rparr>"
  have "good i T ?k" by (rule good_same [OF g]) simp_all
  then show ?thesis using tick_suspended [OF False] yield_good [of i T ?k] goodD
    by (auto simp: keeps_def portYIELD_def)
qed

section \<open>Waking a task from an event list\<close>

lemma event_head:
  assumes k: "kinv s T T k" and ne: "list_items k (EventList e) \<noteq> []"
  defines "t \<equiv> listGET_OWNER_OF_HEAD_ENTRY k (EventList e)"
  shows "el k t = Some (EventList e)" and "t \<in> T"
proof -
  obtain x xs where xs: "list_items k (EventList e) = x # xs" using ne by (meson list.exhaust)
  with event_listed_item [OF kinv_parts(1) [OF k], of "EventList e" x]
  show "el k t = Some (EventList e)" "t \<in> T" by (auto simp: t_def listGET_OWNER_OF_HEAD_ENTRY_def)
qed

lemma good_event_wake:
  assumes g: "good i T k" and ne: "list_items k (EventList e) \<noteq> []"
  shows "keeps i T (kexec (EventWake e b) k)"
proof -
  let ?t = "listGET_OWNER_OF_HEAD_ENTRY k (EventList e)"
  note m = goodD(1) [OF g]
  have t: "el k ?t = Some (EventList e)" "?t \<in> T" using event_head [OF midD(1) [OF m] ne] by simp_all
  let ?k1 = "uxListRemove_k (EventItem ?t) k"
  have g1: "good i T ?k1" by (rule good_remove_event [OF g])
  have w: "\<not> waiting ?k1 ?t" using midD(7) [OF m, of ?t] t(1) by auto
  let ?k2 = "if uxSchedulerSuspended ?k1 = 0 then make_ready ?t ?k1
    else vListInsertEnd_k xPendingReadyList (EventItem ?t) ?k1"
  have m2: "mid i T ?k2"
    using mid_make_ready [OF goodD(1) [OF g1] t(2)] mid_pend [OF goodD(1) [OF g1] t(2) _ w] by simp
  have f: "tcbs ?k2 = tcbs k" "pxCurrentTCB ?k2 = pxCurrentTCB k" "xYieldPending ?k2 = xYieldPending k" by simp_all
  have c2: "cur_ready ?k2" using goodD(2) [OF g1] by (auto simp: cur_ready_def)
  let ?h = "prio k ?t > prio k (current k)"
  have r: "xTaskRemoveFromEventList e k = (?h, if ?h then ?k2\<lparr>xYieldPending := True\<rparr> else ?k2)"
    unfolding xTaskRemoveFromEventList_def Let_def make_ready_def by simp
  show ?thesis
  proof (cases ?h)
    case True
    have "mid i T (?k2\<lparr>xYieldPending := True\<rparr>)" by (rule mid_same [OF m2]) simp_all
    moreover have "cur_ready (?k2\<lparr>xYieldPending := True\<rparr>)" using c2 by (simp add: cur_ready_def)
    ultimately have "keeps i T (yield_if b (?k2\<lparr>xYieldPending := True\<rparr>))"
      by (rule keeps_yield_if) (simp add: calm_def)
    with True show ?thesis by (simp add: r del: if_split)
  next
    case False
    then have "calm ?k2" using goodD(3) [OF g1] by (auto simp: calm_def not_less)
    with c2 m2 have "good i T ?k2" by (simp add: good_def)
    with False show ?thesis by (simp add: r yield_if_def keeps_def)
  qed
qed

section \<open>Every call\<close>

theorem kexec_good:
  assumes g: "good i T k" and a: "allowed i T c k"
  shows "keeps i T (kexec c k)"
proof (cases c)
  case (ResumeAll)
  then show ?thesis using resume_all_good [OF goodD(1) [OF g]] a goodD(2,3) [OF g] by (auto simp: keeps_def)
next
  case SuspendAll
  then have "uxSchedulerSuspended k + 1 \<noteq> 0" using a by simp
  then show ?thesis
    using SuspendAll mid_suspend_all [OF goodD(1) [OF g]] goodD(2,3) [OF g] by (auto simp: keeps_def good_def)
next
  case (EventWake e b)
  then show ?thesis using good_event_wake [OF g] a by simp
qed (use g a good_delay good_delay_until good_event_wait good_notify_take good_notify_wait good_notify_ends
    good_notify good_notify_from_isr good_give_from_isr good_suspend good_resume good_resume_from_isr
    good_abort_delay good_priority_set good_tick in \<open>auto simp: keeps_def simp del: allowed.simps(3)\<close>)

end
