(* ===== verification/Tasks_Time.thy ===== *)
theory Tasks_Time
  imports Tasks_Safe
begin

text \<open>
  Blocking for a time, followed through the ticks: when a delayed task is readied, in absolute time,
  and the arithmetic of \<open>vTaskDelayUntil\<close> and \<open>xTaskCheckForTimeOut\<close> on the wrapping tick count.
\<close>

section \<open>Absolute time through a call\<close>

lemma switch_time:
  assumes "switch_frame k k'"
  shows "now_time E k' = now_time E k" "wake_time E k' t = wake_time E k t"
  using switch_frameD [OF assms] by (simp_all add: now_time_def wake_time_def)

lemma yield_switch:
  assumes m: "mid i T k" and u: "uxSchedulerSuspended k = 0"
  shows "\<exists>k'. portYIELD k = Returns k' \<and> good i T k' \<and> switch_frame k k'"
proof -
  obtain q where q: "sl k i = Some (Ready q)" using midD(3) [OF m] by blast
  obtain k' where "portYIELD k = Returns k'" "switch_frame k k'"
    using switch_spec [OF midD(1) [OF m] q u] by (auto simp: portYIELD_def)
  moreover obtain k'' where "portYIELD k = Returns k''" "good i T k''" using yield_good [OF m] u by blast
  ultimately show ?thesis by auto
qed

lemma delay_wake_time:
  assumes k: "kinv True L T k" and c: "pxCurrentTCB k = Some c" and n: "n \<noteq> 0" and b: "\<not> delays_forever n b"
  shows "wake_time E (prvAddCurrentTaskToDelayedList n b k) c = Some (now_time E k + unat n)"
    and "now_time E (prvAddCurrentTaskToDelayedList n b k) = now_time E k"
proof -
  note d = delay_current [OF c, of n b] and two = two_delayed_listsD [OF kinv_two [OF k]]
  show "now_time E (prvAddCurrentTaskToDelayedList n b k) = now_time E k" by (simp add: now_time_def d)
  let ?t = "xTickCount k"
  have lt: "unat ?t < 2 ^ 32" "unat n < 2 ^ 32" using unsigned_less [of ?t, where 'a = nat] unsigned_less [of n, where 'a = nat] by simp_all
  have s: "unat (?t + n) = (if unat ?t + unat n < 2 ^ 32 then unat ?t + unat n else unat ?t + unat n - 2 ^ 32)"
    using lt by (simp add: unat_word_ariths mod_if)
  have o: "?t + n < ?t \<longleftrightarrow> 2 ^ 32 \<le> unat ?t + unat n"
    using s lt by (auto simp: word_less_nat_alt split: if_splits)
  show "wake_time E (prvAddCurrentTaskToDelayedList n b k) c = Some (now_time E k + unat n)"
    using b s o two(1) unfolding wake_time_def d now_time_def delay_list_def
    by (auto simp: not_less algebra_simps)
qed

text \<open>Resuming the scheduler with no tick pended changes no time and moves only the pending tasks.\<close>

lemma resume_yield_track:
  assumes m: "mid i T k" and u: "uxSchedulerSuspended k = 1" and p: "uxPendedTicks k = 0"
  shows "\<exists>k' E'. obind (xTaskResumeAll k) (\<lambda>(already, k1). if \<not> already then portYIELD k1 else Returns k1)
           = Returns k' \<and> good i T k' \<and> uxSchedulerSuspended k' = 0 \<and> now_time E' k' = now_time E k
     \<and> (\<forall>t. \<not> pending k t \<longrightarrow> wake_time E' k' t = wake_time E k t \<and> sl k' t = sl k t \<and> el k' t = el k t)
     \<and> (\<forall>t. prio k' t = prio k t) \<and> avalue (klists k') = avalue (klists k)"
proof -
  obtain E' k3 where r: "resumed E k E' k3" "kinv True T T k3"
    "xTaskResumeAll k = (if xYieldPending k3 then obind (portYIELD k3) (\<lambda>k2. Returns (True, k2))
        else Returns (False, k3))"
    using resume_all_last [OF midD(1) [OF m] u midD(6) [OF m], of E] by blast
  have m3: "mid i T k3" by (rule mid_resumed [OF m r(1,2)])
  have nw: "\<not> woken E k 0 t" for t using wake_later_than_now [OF midD(1) [OF m], of E t] by (auto simp: woken_def)
  have w3: "now_time E' k3 = now_time E k" "uxSchedulerSuspended k3 = 0" "tcbs k3 = tcbs k"
    "avalue (klists k3) = avalue (klists k)"
    "\<And>t. \<not> pending k t \<Longrightarrow> wake_time E' k3 t = wake_time E k t \<and> sl k3 t = sl k t \<and> el k3 t = el k t"
    using r(1) p nw unfolding resumed_def by (simp_all add: readied_def)
  obtain k' where y: "portYIELD k3 = Returns k'" "good i T k'" "switch_frame k3 k'"
    using yield_switch [OF m3 w3(2)] by blast
  have "obind (xTaskResumeAll k) (\<lambda>(already, k1). if \<not> already then portYIELD k1 else Returns k1) = Returns k'"
    unfolding r(3)
    by (cases "xYieldPending k3") (simp_all only: if_True if_False y(1) obind.simps prod.case simp_thms)
  then show ?thesis
    using y(2) switch_time [OF y(3)] switch_frameD(2,3,4,14) [OF y(3)] w3
    by (intro exI [of _ k'] exI [of _ E']) simp
qed

text \<open>\<open>vTaskDelay\<close> and \<open>vTaskDelayUntil\<close>: the state after the call in terms of absolute time.\<close>

lemma blocked_call:
  assumes g: "good i T k" and a: "may_block i k" and n: "n \<noteq> 0" and p: "uxPendedTicks k = 0"
    and c: "pxCurrentTCB k = Some c"
  shows "\<exists>k' E'. obind (xTaskResumeAll (prvAddCurrentTaskToDelayedList n False (vTaskSuspendAll k)))
           (\<lambda>(already, k1). if \<not> already then portYIELD k1 else Returns k1) = Returns k' \<and> good i T k'
     \<and> uxSchedulerSuspended k' = 0 \<and> now_time E' k' = now_time E k
     \<and> wake_time E' k' c = Some (now_time E k + unat n) \<and> prio k' c = prio k c"
proof -
  let ?k1 = "vTaskSuspendAll k" and ?k2 = "prvAddCurrentTaskToDelayedList n False (vTaskSuspendAll k)"
  have s: "uxSchedulerSuspended k = 0" "current k \<noteq> i" using a by (simp_all add: may_block_def)
  have m1: "mid i T ?k1" by (rule mid_suspend_all [OF goodD(1) [OF g]]) (simp add: s)
  have m2: "mid i T ?k2" by (rule mid_delay_current [OF m1]) (simp_all add: s n)
  have c1: "pxCurrentTCB ?k1 = Some c" using c by simp
  note d = delay_current [OF c1, of n False]
  have u2: "uxSchedulerSuspended ?k2 = 1" by (simp add: d s)
  have nf: "\<not> delays_forever n False" by (simp add: delays_forever_def)
  have w2: "wake_time E ?k2 c = Some (now_time E k + unat n)" "now_time E ?k2 = now_time E k"
    using delay_wake_time [OF midD(1) [OF m1] c1 n nf, of E] by (simp_all add: now_time_def)
  have "uxPendedTicks ?k1 = 0" using p by (simp add: vTaskSuspendAll_def)
  then have p2: "uxPendedTicks ?k2 = 0" by (simp add: d)
  have e2: "\<not> pending ?k2 c" using running_no_event [OF g s(1)] c by (simp add: pending_def d)
  obtain k' E' where "obind (xTaskResumeAll ?k2) (\<lambda>(already, k1). if \<not> already then portYIELD k1 else Returns k1) = Returns k'"
    "good i T k'" "uxSchedulerSuspended k' = 0" "now_time E' k' = now_time E ?k2"
    "wake_time E' k' c = wake_time E ?k2 c" "prio k' c = prio ?k2 c"
    using resume_yield_track [OF m2 u2 p2, of E] e2 by blast
  then show ?thesis unfolding w2 by (intro exI [of _ k'] exI [of _ E']) (simp add: d)
qed

text \<open>The call that finds the time has passed already.\<close>

lemma unblocked_call:
  assumes g: "good i T k" and s: "uxSchedulerSuspended k = 0" and p: "uxPendedTicks k = 0"
    and c: "pxCurrentTCB k = Some c"
  shows "\<exists>k' E'. obind (xTaskResumeAll (vTaskSuspendAll k))
           (\<lambda>(already, k1). if \<not> already then portYIELD k1 else Returns k1) = Returns k' \<and> good i T k'
     \<and> now_time E' k' = now_time E k \<and> sl k' c = Some (Ready (unat (prio k c)))"
proof -
  let ?k1 = "vTaskSuspendAll k"
  have m1: "mid i T ?k1" by (rule mid_suspend_all [OF goodD(1) [OF g]]) (simp add: s)
  have u1: "uxSchedulerSuspended ?k1 = 1" by (simp add: s)
  have p1: "uxPendedTicks ?k1 = 0" using p by (simp add: vTaskSuspendAll_def)
  have e1: "\<not> pending ?k1 c" using running_no_event [OF g s] c by (simp add: pending_def)
  have "sl k c = Some (Ready (unat (prio k c)))"
    using goodD(2) [OF g] c ready_bounds(1) [OF midD(1) [OF goodD(1) [OF g]]] by (auto simp: cur_ready_def)
  moreover obtain k' E' where "obind (xTaskResumeAll ?k1) (\<lambda>(already, k1). if \<not> already then portYIELD k1 else Returns k1) = Returns k'"
    "good i T k'" "now_time E' k' = now_time E ?k1" "sl k' c = sl ?k1 c"
    using resume_yield_track [OF m1 u1 p1, of E] e1 by blast
  ultimately show ?thesis by (intro exI [of _ k'] exI [of _ E']) (simp add: now_time_def)
qed

section \<open>Ticks and nothing else\<close>

fun ticks :: "nat \<Rightarrow> kernel \<Rightarrow> kernel outcome" where
  "ticks 0 k = Returns k"
| "ticks (Suc n) k = obind (kexec Tick k) (ticks n)"

lemma tick_call:
  assumes g: "good i T k" and u: "uxSchedulerSuspended k = 0"
  shows "\<exists>k' E'. kexec Tick k = Returns k' \<and> good i T k' \<and> uxSchedulerSuspended k' = 0
     \<and> now_time E' k' = now_time E k + 1
     \<and> (\<forall>t. wake_time E' k' t = (if woken E k 1 t then None else wake_time E k t))
     \<and> acontainer (klists k') = readied (woken E k 1) k \<and> (\<forall>t. prio k' t = prio k t)"
proof -
  obtain k' where k': "kexec Tick k = Returns k'" "good i T k'" using good_tick [OF g] by (auto simp: keeps_def)
  obtain sw k1 where t: "xTaskIncrementTick k = Returns (sw, k1)" "kinv True T T k1" "tick_effect E k sw k1"
    using tick_spec [OF midD(1) [OF goodD(1) [OF g]] u] by blast
  have e: "elapsed E k 1 (E + overflow_now k) k1"
    by (rule tick_elapsed [OF midD(1) [OF goodD(1) [OF g]] t(3)])
  note f = elapsedD [OF e]
  have v: "vTaskSwitchContext k1 = Returns k'" using k'(1) t(1) by simp
  obtain p where "sl k i = Some (Ready p)" using midD(3) [OF goodD(1) [OF g]] by blast
  then have "\<exists>q. sl k1 i = Some (Ready q)" by (auto simp: f(2) readied_def)
  then obtain q where q: "sl k1 i = Some (Ready q)" by blast
  have u1: "uxSchedulerSuspended k1 = 0" using f(7) u by simp
  have "switch_frame k1 k'" using switch_spec [OF t(2) q u1] v by auto
  note s = switch_time [OF this] switch_frameD [OF this]
  show ?thesis
    using k' u1 f by (intro exI [of _ k'] exI [of _ "E + overflow_now k"]) (simp add: s)
qed

lemma ticks_elapse:
  assumes "good i T k" and "uxSchedulerSuspended k = 0"
  shows "\<exists>k' E'. ticks n k = Returns k' \<and> good i T k' \<and> uxSchedulerSuspended k' = 0
     \<and> now_time E' k' = now_time E k + n
     \<and> (\<forall>t. wake_time E' k' t = (if woken E k n t then None else wake_time E k t))
     \<and> acontainer (klists k') = readied (woken E k n) k \<and> (\<forall>t. prio k' t = prio k t)"
  using assms
proof (induction n arbitrary: k E)
  case 0
  have "\<not> woken E k 0 t" for t
    using wake_later_than_now [OF midD(1) [OF goodD(1) [OF 0(1)]], of E t] by (auto simp: woken_def)
  then have "woken E k 0 = (\<lambda>t. False)" by (intro ext) simp
  with 0 show ?case by (auto simp: readied_none)
next
  case (Suc n)
  obtain k1 E1 where t: "kexec Tick k = Returns k1" "good i T k1" "uxSchedulerSuspended k1 = 0"
    "now_time E1 k1 = now_time E k + 1"
    "\<And>t. wake_time E1 k1 t = (if woken E k 1 t then None else wake_time E k t)"
    "acontainer (klists k1) = readied (woken E k 1) k" "\<And>t. prio k1 t = prio k t"
    using tick_call [OF Suc.prems, of E] by blast
  obtain k' E' where k': "ticks n k1 = Returns k'" "good i T k'" "uxSchedulerSuspended k' = 0"
    "now_time E' k' = now_time E1 k1 + n"
    "\<And>t. wake_time E' k' t = (if woken E1 k1 n t then None else wake_time E1 k1 t)"
    "acontainer (klists k') = readied (woken E1 k1 n) k1" "\<And>t. prio k' t = prio k1 t"
    using Suc.IH [OF t(2,3), of E1] by blast
  have w: "woken E k (Suc n) t \<longleftrightarrow> woken E k 1 t \<or> woken E1 k1 n t" for t
    unfolding woken_def [of E1] t(4,5) by (auto simp: woken_def)
  have "readied (woken E1 k1 n) k1 = readied (woken E k (Suc n)) k"
    by (intro ext) (auto simp: readied_def t(6,7) w split: titem.split)
  then have "acontainer (klists k') = readied (woken E k (Suc n)) k" using k'(6) by simp
  moreover have "wake_time E' k' t = (if woken E k (Suc n) t then None else wake_time E k t)" for t
    by (simp add: k'(5) t(5) w)
  moreover have "ticks (Suc n) k = Returns k'" using t(1) k'(1) by (simp only: ticks.simps obind.simps)
  ultimately show ?case
    using t(4,7) k' by (intro exI [of _ k'] exI [of _ E']) simp
qed

section \<open>vTaskDelayUntil\<close>

lemma mod_add_step:
  fixes P r M :: nat
  assumes "r < M"
  shows "(P + r) mod M = (if P mod M + r < M then P mod M + r else P mod M + r - M)"
proof -
  have lt: "P mod M < M" using assms by (intro mod_less_divisor) simp
  have l: "P mod M + r - M < M" using lt assms by linarith
  have "(P mod M + r) mod M = (if P mod M + r < M then P mod M + r else P mod M + r - M)"
    using assms le_mod_geq [of M "P mod M + r"] by (cases "P mod M + r < M") (simp_all add: not_less l)
  then show ?thesis unfolding mod_add_left_eq .
qed

text \<open>With less than a full turn of the tick count between the two times the test is exact.\<close>

lemma should_delay_exact:
  assumes "P \<le> N" and "N < P + 2 ^ 32"
  shows "xShouldDelay (of_nat P) (of_nat P + n) (of_nat N) \<longleftrightarrow> N < P + unat n"
    and "N < P + unat n \<Longrightarrow> unat (of_nat P + n - of_nat N :: tick) = P + unat n - N"
proof -
  define p r where "p = P mod 2 ^ 32" and "r = N - P"
  define q where "q = N mod 2 ^ 32"
  have r: "r < 2 ^ 32" "N = P + r" using assms by (simp_all add: r_def)
  have q: "q = (if p + r < 2 ^ 32 then p + r else p + r - 2 ^ 32)"
    unfolding q_def p_def r(2) by (rule mod_add_step [OF r(1)])
  have p: "p < 2 ^ 32" by (simp add: p_def)
  have n: "unat n < 2 ^ 32" using unsigned_less [of n, where 'a = nat] by simp
  have up: "unat (of_nat P :: tick) = p" and uq: "unat (of_nat N :: tick) = q"
    by (simp_all add: unat_of_nat p_def q_def)
  have uw: "unat (of_nat P + n :: tick) = (if p + unat n < 2 ^ 32 then p + unat n else p + unat n - 2 ^ 32)"
    using p n unfolding unat_word_ariths up by (simp add: mod_if)
  have "xShouldDelay (of_nat P) (of_nat P + n) (of_nat N) \<longleftrightarrow> r < unat n"
    unfolding xShouldDelay_def word_less_nat_alt up uq uw q using p n r by auto
  then show "xShouldDelay (of_nat P) (of_nat P + n) (of_nat N) \<longleftrightarrow> N < P + unat n" using r(2) by simp
  assume "N < P + unat n"
  then have "of_nat P + n - of_nat N = (of_nat (P + unat n - N) :: tick)"
    by (simp add: of_nat_diff)
  then show "unat (of_nat P + n - of_nat N :: tick) = P + unat n - N"
    using n assms(1) by (simp add: unat_of_nat)
qed

section \<open>Time-outs\<close>

text \<open>The tick count and the overflow count at an absolute time, and a time-out record taken then.\<close>

definition at_time :: "nat \<Rightarrow> kernel \<Rightarrow> bool" where
  "at_time N k \<longleftrightarrow> xTickCount k = of_nat N \<and> xNumOfOverflows k = of_nat (N div 2 ^ 32)"

definition taken_at :: "nat \<Rightarrow> TimeOut_t \<Rightarrow> bool" where
  "taken_at N tmo \<longleftrightarrow> xTimeOnEntering tmo = of_nat N \<and> xOverflowCount tmo = of_nat (N div 2 ^ 32)"

lemma epoch_steps:
  fixes S N :: nat
  assumes "S \<le> N" and "N < S + 2 ^ 32"
  shows "N div 2 ^ 32 = S div 2 ^ 32 \<and> N mod 2 ^ 32 = S mod 2 ^ 32 + (N - S)
       \<or> N div 2 ^ 32 = S div 2 ^ 32 + 1 \<and> N mod 2 ^ 32 + 2 ^ 32 = S mod 2 ^ 32 + (N - S)"
proof -
  define q p e where "q = S div 2 ^ 32" and "p = S mod 2 ^ 32" and "e = N - S"
  have S: "S = q * 2 ^ 32 + p" and p: "p < 2 ^ 32" by (simp_all add: q_def p_def)
  have e: "N = q * 2 ^ 32 + (p + e)" "e < 2 ^ 32" using assms S by (simp_all add: e_def)
  have "(p + e) div 2 ^ 32 = (if p + e < 2 ^ 32 then 0 else 1)"
    "(p + e) mod 2 ^ 32 = (if p + e < 2 ^ 32 then p + e else p + e - 2 ^ 32)"
    using p e(2) by (auto simp: div_if mod_if)
  then have "N div 2 ^ 32 = q + (if p + e < 2 ^ 32 then 0 else 1)"
    "N mod 2 ^ 32 = (if p + e < 2 ^ 32 then p + e else p + e - 2 ^ 32)"
    unfolding e(1) by simp_all
  then show ?thesis unfolding q_def [symmetric] p_def [symmetric] e_def [symmetric] by auto
qed

lemma check_timeout_exact:
  assumes k: "at_time N k" and s: "taken_at S tmo" and sn: "S \<le> N" "N < S + 2 ^ 32"
    and w: "wait \<noteq> portMAX_DELAY" and a: "\<not> ucDelayAborted (tcbs k (current k))"
  shows "fst (xTaskCheckForTimeOut tmo wait k) \<longleftrightarrow> S + unat wait \<le> N"
    and "N < S + unat wait \<Longrightarrow> \<exists>tmo' wait'. xTaskCheckForTimeOut tmo wait k = (False, tmo', wait', k)
           \<and> taken_at N tmo' \<and> N + unat wait' = S + unat wait"
proof -
  let ?n = "of_nat N :: tick" and ?s = "of_nat S :: tick"
  have un: "unat ?n = N mod 2 ^ 32" and us: "unat ?s = S mod 2 ^ 32" by (simp_all add: unat_of_nat)
  have el: "unat (?n - ?s) = N - S"
  proof -
    have "?n - ?s = of_nat (N - S)" using sn(1) by (simp add: of_nat_diff)
    then have "unat (?n - ?s) = unat (of_nat (N - S) :: tick)" by (rule arg_cong)
    also have "\<dots> = N - S" by (rule unat_of_nat_small) (use sn in simp)
    finally show ?thesis .
  qed
  have wl: "unat wait < 2 ^ 32" using unsigned_less [of wait, where 'a = nat] by simp
  have ne1: "(of_nat (x + 1) :: u32) \<noteq> of_nat x" for x by simp
  have full: "N div 2 ^ 32 \<noteq> S div 2 ^ 32 \<Longrightarrow> \<not> ?s \<le> ?n"
    using epoch_steps [OF sn] sn by (auto simp: word_le_nat_alt un us)
  have over: "\<not> (xNumOfOverflows k \<noteq> xOverflowCount tmo \<and> xTickCount k \<ge> xTimeOnEntering tmo)"
  proof (cases "N div 2 ^ 32 = S div 2 ^ 32")
    case True
    then have "xNumOfOverflows k = xOverflowCount tmo" using k s unfolding at_time_def taken_at_def by metis
    then show ?thesis by blast
  next
    case False
    then have "\<not> xTickCount k \<ge> xTimeOnEntering tmo"
      using full k s unfolding at_time_def taken_at_def by metis
    then show ?thesis by blast
  qed
  have lt: "xTickCount k - xTimeOnEntering tmo < wait \<longleftrightarrow> N < S + unat wait"
    using k s sn(1) el by (auto simp: at_time_def taken_at_def word_less_nat_alt)
  have r: "xTaskCheckForTimeOut tmo wait k =
      (if N < S + unat wait then (False, vTaskInternalSetTimeOutState k, wait - (?n - ?s), k) else (True, tmo, 0, k))"
    unfolding xTaskCheckForTimeOut_def Let_def using a w over lt k s
    by (simp add: at_time_def taken_at_def del: de_Morgan_conj)
  then show "fst (xTaskCheckForTimeOut tmo wait k) \<longleftrightarrow> S + unat wait \<le> N" by auto
  assume "N < S + unat wait"
  then have "unat (?n - ?s) \<le> unat wait" using el by linarith
  then have "unat (wait - (?n - ?s)) = unat wait - (N - S)" using el by (simp add: unat_sub word_le_nat_alt)
  then show "\<exists>tmo' wait'. xTaskCheckForTimeOut tmo wait k = (False, tmo', wait', k)
           \<and> taken_at N tmo' \<and> N + unat wait' = S + unat wait"
    using r \<open>N < S + unat wait\<close> sn k
    by (auto simp: vTaskInternalSetTimeOutState_def taken_at_def at_time_def)
qed

end
