(* ===== verification/Tasks_Spec.thy ===== *)
theory Tasks_Spec
  imports Tasks_Time
begin

text \<open>
  The properties of the scheduler, with their witnesses on a kernel of three tasks: the idle task 0,
  the running task 4 of priority 5 and the suspended task 8 of priority 7.
\<close>

section \<open>A small kernel\<close>

definition demo_tcb :: "u32 \<Rightarrow> tcb" where
  "demo_tcb p = \<lparr>uxPriority = p, uxBasePriority = p, uxMutexesHeld = 0, pcTaskName = [], pxStack = 0,
     pxTaskTag = None, ulRunTimeCounter = 0, ulNotifiedValue = 0,
     ucNotifyState = taskNOT_WAITING_NOTIFICATION, ucDelayAborted = False\<rparr>"

definition demo_klists :: "(titem, tlist) alists" where
  "demo_klists = \<lparr>content = (\<lambda>l. [])(Ready 0 := [StateItem 0], Ready 5 := [StateItem 4],
       xSuspendedTaskList := [StateItem 8]),
     cursor = (\<lambda>l. None), avalue = (\<lambda>x. 0),
     acontainer = (\<lambda>x. None)(StateItem 0 := Some (Ready 0), StateItem 4 := Some (Ready 5),
       StateItem 8 := Some xSuspendedTaskList)\<rparr>"

definition demo_kernel :: kernel where
  "demo_kernel = \<lparr>klists = demo_klists,
     tcbs = (\<lambda>t. demo_tcb 0)(4 := demo_tcb 5, 8 := demo_tcb 7),
     pxCurrentTCB = Some 4, pxDelayedTaskList = xDelayedTaskList1,
     pxOverflowDelayedTaskList = xDelayedTaskList2, uxDeletedTasksWaitingCleanUp = 0,
     uxCurrentNumberOfTasks = 3, xTickCount = 0xfffffffe, uxTopReadyPriority = 5, xSchedulerRunning = True,
     uxPendedTicks = 0, xYieldPending = False, xNumOfOverflows = 0, uxTaskNumber = 3,
     xNextTaskUnblockTime = portMAX_DELAY, uxSchedulerSuspended = 0, ulTaskSwitchedInTime = 0,
     ulTotalRunTime = 0, ulPortTimerValue = 0\<rparr>"

lemma demo_ok: "alists_ok demo_klists"
  by (auto simp: alists_ok_def demo_klists_def)

lemma demo_fields [simp]:
  "pxCurrentTCB demo_kernel = Some 4" "uxSchedulerSuspended demo_kernel = 0" "uxPendedTicks demo_kernel = 0"
  "xTickCount demo_kernel = 0xfffffffe" "xNumOfOverflows demo_kernel = 0" "xYieldPending demo_kernel = False"
  "sl demo_kernel 4 = Some (Ready 5)" "sl demo_kernel 8 = Some xSuspendedTaskList" "el demo_kernel t = None"
  "sl demo_kernel 0 = Some (Ready 0)"
  "prio demo_kernel 4 = 5" "prio demo_kernel 8 = 7" "uxBasePriority (tcbs demo_kernel t) = prio demo_kernel t"
  "ucNotifyState (tcbs demo_kernel t) = taskNOT_WAITING_NOTIFICATION"
  "ulNotifiedValue (tcbs demo_kernel t) = 0"
  "ucDelayAborted (tcbs demo_kernel t) = False" "uxMutexesHeld (tcbs demo_kernel t) = 0"
  "list_items demo_kernel (Ready 5) = [StateItem 4]"
  by (simp_all add: demo_kernel_def demo_klists_def demo_tcb_def)

lemma demo_kinv: "kinv True {0, 4, 8} {0, 4, 8} demo_kernel"
proof -
  have "placed {0, 4, 8} {0, 4, 8} demo_kernel"
    using demo_ok by (auto simp: placed_def demo_kernel_def demo_klists_def split: if_splits)
  moreover have "prio_ok {0, 4, 8} demo_kernel"
    by (simp add: prio_ok_def demo_kernel_def demo_tcb_def configMAX_PRIORITIES_def)
  moreover have "ready_ok demo_kernel"
    by (auto simp: ready_ok_def demo_kernel_def demo_klists_def demo_tcb_def split: if_splits)
  moreover have "delay_ok True demo_kernel"
    by (auto simp: delay_ok_def two_delayed_lists_def value_sorted_def demo_kernel_def demo_klists_def split: if_splits)
  ultimately show ?thesis by (simp add: kinv_def)
qed

lemma demo_good: "good 0 {0, 4, 8} demo_kernel"
proof -
  have "mid 0 {0, 4, 8} demo_kernel"
    using demo_kinv unfolding mid_def
    by (simp add: pending_def) (simp add: demo_kernel_def)
  moreover have "cur_ready demo_kernel" by (simp add: cur_ready_def)
  moreover have "calm demo_kernel"
    by (auto simp: calm_def demo_kernel_def demo_klists_def demo_tcb_def split: if_splits)
  ultimately show ?thesis by (simp add: good_def)
qed

lemma demo_may_block: "may_block 0 demo_kernel"
  by (simp add: may_block_def)

section \<open>Scheduling\<close>

fun krun :: "kcall list \<Rightarrow> kernel \<Rightarrow> kernel outcome" where
  "krun [] k = Returns k"
| "krun (c # cs) k = obind (kexec c k) (krun cs)"

fun run_allowed :: "task \<Rightarrow> task set \<Rightarrow> kcall list \<Rightarrow> kernel \<Rightarrow> bool" where
  "run_allowed i T [] k = True"
| "run_allowed i T (c # cs) k \<longleftrightarrow> allowed i T c k \<and> (\<forall>k'. kexec c k = Returns k' \<longrightarrow> run_allowed i T cs k')"

lemma krun_good:
  "good i T k \<Longrightarrow> run_allowed i T cs k \<Longrightarrow> \<exists>k'. krun cs k = Returns k' \<and> good i T k'"
proof (induction cs arbitrary: k)
  case (Cons c cs)
  from kexec_good [OF Cons.prems(1)] Cons.prems(2) obtain k1 where "kexec c k = Returns k1" "good i T k1"
    by (auto simp: keeps_def)
  with Cons.IH [of k1] Cons.prems(2) show ?case by auto
qed simp

text \<open>
  C7. Every run of calls of tasks and interrupts (delays, waits on event lists, notifications,
  suspending and resuming tasks and the scheduler, priority changes, ticks) returns: no assertion of
  the kernel fails and no loop hangs. Afterwards the kernel's lists and counters are consistent, and
  with the scheduler not suspended and no switch pending the running task is ready and no ready task
  has a higher priority.
\<close>

theorem kernel_run_safe:
  assumes "good i T k" and "run_allowed i T cs k"
  shows "\<exists>k'. krun cs k = Returns k' \<and> kinv True T T k' \<and> current k' \<in> T
     \<and> (\<not> xYieldPending k' \<longrightarrow> highest_ready k' (current k'))"
proof -
  obtain k' where k': "krun cs k = Returns k'" "good i T k'" using krun_good [OF assms] by blast
  have "highest_ready k' (current k')" if "\<not> xYieldPending k'"
    using goodD(2,3) [OF k'(2)] that ready_bounds(1) [OF midD(1) [OF goodD(1) [OF k'(2)]]]
    by (auto simp: highest_ready_def cur_ready_def calm_def)
  then show ?thesis using k' midD(1) mid_cur goodD(1) by blast
qed

theorem kernel_run_safe_witness:
  "\<exists>k'. krun [Delay 3, Tick, Resume 8, Notify 8 7 eSetBits, Tick, PrioritySet (Some 4) 9, Tick] demo_kernel = Returns k'
     \<and> kinv True {0, 4, 8} {0, 4, 8} k' \<and> current k' \<in> {0, 4, 8}
     \<and> (\<not> xYieldPending k' \<longrightarrow> highest_ready k' (current k'))"
  by (rule kernel_run_safe [OF demo_good])
    (simp add: demo_may_block prvGetTCBFromHandle_def configMAX_PRIORITIES_def)

text \<open>
  C8. The context switch selects a ready task of the highest priority, records that priority and
  leaves every list as it is, whenever some task is ready.
\<close>

theorem vTaskSwitchContext_highest:
  assumes "kinv True T T k" and "sl k t = Some (Ready p)" and "uxSchedulerSuspended k = 0"
  shows "\<exists>k' c. vTaskSwitchContext k = Returns k' \<and> pxCurrentTCB k' = Some c \<and> highest_ready k' c
     \<and> kinv True T T k' \<and> content (klists k') = content (klists k) \<and> \<not> xYieldPending k'"
proof -
  obtain k' c where s: "vTaskSwitchContext k = Returns k'" "kinv True T T k'" "switch_frame k k'"
    "pxCurrentTCB k' = Some c" "highest_ready k' c" using switch_spec [OF assms] by blast
  then show ?thesis using switch_frameD(1,19) [OF s(3)] by blast
qed

theorem vTaskSwitchContext_highest_witness:
  "\<exists>k' c. vTaskSwitchContext demo_kernel = Returns k' \<and> pxCurrentTCB k' = Some c \<and> highest_ready k' c
     \<and> kinv True {0, 4, 8} {0, 4, 8} k' \<and> content (klists k') = content (klists demo_kernel) \<and> \<not> xYieldPending k'"
  by (rule vTaskSwitchContext_highest [OF demo_kinv, of 4 5]) simp_all

subsection \<open>Round robin\<close>

fun switches :: "nat \<Rightarrow> kernel \<Rightarrow> (task list \<times> kernel) outcome" where
  "switches 0 k = Returns ([], k)"
| "switches (Suc n) k = obind (vTaskSwitchContext k) (\<lambda>k1.
     obind (switches n k1) (\<lambda>(cs, k2). Returns (current k1 # cs, k2)))"

lemma switches_walk:
  assumes "kinv True T T k" and "uxSchedulerSuspended k = 0" and "sl k c = Some (Ready p)"
    and "\<And>t q. sl k t = Some (Ready q) \<Longrightarrow> q \<le> p"
  shows "\<exists>cs k'. switches n k = Returns (cs, k') \<and> map (Some \<circ> StateItem) cs = fst (a_walk n (Ready p) (klists k))"
  using assms
proof (induction n arbitrary: k)
  case (Suc n)
  obtain k1 d where s: "vTaskSwitchContext k = Returns k1" "kinv True T T k1" "switch_frame k k1"
    "pxCurrentTCB k1 = Some d" "highest_ready k1 d"
    "klists k1 = snd (a_next (Ready (unat (prio k d))) (klists k))"
    "fst (a_next (Ready (unat (prio k d))) (klists k)) = Some (StateItem d)"
    using switch_spec [OF Suc.prems(1,3,2)] by blast
  note f = switch_frameD [OF s(3)]
  have sd: "sl k d = Some (Ready (unat (prio k d)))" using s(5) by (simp add: highest_ready_def f)
  have "prio k c \<le> prio k d" using s(5) Suc.prems(3) by (simp add: highest_ready_def f)
  then have "p \<le> unat (prio k d)"
    using ready_bounds(1) [OF Suc.prems(1,3)] by (simp add: word_le_nat_alt)
  then have pd: "unat (prio k d) = p" using Suc.prems(4) [OF sd] by simp
  have "uxSchedulerSuspended k1 = 0" "sl k1 c = Some (Ready p)" "\<And>t q. sl k1 t = Some (Ready q) \<Longrightarrow> q \<le> p"
    using Suc.prems(2-4) by (simp_all add: f)
  from Suc.IH [OF s(2) this(1,2)] this(3) obtain cs k' where r: "switches n k1 = Returns (cs, k')"
    "map (Some \<circ> StateItem) cs = fst (a_walk n (Ready p) (klists k1))" by blast
  have "fst (a_walk (Suc n) (Ready p) (klists k)) = Some (StateItem d) # fst (a_walk n (Ready p) (klists k1))"
  proof -
    have "a_next (Ready p) (klists k) = (Some (StateItem d), klists k1)"
      using s(6,7) unfolding pd by (metis prod.collapse)
    then show ?thesis
      by (cases "a_walk n (Ready p) (klists k1)") (simp only: a_walk.simps Let_def prod.case fst_conv)
  qed
  then have "map (Some \<circ> StateItem) (d # cs) = fst (a_walk (Suc n) (Ready p) (klists k))"
    using r(2) by (simp only: list.map comp_apply)
  moreover have "switches (Suc n) k = Returns (d # cs, k')" using s(1,4) r(1) by simp
  ultimately show ?case by blast
qed (simp add: a_walk.simps)

lemma rotation_permutes:
  assumes "distinct xs" and "\<And>y. c = Some y \<Longrightarrow> y \<in> set xs"
  shows "set (rotation c xs) = set xs \<and> distinct (rotation c xs)"
proof (cases c)
  case None
  then show ?thesis using assms by (simp add: rotation_def)
next
  case (Some y)
  obtain us vs where "xs = us @ y # vs" "takeWhile (\<lambda>z. z \<noteq> y) xs = us" "dropWhile (\<lambda>z. z \<noteq> y) xs = y # vs"
    by (rule takeWhile_dropWhile_mem [OF assms(2) [OF Some] assms(1)])
  then show ?thesis using Some assms(1) by (auto simp: rotation_def ahead_def behind_def)
qed

text \<open>
  C9. Time slicing is fair: with \<open>n\<close> tasks ready at the highest priority, \<open>n\<close> context switches in a
  row run each of them exactly once.
\<close>

theorem round_robin:
  assumes "kinv True T T k" and "uxSchedulerSuspended k = 0" and "sl k c = Some (Ready p)"
    and "\<And>t q. sl k t = Some (Ready q) \<Longrightarrow> q \<le> p"
  shows "\<exists>cs k'. switches (length (list_items k (Ready p))) k = Returns (cs, k')
     \<and> distinct cs \<and> set cs = {t. sl k t = Some (Ready p)}"
proof -
  let ?a = "klists k" and ?xs = "list_items k (Ready p)"
  have ok: "alists_ok ?a" by (rule kinv_ok [OF assms(1)])
  note r = rotation_permutes [OF alists_okD(1) [OF ok, of "Ready p"] alists_okD(3) [OF ok]]
  have l: "length (rotation (cursor ?a (Ready p)) ?xs) = length ?xs"
    by (rule length_rotation [OF alists_okD(1) [OF ok] alists_okD(3) [OF ok]])
  have "fst (a_walk (length (rotation (cursor ?a (Ready p)) ?xs)) (Ready p) ?a)
      = map Some (rotation (cursor ?a (Ready p)) ?xs)"
    by (rule a_walk_prefix [where zs = "[]"])
      (use alists_okD [OF ok] in \<open>auto simp: rotation_def\<close>)
  moreover obtain cs k' where s: "switches (length ?xs) k = Returns (cs, k')"
    "map (Some \<circ> StateItem) cs = fst (a_walk (length ?xs) (Ready p) ?a)"
    using switches_walk [OF assms(1-3)] assms(4) by blast
  ultimately have "map (Some \<circ> StateItem) cs = map Some (rotation (cursor ?a (Ready p)) ?xs)" using l by simp
  then have "map Some (map StateItem cs) = map Some (rotation (cursor ?a (Ready p)) ?xs)"
    by (simp only: map_map)
  then have m: "map StateItem cs = rotation (cursor ?a (Ready p)) ?xs"
    by (rule map_injective) (rule inj_Some)
  have "distinct cs" using r m by (metis distinct_map)
  moreover have "t \<in> set cs \<longleftrightarrow> sl k t = Some (Ready p)" for t
  proof -
    have "t \<in> set cs \<longleftrightarrow> StateItem t \<in> set (map StateItem cs)" by auto
    then show ?thesis unfolding m using r ready_listed [OF assms(1)] by blast
  qed
  ultimately show ?thesis using s(1) by blast
qed

theorem round_robin_witness:
  "\<exists>cs k'. switches (length (list_items demo_kernel (Ready 5))) demo_kernel = Returns (cs, k')
     \<and> distinct cs \<and> set cs = {t. sl demo_kernel t = Some (Ready 5)}"
  by (rule round_robin [OF demo_kinv, of 4])
    (auto simp: demo_kernel_def demo_klists_def split: if_splits)

section \<open>Time\<close>

text \<open>
  C10. A tick advances the time by one, across the overflow of the tick count too, and readies exactly
  the delayed tasks whose wake time is the new time, taking them off the event list they also waited
  on; no task is woken early, late or lost, and no other task moves.
\<close>

theorem xTaskIncrementTick_wakes:
  assumes "kinv True T T k" and "uxSchedulerSuspended k = 0"
  shows "\<exists>sw k' E'. xTaskIncrementTick k = Returns (sw, k') \<and> kinv True T T k'
     \<and> now_time E' k' = now_time E k + 1
     \<and> (\<forall>t. sl k' t = (if wake_time E k t = Some (now_time E' k') then Some (Ready (unat (prio k t))) else sl k t))
     \<and> (\<forall>t. el k' t = (if wake_time E k t = Some (now_time E' k') then None else el k t))
     \<and> (\<forall>t. wake_time E' k' t = (if wake_time E k t = Some (now_time E' k') then None else wake_time E k t))"
proof -
  obtain sw k' where t: "xTaskIncrementTick k = Returns (sw, k')" "kinv True T T k'" "tick_effect E k sw k'"
    using tick_spec [OF assms] by blast
  let ?E = "E + overflow_now k"
  have n: "now_time ?E k' = now_time E k + 1" using t(3) unfolding tick_effect_def by blast
  have a: "acontainer (klists k') = readied (\<lambda>t. wake_time E k t = Some (now_time ?E k')) k"
    using t(3) n unfolding tick_effect_def by simp
  have w: "woken E k 1 = (\<lambda>t. wake_time E k t = Some (now_time ?E k'))"
    using wake_later_than_now [OF assms(1), of E] n by (intro ext) (fastforce simp: woken_def)
  have "wake_time ?E k' t = (if wake_time E k t = Some (now_time ?E k') then None else wake_time E k t)" for t
    using elapsedD(3) [OF tick_elapsed [OF assms(1) t(3)]] unfolding w .
  then show ?thesis using t(1,2) n a by (intro exI [of _ sw] exI [of _ k'] exI [of _ ?E]) (simp add: readied_def)
qed

theorem xTaskIncrementTick_wakes_witness:
  "\<exists>sw k' E'. xTaskIncrementTick demo_kernel = Returns (sw, k') \<and> kinv True {0, 4, 8} {0, 4, 8} k'
     \<and> now_time E' k' = now_time 0 demo_kernel + 1
     \<and> (\<forall>t. sl k' t = (if wake_time 0 demo_kernel t = Some (now_time E' k')
            then Some (Ready (unat (prio demo_kernel t))) else sl demo_kernel t))
     \<and> (\<forall>t. el k' t = (if wake_time 0 demo_kernel t = Some (now_time E' k') then None else el demo_kernel t))
     \<and> (\<forall>t. wake_time E' k' t =
            (if wake_time 0 demo_kernel t = Some (now_time E' k') then None else wake_time 0 demo_kernel t))"
  by (rule xTaskIncrementTick_wakes [OF demo_kinv]) simp

text \<open>
  C11. A task that calls \<open>vTaskDelay\<close> with \<open>n\<close> ticks is blocked during the next \<open>n - 1\<close> ticks and ready,
  at its priority, from the \<open>n\<close>-th tick on; the call and the ticks all return.
\<close>

theorem vTaskDelay_wakes_on_time:
  assumes "good i T k" and "may_block i k" and "n > 0" and "uxPendedTicks k = 0" and "pxCurrentTCB k = Some c"
  shows "\<exists>k1. vTaskDelay n k = Returns k1
     \<and> (\<forall>j. \<exists>k2. ticks j k1 = Returns k2
          \<and> (if j < unat n then sl k2 c = Some (pxDelayedTaskList k2) \<or> sl k2 c = Some (pxOverflowDelayedTaskList k2)
             else sl k2 c = Some (Ready (unat (prio k c)))))"
proof -
  have n: "n \<noteq> 0" using assms(3) by auto
  obtain k1 E where b: "obind (xTaskResumeAll (prvAddCurrentTaskToDelayedList n False (vTaskSuspendAll k)))
       (\<lambda>(already, k1). if \<not> already then portYIELD k1 else Returns k1) = Returns k1" "good i T k1"
    "uxSchedulerSuspended k1 = 0" "now_time E k1 = now_time 0 k"
    "wake_time E k1 c = Some (now_time 0 k + unat n)" "prio k1 c = prio k c"
    using blocked_call [OF assms(1,2) n assms(4,5), of 0] by blast
  have "vTaskDelay n k = Returns k1"
    unfolding vTaskDelay_def configASSERT_def using assms(2,3) b(1) by (simp only: may_block_def if_True simp_thms)
  moreover have "\<exists>k2. ticks j k1 = Returns k2
          \<and> (if j < unat n then sl k2 c = Some (pxDelayedTaskList k2) \<or> sl k2 c = Some (pxOverflowDelayedTaskList k2)
             else sl k2 c = Some (Ready (unat (prio k c))))" for j
  proof -
    obtain k2 E2 where t: "ticks j k1 = Returns k2"
      "\<And>t. wake_time E2 k2 t = (if woken E k1 j t then None else wake_time E k1 t)"
      "acontainer (klists k2) = readied (woken E k1 j) k1"
      using ticks_elapse [OF b(2,3), of j E] by blast
    have w: "woken E k1 j c \<longleftrightarrow> unat n \<le> j" using b(4,5) by (simp add: woken_def)
    then have "wake_time E2 k2 c = (if unat n \<le> j then None else Some (now_time 0 k + unat n))"
      using t(2) b(5) by simp
    then show ?thesis using t(1,3) w b(6)
      by (intro exI [of _ k2]) (auto simp: readied_def wake_time_def split: if_splits)
  qed
  ultimately show ?thesis by blast
qed

theorem vTaskDelay_wakes_on_time_witness:
  "\<exists>k1. vTaskDelay 3 demo_kernel = Returns k1
     \<and> (\<forall>j. \<exists>k2. ticks j k1 = Returns k2
          \<and> (if j < unat (3 :: tick)
             then sl k2 4 = Some (pxDelayedTaskList k2) \<or> sl k2 4 = Some (pxOverflowDelayedTaskList k2)
             else sl k2 4 = Some (Ready (unat (prio demo_kernel 4)))))"
  by (rule vTaskDelay_wakes_on_time [OF demo_good demo_may_block]) simp_all

end
