(* ===== verification/Tasks_Sync_Spec.thy ===== *)
theory Tasks_Sync_Spec
  imports Tasks_Spec
begin

text \<open>
  More properties of \<open>tasks.c\<close>: catching up with pended ticks, periodic delays, time-outs, priority
  inheritance and notifications.
\<close>

section \<open>Suspending the scheduler loses no tick\<close>

lemma krun_append: "krun (xs @ ys) k = obind (krun xs k) (krun ys)"
proof (induction xs arbitrary: k)
  case (Cons c cs)
  show ?case by (cases "kexec c k") (simp_all add: Cons)
qed simp

lemma suspended_ticks:
  assumes "uxSchedulerSuspended k \<noteq> 0"
  shows "krun (replicate n Tick) k = Returns (k\<lparr>uxPendedTicks := uxPendedTicks k + of_nat n,
           xYieldPending := xYieldPending k \<or> 0 < n\<rparr>)"
  using assms
proof (induction n arbitrary: k)
  case (Suc n)
  let ?k = "k\<lparr>uxPendedTicks := uxPendedTicks k + 1, xYieldPending := True\<rparr>"
  have "kexec Tick k = Returns ?k"
    using tick_suspended [OF Suc.prems] switch_suspended [of "k\<lparr>uxPendedTicks := uxPendedTicks k + 1\<rparr>"] Suc.prems
    by simp
  moreover have "krun (replicate n Tick) ?k = Returns (k\<lparr>uxPendedTicks := uxPendedTicks k + of_nat (Suc n),
      xYieldPending := xYieldPending k \<or> 0 < Suc n\<rparr>)"
    using Suc.IH [of ?k] Suc.prems by (simp add: add.commute add.left_commute)
  ultimately show ?case by (simp only: replicate_Suc krun.simps obind.simps)
qed simp

lemma tick_count_of_time:
  assumes "now_time E k = now_time E' k'"
  shows "xTickCount k = xTickCount k'"
proof -
  have "unat (xTickCount k) = now_time E k mod 2 ^ 32" "unat (xTickCount k') = now_time E' k' mod 2 ^ 32"
    using unsigned_less [of "xTickCount k", where 'a = nat] unsigned_less [of "xTickCount k'", where 'a = nat]
    by (simp_all add: now_time_def)
  with assms show ?thesis by (simp add: word_unat_eq_iff)
qed

lemma tick_of_time: "xTickCount k = of_nat (now_time E k)"
proof -
  have "unat (of_nat (now_time E k) :: tick) = now_time E k mod 2 ^ 32" by (simp add: unat_of_nat)
  also have "\<dots> = unat (xTickCount k)"
    using unsigned_less [of "xTickCount k", where 'a = nat] by (simp add: now_time_def)
  finally show ?thesis by (metis word_unat_eq_iff)
qed

text \<open>
  C12. Suspending the scheduler loses no tick: \<open>n\<close> ticks while it is suspended, caught up by
  \<open>xTaskResumeAll\<close>, leave the same tick count, the same tasks on the same lists and the same wake
  times as \<open>n\<close> ticks processed one by one.
\<close>

theorem resume_all_catches_up:
  assumes g: "good i T k" and u: "uxSchedulerSuspended k = 0" and p: "uxPendedTicks k = 0" and n: "n < 2 ^ 32"
  shows "\<exists>kA kB EA EB. ticks n k = Returns kA \<and> krun (SuspendAll # replicate n Tick @ [ResumeAll]) k = Returns kB
     \<and> xTickCount kA = xTickCount kB \<and> acontainer (klists kA) = acontainer (klists kB)
     \<and> (\<forall>t. wake_time EA kA t = wake_time EB kB t) \<and> uxSchedulerSuspended kB = 0 \<and> uxPendedTicks kB = 0"
proof -
  obtain kA EA where A: "ticks n k = Returns kA" "now_time EA kA = now_time 0 k + n"
    "\<And>t. wake_time EA kA t = (if woken 0 k n t then None else wake_time 0 k t)"
    "acontainer (klists kA) = readied (woken 0 k n) k"
    using ticks_elapse [OF g u, of n 0] by blast
  let ?k1 = "vTaskSuspendAll k"
  let ?k2 = "?k1\<lparr>uxPendedTicks := of_nat n, xYieldPending := xYieldPending k \<or> 0 < n\<rparr>"
  have "krun (replicate n Tick) ?k1 = Returns ?k2"
    using suspended_ticks [of ?k1 n] u p by (simp add: vTaskSuspendAll_def)
  then have run: "krun (SuspendAll # replicate n Tick @ [ResumeAll]) k = obind (xTaskResumeAll ?k2) (\<lambda>(b, k). Returns k)"
    by (cases "xTaskResumeAll ?k2") (auto simp: krun_append)
  have m1: "mid i T ?k1" by (rule mid_suspend_all [OF goodD(1) [OF g]]) (simp add: u)
  have m2: "mid i T ?k2" by (rule mid_same [OF m1]) simp_all
  have u2: "uxSchedulerSuspended ?k2 = 1" using u by simp
  obtain EB k3 where r: "resumed 0 ?k2 EB k3" "kinv True T T k3"
    "xTaskResumeAll ?k2 = (if xYieldPending k3 then obind (portYIELD k3) (\<lambda>k2. Returns (True, k2))
        else Returns (False, k3))"
    using resume_all_last [OF midD(1) [OF m2] u2 midD(6) [OF m2], of 0] by blast
  have un: "unat (of_nat n :: u32) = n" by (rule unat_of_nat_small [OF n])
  have np: "\<not> pending ?k2 t" for t using midD(9) [OF goodD(1) [OF g] u, of t] by (simp add: pending_def)
  have w: "woken 0 ?k2 n t \<longleftrightarrow> woken 0 k n t" "wake_time 0 ?k2 t = wake_time 0 k t" for t
    by (simp_all add: woken_def wake_time_def now_time_def)
  have s1: "wake_time 0 ?k1 t = wake_time 0 k t" "now_time 0 ?k1 = now_time 0 k" for t
    by (simp_all add: wake_time_def now_time_def)
  have rd: "readied P ?k2 = readied P k" for P by (intro ext) (simp add: readied_def split: titem.split)
  have c3: "acontainer (klists k3) = readied (woken 0 k n) k"
    and t3: "now_time EB k3 = now_time 0 k + n"
    and w3: "\<And>t. wake_time EB k3 t = (if woken 0 k n t then None else wake_time 0 k t)"
    and f3: "uxSchedulerSuspended k3 = 0" "uxPendedTicks k3 = 0"
    using r(1) np unfolding resumed_def by (simp_all add: un w s1 rd)
  have m3: "mid i T k3" by (rule mid_resumed [OF m2 r(1,2)])
  obtain k4 where k4: "portYIELD k3 = Returns k4" "switch_frame k3 k4" using yield_switch [OF m3 f3(1)] by blast
  define kB where "kB = (if xYieldPending k3 then k4 else k3)"
  have B: "krun (SuspendAll # replicate n Tick @ [ResumeAll]) k = Returns kB"
    unfolding run r(3) kB_def
    by (cases "xYieldPending k3") (simp_all only: if_True if_False k4(1) obind.simps prod.case)
  have "acontainer (klists kB) = acontainer (klists k3)" "now_time EB kB = now_time EB k3"
    "wake_time EB kB t = wake_time EB k3 t" "uxSchedulerSuspended kB = 0" "uxPendedTicks kB = 0" for t
    using switch_frameD(2,14,15) [OF k4(2)] switch_time [OF k4(2)] f3 by (simp_all add: kB_def)
  then show ?thesis
    using A B c3 t3 w3 tick_count_of_time [of EA kA EB kB]
    by (intro exI [of _ kA] exI [of _ kB] exI [of _ EA] exI [of _ EB]) simp
qed

theorem resume_all_catches_up_witness:
  "\<exists>kA kB EA EB. ticks 5 demo_kernel = Returns kA
     \<and> krun (SuspendAll # replicate 5 Tick @ [ResumeAll]) demo_kernel = Returns kB
     \<and> xTickCount kA = xTickCount kB \<and> acontainer (klists kA) = acontainer (klists kB)
     \<and> (\<forall>t. wake_time EA kA t = wake_time EB kB t) \<and> uxSchedulerSuspended kB = 0 \<and> uxPendedTicks kB = 0"
  by (rule resume_all_catches_up [OF demo_good]) simp_all

section \<open>Periodic delays\<close>

text \<open>
  \<open>vTaskDelayUntil\<close> keeps a fixed period: with the previous wake time \<open>P\<close> in the past by less than
  one turn of the tick count, it blocks the task until \<open>P + n\<close> exactly when that time is still to come,
  leaves it ready otherwise, and in both cases records \<open>P + n\<close> as the new wake time, so a late task
  does not shift the following ones.
\<close>

theorem vTaskDelayUntil_period:
  assumes "good i T k" and "may_block i k" and "n > 0" and "uxPendedTicks k = 0" and "pxCurrentTCB k = Some c"
    and "P \<le> now_time E k" and "now_time E k < P + 2 ^ 32"
  shows "\<exists>k' E'. vTaskDelayUntil (of_nat P) n k = Returns (of_nat (P + unat n), k') \<and> good i T k'
     \<and> now_time E' k' = now_time E k
     \<and> (if now_time E k < P + unat n then wake_time E' k' c = Some (P + unat n)
        else sl k' c = Some (Ready (unat (prio k c))))"
proof -
  let ?N = "now_time E k"
  have tk: "xTickCount k = of_nat ?N" by (rule tick_of_time)
  note x = should_delay_exact [OF assms(6,7), of n, folded tk]
  have s: "uxSchedulerSuspended k = 0" using assms(2) by (simp add: may_block_def)
  let ?k = "if xShouldDelay (of_nat P) (of_nat P + n) (xTickCount k)
      then prvAddCurrentTaskToDelayedList (of_nat P + n - xTickCount k) False (vTaskSuspendAll k)
      else vTaskSuspendAll k"
  have call: "vTaskDelayUntil (of_nat P) n k = Returns (of_nat (P + unat n), k')"
    if run: "obind (xTaskResumeAll ?k) (\<lambda>(already, k1). if \<not> already then portYIELD k1 else Returns k1) = Returns k'" for k'
  proof -
    obtain x where "xTaskResumeAll ?k = Returns x"
      "(case x of (already, k1) \<Rightarrow> if \<not> already then portYIELD k1 else Returns k1) = Returns k'"
      using run unfolding obind_Returns by blast
    then obtain b k1 where "xTaskResumeAll ?k = Returns (b, k1)" "(if \<not> b then portYIELD k1 else Returns k1) = Returns k'"
      by (cases x) simp
    then show ?thesis
      by (simp only: vTaskDelayUntil_def Let_def configASSERT_def assms(3) s if_True refl
          suspend_all_frame(6) obind.simps prod.case) simp
  qed
  show ?thesis
  proof (cases "?N < P + unat n")
    case True
    then have d: "of_nat P + n - xTickCount k \<noteq> 0" "unat (of_nat P + n - xTickCount k) = P + unat n - ?N"
      using x(2) [OF True] by (auto simp: unat_eq_zero [symmetric])
    obtain k' E' where "obind (xTaskResumeAll ?k) (\<lambda>(already, k1). if \<not> already then portYIELD k1 else Returns k1) = Returns k'"
      "good i T k'" "now_time E' k' = ?N" "wake_time E' k' c = Some (?N + unat (of_nat P + n - xTickCount k))"
      using blocked_call [OF assms(1,2) d(1) assms(4,5), of E] x(1) True by auto
    with call True d(2) show ?thesis by (intro exI [of _ k'] exI [of _ E']) simp
  next
    case False
    obtain k' E' where "obind (xTaskResumeAll ?k) (\<lambda>(already, k1). if \<not> already then portYIELD k1 else Returns k1) = Returns k'"
      "good i T k'" "now_time E' k' = ?N" "sl k' c = Some (Ready (unat (prio k c)))"
      using unblocked_call [OF assms(1) s assms(4,5), of E] x(1) False by auto
    with call False show ?thesis by (intro exI [of _ k'] exI [of _ E']) simp
  qed
qed

theorem vTaskDelayUntil_period_witness:
  "\<exists>k' E'. vTaskDelayUntil (of_nat 0xfffffff0) 20 demo_kernel = Returns (of_nat (0xfffffff0 + unat (20 :: tick)), k')
     \<and> good 0 {0, 4, 8} k' \<and> now_time E' k' = now_time 0 demo_kernel
     \<and> (if now_time 0 demo_kernel < 0xfffffff0 + unat (20 :: tick)
        then wake_time E' k' 4 = Some (0xfffffff0 + unat (20 :: tick))
        else sl k' 4 = Some (Ready (unat (prio demo_kernel 4))))"
  by (rule vTaskDelayUntil_period [OF demo_good demo_may_block]) (simp_all add: now_time_def)

section \<open>Time-outs\<close>

text \<open>
  C13. \<open>xTaskCheckForTimeOut\<close> is exact over the wrapping of the tick count and repeated waits: checked
  less than one turn of the tick count after the record was taken, it reports a time-out exactly when
  the deadline (time of the record plus time to wait) is reached, and otherwise updates the record and
  the time to wait so that the deadline stays the same. A block time of \<open>portMAX_DELAY\<close> never expires,
  an aborted delay counts as a time-out once.
\<close>

theorem xTaskCheckForTimeOut_deadline:
  assumes "at_time N k" and "taken_at S tmo" and "S \<le> N" and "N < S + 2 ^ 32"
  shows "if ucDelayAborted (tcbs k (current k))
         then xTaskCheckForTimeOut tmo wait k =
                (True, tmo, wait, update_tcb (current k) (\<lambda>c. c\<lparr>ucDelayAborted := False\<rparr>) k)
         else if wait = portMAX_DELAY then xTaskCheckForTimeOut tmo wait k = (False, tmo, wait, k)
         else (fst (xTaskCheckForTimeOut tmo wait k) \<longleftrightarrow> S + unat wait \<le> N)
              \<and> (N < S + unat wait \<longrightarrow> (\<exists>tmo' wait'. xTaskCheckForTimeOut tmo wait k = (False, tmo', wait', k)
                    \<and> taken_at N tmo' \<and> N + unat wait' = S + unat wait))"
proof -
  consider (a) "ucDelayAborted (tcbs k (current k))" | (m) "\<not> ucDelayAborted (tcbs k (current k))" "wait = portMAX_DELAY"
    | (n) "\<not> ucDelayAborted (tcbs k (current k))" "wait \<noteq> portMAX_DELAY" by blast
  then show ?thesis
  proof cases
    case a
    then show ?thesis by (simp add: xTaskCheckForTimeOut_def Let_def)
  next
    case m
    then show ?thesis by (simp add: xTaskCheckForTimeOut_def Let_def)
  next
    case n
    from check_timeout_exact [OF assms n(2,1)] n show ?thesis by (simp only: if_False) blast
  qed
qed

theorem xTaskCheckForTimeOut_deadline_witness:
  "if ucDelayAborted (tcbs demo_kernel (current demo_kernel))
         then xTaskCheckForTimeOut \<lparr>xOverflowCount = 0, xTimeOnEntering = 0xfffffff0\<rparr> 20 demo_kernel =
                (True, \<lparr>xOverflowCount = 0, xTimeOnEntering = 0xfffffff0\<rparr>, 20,
                 update_tcb (current demo_kernel) (\<lambda>c. c\<lparr>ucDelayAborted := False\<rparr>) demo_kernel)
         else if (20 :: tick) = portMAX_DELAY
         then xTaskCheckForTimeOut \<lparr>xOverflowCount = 0, xTimeOnEntering = 0xfffffff0\<rparr> 20 demo_kernel =
                (False, \<lparr>xOverflowCount = 0, xTimeOnEntering = 0xfffffff0\<rparr>, 20, demo_kernel)
         else (fst (xTaskCheckForTimeOut \<lparr>xOverflowCount = 0, xTimeOnEntering = 0xfffffff0\<rparr> 20 demo_kernel)
                 \<longleftrightarrow> 0xfffffff0 + unat (20 :: tick) \<le> 0xfffffffe)
              \<and> ((0xfffffffe :: nat) < 0xfffffff0 + unat (20 :: tick) \<longrightarrow>
                   (\<exists>tmo' wait'. xTaskCheckForTimeOut \<lparr>xOverflowCount = 0, xTimeOnEntering = 0xfffffff0\<rparr> 20 demo_kernel =
                      (False, tmo', wait', demo_kernel)
                    \<and> taken_at 0xfffffffe tmo' \<and> 0xfffffffe + unat wait' = 0xfffffff0 + unat (20 :: tick)))"
  by (rule xTaskCheckForTimeOut_deadline) (simp_all add: at_time_def taken_at_def)

section \<open>Priority inheritance\<close>

lemma inherit_eq:
  assumes "prio k h < prio k c" and "pxCurrentTCB k = Some c"
  shows "xTaskPriorityInherit (Some h) k = (True, requeue_if_ready (prio k h) h
           (set_event_priority h (prio k c) (update_tcb h (\<lambda>d. d\<lparr>uxPriority := prio k c\<rparr>) k)))"
proof -
  have "set_event_priority h p (update_tcb h f k) = update_tcb h f (set_event_priority h p k)" for p f
    by (simp add: set_event_priority_def listSET_LIST_ITEM_VALUE_def update_tcb_def)
  then show ?thesis
    using assms by (simp add: xTaskPriorityInherit_def requeue_if_ready_def remove_update_commute Let_def)
qed

text \<open>
  C14. Priority inheritance: when the running task waits for a mutex held by a task of lower priority,
  the holder gets the waiting task's priority, on the ready list too; when the holder later gives back
  the last mutex it holds, it returns to its own priority and the caller is told to yield. The lists
  stay consistent throughout.
\<close>

theorem priority_inheritance:
  assumes k: "kinv True T T k" and h: "h \<in> T" and c: "pxCurrentTCB k = Some c" "c \<in> T"
    and p: "uxBasePriority (tcbs k h) = prio k h" "prio k h < prio k c" and m: "uxMutexesHeld (tcbs k h) = 1"
  shows "\<exists>k1. xTaskPriorityInherit (Some h) k = (True, k1) \<and> kinv True T T k1 \<and> prio k1 h = prio k c
     \<and> (\<forall>q. sl k h = Some (Ready q) \<longrightarrow> sl k1 h = Some (Ready (unat (prio k c))))
     \<and> (\<forall>k2. kinv True T T k2 \<and> pxCurrentTCB k2 = Some h \<and> tcbs k2 h = tcbs k1 h \<longrightarrow>
          (\<exists>k3. xTaskPriorityDisinherit (Some h) k2 = Returns (True, k3) \<and> kinv True T T k3
             \<and> prio k3 h = prio k h \<and> uxMutexesHeld (tcbs k3 h) = 0
             \<and> sl k3 h = Some (Ready (unat (prio k h)))))"
proof -
  let ?k1 = "requeue_if_ready (prio k h) h
       (set_event_priority h (prio k c) (update_tcb h (\<lambda>d. d\<lparr>uxPriority := prio k c\<rparr>) k))"
  have lt: "prio k c < configMAX_PRIORITIES" "prio k h < configMAX_PRIORITIES"
    using kinv_parts(2) [OF k] h c(2) by (simp_all add: prio_ok_def)
  have k1: "kinv True T T ?k1"
    by (intro kinv_reprioritise k h) (use lt p in simp_all)
  have t1: "tcbs ?k1 h = (tcbs k h)\<lparr>uxPriority := prio k c\<rparr>" by simp
  have r1: "sl ?k1 h = Some (Ready (unat (prio k c)))" if "sl k h = Some (Ready q)" for q
    using that ready_bounds(1) [OF k that] by simp
  have "\<exists>k3. xTaskPriorityDisinherit (Some h) k2 = Returns (True, k3) \<and> kinv True T T k3
       \<and> prio k3 h = prio k h \<and> uxMutexesHeld (tcbs k3 h) = 0 \<and> sl k3 h = Some (Ready (unat (prio k h)))"
    if k2: "kinv True T T k2" "pxCurrentTCB k2 = Some h" "tcbs k2 h = tcbs ?k1 h" for k2
  proof -
    let ?m = "update_tcb h (\<lambda>c. c\<lparr>uxMutexesHeld := uxMutexesHeld c - 1\<rparr>) k2"
    let ?a = "update_tcb h (\<lambda>c. c\<lparr>uxPriority := uxBasePriority c\<rparr>) (uxListRemove_k (StateItem h) ?m)"
    let ?b = "listSET_LIST_ITEM_VALUE (EventItem h) (configMAX_PRIORITIES - prio ?a h) ?a"
    have f: "uxMutexesHeld (tcbs k2 h) = 1" "prio k2 h = prio k c" "uxBasePriority (tcbs k2 h) = prio k h"
      using k2(3) m p by (simp_all add: t1)
    have "kinv True T T ?m" by (rule kinv_update_same [OF k2(1)]) simp_all
    then have "kinv True (T - {h}) T (uxListRemove_k (StateItem h) ?m)" by (rule kinv_remove_state)
    then have "kinv True (T - {h}) T ?a" by (rule kinv_update_prio) (use f lt in simp_all)
    then have "kinv True (T - {h}) T ?b" by (rule kinv_set_event_value)
    then have "kinv True (insert h (T - {h})) T (prvAddTaskToReadyList h ?b)" using h by (intro kinv_add_ready) simp_all
    then have "kinv True T T (prvAddTaskToReadyList h ?b)" using h by (simp add: insert_absorb)
    moreover have "xTaskPriorityDisinherit (Some h) k2 = Returns (True, prvAddTaskToReadyList h ?b)"
      using k2(2) f p(2) by (auto simp: xTaskPriorityDisinherit_def configASSERT_def Let_def)
    ultimately show ?thesis using f by (intro exI [of _ "prvAddTaskToReadyList h ?b"]) simp
  qed
  then show ?thesis
    using inherit_eq [OF p(2) c(1)] k1 r1 by (intro exI [of _ ?k1]) simp
qed

definition demo_holder :: kernel where
  "demo_holder = update_tcb 0 (\<lambda>c. c\<lparr>uxMutexesHeld := 1\<rparr>) demo_kernel"

lemma demo_holder_facts:
  "kinv True {0, 4, 8} {0, 4, 8} demo_holder" "pxCurrentTCB demo_holder = Some 4"
  "uxBasePriority (tcbs demo_holder 0) = prio demo_holder 0" "prio demo_holder 0 < prio demo_holder 4"
  "uxMutexesHeld (tcbs demo_holder 0) = 1"
proof -
  show "kinv True {0, 4, 8} {0, 4, 8} demo_holder"
    unfolding demo_holder_def by (rule kinv_update_same [OF demo_kinv]) simp_all
qed (simp_all add: demo_holder_def demo_kernel_def demo_tcb_def update_tcb_def)

theorem priority_inheritance_witness:
  "\<exists>k1. xTaskPriorityInherit (Some 0) demo_holder = (True, k1) \<and> kinv True {0, 4, 8} {0, 4, 8} k1
     \<and> prio k1 0 = prio demo_holder 4
     \<and> (\<forall>q. sl demo_holder 0 = Some (Ready q) \<longrightarrow> sl k1 0 = Some (Ready (unat (prio demo_holder 4))))
     \<and> (\<forall>k2. kinv True {0, 4, 8} {0, 4, 8} k2 \<and> pxCurrentTCB k2 = Some 0 \<and> tcbs k2 0 = tcbs k1 0 \<longrightarrow>
          (\<exists>k3. xTaskPriorityDisinherit (Some 0) k2 = Returns (True, k3) \<and> kinv True {0, 4, 8} {0, 4, 8} k3
             \<and> prio k3 0 = prio demo_holder 0 \<and> uxMutexesHeld (tcbs k3 0) = 0
             \<and> sl k3 0 = Some (Ready (unat (prio demo_holder 0)))))"
  using demo_holder_facts by (intro priority_inheritance) simp_all

section \<open>Notifications\<close>

text \<open>
  C15. A notification sent to a task that waits for one readies it, and with the scheduler running
  the highest priority task runs next; the waiting call then returns true with the value the action
  prescribes, clears the bits asked for and leaves no notification behind. A notification that the
  action must not overwrite is refused and changes no value.
\<close>

theorem xTaskGenericNotify_delivers:
  assumes g: "good i T k" and t: "t \<in> T" and w: "waiting k t"
  shows "\<exists>k'. xTaskGenericNotify (Some t) v a k = Returns (True, ulNotifiedValue (tcbs k t), k') \<and> good i T k'
     \<and> sl k' t = Some (Ready (unat (prio k t)))
     \<and> (\<forall>k2. pxCurrentTCB k2 = Some t \<and> ulNotifiedValue (tcbs k2 t) = ulNotifiedValue (tcbs k' t)
              \<and> ucNotifyState (tcbs k2 t) = ucNotifyState (tcbs k' t) \<longrightarrow>
          (\<exists>k3. xTaskNotifyWait_finish c k2 =
             (True, snd (notify_action a v taskWAITING_NOTIFICATION (ulNotifiedValue (tcbs k t))), k3)
           \<and> ulNotifiedValue (tcbs k3 t) =
               snd (notify_action a v taskWAITING_NOTIFICATION (ulNotifiedValue (tcbs k t))) AND NOT c
           \<and> ucNotifyState (tcbs k3 t) = taskNOT_WAITING_NOTIFICATION))
     \<and> (\<forall>k4. ucNotifyState (tcbs k4 t) = taskNOTIFICATION_RECEIVED \<longrightarrow>
          (\<exists>k5. xTaskGenericNotify (Some t) v eSetValueWithoutOverwrite k4 =
             Returns (False, ulNotifiedValue (tcbs k4 t), k5) \<and> tcbs k5 t = tcbs k4 t))"
proof -
  let ?v = "snd (notify_action a v taskWAITING_NOTIFICATION (ulNotifiedValue (tcbs k t)))"
  let ?k1 = "update_tcb t (\<lambda>c. c\<lparr>ucNotifyState := taskNOTIFICATION_RECEIVED, ulNotifiedValue := ?v\<rparr>) k"
  have ok: "notify_action a v taskWAITING_NOTIFICATION x = (True, snd (notify_action a v taskWAITING_NOTIFICATION x))" for x
    by (cases a) simp_all
  have p: "post_notification t v a k = (True, ulNotifiedValue (tcbs k t), taskWAITING_NOTIFICATION, ?k1)"
    using ok [of "ulNotifiedValue (tcbs k t)"] by (auto simp: post_notification_def w Let_def split: prod.split)
  have g1: "good i T ?k1" by (rule update_frame_good [OF g]) simp_all
  have e: "el k t = None" using midD(7) [OF goodD(1) [OF g] w] .
  let ?r = "make_ready t ?k1"
  let ?b = "prio ?k1 t > prio ?k1 (current ?k1)"
  obtain k' where k': "(if ?b then portYIELD ?r else Returns ?r) = Returns k'" "good i T k'"
    using ready_then_yield [OF g1 t, of ?b] e by (auto simp: not_less)
  have x: "xTaskGenericNotify (Some t) v a k = Returns (True, ulNotifiedValue (tcbs k t), k')"
    using k'(1) e by (simp add: xTaskGenericNotify_def p make_ready_def [symmetric] configASSERT_def)
  have f: "sl k' t = sl ?r t \<and> ulNotifiedValue (tcbs k' t) = ?v \<and> ucNotifyState (tcbs k' t) = taskNOTIFICATION_RECEIVED"
  proof (cases "?b \<and> uxSchedulerSuspended k = 0")
    case True
    have "mid i T ?r" by (rule mid_make_ready [OF goodD(1) [OF g1] t]) (simp add: e)
    then obtain k2 where "portYIELD ?r = Returns k2" "switch_frame ?r k2" using yield_switch True by fastforce
    with k'(1) True have "switch_frame ?r k'" by simp
    from switch_frameD [OF this] show ?thesis by simp
  next
    case False
    then have "k' = ?r \<or> k' = ?r\<lparr>xYieldPending := True\<rparr>"
      using k'(1) switch_suspended [of ?r] by (auto simp: portYIELD_def split: if_splits)
    then show ?thesis by auto
  qed
  have "\<exists>k3. xTaskNotifyWait_finish c k2 = (True, ?v, k3) \<and> ulNotifiedValue (tcbs k3 t) = ?v AND NOT c
      \<and> ucNotifyState (tcbs k3 t) = taskNOT_WAITING_NOTIFICATION"
    if "pxCurrentTCB k2 = Some t" "ulNotifiedValue (tcbs k2 t) = ulNotifiedValue (tcbs k' t)"
      "ucNotifyState (tcbs k2 t) = ucNotifyState (tcbs k' t)" for k2
    using that f by (simp add: xTaskNotifyWait_finish_def)
  moreover have "\<exists>k5. xTaskGenericNotify (Some t) v eSetValueWithoutOverwrite k4 =
      Returns (False, ulNotifiedValue (tcbs k4 t), k5) \<and> tcbs k5 t = tcbs k4 t"
    if "ucNotifyState (tcbs k4 t) = taskNOTIFICATION_RECEIVED" for k4
    using that by (simp add: xTaskGenericNotify_def post_notification_def Let_def)
  ultimately show ?thesis using x k'(2) f by (intro exI [of _ k']) simp
qed

text \<open>The demo kernel with task 8 waiting for a notification for ever.\<close>

definition demo_waiting :: kernel where
  "demo_waiting = update_tcb 8 (\<lambda>c. c\<lparr>ucNotifyState := taskWAITING_NOTIFICATION\<rparr>) demo_kernel"

lemma demo_waiting_good: "good 0 {0, 4, 8} demo_waiting"
  unfolding demo_waiting_def by (rule good_same [OF demo_good]) (simp_all add: update_tcb_def)

lemma demo_waiting_waits: "waiting demo_waiting 8"
  by (simp add: demo_waiting_def)

theorem xTaskGenericNotify_delivers_witness:
  "\<exists>k'. xTaskGenericNotify (Some 8) 6 eSetBits demo_waiting = Returns (True, ulNotifiedValue (tcbs demo_waiting 8), k')
     \<and> good 0 {0, 4, 8} k' \<and> sl k' 8 = Some (Ready (unat (prio demo_waiting 8)))
     \<and> (\<forall>k2. pxCurrentTCB k2 = Some 8 \<and> ulNotifiedValue (tcbs k2 8) = ulNotifiedValue (tcbs k' 8)
              \<and> ucNotifyState (tcbs k2 8) = ucNotifyState (tcbs k' 8) \<longrightarrow>
          (\<exists>k3. xTaskNotifyWait_finish 2 k2 =
             (True, snd (notify_action eSetBits 6 taskWAITING_NOTIFICATION (ulNotifiedValue (tcbs demo_waiting 8))), k3)
           \<and> ulNotifiedValue (tcbs k3 8) =
               snd (notify_action eSetBits 6 taskWAITING_NOTIFICATION (ulNotifiedValue (tcbs demo_waiting 8))) AND NOT 2
           \<and> ucNotifyState (tcbs k3 8) = taskNOT_WAITING_NOTIFICATION))
     \<and> (\<forall>k4. ucNotifyState (tcbs k4 8) = taskNOTIFICATION_RECEIVED \<longrightarrow>
          (\<exists>k5. xTaskGenericNotify (Some 8) 6 eSetValueWithoutOverwrite k4 =
             Returns (False, ulNotifiedValue (tcbs k4 8), k5) \<and> tcbs k5 8 = tcbs k4 8))"
  by (rule xTaskGenericNotify_delivers [OF demo_waiting_good _ demo_waiting_waits]) simp

text \<open>
  C16. A task that waits for a notification without a time-out is taken for a suspended one:
  \<open>eTaskGetState\<close> reports \<open>eSuspended\<close> where the task is blocked, \<open>vTaskResume\<close> readies it although nobody
  suspended or notified it, so that its wait returns false before its time; and an interrupt that
  resumes it while the scheduler is suspended makes a later notification from an interrupt fail an
  assertion of the kernel.
\<close>

theorem notification_wait_taken_for_suspension:
  assumes k: "good i T k" and t: "t \<in> T" "pxCurrentTCB k \<noteq> Some t"
    and w: "waiting k t" "sl k t = Some xSuspendedTaskList"
  shows "eTaskGetState t k = eSuspended
     \<and> (\<exists>k1. vTaskResume (Some t) k = Returns k1 \<and> sl k1 t = Some (Ready (unat (prio k t)))
          \<and> (\<forall>k2. pxCurrentTCB k2 = Some t \<and> ucNotifyState (tcbs k2 t) = ucNotifyState (tcbs k1 t) \<longrightarrow>
                fst (xTaskNotifyWait_finish c k2) = False))
     \<and> (uxSchedulerSuspended k \<noteq> 0 \<longrightarrow>
          (\<exists>k1. xTaskResumeFromISR (Some t) k = Returns (False, k1)
             \<and> (\<forall>v a wk. xTaskGenericNotifyFromISR (Some t) v a wk k1 = Asserts)))"
proof -
  have e: "el k t = None" using midD(7) [OF goodD(1) [OF k] w(1)] .
  have s: "prvTaskIsTaskSuspended t k" using e w(2) by (simp add: prvTaskIsTaskSuspended_def)
  let ?b = "prio k t \<ge> prio k (current k)"
  obtain k1 where k1: "(if ?b then portYIELD (make_ready t k) else Returns (make_ready t k)) = Returns k1"
    using ready_then_yield [OF k t(1), of ?b] e by fastforce
  have r: "vTaskResume (Some t) k = Returns k1"
    using s t(2) k1 by (auto simp: vTaskResume_def make_ready_def Let_def)
  have f: "sl k1 t = Some (Ready (unat (prio k t))) \<and> waiting k1 t"
  proof (cases "?b \<and> uxSchedulerSuspended k = 0")
    case True
    have "mid i T (make_ready t k)" by (rule mid_make_ready [OF goodD(1) [OF k] t(1)]) (simp add: e)
    then obtain k2 where "portYIELD (make_ready t k) = Returns k2" "switch_frame (make_ready t k) k2"
      using yield_switch True by fastforce
    with k1 True have "switch_frame (make_ready t k) k1" by simp
    from switch_frameD [OF this] w(1) show ?thesis by simp
  next
    case False
    then have "k1 = make_ready t k \<or> k1 = (make_ready t k)\<lparr>xYieldPending := True\<rparr>"
      using k1 switch_suspended [of "make_ready t k"] by (auto simp: portYIELD_def split: if_splits)
    then show ?thesis using w(1) by auto
  qed
  have "fst (xTaskNotifyWait_finish c k2) = False"
    if "pxCurrentTCB k2 = Some t" "ucNotifyState (tcbs k2 t) = ucNotifyState (tcbs k1 t)" for k2
    using that f by (simp add: xTaskNotifyWait_finish_def)
  moreover have "xTaskGenericNotifyFromISR (Some t) v a wk (vListInsertEnd_k xPendingReadyList (EventItem t) k) = Asserts" for v a wk
    using w(1) by (cases "notify_action a v taskWAITING_NOTIFICATION (ulNotifiedValue (tcbs k t))")
      (simp add: xTaskGenericNotifyFromISR_def post_notification_def ready_from_isr_def configASSERT_def Let_def)
  moreover have "eTaskGetState t k = eSuspended"
    using t(2) w(2) e two_delayed_listsD(6,7) [OF kinv_two [OF midD(1) [OF goodD(1) [OF k]]], THEN not_sym]
    by (simp add: eTaskGetState_def)
  ultimately show ?thesis using r f s by (auto simp: xTaskResumeFromISR_def)
qed

lemma demo_waiting_suspended_good: "good 0 {0, 4, 8} (vTaskSuspendAll demo_waiting)"
proof -
  have "uxSchedulerSuspended demo_waiting = 0" by (simp add: demo_waiting_def)
  then show ?thesis
    using mid_suspend_all [OF goodD(1) [OF demo_waiting_good]] demo_waiting_good by (simp add: good_def)
qed

theorem notification_wait_taken_for_suspension_witness:
  "eTaskGetState 8 (vTaskSuspendAll demo_waiting) = eSuspended
     \<and> (\<exists>k1. vTaskResume (Some 8) (vTaskSuspendAll demo_waiting) = Returns k1
          \<and> sl k1 8 = Some (Ready (unat (prio demo_waiting 8)))
          \<and> (\<forall>k2. pxCurrentTCB k2 = Some 8 \<and> ucNotifyState (tcbs k2 8) = ucNotifyState (tcbs k1 8) \<longrightarrow>
                fst (xTaskNotifyWait_finish 0 k2) = False))
     \<and> (\<exists>k1. xTaskResumeFromISR (Some 8) (vTaskSuspendAll demo_waiting) = Returns (False, k1)
             \<and> (\<forall>v a wk. xTaskGenericNotifyFromISR (Some 8) v a wk k1 = Asserts))"
proof -
  have "uxSchedulerSuspended (vTaskSuspendAll demo_waiting) \<noteq> 0"
    "pxCurrentTCB (vTaskSuspendAll demo_waiting) \<noteq> Some 8" "sl (vTaskSuspendAll demo_waiting) 8 = Some xSuspendedTaskList"
    "waiting (vTaskSuspendAll demo_waiting) 8"
    by (simp_all add: demo_waiting_def)
  with notification_wait_taken_for_suspension [OF demo_waiting_suspended_good, of 8 0] show ?thesis by simp
qed

end
