(* ===== verification/Queue.thy ===== *)
theory Queue
  imports Tasks_Control Ring Heap4
begin

text \<open>
  The queues, semaphores and mutexes of \<open>queue.c\<close>: copying items in and out, sending, receiving and
  peeking by tasks and interrupts, the locks that defer waking tasks while a task that is about to
  block holds the scheduler suspended, mutexes with priority inheritance, recursive mutexes, queue
  sets and the registry.

  A queue is found by its address; the storage behind the structure is a list of bytes, and the
  pointers into it are offsets from \<open>pcHead\<close>. \<open>pcHead\<close> of a mutex is \<open>NULL\<close>, its \<open>pcTail\<close> is the holder
  and its \<open>u\<close> the recursion count: here these are fields of their own (\<open>queue_is_mutex\<close>,
  \<open>pxMutexHolder\<close>, \<open>uxRecursiveCallCount\<close>). The two event lists of the queue at \<open>q\<close> are the event lists
  \<open>2 * q\<close> and \<open>2 * q + 1\<close> of \<open>Tasks\<close>. A call that blocks gives way to other tasks and to interrupts
  at the points its critical sections leave open: what they do there is an argument of the call.
\<close>

section \<open>Data\<close>

datatype queue_position = queueSEND_TO_BACK | queueSEND_TO_FRONT | queueOVERWRITE

record queue =
  queue_is_mutex :: bool \<comment> \<open>\<open>uxQueueType == queueQUEUE_IS_MUTEX\<close>\<close>
  pcTail :: int
  pxMutexHolder :: "task option"
  pcWriteTo :: int
  pcReadFrom :: int
  uxRecursiveCallCount :: u32
  pucQueueStorage :: "u8 list"
  uxMessagesWaiting :: u32
  uxLength :: u32
  uxItemSize :: u32
  cRxLock :: u8
  cTxLock :: u8
  pxQueueSetContainer :: "nat option"

record qsys =
  kern :: kernel
  queues :: "nat \<Rightarrow> queue"

definition queueUNLOCKED :: u8 where "queueUNLOCKED = - 1"
definition queueLOCKED_UNMODIFIED :: u8 where "queueLOCKED_UNMODIFIED = 0"

text \<open>\<open>sizeof( Queue_t )\<close>: 18 words, the two lock bytes padded to a word.\<close>

definition sizeof_Queue_t :: u32 where "sizeof_Queue_t = 76"

definition xTasksWaitingToSend :: "nat \<Rightarrow> nat" where "xTasksWaitingToSend q = 2 * q"
definition xTasksWaitingToReceive :: "nat \<Rightarrow> nat" where "xTasksWaitingToReceive q = 2 * q + 1"

definition update_queue :: "nat \<Rightarrow> (queue \<Rightarrow> queue) \<Rightarrow> qsys \<Rightarrow> qsys" where
  "update_queue q f s = s\<lparr>queues := (queues s)(q := f (queues s q))\<rparr>"

definition no_waiters :: "nat \<Rightarrow> qsys \<Rightarrow> bool" where
  "no_waiters e s \<longleftrightarrow> list_items (kern s) (EventList e) = []"

text \<open>
  \<open>if( listLIST_IS_EMPTY( list ) == pdFALSE ) if( xTaskRemoveFromEventList( list ) != pdFALSE )\<close>: the
  flag says whether the inner branch is taken.
\<close>

definition remove_waiter :: "nat \<Rightarrow> qsys \<Rightarrow> bool \<times> qsys" where
  "remove_waiter e s =
     (if no_waiters e s then (False, s)
      else let (y, k) = xTaskRemoveFromEventList e (kern s) in (y, s\<lparr>kern := k\<rparr>))"

definition queueYIELD_IF :: "bool \<Rightarrow> qsys \<Rightarrow> qsys outcome" where
  "queueYIELD_IF b s = (if b then obind (portYIELD (kern s)) (\<lambda>k. Returns (s\<lparr>kern := k\<rparr>)) else Returns s)"

section \<open>Creation and reset\<close>

definition vListInitialise_k :: "nat \<Rightarrow> kernel \<Rightarrow> kernel" where
  "vListInitialise_k e k = k\<lparr>klists := a_init (EventList e) (klists k)\<rparr>"

text \<open>The positions of an empty queue; a mutex has \<open>pcHead\<close> \<open>NULL\<close> and items of size 0.\<close>

definition reset_positions :: "queue \<Rightarrow> queue" where
  "reset_positions u =
     (if queue_is_mutex u then u\<lparr>pxMutexHolder := None, uxRecursiveCallCount := 0\<rparr>
      else u\<lparr>pcTail := uint (uxLength u * uxItemSize u), pcWriteTo := 0,
             pcReadFrom := uint ((uxLength u - 1) * uxItemSize u)\<rparr>)"

definition xQueueGenericReset :: "nat \<Rightarrow> bool \<Rightarrow> qsys \<Rightarrow> (bool \<times> qsys) outcome" where
  "xQueueGenericReset q xNewQueue s =
     configASSERT (q \<noteq> 0)
       (let s1 = update_queue q (\<lambda>u. (reset_positions u)\<lparr>uxMessagesWaiting := 0,
                   cRxLock := queueUNLOCKED, cTxLock := queueUNLOCKED\<rparr>) s
        in if \<not> xNewQueue
           then (let (y, s2) = remove_waiter (xTasksWaitingToSend q) s1
                 in obind (queueYIELD_IF y s2) (\<lambda>s3. Returns (True, s3)))
           else Returns (True, s1\<lparr>kern := vListInitialise_k (xTasksWaitingToReceive q)
                                    (vListInitialise_k (xTasksWaitingToSend q) (kern s1))\<rparr>))"

text \<open>\<open>storage\<close> are the bytes allocated behind the structure, not initialised.\<close>

definition prvInitialiseNewQueue :: "u32 \<Rightarrow> u32 \<Rightarrow> u8 list \<Rightarrow> nat \<Rightarrow> qsys \<Rightarrow> qsys outcome" where
  "prvInitialiseNewQueue len isize storage q s =
     (let u = \<lparr>queue_is_mutex = False, pcTail = 0, pxMutexHolder = None, pcWriteTo = 0, pcReadFrom = 0,
                uxRecursiveCallCount = 0, pucQueueStorage = storage, uxMessagesWaiting = 0,
                uxLength = len, uxItemSize = isize, cRxLock = 0, cTxLock = 0, pxQueueSetContainer = None\<rparr>
      in obind (xQueueGenericReset q True (update_queue q (\<lambda>_. u) s))
           (\<lambda>(r, s1). Returns (update_queue q (\<lambda>u. u\<lparr>pxQueueSetContainer := None\<rparr>) s1)))"

definition xQueueGenericCreate ::
  "(heap4 \<Rightarrow> heap4 outcome) \<Rightarrow> (nat \<Rightarrow> u8) \<Rightarrow> u32 \<Rightarrow> u32 \<Rightarrow> heap4 \<Rightarrow> qsys \<Rightarrow> (nat \<times> heap4 \<times> qsys) outcome" where
  "xQueueGenericCreate hook garbage uxQueueLength uxSize h s =
     configASSERT (uxQueueLength > 0)
       (let bytes = (if uxSize = 0 then 0 else uxQueueLength * uxSize)
        in obind (pvPortMalloc hook (sizeof_Queue_t + bytes) h) (\<lambda>(q, h1).
             if q \<noteq> 0
             then obind (prvInitialiseNewQueue uxQueueLength uxSize (map garbage [0..<unat bytes]) q s)
                    (\<lambda>s1. Returns (q, h1, s1))
             else Returns (0, h1, s)))"

section \<open>Copying items\<close>

text \<open>\<open>memcpy\<close> to \<open>pcWriteTo\<close> and to \<open>u.pcReadFrom\<close>, and the step of the pointer.\<close>

definition write_back :: "u8 list \<Rightarrow> queue \<Rightarrow> queue" where
  "write_back item u =
     (let p = pcWriteTo u + uint (uxItemSize u)
      in u\<lparr>pucQueueStorage := memcpy_to (pucQueueStorage u) (nat (pcWriteTo u)) (take (unat (uxItemSize u)) item),
           pcWriteTo := (if p \<ge> pcTail u then 0 else p)\<rparr>)"

definition write_front :: "u8 list \<Rightarrow> queue \<Rightarrow> queue" where
  "write_front item u =
     (let p = pcReadFrom u - uint (uxItemSize u)
      in u\<lparr>pucQueueStorage := memcpy_to (pucQueueStorage u) (nat (pcReadFrom u)) (take (unat (uxItemSize u)) item),
           pcReadFrom := (if p < 0 then pcTail u - uint (uxItemSize u) else p)\<rparr>)"

definition prvCopyDataToQueue :: "nat \<Rightarrow> u8 list option \<Rightarrow> queue_position \<Rightarrow> qsys \<Rightarrow> (bool \<times> qsys) outcome" where
  "prvCopyDataToQueue q pvItemToQueue xPosition s =
     (let u = queues s q; n = uxMessagesWaiting u
      in obind
           (if uxItemSize u = 0
            then if queue_is_mutex u
                 then obind (xTaskPriorityDisinherit (pxMutexHolder u) (kern s)) (\<lambda>(y, k).
                        Returns (y, n, update_queue q (\<lambda>u. u\<lparr>pxMutexHolder := None\<rparr>) (s\<lparr>kern := k\<rparr>)))
                 else Returns (False, n, s)
            else if xPosition = queueSEND_TO_BACK
            then Returns (False, n, update_queue q (write_back (the pvItemToQueue)) s)
            else Returns (False, if xPosition = queueOVERWRITE \<and> n > 0 then n - 1 else n,
                          update_queue q (write_front (the pvItemToQueue)) s))
           (\<lambda>(y, n', s1). Returns (y, update_queue q (\<lambda>u. u\<lparr>uxMessagesWaiting := n' + 1\<rparr>) s1)))"

definition prvCopyDataFromQueue :: "queue \<Rightarrow> u8 list \<times> queue" where
  "prvCopyDataFromQueue u =
     (if uxItemSize u \<noteq> 0
      then let p = pcReadFrom u + uint (uxItemSize u);
               r = (if p \<ge> pcTail u then 0 else p)
           in (memcpy_from (pucQueueStorage u) (nat r) (unat (uxItemSize u)), u\<lparr>pcReadFrom := r\<rparr>)
      else ([], u))"

definition prvIsQueueEmpty :: "nat \<Rightarrow> qsys \<Rightarrow> bool" where
  "prvIsQueueEmpty q s \<longleftrightarrow> uxMessagesWaiting (queues s q) = 0"

definition prvIsQueueFull :: "nat \<Rightarrow> qsys \<Rightarrow> bool" where
  "prvIsQueueFull q s \<longleftrightarrow> uxMessagesWaiting (queues s q) = uxLength (queues s q)"

text \<open>Posting the handle of a queue to the queue set it is a member of.\<close>

definition prvNotifyQueueSetContainer :: "nat \<Rightarrow> queue_position \<Rightarrow> qsys \<Rightarrow> (bool \<times> qsys) outcome" where
  "prvNotifyQueueSetContainer q xCopyPosition s =
     (case pxQueueSetContainer (queues s q) of None \<Rightarrow> Asserts
      | Some c \<Rightarrow>
          configASSERT (uxMessagesWaiting (queues s c) < uxLength (queues s c))
            (let tx = cTxLock (queues s c)
             in obind (prvCopyDataToQueue c (Some (word_bytes (of_nat q))) xCopyPosition s) (\<lambda>(y, s1).
                  if tx = queueUNLOCKED
                  then let (w, s2) = remove_waiter (xTasksWaitingToReceive c) s1 in Returns (y \<or> w, s2)
                  else Returns (y, update_queue c (\<lambda>u. u\<lparr>cTxLock := tx + 1\<rparr>) s1))))"

section \<open>The queue locks\<close>

definition prvLockQueue :: "nat \<Rightarrow> qsys \<Rightarrow> qsys" where
  "prvLockQueue q s =
     update_queue q (\<lambda>u.
       let u1 = (if cRxLock u = queueUNLOCKED then u\<lparr>cRxLock := queueLOCKED_UNMODIFIED\<rparr> else u)
       in if cTxLock u1 = queueUNLOCKED then u1\<lparr>cTxLock := queueLOCKED_UNMODIFIED\<rparr> else u1) s"

definition missed_yield_if :: "bool \<Rightarrow> qsys \<Rightarrow> qsys" where
  "missed_yield_if b s = (if b then s\<lparr>kern := vTaskMissedYield (kern s)\<rparr> else s)"

text \<open>The loops of \<open>prvUnlockQueue\<close>, for the number of times the lock was counted up.\<close>

fun unlock_tx :: "nat \<Rightarrow> nat \<Rightarrow> qsys \<Rightarrow> qsys outcome" where
  "unlock_tx q 0 s = Returns s"
| "unlock_tx q (Suc n) s =
     (if pxQueueSetContainer (queues s q) \<noteq> None
      then obind (prvNotifyQueueSetContainer q queueSEND_TO_BACK s)
             (\<lambda>(y, s1). unlock_tx q n (missed_yield_if y s1))
      else if no_waiters (xTasksWaitingToReceive q) s then Returns s
      else let (y, s1) = remove_waiter (xTasksWaitingToReceive q) s in unlock_tx q n (missed_yield_if y s1))"

fun unlock_rx :: "nat \<Rightarrow> nat \<Rightarrow> qsys \<Rightarrow> qsys" where
  "unlock_rx q 0 s = s"
| "unlock_rx q (Suc n) s =
     (if no_waiters (xTasksWaitingToSend q) s then s
      else let (y, s1) = remove_waiter (xTasksWaitingToSend q) s in unlock_rx q n (missed_yield_if y s1))"

definition lock_count :: "u8 \<Rightarrow> nat" where
  "lock_count c = nat (sint c)"

text \<open>The two critical sections of \<open>prvUnlockQueue\<close>; \<open>between\<close> is what interrupts do between them.\<close>

definition unlock_tx_section :: "nat \<Rightarrow> qsys \<Rightarrow> qsys outcome" where
  "unlock_tx_section q s =
     obind (unlock_tx q (lock_count (cTxLock (queues s q))) s)
       (\<lambda>s1. Returns (update_queue q (\<lambda>u. u\<lparr>cTxLock := queueUNLOCKED\<rparr>) s1))"

definition unlock_rx_section :: "nat \<Rightarrow> qsys \<Rightarrow> qsys" where
  "unlock_rx_section q s =
     update_queue q (\<lambda>u. u\<lparr>cRxLock := queueUNLOCKED\<rparr>) (unlock_rx q (lock_count (cRxLock (queues s q))) s)"

definition prvUnlockQueue :: "(qsys \<Rightarrow> qsys) \<Rightarrow> nat \<Rightarrow> qsys \<Rightarrow> qsys outcome" where
  "prvUnlockQueue between q s =
     obind (unlock_tx_section q s) (\<lambda>s1. Returns (unlock_rx_section q (between s1)))"

section \<open>Waiting\<close>

text \<open>
  What other tasks and interrupts do at the points where a blocking call lets them: before it suspends
  the scheduler; then, with the scheduler suspended and so only interrupts, once it has locked the
  queue, after it has looked at the time-out, after it has found that it has to wait, just before it
  unlocks the queue, between the two critical sections of that, and before it resumes the scheduler;
  after that (while it is blocked, too), and before it tries again.
\<close>

record gaps =
  g_before :: "qsys \<Rightarrow> qsys"
  g_locked :: "qsys \<Rightarrow> qsys"
  g_timed :: "qsys \<Rightarrow> qsys"
  g_tested :: "qsys \<Rightarrow> qsys"
  g_placed :: "qsys \<Rightarrow> qsys"
  g_between :: "qsys \<Rightarrow> qsys"
  g_unlocked :: "qsys \<Rightarrow> qsys"
  g_after :: "qsys \<Rightarrow> qsys"
  g_again :: "qsys \<Rightarrow> qsys"

text \<open>
  The part of the blocking calls with the scheduler suspended: \<open>e\<close> is the event list to wait on,
  \<open>blocked\<close> the test that the call still has to wait, \<open>inherit\<close> what a mutex adds to the wait. It
  returns whether the time had run out, and the time-out state and ticks to go.
\<close>

definition wait_section ::
  "nat \<Rightarrow> nat \<Rightarrow> (nat \<Rightarrow> qsys \<Rightarrow> bool) \<Rightarrow> (bool \<Rightarrow> qsys \<Rightarrow> bool \<times> qsys) \<Rightarrow> gaps \<Rightarrow> TimeOut_t \<Rightarrow> tick \<Rightarrow> bool
     \<Rightarrow> qsys \<Rightarrow> (bool \<times> TimeOut_t \<times> tick \<times> bool \<times> qsys) outcome" where
  "wait_section q e blocked inherit g tmo wait inh s =
     (let s1 = g_locked g (prvLockQueue q (s\<lparr>kern := vTaskSuspendAll (kern s)\<rparr>));
          (expired, tmo', wait', k) = xTaskCheckForTimeOut tmo wait (kern s1);
          s2 = g_timed g (s1\<lparr>kern := k\<rparr>)
      in if \<not> expired \<and> blocked q s2
         then (let (inh', s3) = inherit inh (g_tested g s2);
                   s4 = s3\<lparr>kern := vTaskPlaceOnEventList e wait' (kern s3)\<rparr>
               in obind (prvUnlockQueue (g_between g) q (g_placed g s4)) (\<lambda>s5.
                  let s6 = g_unlocked g s5
                  in obind (xTaskResumeAll (kern s6)) (\<lambda>(already, k6).
                     obind (if \<not> already then portYIELD k6 else Returns k6) (\<lambda>k7.
                     Returns (False, tmo', wait', inh', s6\<lparr>kern := k7\<rparr>)))))
         else obind (prvUnlockQueue (g_between g) q (g_placed g s2)) (\<lambda>s5.
              let s6 = g_unlocked g s5
              in obind (xTaskResumeAll (kern s6)) (\<lambda>(already, k6).
                 Returns (expired, tmo', wait', inh, s6\<lparr>kern := k6\<rparr>))))"

definition time_out_at :: "TimeOut_t option \<Rightarrow> qsys \<Rightarrow> TimeOut_t" where
  "time_out_at entry s = (case entry of None \<Rightarrow> vTaskInternalSetTimeOutState (kern s) | Some t \<Rightarrow> t)"

text \<open>The assertion of the blocking calls: no wait with the scheduler suspended.\<close>

definition may_wait :: "tick \<Rightarrow> qsys \<Rightarrow> bool" where
  "may_wait wait s \<longleftrightarrow> \<not> (xTaskGetSchedulerState (kern s) = taskSCHEDULER_SUSPENDED \<and> wait \<noteq> 0)"

section \<open>Sending\<close>

text \<open>The critical section of \<open>xQueueGenericSend\<close> when there is room.\<close>

definition queue_send_now :: "nat \<Rightarrow> u8 list option \<Rightarrow> queue_position \<Rightarrow> qsys \<Rightarrow> qsys outcome" where
  "queue_send_now q pvItemToQueue xCopyPosition s =
     obind (prvCopyDataToQueue q pvItemToQueue xCopyPosition s) (\<lambda>(xYieldRequired, s1).
       if pxQueueSetContainer (queues s1 q) \<noteq> None
       then obind (prvNotifyQueueSetContainer q xCopyPosition s1) (\<lambda>(y, s2). queueYIELD_IF y s2)
       else if \<not> no_waiters (xTasksWaitingToReceive q) s1
       then let (y, s2) = remove_waiter (xTasksWaitingToReceive q) s1 in queueYIELD_IF y s2
       else queueYIELD_IF xYieldRequired s1)"

definition has_room :: "nat \<Rightarrow> queue_position \<Rightarrow> qsys \<Rightarrow> bool" where
  "has_room q xCopyPosition s \<longleftrightarrow>
     uxMessagesWaiting (queues s q) < uxLength (queues s q) \<or> xCopyPosition = queueOVERWRITE"

text \<open>The loop, over the gaps of its passes; without a further gap the task never runs again.\<close>

fun queue_send_loop ::
  "gaps list \<Rightarrow> nat \<Rightarrow> u8 list option \<Rightarrow> queue_position \<Rightarrow> TimeOut_t option \<Rightarrow> tick \<Rightarrow> qsys \<Rightarrow> (bool \<times> qsys) outcome" where
  "queue_send_loop gs q item pos entry wait s =
     (if has_room q pos s then obind (queue_send_now q item pos s) (\<lambda>s1. Returns (True, s1))
      else if wait = 0 then Returns (False, s)
      else (case gs of [] \<Rightarrow> Diverges
            | g # gs' \<Rightarrow>
                obind (wait_section q (xTasksWaitingToSend q) prvIsQueueFull Pair g (time_out_at entry s) wait False
                         (g_before g s)) (\<lambda>(expired, tmo, wait', inh, s1).
                  if expired then Returns (False, g_after g s1)
                  else queue_send_loop gs' q item pos (Some tmo) wait' (g_again g (g_after g s1)))))"

declare queue_send_loop.simps [simp del]

definition xQueueGenericSend ::
  "gaps list \<Rightarrow> nat \<Rightarrow> u8 list option \<Rightarrow> tick \<Rightarrow> queue_position \<Rightarrow> qsys \<Rightarrow> (bool \<times> qsys) outcome" where
  "xQueueGenericSend gs q pvItemToQueue xTicksToWait xCopyPosition s =
     configASSERT (q \<noteq> 0)
       (configASSERT (\<not> (pvItemToQueue = None \<and> uxItemSize (queues s q) \<noteq> 0))
         (configASSERT (\<not> (xCopyPosition = queueOVERWRITE \<and> uxLength (queues s q) \<noteq> 1))
           (configASSERT (may_wait xTicksToWait s)
             (queue_send_loop gs q pvItemToQueue xCopyPosition None xTicksToWait s))))"

text \<open>
  From an interrupt: wake the set or a receiver, or count the lock up; \<open>tx\<close> is \<open>cTxLock\<close> on entry and
  \<open>woken\<close> is \<open>pxHigherPriorityTaskWoken\<close>, \<open>None\<close> for a null pointer.
\<close>

definition set_woken :: "bool \<Rightarrow> bool option \<Rightarrow> bool option" where
  "set_woken y woken = (if y then map_option (\<lambda>_. True) woken else woken)"

definition posted_from_isr ::
  "u8 \<Rightarrow> nat \<Rightarrow> queue_position \<Rightarrow> bool option \<Rightarrow> qsys \<Rightarrow> (bool option \<times> qsys) outcome" where
  "posted_from_isr tx q xCopyPosition woken s =
     (if tx = queueUNLOCKED
      then if pxQueueSetContainer (queues s q) \<noteq> None
           then obind (prvNotifyQueueSetContainer q xCopyPosition s) (\<lambda>(y, s1). Returns (set_woken y woken, s1))
           else let (y, s1) = remove_waiter (xTasksWaitingToReceive q) s in Returns (set_woken y woken, s1)
      else Returns (woken, update_queue q (\<lambda>u. u\<lparr>cTxLock := tx + 1\<rparr>) s))"

definition xQueueGenericSendFromISR ::
  "nat \<Rightarrow> u8 list option \<Rightarrow> bool option \<Rightarrow> queue_position \<Rightarrow> qsys \<Rightarrow> (bool \<times> bool option \<times> qsys) outcome" where
  "xQueueGenericSendFromISR q pvItemToQueue woken xCopyPosition s =
     configASSERT (q \<noteq> 0)
       (configASSERT (\<not> (pvItemToQueue = None \<and> uxItemSize (queues s q) \<noteq> 0))
         (configASSERT (\<not> (xCopyPosition = queueOVERWRITE \<and> uxLength (queues s q) \<noteq> 1))
           (if has_room q xCopyPosition s
            then let tx = cTxLock (queues s q)
                 in obind (prvCopyDataToQueue q pvItemToQueue xCopyPosition s) (\<lambda>(y, s1).
                    obind (posted_from_isr tx q xCopyPosition woken s1) (\<lambda>(w, s2). Returns (True, w, s2)))
            else Returns (False, woken, s))))"

definition xQueueGiveFromISR :: "nat \<Rightarrow> bool option \<Rightarrow> qsys \<Rightarrow> (bool \<times> bool option \<times> qsys) outcome" where
  "xQueueGiveFromISR q woken s =
     configASSERT (q \<noteq> 0)
       (configASSERT (uxItemSize (queues s q) = 0)
         (configASSERT (\<not> (queue_is_mutex (queues s q) \<and> pxMutexHolder (queues s q) \<noteq> None))
           (let n = uxMessagesWaiting (queues s q); tx = cTxLock (queues s q)
            in if n < uxLength (queues s q)
               then obind (posted_from_isr tx q queueSEND_TO_BACK woken
                             (update_queue q (\<lambda>u. u\<lparr>uxMessagesWaiting := n + 1\<rparr>) s))
                      (\<lambda>(w, s1). Returns (True, w, s1))
               else Returns (False, woken, s))))"

section \<open>Receiving and peeking\<close>

definition queue_receive_now :: "nat \<Rightarrow> qsys \<Rightarrow> (u8 list \<times> qsys) outcome" where
  "queue_receive_now q s =
     (let n = uxMessagesWaiting (queues s q);
          (item, u) = prvCopyDataFromQueue (queues s q);
          s1 = update_queue q (\<lambda>_. u\<lparr>uxMessagesWaiting := n - 1\<rparr>) s;
          (y, s2) = remove_waiter (xTasksWaitingToSend q) s1
      in obind (queueYIELD_IF y s2) (\<lambda>s3. Returns (item, s3)))"

definition queue_peek_now :: "nat \<Rightarrow> qsys \<Rightarrow> (u8 list \<times> qsys) outcome" where
  "queue_peek_now q s =
     (let r = pcReadFrom (queues s q);
          (item, u) = prvCopyDataFromQueue (queues s q);
          s1 = update_queue q (\<lambda>_. u\<lparr>pcReadFrom := r\<rparr>) s;
          (y, s2) = remove_waiter (xTasksWaitingToReceive q) s1
      in obind (queueYIELD_IF y s2) (\<lambda>s3. Returns (item, s3)))"

text \<open>The loop of \<open>xQueueReceive\<close> and \<open>xQueuePeek\<close>; \<open>now\<close> is what happens when there is an item.\<close>

fun queue_receive_loop ::
  "(nat \<Rightarrow> qsys \<Rightarrow> (u8 list \<times> qsys) outcome) \<Rightarrow> gaps list \<Rightarrow> nat \<Rightarrow> TimeOut_t option \<Rightarrow> tick \<Rightarrow> qsys
     \<Rightarrow> (u8 list option \<times> qsys) outcome" where
  "queue_receive_loop now gs q entry wait s =
     (if uxMessagesWaiting (queues s q) > 0 then obind (now q s) (\<lambda>(item, s1). Returns (Some item, s1))
      else if wait = 0 then Returns (None, s)
      else (case gs of [] \<Rightarrow> Diverges
            | g # gs' \<Rightarrow>
                obind (wait_section q (xTasksWaitingToReceive q) prvIsQueueEmpty Pair g (time_out_at entry s) wait False
                         (g_before g s)) (\<lambda>(expired, tmo, wait', inh, s1).
                  let s2 = g_after g s1
                  in if expired \<and> prvIsQueueEmpty q s2 then Returns (None, s2)
                     else queue_receive_loop now gs' q (Some tmo) wait' (g_again g s2))))"

declare queue_receive_loop.simps [simp del]

text \<open>\<open>buffer\<close> says whether \<open>pvBuffer\<close> is not null; the result is the item copied to it.\<close>

definition xQueueReceive :: "gaps list \<Rightarrow> nat \<Rightarrow> bool \<Rightarrow> tick \<Rightarrow> qsys \<Rightarrow> (u8 list option \<times> qsys) outcome" where
  "xQueueReceive gs q buffer xTicksToWait s =
     configASSERT (q \<noteq> 0)
       (configASSERT (\<not> (\<not> buffer \<and> uxItemSize (queues s q) \<noteq> 0))
         (configASSERT (may_wait xTicksToWait s) (queue_receive_loop queue_receive_now gs q None xTicksToWait s)))"

definition xQueuePeek :: "gaps list \<Rightarrow> nat \<Rightarrow> bool \<Rightarrow> tick \<Rightarrow> qsys \<Rightarrow> (u8 list option \<times> qsys) outcome" where
  "xQueuePeek gs q buffer xTicksToWait s =
     configASSERT (q \<noteq> 0)
       (configASSERT (\<not> (\<not> buffer \<and> uxItemSize (queues s q) \<noteq> 0))
         (configASSERT (may_wait xTicksToWait s) (queue_receive_loop queue_peek_now gs q None xTicksToWait s)))"

definition xQueueReceiveFromISR ::
  "nat \<Rightarrow> bool \<Rightarrow> bool option \<Rightarrow> qsys \<Rightarrow> (u8 list option \<times> bool option \<times> qsys) outcome" where
  "xQueueReceiveFromISR q buffer woken s =
     configASSERT (q \<noteq> 0)
       (configASSERT (\<not> (\<not> buffer \<and> uxItemSize (queues s q) \<noteq> 0))
         (let n = uxMessagesWaiting (queues s q)
          in if n > 0
             then (let rx = cRxLock (queues s q);
                       (item, u) = prvCopyDataFromQueue (queues s q);
                       s1 = update_queue q (\<lambda>_. u\<lparr>uxMessagesWaiting := n - 1\<rparr>) s
                   in if rx = queueUNLOCKED
                      then let (y, s2) = remove_waiter (xTasksWaitingToSend q) s1
                           in Returns (Some item, set_woken y woken, s2)
                      else Returns (Some item, woken, update_queue q (\<lambda>u. u\<lparr>cRxLock := rx + 1\<rparr>) s1))
             else Returns (None, woken, s)))"

definition xQueuePeekFromISR :: "nat \<Rightarrow> bool \<Rightarrow> qsys \<Rightarrow> (u8 list option \<times> qsys) outcome" where
  "xQueuePeekFromISR q buffer s =
     configASSERT (q \<noteq> 0)
       (configASSERT (\<not> (\<not> buffer \<and> uxItemSize (queues s q) \<noteq> 0))
         (configASSERT (uxItemSize (queues s q) \<noteq> 0)
           (if uxMessagesWaiting (queues s q) > 0
            then let r = pcReadFrom (queues s q); (item, u) = prvCopyDataFromQueue (queues s q)
                 in Returns (Some item, update_queue q (\<lambda>_. u\<lparr>pcReadFrom := r\<rparr>) s)
            else Returns (None, s))))"

end
