(* ===== verification/Queue_Semaphore.thy ===== *)
theory Queue_Semaphore
  imports Queue
begin

text \<open>
  The rest of \<open>queue.c\<close>: semaphores and mutexes, recursive mutexes, queue sets, the registry, deletion
  and the queries. Static allocation, co-routines and the trace facility are off in this build.
\<close>

section \<open>Taking a semaphore or mutex\<close>

definition take_now :: "nat \<Rightarrow> qsys \<Rightarrow> qsys outcome" where
  "take_now q s =
     (let n = uxMessagesWaiting (queues s q);
          s1 = update_queue q (\<lambda>u. u\<lparr>uxMessagesWaiting := n - 1\<rparr>) s;
          s2 = (if queue_is_mutex (queues s1 q)
                then let (h, k) = pvTaskIncrementMutexHeldCount (kern s1)
                     in update_queue q (\<lambda>u. u\<lparr>pxMutexHolder := h\<rparr>) (s1\<lparr>kern := k\<rparr>)
                else s1);
          (y, s3) = remove_waiter (xTasksWaitingToSend q) s2
      in queueYIELD_IF y s3)"

text \<open>What a mutex adds to the wait: its holder inherits the priority of the running task.\<close>

definition inherit_priority :: "nat \<Rightarrow> bool \<Rightarrow> qsys \<Rightarrow> bool \<times> qsys" where
  "inherit_priority q inh s =
     (if queue_is_mutex (queues s q)
      then let (b, k) = xTaskPriorityInherit (pxMutexHolder (queues s q)) (kern s) in (b, s\<lparr>kern := k\<rparr>)
      else (inh, s))"

definition prvGetDisinheritPriorityAfterTimeout :: "nat \<Rightarrow> qsys \<Rightarrow> u32" where
  "prvGetDisinheritPriorityAfterTimeout q s =
     (let xs = list_items (kern s) (EventList (xTasksWaitingToReceive q))
      in if length xs > 0
         then configMAX_PRIORITIES - listGET_LIST_ITEM_VALUE (kern s) (hd xs)
         else tskIDLE_PRIORITY)"

definition disinherit_after_timeout :: "nat \<Rightarrow> bool \<Rightarrow> qsys \<Rightarrow> qsys outcome" where
  "disinherit_after_timeout q inh s =
     (if inh
      then obind (vTaskPriorityDisinheritAfterTimeout (pxMutexHolder (queues s q))
                    (prvGetDisinheritPriorityAfterTimeout q s) (kern s))
             (\<lambda>k. Returns (s\<lparr>kern := k\<rparr>))
      else Returns s)"

fun take_loop ::
  "gaps list \<Rightarrow> nat \<Rightarrow> TimeOut_t option \<Rightarrow> tick \<Rightarrow> bool \<Rightarrow> qsys \<Rightarrow> (bool \<times> qsys) outcome" where
  "take_loop gs q entry wait inh s =
     (if uxMessagesWaiting (queues s q) > 0 then obind (take_now q s) (\<lambda>s1. Returns (True, s1))
      else if wait = 0 then configASSERT (\<not> inh) (Returns (False, s))
      else (case gs of [] \<Rightarrow> Diverges
            | g # gs' \<Rightarrow>
                obind (wait_section q (xTasksWaitingToReceive q) prvIsQueueEmpty (inherit_priority q) g
                         (time_out_at entry s) wait inh (g_before g s)) (\<lambda>(expired, tmo, wait', inh', s1).
                  let s2 = g_after g s1
                  in if expired \<and> prvIsQueueEmpty q s2
                     then obind (disinherit_after_timeout q inh' s2) (\<lambda>s3. Returns (False, s3))
                     else take_loop gs' q (Some tmo) wait' inh' (g_again g s2))))"

declare take_loop.simps [simp del]

definition xQueueSemaphoreTake :: "gaps list \<Rightarrow> nat \<Rightarrow> tick \<Rightarrow> qsys \<Rightarrow> (bool \<times> qsys) outcome" where
  "xQueueSemaphoreTake gs q xTicksToWait s =
     configASSERT (q \<noteq> 0)
       (configASSERT (uxItemSize (queues s q) = 0)
         (configASSERT (may_wait xTicksToWait s) (take_loop gs q None xTicksToWait False s)))"

section \<open>Mutexes and counting semaphores\<close>

definition prvInitialiseMutex :: "nat \<Rightarrow> qsys \<Rightarrow> qsys outcome" where
  "prvInitialiseMutex q s =
     (if q \<noteq> 0
      then let s1 = update_queue q (\<lambda>u. u\<lparr>pxMutexHolder := None, queue_is_mutex := True,
                                        uxRecursiveCallCount := 0\<rparr>) s
           in obind (xQueueGenericSend [] q None 0 queueSEND_TO_BACK s1) (\<lambda>(r, s2). Returns s2)
      else Returns s)"

definition xQueueCreateMutex ::
  "(heap4 \<Rightarrow> heap4 outcome) \<Rightarrow> (nat \<Rightarrow> u8) \<Rightarrow> heap4 \<Rightarrow> qsys \<Rightarrow> (nat \<times> heap4 \<times> qsys) outcome" where
  "xQueueCreateMutex hook garbage h s =
     obind (xQueueGenericCreate hook garbage 1 0 h s) (\<lambda>(q, h1, s1).
     obind (prvInitialiseMutex q s1) (\<lambda>s2. Returns (q, h1, s2)))"

definition xQueueCreateCountingSemaphore ::
  "(heap4 \<Rightarrow> heap4 outcome) \<Rightarrow> (nat \<Rightarrow> u8) \<Rightarrow> u32 \<Rightarrow> u32 \<Rightarrow> heap4 \<Rightarrow> qsys \<Rightarrow> (nat \<times> heap4 \<times> qsys) outcome" where
  "xQueueCreateCountingSemaphore hook garbage uxMaxCount uxInitialCount h s =
     configASSERT (uxMaxCount \<noteq> 0) (configASSERT (uxInitialCount \<le> uxMaxCount)
       (obind (xQueueGenericCreate hook garbage uxMaxCount 0 h s) (\<lambda>(q, h1, s1).
          Returns (q, h1, if q \<noteq> 0 then update_queue q (\<lambda>u. u\<lparr>uxMessagesWaiting := uxInitialCount\<rparr>) s1 else s1))))"

definition xQueueGetMutexHolder :: "nat \<Rightarrow> qsys \<Rightarrow> task option" where
  "xQueueGetMutexHolder q s = (if queue_is_mutex (queues s q) then pxMutexHolder (queues s q) else None)"

definition xQueueGetMutexHolderFromISR :: "nat \<Rightarrow> qsys \<Rightarrow> task option outcome" where
  "xQueueGetMutexHolderFromISR q s =
     configASSERT (q \<noteq> 0)
       (Returns (if queue_is_mutex (queues s q) then pxMutexHolder (queues s q) else None))"

definition xQueueGiveMutexRecursive :: "nat \<Rightarrow> qsys \<Rightarrow> (bool \<times> qsys) outcome" where
  "xQueueGiveMutexRecursive q s =
     configASSERT (q \<noteq> 0)
       (if pxMutexHolder (queues s q) = xTaskGetCurrentTaskHandle (kern s)
        then let s1 = update_queue q (\<lambda>u. u\<lparr>uxRecursiveCallCount := uxRecursiveCallCount u - 1\<rparr>) s
             in if uxRecursiveCallCount (queues s1 q) = 0
                then obind (xQueueGenericSend [] q None 0 queueSEND_TO_BACK s1) (\<lambda>(r, s2). Returns (True, s2))
                else Returns (True, s1)
        else Returns (False, s))"

definition xQueueTakeMutexRecursive :: "gaps list \<Rightarrow> nat \<Rightarrow> tick \<Rightarrow> qsys \<Rightarrow> (bool \<times> qsys) outcome" where
  "xQueueTakeMutexRecursive gs q xTicksToWait s =
     configASSERT (q \<noteq> 0)
       (let count = update_queue q (\<lambda>u. u\<lparr>uxRecursiveCallCount := uxRecursiveCallCount u + 1\<rparr>)
        in if pxMutexHolder (queues s q) = xTaskGetCurrentTaskHandle (kern s) then Returns (True, count s)
           else obind (xQueueSemaphoreTake gs q xTicksToWait s) (\<lambda>(r, s1).
                  Returns (r, if r then count s1 else s1)))"

section \<open>Queries\<close>

definition uxQueueMessagesWaiting :: "nat \<Rightarrow> qsys \<Rightarrow> u32 outcome" where
  "uxQueueMessagesWaiting q s = configASSERT (q \<noteq> 0) (Returns (uxMessagesWaiting (queues s q)))"

definition uxQueueSpacesAvailable :: "nat \<Rightarrow> qsys \<Rightarrow> u32 outcome" where
  "uxQueueSpacesAvailable q s =
     configASSERT (q \<noteq> 0) (Returns (uxLength (queues s q) - uxMessagesWaiting (queues s q)))"

definition uxQueueMessagesWaitingFromISR :: "nat \<Rightarrow> qsys \<Rightarrow> u32 outcome" where
  "uxQueueMessagesWaitingFromISR q s = configASSERT (q \<noteq> 0) (Returns (uxMessagesWaiting (queues s q)))"

definition xQueueIsQueueEmptyFromISR :: "nat \<Rightarrow> qsys \<Rightarrow> bool outcome" where
  "xQueueIsQueueEmptyFromISR q s = configASSERT (q \<noteq> 0) (Returns (uxMessagesWaiting (queues s q) = 0))"

definition xQueueIsQueueFullFromISR :: "nat \<Rightarrow> qsys \<Rightarrow> bool outcome" where
  "xQueueIsQueueFullFromISR q s =
     configASSERT (q \<noteq> 0) (Returns (uxMessagesWaiting (queues s q) = uxLength (queues s q)))"

section \<open>The registry and deletion\<close>

text \<open>
  \<open>xQueueRegistry\<close>, an array of \<open>configQUEUE_REGISTRY_SIZE\<close> names and handles; the loops stop at the
  first entry found.
\<close>

type_synonym registry = "(string option \<times> nat) list"

definition configQUEUE_REGISTRY_SIZE :: nat where "configQUEUE_REGISTRY_SIZE = 20"

fun vQueueAddToRegistry :: "nat \<Rightarrow> string \<Rightarrow> registry \<Rightarrow> registry" where
  "vQueueAddToRegistry q name [] = []"
| "vQueueAddToRegistry q name ((n, h) # reg) =
     (if n = None then (Some name, q) # reg else (n, h) # vQueueAddToRegistry q name reg)"

fun pcQueueGetName :: "nat \<Rightarrow> registry \<Rightarrow> string option" where
  "pcQueueGetName q [] = None"
| "pcQueueGetName q ((n, h) # reg) = (if h = q then n else pcQueueGetName q reg)"

fun vQueueUnregisterQueue :: "nat \<Rightarrow> registry \<Rightarrow> registry" where
  "vQueueUnregisterQueue q [] = []"
| "vQueueUnregisterQueue q ((n, h) # reg) =
     (if h = q then (None, 0) # reg else (n, h) # vQueueUnregisterQueue q reg)"

definition vQueueDelete :: "nat \<Rightarrow> registry \<Rightarrow> heap4 \<Rightarrow> (registry \<times> heap4) outcome" where
  "vQueueDelete q reg h =
     configASSERT (q \<noteq> 0) (obind (vPortFree q h) (\<lambda>h1. Returns (vQueueUnregisterQueue q reg, h1)))"

section \<open>The wait of the timer task\<close>

text \<open>With the scheduler suspended by the caller; what interrupts do meanwhile is \<open>g\<close>.\<close>

definition vQueueWaitForMessageRestricted :: "gaps \<Rightarrow> nat \<Rightarrow> tick \<Rightarrow> bool \<Rightarrow> qsys \<Rightarrow> qsys outcome" where
  "vQueueWaitForMessageRestricted g q xTicksToWait xWaitIndefinitely s =
     (let s1 = g_locked g (prvLockQueue q s);
          s2 = (if uxMessagesWaiting (queues s1 q) = 0
                then let s1' = g_tested g s1
                     in s1'\<lparr>kern := vTaskPlaceOnEventListRestricted (xTasksWaitingToReceive q) xTicksToWait
                                     xWaitIndefinitely (kern s1')\<rparr>
                else s1)
      in prvUnlockQueue (g_between g) q (g_placed g s2))"

section \<open>Queue sets\<close>

definition xQueueCreateSet ::
  "(heap4 \<Rightarrow> heap4 outcome) \<Rightarrow> (nat \<Rightarrow> u8) \<Rightarrow> u32 \<Rightarrow> heap4 \<Rightarrow> qsys \<Rightarrow> (nat \<times> heap4 \<times> qsys) outcome" where
  "xQueueCreateSet hook garbage uxEventQueueLength h s = xQueueGenericCreate hook garbage uxEventQueueLength 4 h s"

definition xQueueAddToSet :: "nat \<Rightarrow> nat \<Rightarrow> qsys \<Rightarrow> bool \<times> qsys" where
  "xQueueAddToSet q c s =
     (if pxQueueSetContainer (queues s q) \<noteq> None then (False, s)
      else if uxMessagesWaiting (queues s q) \<noteq> 0 then (False, s)
      else (True, update_queue q (\<lambda>u. u\<lparr>pxQueueSetContainer := Some c\<rparr>) s))"

definition xQueueRemoveFromSet :: "nat \<Rightarrow> nat \<Rightarrow> qsys \<Rightarrow> bool \<times> qsys" where
  "xQueueRemoveFromSet q c s =
     (if pxQueueSetContainer (queues s q) \<noteq> Some c then (False, s)
      else if uxMessagesWaiting (queues s q) \<noteq> 0 then (False, s)
      else (True, update_queue q (\<lambda>u. u\<lparr>pxQueueSetContainer := None\<rparr>) s))"

text \<open>The handle of a member that has something to receive; 0 (\<open>NULL\<close>) when the wait timed out.\<close>

definition item_handle :: "u8 list option \<Rightarrow> nat" where
  "item_handle d = (case d of None \<Rightarrow> 0 | Some bs \<Rightarrow> unat (bytes_word bs))"

definition xQueueSelectFromSet :: "gaps list \<Rightarrow> nat \<Rightarrow> tick \<Rightarrow> qsys \<Rightarrow> (nat \<times> qsys) outcome" where
  "xQueueSelectFromSet gs c xTicksToWait s =
     obind (xQueueReceive gs c True xTicksToWait s) (\<lambda>(d, s1). Returns (item_handle d, s1))"

definition xQueueSelectFromSetFromISR :: "nat \<Rightarrow> qsys \<Rightarrow> (nat \<times> qsys) outcome" where
  "xQueueSelectFromSetFromISR c s =
     obind (xQueueReceiveFromISR c True None s) (\<lambda>(d, w, s1). Returns (item_handle d, s1))"

end
