(* ===== verification/Queue_Data.thy ===== *)
theory Queue_Data
  imports Queue_Semaphore
begin

text \<open>
  What a queue holds: \<open>queue_rep u xs\<close> says that the structure \<open>u\<close> is consistent and stores the items
  \<open>xs\<close>, first to be received first. Copying an item in and out are the list operations on \<open>xs\<close>; a
  semaphore holds items of size 0, so that \<open>length xs\<close> is its count.
\<close>

section \<open>The representation\<close>

abbreviation isz :: "queue \<Rightarrow> nat" where "isz u \<equiv> unat (uxItemSize u)"

definition cap :: "queue \<Rightarrow> nat" where "cap u = unat (uxLength u) * isz u"

text \<open>\<open>r\<close> and \<open>w\<close> are \<open>u.pcReadFrom\<close> and \<open>pcWriteTo\<close>, offsets of whole items.\<close>

definition positions :: "queue \<Rightarrow> nat \<Rightarrow> nat \<Rightarrow> bool" where
  "positions u r w \<longleftrightarrow> pcReadFrom u = int r \<and> pcWriteTo u = int w \<and> r < cap u \<and> w < cap u
     \<and> isz u dvd r \<and> isz u dvd w \<and> pcTail u = int (cap u)"

definition queue_rep :: "queue \<Rightarrow> u8 list list \<Rightarrow> bool" where
  "queue_rep u xs \<longleftrightarrow> uxLength u \<noteq> 0 \<and> uxMessagesWaiting u \<le> uxLength u
     \<and> length xs = unat (uxMessagesWaiting u) \<and> (\<forall>x\<in>set xs. length x = isz u)
     \<and> length (pucQueueStorage u) = cap u \<and> (queue_is_mutex u \<longrightarrow> uxItemSize u = 0)
     \<and> (uxItemSize u \<noteq> 0 \<longrightarrow>
          (\<exists>r w. positions u r w
             \<and> w = (r + isz u + length xs * isz u) mod cap u
             \<and> ring_get (pucQueueStorage u) ((r + isz u) mod cap u) (length xs * isz u) = concat xs))"

lemma queue_repD:
  assumes "queue_rep u xs"
  shows "uxLength u \<noteq> 0" "uxMessagesWaiting u \<le> uxLength u" "length xs = unat (uxMessagesWaiting u)"
    "x \<in> set xs \<Longrightarrow> length x = isz u" "length (pucQueueStorage u) = cap u"
    "queue_is_mutex u \<Longrightarrow> uxItemSize u = 0"
  using assms by (auto simp: queue_rep_def)

lemma queue_rep_bound: "queue_rep u xs \<Longrightarrow> length xs \<le> unat (uxLength u)"
  by (simp add: queue_rep_def word_le_nat_alt)

lemma queue_rep_empty: "queue_rep u xs \<Longrightarrow> xs = [] \<longleftrightarrow> uxMessagesWaiting u = 0"
  using queue_repD(3) [of u xs] by (metis length_0_conv unat_eq_zero)

lemma queue_rep_full: "queue_rep u xs \<Longrightarrow> uxMessagesWaiting u < uxLength u \<longleftrightarrow> length xs < unat (uxLength u)"
  by (simp add: queue_rep_def word_less_nat_alt)

lemma dvd_step_le: "d dvd a \<Longrightarrow> d dvd b \<Longrightarrow> a < b \<Longrightarrow> a + d \<le> (b :: nat)"
  by (metis dvd_add_right_iff dvd_imp_le less_imp_add_positive nat_add_left_cancel_le)

lemma isz_dvd_cap [simp]: "isz u dvd cap u"
  by (simp add: cap_def)

lemma isz_pos: "uxItemSize u \<noteq> 0 \<longleftrightarrow> 0 < isz u"
  by (simp add: unat_gt_0)

lemma length_concat_same: "(\<And>x. x \<in> set xs \<Longrightarrow> length x = n) \<Longrightarrow> length (concat xs) = length xs * n"
  by (induction xs) auto

section \<open>Copying in\<close>

text \<open>A step of the write position wraps over the end of the storage; one of the read position before its start.\<close>

lemma step_up:
  assumes "isz u dvd w" and "w < cap u" and "pcTail u = int (cap u)"
  shows "(if int w + uint (uxItemSize u) \<ge> pcTail u then 0 else int w + uint (uxItemSize u))
       = int ((w + isz u) mod cap u)"
proof -
  obtain z where z: "isz u = z" "uint (uxItemSize u) = int z" by simp
  have "w + z \<le> cap u" using dvd_step_le [OF assms(1) isz_dvd_cap assms(2)] z by simp
  then show ?thesis unfolding z assms(3) by (cases "w + z = cap u") auto
qed

lemma step_down:
  assumes "isz u dvd r" and "r < cap u" and "pcTail u = int (cap u)"
  shows "\<exists>r'. (if int r - uint (uxItemSize u) < 0 then pcTail u - uint (uxItemSize u) else int r - uint (uxItemSize u))
       = int r' \<and> r' < cap u \<and> isz u dvd r' \<and> (r' + isz u) mod cap u = r"
proof -
  obtain z where z: "isz u = z" "uint (uxItemSize u) = int z" by simp
  have le: "z \<le> cap u" using dvd_step_le [of z 0 "cap u"] isz_dvd_cap [of u] assms(2) z by fastforce
  show ?thesis
  proof (cases "r < z")
    case True
    then have "r = 0" using assms(1) z by (auto dest: dvd_imp_le)
    then show ?thesis using le assms True isz_dvd_cap [of u] unfolding z assms(3)
      by (intro exI [of _ "cap u - z"]) (auto simp: of_nat_diff dvd_diff_nat)
  next
    case False
    then show ?thesis using assms(1,2) unfolding z
      by (intro exI [of _ "r - z"]) (auto simp: of_nat_diff dvd_diff_nat not_less)
  qed
qed

lemma put_straight: "h + length src \<le> length buf \<Longrightarrow> ring_put buf h src = memcpy_to buf h src"
  by (simp add: ring_put_def)

lemma cap_cong: "uxLength u' = uxLength u \<Longrightarrow> uxItemSize u' = uxItemSize u \<Longrightarrow> cap u' = cap u"
  by (simp add: cap_def)

lemma write_back_frame [simp]:
  "uxLength (write_back item u) = uxLength u" "uxItemSize (write_back item u) = uxItemSize u"
  "queue_is_mutex (write_back item u) = queue_is_mutex u" "pcTail (write_back item u) = pcTail u"
  "uxMessagesWaiting (write_back item u) = uxMessagesWaiting u" "pcReadFrom (write_back item u) = pcReadFrom u"
  "pxQueueSetContainer (write_back item u) = pxQueueSetContainer u"
  "cTxLock (write_back item u) = cTxLock u" "cRxLock (write_back item u) = cRxLock u"
  by (simp_all add: write_back_def Let_def)

lemma write_front_frame [simp]:
  "uxLength (write_front item u) = uxLength u" "uxItemSize (write_front item u) = uxItemSize u"
  "queue_is_mutex (write_front item u) = queue_is_mutex u" "pcTail (write_front item u) = pcTail u"
  "uxMessagesWaiting (write_front item u) = uxMessagesWaiting u" "pcWriteTo (write_front item u) = pcWriteTo u"
  "pxQueueSetContainer (write_front item u) = pxQueueSetContainer u"
  "cTxLock (write_front item u) = cTxLock u" "cRxLock (write_front item u) = cRxLock u"
  by (simp_all add: write_front_def Let_def)

lemma messages_succ:
  assumes "uxMessagesWaiting u < uxLength u"
  shows "uxMessagesWaiting u + 1 \<le> uxLength u" "unat (uxMessagesWaiting u + 1) = Suc (unat (uxMessagesWaiting u))"
proof -
  have "unat (uxMessagesWaiting u) + 1 < 2 ^ 32"
    using assms unsigned_less [of "uxLength u", where 'a = nat] by (simp add: word_less_nat_alt)
  then show "unat (uxMessagesWaiting u + 1) = Suc (unat (uxMessagesWaiting u))"
    by (simp add: unat_word_ariths)
  then show "uxMessagesWaiting u + 1 \<le> uxLength u" using assms by (simp add: word_le_nat_alt word_less_nat_alt)
qed

lemma write_back_rep:
  assumes rep: "queue_rep u xs" and sz: "uxItemSize u \<noteq> 0" and room: "uxMessagesWaiting u < uxLength u"
    and item: "length item = isz u"
  shows "queue_rep ((write_back item u)\<lparr>uxMessagesWaiting := uxMessagesWaiting u + 1\<rparr>) (xs @ [item])"
proof -
  let ?v = "(write_back item u)\<lparr>uxMessagesWaiting := uxMessagesWaiting u + 1\<rparr>"
  let ?z = "isz u" and ?c = "cap u" and ?b = "pucQueueStorage u"
  obtain r w where p: "positions u r w" and w: "w = (r + ?z + length xs * ?z) mod ?c"
    and d: "ring_get ?b ((r + ?z) mod ?c) (length xs * ?z) = concat xs"
    using rep sz by (auto simp: queue_rep_def)
  have c: "cap ?v = ?c" by (rule cap_cong) simp_all
  have l: "length ?b = ?c" using queue_repD(5) [OF rep] .
  have fit: "w + ?z \<le> ?c" using dvd_step_le [OF _ isz_dvd_cap] p by (simp add: positions_def)
  have n: "length xs * ?z + length item \<le> length ?b"
  proof -
    have "length xs < unat (uxLength u)" using room queue_rep_full [OF rep] by simp
    then have "Suc (length xs) * ?z \<le> unat (uxLength u) * ?z" by (intro mult_right_mono) simp_all
    then show ?thesis using item l by (simp add: cap_def)
  qed
  have st: "pucQueueStorage ?v = ring_put ?b w item" "pcWriteTo ?v = int ((w + ?z) mod ?c)"
    using p fit item l step_up [of u w] by (auto simp: write_back_def positions_def put_straight Let_def)
  have t: "(r + ?z) mod ?c < length ?b" using p l by (simp add: positions_def)
  have "w = ((r + ?z) mod ?c + length xs * ?z) mod length ?b" unfolding w l by (simp add: mod_simps)
  then have g: "ring_get (pucQueueStorage ?v) ((r + ?z) mod ?c) (length xs * ?z + length item) = concat xs @ item"
    using ring_put_append [OF t n] d unfolding st(1) by simp
  have "positions ?v r ((w + ?z) mod ?c)"
    using p st(2) unfolding positions_def c by (auto simp: dvd_mod_iff)
  moreover have "(w + ?z) mod ?c = (r + ?z + length (xs @ [item]) * ?z) mod ?c"
    unfolding w by (simp add: mod_simps algebra_simps)
  moreover have "ring_get (pucQueueStorage ?v) ((r + ?z) mod ?c) (length (xs @ [item]) * ?z) = concat (xs @ [item])"
    using g item by (simp add: algebra_simps)
  moreover have "length (pucQueueStorage ?v) = ?c" unfolding st(1) using fit item l p
    by (simp add: positions_def)
  ultimately show ?thesis
    using messages_succ [OF room] queue_repD(1-4,6) [OF rep] item sz
    unfolding queue_rep_def c by auto
qed

text \<open>Writing before the contents: the \<open>n\<close> items \<open>ys\<close> kept behind the new one.\<close>

lemma write_front_ring:
  assumes rep: "queue_rep u xs" and sz: "uxItemSize u \<noteq> 0" and item: "length item = isz u"
    and ys: "ys = take n xs" "n \<le> length xs" "n < unat (uxLength u)" and m: "unat m = Suc n" "m \<le> uxLength u"
    and len: "n = length xs \<or> uxLength u = 1"
  shows "queue_rep ((write_front item u)\<lparr>uxMessagesWaiting := m\<rparr>) (item # ys)"
proof -
  let ?v = "(write_front item u)\<lparr>uxMessagesWaiting := m\<rparr>"
  let ?z = "isz u" and ?c = "cap u" and ?b = "pucQueueStorage u"
  obtain r w where p: "positions u r w" and w: "w = (r + ?z + length xs * ?z) mod ?c"
    and d: "ring_get ?b ((r + ?z) mod ?c) (length xs * ?z) = concat xs"
    using rep sz by (auto simp: queue_rep_def)
  have c: "cap ?v = ?c" by (rule cap_cong) simp_all
  have l: "length ?b = ?c" using queue_repD(5) [OF rep] .
  have fit: "r + ?z \<le> ?c" using dvd_step_le [OF _ isz_dvd_cap] p by (simp add: positions_def)
  have "pcReadFrom ?v = (if int r - uint (uxItemSize u) < 0 then pcTail u - uint (uxItemSize u)
      else int r - uint (uxItemSize u))"
    using p by (simp add: write_front_def positions_def Let_def)
  moreover have "?z dvd r" "r < ?c" "pcTail u = int ?c" using p by (simp_all add: positions_def)
  ultimately obtain r' where r': "pcReadFrom ?v = int r'" "r' < ?c" "?z dvd r'" "(r' + ?z) mod ?c = r"
    using step_down [of u r] by metis
  have st: "pucQueueStorage ?v = ring_put ?b r item"
    using p fit item l by (simp add: write_front_def positions_def put_straight Let_def)
  have ly: "length ys = n" using ys by simp
  have n: "n * ?z + length item \<le> length ?b"
  proof -
    have "Suc n * ?z \<le> unat (uxLength u) * ?z" using ys(3) by (intro mult_right_mono) simp_all
    then show ?thesis using item l by (simp add: cap_def)
  qed
  have lx: "length x = ?z" if "x \<in> set xs" for x using queue_repD(4) [OF rep that] .
  have "take (n * ?z) (concat xs) = concat ys"
  proof -
    have "concat xs = concat ys @ concat (drop n xs)"
      using append_take_drop_id [of n xs] ys(1) concat_append by metis
    moreover have "length (concat ys) = n * ?z"
      using length_concat_same [of ys ?z] lx ly ys(1) by (auto dest: in_set_takeD)
    ultimately show ?thesis by simp
  qed
  then have dy: "ring_get ?b ((r + ?z) mod ?c) (n * ?z) = concat ys"
    using take_ring_get [of "n * ?z" "length xs * ?z" ?b "(r + ?z) mod ?c"] d ys(2) by simp
  have "ring_get (pucQueueStorage ?v) r (length item + n * ?z) = item @ concat ys"
    unfolding st dy [symmetric] by (rule ring_put_prepend) (use p n l item in \<open>simp_all add: positions_def\<close>)
  then have g: "ring_get (pucQueueStorage ?v) ((r' + ?z) mod ?c) (length (item # ys) * ?z) = concat (item # ys)"
    using r'(4) item ly by (simp add: algebra_simps)
  have "positions ?v r' w" using p r' unfolding positions_def c by auto
  moreover have "w = (r' + ?z + length (item # ys) * ?z) mod ?c"
  proof -
    have "(r' + ?z + length (item # ys) * ?z) mod ?c = ((r' + ?z) mod ?c + (?z + n * ?z)) mod ?c"
      using ly by (simp add: mod_simps)
    also have "\<dots> = (r + ?z + n * ?z) mod ?c" using r'(4) by (simp add: algebra_simps)
    also have "\<dots> = w"
    proof (cases "n = length xs")
      case False
      then have "?c = ?z" using len by (simp add: cap_def)
      then show ?thesis unfolding w by simp
    qed (simp add: w)
    finally show ?thesis by simp
  qed
  moreover have "length (pucQueueStorage ?v) = ?c" unfolding st using fit item l p by (simp add: positions_def)
  ultimately show ?thesis
    using queue_repD(1,6) [OF rep] lx item sz m ly ys(1) g
    unfolding queue_rep_def c by (auto dest: in_set_takeD)
qed

text \<open>\<open>prvCopyDataToQueue\<close> on a queue that is not a mutex, and what it stores.\<close>

definition copy_in :: "u8 list option \<Rightarrow> queue_position \<Rightarrow> queue \<Rightarrow> queue" where
  "copy_in pv pos u =
     (if uxItemSize u = 0 then u\<lparr>uxMessagesWaiting := uxMessagesWaiting u + 1\<rparr>
      else if pos = queueSEND_TO_BACK
      then (write_back (the pv) u)\<lparr>uxMessagesWaiting := uxMessagesWaiting u + 1\<rparr>
      else (write_front (the pv) u)\<lparr>uxMessagesWaiting :=
             (if pos = queueOVERWRITE \<and> uxMessagesWaiting u > 0 then uxMessagesWaiting u
              else uxMessagesWaiting u + 1)\<rparr>)"

lemma update_queue_simps [simp]:
  "kern (update_queue q f s) = kern s" "queues (update_queue q f s) = (queues s)(q := f (queues s q))"
  "update_queue q f (update_queue q g s) = update_queue q (\<lambda>u. f (g u)) s"
  by (simp_all add: update_queue_def)

lemma copy_to_queue:
  assumes "uxItemSize (queues s q) = 0 \<Longrightarrow> \<not> queue_is_mutex (queues s q)"
  shows "prvCopyDataToQueue q pv pos s = Returns (False, update_queue q (copy_in pv pos) s)"
  using assms by (auto simp: prvCopyDataToQueue_def copy_in_def Let_def update_queue_def)

lemma copy_in_frame [simp]:
  "uxLength (copy_in pv pos u) = uxLength u" "uxItemSize (copy_in pv pos u) = uxItemSize u"
  "queue_is_mutex (copy_in pv pos u) = queue_is_mutex u"
  "pxQueueSetContainer (copy_in pv pos u) = pxQueueSetContainer u"
  "cTxLock (copy_in pv pos u) = cTxLock u" "cRxLock (copy_in pv pos u) = cRxLock u"
  by (simp_all add: copy_in_def)

text \<open>The contents after the copy; overwriting is for queues of length one.\<close>

fun put_items :: "queue_position \<Rightarrow> 'a \<Rightarrow> 'a list \<Rightarrow> 'a list" where
  "put_items queueSEND_TO_BACK x xs = xs @ [x]"
| "put_items queueSEND_TO_FRONT x xs = x # xs"
| "put_items queueOVERWRITE x xs = [x]"

lemma semaphore_count_rep:
  assumes "queue_rep u xs" and "uxItemSize u = 0" and "unat n = length ys" and "n \<le> uxLength u"
    and "\<And>y. y \<in> set ys \<Longrightarrow> y = []"
  shows "queue_rep (u\<lparr>uxMessagesWaiting := n\<rparr>) ys"
  using assms by (auto simp: queue_rep_def cap_def)

lemma copy_in_rep:
  assumes rep: "queue_rep u xs" and item: "length item = isz u" "item \<noteq> [] \<Longrightarrow> pv = Some item"
    and room: "if pos = queueOVERWRITE then uxLength u = 1 \<and> uxItemSize u \<noteq> 0
      else uxMessagesWaiting u < uxLength u"
  shows "queue_rep (copy_in pv pos u) (put_items pos item xs)"
proof (cases "uxItemSize u = 0")
  case True
  then have r: "uxMessagesWaiting u < uxLength u" "pos \<noteq> queueOVERWRITE" "item = []"
    using room item by (auto split: if_splits)
  have "set xs \<subseteq> {[]}" using queue_repD(4) [OF rep] True by auto
  then show ?thesis using True r messages_succ [OF r(1)] queue_repD(3) [OF rep]
    by (cases pos) (auto simp: copy_in_def intro!: semaphore_count_rep [OF rep])
next
  case False
  then have "length item > 0" unfolding item(1) by (simp only: isz_pos)
  then have pv: "the pv = item" using item(2) by auto
  have b: "n < unat (uxLength u) \<Longrightarrow> n \<le> length xs \<Longrightarrow> unat m = Suc n \<Longrightarrow> m \<le> uxLength u \<Longrightarrow>
      n = length xs \<or> uxLength u = 1 \<Longrightarrow>
      queue_rep ((write_front item u)\<lparr>uxMessagesWaiting := m\<rparr>) (item # take n xs)" for n m
    by (rule write_front_ring [OF rep False item(1) refl])
  show ?thesis
  proof (cases pos)
    case queueSEND_TO_BACK
    then show ?thesis using write_back_rep [OF rep False _ item(1)] room False pv by (simp add: copy_in_def)
  next
    case queueSEND_TO_FRONT
    then have "uxMessagesWaiting u < uxLength u" using room by simp
    with b [of "length xs" "uxMessagesWaiting u + 1"] messages_succ [OF this] queue_repD(3) [OF rep] show ?thesis
      using queueSEND_TO_FRONT False pv by (simp add: copy_in_def word_less_nat_alt)
  next
    case queueOVERWRITE
    then have l: "uxLength u = 1" using room by simp
    have m: "uxMessagesWaiting u = 0 \<or> uxMessagesWaiting u = 1"
    proof -
      have "unat (uxMessagesWaiting u) = 0 \<or> unat (uxMessagesWaiting u) = 1"
        using queue_repD(2) [OF rep] l by (auto simp: word_le_nat_alt)
      then show ?thesis using word_of_nat_of_unat by fastforce
    qed
    then have "(if uxMessagesWaiting u > 0 then uxMessagesWaiting u else uxMessagesWaiting u + 1) = 1"
      by auto
    then show ?thesis using b [of 0 1] l queueOVERWRITE False pv by (simp add: copy_in_def)
  qed
qed

section \<open>Copying out\<close>

definition copy_out :: "queue \<Rightarrow> queue" where
  "copy_out u = (snd (prvCopyDataFromQueue u))\<lparr>uxMessagesWaiting := uxMessagesWaiting u - 1\<rparr>"

lemma copy_from_frame [simp]:
  "uxLength (snd (prvCopyDataFromQueue u)) = uxLength u" "uxItemSize (snd (prvCopyDataFromQueue u)) = uxItemSize u"
  "queue_is_mutex (snd (prvCopyDataFromQueue u)) = queue_is_mutex u"
  "pxQueueSetContainer (snd (prvCopyDataFromQueue u)) = pxQueueSetContainer u"
  "cTxLock (snd (prvCopyDataFromQueue u)) = cTxLock u" "cRxLock (snd (prvCopyDataFromQueue u)) = cRxLock u"
  "uxMessagesWaiting (snd (prvCopyDataFromQueue u)) = uxMessagesWaiting u"
  by (simp_all add: prvCopyDataFromQueue_def Let_def)

lemma copy_from_restore: "(snd (prvCopyDataFromQueue u))\<lparr>pcReadFrom := pcReadFrom u\<rparr> = u"
  by (simp add: prvCopyDataFromQueue_def Let_def)

lemma copy_out_rep:
  assumes rep: "queue_rep u (x # xs)"
  shows "fst (prvCopyDataFromQueue u) = x" and "queue_rep (copy_out u) xs"
proof -
  have ne: "uxMessagesWaiting u \<noteq> 0" using queue_rep_empty [OF rep] by auto
  then have m: "unat (uxMessagesWaiting u - 1) = length xs" "uxMessagesWaiting u - 1 \<le> uxLength u"
    using queue_repD(2,3) [OF rep] by (auto simp: unat_minus_one word_le_nat_alt)
  have "fst (prvCopyDataFromQueue u) = x \<and> queue_rep (copy_out u) xs"
  proof (cases "uxItemSize u = 0")
    case True
    then show ?thesis using queue_repD(4) [OF rep] m
      by (auto simp: prvCopyDataFromQueue_def copy_out_def intro!: semaphore_count_rep [OF rep])
  next
    case False
    let ?z = "isz u" and ?c = "cap u" and ?b = "pucQueueStorage u"
    obtain r w where p: "positions u r w" and w: "w = (r + ?z + length (x # xs) * ?z) mod ?c"
      and d: "ring_get ?b ((r + ?z) mod ?c) (length (x # xs) * ?z) = concat (x # xs)"
      using rep False by (auto simp: queue_rep_def)
    let ?r = "(r + ?z) mod ?c"
    have l: "length ?b = ?c" using queue_repD(5) [OF rep] .
    have pr: "?r < ?c" "?z dvd ?r" using p by (auto simp: positions_def dvd_mod_iff)
    have st: "prvCopyDataFromQueue u = (memcpy_from ?b ?r ?z, u\<lparr>pcReadFrom := int ?r\<rparr>)"
      using p step_up [of u r] False by (simp add: prvCopyDataFromQueue_def positions_def Let_def)
    have le: "?z \<le> length (x # xs) * ?z" and x: "length x = ?z" using queue_repD(4) [OF rep] by simp_all
    have "memcpy_from ?b ?r ?z = ring_get ?b ?r ?z"
      using ring_get_straight [of ?r ?z ?b] dvd_step_le [OF pr(2) isz_dvd_cap pr(1)] l by simp
    also have "\<dots> = x" using take_ring_get [OF le, of ?b ?r] d x by simp
    finally have h: "memcpy_from ?b ?r ?z = x" .
    let ?v = "copy_out u"
    have c: "cap ?v = ?c" by (rule cap_cong) (simp_all add: copy_out_def)
    have "ring_get ?b ((?r + ?z) mod ?c) (length xs * ?z) = concat xs"
      using drop_ring_get [OF le, of ?b ?r] d x l by simp
    moreover have "positions ?v ?r w" using p pr unfolding positions_def c by (simp add: copy_out_def st)
    moreover have "(?r + ?z + length xs * ?z) mod ?c = (r + ?z + (?z + length xs * ?z)) mod ?c"
      by (simp only: add.assoc [of ?r] mod_add_left_eq)
    then have "w = (?r + ?z + length xs * ?z) mod ?c" unfolding w by (simp add: add.assoc)
    ultimately have "queue_rep ?v xs"
      using queue_repD [OF rep] m unfolding queue_rep_def c by (auto simp: copy_out_def st)
    then show ?thesis using h st by simp
  qed
  then show "fst (prvCopyDataFromQueue u) = x" "queue_rep (copy_out u) xs" by simp_all
qed

lemma copy_out_frame [simp]:
  "uxLength (copy_out u) = uxLength u" "uxItemSize (copy_out u) = uxItemSize u"
  "queue_is_mutex (copy_out u) = queue_is_mutex u" "pxQueueSetContainer (copy_out u) = pxQueueSetContainer u"
  "cTxLock (copy_out u) = cTxLock u" "cRxLock (copy_out u) = cRxLock u"
  by (simp_all add: copy_out_def)

end
