(* ===== verification/Queue_Effects.thy ===== *)
theory Queue_Effects
  imports Queue_Data Fifo
begin

text \<open>
  The effect of the operations of \<open>queue.c\<close> on the queues: which of them touch the items of a queue,
  and how. Waking tasks, yielding, the locks and posting to a queue set leave them alone.
\<close>

section \<open>Operations that keep the items\<close>

definition same_items :: "queue \<Rightarrow> queue \<Rightarrow> bool" where
  "same_items u v \<longleftrightarrow> v = u\<lparr>cRxLock := cRxLock v, cTxLock := cTxLock v\<rparr>"

lemma same_items_refl [simp]: "same_items u u"
  by (simp add: same_items_def)

lemma same_items_trans: "same_items u v \<Longrightarrow> same_items v w \<Longrightarrow> same_items u w"
  by (cases u, cases v, cases w) (auto simp: same_items_def)

lemma same_items_locks [simp]:
  "same_items u (u\<lparr>cRxLock := a\<rparr>)" "same_items u (u\<lparr>cTxLock := b\<rparr>)"
  by (simp_all add: same_items_def)

lemma same_itemsD:
  assumes "same_items u v"
  shows "uxMessagesWaiting v = uxMessagesWaiting u" "uxLength v = uxLength u" "uxItemSize v = uxItemSize u"
    "pxQueueSetContainer v = pxQueueSetContainer u" "queue_is_mutex v = queue_is_mutex u"
    "pxMutexHolder v = pxMutexHolder u" "uxRecursiveCallCount v = uxRecursiveCallCount u"
    "queue_rep v xs = queue_rep u xs"
proof -
  obtain a b where v: "v = u\<lparr>cRxLock := a, cTxLock := b\<rparr>" using assms unfolding same_items_def by blast
  show "uxMessagesWaiting v = uxMessagesWaiting u" "uxLength v = uxLength u" "uxItemSize v = uxItemSize u"
    "pxQueueSetContainer v = pxQueueSetContainer u" "queue_is_mutex v = queue_is_mutex u"
    "pxMutexHolder v = pxMutexHolder u" "uxRecursiveCallCount v = uxRecursiveCallCount u"
    "queue_rep v xs = queue_rep u xs"
    unfolding v by (simp_all add: queue_rep_def positions_def cap_def)
qed

lemma remove_waiter_queues [simp]: "queues (snd (remove_waiter e s)) = queues s"
  by (simp add: remove_waiter_def split: prod.split)

lemma remove_waiter_queues': "remove_waiter e s = (y, s') \<Longrightarrow> queues s' = queues s"
  using remove_waiter_queues [of e s] by simp

lemma yield_queues: "queueYIELD_IF b s = Returns s' \<Longrightarrow> queues s' = queues s"
  by (auto simp: queueYIELD_IF_def split: if_splits)

lemma missed_yield_queues [simp]: "queues (missed_yield_if b s) = queues s"
  by (simp add: missed_yield_if_def)

lemma notify_set_frame:
  assumes n: "prvNotifyQueueSetContainer q pos s = Returns (y, s')" and c: "p \<noteq> c" "pxQueueSetContainer (queues s q) = Some c"
  shows "queues s' p = queues s p"
proof -
  have k: "queues s1 p = queues s p"
    if "prvCopyDataToQueue c pv pos s = Returns (x, s1)" for pv x s1
    using that c(1) by (auto simp: prvCopyDataToQueue_def Let_def update_queue_def split: if_splits prod.splits)
  from n c show ?thesis
    by (auto simp: prvNotifyQueueSetContainer_def Let_def update_queue_def split: if_splits prod.splits
        dest!: k remove_waiter_queues')
qed

lemma unlock_tx_items:
  assumes "unlock_tx q n s = Returns s'" and "pxQueueSetContainer (queues s q) \<noteq> Some q"
  shows "queues s' q = queues s q"
  using assms
proof (induction q n s arbitrary: s' rule: unlock_tx.induct)
  case (2 q n s)
  show ?case
  proof (cases "pxQueueSetContainer (queues s q)")
    case (Some c)
    then obtain y s1 where s1: "prvNotifyQueueSetContainer q queueSEND_TO_BACK s = Returns (y, s1)"
      "unlock_tx q n (missed_yield_if y s1) = Returns s'"
      using 2(3) by auto
    have "queues s1 q = queues s q" using notify_set_frame [OF s1(1), of q c] Some 2(4) by auto
    then show ?thesis using 2(1) [of y s1 s'] Some s1(2) 2(4) by simp
  next
    case None
    obtain y s1 where r: "remove_waiter (xTasksWaitingToReceive q) s = (y, s1)" by fastforce
    then show ?thesis
      using 2(3,4) 2(2) [of "(y, s1)" y s1 s'] None remove_waiter_queues' [OF r] by (auto split: if_splits)
  qed
qed simp

lemma unlock_rx_items: "queues (unlock_rx q n s) = queues s"
  by (induction q n s rule: unlock_rx.induct) (auto split: prod.splits dest: remove_waiter_queues')

lemma unlock_tx_same:
  assumes "unlock_tx_section q s = Returns s'" and "pxQueueSetContainer (queues s q) \<noteq> Some q"
  shows "same_items (queues s q) (queues s' q)"
proof -
  obtain s1 where s1: "unlock_tx q (lock_count (cTxLock (queues s q))) s = Returns s1"
    and s': "queues s' q = (queues s1 q)\<lparr>cTxLock := queueUNLOCKED\<rparr>"
    using assms(1) by (auto simp: unlock_tx_section_def)
  show ?thesis unfolding s' unlock_tx_items [OF s1 assms(2)] by (cases "queues s q") (simp add: same_items_def)
qed

lemma unlock_rx_same: "same_items (queues s q) (queues (unlock_rx_section q s) q)"
  by (cases "queues s q") (simp add: unlock_rx_section_def unlock_rx_items same_items_def)

lemma lock_items: "same_items (queues s q) (queues (prvLockQueue q s) q)"
  by (simp add: prvLockQueue_def same_items_def Let_def)

section \<open>Sending and receiving\<close>

lemma send_now_items:
  assumes r: "queue_send_now q pv pos s = Returns s'"
    and c: "pxQueueSetContainer (queues s q) \<noteq> Some q" and m: "\<not> queue_is_mutex (queues s q)"
  shows "queues s' q = copy_in pv pos (queues s q)"
proof -
  let ?s1 = "update_queue q (copy_in pv pos) s"
  have r1: "(if pxQueueSetContainer (queues s q) \<noteq> None
       then obind (prvNotifyQueueSetContainer q pos ?s1) (\<lambda>(y, s2). queueYIELD_IF y s2)
       else if \<not> no_waiters (xTasksWaitingToReceive q) ?s1
       then let (y, s2) = remove_waiter (xTasksWaitingToReceive q) ?s1 in queueYIELD_IF y s2
       else queueYIELD_IF False ?s1) = Returns s'"
    using r m by (simp add: queue_send_now_def copy_to_queue split del: if_split)
  show ?thesis
  proof (cases "pxQueueSetContainer (queues s q)")
    case None
    then show ?thesis using r1
      by (auto split: if_splits prod.splits dest!: yield_queues remove_waiter_queues')
  next
    case (Some d)
    then obtain y s2 where s2: "prvNotifyQueueSetContainer q pos ?s1 = Returns (y, s2)" "queueYIELD_IF y s2 = Returns s'"
      using r1 by auto
    from notify_set_frame [OF s2(1), of q d] Some c yield_queues [OF s2(2)] show ?thesis by simp
  qed
qed

lemma receive_now_items:
  assumes "queue_receive_now q s = Returns (x, s')"
  shows "x = fst (prvCopyDataFromQueue (queues s q))" and "queues s' q = copy_out (queues s q)"
  using assms by (auto simp: queue_receive_now_def copy_out_def Let_def split: prod.splits
      dest!: yield_queues remove_waiter_queues')

lemma peek_now_items:
  assumes "queue_peek_now q s = Returns (x, s')"
  shows "x = fst (prvCopyDataFromQueue (queues s q))" and "queues s' q = queues s q"
  using assms copy_from_restore [of "queues s q"]
  by (auto simp: queue_peek_now_def Let_def split: prod.splits dest!: yield_queues remove_waiter_queues')

lemma posted_from_isr_items:
  assumes "posted_from_isr tx q pos w s = Returns (w', s')" and "pxQueueSetContainer (queues s q) \<noteq> Some q"
  shows "same_items (queues s q) (queues s' q)"
proof (cases "tx = queueUNLOCKED \<and> pxQueueSetContainer (queues s q) \<noteq> None")
  case True
  then obtain d where d: "pxQueueSetContainer (queues s q) = Some d" by auto
  with True assms obtain y s1 where "prvNotifyQueueSetContainer q pos s = Returns (y, s1)" "s' = s1"
    by (auto simp: posted_from_isr_def)
  then have "queues s' q = queues s q" using notify_set_frame [of q pos s y s1 q d] d assms(2) by auto
  then show ?thesis by simp
next
  case False
  then show ?thesis using assms(1)
    by (auto simp: posted_from_isr_def split: if_splits prod.splits dest: remove_waiter_queues')
qed

lemma send_from_isr_items:
  assumes r: "xQueueGenericSendFromISR q pv w pos s = Returns (ok, w', s')"
    and c: "pxQueueSetContainer (queues s q) \<noteq> Some q" and m: "\<not> queue_is_mutex (queues s q)"
  shows "ok = has_room q pos s"
    and "same_items (if ok then copy_in pv pos (queues s q) else queues s q) (queues s' q)"
proof -
  show ok: "ok = has_room q pos s"
    using r by (auto simp: xQueueGenericSendFromISR_def Let_def split: if_splits)
  show "same_items (if ok then copy_in pv pos (queues s q) else queues s q) (queues s' q)"
  proof (cases "has_room q pos s")
    case True
    let ?s1 = "update_queue q (copy_in pv pos) s"
    have "posted_from_isr (cTxLock (queues s q)) q pos w ?s1 = Returns (w', s')"
      using r True m by (auto simp: xQueueGenericSendFromISR_def copy_to_queue Let_def)
    from posted_from_isr_items [OF this] c show ?thesis using ok True by simp
  next
    case False
    then show ?thesis using r ok by (auto simp: xQueueGenericSendFromISR_def)
  qed
qed

lemma receive_from_isr_items:
  assumes r: "xQueueReceiveFromISR q b w s = Returns (x, w', s')"
  shows "x = (if uxMessagesWaiting (queues s q) > 0 then Some (fst (prvCopyDataFromQueue (queues s q))) else None)"
    and "same_items (if uxMessagesWaiting (queues s q) > 0 then copy_out (queues s q) else queues s q) (queues s' q)"
proof -
  have k: "queues s2 q = u" if "remove_waiter e (update_queue q (\<lambda>_. u) s) = (y, s2)" for e u y s2
    using remove_waiter_queues' [OF that] by simp
  show "x = (if uxMessagesWaiting (queues s q) > 0 then Some (fst (prvCopyDataFromQueue (queues s q))) else None)"
    "same_items (if uxMessagesWaiting (queues s q) > 0 then copy_out (queues s q) else queues s q) (queues s' q)"
    using r by (auto simp: xQueueReceiveFromISR_def copy_out_def Let_def split: if_splits prod.splits dest: k)
qed

end
