(* ===== verification/Queue_Spec.thy ===== *)
theory Queue_Spec
  imports Queue_Effects Tasks_Spec
begin

text \<open>
  The properties of the queues as a store of items: in any interleaving of sends and receives by tasks
  and interrupts the items come out as they went in.
\<close>

section \<open>Runs of calls that do not block\<close>

lemma send_nonblocking:
  assumes r: "xQueueGenericSend gs q pv 0 pos s = Returns (ok, s')"
    and c: "pxQueueSetContainer (queues s q) \<noteq> Some q" "\<not> queue_is_mutex (queues s q)"
  shows "ok = has_room q pos s" and "queues s' q = (if ok then copy_in pv pos (queues s q) else queues s q)"
  using r send_now_items [OF _ c]
  by (auto simp: xQueueGenericSend_def queue_send_loop.simps split: if_splits)

definition queue_holds :: "nat \<Rightarrow> qsys \<Rightarrow> u8 list list \<Rightarrow> bool" where
  "queue_holds q s xs \<longleftrightarrow> queue_rep (queues s q) xs \<and> pxQueueSetContainer (queues s q) \<noteq> Some q
     \<and> \<not> queue_is_mutex (queues s q)"

text \<open>
  The steps: a send to the back by a task or an interrupt, or whatever leaves the items alone (kernel
  calls, calls on other queues, the locks); a receive or a peek by a task or an interrupt.
\<close>

definition accepted :: "bool \<Rightarrow> 'a \<Rightarrow> 'a list" where
  "accepted ok x = (if ok then [x] else [])"

definition queue_put :: "nat \<Rightarrow> qsys \<Rightarrow> u8 list list \<Rightarrow> qsys \<Rightarrow> bool" where
  "queue_put q s a s' \<longleftrightarrow>
     (\<exists>item ok. length item = isz (queues s q) \<and> a = accepted ok item
        \<and> ((\<exists>gs. xQueueGenericSend gs q (Some item) 0 queueSEND_TO_BACK s = Returns (ok, s'))
          \<or> (\<exists>w w'. xQueueGenericSendFromISR q (Some item) w queueSEND_TO_BACK s = Returns (ok, w', s'))))
     \<or> a = [] \<and> same_items (queues s q) (queues s' q)"

definition queue_get :: "nat \<Rightarrow> qsys \<Rightarrow> u8 list list \<Rightarrow> qsys \<Rightarrow> bool" where
  "queue_get q s a s' \<longleftrightarrow>
     (\<exists>r. a = (case r of None \<Rightarrow> [] | Some x \<Rightarrow> [x])
        \<and> ((\<exists>gs b. xQueueReceive gs q b 0 s = Returns (r, s'))
          \<or> (\<exists>b w w'. xQueueReceiveFromISR q b w s = Returns (r, w', s'))))
     \<or> a = [] \<and> (\<exists>r. (\<exists>gs b. xQueuePeek gs q b 0 s = Returns (r, s')) \<or> (\<exists>b. xQueuePeekFromISR q b s = Returns (r, s')))"

lemma queue_holds_same: "same_items (queues s q) (queues s' q) \<Longrightarrow> queue_holds q s' xs = queue_holds q s xs"
  using same_itemsD [of "queues s q" "queues s' q"] by (simp add: queue_holds_def)

lemma queue_holds_copy_in:
  assumes h: "queue_holds q s xs" and item: "length item = isz (queues s q)"
    and room: "has_room q queueSEND_TO_BACK s"
    and s': "same_items (copy_in (Some item) queueSEND_TO_BACK (queues s q)) (queues s' q)"
  shows "queue_holds q s' (xs @ [item])"
proof -
  have "queue_rep (copy_in (Some item) queueSEND_TO_BACK (queues s q)) (xs @ [item])"
    using copy_in_rep [of "queues s q" xs item "Some item" queueSEND_TO_BACK] h item room
    by (simp add: queue_holds_def has_room_def)
  then show ?thesis using h same_itemsD [OF s'] by (simp add: queue_holds_def)
qed

lemma queue_holds_copy_out:
  assumes h: "queue_holds q s xs" and n: "uxMessagesWaiting (queues s q) > 0"
    and s': "same_items (copy_out (queues s q)) (queues s' q)"
  shows "\<exists>ys. xs = fst (prvCopyDataFromQueue (queues s q)) # ys \<and> queue_holds q s' ys"
proof -
  have rep: "queue_rep (queues s q) xs" using h by (simp add: queue_holds_def)
  obtain x ys where xs: "xs = x # ys" using queue_rep_empty [OF rep] n by (cases xs) auto
  with copy_out_rep [of "queues s q" x ys] rep h same_itemsD [OF s'] show ?thesis
    by (simp add: queue_holds_def)
qed

lemma queue_put_appends:
  assumes p: "queue_put q s a s'" and h: "queue_holds q s xs"
  shows "queue_holds q s' (xs @ a)"
proof -
  have c: "pxQueueSetContainer (queues s q) \<noteq> Some q" "\<not> queue_is_mutex (queues s q)"
    using h by (simp_all add: queue_holds_def)
  let ?done = "\<lambda>item ok. ok = has_room q queueSEND_TO_BACK s \<and> same_items (if ok
      then copy_in (Some item) queueSEND_TO_BACK (queues s q) else queues s q) (queues s' q)"
  have "?done item ok" if "xQueueGenericSend gs q (Some item) 0 queueSEND_TO_BACK s = Returns (ok, s')" for gs item ok
    using send_nonblocking [OF that c] by (simp split del: if_split)
  moreover have "?done item ok"
    if "xQueueGenericSendFromISR q (Some item) w queueSEND_TO_BACK s = Returns (ok, w', s')" for w w' item ok
    using send_from_isr_items [OF that c] by (simp split del: if_split)
  ultimately consider (same) "a = []" "same_items (queues s q) (queues s' q)"
    | (send) item ok where "length item = isz (queues s q)" "a = accepted ok item" "?done item ok"
    using p unfolding queue_put_def by blast
  then show ?thesis
  proof cases
    case same
    then show ?thesis using queue_holds_same [of s q s' xs] h by simp
  next
    case send
    then show ?thesis using queue_holds_copy_in [OF h, of item s'] queue_holds_same [of s q s' xs] h
      by (cases ok) (simp_all add: accepted_def)
  qed
qed

lemma receive_nonblocking:
  assumes r: "xQueueReceive gs q b 0 s = Returns (x, s')"
  shows "x = (if uxMessagesWaiting (queues s q) > 0 then Some (fst (prvCopyDataFromQueue (queues s q))) else None)"
    and "queues s' q = (if uxMessagesWaiting (queues s q) > 0 then copy_out (queues s q) else queues s q)"
  using r receive_now_items [of q s]
  by (auto simp: xQueueReceive_def queue_receive_loop.simps split: if_splits)

lemma peek_nonblocking:
  assumes r: "xQueuePeek gs q b 0 s = Returns (x, s')"
  shows "x = (if uxMessagesWaiting (queues s q) > 0 then Some (fst (prvCopyDataFromQueue (queues s q))) else None)"
    and "queues s' q = queues s q"
  using r peek_now_items [of q s]
  by (auto simp: xQueuePeek_def queue_receive_loop.simps split: if_splits)

lemma peek_from_isr_items:
  "xQueuePeekFromISR q b s = Returns (x, s') \<Longrightarrow> queues s' q = queues s q"
  using copy_from_restore [of "queues s q"] by (auto simp: xQueuePeekFromISR_def Let_def split: if_splits prod.splits)

lemma queue_get_prefix:
  assumes p: "queue_get q s a s'" and h: "queue_holds q s xs"
  shows "\<exists>rest. xs = a @ rest \<and> queue_holds q s' rest"
proof -
  let ?n = "uxMessagesWaiting (queues s q)" and ?x = "fst (prvCopyDataFromQueue (queues s q))"
  let ?done = "\<lambda>r. r = (if ?n > 0 then Some ?x else None)
    \<and> same_items (if ?n > 0 then copy_out (queues s q) else queues s q) (queues s' q)"
  have "?done r" if "xQueueReceive gs q b 0 s = Returns (r, s')" for gs b r
    using receive_nonblocking [OF that] by simp
  moreover have "?done r" if "xQueueReceiveFromISR q b w s = Returns (r, w', s')" for b w r w'
    using receive_from_isr_items [OF that] by blast
  moreover have "same_items (queues s q) (queues s' q)" if "xQueuePeek gs q b 0 s = Returns (r, s')" for gs b r
    using peek_nonblocking(2) [OF that] by simp
  moreover have "same_items (queues s q) (queues s' q)" if "xQueuePeekFromISR q b s = Returns (r, s')" for b r
    using peek_from_isr_items [OF that] by simp
  ultimately consider (same) "a = []" "same_items (queues s q) (queues s' q)"
    | (got) r where "a = (case r of None \<Rightarrow> [] | Some x \<Rightarrow> [x])" "?done r"
    using p unfolding queue_get_def by blast
  then show ?thesis
  proof cases
    case same
    then show ?thesis using queue_holds_same [of s q s' xs] h by simp
  next
    case got
    then show ?thesis using queue_holds_copy_out [OF h, of s'] queue_holds_same [of s q s' xs] h
      by (cases "?n > 0") auto
  qed
qed

interpretation queue: fifo "queue_holds q" "queue_put q" "queue_get q"
  by unfold_locales (blast intro: queue_put_appends queue_get_prefix)+

section \<open>A queue of two items\<close>

definition demo_queue :: queue where
  "demo_queue = \<lparr>queue_is_mutex = False, pcTail = 2, pxMutexHolder = None, pcWriteTo = 0, pcReadFrom = 1,
     uxRecursiveCallCount = 0, pucQueueStorage = [0, 0], uxMessagesWaiting = 0, uxLength = 2, uxItemSize = 1,
     cRxLock = queueUNLOCKED, cTxLock = queueUNLOCKED, pxQueueSetContainer = None\<rparr>"

definition demo_sys :: qsys where
  "demo_sys = \<lparr>kern = demo_kernel, queues = (\<lambda>_. demo_queue)\<rparr>"

lemma demo_queue_holds: "queue_holds q demo_sys []"
  by (simp add: queue_holds_def queue_rep_def demo_sys_def demo_queue_def positions_def cap_def)

lemma demo_events [simp]: "list_items demo_kernel (EventList e) = []"
  by (simp add: demo_kernel_def demo_klists_def)

text \<open>
  C17. In every run of sends to the back, receives and peeks of a queue, by tasks and interrupts in any
  interleaving and among any other calls, the items received followed by the items in the queue are
  exactly the items sent, in order and unchanged, and the queue never holds more than its length.
\<close>

theorem queue_run_fifo:
  assumes "fifo_run (queue_put q) (queue_get q) s0 s sent got" and "queue_holds q s0 []"
  shows "\<exists>xs. sent = got @ xs \<and> queue_holds q s xs
     \<and> length xs = unat (uxMessagesWaiting (queues s q)) \<and> length xs \<le> unat (uxLength (queues s q))"
proof -
  obtain xs where "sent = got @ xs" "queue_holds q s xs" using queue.run_empty [OF assms] by blast
  then show ?thesis using queue_repD(3) [of "queues s q" xs] queue_rep_bound [of "queues s q" xs]
    unfolding queue_holds_def by (intro exI [of _ xs]) simp
qed

lemma demo_send:
  "\<exists>s. xQueueGenericSend [] 80 (Some [7]) 0 queueSEND_TO_BACK demo_sys = Returns (True, s)"
  by (simp add: xQueueGenericSend_def queue_send_loop.simps has_room_def queue_send_now_def copy_to_queue
      demo_sys_def demo_queue_def may_wait_def no_waiters_def queueYIELD_IF_def)

theorem queue_run_fifo_witness:
  "\<exists>s xs. xQueueGenericSend [] 80 (Some [7]) 0 queueSEND_TO_BACK demo_sys = Returns (True, s)
     \<and> [[7]] = [] @ xs \<and> queue_holds 80 s xs
     \<and> length xs = unat (uxMessagesWaiting (queues s 80)) \<and> length xs \<le> unat (uxLength (queues s 80))"
proof -
  obtain s where s: "xQueueGenericSend [] 80 (Some [7]) 0 queueSEND_TO_BACK demo_sys = Returns (True, s)"
    using demo_send by blast
  then have "queue_put 80 demo_sys [[7]] s"
    unfolding queue_put_def by (intro disjI1 exI [of _ "[7]"] exI [of _ True])
      (auto simp: accepted_def demo_sys_def demo_queue_def)
  from queue_run_fifo [OF fifo_run_put [of "queue_put 80" demo_sys, OF this] demo_queue_holds] s show ?thesis by blast
qed

end
