(* ===== verification/Queue_Wake.thy ===== *)
theory Queue_Wake
  imports Queue_Spec Tasks_Sync_Spec
begin

text \<open>
  Queues and the scheduler: a task that receives from an empty queue blocks, a send wakes it, and what
  the locks of a queue remember of the interrupts that came while it was locked.
\<close>

section \<open>Waiting and waking on an event list\<close>

lemma event_wait_effect:
  assumes g: "good i T k" and a: "may_block i k" and n: "n \<noteq> 0" and w: "\<not> waiting k (current k)"
    and p: "uxPendedTicks k = 0" and c: "pxCurrentTCB k = Some c"
  shows "\<exists>k'. kexec (EventWait e n) k = Returns k' \<and> good i T k' \<and> uxSchedulerSuspended k' = 0
     \<and> el k' c = Some (EventList e) \<and> current k' \<noteq> c"
proof -
  let ?k3 = "vTaskPlaceOnEventList e n (vTaskSuspendAll k)"
  have al: "allowed i T (EventWait e n) k" using a n w by simp
  note p3 = event_wait_placed [OF g al c]
  have np: "\<not> pending ?k3 c" using p3(4) by (simp add: pending_def)
  obtain k' E' where k': "kexec (EventWait e n) k = Returns k'" "good i T k'" "uxSchedulerSuspended k' = 0"
    "sl k' c = sl ?k3 c" "el k' c = el ?k3 c"
    using resume_yield_track [OF p3(1,2), of 0] p3(3) p np by (simp only: kexec.simps) blast
  have "sl ?k3 c \<noteq> Some (Ready q)" for q
    using p3(5) delay_list_not_ready [OF midD(1) [OF p3(1)]] by simp
  then have "sl k' (current k') \<noteq> sl k' c" using goodD(2) [OF k'(2)] unfolding k'(4) cur_ready_def by metis
  then have "current k' \<noteq> c" by auto
  then show ?thesis using k'(1,2,3,5) p3(4) by (intro exI [of _ k']) simp
qed

lemma event_wake_effect:
  assumes g: "good i T k" and s: "uxSchedulerSuspended k = 0" and ne: "list_items k (EventList e) \<noteq> []"
  defines "t \<equiv> listGET_OWNER_OF_HEAD_ENTRY k (EventList e)"
  shows "\<exists>k'. kexec (EventWake e True) k = Returns k' \<and> good i T k' \<and> uxSchedulerSuspended k' = 0
     \<and> el k' t = None \<and> sl k' t = Some (Ready (unat (prio k t))) \<and> prio k' t = prio k t
     \<and> (prio k t > prio k (current k) \<longrightarrow> prio k t \<le> prio k' (current k'))"
proof -
  note m = goodD(1) [OF g]
  have t: "el k t = Some (EventList e)" "t \<in> T" using event_head [OF midD(1) [OF m] ne] by (simp_all add: t_def)
  let ?k1 = "uxListRemove_k (EventItem t) k"
  have g1: "good i T ?k1" by (rule good_remove_event [OF g])
  have m2: "mid i T (make_ready t ?k1)" using mid_make_ready [OF goodD(1) [OF g1] t(2)] by simp
  let ?h = "prio k t > prio k (current k)" and ?y = "(make_ready t ?k1)\<lparr>xYieldPending := True\<rparr>"
  have r: "xTaskRemoveFromEventList e k = (?h, if ?h then ?y else make_ready t ?k1)"
    using s unfolding xTaskRemoveFromEventList_def Let_def make_ready_def t_def by simp
  obtain k' where k': "kexec (EventWake e True) k = Returns k'" "good i T k'"
    using kexec_good [OF g, of "EventWake e True"] ne by (auto simp: keeps_def)
  show ?thesis
  proof (cases ?h)
    case True
    have "mid i T ?y" by (rule mid_same [OF m2]) simp_all
    then obtain k2 where "portYIELD ?y = Returns k2" "switch_frame ?y k2" using yield_switch s by fastforce
    with k'(1) True have f: "switch_frame ?y k'" by (simp add: r yield_if_def)
    note f = switch_frameD [OF f]
    have "sl k' t = Some (Ready (unat (prio k t)))" using f(2) by simp
    then have "prio k' t \<le> prio k' (current k')" using goodD(3) [OF k'(2)] f(19) by (auto simp: calm_def)
    then show ?thesis using k' f s by simp
  next
    case False
    then have "k' = make_ready t ?k1" using k'(1) by (simp add: r yield_if_def)
    then show ?thesis using k' s False by simp
  qed
qed

section \<open>A task that receives from an empty queue\<close>

definition unlocked :: "queue \<Rightarrow> bool" where
  "unlocked u \<longleftrightarrow> cRxLock u = queueUNLOCKED \<and> cTxLock u = queueUNLOCKED"

lemma lock_count_unmodified [simp]: "lock_count queueLOCKED_UNMODIFIED = 0"
  by (simp add: lock_count_def queueLOCKED_UNMODIFIED_def)

lemma lock_unlock:
  assumes "unlocked (queues s q)"
  shows "prvUnlockQueue id q ((prvLockQueue q s)\<lparr>kern := k\<rparr>) = Returns (s\<lparr>kern := k\<rparr>)"
  using assms
  by (cases "queues s q") (auto simp: unlocked_def prvUnlockQueue_def unlock_tx_section_def unlock_rx_section_def
      prvLockQueue_def update_queue_def Let_def fun_upd_idem)

lemma time_out_fresh:
  assumes "wait \<noteq> 0" and "\<not> ucDelayAborted (tcbs k (current k))"
  shows "xTaskCheckForTimeOut (vTaskInternalSetTimeOutState k) wait (vTaskSuspendAll k) =
           (False, vTaskInternalSetTimeOutState k, wait, vTaskSuspendAll k)"
  using assms by (auto simp: xTaskCheckForTimeOut_def vTaskInternalSetTimeOutState_def vTaskSuspendAll_def
      Let_def word_neq_0_conv)

text \<open>Gaps in which nothing happens until the call gives way.\<close>

definition quiet :: "gaps \<Rightarrow> bool" where
  "quiet g \<longleftrightarrow> g_before g = id \<and> g_locked g = id \<and> g_timed g = id \<and> g_tested g = id \<and> g_placed g = id
     \<and> g_between g = id \<and> g_unlocked g = id"

lemma quietD:
  assumes "quiet g"
  shows "g_before g = id" "g_locked g = id" "g_timed g = id" "g_tested g = id" "g_placed g = id"
    "g_between g = id" "g_unlocked g = id"
  using assms by (simp_all add: quiet_def)

lemma wait_section_blocks:
  assumes u: "unlocked (queues s q)" and b: "blocked q (s\<lparr>kern := vTaskSuspendAll (kern s)\<rparr>)"
    and bl: "\<And>q s. blocked q (prvLockQueue q s) = blocked q s"
    and n: "wait \<noteq> 0" "\<not> ucDelayAborted (tcbs (kern s) (current (kern s)))"
    and g: "quiet g"
    and r: "kexec (EventWait e wait) (kern s) = Returns k"
  shows "wait_section q e blocked Pair g (vTaskInternalSetTimeOutState (kern s)) wait inh s
       = Returns (False, vTaskInternalSetTimeOutState (kern s), wait, inh, s\<lparr>kern := k\<rparr>)"
proof -
  let ?s = "s\<lparr>kern := vTaskSuspendAll (kern s)\<rparr>"
  let ?p = "vTaskPlaceOnEventList e wait (vTaskSuspendAll (kern s))"
  have u': "unlocked (queues ?s q)" using u by simp
  have k0: "kern (prvLockQueue q ?s) = vTaskSuspendAll (kern s)" by (simp add: prvLockQueue_def)
  have e0: "(prvLockQueue q ?s)\<lparr>kern := vTaskSuspendAll (kern s)\<rparr> = prvLockQueue q ?s"
    using k0 by (metis (no_types, lifting) qsys.surjective qsys.update_convs(1) qsys.select_convs(1))
  have un: "prvUnlockQueue id q ((prvLockQueue q ?s)\<lparr>kern := ?p\<rparr>) = Returns (s\<lparr>kern := ?p\<rparr>)"
    using lock_unlock [OF u', of ?p] by simp
  obtain already k6 where k6: "xTaskResumeAll ?p = Returns (already, k6)"
    "(if \<not> already then portYIELD k6 else Returns k6) = Returns k"
    using r by (cases "xTaskResumeAll ?p") (auto simp: split: prod.splits)
  show ?thesis
    unfolding wait_section_def Let_def quietD [OF g] id_apply k0 time_out_fresh [OF n] prod.case e0 bl b un obind.simps
    using b un k6 by simp
qed

lemma may_wait_running: "uxSchedulerSuspended (kern s) = 0 \<Longrightarrow> may_wait wait s"
  by (simp add: may_wait_def xTaskGetSchedulerState_def)

lemma remove_then_yield:
  "(let (y, s1) = remove_waiter e s in queueYIELD_IF y s1) =
     (if no_waiters e s then Returns s
      else obind (kexec (EventWake e True) (kern s)) (\<lambda>k. Returns (s\<lparr>kern := k\<rparr>)))"
  by (cases "xTaskRemoveFromEventList e (kern s)")
    (auto simp: remove_waiter_def queueYIELD_IF_def yield_if_def split: prod.split)

lemma remove_then_yield_good:
  assumes "good i T (kern s)"
  shows "\<exists>k. (let (y, s1) = remove_waiter e s in queueYIELD_IF y s1) = Returns (s\<lparr>kern := k\<rparr>) \<and> good i T k"
proof (cases "no_waiters e s")
  case True
  then show ?thesis using assms unfolding remove_then_yield by (intro exI [of _ "kern s"]) simp
next
  case False
  then have "allowed i T (EventWake e True) (kern s)" by (simp add: no_waiters_def)
  from kexec_good [OF assms this] obtain k where "kexec (EventWake e True) (kern s) = Returns k" "good i T k"
    unfolding keeps_def by blast
  then show ?thesis using False unfolding remove_then_yield by auto
qed

lemma receive_now_returns:
  assumes g: "good i T (kern s)" and h: "queue_holds q s (x # ys)"
  shows "\<exists>s'. queue_receive_now q s = Returns (x, s') \<and> queue_holds q s' ys \<and> good i T (kern s')"
proof -
  have rep: "queue_rep (queues s q) (x # ys)" using h by (simp add: queue_holds_def)
  let ?s1 = "update_queue q (\<lambda>_. copy_out (queues s q)) s"
  obtain k where k: "(let (y, s2) = remove_waiter (xTasksWaitingToSend q) ?s1 in queueYIELD_IF y s2)
      = Returns (?s1\<lparr>kern := k\<rparr>)" "good i T k"
    using remove_then_yield_good [of i T ?s1] g by auto
  have "queue_receive_now q s = obind (let (y, s2) = remove_waiter (xTasksWaitingToSend q) ?s1 in queueYIELD_IF y s2)
      (\<lambda>s3. Returns (fst (prvCopyDataFromQueue (queues s q)), s3))"
    by (cases "remove_waiter (xTasksWaitingToSend q) ?s1")
      (simp add: queue_receive_now_def copy_out_def Let_def case_prod_unfold)
  then have "queue_receive_now q s = Returns (x, ?s1\<lparr>kern := k\<rparr>)"
    using k(1) copy_out_rep(1) [OF rep] by simp
  then show ?thesis using k(2) copy_out_rep(2) [OF rep] h by (simp add: queue_holds_def)
qed

text \<open>
  A task that receives from an empty queue and may wait blocks: it is put on the list of tasks
  waiting for the queue, another task runs, and the queue is as it was. If the queue holds an item when
  the task runs again, the call returns the first item and removes it.
\<close>

lemma receive_blocks_until_item:
  assumes g: "good i T (kern s)" and c: "pxCurrentTCB (kern s) = Some c" and a: "may_block i (kern s)"
    and w: "\<not> waiting (kern s) c" "\<not> ucDelayAborted (tcbs (kern s) c)" "uxPendedTicks (kern s) = 0"
    and h: "queue_holds q s []" "unlocked (queues s q)" "q \<noteq> 0" and n: "wait \<noteq> 0"
    and gap: "quiet g"
  shows "\<exists>k1. good i T k1 \<and> uxSchedulerSuspended k1 = 0 \<and> current k1 \<noteq> c \<and> el k1 c = Some (EventList (xTasksWaitingToReceive q))
     \<and> (\<forall>x ys. queue_holds q (g_again g (g_after g (s\<lparr>kern := k1\<rparr>))) (x # ys)
            \<and> good i T (kern (g_again g (g_after g (s\<lparr>kern := k1\<rparr>)))) \<longrightarrow>
          (\<exists>s4. xQueueReceive (g # gs) q True wait s = Returns (Some x, s4)
             \<and> queue_holds q s4 ys \<and> good i T (kern s4)))"
proof -
  have s: "uxSchedulerSuspended (kern s) = 0" using a by (simp add: may_block_def)
  have cc: "current (kern s) = c" using c by simp
  have e: "uxMessagesWaiting (queues s q) = 0"
    using h(1) queue_rep_empty [of "queues s q" "[]"] by (simp add: queue_holds_def)
  obtain k1 where k1: "kexec (EventWait (xTasksWaitingToReceive q) wait) (kern s) = Returns k1" "good i T k1"
    "el k1 c = Some (EventList (xTasksWaitingToReceive q))" "current k1 \<noteq> c" "uxSchedulerSuspended k1 = 0"
    using event_wait_effect [OF g a n _ w(3) c] w(1) unfolding cc by blast
  let ?s1 = "s\<lparr>kern := k1\<rparr>"
  have ws: "wait_section q (xTasksWaitingToReceive q) prvIsQueueEmpty Pair g (time_out_at None s) wait False (g_before g s)
      = Returns (False, time_out_at None s, wait, False, ?s1)"
    using wait_section_blocks [of s q prvIsQueueEmpty wait g "xTasksWaitingToReceive q" k1 False] h(2) e n w(2) gap quietD(1) [OF gap] k1(1) cc
    by (simp add: time_out_at_def prvIsQueueEmpty_def prvLockQueue_def Let_def)
  have "\<exists>s4. xQueueReceive (g # gs) q True wait s = Returns (Some x, s4) \<and> queue_holds q s4 ys \<and> good i T (kern s4)"
    if x: "queue_holds q (g_again g (g_after g ?s1)) (x # ys)" "good i T (kern (g_again g (g_after g ?s1)))" for x ys
  proof -
    obtain s4 where s4: "queue_receive_now q (g_again g (g_after g ?s1)) = Returns (x, s4)"
      "queue_holds q s4 ys" "good i T (kern s4)" using receive_now_returns [OF x(2,1)] by blast
    have "uxMessagesWaiting (queues (g_again g (g_after g ?s1)) q) \<noteq> 0"
      using x(1) queue_rep_empty [of _ "x # ys"] by (auto simp: queue_holds_def)
    then have "queue_receive_loop queue_receive_now gs q (Some (time_out_at None s)) wait (g_again g (g_after g ?s1))
        = Returns (Some x, s4)"
      using s4(1) by (subst queue_receive_loop.simps) (simp add: word_neq_0_conv)
    then have "queue_receive_loop queue_receive_now (g # gs) q None wait s = Returns (Some x, s4)"
      using e n ws by (subst queue_receive_loop.simps) (simp add: Let_def)
    then show ?thesis using s4 h(3) may_wait_running [OF s] by (simp add: xQueueReceive_def)
  qed
  then show ?thesis using k1 by blast
qed

lemma send_wakes_first:
  assumes g: "good i T (kern s)" and s: "uxSchedulerSuspended (kern s) = 0"
    and h: "queue_holds q s xs" "pxQueueSetContainer (queues s q) = None" "q \<noteq> 0"
    and room: "has_room q queueSEND_TO_BACK s" and item: "length item = isz (queues s q)"
    and ne: "list_items (kern s) (EventList (xTasksWaitingToReceive q)) \<noteq> []"
    and t: "t = listGET_OWNER_OF_HEAD_ENTRY (kern s) (EventList (xTasksWaitingToReceive q))"
  shows "\<exists>s'. xQueueGenericSend gs q (Some item) wait queueSEND_TO_BACK s = Returns (True, s')
     \<and> queue_holds q s' (xs @ [item]) \<and> good i T (kern s')
     \<and> el (kern s') t = None \<and> sl (kern s') t = Some (Ready (unat (prio (kern s) t)))
     \<and> (prio (kern s) t > prio (kern s) (current (kern s)) \<longrightarrow>
          prio (kern s) t \<le> prio (kern s') (current (kern s')))"
proof -
  have m: "\<not> queue_is_mutex (queues s q)" using h(1) by (simp add: queue_holds_def)
  let ?s1 = "update_queue q (copy_in (Some item) queueSEND_TO_BACK) s"
  obtain k where k: "kexec (EventWake (xTasksWaitingToReceive q) True) (kern s) = Returns k" "good i T k"
    "el k t = None" "sl k t = Some (Ready (unat (prio (kern s) t)))"
    "prio (kern s) t > prio (kern s) (current (kern s)) \<longrightarrow> prio (kern s) t \<le> prio k (current k)"
    using event_wake_effect [OF g s ne] unfolding t by metis
  have "queue_send_now q (Some item) queueSEND_TO_BACK s =
      (let (y, s2) = remove_waiter (xTasksWaitingToReceive q) ?s1 in queueYIELD_IF y s2)"
    using m h(2) ne by (simp add: queue_send_now_def copy_to_queue no_waiters_def)
  also have "\<dots> = Returns (?s1\<lparr>kern := k\<rparr>)"
    unfolding remove_then_yield using ne k(1) by (simp add: no_waiters_def)
  finally have "xQueueGenericSend gs q (Some item) wait queueSEND_TO_BACK s = Returns (True, ?s1\<lparr>kern := k\<rparr>)"
    using h(3) room may_wait_running [OF s]
    by (simp add: xQueueGenericSend_def queue_send_loop.simps)
  moreover have "queue_holds q (?s1\<lparr>kern := k\<rparr>) (xs @ [item])"
    by (rule queue_holds_copy_in [OF h(1) item room]) simp
  ultimately show ?thesis using k by (intro exI [of _ "?s1\<lparr>kern := k\<rparr>"]) simp
qed

text \<open>
  C19. A send to a queue that a task waits on returns success, stores the item, and readies the first
  waiting task: it is on the ready list of its priority and on no event list, and when its priority is
  higher than the sender's a task of at least that priority runs when the call is done.
\<close>

theorem send_wakes_receiver:
  assumes g: "good i T (kern s)" and s: "uxSchedulerSuspended (kern s) = 0"
    and h: "queue_holds q s xs" "pxQueueSetContainer (queues s q) = None" "q \<noteq> 0"
    and room: "has_room q queueSEND_TO_BACK s" and item: "length item = isz (queues s q)"
    and ne: "list_items (kern s) (EventList (xTasksWaitingToReceive q)) \<noteq> []"
    and t: "t = listGET_OWNER_OF_HEAD_ENTRY (kern s) (EventList (xTasksWaitingToReceive q))"
  shows "\<exists>s'. xQueueGenericSend gs q (Some item) wait queueSEND_TO_BACK s = Returns (True, s')
     \<and> queue_holds q s' (xs @ [item]) \<and> good i T (kern s')
     \<and> el (kern s') t = None \<and> sl (kern s') t = Some (Ready (unat (prio (kern s) t)))
     \<and> (prio (kern s) t > prio (kern s) (current (kern s)) \<longrightarrow>
          prio (kern s) t \<le> prio (kern s') (current (kern s')))"
  by (rule send_wakes_first [OF assms])

lemma demo_sys_simps [simp]: "kern demo_sys = demo_kernel" "queues demo_sys q = demo_queue"
  by (simp_all add: demo_sys_def)

lemma demo_queue_unlocked: "unlocked demo_queue"
  by (simp add: demo_queue_def unlocked_def)

lemma event_list_nonempty:
  assumes "good i T k" and "el k t = Some (EventList e)"
  shows "list_items k (EventList e) \<noteq> []"
  using alists_ok_mem [OF kinv_ok [OF midD(1) [OF goodD(1) [OF assms(1)]]], of "EventItem t" "EventList e"] assms(2)
  by auto

theorem send_wakes_receiver_witness:
  "\<exists>k1 s'. el k1 4 = Some (EventList (xTasksWaitingToReceive 80))
     \<and> xQueueGenericSend [] 80 (Some [7]) 0 queueSEND_TO_BACK (demo_sys\<lparr>kern := k1\<rparr>) = Returns (True, s')
     \<and> queue_holds 80 s' [[7]]"
proof -
  obtain k1 where k1: "good 0 {0, 4, 8} k1" "uxSchedulerSuspended k1 = 0"
    "el k1 4 = Some (EventList (xTasksWaitingToReceive 80))"
    using event_wait_effect [OF demo_good demo_may_block, of 10 4 "xTasksWaitingToReceive 80"] by auto
  let ?s = "demo_sys\<lparr>kern := k1\<rparr>"
  have h: "queue_holds 80 ?s []" "pxQueueSetContainer (queues ?s 80) = None" "has_room 80 queueSEND_TO_BACK ?s"
    "length [7 :: u8] = isz (queues ?s 80)"
    using demo_queue_holds [of 80] by (simp_all add: queue_holds_def has_room_def demo_queue_def)
  from send_wakes_receiver [of 0 "{0, 4, 8}" ?s 80 "[]" "[7]", OF _ _ h(1,2) _ h(3,4) _ refl, of "[]" 0]
    k1 event_list_nonempty [OF k1(1,3)]
  show ?thesis by (auto intro!: exI [of _ k1])
qed

end
