(* ===== verification/Queue_Block.thy ===== *)
theory Queue_Block
  imports Queue_Wake "HOL-Library.Sublist"
begin

text \<open>
  Calls of a queue that block: what a receive or a send does to the items, whatever other tasks and
  interrupts do at the points where the call gives way to them. The state just before the call's own
  effect is the one the others have led to, and what they put in and took out is what their own steps
  say.
\<close>

section \<open>What happens during a call\<close>

text \<open>The points of one pass of a blocking call at which others run, in their order.\<close>

definition gap_steps :: "gaps \<Rightarrow> (qsys \<Rightarrow> qsys) list" where
  "gap_steps g = [g_before g, g_locked g, g_timed g, g_tested g, g_placed g, g_between g, g_unlocked g,
     g_after g, g_again g]"

text \<open>
  \<open>L f s\<close> says what the others put into the queue and took out of it when \<open>f\<close> is what they do and \<open>s\<close>
  the state they do it in; \<open>logged\<close>, that it is a run of sends and receives.
\<close>

type_synonym steps_log = "(qsys \<Rightarrow> qsys) \<Rightarrow> qsys \<Rightarrow> u8 list list \<times> u8 list list"

definition logged :: "nat \<Rightarrow> steps_log \<Rightarrow> (qsys \<Rightarrow> qsys) list \<Rightarrow> bool" where
  "logged q L fs \<longleftrightarrow>
     (\<forall>f\<in>set fs. \<forall>s. fifo_run (queue_put q) (queue_get q) s (f s) (fst (L f s)) (snd (L f s)))"

text \<open>
  From \<open>s\<close> to \<open>t\<close> by the steps \<open>fs\<close> of the others, in this order, each once, and between them by steps of
  the call that leave the items alone; \<open>sent\<close> and \<open>got\<close> are what the others put in and took out.
\<close>

inductive others_ran :: "nat \<Rightarrow> steps_log \<Rightarrow> qsys \<Rightarrow> (qsys \<Rightarrow> qsys) list \<Rightarrow> qsys \<Rightarrow> u8 list list \<Rightarrow> u8 list list \<Rightarrow> bool"
  for q L s where
  start: "others_ran q L s [] s [] []"
| others: "others_ran q L s fs t sent got \<Longrightarrow>
     others_ran q L s (fs @ [f]) (f t) (sent @ fst (L f t)) (got @ snd (L f t))"
| own: "others_ran q L s fs t sent got \<Longrightarrow> same_items (queues t q) (queues t' q) \<Longrightarrow>
     others_ran q L s fs t' sent got"

lemma others_ran_trans:
  assumes "others_ran q L t gs u sent' got'" and "others_ran q L s fs t sent got"
  shows "others_ran q L s (fs @ gs) u (sent @ sent') (got @ got')"
  using assms by (induction rule: others_ran.induct) (auto simp flip: append_assoc intro: others_ran.intros)

lemma others_ran_fifo:
  assumes "others_ran q L s fs t sent got" and "logged q L fs" and "queue_holds q s xs"
  shows "\<exists>ys. xs @ sent = got @ ys \<and> queue_holds q t ys"
  using assms
proof (induction rule: others_ran.induct)
  case (others fs t sent got f)
  then obtain ys where ys: "xs @ sent = got @ ys" "queue_holds q t ys" by (auto simp: logged_def)
  have "fifo_run (queue_put q) (queue_get q) t (f t) (fst (L f t)) (snd (L f t))"
    using others.prems(1) by (simp add: logged_def)
  then obtain zs where "ys @ fst (L f t) = snd (L f t) @ zs" "queue_holds q (f t) zs"
    using queue.run_fifo ys(2) by blast
  then show ?case using ys(1) by (intro exI [of _ zs]) (metis append_assoc)
next
  case (own fs t sent got t')
  then show ?case using queue_holds_same [OF own.hyps(2)] by auto
qed auto

section \<open>The item size never changes\<close>

lemma queue_step_size:
  assumes "queue_put q s a s' \<or> queue_get q s a s'" and h: "queue_holds q s xs"
  shows "uxItemSize (queues s' q) = uxItemSize (queues s q)"
proof -
  have c: "pxQueueSetContainer (queues s q) \<noteq> Some q" "\<not> queue_is_mutex (queues s q)"
    using h by (simp_all add: queue_holds_def)
  have "uxItemSize (queues s' q) = uxItemSize (queues s q)"
    if "xQueueGenericSend gs q (Some item) 0 queueSEND_TO_BACK s = Returns (ok, s')" for gs item ok
    using send_nonblocking [OF that c] by simp
  moreover have "uxItemSize (queues s' q) = uxItemSize (queues s q)"
    if "xQueueGenericSendFromISR q (Some item) w queueSEND_TO_BACK s = Returns (ok, w', s')" for w w' item ok
    using same_itemsD(3) [OF send_from_isr_items(2) [OF that c]] by simp
  moreover have "uxItemSize (queues s' q) = uxItemSize (queues s q)" if "xQueueReceive gs q b 0 s = Returns (r, s')" for gs b r
    using receive_nonblocking [OF that] by simp
  moreover have "uxItemSize (queues s' q) = uxItemSize (queues s q)"
    if "xQueueReceiveFromISR q b w s = Returns (r, w', s')" for b w r w'
    using same_itemsD(3) [OF receive_from_isr_items(2) [OF that]] by (simp split: if_splits)
  moreover have "uxItemSize (queues s' q) = uxItemSize (queues s q)" if "xQueuePeek gs q b 0 s = Returns (r, s')" for gs b r
    using peek_nonblocking(2) [OF that] by simp
  moreover have "uxItemSize (queues s' q) = uxItemSize (queues s q)" if "xQueuePeekFromISR q b s = Returns (r, s')" for b r
    using peek_from_isr_items [OF that] by simp
  ultimately show ?thesis
    using assms(1) unfolding queue_put_def queue_get_def
    by (elim disjE exE conjE) (simp_all add: same_itemsD(3))
qed

lemma fifo_run_size:
  assumes "fifo_run (queue_put q) (queue_get q) s s' sent got" and "queue_holds q s xs"
  shows "uxItemSize (queues s' q) = uxItemSize (queues s q)"
  using assms
proof (induction rule: fifo_run.induct)
  case (put s1 sent got a s2)
  then show ?case using queue.run_fifo [OF put.hyps(1) put.prems] queue_step_size [of q s1 a s2] by auto
next
  case (take s1 sent got a s2)
  then show ?case using queue.run_fifo [OF take.hyps(1) take.prems] queue_step_size [of q s1 a s2] by auto
qed simp

lemma others_ran_size:
  assumes "others_ran q L s fs t sent got" and "logged q L fs" and "queue_holds q s xs"
  shows "isz (queues t q) = isz (queues s q)"
  using assms
proof (induction rule: others_ran.induct)
  case (others fs t sent got f)
  have r: "fifo_run (queue_put q) (queue_get q) t (f t) (fst (L f t)) (snd (L f t))" and l: "logged q L fs"
    using others.prems(1) by (simp_all add: logged_def)
  obtain ys where "queue_holds q t ys" using others_ran_fifo [OF others.hyps l others.prems(2)] by blast
  from fifo_run_size [OF r this] others.IH [OF l others.prems(2)] show ?case by simp
next
  case (own fs t sent got t')
  then show ?case using same_itemsD(3) [OF own.hyps(2)] by simp
qed simp

section \<open>Reached through some of the steps\<close>

text \<open>From \<open>s\<close> to \<open>t\<close> by some of the steps of \<open>fs\<close>, in their order.\<close>

definition via :: "nat \<Rightarrow> steps_log \<Rightarrow> (qsys \<Rightarrow> qsys) list \<Rightarrow> qsys \<Rightarrow> qsys \<Rightarrow> bool" where
  "via q L fs s t \<longleftrightarrow> (\<exists>gs sent got. subseq gs fs \<and> others_ran q L s gs t sent got)"

lemma via_own: "same_items (queues s q) (queues t q) \<Longrightarrow> via q L [] s t"
  unfolding via_def by (intro exI [of _ "[]"]) (auto intro: others_ran.intros)

lemma via_kern: "via q L [] s (s\<lparr>kern := k\<rparr>)"
  by (rule via_own) simp

lemma via_step: "via q L [f] s (f s)"
  unfolding via_def using others_ran.others [OF others_ran.start, of q L s f]
  by (intro exI [of _ "[f]"] exI [of _ "fst (L f s)"] exI [of _ "snd (L f s)"]) simp

lemma via_trans: "via q L fs s t \<Longrightarrow> via q L gs t u \<Longrightarrow> via q L (fs @ gs) s u"
  unfolding via_def using list_emb_append_mono others_ran_trans by metis

lemma via_weaken: "via q L fs s t \<Longrightarrow> subseq fs gs \<Longrightarrow> via q L gs s t"
  unfolding via_def by (meson subseq_order.order_trans)

lemma subseq_logged: "subseq gs fs \<Longrightarrow> logged q L fs \<Longrightarrow> logged q L gs"
  by (auto simp: logged_def elim!: list_emb_set)

lemma via_holds:
  assumes "via q L fs s t" and "logged q L fs" and "queue_holds q s xs"
  shows "\<exists>ys. queue_holds q t ys"
proof -
  obtain gs sent got where "subseq gs fs" "others_ran q L s gs t sent got" using assms(1) by (auto simp: via_def)
  then show ?thesis using others_ran_fifo subseq_logged [OF _ assms(2)] assms(3) by blast
qed

section \<open>The passes of the blocking calls\<close>

lemma unlock_via:
  assumes u: "prvUnlockQueue f q s = Returns s'" and h: "queue_holds q s xs"
  shows "via q L [f] s s'"
proof -
  obtain s1 where s1: "unlock_tx_section q s = Returns s1" "s' = unlock_rx_section q (f s1)"
    using u by (auto simp: prvUnlockQueue_def)
  have "via q L [] s s1" using unlock_tx_same [OF s1(1)] h by (intro via_own) (simp add: queue_holds_def)
  moreover have "via q L [] (f s1) s'" unfolding s1(2) by (rule via_own [OF unlock_rx_same])
  ultimately show ?thesis using via_trans [OF via_trans [OF _ via_step]] by fastforce
qed

lemma wait_section_parts:
  assumes "wait_section q e blocked Pair g tmo wait inh s = Returns (x, t, w, i, s')"
  obtains k where "\<exists>s2 s5 k'. (s2 = g_timed g ((g_locked g (prvLockQueue q (s\<lparr>kern := vTaskSuspendAll (kern s)\<rparr>)))\<lparr>kern := k\<rparr>)
       \<or> (\<exists>k''. s2 = (g_tested g (g_timed g ((g_locked g (prvLockQueue q (s\<lparr>kern := vTaskSuspendAll (kern s)\<rparr>)))\<lparr>kern := k\<rparr>)))\<lparr>kern := k''\<rparr>))
     \<and> prvUnlockQueue (g_between g) q (g_placed g s2) = Returns s5 \<and> s' = (g_unlocked g s5)\<lparr>kern := k'\<rparr>"
proof -
  let ?s1 = "g_locked g (prvLockQueue q (s\<lparr>kern := vTaskSuspendAll (kern s)\<rparr>))"
  obtain expired tmo' wait' k where c: "xTaskCheckForTimeOut tmo wait (kern ?s1) = (expired, tmo', wait', k)"
    by (metis prod_cases4)
  show ?thesis
  proof (rule that [of k], cases "\<not> expired \<and> blocked q (g_timed g (?s1\<lparr>kern := k\<rparr>))")
    case True
    then show "\<exists>s2 s5 k'. (s2 = g_timed g (?s1\<lparr>kern := k\<rparr>) \<or> (\<exists>k''. s2 = (g_tested g (g_timed g (?s1\<lparr>kern := k\<rparr>)))\<lparr>kern := k''\<rparr>))
        \<and> prvUnlockQueue (g_between g) q (g_placed g s2) = Returns s5 \<and> s' = (g_unlocked g s5)\<lparr>kern := k'\<rparr>"
      using assms unfolding wait_section_def Let_def c prod.case by simp blast
  next
    case False
    then show "\<exists>s2 s5 k'. (s2 = g_timed g (?s1\<lparr>kern := k\<rparr>) \<or> (\<exists>k''. s2 = (g_tested g (g_timed g (?s1\<lparr>kern := k\<rparr>)))\<lparr>kern := k''\<rparr>))
        \<and> prvUnlockQueue (g_between g) q (g_placed g s2) = Returns s5 \<and> s' = (g_unlocked g s5)\<lparr>kern := k'\<rparr>"
      using assms unfolding wait_section_def Let_def c prod.case by (auto; blast)
  qed
qed

lemma wait_section_via:
  assumes r: "wait_section q e blocked Pair g tmo wait inh s = Returns (x, t, w, i, s')"
    and L: "logged q L (gap_steps g)" and h: "queue_holds q s xs"
  shows "via q L [g_locked g, g_timed g, g_tested g, g_placed g, g_between g, g_unlocked g] s s'"
proof -
  let ?s0 = "prvLockQueue q (s\<lparr>kern := vTaskSuspendAll (kern s)\<rparr>)"
  obtain k s2 s5 k' where p: "s2 = g_timed g ((g_locked g ?s0)\<lparr>kern := k\<rparr>)
      \<or> (\<exists>k''. s2 = (g_tested g (g_timed g ((g_locked g ?s0)\<lparr>kern := k\<rparr>)))\<lparr>kern := k''\<rparr>)"
    "prvUnlockQueue (g_between g) q (g_placed g s2) = Returns s5" "s' = (g_unlocked g s5)\<lparr>kern := k'\<rparr>"
    using wait_section_parts [OF r] by metis
  let ?t = "g_timed g ((g_locked g ?s0)\<lparr>kern := k\<rparr>)"
  have "via q L [] s ?s0" by (rule via_own) (use lock_items [of "s\<lparr>kern := vTaskSuspendAll (kern s)\<rparr>" q] in simp)
  from via_trans [OF via_trans [OF via_trans [OF this via_step] via_kern] via_step]
  have t: "via q L [g_locked g, g_timed g] s ?t" by simp
  have "via q L [g_locked g, g_timed g, g_tested g] s s2"
    using p(1)
  proof (elim disjE exE)
    assume "s2 = ?t"
    then show ?thesis using via_weaken [OF t, of "[g_locked g, g_timed g, g_tested g]"] by simp
  next
    fix k'' assume "s2 = (g_tested g ?t)\<lparr>kern := k''\<rparr>"
    then show ?thesis using via_trans [OF via_trans [OF t via_step] via_kern, of "g_tested g" k''] by simp
  qed
  from via_trans [OF this via_step, of "g_placed g"]
  have u: "via q L [g_locked g, g_timed g, g_tested g, g_placed g] s (g_placed g s2)" by simp
  have "logged q L [g_locked g, g_timed g, g_tested g, g_placed g]" using L by (simp add: logged_def gap_steps_def)
  from via_holds [OF u this h] obtain ys where "queue_holds q (g_placed g s2) ys" by blast
  from via_trans [OF via_trans [OF via_trans [OF u unlock_via [OF p(2) this]] via_step] via_kern, of "g_unlocked g" k']
  show ?thesis unfolding p(3) by simp
qed

text \<open>A pass that goes to the next one, and one that ends the call.\<close>

lemma pass_via:
  assumes r: "wait_section q e blocked Pair g tmo wait inh (g_before g s) = Returns (x, t, w, i, s')"
    and L: "logged q L (gap_steps g)" and h: "queue_holds q s xs"
  shows "via q L (gap_steps g) s (g_after g s')" and "via q L (gap_steps g) s (g_again g (g_after g s'))"
proof -
  have b: "via q L [g_before g] s (g_before g s)" by (rule via_step)
  have "logged q L [g_before g]" using L by (simp add: logged_def gap_steps_def)
  from via_holds [OF b this h] obtain ys where "queue_holds q (g_before g s) ys" by blast
  from via_trans [OF via_trans [OF b wait_section_via [OF r L this]] via_step, of "g_after g"]
  have a: "via q L (butlast (gap_steps g)) s (g_after g s')" by (simp add: gap_steps_def)
  then show "via q L (gap_steps g) s (g_after g s')"
    by (rule via_weaken) (simp add: gap_steps_def)
  show "via q L (gap_steps g) s (g_again g (g_after g s'))"
    using via_trans [OF a via_step, of "g_again g"] by (simp add: gap_steps_def)
qed

abbreviation all_steps :: "gaps list \<Rightarrow> (qsys \<Rightarrow> qsys) list" where
  "all_steps gs \<equiv> concat (map gap_steps gs)"

lemma logged_append [simp]: "logged q L (fs @ gs) \<longleftrightarrow> logged q L fs \<and> logged q L gs"
  by (auto simp: logged_def)

lemma via_refl: "via q L fs s s"
  by (rule via_weaken [OF via_own]) simp_all

text \<open>
  What a receive does: it returns with nothing in a state the others have led to, in which the queue
  is empty, or takes the first item in such a state.
\<close>

lemma receive_loop_via:
  assumes "queue_receive_loop queue_receive_now gs q entry wait s = Returns (r, s')"
    and "logged q L (all_steps gs)" and "queue_holds q s xs"
  shows "\<exists>s1. via q L (all_steps gs) s s1
     \<and> (r = None \<and> s' = s1 \<and> prvIsQueueEmpty q s1
        \<or> (\<exists>x. r = Some x \<and> \<not> prvIsQueueEmpty q s1 \<and> queue_receive_now q s1 = Returns (x, s')))"
  using assms
proof (induction gs arbitrary: s entry wait xs)
  case Nil
  then show ?case using via_refl [of q L "[]" s]
    by (intro exI [of _ s]) (auto simp: queue_receive_loop.simps prvIsQueueEmpty_def word_gt_0 split: if_splits)
next
  case (Cons g gs)
  have L: "logged q L (gap_steps g)" "logged q L (all_steps gs)" using Cons.prems(2) by simp_all
  show ?case
  proof (cases "uxMessagesWaiting (queues s q) > 0 \<or> wait = 0")
    case True
    then show ?thesis using Cons.prems(1) via_refl [of q L "all_steps (g # gs)" s]
      by (intro exI [of _ s]) (auto simp: queue_receive_loop.simps prvIsQueueEmpty_def word_gt_0 split: if_splits)
  next
    case False
    obtain ex tmo w i s1 where s1: "wait_section q (xTasksWaitingToReceive q) prvIsQueueEmpty Pair g
        (time_out_at entry s) wait False (g_before g s) = Returns (ex, tmo, w, i, s1)"
      and rest: "(if ex \<and> prvIsQueueEmpty q (g_after g s1) then Returns (None, g_after g s1)
        else queue_receive_loop queue_receive_now gs q (Some tmo) w (g_again g (g_after g s1))) = Returns (r, s')"
      using Cons.prems(1) False by (subst (asm) queue_receive_loop.simps) (auto simp: Let_def)
    note v = pass_via [OF s1 L(1) Cons.prems(3)]
    show ?thesis
    proof (cases "ex \<and> prvIsQueueEmpty q (g_after g s1)")
      case True
      have "via q L (all_steps (g # gs)) s (g_after g s1)" by (rule via_weaken [OF v(1)]) (simp add: subseq_rev_drop_many)
      then show ?thesis using rest True by auto
    next
      case False
      obtain zs where z: "queue_holds q (g_again g (g_after g s1)) zs" using via_holds [OF v(2) L(1) Cons.prems(3)] by blast
      have "queue_receive_loop queue_receive_now gs q (Some tmo) w (g_again g (g_after g s1)) = Returns (r, s')"
        using rest False by simp
      from Cons.IH [OF this L(2) z] via_trans [OF v(2)] show ?thesis by simp blast
    qed
  qed
qed

lemma send_loop_via:
  assumes "queue_send_loop gs q item pos entry wait s = Returns (ok, s')"
    and "logged q L (all_steps gs)" and "queue_holds q s xs"
  shows "\<exists>s1. via q L (all_steps gs) s s1
     \<and> (\<not> ok \<and> s' = s1 \<or> ok \<and> has_room q pos s1 \<and> queue_send_now q item pos s1 = Returns s')"
  using assms
proof (induction gs arbitrary: s entry wait xs)
  case Nil
  then show ?case using via_refl [of q L "[]" s]
    by (intro exI [of _ s]) (auto simp: queue_send_loop.simps split: if_splits)
next
  case (Cons g gs)
  have L: "logged q L (gap_steps g)" "logged q L (all_steps gs)" using Cons.prems(2) by simp_all
  show ?case
  proof (cases "has_room q pos s \<or> wait = 0")
    case True
    then show ?thesis using Cons.prems(1) via_refl [of q L "all_steps (g # gs)" s]
      by (intro exI [of _ s]) (auto simp: queue_send_loop.simps split: if_splits)
  next
    case False
    obtain ex tmo w i s1 where s1: "wait_section q (xTasksWaitingToSend q) prvIsQueueFull Pair g
        (time_out_at entry s) wait False (g_before g s) = Returns (ex, tmo, w, i, s1)"
      and rest: "(if ex then Returns (False, g_after g s1)
        else queue_send_loop gs q item pos (Some tmo) w (g_again g (g_after g s1))) = Returns (ok, s')"
      using Cons.prems(1) False by (subst (asm) queue_send_loop.simps) (auto simp: Let_def)
    note v = pass_via [OF s1 L(1) Cons.prems(3)]
    show ?thesis
    proof (cases ex)
      case True
      have "via q L (all_steps (g # gs)) s (g_after g s1)" by (rule via_weaken [OF v(1)]) (simp add: subseq_rev_drop_many)
      then show ?thesis using rest True by auto
    next
      case False
      obtain zs where z: "queue_holds q (g_again g (g_after g s1)) zs" using via_holds [OF v(2) L(1) Cons.prems(3)] by blast
      have "queue_send_loop gs q item pos (Some tmo) w (g_again g (g_after g s1)) = Returns (ok, s')"
        using rest False by simp
      from Cons.IH [OF this L(2) z] via_trans [OF v(2)] show ?thesis by simp blast
    qed
  qed
qed

section \<open>The properties of blocking calls\<close>

lemma own_receive:
  assumes h: "queue_holds q s ys" and n: "\<not> prvIsQueueEmpty q s" and r: "queue_receive_now q s = Returns (x, s')"
  shows "\<exists>zs. ys = x # zs \<and> queue_holds q s' zs"
proof -
  have p: "uxMessagesWaiting (queues s q) > 0" using n by (simp add: prvIsQueueEmpty_def word_gt_0)
  note i = receive_now_items [OF r]
  have "same_items (copy_out (queues s q)) (queues s' q)" using i by simp
  from queue_holds_copy_out [OF h p this] i show ?thesis by auto
qed

lemma own_send:
  assumes h: "queue_holds q s ys" and n: "has_room q queueSEND_TO_BACK s" "length item = isz (queues s q)"
    and r: "queue_send_now q (Some item) queueSEND_TO_BACK s = Returns s'"
  shows "queue_holds q s' (ys @ [item])"
  by (rule queue_holds_copy_in [OF h n(2,1)]) (use send_now_items [OF r] h in \<open>simp add: queue_holds_def\<close>)

lemma empty_holds: "queue_holds q s ys \<Longrightarrow> prvIsQueueEmpty q s \<longleftrightarrow> ys = []"
  using queue_rep_empty [of "queues s q" ys] by (auto simp: queue_holds_def prvIsQueueEmpty_def)

text \<open>
  C18. A receive or a send that blocks takes effect once or not at all. When it returns, the others have
  led from the state of the call to a state in which the queue holds what it held at first, with what
  they put in and without what they took out. A receive that gives up leaves that state as it is, and the
  queue is empty in it; one that succeeds takes just the first item from it and returns it. A send that
  gives up leaves that state as it is; one that succeeds appends just its item.
\<close>

theorem blocking_calls_take_effect_once:
  assumes h: "queue_holds q s xs" and L: "logged q L (all_steps gs)" and item: "length item = isz (queues s q)"
  shows "(\<forall>r s'. xQueueReceive gs q True wait s = Returns (r, s') \<longrightarrow>
           (\<exists>fs s1 sent got ys. subseq fs (all_steps gs) \<and> others_ran q L s fs s1 sent got
              \<and> queue_holds q s1 ys \<and> xs @ sent = got @ ys
              \<and> (case r of None \<Rightarrow> ys = [] \<and> s' = s1 | Some x \<Rightarrow> \<exists>zs. ys = x # zs \<and> queue_holds q s' zs)))
     \<and> (\<forall>ok s'. xQueueGenericSend gs q (Some item) wait queueSEND_TO_BACK s = Returns (ok, s') \<longrightarrow>
           (\<exists>fs s1 sent got ys. subseq fs (all_steps gs) \<and> others_ran q L s fs s1 sent got
              \<and> queue_holds q s1 ys \<and> xs @ sent = got @ ys
              \<and> (if ok then queue_holds q s' (ys @ [item]) else s' = s1)))"
proof (intro conjI allI impI)
  fix r s' assume "xQueueReceive gs q True wait s = Returns (r, s')"
  then have "queue_receive_loop queue_receive_now gs q None wait s = Returns (r, s')"
    by (auto simp: xQueueReceive_def)
  from receive_loop_via [OF this L h] obtain fs s1 sent got where s1: "subseq fs (all_steps gs)"
    "others_ran q L s fs s1 sent got"
    "r = None \<and> s' = s1 \<and> prvIsQueueEmpty q s1
      \<or> (\<exists>x. r = Some x \<and> \<not> prvIsQueueEmpty q s1 \<and> queue_receive_now q s1 = Returns (x, s'))"
    by (auto simp: via_def)
  obtain ys where ys: "xs @ sent = got @ ys" "queue_holds q s1 ys"
    using others_ran_fifo [OF s1(2) subseq_logged [OF s1(1) L] h] by blast
  have "case r of None \<Rightarrow> ys = [] \<and> s' = s1 | Some x \<Rightarrow> \<exists>zs. ys = x # zs \<and> queue_holds q s' zs"
    using s1(3) own_receive [OF ys(2), of _ s'] empty_holds [OF ys(2)] by auto
  with s1 ys show "\<exists>fs s1 sent got ys. subseq fs (all_steps gs) \<and> others_ran q L s fs s1 sent got
      \<and> queue_holds q s1 ys \<and> xs @ sent = got @ ys
      \<and> (case r of None \<Rightarrow> ys = [] \<and> s' = s1 | Some x \<Rightarrow> \<exists>zs. ys = x # zs \<and> queue_holds q s' zs)" by blast
next
  fix ok s' assume "xQueueGenericSend gs q (Some item) wait queueSEND_TO_BACK s = Returns (ok, s')"
  then have "queue_send_loop gs q (Some item) queueSEND_TO_BACK None wait s = Returns (ok, s')"
    by (auto simp: xQueueGenericSend_def)
  from send_loop_via [OF this L h] obtain fs s1 sent got where s1: "subseq fs (all_steps gs)"
    "others_ran q L s fs s1 sent got"
    "\<not> ok \<and> s' = s1
      \<or> ok \<and> has_room q queueSEND_TO_BACK s1 \<and> queue_send_now q (Some item) queueSEND_TO_BACK s1 = Returns s'"
    by (auto simp: via_def)
  note l = subseq_logged [OF s1(1) L]
  obtain ys where ys: "xs @ sent = got @ ys" "queue_holds q s1 ys" using others_ran_fifo [OF s1(2) l h] by blast
  have "if ok then queue_holds q s' (ys @ [item]) else s' = s1"
    using s1(3) own_send [OF ys(2)] item others_ran_size [OF s1(2) l h] by auto
  with s1 ys show "\<exists>fs s1 sent got ys. subseq fs (all_steps gs) \<and> others_ran q L s fs s1 sent got
      \<and> queue_holds q s1 ys \<and> xs @ sent = got @ ys
      \<and> (if ok then queue_holds q s' (ys @ [item]) else s' = s1)" by blast
qed

section \<open>A task that waits for an item another task sends\<close>

definition send_9 :: "qsys \<Rightarrow> qsys" where
  "send_9 s = (case xQueueGenericSend [] 80 (Some [9]) 0 queueSEND_TO_BACK s of
     Returns (ok, s') \<Rightarrow> if isz (queues s 80) = 1 then s' else s | _ \<Rightarrow> s)"

definition demo_gap :: gaps where
  "demo_gap = \<lparr>g_before = id, g_locked = id, g_timed = id, g_tested = id, g_placed = id, g_between = id,
     g_unlocked = id, g_after = send_9, g_again = id\<rparr>"

definition demo_log :: steps_log where
  "demo_log f s = (if f = id then [] else case xQueueGenericSend [] 80 (Some [9]) 0 queueSEND_TO_BACK s of
     Returns (ok, s') \<Rightarrow> if isz (queues s 80) = 1 then accepted ok [9] else [] | _ \<Rightarrow> [], [])"

lemma send_9_run:
  "fifo_run (queue_put 80) (queue_get 80) s (send_9 s) (case xQueueGenericSend [] 80 (Some [9]) 0 queueSEND_TO_BACK s of
     Returns (ok, s') \<Rightarrow> if isz (queues s 80) = 1 then accepted ok [9] else [] | _ \<Rightarrow> []) []"
proof (cases "\<exists>ok s'. xQueueGenericSend [] 80 (Some [9]) 0 queueSEND_TO_BACK s = Returns (ok, s') \<and> isz (queues s 80) = 1")
  case True
  then obtain ok s' where t: "xQueueGenericSend [] 80 (Some [9]) 0 queueSEND_TO_BACK s = Returns (ok, s')"
    "isz (queues s 80) = 1" by blast
  then have "queue_put 80 s (accepted ok [9]) s'"
    unfolding queue_put_def by (intro disjI1 exI [of _ "[9]"] exI [of _ ok]) auto
  then show ?thesis using t by (simp add: send_9_def fifo_run_put)
next
  case False
  then show ?thesis by (auto simp: send_9_def fifo_run.start split: outcome.splits prod.splits)
qed

lemma demo_logged: "logged 80 demo_log (all_steps [demo_gap])"
proof -
  have "fifo_run (queue_put 80) (queue_get 80) s (send_9 s) (fst (demo_log send_9 s)) (snd (demo_log send_9 s))" for s
    using send_9_run [of s] fifo_run.start [of "queue_put 80" "queue_get 80" s]
    by (cases "send_9 = id") (simp_all add: demo_log_def)
  then show ?thesis
    by (auto simp: logged_def gap_steps_def demo_gap_def demo_log_def fifo_run.start)
qed

lemma demo_receive_blocks: "\<exists>s'. xQueueReceive [demo_gap] 80 True 10 demo_sys = Returns (Some [9], s')"
proof -
  have g: "quiet demo_gap" "g_after demo_gap = send_9" "g_again demo_gap = id" by (simp_all add: quiet_def demo_gap_def)
  obtain k1 where k1: "good 0 {0, 4, 8} k1" "uxSchedulerSuspended k1 = 0"
    "el k1 4 = Some (EventList (xTasksWaitingToReceive 80))"
    "\<And>x ys. queue_holds 80 (send_9 (demo_sys\<lparr>kern := k1\<rparr>)) (x # ys) \<Longrightarrow> good 0 {0, 4, 8} (kern (send_9 (demo_sys\<lparr>kern := k1\<rparr>))) \<Longrightarrow>
       \<exists>s'. xQueueReceive [demo_gap] 80 True 10 demo_sys = Returns (Some x, s')"
    using receive_blocks_until_item [of 0 "{0, 4, 8}" demo_sys 4 80 10 demo_gap "[]"]
      demo_good demo_may_block demo_queue_holds demo_queue_unlocked g by auto blast
  let ?s = "demo_sys\<lparr>kern := k1\<rparr>"
  have h: "queue_holds 80 ?s []" "pxQueueSetContainer (queues ?s 80) = None" "has_room 80 queueSEND_TO_BACK ?s"
    "length [9 :: u8] = isz (queues ?s 80)"
    using demo_queue_holds [of 80] by (simp_all add: queue_holds_def has_room_def demo_queue_def)
  obtain s' where s': "xQueueGenericSend [] 80 (Some [9]) 0 queueSEND_TO_BACK ?s = Returns (True, s')"
    "queue_holds 80 s' [[9]]" "good 0 {0, 4, 8} (kern s')"
    using send_wakes_first [of 0 "{0, 4, 8}" ?s 80 "[]" "[9]", OF _ _ h(1,2) _ h(3,4) _ refl, of "[]" 0]
      k1 event_list_nonempty [OF k1(1,3)] by auto
  then have "send_9 ?s = s'" using h(4) by (simp add: send_9_def)
  then show ?thesis using k1(4) s'(2,3) by simp
qed

theorem blocking_calls_take_effect_once_witness:
  "\<exists>s' fs s1 sent got ys zs. xQueueReceive [demo_gap] 80 True 10 demo_sys = Returns (Some [9], s')
     \<and> subseq fs (all_steps [demo_gap]) \<and> others_ran 80 demo_log demo_sys fs s1 sent got
     \<and> [] @ sent = got @ ys \<and> ys = [9] # zs \<and> queue_holds 80 s' zs"
proof -
  obtain s' where s': "xQueueReceive [demo_gap] 80 True 10 demo_sys = Returns (Some [9], s')"
    using demo_receive_blocks by blast
  have "length [7 :: u8] = isz (queues demo_sys 80)" by (simp add: demo_queue_def)
  from blocking_calls_take_effect_once [OF demo_queue_holds demo_logged this, of 10] s' show ?thesis
    by fastforce
qed

end
