(* ===== verification/Queue_Locks.thy ===== *)
theory Queue_Locks
  imports Queue_Wake
begin

text \<open>
  What the locks of a queue count, and the limits of the counting: the lock count is a signed byte.
\<close>

section \<open>Gives from interrupts while the queue is locked\<close>

fun isr_gives :: "nat \<Rightarrow> nat \<Rightarrow> qsys \<Rightarrow> qsys outcome" where
  "isr_gives 0 q s = Returns s"
| "isr_gives (Suc n) q s = obind (xQueueGiveFromISR q None s) (\<lambda>(ok, w, s1). isr_gives n q s1)"

lemma give_locked:
  assumes "q \<noteq> 0" "uxItemSize (queues s q) = 0" "\<not> queue_is_mutex (queues s q)"
    and "cTxLock (queues s q) \<noteq> queueUNLOCKED" "uxMessagesWaiting (queues s q) < uxLength (queues s q)"
  shows "xQueueGiveFromISR q None s = Returns (True, None, update_queue q (\<lambda>u. u\<lparr>
           uxMessagesWaiting := uxMessagesWaiting u + 1, cTxLock := cTxLock u + 1\<rparr>) s)"
  using assms by (simp add: xQueueGiveFromISR_def posted_from_isr_def Let_def update_queue_def)

lemma byte_not_unlocked: "n < 255 \<Longrightarrow> (of_nat n :: u8) \<noteq> queueUNLOCKED"
proof
  assume n: "n < 255" and e: "(of_nat n :: u8) = queueUNLOCKED"
  have "unat (of_nat n :: u8) = n" using n by (simp add: unat_of_nat)
  moreover have "unat queueUNLOCKED = 255" by (simp add: queueUNLOCKED_def unsigned_minus_1_eq_mask mask_eq_exp_minus_1)
  ultimately show False using n e by simp
qed

lemma isr_gives_locked:
  assumes "q \<noteq> 0" "uxItemSize (queues s q) = 0" "\<not> queue_is_mutex (queues s q)"
    and "cTxLock (queues s q) = of_nat j" "j + n \<le> 255"
    and "unat (uxMessagesWaiting (queues s q)) + n \<le> unat (uxLength (queues s q))"
  shows "isr_gives n q s = Returns (update_queue q (\<lambda>u. u\<lparr>
           uxMessagesWaiting := uxMessagesWaiting u + of_nat n, cTxLock := of_nat (j + n)\<rparr>) s)"
  using assms(2-)
proof (induction n arbitrary: s j)
  case 0
  then have "update_queue q (\<lambda>u. u\<lparr>uxMessagesWaiting := uxMessagesWaiting u + of_nat 0, cTxLock := of_nat (j + 0)\<rparr>) s = s"
    by (simp add: update_queue_def fun_upd_idem)
  then show ?case by simp
next
  case (Suc n)
  let ?s1 = "update_queue q (\<lambda>u. u\<lparr>uxMessagesWaiting := uxMessagesWaiting u + 1, cTxLock := cTxLock u + 1\<rparr>) s"
  have room: "uxMessagesWaiting (queues s q) < uxLength (queues s q)" using Suc.prems(5) by (simp add: word_less_nat_alt)
  have "cTxLock (queues s q) \<noteq> queueUNLOCKED" using byte_not_unlocked [of j] Suc.prems(3,4) by simp
  from give_locked [OF assms(1) Suc.prems(1,2) this room]
  have g: "xQueueGiveFromISR q None s = Returns (True, None, ?s1)" .
  have m: "unat (uxMessagesWaiting (queues s q) + 1) = Suc (unat (uxMessagesWaiting (queues s q)))"
    by (rule messages_succ(2) [OF room])
  have "isr_gives n q ?s1 = Returns (update_queue q (\<lambda>u. u\<lparr>
      uxMessagesWaiting := uxMessagesWaiting u + of_nat n, cTxLock := of_nat (Suc j + n)\<rparr>) ?s1)"
    by (rule Suc.IH) (use Suc.prems m in simp_all)
  then have "isr_gives (Suc n) q s = Returns (update_queue q (\<lambda>u. u\<lparr>
      uxMessagesWaiting := uxMessagesWaiting u + 1 + of_nat n, cTxLock := of_nat (Suc j + n)\<rparr>) s)"
    unfolding isr_gives.simps g by (simp only: obind.simps prod.case update_queue_simps) simp
  moreover have "1 + of_nat n = (of_nat (Suc n) :: u32)" "Suc j + n = j + Suc n" by simp_all
  ultimately show ?case by (simp only: add.assoc)
qed

lemma lock_count_of_nat: "n \<le> 255 \<Longrightarrow> lock_count (of_nat n) = (if n \<le> 127 then n else 0)"
proof -
  assume n: "n \<le> 255"
  have "uint (of_nat n :: u8) = int n" using n by (simp add: unsigned_of_nat take_bit_eq_mod)
  then have "sint (of_nat n :: u8) = (int n + 128) mod 256 - 128"
    unfolding sint_uint by (simp add: signed_take_bit_eq_take_bit_shift take_bit_eq_mod)
  also have "\<dots> = (if n \<le> 127 then int n else int n - 256)"
  proof (cases "n \<le> 127")
    case False
    have "(int n + 128) mod 256 = (int n - 128 + 256) mod 256" by (simp add: algebra_simps)
    also have "\<dots> = int n - 128" using False n unfolding mod_add_self2 by simp
    finally show ?thesis using False by simp
  qed simp
  finally show ?thesis using n by (auto simp: lock_count_def)
qed

section \<open>What unlocking wakes\<close>

text \<open>
  Waking the first waiting task while the scheduler is suspended, as it always is when a queue is
  unlocked: its event item goes to the pending ready list, whence \<open>xTaskResumeAll\<close> readies it.
\<close>

lemma pend_waiter:
  assumes m: "mid i T k" and u: "uxSchedulerSuspended k \<noteq> 0" and l: "list_items k (EventList e) = x # ws"
  shows "\<exists>y k'. xTaskRemoveFromEventList e k = (y, k') \<and> mid i T k' \<and> list_items k' (EventList e) = ws
     \<and> acontainer (klists k') = (acontainer (klists k))(x := Some xPendingReadyList)
     \<and> uxSchedulerSuspended k' = uxSchedulerSuspended k"
proof -
  define t where "t = listGET_OWNER_OF_HEAD_ENTRY k (EventList e)"
  have x: "x = EventItem t"
    using event_listed_item [OF kinv_parts(1) [OF midD(1) [OF m]], of "EventList e" x] l
    by (auto simp: t_def listGET_OWNER_OF_HEAD_ENTRY_def)
  have t: "el k t = Some (EventList e)" "t \<in> T"
    using event_head [OF midD(1) [OF m], of e] l by (simp_all add: t_def)
  note ok = kinv_ok [OF midD(1) [OF m]]
  let ?k1 = "uxListRemove_k (EventItem t) k"
  let ?k2 = "vListInsertEnd_k xPendingReadyList (EventItem t) ?k1"
  have m1: "mid i T ?k1" by (rule mid_remove_event [OF m])
  have "\<not> waiting ?k1 t" using midD(7) [OF m, of t] t(1) by auto
  then have m2: "mid i T ?k2" using mid_pend [OF m1 t(2)] u by simp
  have "list_items ?k2 (EventList e) = filter (\<lambda>y. y \<noteq> EventItem t) (x # ws)"
    by (simp add: vListInsertEnd_k_def uxListRemove_k_def content_insert_end_other content_remove [OF ok] l)
  also have "\<dots> = ws" using alists_okD(1) [OF ok, of "EventList e"] unfolding l x by (auto simp: filter_id_conv)
  finally have c: "list_items ?k2 (EventList e) = ws" .
  let ?h = "prio k t > prio k (current k)"
  have r: "xTaskRemoveFromEventList e k = (?h, if ?h then ?k2\<lparr>xYieldPending := True\<rparr> else ?k2)"
    using u unfolding xTaskRemoveFromEventList_def Let_def t_def by simp
  have "mid i T (if ?h then ?k2\<lparr>xYieldPending := True\<rparr> else ?k2)"
    using m2 mid_same [OF m2, of "?k2\<lparr>xYieldPending := True\<rparr>"] by simp
  then show ?thesis using c unfolding r x by auto
qed

text \<open>\<open>first_woken n e k k'\<close>: the first \<open>n\<close> tasks that waited on list \<open>e\<close> in \<open>k\<close>, and no other, are pending ready in \<open>k'\<close>.\<close>

definition first_woken :: "nat \<Rightarrow> nat \<Rightarrow> kernel \<Rightarrow> kernel \<Rightarrow> bool" where
  "first_woken n e k k' \<longleftrightarrow> list_items k' (EventList e) = drop n (list_items k (EventList e))
     \<and> (\<forall>x. listLIST_ITEM_CONTAINER k' x =
          (if x \<in> set (take n (list_items k (EventList e))) then Some xPendingReadyList
           else listLIST_ITEM_CONTAINER k x))"

lemma unlock_tx_wakes:
  assumes "mid i T (kern s)" and "uxSchedulerSuspended (kern s) \<noteq> 0" and "pxQueueSetContainer (queues s q) = None"
  shows "\<exists>k'. unlock_tx q n s = Returns (s\<lparr>kern := k'\<rparr>) \<and> mid i T k'
     \<and> first_woken n (xTasksWaitingToReceive q) (kern s) k'"
  using assms
proof (induction n arbitrary: s)
  case 0
  then show ?case by (intro exI [of _ "kern s"]) (simp add: first_woken_def)
next
  case (Suc n)
  let ?e = "xTasksWaitingToReceive q"
  show ?case
  proof (cases "list_items (kern s) (EventList ?e)")
    case Nil
    then show ?thesis using Suc.prems by (intro exI [of _ "kern s"]) (simp add: first_woken_def no_waiters_def)
  next
    case (Cons x ws)
    obtain y k1 where k1: "xTaskRemoveFromEventList ?e (kern s) = (y, k1)" "mid i T k1"
      "list_items k1 (EventList ?e) = ws" "acontainer (klists k1) = (acontainer (klists (kern s)))(x := Some xPendingReadyList)"
      "uxSchedulerSuspended k1 = uxSchedulerSuspended (kern s)"
      using pend_waiter [OF Suc.prems(1,2) Cons] by blast
    let ?k2 = "if y then vTaskMissedYield k1 else k1"
    have m2: "mid i T ?k2" using k1(2) mid_same [OF k1(2), of "vTaskMissedYield k1"] by (simp add: vTaskMissedYield_def)
    have f: "list_items ?k2 (EventList ?e) = ws" "acontainer (klists ?k2) = acontainer (klists k1)"
      "uxSchedulerSuspended ?k2 = uxSchedulerSuspended (kern s)"
      using k1(3,5) by (simp_all add: vTaskMissedYield_def)
    obtain k' where k': "unlock_tx q n (s\<lparr>kern := ?k2\<rparr>) = Returns (s\<lparr>kern := k'\<rparr>)" "mid i T k'" "first_woken n ?e ?k2 k'"
      using Suc.IH [of "s\<lparr>kern := ?k2\<rparr>"] m2 f(3) Suc.prems(2,3) by auto
    have "unlock_tx q (Suc n) s = unlock_tx q n (s\<lparr>kern := ?k2\<rparr>)"
      using Suc.prems(3) Cons k1(1) by (simp add: no_waiters_def remove_waiter_def missed_yield_if_def)
    moreover have "first_woken (Suc n) ?e (kern s) k'"
      using k'(3) f Cons k1(4) by (auto simp: first_woken_def)
    ultimately show ?thesis using k' by (intro exI [of _ k']) simp
  qed
qed

lemma unlock_wakes:
  assumes m: "mid i T (kern s)" and u: "uxSchedulerSuspended (kern s) \<noteq> 0" and c: "pxQueueSetContainer (queues s q) = None"
    and r: "lock_count (cRxLock (queues s q)) = 0" and n: "lock_count (cTxLock (queues s q)) = n"
  shows "\<exists>s2. prvUnlockQueue id q s = Returns s2 \<and> unlocked (queues s2 q) \<and> mid i T (kern s2)
     \<and> uxMessagesWaiting (queues s2 q) = uxMessagesWaiting (queues s q)
     \<and> first_woken n (xTasksWaitingToReceive q) (kern s) (kern s2) \<and> (n = 0 \<longrightarrow> kern s2 = kern s)"
proof -
  obtain k' where k': "unlock_tx q n s = Returns (s\<lparr>kern := k'\<rparr>)" "mid i T k'"
    "first_woken n (xTasksWaitingToReceive q) (kern s) k'" using unlock_tx_wakes [OF m u c] by blast
  then have "prvUnlockQueue id q s = Returns (update_queue q (\<lambda>v. v\<lparr>cTxLock := queueUNLOCKED, cRxLock := queueUNLOCKED\<rparr>)
      (s\<lparr>kern := k'\<rparr>))"
    using r n by (simp add: prvUnlockQueue_def unlock_tx_section_def unlock_rx_section_def)
  moreover have "n = 0 \<longrightarrow> k' = kern s" using k'(1) by (cases s) auto
  ultimately show ?thesis using k'(2,3) by (simp add: unlocked_def)
qed

text \<open>
  C20. Gives of a semaphore from interrupts while its queue is locked are counted: unlocking then wakes
  exactly as many of the tasks that wait, the first ones, for up to 127 gives. But the count is a signed
  byte, and after 128 to 255 gives it is negative: unlocking wakes nobody, although the semaphore has
  been given as often and tasks wait for it.
\<close>

theorem lock_count_overflow:
  assumes q: "q \<noteq> 0" "uxItemSize (queues s q) = 0" "\<not> queue_is_mutex (queues s q)" "pxQueueSetContainer (queues s q) = None"
    and l: "cTxLock (queues s q) = queueLOCKED_UNMODIFIED" "cRxLock (queues s q) = queueLOCKED_UNMODIFIED"
    and n: "n \<le> 255" "unat (uxMessagesWaiting (queues s q)) + n \<le> unat (uxLength (queues s q))"
    and k: "mid i T (kern s)" "uxSchedulerSuspended (kern s) \<noteq> 0"
  shows "\<exists>s1 s2. isr_gives n q s = Returns s1 \<and> kern s1 = kern s
     \<and> prvUnlockQueue id q s1 = Returns s2 \<and> unlocked (queues s2 q)
     \<and> uxMessagesWaiting (queues s2 q) = uxMessagesWaiting (queues s q) + of_nat n
     \<and> (if n \<le> 127 then first_woken n (xTasksWaitingToReceive q) (kern s) (kern s2) else kern s2 = kern s)"
proof -
  let ?s1 = "update_queue q (\<lambda>u. u\<lparr>uxMessagesWaiting := uxMessagesWaiting u + of_nat n, cTxLock := of_nat (0 + n)\<rparr>) s"
  have g: "isr_gives n q s = Returns ?s1"
    by (rule isr_gives_locked [OF q(1-3)]) (use l n in \<open>simp_all add: queueLOCKED_UNMODIFIED_def\<close>)
  have c: "lock_count (cTxLock (queues ?s1 q)) = (if n \<le> 127 then n else 0)" "lock_count (cRxLock (queues ?s1 q)) = 0"
    using lock_count_of_nat [OF n(1)] l(2) by simp_all
  obtain s2 where s2: "prvUnlockQueue id q ?s1 = Returns s2" "unlocked (queues s2 q)"
    "uxMessagesWaiting (queues s2 q) = uxMessagesWaiting (queues ?s1 q)"
    "first_woken (if n \<le> 127 then n else 0) (xTasksWaitingToReceive q) (kern ?s1) (kern s2)"
    "(if n \<le> 127 then n else 0) = 0 \<longrightarrow> kern s2 = kern ?s1"
    using unlock_wakes [of i T ?s1 q, OF _ _ _ c(2,1)] k q(4) by auto
  then show ?thesis using g by (intro exI [of _ ?s1] exI [of _ s2]) (auto split: if_splits)
qed

definition demo_semaphore :: queue where
  "demo_semaphore = demo_queue\<lparr>uxLength := 200, uxItemSize := 0, pucQueueStorage := [],
     cRxLock := queueLOCKED_UNMODIFIED, cTxLock := queueLOCKED_UNMODIFIED\<rparr>"

text \<open>Task 4 waits for the semaphore at 80 and the scheduler is suspended.\<close>

lemma demo_waits:
  "\<exists>k. mid 0 {0, 4, 8} k \<and> uxSchedulerSuspended k \<noteq> 0 \<and> EventItem 4 \<in> set (list_items k (EventList (xTasksWaitingToReceive 80)))"
proof -
  let ?k = "vTaskPlaceOnEventList (xTasksWaitingToReceive 80) 10 (vTaskSuspendAll demo_kernel)"
  have al: "allowed 0 {0, 4, 8} (EventWait (xTasksWaitingToReceive 80) 10) demo_kernel"
    using demo_may_block by simp
  note p = event_wait_placed [OF demo_good al, of 4]
  have "EventItem 4 \<in> set (list_items ?k (EventList (xTasksWaitingToReceive 80)))"
    using alists_ok_mem [OF kinv_ok [OF midD(1) [OF p(1)]]] p(4) by simp
  then show ?thesis using p by (intro exI [of _ ?k]) auto
qed

theorem lock_count_overflow_witness:
  "\<exists>k s1 s2. EventItem 4 \<in> set (list_items k (EventList (xTasksWaitingToReceive 80)))
     \<and> isr_gives 128 80 (update_queue 80 (\<lambda>_. demo_semaphore) (demo_sys\<lparr>kern := k\<rparr>)) = Returns s1
     \<and> prvUnlockQueue id 80 s1 = Returns s2 \<and> uxMessagesWaiting (queues s2 80) = 128 \<and> kern s2 = k"
proof -
  obtain k where k: "mid 0 {0, 4, 8} k" "uxSchedulerSuspended k \<noteq> 0"
    "EventItem 4 \<in> set (list_items k (EventList (xTasksWaitingToReceive 80)))" using demo_waits by blast
  show ?thesis
    using lock_count_overflow [of 80 "update_queue 80 (\<lambda>_. demo_semaphore) (demo_sys\<lparr>kern := k\<rparr>)" 128 0 "{0, 4, 8}"] k
    by (intro exI [of _ k]) (auto simp: demo_semaphore_def demo_queue_def)
qed

end
