(* ===== verification/Queue_Mutex.thy ===== *)
theory Queue_Mutex
  imports Queue_Locks
begin

text \<open>
  Mutexes: who holds one, what taking and giving do on every branch, recursive mutexes.
\<close>

section \<open>The state of a mutex\<close>

definition mutex_ok :: "queue \<Rightarrow> bool" where
  "mutex_ok u \<longleftrightarrow> queue_is_mutex u \<and> uxItemSize u = 0 \<and> uxLength u = 1 \<and> pxQueueSetContainer u = None
     \<and> (uxMessagesWaiting u = 1 \<and> pxMutexHolder u = None \<or> uxMessagesWaiting u = 0 \<and> pxMutexHolder u \<noteq> None)"

lemma mutex_ok_same: "same_items u v \<Longrightarrow> mutex_ok v = mutex_ok u"
  using same_itemsD [of u v] by (simp add: mutex_ok_def)

definition took :: "task option \<Rightarrow> queue \<Rightarrow> queue" where
  "took h u = u\<lparr>uxMessagesWaiting := 0, pxMutexHolder := h\<rparr>"

definition gave :: "queue \<Rightarrow> queue" where
  "gave u = u\<lparr>pxMutexHolder := None, uxMessagesWaiting := 1\<rparr>"

lemma take_now_eq:
  assumes "mutex_ok (queues s q)" "uxMessagesWaiting (queues s q) = 1"
  shows "take_now q s = (let (h, k) = pvTaskIncrementMutexHeldCount (kern s);
           (y, s3) = remove_waiter (xTasksWaitingToSend q) (update_queue q (took h) (s\<lparr>kern := k\<rparr>))
         in queueYIELD_IF y s3)"
  using assms by (simp add: take_now_def Let_def mutex_ok_def took_def update_queue_def split: prod.split)

lemma give_now_eq:
  assumes m: "mutex_ok (queues s q)" and n: "uxMessagesWaiting (queues s q) = 0"
  shows "queue_send_now q None pos s =
    obind (xTaskPriorityDisinherit (pxMutexHolder (queues s q)) (kern s)) (\<lambda>(y, k).
      let s1 = update_queue q gave (s\<lparr>kern := k\<rparr>)
      in if \<not> no_waiters (xTasksWaitingToReceive q) s1
         then let (z, s2) = remove_waiter (xTasksWaitingToReceive q) s1 in queueYIELD_IF z s2
         else queueYIELD_IF y s1)"
  using assms
  by (cases "xTaskPriorityDisinherit (pxMutexHolder (queues s q)) (kern s)")
    (auto simp: queue_send_now_def prvCopyDataToQueue_def mutex_ok_def Let_def gave_def update_queue_def split: prod.splits)

lemma take_branches:
  assumes m: "mutex_ok (queues s q)" and q: "q \<noteq> 0"
  shows "xQueueSemaphoreTake gs q 0 s =
    (if uxMessagesWaiting (queues s q) = 1 then obind (take_now q s) (\<lambda>s1. Returns (True, s1)) else Returns (False, s))"
  using assms by (auto simp: xQueueSemaphoreTake_def take_loop.simps mutex_ok_def may_wait_def)

lemma give_branches:
  assumes m: "mutex_ok (queues s q)" and q: "q \<noteq> 0" and p: "pos \<noteq> queueOVERWRITE"
  shows "xQueueGenericSend gs q None 0 pos s =
    (if uxMessagesWaiting (queues s q) = 0 then obind (queue_send_now q None pos s) (\<lambda>s1. Returns (True, s1))
     else Returns (False, s))"
  using assms
  by (auto simp: xQueueGenericSend_def queue_send_loop.simps mutex_ok_def may_wait_def has_room_def)

lemma take_now_queue:
  assumes "take_now q s = Returns s'" "mutex_ok (queues s q)" "uxMessagesWaiting (queues s q) = 1"
  shows "queues s' q = took (pxCurrentTCB (kern s)) (queues s q)"
  using assms(1) unfolding take_now_eq [OF assms(2,3)]
  by (auto simp: pvTaskIncrementMutexHeldCount_def Let_def split: prod.splits
      dest!: yield_queues remove_waiter_queues')

lemma give_now_queue:
  assumes "queue_send_now q None pos s = Returns s'" "mutex_ok (queues s q)" "uxMessagesWaiting (queues s q) = 0"
  shows "queues s' q = gave (queues s q)" and "pxMutexHolder (queues s q) = pxCurrentTCB (kern s)"
proof -
  obtain t where t: "pxMutexHolder (queues s q) = Some t" using assms(2,3) by (auto simp: mutex_ok_def)
  obtain y k where k: "xTaskPriorityDisinherit (Some t) (kern s) = Returns (y, k)"
    using assms(1) unfolding give_now_eq [OF assms(2,3)] t
    by (cases "xTaskPriorityDisinherit (Some t) (kern s)") auto
  then show "pxMutexHolder (queues s q) = pxCurrentTCB (kern s)" unfolding t
    by (auto simp: xTaskPriorityDisinherit_def)
  show "queues s' q = gave (queues s q)"
    using assms(1) k unfolding give_now_eq [OF assms(2,3)] t
    by (auto simp: Let_def split: prod.splits if_splits dest!: yield_queues remove_waiter_queues')
qed

section \<open>Who holds a mutex\<close>

text \<open>
  Runs of takes and gives by the tasks that run at the time, with what they record: \<open>(t, True)\<close> for a
  take by \<open>t\<close> that succeeded, \<open>(t, False)\<close> for a give. Failed calls and calls on anything else, the
  waiting parts of blocking takes included, leave the mutex as it is.
\<close>

inductive mutex_run :: "nat \<Rightarrow> qsys \<Rightarrow> qsys \<Rightarrow> (task \<times> bool) list \<Rightarrow> bool" for q s0 where
  start: "mutex_run q s0 s0 []"
| take: "mutex_run q s0 s tr \<Longrightarrow> xQueueSemaphoreTake gs q 0 s = Returns (True, s') \<Longrightarrow> pxCurrentTCB (kern s) = Some t \<Longrightarrow>
     mutex_run q s0 s' (tr @ [(t, True)])"
| give: "mutex_run q s0 s tr \<Longrightarrow> xQueueGenericSend gs q None 0 queueSEND_TO_BACK s = Returns (True, s') \<Longrightarrow>
     pxCurrentTCB (kern s) = Some t \<Longrightarrow> mutex_run q s0 s' (tr @ [(t, False)])"
| other: "mutex_run q s0 s tr \<Longrightarrow> same_items (queues s q) (queues s' q) \<Longrightarrow> mutex_run q s0 s' tr"

inductive_cases mutex_run_nilE: "mutex_run q s0 s []"

text \<open>The holder a record leads to; \<open>None\<close> when it has a take of a mutex held or a give by another task.\<close>

fun holder_after :: "task option \<Rightarrow> (task \<times> bool) list \<Rightarrow> task option option" where
  "holder_after h [] = Some h"
| "holder_after h ((t, True) # tr) = (if h = None then holder_after (Some t) tr else None)"
| "holder_after h ((t, False) # tr) = (if h = Some t then holder_after None tr else None)"

lemma holder_after_snoc:
  "holder_after h (tr @ [e]) = (case holder_after h tr of None \<Rightarrow> None | Some h' \<Rightarrow> holder_after h' [e])"
  by (induction h tr rule: holder_after.induct) auto

lemma mutex_ok_took: "mutex_ok u \<Longrightarrow> mutex_ok (took (Some t) u)"
  and mutex_ok_gave: "mutex_ok u \<Longrightarrow> mutex_ok (gave u)"
  by (auto simp: mutex_ok_def took_def gave_def)

text \<open>
  C21. Mutual exclusion: in every run a mutex is taken only when nobody holds it and given back only by
  the task that took it last, and its holder field always names the task whose take has not been given
  back.
\<close>

theorem mutex_exclusion:
  assumes "mutex_run q s0 s tr" and "mutex_ok (queues s0 q)" and "q \<noteq> 0"
  shows "mutex_ok (queues s q) \<and> holder_after (pxMutexHolder (queues s0 q)) tr = Some (pxMutexHolder (queues s q))"
  using assms
proof (induction rule: mutex_run.induct)
  case (take s tr gs s' t)
  then have m: "mutex_ok (queues s q)" "uxMessagesWaiting (queues s q) = 1" "take_now q s = Returns s'"
    using take_branches [of s q gs] by (auto split: if_splits)
  then have "pxMutexHolder (queues s q) = None" by (simp add: mutex_ok_def)
  with take m take_now_queue [OF m(3,1,2)] mutex_ok_took [OF m(1), of t] show ?case
    by (simp add: holder_after_snoc took_def)
next
  case (give s tr gs s' t)
  then have m: "mutex_ok (queues s q)" "uxMessagesWaiting (queues s q) = 0"
    "queue_send_now q None queueSEND_TO_BACK s = Returns s'"
    using give_branches [of s q queueSEND_TO_BACK gs] by (auto split: if_splits)
  with give give_now_queue [OF m(3,1,2)] mutex_ok_gave [OF m(1)] show ?case
    by (simp add: holder_after_snoc gave_def)
next
  case (other s tr s')
  then show ?case using mutex_ok_same [OF other.hyps(2)] same_itemsD(6) [OF other.hyps(2)] by simp
qed simp

definition demo_mutex :: queue where
  "demo_mutex = demo_queue\<lparr>queue_is_mutex := True, uxLength := 1, uxItemSize := 0, uxMessagesWaiting := 1,
     pucQueueStorage := []\<rparr>"

definition demo_msys :: qsys where
  "demo_msys = update_queue 80 (\<lambda>_. demo_mutex) demo_sys"

lemma demo_mutex_ok: "mutex_ok (queues demo_msys 80)" "uxMessagesWaiting (queues demo_msys 80) = 1"
  "kern demo_msys = demo_kernel"
  by (simp_all add: demo_msys_def mutex_ok_def demo_mutex_def demo_queue_def)

lemma remove_waiter_none: "no_waiters e s \<Longrightarrow> remove_waiter e s = (False, s)"
  by (simp add: remove_waiter_def)

lemma queueYIELD_False [simp]: "queueYIELD_IF False s = Returns s"
  by (simp add: queueYIELD_IF_def)

text \<open>Taking when no task waits to send, which none does on a mutex.\<close>

lemma take_uncontended:
  assumes "mutex_ok (queues s q)" "uxMessagesWaiting (queues s q) = 1" "pxCurrentTCB (kern s) = Some c"
    and "no_waiters (xTasksWaitingToSend q) s"
  shows "take_now q s = Returns (update_queue q (took (Some c)) (s\<lparr>kern :=
           update_tcb c (\<lambda>d. d\<lparr>uxMutexesHeld := uxMutexesHeld d + 1\<rparr>) (kern s)\<rparr>))"
  using assms(3,4) unfolding take_now_eq [OF assms(1,2)]
  by (simp add: pvTaskIncrementMutexHeldCount_def remove_waiter_none no_waiters_def)

lemma demo_take:
  "\<exists>s. xQueueSemaphoreTake [] 80 0 demo_msys = Returns (True, s) \<and> pxMutexHolder (queues s 80) = Some 4"
  using take_branches [OF demo_mutex_ok(1), of "[]"] demo_mutex_ok
    take_uncontended [OF demo_mutex_ok(1,2), of 4] by (simp add: no_waiters_def took_def)

theorem mutex_exclusion_witness:
  "\<exists>s. xQueueSemaphoreTake [] 80 0 demo_msys = Returns (True, s)
     \<and> mutex_ok (queues s 80) \<and> holder_after None [(4, True)] = Some (pxMutexHolder (queues s 80))"
proof -
  obtain s where s: "xQueueSemaphoreTake [] 80 0 demo_msys = Returns (True, s)" using demo_take by blast
  have "mutex_run 80 demo_msys s ([] @ [(4, True)])"
    by (rule mutex_run.take [OF mutex_run.start s]) (simp add: demo_mutex_ok)
  from mutex_exclusion [OF this demo_mutex_ok(1)] s show ?thesis
    using demo_mutex_ok(1,2) by (auto simp: mutex_ok_def)
qed

section \<open>Every branch of taking and giving\<close>

text \<open>What a yield and the waking of a task leave as it was.\<close>

definition same_tcbs :: "kernel \<Rightarrow> kernel \<Rightarrow> bool" where
  "same_tcbs k k' \<longleftrightarrow> (\<forall>t. prio k' t = prio k t \<and> uxBasePriority (tcbs k' t) = uxBasePriority (tcbs k t)
     \<and> uxMutexesHeld (tcbs k' t) = uxMutexesHeld (tcbs k t))"

lemma yield_frame:
  assumes m: "mid i T k" and c: "uxSchedulerSuspended k \<noteq> 0 \<Longrightarrow> cur_ready k"
  shows "\<exists>k'. portYIELD k = Returns k' \<and> good i T k' \<and> content (klists k') = content (klists k)
     \<and> acontainer (klists k') = acontainer (klists k) \<and> same_tcbs k k'
     \<and> (uxSchedulerSuspended k = 0 \<longrightarrow> (\<forall>t p. sl k' t = Some (Ready p) \<longrightarrow> prio k' t \<le> prio k' (current k')))"
proof (cases "uxSchedulerSuspended k = 0")
  case True
  obtain k' where k': "portYIELD k = Returns k'" "good i T k'" "switch_frame k k'" using yield_switch [OF m True] by blast
  have "xYieldPending k' = False" by (rule switch_frameD(19) [OF k'(3)])
  then have "\<forall>t p. sl k' t = Some (Ready p) \<longrightarrow> prio k' t \<le> prio k' (current k')"
    using goodD(3) [OF k'(2)] by (simp add: calm_def)
  then show ?thesis using k'(1,2) switch_frameD [OF k'(3)] by (simp add: same_tcbs_def)
next
  case False
  have "portYIELD k = Returns (k\<lparr>xYieldPending := True\<rparr>)"
    using switch_suspended [OF False] by (simp add: portYIELD_def)
  moreover obtain k' where "portYIELD k = Returns k'" "good i T k'" using yield_good [OF m c] by blast
  ultimately show ?thesis using False by (auto simp: same_tcbs_def)
qed

text \<open>
  The first task waiting on list \<open>e\<close> in \<open>k\<close> has left it in \<open>k'\<close> and is ready, and if its priority is
  higher than the one the task running in \<open>k\<close> has now, a task of at least its priority runs; with the
  scheduler suspended it is pending ready. No other task has left the list.
\<close>

definition handed_over :: "nat \<Rightarrow> kernel \<Rightarrow> kernel \<Rightarrow> bool" where
  "handed_over e k k' \<longleftrightarrow> list_items k' (EventList e) = tl (list_items k (EventList e))
     \<and> (list_items k (EventList e) \<noteq> [] \<longrightarrow>
         (let t = listGET_OWNER_OF_HEAD_ENTRY k (EventList e)
          in if uxSchedulerSuspended k = 0
             then el k' t = None \<and> sl k' t = Some (Ready (unat (prio k t)))
                  \<and> (prio k t > prio k' (current k) \<longrightarrow> prio k t \<le> prio k' (current k'))
             else el k' t = Some xPendingReadyList))"

lemma event_list_without:
  assumes "placed T T k" and "list_items k (EventList e) = EventItem t # ws"
  shows "filter (\<lambda>y. y \<noteq> EventItem t) (EventItem t # ws) = ws"
  using alists_okD(1) [OF placedD(1) [OF assms(1)], of "EventList e"] unfolding assms(2) by (auto simp: filter_id_conv)

lemma event_list_state:
  assumes "placed T T k"
  shows "filter (\<lambda>y. y \<noteq> StateItem u) (list_items k (EventList e)) = list_items k (EventList e)"
  using event_listed_item [OF assms, of "EventList e"] by (auto simp: filter_id_conv)

lemma mid_wake:
  assumes m: "mid i T (kern s)" and c: "cur_ready (kern s)"
  shows "\<exists>k'. (let (y, s1) = remove_waiter e s in queueYIELD_IF y s1) = Returns (s\<lparr>kern := k'\<rparr>) \<and> mid i T k'
     \<and> handed_over e (kern s) k' \<and> same_tcbs (kern s) k'
     \<and> sl k' (current (kern s)) = sl (kern s) (current (kern s))"
proof (cases "list_items (kern s) (EventList e)")
  case Nil
  then show ?thesis using m
    by (intro exI [of _ "kern s"]) (simp add: remove_waiter_none no_waiters_def handed_over_def same_tcbs_def)
next
  case (Cons x ws)
  let ?k = "kern s"
  define t where "t = listGET_OWNER_OF_HEAD_ENTRY ?k (EventList e)"
  note pl = kinv_parts(1) [OF midD(1) [OF m]]
  have x: "x = EventItem t"
    using event_listed_item [OF pl, of "EventList e" x] Cons by (auto simp: t_def listGET_OWNER_OF_HEAD_ENTRY_def)
  have t: "el ?k t = Some (EventList e)" "t \<in> T" using event_head [OF midD(1) [OF m], of e] Cons by (simp_all add: t_def)
  let ?k1 = "uxListRemove_k (EventItem t) ?k"
  have m1: "mid i T ?k1" by (rule mid_remove_event [OF m])
  have w: "\<not> waiting ?k1 t" using midD(7) [OF m, of t] t(1) by auto
  have l1: "list_items ?k1 (EventList e) = ws"
    using event_list_without [OF pl, of e t ws] Cons x
    by (simp add: uxListRemove_k_def content_remove [OF placedD(1) [OF pl]])
  let ?k2 = "if uxSchedulerSuspended ?k1 = 0 then make_ready t ?k1
    else vListInsertEnd_k xPendingReadyList (EventItem t) ?k1"
  have m2: "mid i T ?k2" using mid_make_ready [OF m1 t(2)] mid_pend [OF m1 t(2) _ w] by simp
  have c2: "cur_ready ?k2" using c by (auto simp: cur_ready_def)
  have tc: "t \<noteq> current ?k" using midD(8) [OF m t(1)] c by (auto simp: cur_ready_def)
  have l2: "list_items ?k2 (EventList e) = ws"
    using event_list_state [OF kinv_parts(1) [OF midD(1) [OF m1]], of t e] l1
    by (simp add: make_ready_def prvAddTaskToReadyList_def Let_def vListInsertEnd_k_def content_insert_end_other
        taskRECORD_READY_PRIORITY_def uxListRemove_k_def [of "StateItem t"]
        content_remove [OF placedD(1) [OF kinv_parts(1) [OF midD(1) [OF m1]]]])
  have f2: "same_tcbs ?k ?k2" "pxCurrentTCB ?k2 = pxCurrentTCB ?k" "sl ?k2 (current ?k) = sl ?k (current ?k)"
    "uxSchedulerSuspended ?k = 0 \<longrightarrow> el ?k2 t = None \<and> sl ?k2 t = Some (Ready (unat (prio ?k t)))"
    "uxSchedulerSuspended ?k \<noteq> 0 \<longrightarrow> el ?k2 t = Some xPendingReadyList"
    using tc by (auto simp: same_tcbs_def)
  let ?h = "prio ?k t > prio ?k (current ?k)" and ?y = "?k2\<lparr>xYieldPending := True\<rparr>"
  have r: "remove_waiter e s = (?h, s\<lparr>kern := if ?h then ?y else ?k2\<rparr>)"
    using Cons unfolding remove_waiter_def no_waiters_def xTaskRemoveFromEventList_def Let_def make_ready_def t_def by simp
  show ?thesis
  proof (cases ?h)
    case True
    have "mid i T ?y" by (rule mid_same [OF m2]) simp_all
    moreover have "cur_ready ?y" using c2 by (simp add: cur_ready_def)
    ultimately obtain k' where k': "portYIELD ?y = Returns k'" "good i T k'" "content (klists k') = content (klists ?y)"
      "acontainer (klists k') = acontainer (klists ?y)" "same_tcbs ?y k'"
      "uxSchedulerSuspended ?y = 0 \<longrightarrow> (\<forall>t p. sl k' t = Some (Ready p) \<longrightarrow> prio k' t \<le> prio k' (current k'))"
      using yield_frame [of i T ?y] by blast
    have st: "same_tcbs ?k k'" using f2(1) k'(5) by (simp add: same_tcbs_def)
    have a: "acontainer (klists k') = acontainer (klists ?k2)" "content (klists k') = content (klists ?k2)"
      using k'(3,4) by simp_all
    have "prio ?k t \<le> prio k' (current k')" if "uxSchedulerSuspended ?k = 0"
    proof -
      have "sl k' t = Some (Ready (unat (prio ?k t)))" using f2(4) that by (simp only: a)
      then show ?thesis using k'(6) that st by (simp add: same_tcbs_def)
    qed
    then have "handed_over e ?k k'"
      using l2 f2(4,5) Cons by (simp only: handed_over_def a t_def [symmetric] Let_def) simp
    then show ?thesis
      using True k'(1) goodD(1) [OF k'(2)] st f2(3) unfolding r
      by (intro exI [of _ k']) (simp add: queueYIELD_IF_def a)
  next
    case False
    have "handed_over e ?k ?k2"
      using l2 f2(1,2,4,5) Cons False by (simp only: handed_over_def t_def [symmetric] Let_def) (simp add: same_tcbs_def)
    then show ?thesis using False m2 f2(1,3) unfolding r by (intro exI [of _ ?k2]) (simp add: queueYIELD_IF_def)
  qed
qed

text \<open>Disinheriting: the count goes down, and with the last mutex the priority goes back to the base.\<close>

lemma disinherit_mid:
  assumes g: "good i T k" and c: "pxCurrentTCB k = Some c" and h: "uxMutexesHeld (tcbs k c) \<noteq> 0"
  shows "\<exists>y k'. xTaskPriorityDisinherit (Some c) k = Returns (y, k') \<and> mid i T k' \<and> cur_ready k'
     \<and> uxMutexesHeld (tcbs k' c) = uxMutexesHeld (tcbs k c) - 1
     \<and> prio k' c = (if uxMutexesHeld (tcbs k c) = 1 then uxBasePriority (tcbs k c) else prio k c)
     \<and> (\<forall>t. t \<noteq> c \<longrightarrow> prio k' t = prio k t) \<and> pxCurrentTCB k' = Some c
     \<and> uxSchedulerSuspended k' = uxSchedulerSuspended k
     \<and> (\<forall>e. list_items k' (EventList e) = list_items k (EventList e))"
proof -
  let ?m = "update_tcb c (\<lambda>d. d\<lparr>uxMutexesHeld := uxMutexesHeld d - 1\<rparr>) k"
  have cT: "c \<in> T" using mid_cur [OF goodD(1) [OF g]] c by simp
  have gm: "good i T ?m" by (rule good_same [OF g]) (auto simp: update_tcb_def split: if_splits)
  have one: "uxMutexesHeld (tcbs k c) - 1 = 0 \<longleftrightarrow> uxMutexesHeld (tcbs k c) = 1" by simp
  show ?thesis
  proof (cases "prio ?m c \<noteq> uxBasePriority (tcbs ?m c) \<and> uxMutexesHeld (tcbs ?m c) = 0")
    case True
    let ?r = "uxListRemove_k (StateItem c) ?m"
    let ?a = "update_tcb c (\<lambda>d. d\<lparr>uxPriority := uxBasePriority d\<rparr>) ?r"
    let ?b = "listSET_LIST_ITEM_VALUE (EventItem c) (configMAX_PRIORITIES - prio ?a c) ?a"
    let ?k' = "prvAddTaskToReadyList c ?b"
    note m = goodD(1) [OF gm]
    have lt: "uxBasePriority (tcbs ?m c) < configMAX_PRIORITIES"
      using kinv_parts(2) [OF midD(1) [OF goodD(1) [OF g]]] cT by (simp add: prio_ok_def)
    have "kinv True (T - {c}) T ?r" by (rule kinv_remove_state [OF midD(1) [OF m]])
    then have "kinv True (T - {c}) T ?a" by (rule kinv_update_prio) (use lt in simp_all)
    then have "kinv True (T - {c}) T ?b" by (rule kinv_set_event_value)
    then have "kinv True (insert c (T - {c})) T ?k'" using cT by (intro kinv_add_ready) simp_all
    then have K: "kinv True T T ?k'" using cT by (simp add: insert_absorb)
    have f: "acontainer (klists ?k') = (acontainer (klists k))(StateItem c := Some (Ready (unat (uxBasePriority (tcbs k c)))))"
      "pxCurrentTCB ?k' = pxCurrentTCB k" "xSchedulerRunning ?k' = xSchedulerRunning k"
      "uxCurrentNumberOfTasks ?k' = uxCurrentNumberOfTasks k" "uxSchedulerSuspended ?k' = uxSchedulerSuspended k"
      "\<And>t. waiting ?k' t = waiting k t"
      by (auto simp: prvAddTaskToReadyList_def Let_def prim_defs)
    have tc: "tcbs ?k' = (tcbs k)(c := (tcbs k c)\<lparr>uxMutexesHeld := uxMutexesHeld (tcbs k c) - 1,
        uxPriority := uxBasePriority (tcbs k c)\<rparr>)" by simp
    have li: "list_items ?k' (EventList e) = list_items k (EventList e)" for e
      using event_list_state [OF kinv_parts(1) [OF midD(1) [OF goodD(1) [OF g]]], of c e]
      by (simp add: prvAddTaskToReadyList_def Let_def prim_defs content_insert_end_other
          content_remove [OF kinv_ok [OF midD(1) [OF goodD(1) [OF g]]]])
    note mk = goodD(1) [OF g]
    have ce: "\<And>e. el k c \<noteq> Some (EventList e)"
      using midD(8) [OF mk, of c] goodD(2) [OF g] c by (auto simp: cur_ready_def)
    have "mid i T ?k'"
    proof (rule mid_step [OF mk K f(2-4)])
      show "\<exists>p. sl ?k' i = Some (Ready p)" using midD(3) [OF mk] by (auto simp: f(1))
      show "el ?k' u = None" if "waiting ?k' u" for u using midD(7) [OF mk, of u] that by (auto simp: f(1) split: if_splits)
      show False if "el ?k' u = Some (EventList x)" "sl ?k' u = Some (Ready p)" for u x p
        using midD(8) [OF mk, of u x] that ce by (auto simp: f(1) split: if_splits)
      show False if "uxSchedulerSuspended ?k' = 0" "pending ?k' u" for u
        using midD(9) [OF mk, of u] that by (simp add: pending_def f(1,5))
    qed
    moreover have "cur_ready ?k'" using c by (simp add: cur_ready_def f(1,2))
    moreover have "xTaskPriorityDisinherit (Some c) k = Returns (True, ?k')"
      using c h True by (auto simp: xTaskPriorityDisinherit_def configASSERT_def Let_def)
    moreover have "uxMutexesHeld (tcbs k c) = 1" using True one by simp
    ultimately show ?thesis using f(2,5) li c
      by (intro exI [of _ True] exI [of _ ?k']) (simp only: tc, simp)
  next
    case False
    then have "xTaskPriorityDisinherit (Some c) k = Returns (False, ?m)"
      using c h by (auto simp: xTaskPriorityDisinherit_def configASSERT_def Let_def)
    moreover have "prio k c = uxBasePriority (tcbs k c)" if "uxMutexesHeld (tcbs k c) = 1"
      using False that one by auto
    ultimately show ?thesis using goodD(1,2) [OF gm] c
      by (intro exI [of _ False] exI [of _ ?m]) (auto simp: update_tcb_def)
  qed
qed

text \<open>The hand-over, seen from before the giver disinherited.\<close>

lemma handed_over_from:
  assumes h: "handed_over e k1 k'" and p: "placed T T k" and c: "\<forall>t. t \<noteq> c \<longrightarrow> prio k1 t = prio k t"
    and e: "el k c \<noteq> Some (EventList e)" and cur: "pxCurrentTCB k1 = Some c" "pxCurrentTCB k = Some c"
    and l: "list_items k1 (EventList e) = list_items k (EventList e)"
    and u: "uxSchedulerSuspended k1 = uxSchedulerSuspended k"
  shows "handed_over e k k'"
proof (cases "list_items k (EventList e)")
  case Nil
  then show ?thesis using h l by (simp add: handed_over_def)
next
  case (Cons x ws)
  have "el k (listGET_OWNER_OF_HEAD_ENTRY k (EventList e)) = Some (EventList e)"
    using event_listed_item [OF p, of "EventList e" x] Cons by (auto simp: listGET_OWNER_OF_HEAD_ENTRY_def)
  then have "listGET_OWNER_OF_HEAD_ENTRY k (EventList e) \<noteq> c" using e by auto
  then show ?thesis
    using h c by (auto simp: handed_over_def listGET_OWNER_OF_HEAD_ENTRY_def l u cur Let_def split: if_splits)
qed

lemma give_by_holder:
  assumes g: "good i T (kern s)" and c: "pxCurrentTCB (kern s) = Some c" and m: "mutex_ok (queues s q)"
    and n: "uxMessagesWaiting (queues s q) = 0" and h: "pxMutexHolder (queues s q) = Some c"
    and held: "uxMutexesHeld (tcbs (kern s) c) \<noteq> 0"
  shows "\<exists>s'. queue_send_now q None queueSEND_TO_BACK s = Returns s' \<and> mid i T (kern s')
      \<and> uxMutexesHeld (tcbs (kern s') c) = uxMutexesHeld (tcbs (kern s) c) - 1
      \<and> prio (kern s') c = (if uxMutexesHeld (tcbs (kern s) c) = 1
           then uxBasePriority (tcbs (kern s) c) else prio (kern s) c)
      \<and> sl (kern s') c = Some (Ready (unat (prio (kern s') c)))
      \<and> handed_over (xTasksWaitingToReceive q) (kern s) (kern s')"
proof -
  let ?k = "kern s" and ?e = "xTasksWaitingToReceive q"
  obtain y k1 where k1: "xTaskPriorityDisinherit (Some c) ?k = Returns (y, k1)" "mid i T k1" "cur_ready k1"
    "uxMutexesHeld (tcbs k1 c) = uxMutexesHeld (tcbs ?k c) - 1"
    "prio k1 c = (if uxMutexesHeld (tcbs ?k c) = 1 then uxBasePriority (tcbs ?k c) else prio ?k c)"
    "\<forall>t. t \<noteq> c \<longrightarrow> prio k1 t = prio ?k t" "pxCurrentTCB k1 = Some c"
    "uxSchedulerSuspended k1 = uxSchedulerSuspended ?k" "\<forall>e. list_items k1 (EventList e) = list_items ?k (EventList e)"
    using disinherit_mid [OF g c held] by blast
  have r1: "sl k1 c = Some (Ready (unat (prio k1 c)))"
    using k1(3,7) kinv_parts(3) [OF midD(1) [OF k1(2)]] by (auto simp: cur_ready_def ready_ok_def)
  have ce: "el ?k c \<noteq> Some (EventList ?e)"
    using midD(8) [OF goodD(1) [OF g], of c] goodD(2) [OF g] c by (auto simp: cur_ready_def)
  let ?s1 = "update_queue q gave (s\<lparr>kern := k1\<rparr>)"
  have e: "queue_send_now q None queueSEND_TO_BACK s = (if \<not> no_waiters ?e ?s1
      then let (z, s2) = remove_waiter ?e ?s1 in queueYIELD_IF z s2 else queueYIELD_IF y ?s1)"
    unfolding give_now_eq [OF m n] h k1(1) by simp
  have "\<exists>k2. queue_send_now q None queueSEND_TO_BACK s = Returns (?s1\<lparr>kern := k2\<rparr>) \<and> mid i T k2
      \<and> handed_over ?e k1 k2 \<and> same_tcbs k1 k2 \<and> sl k2 c = sl k1 c"
  proof (cases "no_waiters ?e ?s1")
    case True
    then have l: "list_items k1 (EventList ?e) = []" by (simp add: no_waiters_def)
    obtain k2 where k2: "portYIELD k1 = Returns k2" "good i T k2" "content (klists k2) = content (klists k1)"
      "acontainer (klists k2) = acontainer (klists k1)" "same_tcbs k1 k2" using yield_frame [OF k1(2)] k1(3) by blast
    let ?k2 = "if y then k2 else k1"
    have "queueYIELD_IF y ?s1 = Returns (?s1\<lparr>kern := ?k2\<rparr>)" using k2(1) by (cases y) (simp_all add: queueYIELD_IF_def)
    moreover have "handed_over ?e k1 ?k2" "same_tcbs k1 ?k2" "sl ?k2 c = sl k1 c" "mid i T ?k2"
      using l k2 k1(2) goodD(1) by (simp_all add: handed_over_def same_tcbs_def)
    ultimately show ?thesis unfolding e using True by (intro exI [of _ ?k2]) simp
  next
    case False
    then show ?thesis unfolding e using mid_wake [of i T ?s1 ?e] k1(2,3,7) by auto
  qed
  then obtain k2 where k2: "queue_send_now q None queueSEND_TO_BACK s = Returns (?s1\<lparr>kern := k2\<rparr>)" "mid i T k2"
    "handed_over ?e k1 k2" "same_tcbs k1 k2" "sl k2 c = sl k1 c" by blast
  have "handed_over ?e ?k k2"
    by (rule handed_over_from [OF k2(3) kinv_parts(1) [OF midD(1) [OF goodD(1) [OF g]]] k1(6) ce k1(7) c])
      (use k1(8,9) in simp_all)
  then show ?thesis using k2 k1(4,5) r1 by (intro exI [of _ "?s1\<lparr>kern := k2\<rparr>"]) (simp add: same_tcbs_def)
qed

text \<open>
  C22. What taking and giving a mutex without waiting do: a take of a free mutex succeeds, makes the
  running task its holder and counts it; a take of a held one fails and changes nothing. A give by the
  holder succeeds and frees it: the holder's count goes down, its priority goes back to the base when it
  was its last mutex, the first task waiting for the mutex, if there is one, is readied, alone, and when
  its priority is higher than the giver's is now, a task of at least that priority runs. A give of a
  free mutex fails and changes nothing; a give of a mutex that another task holds fails an assertion.
\<close>

theorem mutex_calls:
  assumes g: "good i T (kern s)" and c: "pxCurrentTCB (kern s) = Some c" and m: "mutex_ok (queues s q)" and q: "q \<noteq> 0"
  shows "(case pxMutexHolder (queues s q) of
      None \<Rightarrow> (\<exists>s'. xQueueSemaphoreTake gs q 0 s = Returns (True, s') \<and> queues s' q = took (Some c) (queues s q)
                   \<and> good i T (kern s') \<and> uxMutexesHeld (tcbs (kern s') c) = uxMutexesHeld (tcbs (kern s) c) + 1)
             \<and> xQueueGenericSend gs q None 0 queueSEND_TO_BACK s = Returns (False, s)
    | Some h \<Rightarrow> xQueueSemaphoreTake gs q 0 s = Returns (False, s)
             \<and> (h \<noteq> c \<longrightarrow> xQueueGenericSend gs q None 0 queueSEND_TO_BACK s = Asserts)
             \<and> (h = c \<and> uxMutexesHeld (tcbs (kern s) c) \<noteq> 0 \<longrightarrow>
                  (\<exists>s'. xQueueGenericSend gs q None 0 queueSEND_TO_BACK s = Returns (True, s')
                     \<and> queues s' q = gave (queues s q) \<and> mid i T (kern s')
                     \<and> uxMutexesHeld (tcbs (kern s') c) = uxMutexesHeld (tcbs (kern s) c) - 1
                     \<and> prio (kern s') c = (if uxMutexesHeld (tcbs (kern s) c) = 1
                          then uxBasePriority (tcbs (kern s) c) else prio (kern s) c)
                     \<and> sl (kern s') c = Some (Ready (unat (prio (kern s') c)))
                     \<and> handed_over (xTasksWaitingToReceive q) (kern s) (kern s'))))"
proof (cases "pxMutexHolder (queues s q)")
  case None
  then have n: "uxMessagesWaiting (queues s q) = 1" using m by (auto simp: mutex_ok_def)
  let ?k = "update_tcb c (\<lambda>d. d\<lparr>uxMutexesHeld := uxMutexesHeld d + 1\<rparr>) (kern s)"
  let ?s1 = "update_queue q (took (Some c)) (s\<lparr>kern := ?k\<rparr>)"
  have gk: "good i T ?k" by (rule good_same [OF g]) (auto simp: update_tcb_def split: if_splits)
  obtain k' where k': "(let (y, s3) = remove_waiter (xTasksWaitingToSend q) ?s1 in queueYIELD_IF y s3)
      = Returns (?s1\<lparr>kern := k'\<rparr>)" "same_tcbs ?k k'"
    using mid_wake [of i T ?s1] goodD(1,2) [OF gk] by auto
  obtain k2 where k2: "(let (y, s3) = remove_waiter (xTasksWaitingToSend q) ?s1 in queueYIELD_IF y s3)
      = Returns (?s1\<lparr>kern := k2\<rparr>)" "good i T k2"
    using remove_then_yield_good [of i T ?s1] gk by auto
  have "kern (?s1\<lparr>kern := k2\<rparr>) = kern (?s1\<lparr>kern := k'\<rparr>)"
    using k'(1) k2(1) by (simp only: outcome.inject)
  then have gk': "good i T k'" using k2(2) by simp
  have "take_now q s = Returns (?s1\<lparr>kern := k'\<rparr>)"
    unfolding take_now_eq [OF m n] using c k'(1) by (simp add: pvTaskIncrementMutexHeldCount_def)
  then show ?thesis using None n k'(2) gk' take_branches [OF m q] give_branches [OF m q] by (simp add: same_tcbs_def)
next
  case (Some h)
  then have n: "uxMessagesWaiting (queues s q) = 0" using m by (auto simp: mutex_ok_def)
  have bad: "queue_send_now q None queueSEND_TO_BACK s = Asserts" if "h \<noteq> c"
    unfolding give_now_eq [OF m n] Some using that c by (simp add: xTaskPriorityDisinherit_def configASSERT_def)
  have "\<exists>s'. queue_send_now q None queueSEND_TO_BACK s = Returns s' \<and> queues s' q = gave (queues s q) \<and> mid i T (kern s')
      \<and> uxMutexesHeld (tcbs (kern s') c) = uxMutexesHeld (tcbs (kern s) c) - 1
      \<and> prio (kern s') c = (if uxMutexesHeld (tcbs (kern s) c) = 1
           then uxBasePriority (tcbs (kern s) c) else prio (kern s) c)
      \<and> sl (kern s') c = Some (Ready (unat (prio (kern s') c)))
      \<and> handed_over (xTasksWaitingToReceive q) (kern s) (kern s')"
    if h: "h = c" "uxMutexesHeld (tcbs (kern s) c) \<noteq> 0"
    using give_by_holder [OF g c m n _ h(2)] Some h(1) give_now_queue(1) [OF _ m n] by blast
  then show ?thesis using Some n bad take_branches [OF m q] give_branches [OF m q] by auto
qed

theorem mutex_calls_witness:
  "\<exists>s. xQueueSemaphoreTake [] 80 0 demo_msys = Returns (True, s) \<and> pxMutexHolder (queues s 80) = Some 4
     \<and> good 0 {0, 4, 8} (kern s)"
  using mutex_calls [of 0 "{0, 4, 8}" demo_msys 4 80 "[]"] demo_good demo_mutex_ok
  by (auto simp: mutex_ok_def took_def)

section \<open>Recursive mutexes\<close>

fun recursive_takes :: "nat \<Rightarrow> nat \<Rightarrow> qsys \<Rightarrow> qsys outcome" where
  "recursive_takes 0 q s = Returns s"
| "recursive_takes (Suc n) q s =
     obind (xQueueTakeMutexRecursive [] q 0 s) (\<lambda>(ok, s1). if ok then recursive_takes n q s1 else Asserts)"

fun recursive_gives :: "nat \<Rightarrow> nat \<Rightarrow> qsys \<Rightarrow> qsys outcome" where
  "recursive_gives 0 q s = Returns s"
| "recursive_gives (Suc n) q s =
     obind (xQueueGiveMutexRecursive q s) (\<lambda>(ok, s1). if ok then recursive_gives n q s1 else Asserts)"

definition counted :: "nat \<Rightarrow> nat \<Rightarrow> qsys \<Rightarrow> qsys" where
  "counted q n s = update_queue q (\<lambda>u. u\<lparr>uxRecursiveCallCount := of_nat n\<rparr>) s"

lemma counted_counted [simp]: "counted q m (counted q n s) = counted q m s"
  by (simp add: counted_def)

lemma counted_fields [simp]:
  "kern (counted q n s) = kern s" "queues (counted q n s) q = (queues s q)\<lparr>uxRecursiveCallCount := of_nat n\<rparr>"
  by (simp_all add: counted_def)

lemma counted_same: "uxRecursiveCallCount (queues s q) = of_nat n \<Longrightarrow> counted q n s = s"
  by (cases s) (simp add: counted_def update_queue_def fun_upd_idem)

lemma held_takes:
  assumes "pxMutexHolder (queues s q) = pxCurrentTCB (kern s)" "q \<noteq> 0"
  shows "recursive_takes n q (counted q j s) = Returns (counted q (j + n) s)"
proof (induction n arbitrary: j)
  case (Suc n)
  have "xQueueTakeMutexRecursive [] q 0 (counted q j s) = Returns (True, counted q (Suc j) s)"
    using assms by (simp add: xQueueTakeMutexRecursive_def xTaskGetCurrentTaskHandle_def counted_def add.commute)
  then show ?case using Suc.IH [of "Suc j"] by simp
qed simp

lemma held_gives:
  assumes "pxMutexHolder (queues s q) = pxCurrentTCB (kern s)" "q \<noteq> 0" "j + n < 2 ^ 32" "0 < j"
  shows "recursive_gives n q (counted q (j + n) s) = Returns (counted q j s)"
  using assms(3)
proof (induction n)
  case (Suc n)
  have ne: "(of_nat (j + n) :: u32) \<noteq> 0"
  proof
    assume z: "(of_nat (j + n) :: u32) = 0"
    have "unat (of_nat (j + n) :: u32) = j + n" by (rule unat_of_nat_small) (use Suc.prems in simp)
    then show False unfolding z using assms(4) by simp
  qed
  have "xQueueGiveMutexRecursive q (counted q (j + Suc n) s) = Returns (True, counted q (j + n) s)"
    using assms(1,2) ne by (simp add: xQueueGiveMutexRecursive_def xTaskGetCurrentTaskHandle_def counted_def)
  then show ?case using Suc by simp
qed simp

lemma recursive_gives_snoc:
  "recursive_gives (Suc n) q s = obind (recursive_gives n q s) (\<lambda>s1. recursive_gives 1 q s1)"
proof (induction n arbitrary: s)
  case (Suc n)
  then show ?case
    by (cases "xQueueGiveMutexRecursive q s") (auto split: prod.splits if_splits)
qed simp

definition held_by :: "nat \<Rightarrow> task \<Rightarrow> qsys \<Rightarrow> qsys" where
  "held_by q c s = update_queue q (took (Some c))
     (s\<lparr>kern := update_tcb c (\<lambda>d. d\<lparr>uxMutexesHeld := uxMutexesHeld d + 1\<rparr>) (kern s)\<rparr>)"

lemma held_by_fields [simp]:
  "kern (held_by q c s) = update_tcb c (\<lambda>d. d\<lparr>uxMutexesHeld := uxMutexesHeld d + 1\<rparr>) (kern s)"
  "queues (held_by q c s) q = took (Some c) (queues s q)"
  by (simp_all add: held_by_def)

lemma take_recursive_free:
  assumes m: "mutex_ok (queues s q)" "uxMessagesWaiting (queues s q) = 1" and q: "q \<noteq> 0"
    and c: "pxCurrentTCB (kern s) = Some c" and w: "no_waiters (xTasksWaitingToSend q) s"
    and z: "uxRecursiveCallCount (queues s q) = 0"
  shows "xQueueTakeMutexRecursive [] q 0 s = Returns (True, counted q 1 (held_by q c s))"
proof -
  have "pxMutexHolder (queues s q) = None" using m by (auto simp: mutex_ok_def)
  then show ?thesis
    using take_branches [OF m(1) q, of "[]"] take_uncontended [OF m c w] m(2) c q z
    by (simp add: xQueueTakeMutexRecursive_def xTaskGetCurrentTaskHandle_def held_by_def counted_def update_queue_def took_def)
qed

lemma give_last:
  assumes m: "mutex_ok (queues s q)" "uxMessagesWaiting (queues s q) = 1" and q: "q \<noteq> 0"
    and c: "pxCurrentTCB (kern s) = Some c" and w: "no_waiters (xTasksWaitingToReceive q) s"
    and z: "uxRecursiveCallCount (queues s q) = 0"
    and b: "uxPriority (tcbs (kern s) c) = uxBasePriority (tcbs (kern s) c)" and h: "uxMutexesHeld (tcbs (kern s) c) \<noteq> -1"
  shows "xQueueGiveMutexRecursive q (counted q 1 (held_by q c s)) = Returns (True, s)"
proof -
  let ?s0 = "counted q 0 (held_by q c s)"
  have m0: "mutex_ok (queues ?s0 q)" "uxMessagesWaiting (queues ?s0 q) = 0"
    using m mutex_ok_took [OF m(1), of c] by (simp_all add: took_def mutex_ok_def)
  have p: "pxMutexHolder (queues ?s0 q) = Some c" by (simp add: took_def)
  have ne: "uxMutexesHeld (tcbs (kern s) c) + 1 \<noteq> 0" using h by (metis add_eq_0_iff2)
  have d: "xTaskPriorityDisinherit (Some c) (kern ?s0) = Returns (False, kern s)"
    using c b ne
    by (cases "kern s") (simp add: xTaskPriorityDisinherit_def configASSERT_def Let_def update_tcb_def fun_upd_idem)
  have r: "update_queue q gave (?s0\<lparr>kern := kern s\<rparr>) = s"
    using m z by (cases s, cases "queues s q")
      (auto simp: counted_def held_by_def update_queue_def took_def gave_def fun_eq_iff mutex_ok_def)
  have "queue_send_now q None queueSEND_TO_BACK ?s0 = Returns s"
    unfolding give_now_eq [OF m0] p d using w r by simp
  then have "xQueueGenericSend [] q None 0 queueSEND_TO_BACK ?s0 = Returns (True, s)"
    using give_branches [OF m0(1) q, of queueSEND_TO_BACK] m0(2) by simp
  moreover have "update_queue q (\<lambda>u. u\<lparr>uxRecursiveCallCount := uxRecursiveCallCount u - 1\<rparr>) (counted q 1 (held_by q c s)) = ?s0"
    by (simp add: counted_def update_queue_def)
  ultimately show ?thesis
    using q c by (simp add: xQueueGiveMutexRecursive_def xTaskGetCurrentTaskHandle_def took_def)
qed

text \<open>
  C23. A free recursive mutex taken \<open>n + 1\<close> times by the running task stays held through the next
  \<open>n\<close> gives and is free only after the last; then the whole state is what it was before the first
  take. No take or give waits or lets another task run when no task waits for the mutex.
\<close>

theorem recursive_mutex_balanced:
  assumes m: "mutex_ok (queues s q)" "uxMessagesWaiting (queues s q) = 1" and q: "q \<noteq> 0"
    and c: "pxCurrentTCB (kern s) = Some c"
    and w: "no_waiters (xTasksWaitingToSend q) s" "no_waiters (xTasksWaitingToReceive q) s"
    and z: "uxRecursiveCallCount (queues s q) = 0"
    and b: "uxPriority (tcbs (kern s) c) = uxBasePriority (tcbs (kern s) c)" "uxMutexesHeld (tcbs (kern s) c) \<noteq> -1"
    and n: "Suc n < 2 ^ 32"
  shows "\<exists>s1 s2. recursive_takes (Suc n) q s = Returns s1 \<and> recursive_gives n q s1 = Returns s2
     \<and> pxMutexHolder (queues s2 q) = Some c \<and> recursive_gives (Suc n) q s1 = Returns s"
proof -
  let ?h = "held_by q c s"
  have h: "pxMutexHolder (queues ?h q) = pxCurrentTCB (kern ?h)" using c by (simp add: took_def)
  have t: "recursive_takes (Suc n) q s = Returns (counted q (1 + n) ?h)"
    using held_takes [OF h q, of n 1] take_recursive_free [OF m q c w(1) z] by simp
  have g: "recursive_gives n q (counted q (1 + n) ?h) = Returns (counted q 1 ?h)"
    by (rule held_gives [OF h q]) (use n in simp_all)
  moreover have "recursive_gives (Suc n) q (counted q (1 + n) ?h) = Returns s"
    unfolding recursive_gives_snoc g using give_last [OF m q c w(2) z b] by simp
  ultimately show ?thesis using t by (intro exI [of _ "counted q (1 + n) ?h"] exI [of _ "counted q 1 ?h"]) (simp add: took_def)
qed

theorem recursive_mutex_balanced_witness:
  "\<exists>s1 s2. recursive_takes (Suc 2) 80 demo_msys = Returns s1 \<and> recursive_gives 2 80 s1 = Returns s2
     \<and> pxMutexHolder (queues s2 80) = Some 4 \<and> recursive_gives (Suc 2) 80 s1 = Returns demo_msys"
proof -
  have z: "uxRecursiveCallCount (queues demo_msys 80) = 0"
    by (simp add: demo_msys_def demo_mutex_def demo_queue_def)
  show ?thesis
    by (rule recursive_mutex_balanced [OF demo_mutex_ok(1,2) _ _ _ _ z]) (simp_all add: demo_mutex_ok no_waiters_def)
qed

end
