(* ===== verification/Loops.thy ===== *)
theory Loops
  imports Prelude
begin

text \<open>
  Loops of the code whose body may fail an assertion. \<open>orepeat b s\<close> runs the body \<open>b\<close> until it says
  that it was the last time; it is \<open>None\<close> when that never happens, which \<open>ojoin\<close> turns into \<open>Diverges\<close>.
\<close>

fun ojoin :: "'a outcome option \<Rightarrow> 'a outcome" where
  "ojoin (Some r) = r"
| "ojoin None = Diverges"

partial_function (option) orepeat :: "('s \<Rightarrow> (bool \<times> 's) outcome) \<Rightarrow> 's \<Rightarrow> 's outcome option" where
  "orepeat b s =
     (case b s of
        Returns r \<Rightarrow> (if fst r then orepeat b (snd r) else Some (Returns (snd r)))
      | Asserts \<Rightarrow> Some Asserts
      | Diverges \<Rightarrow> Some Diverges)"

lemma orepeat_stop: "b s = Returns (False, s') \<Longrightarrow> orepeat b s = Some (Returns s')"
  by (simp add: orepeat.simps)

lemma orepeat_step: "b s = Returns (True, s') \<Longrightarrow> orepeat b s = orepeat b s'"
  by (subst orepeat.simps) simp

lemma orepeat_Asserts: "b s = Asserts \<Longrightarrow> orepeat b s = Some Asserts"
  by (simp add: orepeat.simps)

text \<open>Termination by a measure, with an invariant: the loop fails an assertion or ends.\<close>

lemma orepeat_ends:
  assumes "P s"
    and step: "\<And>s. P s \<Longrightarrow> b s = Asserts \<or> (\<exists>s'. b s = Returns (False, s') \<and> Q s')
                 \<or> (\<exists>s'. b s = Returns (True, s') \<and> P s' \<and> (f s' :: nat) < f s)"
  shows "orepeat b s = Some Asserts \<or> (\<exists>s'. orepeat b s = Some (Returns s') \<and> Q s')"
  using assms(1)
proof (induction "f s" arbitrary: s rule: less_induct)
  case less
  from step [OF less.prems] show ?case
    by (elim disjE exE conjE) (auto simp: orepeat_Asserts orepeat_stop orepeat_step dest: less.hyps)
qed

text \<open>Runs that never diverge, whatever they assert.\<close>

definition ends :: "'a outcome \<Rightarrow> bool" where
  "ends r \<longleftrightarrow> r \<noteq> Diverges"

lemma ends_simps [simp]: "ends (Returns x)" "ends Asserts"
  by (simp_all add: ends_def)

lemma ends_assert [simp, intro]: "ends r \<Longrightarrow> ends (configASSERT c r)"
  by (simp add: configASSERT_def)

lemma ends_bind [intro]: "ends r \<Longrightarrow> (\<And>x. r = Returns x \<Longrightarrow> ends (f x)) \<Longrightarrow> ends (obind r f)"
  by (cases r) (auto simp: ends_def)

end
