(* ===== verification/Event_Groups.thy ===== *)
theory Event_Groups
  imports Tasks_Spec Heap4 Loops
begin

text \<open>
  The event groups of \<open>event_groups.c\<close>: tasks wait for bits of a group to be set, for all of them or
  for any, and clear them when they go on or not; \<open>xEventGroupSync\<close> is a rendezvous.

  A group is found by its address. The event list of the group at \<open>g\<close> is the event list \<open>2 * g + 2\<close> of
  \<open>Tasks\<close>: addresses are multiples of 4 and the lists of a queue at \<open>q\<close> are \<open>2 * q\<close> and \<open>2 * q + 1\<close>.
  What a task waits for is the value of its event item: the bits, and the control bits above them. A
  call that yields gives way to other tasks: what they do until it runs again is an argument.
\<close>

section \<open>Data\<close>

definition eventCLEAR_EVENTS_ON_EXIT_BIT :: u32 where "eventCLEAR_EVENTS_ON_EXIT_BIT = 0x01000000"
definition eventUNBLOCKED_DUE_TO_BIT_SET :: u32 where "eventUNBLOCKED_DUE_TO_BIT_SET = 0x02000000"
definition eventWAIT_FOR_ALL_BITS :: u32 where "eventWAIT_FOR_ALL_BITS = 0x04000000"
definition eventEVENT_BITS_CONTROL_BYTES :: u32 where "eventEVENT_BITS_CONTROL_BYTES = 0xff000000"

record event_group =
  uxEventBits :: u32

record evsys =
  ekern :: kernel
  groups :: "nat \<Rightarrow> event_group"

text \<open>\<open>sizeof( EventGroup_t )\<close>: the bits and a \<open>List_t\<close> of five words.\<close>

definition sizeof_EventGroup_t :: u32 where "sizeof_EventGroup_t = 24"

definition xTasksWaitingForBits :: "nat \<Rightarrow> nat" where "xTasksWaitingForBits g = 2 * g + 2"

definition update_bits :: "nat \<Rightarrow> (u32 \<Rightarrow> u32) \<Rightarrow> evsys \<Rightarrow> evsys" where
  "update_bits g f s = s\<lparr>groups := (groups s)(g := (groups s g)\<lparr>uxEventBits := f (uxEventBits (groups s g))\<rparr>)\<rparr>"

abbreviation group_bits :: "evsys \<Rightarrow> nat \<Rightarrow> u32" where
  "group_bits s g \<equiv> uxEventBits (groups s g)"

section \<open>Creation and the operations that do not wait\<close>

definition xEventGroupCreate ::
  "(heap4 \<Rightarrow> heap4 outcome) \<Rightarrow> heap4 \<Rightarrow> evsys \<Rightarrow> (nat \<times> heap4 \<times> evsys) outcome" where
  "xEventGroupCreate hook h s =
     obind (pvPortMalloc hook sizeof_EventGroup_t h) (\<lambda>(g, h1).
       if g \<noteq> 0
       then let s1 = update_bits g (\<lambda>_. 0) s
            in Returns (g, h1, s1\<lparr>ekern := (ekern s1)\<lparr>klists := a_init (EventList (xTasksWaitingForBits g)) (klists (ekern s1))\<rparr>\<rparr>)
       else Returns (0, h1, s))"

definition prvTestWaitCondition :: "u32 \<Rightarrow> u32 \<Rightarrow> bool \<Rightarrow> bool" where
  "prvTestWaitCondition uxCurrentEventBits uxBitsToWaitFor xWaitForAllBits =
     (if \<not> xWaitForAllBits then (uxCurrentEventBits AND uxBitsToWaitFor) \<noteq> 0
      else (uxCurrentEventBits AND uxBitsToWaitFor) = uxBitsToWaitFor)"

definition xEventGroupClearBits :: "nat \<Rightarrow> u32 \<Rightarrow> evsys \<Rightarrow> (u32 \<times> evsys) outcome" where
  "xEventGroupClearBits g uxBitsToClear s =
     configASSERT (g \<noteq> 0) (configASSERT (uxBitsToClear AND eventEVENT_BITS_CONTROL_BYTES = 0)
       (Returns (group_bits s g, update_bits g (\<lambda>b. b AND NOT uxBitsToClear) s)))"

definition xEventGroupGetBitsFromISR :: "nat \<Rightarrow> evsys \<Rightarrow> u32" where
  "xEventGroupGetBitsFromISR g s = group_bits s g"

section \<open>Setting bits\<close>

text \<open>\<open>listGET_HEAD_ENTRY\<close> and \<open>listGET_NEXT\<close>; \<open>None\<close> is the end marker.\<close>

definition listGET_HEAD_ENTRY_k :: "kernel \<Rightarrow> tlist \<Rightarrow> titem option" where
  "listGET_HEAD_ENTRY_k k l = (case list_items k l of [] \<Rightarrow> None | x # xs \<Rightarrow> Some x)"

definition listGET_NEXT_k :: "kernel \<Rightarrow> tlist \<Rightarrow> titem \<Rightarrow> titem option" where
  "listGET_NEXT_k k l x = (case dropWhile (\<lambda>y. y \<noteq> x) (list_items k l) of y # z # ys \<Rightarrow> Some z | _ \<Rightarrow> None)"

text \<open>Whether the bits set satisfy the wait that an event item value describes.\<close>

definition xMatchFound :: "u32 \<Rightarrow> tick \<Rightarrow> bool" where
  "xMatchFound bits v =
     (let uxControlBits = v AND eventEVENT_BITS_CONTROL_BYTES;
          uxBitsWaitedFor = v AND NOT eventEVENT_BITS_CONTROL_BYTES
      in if uxControlBits AND eventWAIT_FOR_ALL_BITS = 0 then (uxBitsWaitedFor AND bits) \<noteq> 0
         else (uxBitsWaitedFor AND bits) = uxBitsWaitedFor)"

definition bits_to_clear :: "tick \<Rightarrow> u32" where
  "bits_to_clear v =
     (if v AND eventEVENT_BITS_CONTROL_BYTES AND eventCLEAR_EVENTS_ON_EXIT_BIT \<noteq> 0
      then v AND NOT eventEVENT_BITS_CONTROL_BYTES else 0)"

text \<open>
  The walk over the waiting tasks: \<open>px\<close> is \<open>pxListItem\<close>, and \<open>pxNext\<close> is read before the item may be
  taken off the list. The result is \<open>uxBitsToClear\<close>.
\<close>

partial_function (option) set_bits_loop :: "nat \<Rightarrow> titem option \<Rightarrow> u32 \<Rightarrow> evsys \<Rightarrow> (u32 \<times> evsys) outcome option" where
  "set_bits_loop g px uxBitsToClear s =
     (case px of None \<Rightarrow> Some (Returns (uxBitsToClear, s))
      | Some x \<Rightarrow>
          let pxNext = listGET_NEXT_k (ekern s) (EventList (xTasksWaitingForBits g)) x;
              v = listGET_LIST_ITEM_VALUE (ekern s) x
          in if xMatchFound (group_bits s g) v
             then (case vTaskRemoveFromUnorderedEventList (item_owner x)
                          (group_bits s g OR eventUNBLOCKED_DUE_TO_BIT_SET) (ekern s) of
                     Returns k \<Rightarrow> set_bits_loop g pxNext (uxBitsToClear OR bits_to_clear v) (s\<lparr>ekern := k\<rparr>)
                   | Asserts \<Rightarrow> Some Asserts | Diverges \<Rightarrow> Some Diverges)
             else set_bits_loop g pxNext uxBitsToClear s)"

text \<open>The part with the scheduler suspended, and the call; the bits are read again when it returns.\<close>

definition set_bits_suspended :: "nat \<Rightarrow> u32 \<Rightarrow> evsys \<Rightarrow> evsys outcome" where
  "set_bits_suspended g uxBitsToSet s =
     (let px = listGET_HEAD_ENTRY_k (ekern s) (EventList (xTasksWaitingForBits g));
          s1 = update_bits g (\<lambda>b. b OR uxBitsToSet) (s\<lparr>ekern := vTaskSuspendAll (ekern s)\<rparr>)
      in obind (ojoin (set_bits_loop g px 0 s1)) (\<lambda>(uxBitsToClear, s2).
           Returns (update_bits g (\<lambda>b. b AND NOT uxBitsToClear) s2)))"

definition xEventGroupSetBits :: "(evsys \<Rightarrow> evsys) \<Rightarrow> nat \<Rightarrow> u32 \<Rightarrow> evsys \<Rightarrow> (u32 \<times> evsys) outcome" where
  "xEventGroupSetBits others g uxBitsToSet s =
     configASSERT (g \<noteq> 0) (configASSERT (uxBitsToSet AND eventEVENT_BITS_CONTROL_BYTES = 0)
       (obind (set_bits_suspended g uxBitsToSet s) (\<lambda>s1.
        obind (xTaskResumeAll (ekern s1)) (\<lambda>(already, k).
        let s2 = (if already then others (s1\<lparr>ekern := k\<rparr>) else s1\<lparr>ekern := k\<rparr>)
        in Returns (group_bits s2 g, s2)))))"

section \<open>Waiting\<close>

text \<open>
  The end of the calls that have put the running task on the event list: resume the scheduler, yield
  unless it has yielded, and when the task runs again read why. \<open>timed_out\<close> is the critical section of
  a wait that no set ended.
\<close>

definition wait_for_wake ::
  "(evsys \<Rightarrow> evsys) \<Rightarrow> (evsys \<Rightarrow> u32 \<times> evsys) \<Rightarrow> evsys \<Rightarrow> (u32 \<times> evsys) outcome" where
  "wait_for_wake others timed_out s =
     obind (xTaskResumeAll (ekern s)) (\<lambda>(already, k).
     obind (if \<not> already then portYIELD k else Returns k) (\<lambda>k1.
     let s1 = others (s\<lparr>ekern := k1\<rparr>);
         (v, k2) = uxTaskResetEventItemValue (ekern s1);
         s2 = s1\<lparr>ekern := k2\<rparr>;
         (r, s3) = (if v AND eventUNBLOCKED_DUE_TO_BIT_SET = 0 then timed_out s2 else (v, s2))
     in Returns (r AND NOT eventEVENT_BITS_CONTROL_BYTES, s3)))"

definition xEventGroupWaitBits ::
  "(evsys \<Rightarrow> evsys) \<Rightarrow> nat \<Rightarrow> u32 \<Rightarrow> bool \<Rightarrow> bool \<Rightarrow> tick \<Rightarrow> evsys \<Rightarrow> (u32 \<times> evsys) outcome" where
  "xEventGroupWaitBits others g uxBitsToWaitFor xClearOnExit xWaitForAllBits xTicksToWait s =
     configASSERT (g \<noteq> 0)
    (configASSERT (uxBitsToWaitFor AND eventEVENT_BITS_CONTROL_BYTES = 0)
    (configASSERT (uxBitsToWaitFor \<noteq> 0)
    (configASSERT (\<not> (xTaskGetSchedulerState (ekern s) = taskSCHEDULER_SUSPENDED \<and> xTicksToWait \<noteq> 0))
       (let s1 = s\<lparr>ekern := vTaskSuspendAll (ekern s)\<rparr>;
            bits = group_bits s1 g;
            clear = (\<lambda>s. if xClearOnExit then update_bits g (\<lambda>b. b AND NOT uxBitsToWaitFor) s else s)
        in if prvTestWaitCondition bits uxBitsToWaitFor xWaitForAllBits
           then obind (xTaskResumeAll (ekern (clear s1))) (\<lambda>(already, k). Returns (bits, (clear s1)\<lparr>ekern := k\<rparr>))
           else if xTicksToWait = 0
           then obind (xTaskResumeAll (ekern s1)) (\<lambda>(already, k). Returns (bits, s1\<lparr>ekern := k\<rparr>))
           else let control = (if xClearOnExit then eventCLEAR_EVENTS_ON_EXIT_BIT else 0)
                              OR (if xWaitForAllBits then eventWAIT_FOR_ALL_BITS else 0)
                in obind (vTaskPlaceOnUnorderedEventList (xTasksWaitingForBits g) (uxBitsToWaitFor OR control)
                            xTicksToWait (ekern s1)) (\<lambda>k.
                   wait_for_wake others
                     (\<lambda>s2. let r = group_bits s2 g
                           in (r, if prvTestWaitCondition r uxBitsToWaitFor xWaitForAllBits then clear s2 else s2))
                     (s1\<lparr>ekern := k\<rparr>))))))"

definition xEventGroupSync ::
  "(evsys \<Rightarrow> evsys) \<Rightarrow> nat \<Rightarrow> u32 \<Rightarrow> u32 \<Rightarrow> tick \<Rightarrow> evsys \<Rightarrow> (u32 \<times> evsys) outcome" where
  "xEventGroupSync others g uxBitsToSet uxBitsToWaitFor xTicksToWait s =
     configASSERT (uxBitsToWaitFor AND eventEVENT_BITS_CONTROL_BYTES = 0)
    (configASSERT (uxBitsToWaitFor \<noteq> 0)
    (configASSERT (\<not> (xTaskGetSchedulerState (ekern s) = taskSCHEDULER_SUSPENDED \<and> xTicksToWait \<noteq> 0))
       (let s1 = s\<lparr>ekern := vTaskSuspendAll (ekern s)\<rparr>;
            original = group_bits s1 g;
            clear = update_bits g (\<lambda>b. b AND NOT uxBitsToWaitFor)
        in obind (xEventGroupSetBits id g uxBitsToSet s1) (\<lambda>(r, s2).
           if (original OR uxBitsToSet) AND uxBitsToWaitFor = uxBitsToWaitFor
           then let s3 = clear s2
                in obind (xTaskResumeAll (ekern s3)) (\<lambda>(already, k).
                     Returns (original OR uxBitsToSet, s3\<lparr>ekern := k\<rparr>))
           else if xTicksToWait \<noteq> 0
           then obind (vTaskPlaceOnUnorderedEventList (xTasksWaitingForBits g)
                         (uxBitsToWaitFor OR eventCLEAR_EVENTS_ON_EXIT_BIT OR eventWAIT_FOR_ALL_BITS)
                         xTicksToWait (ekern s2)) (\<lambda>k.
                wait_for_wake others
                  (\<lambda>s3. let r = group_bits s3 g
                        in (r, if r AND uxBitsToWaitFor = uxBitsToWaitFor then clear s3 else s3))
                  (s2\<lparr>ekern := k\<rparr>))
           else obind (xTaskResumeAll (ekern s2)) (\<lambda>(already, k).
                  Returns (group_bits s2 g, s2\<lparr>ekern := k\<rparr>))))))"

section \<open>Deletion and pended calls\<close>

partial_function (option) delete_loop :: "nat \<Rightarrow> kernel \<Rightarrow> kernel outcome option" where
  "delete_loop g k =
     (case list_items k (EventList (xTasksWaitingForBits g)) of [] \<Rightarrow> Some (Returns k)
      | x # xs \<Rightarrow>
          (case vTaskRemoveFromUnorderedEventList (item_owner x) eventUNBLOCKED_DUE_TO_BIT_SET k of
             Returns k1 \<Rightarrow> delete_loop g k1
           | Asserts \<Rightarrow> Some Asserts | Diverges \<Rightarrow> Some Diverges))"

definition vEventGroupDelete :: "nat \<Rightarrow> heap4 \<Rightarrow> evsys \<Rightarrow> (heap4 \<times> evsys) outcome" where
  "vEventGroupDelete g h s =
     obind (ojoin (delete_loop g (vTaskSuspendAll (ekern s)))) (\<lambda>k1.
     obind (vPortFree g h) (\<lambda>h1.
     obind (xTaskResumeAll k1) (\<lambda>(already, k2). Returns (h1, s\<lparr>ekern := k2\<rparr>))))"

definition vEventGroupSetBitsCallback :: "(evsys \<Rightarrow> evsys) \<Rightarrow> nat \<Rightarrow> u32 \<Rightarrow> evsys \<Rightarrow> evsys outcome" where
  "vEventGroupSetBitsCallback others pvEventGroup ulBitsToSet s =
     obind (xEventGroupSetBits others pvEventGroup ulBitsToSet s) (\<lambda>(r, s1). Returns s1)"

definition vEventGroupClearBitsCallback :: "nat \<Rightarrow> u32 \<Rightarrow> evsys \<Rightarrow> evsys outcome" where
  "vEventGroupClearBitsCallback pvEventGroup ulBitsToClear s =
     obind (xEventGroupClearBits pvEventGroup ulBitsToClear s) (\<lambda>(r, s1). Returns s1)"

end
