(* ===== verification/Event_Groups_Spec.thy ===== *)
theory Event_Groups_Spec
  imports Event_Groups
begin

text \<open>
  What setting bits of an event group does: exactly the tasks whose wait the bits satisfy are readied,
  each told the bits it was woken by, and the bits they clear on exit are cleared once, after all of
  them have seen them. A wait returns the bits that ended it.
\<close>

section \<open>Waking one waiting task\<close>

abbreviation event_value :: "kernel \<Rightarrow> task \<Rightarrow> tick" where
  "event_value k t \<equiv> listGET_LIST_ITEM_VALUE k (EventItem t)"

text \<open>\<open>k'\<close> is \<open>k\<close> with the tasks \<open>W\<close> woken from the list \<open>l\<close>, told \<open>v\<close>.\<close>

definition told :: "(task \<Rightarrow> bool) \<Rightarrow> tick \<Rightarrow> kernel \<Rightarrow> titem \<Rightarrow> tick" where
  "told W v k x = (case x of EventItem t \<Rightarrow> if W t then v else event_value k t | StateItem t \<Rightarrow> dval k t)"

definition woken_from :: "tlist \<Rightarrow> (task \<Rightarrow> bool) \<Rightarrow> tick \<Rightarrow> kernel \<Rightarrow> kernel \<Rightarrow> bool" where
  "woken_from l W v k k' \<longleftrightarrow>
     acontainer (klists k') = readied W k \<and> avalue (klists k') = told W v k
   \<and> list_items k' l = filter (\<lambda>x. \<not> W (item_owner x)) (list_items k l)
   \<and> tcbs k' = tcbs k \<and> pxCurrentTCB k' = pxCurrentTCB k
   \<and> uxSchedulerSuspended k' = uxSchedulerSuspended k \<and> uxPendedTicks k' = uxPendedTicks k"

lemma woken_fromD:
  assumes "woken_from l W v k k'"
  shows "acontainer (klists k') = readied W k" "avalue (klists k') = told W v k"
    "list_items k' l = filter (\<lambda>x. \<not> W (item_owner x)) (list_items k l)"
    "tcbs k' = tcbs k" "pxCurrentTCB k' = pxCurrentTCB k"
    "uxSchedulerSuspended k' = uxSchedulerSuspended k" "uxPendedTicks k' = uxPendedTicks k"
  using assms by (simp_all add: woken_from_def)

lemma woken_from_none: "woken_from l (\<lambda>t. False) v k k"
  by (auto simp: woken_from_def readied_none told_def fun_eq_iff split: titem.split)

lemma woken_from_trans:
  assumes 1: "woken_from l P v k k1" and 2: "woken_from l Q v k1 k2"
  shows "woken_from l (\<lambda>t. P t \<or> Q t) v k k2"
  using woken_fromD [OF 1] woken_fromD [OF 2] readied_readied [of k1 k P Q]
  by (auto simp: woken_from_def told_def fun_eq_iff split: titem.split)

lemma woken_from_cong: "(\<And>t. P t = Q t) \<Longrightarrow> woken_from l P v k k' = woken_from l Q v k k'"
proof -
  assume "\<And>t. P t = Q t"
  then have "P = Q" by (rule ext)
  then show ?thesis by simp
qed

lemma add_ready_content: "l \<noteq> Ready (unat (prio k t)) \<Longrightarrow> list_items (prvAddTaskToReadyList t k) l = list_items k l"
  by (simp add: prvAddTaskToReadyList_def Let_def prim_defs content_insert_end_other)

lemma set_event_value_good:
  assumes g: "good i T k"
  shows "good i T (listSET_LIST_ITEM_VALUE (EventItem t) v k)"
proof -
  let ?k = "listSET_LIST_ITEM_VALUE (EventItem t) v k"
  have "mid i T ?k"
    by (rule mid_step [OF goodD(1) [OF g] kinv_set_event_value [OF midD(1) [OF goodD(1) [OF g]]]])
      (use midD [OF goodD(1) [OF g]] in \<open>auto simp: pending_def\<close>)
  then show ?thesis using goodD(2,3) [OF g] by (simp add: good_def cur_ready_def calm_def)
qed

lemma wake_unordered:
  assumes g: "good i T k" and u: "uxSchedulerSuspended k \<noteq> 0" and e: "el k t = Some (EventList e)"
  shows "\<exists>k'. vTaskRemoveFromUnorderedEventList t v k = Returns k' \<and> good i T k'
     \<and> woken_from (EventList e) (\<lambda>u. u = t) (v OR taskEVENT_LIST_ITEM_VALUE_IN_USE) k k'"
proof -
  let ?k1 = "listSET_LIST_ITEM_VALUE (EventItem t) (v OR taskEVENT_LIST_ITEM_VALUE_IN_USE) k"
  let ?k2 = "uxListRemove_k (EventItem t) ?k1"
  let ?k3 = "make_ready t ?k2"
  let ?k' = "if prio k t > prio k (current k) then ?k3\<lparr>xYieldPending := True\<rparr> else ?k3"
  note kv = midD(1) [OF goodD(1) [OF g]]
  have t: "t \<in> T" using placedD(4) [OF kinv_parts(1) [OF kv] e] .
  have g2: "good i T ?k2" by (intro good_remove_event set_event_value_good g)
  have "good i T ?k'" using good_ready_pend [OF g2 t] by simp
  moreover have "vTaskRemoveFromUnorderedEventList t v k = Returns ?k'"
    using u unfolding vTaskRemoveFromUnorderedEventList_def Let_def make_ready_def configASSERT_def by simp
  moreover have ok2: "alists_ok (klists ?k2)" using kinv_ok [OF midD(1) [OF goodD(1) [OF g2]]] .
  have "list_items ?k3 (EventList e) = filter (\<lambda>x. item_owner x \<noteq> t) (list_items k (EventList e))"
  proof -
    have "list_items ?k3 (EventList e) = list_items (uxListRemove_k (StateItem t) ?k2) (EventList e)"
      unfolding make_ready_def by (rule add_ready_content) simp
    also have "\<dots> = filter (\<lambda>y. y \<noteq> StateItem t) (list_items ?k2 (EventList e))"
      by (simp add: uxListRemove_k_def [of "StateItem t"] content_remove [OF ok2])
    also have "list_items ?k2 (EventList e) = filter (\<lambda>y. y \<noteq> EventItem t) (list_items k (EventList e))"
      using content_remove [OF kinv_ok [OF kinv_set_event_value [OF kv]], where x = "EventItem t"]
      by (simp add: uxListRemove_k_def)
    also have "filter (\<lambda>y. y \<noteq> StateItem t) \<dots> = filter (\<lambda>x. item_owner x \<noteq> t) (list_items k (EventList e))"
    proof -
      have "\<exists>u. x = EventItem u" if "x \<in> set (list_items k (EventList e))" for x
        using event_listed_item [OF kinv_parts(1) [OF kv] _ that] by auto
      then show ?thesis unfolding filter_filter by (intro filter_cong) fastforce+
    qed
    finally show ?thesis .
  qed
  then have "woken_from (EventList e) (\<lambda>u. u = t) (v OR taskEVENT_LIST_ITEM_VALUE_IN_USE) k ?k3"
    by (auto simp: woken_from_def told_def readied_def fun_eq_iff make_ready_def prvAddTaskToReadyList_def Let_def
        taskRECORD_READY_PRIORITY_def vListInsertEnd_k_def split: titem.split)
  then have "woken_from (EventList e) (\<lambda>u. u = t) (v OR taskEVENT_LIST_ITEM_VALUE_IN_USE) k ?k'"
    by (simp add: woken_from_def)
  ultimately show ?thesis by blast
qed


section \<open>The walk over the waiting tasks\<close>

lemma next_in_list:
  assumes "list_items k l = ys @ x # xs" and "x \<notin> set ys"
  shows "listGET_NEXT_k k l x = (case xs of [] \<Rightarrow> None | y # zs \<Rightarrow> Some y)"
proof -
  have "dropWhile (\<lambda>y. y \<noteq> x) (ys @ x # xs) = x # xs"
    using assms(2) by (induction ys) auto
  then show ?thesis by (simp add: listGET_NEXT_k_def assms(1) split: list.split)
qed

definition first :: "'a list \<Rightarrow> 'a option" where
  "first xs = (case xs of [] \<Rightarrow> None | x # _ \<Rightarrow> Some x)"

lemma first_simps [simp]: "first [] = None" "first (x # xs) = Some x"
  by (simp_all add: first_def)

fun clears :: "u32 \<Rightarrow> tick list \<Rightarrow> u32" where
  "clears b [] = 0"
| "clears b (v # vs) = (if xMatchFound b v then bits_to_clear v OR clears b vs else clears b vs)"

text \<open>The loop from the item where \<open>xs\<close> begins, none of the items \<open>ys\<close> before it matching.\<close>

lemma set_bits_walk:
  assumes "good i T (ekern s)" and "uxSchedulerSuspended (ekern s) \<noteq> 0"
    and "list_items (ekern s) (EventList (xTasksWaitingForBits g)) = ys @ xs"
  shows "\<exists>k'. set_bits_loop g (first xs) c s =
       Some (Returns (c OR clears (group_bits s g) (map (avalue (klists (ekern s))) xs), s\<lparr>ekern := k'\<rparr>))
     \<and> good i T k'
     \<and> woken_from (EventList (xTasksWaitingForBits g))
         (\<lambda>t. EventItem t \<in> set xs \<and> xMatchFound (group_bits s g) (event_value (ekern s) t))
         ((group_bits s g OR eventUNBLOCKED_DUE_TO_BIT_SET) OR taskEVENT_LIST_ITEM_VALUE_IN_USE) (ekern s) k'"
  using assms
proof (induction xs arbitrary: ys c s)
  case Nil
  then show ?case using woken_from_none by (intro exI [of _ "ekern s"]) (simp add: set_bits_loop.simps)
next
  case (Cons x xs)
  let ?k = "ekern s" and ?l = "EventList (xTasksWaitingForBits g)" and ?b = "group_bits s g"
  let ?v = "(?b OR eventUNBLOCKED_DUE_TO_BIT_SET) OR taskEVENT_LIST_ITEM_VALUE_IN_USE"
  note kv = midD(1) [OF goodD(1) [OF Cons.prems(1)]]
  have d: "distinct (ys @ x # xs)" using alists_okD(1) [OF kinv_ok [OF kv], of ?l] Cons.prems(3) by simp
  obtain t where t: "x = EventItem t" "el ?k t = Some ?l"
    using event_listed_item [OF kinv_parts(1) [OF kv], of ?l x] Cons.prems(3) by auto
  have nx: "listGET_NEXT_k ?k ?l x = first xs"
    using next_in_list [OF Cons.prems(3)] d by (simp add: first_def)
  show ?case
  proof (cases "xMatchFound ?b (avalue (klists ?k) x)")
    case True
    obtain k1 where k1: "vTaskRemoveFromUnorderedEventList t (?b OR eventUNBLOCKED_DUE_TO_BIT_SET) ?k = Returns k1"
      "good i T k1" "woken_from ?l (\<lambda>u. u = t) ?v ?k k1"
      using wake_unordered [OF Cons.prems(1,2) t(2)] by blast
    note w = woken_fromD [OF k1(3)]
    let ?s1 = "s\<lparr>ekern := k1\<rparr>"
    have own: "item_owner y \<noteq> t" if "y \<in> set (ys @ xs)" for y
    proof -
      have "y \<in> set (list_items ?k ?l)" "y \<noteq> x" using that d Cons.prems(3) by auto
      then show ?thesis using event_listed_item [OF kinv_parts(1) [OF kv], of ?l y] t(1) by auto
    qed
    have l1: "list_items k1 ?l = ys @ xs"
      using own unfolding w(3) Cons.prems(3) by (simp add: t(1) filter_id_conv)
    have v1: "map (avalue (klists k1)) xs = map (avalue (klists ?k)) xs"
      using own unfolding w(2) told_def by (fastforce split: titem.splits)
    obtain k' where k': "set_bits_loop g (first xs) (c OR bits_to_clear (avalue (klists ?k) x)) ?s1 =
        Some (Returns (c OR bits_to_clear (avalue (klists ?k) x) OR clears ?b (map (avalue (klists ?k)) xs), s\<lparr>ekern := k'\<rparr>))"
      "good i T k'" "woken_from ?l (\<lambda>u. EventItem u \<in> set xs \<and> xMatchFound ?b (event_value k1 u)) ?v k1 k'"
    proof -
      have p: "good i T (ekern ?s1)" "uxSchedulerSuspended (ekern ?s1) \<noteq> 0" "list_items (ekern ?s1) ?l = ys @ xs"
        using k1(2) w(6) Cons.prems(2) l1 by simp_all
      show ?thesis using Cons.IH [OF p, of "c OR bits_to_clear (avalue (klists ?k) x)"] that v1 by (simp add: or.assoc) blast
    qed
    have "set_bits_loop g (first (x # xs)) c s =
        set_bits_loop g (first xs) (c OR bits_to_clear (avalue (klists ?k) x)) ?s1"
      using True nx k1(1) unfolding first_simps t(1) by (subst set_bits_loop.simps) (simp add: Let_def)
    moreover have "woken_from ?l (\<lambda>u. EventItem u \<in> set (x # xs) \<and> xMatchFound ?b (event_value ?k u)) ?v ?k k'"
    proof -
      have "event_value k1 u = event_value ?k u" if "EventItem u \<in> set xs" for u
        using own [of "EventItem u"] that unfolding w(2) told_def by simp
      then show ?thesis using woken_from_trans [OF k1(3) k'(3)] True t(1)
        by (elim subst [OF woken_from_cong, rotated]) auto
    qed
    ultimately show ?thesis using k'(1,2) True by (intro exI [of _ k']) (simp add: or.assoc)
  next
    case False
    have "set_bits_loop g (first (x # xs)) c s = set_bits_loop g (first xs) c s"
      using False nx unfolding first_simps t(1) by (subst set_bits_loop.simps) (simp add: Let_def)
    moreover have "(\<lambda>u. EventItem u \<in> set (x # xs) \<and> xMatchFound ?b (event_value ?k u))
        = (\<lambda>u. EventItem u \<in> set xs \<and> xMatchFound ?b (event_value ?k u))"
      using False t(1) by auto
    ultimately show ?thesis using Cons.IH [of s "ys @ [x]" c] Cons.prems False by simp
  qed
qed

section \<open>Setting bits\<close>

text \<open>Resuming a scheduler with no ticks pended: tasks that are not pending stay where they are.\<close>

lemma resume_all_track:
  assumes g: "good i T k" and u: "uxSchedulerSuspended k = 1" and p: "uxPendedTicks k = 0"
  shows "\<exists>b k'. xTaskResumeAll k = Returns (b, k') \<and> good i T k'
     \<and> (\<forall>t. \<not> pending k t \<longrightarrow> sl k' t = sl k t \<and> el k' t = el k t) \<and> avalue (klists k') = avalue (klists k)"
proof -
  note m = goodD(1) [OF g]
  obtain b k' where k': "xTaskResumeAll k = Returns (b, k')" "good i T k'"
    using resume_all_good [OF m] u goodD(2,3) [OF g] by auto
  obtain E' k3 where r: "resumed 0 k E' k3" "kinv True T T k3"
    "xTaskResumeAll k = (if xYieldPending k3 then obind (portYIELD k3) (\<lambda>k2. Returns (True, k2)) else Returns (False, k3))"
    using resume_all_last [OF midD(1) [OF m] u midD(6) [OF m], of 0] by blast
  have nw: "\<not> woken 0 k 0 t" for t using wake_later_than_now [OF midD(1) [OF m], of 0 t] by (auto simp: woken_def)
  have k3: "avalue (klists k3) = avalue (klists k)" "uxSchedulerSuspended k3 = 0"
    "\<And>t. \<not> pending k t \<Longrightarrow> sl k3 t = sl k t \<and> el k3 t = el k t"
    using r(1) p nw unfolding resumed_def by (simp_all add: readied_def)
  obtain k4 where k4: "portYIELD k3 = Returns k4" "switch_frame k3 k4"
    using yield_switch [OF mid_resumed [OF m r(1,2)] k3(2)] by blast
  have "k' = k3 \<or> k' = k4" using k'(1) r(3) k4(1) by (simp split: if_splits)
  then show ?thesis using k' k3 switch_frameD(2,3) [OF k4(2)] by auto
qed

lemma clears_bit: "bit (clears b vs) n \<longleftrightarrow> (\<exists>v\<in>set vs. xMatchFound b v \<and> bit (bits_to_clear v) n)"
  by (induction vs) (auto simp: bit_or_iff)

lemma set_bits_suspended_effect:
  fixes g :: nat and bits :: u32
  assumes g: "good i T (ekern s)" and u: "uxSchedulerSuspended (ekern s) + 1 \<noteq> 0"
  defines "b \<equiv> group_bits s g OR bits"
  defines "W \<equiv> \<lambda>t. el (ekern s) t = Some (EventList (xTasksWaitingForBits g)) \<and> xMatchFound b (event_value (ekern s) t)"
  shows "\<exists>s1. set_bits_suspended g bits s = Returns s1 \<and> good i T (ekern s1)
     \<and> woken_from (EventList (xTasksWaitingForBits g)) W
         ((b OR eventUNBLOCKED_DUE_TO_BIT_SET) OR taskEVENT_LIST_ITEM_VALUE_IN_USE) (vTaskSuspendAll (ekern s)) (ekern s1)
     \<and> (\<forall>n. bit (group_bits s1 g) n \<longleftrightarrow>
            bit b n \<and> \<not> (\<exists>t. W t \<and> bit (bits_to_clear (event_value (ekern s) t)) n))"
proof -
  let ?l = "EventList (xTasksWaitingForBits g)" and ?k = "vTaskSuspendAll (ekern s)"
  let ?s1 = "update_bits g (\<lambda>b. b OR bits) (s\<lparr>ekern := ?k\<rparr>)"
  let ?xs = "list_items (ekern s) ?l"
  note kv = midD(1) [OF goodD(1) [OF g]]
  have gk: "good i T (ekern ?s1)"
    using mid_suspend_all [OF goodD(1) [OF g] u] goodD(2,3) [OF g] by (simp add: update_bits_def good_def)
  have s1: "ekern ?s1 = ?k" "group_bits ?s1 g = b" "list_items (ekern ?s1) ?l = [] @ ?xs"
    "avalue (klists (ekern ?s1)) = avalue (klists (ekern s))"
    by (simp_all add: update_bits_def b_def)
  have "uxSchedulerSuspended (ekern ?s1) \<noteq> 0" using u by (simp add: update_bits_def)
  from set_bits_walk [OF gk this s1(3), of 0] obtain k' where
    k': "set_bits_loop g (first ?xs) 0 ?s1 = Some (Returns (clears b (map (avalue (klists (ekern s))) ?xs), ?s1\<lparr>ekern := k'\<rparr>))"
      "good i T k'"
      "woken_from ?l (\<lambda>t. EventItem t \<in> set ?xs \<and> xMatchFound b (event_value (ekern s) t))
         ((b OR eventUNBLOCKED_DUE_TO_BIT_SET) OR taskEVENT_LIST_ITEM_VALUE_IN_USE) ?k k'"
    unfolding s1(2,4) s1(1) by auto
  have mem: "EventItem t \<in> set ?xs \<longleftrightarrow> el (ekern s) t = Some ?l" for t
    using alists_ok_mem [OF kinv_ok [OF kv]] .
  have W: "woken_from ?l W ((b OR eventUNBLOCKED_DUE_TO_BIT_SET) OR taskEVENT_LIST_ITEM_VALUE_IN_USE) ?k k'"
    using k'(3) unfolding mem W_def .
  have vs: "(\<exists>v\<in>set (map (avalue (klists (ekern s))) ?xs). P v) \<longleftrightarrow> (\<exists>t. el (ekern s) t = Some ?l \<and> P (event_value (ekern s) t))" for P
    using event_listed_item [OF kinv_parts(1) [OF kv], of ?l] mem by fastforce
  let ?s2 = "update_bits g (\<lambda>c. c AND NOT (clears b (map (avalue (klists (ekern s))) ?xs))) (?s1\<lparr>ekern := k'\<rparr>)"
  have "listGET_HEAD_ENTRY_k (ekern s) ?l = first ?xs" by (simp add: listGET_HEAD_ENTRY_k_def first_def)
  then have "set_bits_suspended g bits s = Returns ?s2"
    unfolding set_bits_suspended_def Let_def using k'(1) by simp
  moreover have "bit (group_bits ?s2 g) n \<longleftrightarrow> bit b n \<and> \<not> (\<exists>t. W t \<and> bit (bits_to_clear (event_value (ekern s) t)) n)" for n
  proof -
    have "bit (clears b (map (avalue (klists (ekern s))) ?xs)) n \<longleftrightarrow> (\<exists>t. W t \<and> bit (bits_to_clear (event_value (ekern s) t)) n)"
      unfolding clears_bit vs W_def by blast
    then show ?thesis using s1(2)
      by (auto simp: update_bits_def bit_and_iff bit_not_iff dest: bit_imp_le_length)
  qed
  moreover have "ekern ?s2 = k'" by (simp add: update_bits_def)
  ultimately show ?thesis using k'(2) W by (intro exI [of _ ?s2]) simp
qed

text \<open>
  C24. Setting bits of an event group while the scheduler runs wakes exactly the waiting tasks whose
  wait the bits then set satisfy: each is ready at its priority, on no event list, and finds the bits
  that woke it in its event item; every other task stays as it was. All waits are tested against the
  same bits; what the woken tasks clear on exit is cleared from the group after that. The call returns
  the bits of the group at the end, and a woken task of higher priority runs before it returns.
\<close>

theorem xEventGroupSetBits_wakes:
  fixes g :: nat and bits :: u32
  assumes G: "good i T (ekern s)" and u: "uxSchedulerSuspended (ekern s) = 0" "uxPendedTicks (ekern s) = 0"
    and a: "g \<noteq> 0" "bits AND eventEVENT_BITS_CONTROL_BYTES = 0"
  defines "b \<equiv> group_bits s g OR bits"
  defines "W \<equiv> \<lambda>t. el (ekern s) t = Some (EventList (xTasksWaitingForBits g)) \<and> xMatchFound b (event_value (ekern s) t)"
  shows "\<exists>s1 already s2. xEventGroupSetBits others g bits s = Returns (group_bits s2 g, s2)
     \<and> s2 = (if already then others s1 else s1) \<and> good i T (ekern s1)
     \<and> (\<forall>t. W t \<longrightarrow> el (ekern s1) t = None \<and> sl (ekern s1) t = Some (Ready (unat (prio (ekern s) t)))
           \<and> event_value (ekern s1) t = (b OR eventUNBLOCKED_DUE_TO_BIT_SET) OR taskEVENT_LIST_ITEM_VALUE_IN_USE)
     \<and> (\<forall>t. \<not> W t \<longrightarrow> el (ekern s1) t = el (ekern s) t \<and> sl (ekern s1) t = sl (ekern s) t
           \<and> event_value (ekern s1) t = event_value (ekern s) t)
     \<and> (\<forall>n. bit (group_bits s1 g) n \<longleftrightarrow>
            bit b n \<and> \<not> (\<exists>t. W t \<and> bit (bits_to_clear (event_value (ekern s) t)) n))"
proof -
  let ?v = "(b OR eventUNBLOCKED_DUE_TO_BIT_SET) OR taskEVENT_LIST_ITEM_VALUE_IN_USE"
  have "uxSchedulerSuspended (ekern s) + 1 \<noteq> 0" using u by simp
  from set_bits_suspended_effect [OF G this, of g bits, folded b_def, folded W_def] obtain s1 where
    s1: "set_bits_suspended g bits s = Returns s1" "good i T (ekern s1)"
      "woken_from (EventList (xTasksWaitingForBits g)) W ?v (vTaskSuspendAll (ekern s)) (ekern s1)"
      "\<And>n. bit (group_bits s1 g) n \<longleftrightarrow> bit b n \<and> \<not> (\<exists>t. W t \<and> bit (bits_to_clear (event_value (ekern s) t)) n)"
    unfolding b_def W_def by blast
  note w = woken_fromD [OF s1(3)]
  have p1: "uxSchedulerSuspended (ekern s1) = 1" "uxPendedTicks (ekern s1) = 0"
    unfolding w(6,7) using u by (simp_all add: vTaskSuspendAll_def)
  obtain al k' where k': "xTaskResumeAll (ekern s1) = Returns (al, k')" "good i T k'"
    "\<And>t. \<not> pending (ekern s1) t \<Longrightarrow> sl k' t = sl (ekern s1) t \<and> el k' t = el (ekern s1) t"
    "avalue (klists k') = avalue (klists (ekern s1))"
    using resume_all_track [OF s1(2) p1] by blast
  have np: "\<not> pending (ekern s1) t" for t
    using midD(9) [OF goodD(1) [OF G] u(1), of t] unfolding pending_def w(1) by (simp add: readied_def)
  let ?s = "s1\<lparr>ekern := k'\<rparr>"
  have "xEventGroupSetBits others g bits s = Returns (group_bits (if al then others ?s else ?s) g, if al then others ?s else ?s)"
    using a s1(1) k'(1) by (simp add: xEventGroupSetBits_def Let_def)
  moreover have "el k' t = None \<and> sl k' t = Some (Ready (unat (prio (ekern s) t))) \<and> event_value k' t = ?v" if "W t" for t
    using that k'(3) [OF np] unfolding k'(4) w(1,2) by (simp add: readied_def told_def)
  moreover have "el k' t = el (ekern s) t \<and> sl k' t = sl (ekern s) t \<and> event_value k' t = event_value (ekern s) t"
    if "\<not> W t" for t
    using that k'(3) [OF np] unfolding k'(4) w(1,2) by (simp add: readied_def told_def)
  ultimately show ?thesis using k'(2) s1(4)
    by (intro exI [of _ ?s] exI [of _ al] exI [of _ "if al then others ?s else ?s"]) simp
qed

section \<open>Waiting for bits\<close>

lemma unordered_wait_placed:
  assumes g: "good i T k" and a: "may_block i k" and w: "\<not> waiting k c" and n: "n \<noteq> 0" and cc: "pxCurrentTCB k = Some c"
  shows "\<exists>k3. vTaskPlaceOnUnorderedEventList e v n (vTaskSuspendAll k) = Returns k3
     \<and> mid i T k3 \<and> uxSchedulerSuspended k3 = 1 \<and> uxPendedTicks k3 = uxPendedTicks k
     \<and> el k3 c = Some (EventList e) \<and> sl k3 c = Some (delay_list n True k3)
     \<and> event_value k3 c = v OR taskEVENT_LIST_ITEM_VALUE_IN_USE"
proof -
  have s: "uxSchedulerSuspended k = 0" "c \<noteq> i" using a cc by (simp_all add: may_block_def)
  let ?k0 = "vTaskSuspendAll k"
  let ?k1 = "listSET_LIST_ITEM_VALUE (EventItem c) (v OR taskEVENT_LIST_ITEM_VALUE_IN_USE) ?k0"
  let ?k2 = "vListInsertEnd_k (EventList e) (EventItem c) ?k1"
  let ?k3 = "prvAddCurrentTaskToDelayedList n True ?k2"
  have m: "mid i T ?k0" by (rule mid_suspend_all [OF goodD(1) [OF g]]) (simp add: s)
  have cT: "c \<in> T" using mid_cur [OF goodD(1) [OF g]] cc by simp
  have e: "el ?k1 c = None" using running_no_event [OF g s(1)] cc by simp
  have k2: "kinv True T T ?k2" by (intro inv_intros midD(1) [OF m] cT e) simp
  have c2: "pxCurrentTCB ?k2 = Some c" using cc by simp
  note d = delay_current [OF c2, of n True]
  have p0: "uxPendedTicks ?k0 = uxPendedTicks k" by (simp add: vTaskSuspendAll_def)
  have f: "xSchedulerRunning ?k2 = xSchedulerRunning ?k0"
    "uxCurrentNumberOfTasks ?k2 = uxCurrentNumberOfTasks ?k0" by (simp_all add: prim_defs)
  have "mid i T ?k3"
  proof (rule mid_step [OF m])
    show "kinv True T T ?k3" by (rule kinv_delay_current [OF k2 c2 cT n])
    show "\<exists>p. sl ?k3 i = Some (Ready p)" using midD(3) [OF m] s(2) by (auto simp: d)
    show "el ?k3 u = None" if "waiting ?k3 u" for u
      using midD(7) [OF m, of u] that w by (auto simp: d split: if_splits)
    show False if "el ?k3 u = Some (EventList x)" "sl ?k3 u = Some (Ready p)" for u x p
      using midD(8) [OF m, of u x] that delay_list_not_ready [OF k2, of n True]
      by (auto simp: d split: if_splits)
    show False if "uxSchedulerSuspended ?k3 = 0" for u using that by (simp add: d s)
  qed (use cc in \<open>simp_all add: d f\<close>)
  moreover have "vTaskPlaceOnUnorderedEventList e v n ?k0 = Returns ?k3"
    using s cc by (simp add: vTaskPlaceOnUnorderedEventList_def Let_def)
  moreover have "sl ?k3 c = Some (delay_list n True ?k3)" by (auto simp: d delay_list_def)
  moreover have "event_value ?k3 c = v OR taskEVENT_LIST_ITEM_VALUE_IN_USE" by (simp add: d)
  ultimately show ?thesis using p0 by (intro exI [of _ ?k3]) (simp add: d f s)
qed

text \<open>The value a wait is encoded as, and what setting bits reads from it.\<close>

lemma control_bits [simp]:
  "bit eventEVENT_BITS_CONTROL_BYTES n \<longleftrightarrow> 24 \<le> n \<and> n < 32"
proof -
  have "eventEVENT_BITS_CONTROL_BYTES = push_bit 24 (mask 8)"
    by (simp add: eventEVENT_BITS_CONTROL_BYTES_def mask_eq_exp_minus_1 push_bit_eq_mult)
  then have "bit eventEVENT_BITS_CONTROL_BYTES n \<longleftrightarrow> bit (push_bit 24 (mask 8) :: u32) n" by simp
  then show ?thesis unfolding bit_push_bit_iff bit_mask_iff by auto
qed

lemma flag_powers:
  "eventCLEAR_EVENTS_ON_EXIT_BIT = 2 ^ 24" "eventUNBLOCKED_DUE_TO_BIT_SET = 2 ^ 25"
  "eventWAIT_FOR_ALL_BITS = 2 ^ 26" "taskEVENT_LIST_ITEM_VALUE_IN_USE = 2 ^ 31"
  by (simp_all add: eventCLEAR_EVENTS_ON_EXIT_BIT_def eventUNBLOCKED_DUE_TO_BIT_SET_def
      eventWAIT_FOR_ALL_BITS_def taskEVENT_LIST_ITEM_VALUE_IN_USE_def)

lemma bit_flags [simp]:
  "bit eventCLEAR_EVENTS_ON_EXIT_BIT n \<longleftrightarrow> n = 24" "bit eventUNBLOCKED_DUE_TO_BIT_SET n \<longleftrightarrow> n = 25"
  "bit eventWAIT_FOR_ALL_BITS n \<longleftrightarrow> n = 26" "bit taskEVENT_LIST_ITEM_VALUE_IN_USE n \<longleftrightarrow> n = 31"
  unfolding flag_powers bit_exp_iff by auto

lemma test_flags [simp]:
  "v AND eventCLEAR_EVENTS_ON_EXIT_BIT = 0 \<longleftrightarrow> \<not> bit v 24" "v AND eventUNBLOCKED_DUE_TO_BIT_SET = 0 \<longleftrightarrow> \<not> bit v 25"
  "v AND eventWAIT_FOR_ALL_BITS = 0 \<longleftrightarrow> \<not> bit v 26"
  unfolding flag_powers by (rule and_exp_eq_0_iff_not_bit)+

lemma event_bits_low: "b AND eventEVENT_BITS_CONTROL_BYTES = 0 \<Longrightarrow> bit b n \<Longrightarrow> n < 24"
proof (rule ccontr)
  assume b: "b AND eventEVENT_BITS_CONTROL_BYTES = 0" "bit b n" "\<not> n < 24"
  have "bit (b AND eventEVENT_BITS_CONTROL_BYTES) n"
    using b(2,3) bit_imp_le_length [OF b(2)] by (simp add: bit_and_iff)
  then show False unfolding b(1) by simp
qed

definition wait_value :: "u32 \<Rightarrow> bool \<Rightarrow> bool \<Rightarrow> tick" where
  "wait_value bits clear all =
     (bits OR ((if clear then eventCLEAR_EVENTS_ON_EXIT_BIT else 0) OR (if all then eventWAIT_FOR_ALL_BITS else 0)))
     OR taskEVENT_LIST_ITEM_VALUE_IN_USE"

lemma wait_value_parts:
  assumes "bits AND eventEVENT_BITS_CONTROL_BYTES = 0"
  shows "wait_value bits clear all AND NOT eventEVENT_BITS_CONTROL_BYTES = bits"
    "bit (wait_value bits clear all) 24 = clear" "bit (wait_value bits clear all) 25 = False"
    "bit (wait_value bits clear all) 26 = all"
proof -
  show "wait_value bits clear all AND NOT eventEVENT_BITS_CONTROL_BYTES = bits"
  proof (rule bit_word_eqI)
    fix n assume n: "n < LENGTH(32)"
    then show "bit (wait_value bits clear all AND NOT eventEVENT_BITS_CONTROL_BYTES) n = bit bits n"
      using event_bits_low [OF assms, of n] by (auto simp: wait_value_def bit_and_iff bit_or_iff bit_not_iff)
  qed
qed (use event_bits_low [OF assms, of 24] event_bits_low [OF assms, of 25] event_bits_low [OF assms, of 26]
    in \<open>auto simp: wait_value_def bit_or_iff\<close>)

lemma wait_value_read:
  assumes "bits AND eventEVENT_BITS_CONTROL_BYTES = 0"
  shows "xMatchFound b (wait_value bits clear all) = prvTestWaitCondition b bits all"
    "bits_to_clear (wait_value bits clear all) = (if clear then bits else 0)"
proof -
  have c: "bit (v AND eventEVENT_BITS_CONTROL_BYTES) 26 = bit v 26" "bit (v AND eventEVENT_BITS_CONTROL_BYTES) 24 = bit v 24"
    for v by (simp_all add: bit_and_iff)
  show "xMatchFound b (wait_value bits clear all) = prvTestWaitCondition b bits all"
    unfolding xMatchFound_def Let_def test_flags c wait_value_parts [OF assms]
    by (simp add: prvTestWaitCondition_def and.commute)
  show "bits_to_clear (wait_value bits clear all) = (if clear then bits else 0)"
    using c(2) wait_value_parts [OF assms] by (simp add: bits_to_clear_def and.assoc [symmetric])
qed

lemma read_event_value:
  "pxCurrentTCB k = Some c \<Longrightarrow> fst (uxTaskResetEventItemValue k) = event_value k c"
  by (simp add: uxTaskResetEventItemValue_def)

lemma wait_for_wake_eq:
  assumes r: "obind (xTaskResumeAll (ekern s)) (\<lambda>(already, k). if \<not> already then portYIELD k else Returns k) = Returns k1"
    and s1: "s1 = others (s\<lparr>ekern := k1\<rparr>)" "pxCurrentTCB (ekern s1) = Some c"
  shows "wait_for_wake others f s =
    (let s2 = s1\<lparr>ekern := snd (uxTaskResetEventItemValue (ekern s1))\<rparr>; v = event_value (ekern s1) c;
         (r, s3) = (if bit v 25 then (v, s2) else f s2)
     in Returns (r AND NOT eventEVENT_BITS_CONTROL_BYTES, s3))"
proof -
  obtain already k where k: "xTaskResumeAll (ekern s) = Returns (already, k)"
    "(if \<not> already then portYIELD k else Returns k) = Returns k1"
    using r by (cases "xTaskResumeAll (ekern s)") (auto split: prod.splits)
  obtain v k2 where v: "uxTaskResetEventItemValue (ekern s1) = (v, k2)" by (cases "uxTaskResetEventItemValue (ekern s1)")
  then have "v = event_value (ekern s1) c" using read_event_value [OF s1(2)] by simp
  then show ?thesis
    unfolding wait_for_wake_def k(1) obind.simps prod.case k(2) Let_def s1(1) [symmetric] v snd_conv
    by (simp add: if_distrib split: if_splits prod.splits)
qed

text \<open>
  C25. A task that waits for bits that are not set blocks: another task runs, and the task is on the
  event list of the group with a value that encodes its wait, so that setting bits tests just its
  condition and clears just what it asked to be cleared. When it runs again it returns the bits that
  woke it, without the control bits; when the wait ended otherwise it returns the bits set by then, and
  clears them only when they satisfy its condition and it asked for that.
\<close>

theorem xEventGroupWaitBits_wait:
  fixes g :: nat
  assumes G: "good i T (ekern s)" and c: "pxCurrentTCB (ekern s) = Some c" and m: "may_block i (ekern s)"
    and w: "\<not> waiting (ekern s) c" "uxPendedTicks (ekern s) = 0"
    and a: "g \<noteq> 0" "bits AND eventEVENT_BITS_CONTROL_BYTES = 0" "bits \<noteq> 0" "n \<noteq> 0"
    and f: "\<not> prvTestWaitCondition (group_bits s g) bits all"
  shows "\<exists>k1. good i T k1 \<and> current k1 \<noteq> c \<and> el k1 c = Some (EventList (xTasksWaitingForBits g))
     \<and> (\<forall>b. xMatchFound b (event_value k1 c) = prvTestWaitCondition b bits all)
     \<and> bits_to_clear (event_value k1 c) = (if clear then bits else 0)
     \<and> (\<forall>s2. s2 = others (s\<lparr>ekern := k1\<rparr>) \<and> pxCurrentTCB (ekern s2) = Some c \<longrightarrow>
          (\<forall>b. b AND eventEVENT_BITS_CONTROL_BYTES = 0
             \<and> event_value (ekern s2) c = (b OR eventUNBLOCKED_DUE_TO_BIT_SET) OR taskEVENT_LIST_ITEM_VALUE_IN_USE \<longrightarrow>
               (\<exists>k. xEventGroupWaitBits others g bits clear all n s = Returns (b, s2\<lparr>ekern := k\<rparr>)))
        \<and> (event_value (ekern s2) c = event_value k1 c \<longrightarrow>
               (\<exists>k. xEventGroupWaitBits others g bits clear all n s =
                  Returns (group_bits s2 g AND NOT eventEVENT_BITS_CONTROL_BYTES,
                    if clear \<and> prvTestWaitCondition (group_bits s2 g) bits all
                    then update_bits g (\<lambda>b. b AND NOT bits) (s2\<lparr>ekern := k\<rparr>) else s2\<lparr>ekern := k\<rparr>))))"
proof -
  let ?e = "xTasksWaitingForBits g" and ?s0 = "s\<lparr>ekern := vTaskSuspendAll (ekern s)\<rparr>"
  let ?ctl = "(if clear then eventCLEAR_EVENTS_ON_EXIT_BIT else 0) OR (if all then eventWAIT_FOR_ALL_BITS else 0)"
  have u: "uxSchedulerSuspended (ekern s) = 0" using m by (simp add: may_block_def)
  obtain k3 where k3: "vTaskPlaceOnUnorderedEventList ?e (bits OR ?ctl) n (vTaskSuspendAll (ekern s)) = Returns k3"
    "mid i T k3" "uxSchedulerSuspended k3 = 1" "uxPendedTicks k3 = 0" "el k3 c = Some (EventList ?e)"
    "sl k3 c = Some (delay_list n True k3)" "event_value k3 c = wait_value bits clear all"
    using unordered_wait_placed [OF G m w(1) a(4) c, of ?e "bits OR ?ctl"] w(2) unfolding wait_value_def by auto
  have np: "\<not> pending k3 c" using k3(5) by (simp add: pending_def)
  obtain k1 E' where k1: "obind (xTaskResumeAll k3) (\<lambda>(already, k1). if \<not> already then portYIELD k1 else Returns k1) = Returns k1"
    "good i T k1" "sl k1 c = sl k3 c" "el k1 c = el k3 c" "avalue (klists k1) = avalue (klists k3)"
    using resume_yield_track [OF k3(2-4), of 0] np by blast
  have "sl k1 c \<noteq> Some (Ready p)" for p
    using k3(6) k1(3) delay_list_not_ready [OF midD(1) [OF k3(2)]] by simp
  then have cur: "current k1 \<noteq> c" using goodD(2) [OF k1(2)] unfolding cur_ready_def by metis
  have v: "event_value k1 c = wait_value bits clear all" using k1(5) k3(7) by simp
  let ?clear = "\<lambda>s. if clear then update_bits g (\<lambda>b. b AND NOT bits) s else s"
  let ?f = "\<lambda>s2. let r = group_bits s2 g in (r, if prvTestWaitCondition r bits all then ?clear s2 else s2)"
  have call: "xEventGroupWaitBits others g bits clear all n s = wait_for_wake others ?f (?s0\<lparr>ekern := k3\<rparr>)"
    using a f u k3(1) unfolding xEventGroupWaitBits_def
    by (simp add: Let_def xTaskGetSchedulerState_def)
  have res: "xEventGroupWaitBits others g bits clear all n s =
      (let s3 = s2\<lparr>ekern := snd (uxTaskResetEventItemValue (ekern s2))\<rparr>; v = event_value (ekern s2) c;
           (r, s4) = (if bit v 25 then (v, s3) else ?f s3)
       in Returns (r AND NOT eventEVENT_BITS_CONTROL_BYTES, s4))"
    if "s2 = others (s\<lparr>ekern := k1\<rparr>)" "pxCurrentTCB (ekern s2) = Some c" for s2
    unfolding call by (rule wait_for_wake_eq [where ?k1.0 = k1]) (use k1(1) that in simp_all)
  have woken: "\<exists>k. xEventGroupWaitBits others g bits clear all n s = Returns (b, s2\<lparr>ekern := k\<rparr>)"
    if s2: "s2 = others (s\<lparr>ekern := k1\<rparr>)" "pxCurrentTCB (ekern s2) = Some c"
      and b: "b AND eventEVENT_BITS_CONTROL_BYTES = 0"
        "event_value (ekern s2) c = (b OR eventUNBLOCKED_DUE_TO_BIT_SET) OR taskEVENT_LIST_ITEM_VALUE_IN_USE" for s2 b
  proof -
    have "((b OR eventUNBLOCKED_DUE_TO_BIT_SET) OR taskEVENT_LIST_ITEM_VALUE_IN_USE) AND NOT eventEVENT_BITS_CONTROL_BYTES = b"
    proof (rule bit_word_eqI)
      fix m assume "m < LENGTH(32)"
      then show "bit (((b OR eventUNBLOCKED_DUE_TO_BIT_SET) OR taskEVENT_LIST_ITEM_VALUE_IN_USE)
          AND NOT eventEVENT_BITS_CONTROL_BYTES) m = bit b m"
        using event_bits_low [OF b(1), of m] by (auto simp: bit_and_iff bit_or_iff bit_not_iff)
    qed
    then show ?thesis unfolding res [OF s2] b(2)
      by (intro exI [of _ "snd (uxTaskResetEventItemValue (ekern s2))"]) (simp add: bit_or_iff)
  qed
  have late: "\<exists>k. xEventGroupWaitBits others g bits clear all n s =
                  Returns (group_bits s2 g AND NOT eventEVENT_BITS_CONTROL_BYTES,
                    if clear \<and> prvTestWaitCondition (group_bits s2 g) bits all
                    then update_bits g (\<lambda>b. b AND NOT bits) (s2\<lparr>ekern := k\<rparr>) else s2\<lparr>ekern := k\<rparr>)"
    if s2: "s2 = others (s\<lparr>ekern := k1\<rparr>)" "pxCurrentTCB (ekern s2) = Some c"
      and b: "event_value (ekern s2) c = event_value k1 c" for s2
    unfolding res [OF s2] b v using wait_value_parts(3) [OF a(2)]
    by (intro exI [of _ "snd (uxTaskResetEventItemValue (ekern s2))"]) (simp add: Let_def)
  show ?thesis
    using k1(2,4) cur v wait_value_read [OF a(2)] k3(5) woken late by (intro exI [of _ k1]) simp
qed

section \<open>A group with a waiting task\<close>

definition demo_events :: evsys where
  "demo_events = \<lparr>ekern = demo_kernel, groups = (\<lambda>g. \<lparr>uxEventBits = 0\<rparr>)\<rparr>"

lemma demo_events_simps [simp]: "ekern demo_events = demo_kernel" "group_bits demo_events g = 0"
  by (simp_all add: demo_events_def)

text \<open>Task 8 waits for bits 0 and 1 of the group at 88 and clears them.\<close>

definition demo_waiter :: evsys where
  "demo_waiter = demo_events\<lparr>ekern := vListInsertEnd_k (EventList (xTasksWaitingForBits 88)) (EventItem 8)
     (listSET_LIST_ITEM_VALUE (EventItem 8) (wait_value 3 True True) demo_kernel)\<rparr>"

lemma demo_waiter_good: "good 0 {0, 4, 8} (ekern demo_waiter)"
proof -
  let ?k = "listSET_LIST_ITEM_VALUE (EventItem 8) (wait_value 3 True True) demo_kernel"
  let ?k' = "vListInsertEnd_k (EventList (xTasksWaitingForBits 88)) (EventItem 8) ?k"
  have g: "good 0 {0, 4, 8} ?k" by (rule set_event_value_good [OF demo_good])
  have "mid 0 {0, 4, 8} ?k'"
  proof (rule mid_step [OF goodD(1) [OF g]])
    show "kinv True {0, 4, 8} {0, 4, 8} ?k'" by (intro inv_intros midD(1) [OF goodD(1) [OF g]]) simp_all
  qed (auto simp: pending_def prim_defs(2) split: if_splits)
  then show ?thesis using goodD(2,3) [OF g]
    by (simp add: demo_waiter_def good_def cur_ready_def calm_def)
qed

theorem xEventGroupSetBits_wakes_witness:
  "\<exists>s1. xEventGroupSetBits id 88 7 demo_waiter = Returns (4, s1)
     \<and> sl (ekern s1) 8 = Some (Ready 7) \<and> el (ekern s1) 8 = None \<and> group_bits s1 88 = 4"
proof -
  have a: "(7 :: u32) AND eventEVENT_BITS_CONTROL_BYTES = 0" "(3 :: u32) AND eventEVENT_BITS_CONTROL_BYTES = 0"
    by (simp_all add: eventEVENT_BITS_CONTROL_BYTES_def)
  have k: "uxSchedulerSuspended (ekern demo_waiter) = 0" "uxPendedTicks (ekern demo_waiter) = 0"
    "el (ekern demo_waiter) t = (if t = 8 then Some (EventList (xTasksWaitingForBits 88)) else None)"
    "event_value (ekern demo_waiter) 8 = wait_value 3 True True" "group_bits demo_waiter 88 OR 7 = 7"
    "prio (ekern demo_waiter) 8 = 7" for t
    by (simp_all add: demo_waiter_def)
  have m: "xMatchFound 7 (wait_value 3 True True)" "bits_to_clear (wait_value 3 True True) = 3"
    using wait_value_read [OF a(2)] by (simp_all add: prvTestWaitCondition_def)
  obtain s1 where s1: "xEventGroupSetBits id 88 7 demo_waiter = Returns (group_bits s1 88, s1)"
    "sl (ekern s1) 8 = Some (Ready (unat (7 :: u32)))" "el (ekern s1) 8 = None"
    "\<And>n. bit (group_bits s1 88) n \<longleftrightarrow> bit (7 :: u32) n \<and> \<not> bit (3 :: u32) n"
    using xEventGroupSetBits_wakes [OF demo_waiter_good k(1,2) _ a(1), of 88 id] m k(6)
    unfolding k(3,5) by (auto simp: k(4) split: if_splits)
  have "group_bits s1 88 = 7 AND NOT 3"
    by (rule bit_word_eqI) (simp only: s1(4) bit_and_iff bit_not_iff, auto)
  then show ?thesis using s1(1-3) by auto
qed

theorem xEventGroupWaitBits_wait_witness:
  "\<exists>k1 k. el k1 4 = Some (EventList (xTasksWaitingForBits 88)) \<and> current k1 \<noteq> 4
     \<and> xEventGroupWaitBits (\<lambda>s. s\<lparr>ekern := listSET_LIST_ITEM_VALUE (EventItem 4)
            ((7 OR eventUNBLOCKED_DUE_TO_BIT_SET) OR taskEVENT_LIST_ITEM_VALUE_IN_USE) demo_kernel\<rparr>)
          88 3 True True 10 demo_events = Returns (7, demo_events\<lparr>ekern := k\<rparr>)"
proof -
  let ?o = "\<lambda>s :: evsys. s\<lparr>ekern := listSET_LIST_ITEM_VALUE (EventItem 4)
     ((7 OR eventUNBLOCKED_DUE_TO_BIT_SET) OR taskEVENT_LIST_ITEM_VALUE_IN_USE) demo_kernel\<rparr>"
  have a: "(7 :: u32) AND eventEVENT_BITS_CONTROL_BYTES = 0" "(3 :: u32) AND eventEVENT_BITS_CONTROL_BYTES = 0"
    by (simp_all add: eventEVENT_BITS_CONTROL_BYTES_def)
  have h: "good 0 {0, 4, 8} (ekern demo_events)" "pxCurrentTCB (ekern demo_events) = Some 4"
    "may_block 0 (ekern demo_events)" "\<not> waiting (ekern demo_events) 4" "uxPendedTicks (ekern demo_events) = 0"
    "(88 :: nat) \<noteq> 0" "(3 :: u32) \<noteq> 0" "(10 :: tick) \<noteq> 0" "\<not> prvTestWaitCondition (group_bits demo_events 88) 3 True"
    by (simp_all add: demo_good may_block_def prvTestWaitCondition_def)
  obtain k1 where k1: "current k1 \<noteq> 4" "el k1 4 = Some (EventList (xTasksWaitingForBits 88))"
    "\<forall>s2. s2 = ?o (demo_events\<lparr>ekern := k1\<rparr>) \<and> pxCurrentTCB (ekern s2) = Some 4 \<longrightarrow>
       (\<forall>b. b AND eventEVENT_BITS_CONTROL_BYTES = 0
          \<and> event_value (ekern s2) 4 = (b OR eventUNBLOCKED_DUE_TO_BIT_SET) OR taskEVENT_LIST_ITEM_VALUE_IN_USE \<longrightarrow>
            (\<exists>k. xEventGroupWaitBits ?o 88 3 True True 10 demo_events = Returns (b, s2\<lparr>ekern := k\<rparr>)))"
    using xEventGroupWaitBits_wait [OF h(1-6) a(2) h(7-9), of True ?o] by blast
  from k1(3) [rule_format, OF conjI [OF refl], of 7] a(1) obtain k where
    "xEventGroupWaitBits ?o 88 3 True True 10 demo_events = Returns (7, demo_events\<lparr>ekern := k\<rparr>)" by auto
  then show ?thesis using k1(1,2) by blast
qed

end
