(* ===== verification/Timers.thy ===== *)
theory Timers
  imports Queue_Semaphore Loops
begin

text \<open>
  The software timers of \<open>timers.c\<close>: commands posted to the queue of the timer service task, the two
  lists of active timers it keeps, ordered by expiry time, for the current and the next lap of the tick
  count, and what it does when a timer expires or a command arrives.

  A timer is found by its address; its list item is on the abstract lists of \<open>List_Refine\<close>. The timer
  callbacks and the functions pended to the service task are the application's: \<open>cb\<close> and \<open>pf\<close> say what
  the functions at an address do. The service task blocks at one point; \<open>others\<close> is what happens until
  it runs again, \<open>g\<close> what interrupts do while it locks its queue for that.
\<close>

section \<open>Data\<close>

datatype timer_list = xActiveTimerList1 | xActiveTimerList2

record timer_control =
  pcTimerName :: string
  xTimerPeriodInTicks :: tick
  uxAutoReload :: u32
  pvTimerID :: nat
  pxCallbackFunction :: nat

record tmsys =
  tsys :: qsys
  theap :: heap4
  tregistry :: registry
  timers :: "nat \<Rightarrow> timer_control"
  tlists :: "(nat, timer_list) alists"
  pxCurrentTimerList :: timer_list
  pxOverflowTimerList :: timer_list
  xTimerQueue :: nat
  xLastTime :: tick

text \<open>
  \<open>DaemonTaskMessage_t\<close>: the identifier and the three words of the union, \<open>xMessageValue\<close> and \<open>pxTimer\<close>
  of a timer command, the function and its two parameters of a pended call.
\<close>

record daemon_message =
  xMessageID :: u32
  msg_word0 :: u32
  msg_word1 :: u32
  msg_word2 :: u32

definition message_bytes :: "daemon_message \<Rightarrow> u8 list" where
  "message_bytes msg = word_bytes (xMessageID msg) @ word_bytes (msg_word0 msg)
     @ word_bytes (msg_word1 msg) @ word_bytes (msg_word2 msg)"

definition bytes_message :: "u8 list \<Rightarrow> daemon_message" where
  "bytes_message bs = \<lparr>xMessageID = bytes_word (take 4 bs), msg_word0 = bytes_word (take 4 (drop 4 bs)),
     msg_word1 = bytes_word (take 4 (drop 8 bs)), msg_word2 = bytes_word (take 4 (drop 12 bs))\<rparr>"

definition tmrCOMMAND_EXECUTE_CALLBACK_FROM_ISR :: u32 where "tmrCOMMAND_EXECUTE_CALLBACK_FROM_ISR = - 2"
definition tmrCOMMAND_EXECUTE_CALLBACK :: u32 where "tmrCOMMAND_EXECUTE_CALLBACK = - 1"
definition tmrCOMMAND_START_DONT_TRACE :: u32 where "tmrCOMMAND_START_DONT_TRACE = 0"
definition tmrCOMMAND_START :: u32 where "tmrCOMMAND_START = 1"
definition tmrCOMMAND_RESET :: u32 where "tmrCOMMAND_RESET = 2"
definition tmrCOMMAND_STOP :: u32 where "tmrCOMMAND_STOP = 3"
definition tmrCOMMAND_CHANGE_PERIOD :: u32 where "tmrCOMMAND_CHANGE_PERIOD = 4"
definition tmrCOMMAND_DELETE :: u32 where "tmrCOMMAND_DELETE = 5"
definition tmrFIRST_FROM_ISR_COMMAND :: u32 where "tmrFIRST_FROM_ISR_COMMAND = 6"
definition tmrCOMMAND_START_FROM_ISR :: u32 where "tmrCOMMAND_START_FROM_ISR = 6"
definition tmrCOMMAND_RESET_FROM_ISR :: u32 where "tmrCOMMAND_RESET_FROM_ISR = 7"
definition tmrCOMMAND_STOP_FROM_ISR :: u32 where "tmrCOMMAND_STOP_FROM_ISR = 8"
definition tmrCOMMAND_CHANGE_PERIOD_FROM_ISR :: u32 where "tmrCOMMAND_CHANGE_PERIOD_FROM_ISR = 9"
definition configTIMER_QUEUE_LENGTH :: u32 where "configTIMER_QUEUE_LENGTH = 20"

text \<open>\<open>sizeof( Timer_t )\<close>, five words and a \<open>ListItem_t\<close> of five, and \<open>sizeof( DaemonTaskMessage_t )\<close>.\<close>

definition sizeof_Timer_t :: u32 where "sizeof_Timer_t = 40"
definition sizeof_DaemonTaskMessage_t :: u32 where "sizeof_DaemonTaskMessage_t = 16"

definition update_timer :: "nat \<Rightarrow> (timer_control \<Rightarrow> timer_control) \<Rightarrow> tmsys \<Rightarrow> tmsys" where
  "update_timer t f s = s\<lparr>timers := (timers s)(t := f (timers s t))\<rparr>"

abbreviation active_timers :: "tmsys \<Rightarrow> timer_list \<Rightarrow> nat list" where
  "active_timers s l \<equiv> content (tlists s) l"

abbreviation expiry :: "tmsys \<Rightarrow> nat \<Rightarrow> tick" where
  "expiry s t \<equiv> avalue (tlists s) t"

section \<open>Creation\<close>

definition prvCheckForValidListAndQueue ::
  "(heap4 \<Rightarrow> heap4 outcome) \<Rightarrow> (nat \<Rightarrow> u8) \<Rightarrow> tmsys \<Rightarrow> tmsys outcome" where
  "prvCheckForValidListAndQueue hook garbage s =
     (if xTimerQueue s = 0
      then let s1 = s\<lparr>tlists := a_init xActiveTimerList2 (a_init xActiveTimerList1 (tlists s)),
                      pxCurrentTimerList := xActiveTimerList1, pxOverflowTimerList := xActiveTimerList2\<rparr>
           in obind (xQueueGenericCreate hook garbage configTIMER_QUEUE_LENGTH sizeof_DaemonTaskMessage_t (theap s1) (tsys s1))
                (\<lambda>(q, h, qs). Returns (s1\<lparr>xTimerQueue := q, theap := h, tsys := qs,
                   tregistry := (if q \<noteq> 0 then vQueueAddToRegistry q ''TmrQ'' (tregistry s1) else tregistry s1)\<rparr>))
      else Returns s)"

definition prvInitialiseNewTimer ::
  "(heap4 \<Rightarrow> heap4 outcome) \<Rightarrow> (nat \<Rightarrow> u8) \<Rightarrow> string \<Rightarrow> tick \<Rightarrow> u32 \<Rightarrow> nat \<Rightarrow> nat \<Rightarrow> nat \<Rightarrow> tmsys \<Rightarrow> tmsys outcome" where
  "prvInitialiseNewTimer hook garbage name period reload tid fn t s =
     configASSERT (period > 0)
       (if t \<noteq> 0
        then obind (prvCheckForValidListAndQueue hook garbage s) (\<lambda>s1.
               Returns (update_timer t (\<lambda>_. \<lparr>pcTimerName = name, xTimerPeriodInTicks = period, uxAutoReload = reload,
                          pvTimerID = tid, pxCallbackFunction = fn\<rparr>)
                 (s1\<lparr>tlists := (tlists s1)\<lparr>acontainer := (acontainer (tlists s1))(t := None)\<rparr>\<rparr>)))
        else Returns s)"

definition xTimerCreate ::
  "(heap4 \<Rightarrow> heap4 outcome) \<Rightarrow> (nat \<Rightarrow> u8) \<Rightarrow> string \<Rightarrow> tick \<Rightarrow> u32 \<Rightarrow> nat \<Rightarrow> nat \<Rightarrow> tmsys \<Rightarrow> (nat \<times> tmsys) outcome" where
  "xTimerCreate hook garbage name period reload tid fn s =
     obind (pvPortMalloc hook sizeof_Timer_t (theap s)) (\<lambda>(t, h).
       let s1 = s\<lparr>theap := h\<rparr>
       in if t \<noteq> 0
          then obind (prvInitialiseNewTimer hook garbage name period reload tid fn t s1) (\<lambda>s2. Returns (t, s2))
          else Returns (t, s1))"

section \<open>Commands\<close>

text \<open>\<open>uninit\<close> is the word of the union that a timer command leaves uninitialised.\<close>

definition xTimerGenericCommand ::
  "gaps list \<Rightarrow> u32 \<Rightarrow> nat \<Rightarrow> u32 \<Rightarrow> tick \<Rightarrow> bool option \<Rightarrow> tick \<Rightarrow> tmsys \<Rightarrow> (bool \<times> bool option \<times> tmsys) outcome" where
  "xTimerGenericCommand gs uninit xTimer xCommandID xOptionalValue woken xTicksToWait s =
     configASSERT (xTimer \<noteq> 0)
       (if xTimerQueue s \<noteq> 0
        then let msg = message_bytes \<lparr>xMessageID = xCommandID, msg_word0 = xOptionalValue,
                                      msg_word1 = of_nat xTimer, msg_word2 = uninit\<rparr>
             in if sint xCommandID < sint tmrFIRST_FROM_ISR_COMMAND
                then obind (xQueueGenericSend gs (xTimerQueue s) (Some msg)
                              (if xTaskGetSchedulerState (kern (tsys s)) = taskSCHEDULER_RUNNING then xTicksToWait else 0)
                              queueSEND_TO_BACK (tsys s))
                       (\<lambda>(r, qs). Returns (r, woken, s\<lparr>tsys := qs\<rparr>))
                else obind (xQueueGenericSendFromISR (xTimerQueue s) (Some msg) woken queueSEND_TO_BACK (tsys s))
                       (\<lambda>(r, w, qs). Returns (r, w, s\<lparr>tsys := qs\<rparr>))
        else Returns (False, woken, s))"

definition xTimerPendFunctionCallFromISR ::
  "nat \<Rightarrow> nat \<Rightarrow> u32 \<Rightarrow> bool option \<Rightarrow> tmsys \<Rightarrow> (bool \<times> bool option \<times> tmsys) outcome" where
  "xTimerPendFunctionCallFromISR fn p1 p2 woken s =
     obind (xQueueGenericSendFromISR (xTimerQueue s)
              (Some (message_bytes \<lparr>xMessageID = tmrCOMMAND_EXECUTE_CALLBACK_FROM_ISR, msg_word0 = of_nat fn,
                                    msg_word1 = of_nat p1, msg_word2 = p2\<rparr>)) woken queueSEND_TO_BACK (tsys s))
       (\<lambda>(r, w, qs). Returns (r, w, s\<lparr>tsys := qs\<rparr>))"

definition xTimerPendFunctionCall ::
  "gaps list \<Rightarrow> nat \<Rightarrow> nat \<Rightarrow> u32 \<Rightarrow> tick \<Rightarrow> tmsys \<Rightarrow> (bool \<times> tmsys) outcome" where
  "xTimerPendFunctionCall gs fn p1 p2 xTicksToWait s =
     configASSERT (xTimerQueue s \<noteq> 0)
       (obind (xQueueGenericSend gs (xTimerQueue s)
                 (Some (message_bytes \<lparr>xMessageID = tmrCOMMAND_EXECUTE_CALLBACK, msg_word0 = of_nat fn,
                                       msg_word1 = of_nat p1, msg_word2 = p2\<rparr>)) xTicksToWait queueSEND_TO_BACK (tsys s))
          (\<lambda>(r, qs). Returns (r, s\<lparr>tsys := qs\<rparr>)))"

section \<open>Queries\<close>

definition xTimerGetPeriod :: "nat \<Rightarrow> tmsys \<Rightarrow> tick outcome" where
  "xTimerGetPeriod xTimer s = configASSERT (xTimer \<noteq> 0) (Returns (xTimerPeriodInTicks (timers s xTimer)))"

definition xTimerGetExpiryTime :: "nat \<Rightarrow> tmsys \<Rightarrow> tick outcome" where
  "xTimerGetExpiryTime xTimer s = configASSERT (xTimer \<noteq> 0) (Returns (expiry s xTimer))"

definition pcTimerGetName :: "nat \<Rightarrow> tmsys \<Rightarrow> string outcome" where
  "pcTimerGetName xTimer s = configASSERT (xTimer \<noteq> 0) (Returns (pcTimerName (timers s xTimer)))"

definition xTimerIsTimerActive :: "nat \<Rightarrow> tmsys \<Rightarrow> bool outcome" where
  "xTimerIsTimerActive xTimer s = configASSERT (xTimer \<noteq> 0) (Returns (acontainer (tlists s) xTimer \<noteq> None))"

definition pvTimerGetTimerID :: "nat \<Rightarrow> tmsys \<Rightarrow> nat outcome" where
  "pvTimerGetTimerID xTimer s = configASSERT (xTimer \<noteq> 0) (Returns (pvTimerID (timers s xTimer)))"

definition vTimerSetTimerID :: "nat \<Rightarrow> nat \<Rightarrow> tmsys \<Rightarrow> tmsys outcome" where
  "vTimerSetTimerID xTimer pvNewID s =
     configASSERT (xTimer \<noteq> 0) (Returns (update_timer xTimer (\<lambda>c. c\<lparr>pvTimerID := pvNewID\<rparr>) s))"

section \<open>The active timers\<close>

text \<open>\<open>listSET_LIST_ITEM_VALUE\<close>, \<open>uxListRemove\<close> and \<open>vListInsert\<close> on the timer lists.\<close>

definition set_expiry :: "nat \<Rightarrow> tick \<Rightarrow> tmsys \<Rightarrow> tmsys" where
  "set_expiry t v s = s\<lparr>tlists := (tlists s)\<lparr>avalue := (avalue (tlists s))(t := v)\<rparr>\<rparr>"

definition remove_timer :: "nat \<Rightarrow> tmsys \<Rightarrow> tmsys" where
  "remove_timer t s = s\<lparr>tlists := a_remove t (tlists s)\<rparr>"

definition insert_timer :: "timer_list \<Rightarrow> nat \<Rightarrow> tmsys \<Rightarrow> tmsys" where
  "insert_timer l t s = s\<lparr>tlists := a_insert l t (tlists s)\<rparr>"

definition prvInsertTimerInActiveList :: "nat \<Rightarrow> tick \<Rightarrow> tick \<Rightarrow> tick \<Rightarrow> tmsys \<Rightarrow> bool \<times> tmsys" where
  "prvInsertTimerInActiveList t xNextExpiryTime xTimeNow xCommandTime s =
     (let s1 = set_expiry t xNextExpiryTime s
      in if xNextExpiryTime \<le> xTimeNow
         then if xTimeNow - xCommandTime \<ge> xTimerPeriodInTicks (timers s1 t) then (True, s1)
              else (False, insert_timer (pxOverflowTimerList s1) t s1)
         else if xTimeNow < xCommandTime \<and> xNextExpiryTime \<ge> xCommandTime then (True, s1)
              else (False, insert_timer (pxCurrentTimerList s1) t s1))"

text \<open>Posting a command to the service task itself; the assertion fails when its queue is full.\<close>

definition repost :: "u32 \<Rightarrow> nat \<Rightarrow> tick \<Rightarrow> tmsys \<Rightarrow> tmsys outcome" where
  "repost uninit t v s =
     obind (xTimerGenericCommand [] uninit t tmrCOMMAND_START_DONT_TRACE v None 0 s)
       (\<lambda>(xResult, w, s1). configASSERT xResult (Returns s1))"

type_synonym timer_callback = "nat \<Rightarrow> nat \<Rightarrow> tmsys \<Rightarrow> tmsys outcome"

definition call_back :: "timer_callback \<Rightarrow> nat \<Rightarrow> tmsys \<Rightarrow> tmsys outcome" where
  "call_back cb t s = cb (pxCallbackFunction (timers s t)) t s"

definition prvProcessExpiredTimer :: "timer_callback \<Rightarrow> u32 \<Rightarrow> tick \<Rightarrow> tick \<Rightarrow> tmsys \<Rightarrow> tmsys outcome" where
  "prvProcessExpiredTimer cb uninit xNextExpireTime xTimeNow s =
     (let t = hd (active_timers s (pxCurrentTimerList s));
          s1 = remove_timer t s
      in obind
           (if uxAutoReload (timers s1 t) = 1
            then let (late, s2) = prvInsertTimerInActiveList t (xNextExpireTime + xTimerPeriodInTicks (timers s1 t))
                                    xTimeNow xNextExpireTime s1
                 in if late then repost uninit t xNextExpireTime s2 else Returns s2
            else Returns s1)
           (call_back cb t))"

section \<open>The lists and the tick count\<close>

text \<open>One pass of the loop of \<open>prvSwitchTimerLists\<close>, on a timer list that may be empty.\<close>

definition switch_pass :: "timer_callback \<Rightarrow> u32 \<Rightarrow> tmsys \<Rightarrow> (bool \<times> tmsys) outcome" where
  "switch_pass cb uninit s =
     (case active_timers s (pxCurrentTimerList s) of [] \<Rightarrow> Returns (False, s)
      | t # ts \<Rightarrow>
          let xNextExpireTime = expiry s t
          in obind (call_back cb t (remove_timer t s)) (\<lambda>s1.
             obind
               (if uxAutoReload (timers s1 t) = 1
                then let xReloadTime = xNextExpireTime + xTimerPeriodInTicks (timers s1 t)
                     in if xReloadTime > xNextExpireTime
                        then Returns (insert_timer (pxCurrentTimerList s1) t (set_expiry t xReloadTime s1))
                        else repost uninit t xNextExpireTime s1
                else Returns s1)
               (\<lambda>s2. Returns (True, s2))))"

definition prvSwitchTimerLists :: "timer_callback \<Rightarrow> u32 \<Rightarrow> tmsys \<Rightarrow> tmsys outcome" where
  "prvSwitchTimerLists cb uninit s =
     obind (ojoin (orepeat (switch_pass cb uninit) s)) (\<lambda>s1.
       Returns (s1\<lparr>pxCurrentTimerList := pxOverflowTimerList s1, pxOverflowTimerList := pxCurrentTimerList s1\<rparr>))"

definition prvSampleTimeNow :: "timer_callback \<Rightarrow> u32 \<Rightarrow> tmsys \<Rightarrow> (tick \<times> bool \<times> tmsys) outcome" where
  "prvSampleTimeNow cb uninit s =
     (let now = xTickCount (kern (tsys s))
      in obind (if now < xLastTime s then prvSwitchTimerLists cb uninit s else Returns s) (\<lambda>s1.
           Returns (now, now < xLastTime s, s1\<lparr>xLastTime := now\<rparr>)))"

section \<open>The service task\<close>

definition timer_command :: "timer_callback \<Rightarrow> u32 \<Rightarrow> daemon_message \<Rightarrow> tmsys \<Rightarrow> tmsys outcome" where
  "timer_command cb uninit msg s =
     (let t = unat (msg_word1 msg); v = msg_word0 msg;
          s1 = (if acontainer (tlists s) t \<noteq> None then remove_timer t s else s)
      in obind (prvSampleTimeNow cb uninit s1) (\<lambda>(xTimeNow, switched, s2).
         if xMessageID msg \<in> {tmrCOMMAND_START, tmrCOMMAND_START_FROM_ISR, tmrCOMMAND_RESET, tmrCOMMAND_RESET_FROM_ISR,
                              tmrCOMMAND_START_DONT_TRACE}
         then let (late, s3) = prvInsertTimerInActiveList t (v + xTimerPeriodInTicks (timers s2 t)) xTimeNow v s2
              in if late
                 then obind (call_back cb t s3) (\<lambda>s4.
                      if uxAutoReload (timers s4 t) = 1
                      then repost uninit t (v + xTimerPeriodInTicks (timers s4 t)) s4 else Returns s4)
                 else Returns s3
         else if xMessageID msg \<in> {tmrCOMMAND_STOP, tmrCOMMAND_STOP_FROM_ISR} then Returns s2
         else if xMessageID msg \<in> {tmrCOMMAND_CHANGE_PERIOD, tmrCOMMAND_CHANGE_PERIOD_FROM_ISR}
         then let s3 = update_timer t (\<lambda>c. c\<lparr>xTimerPeriodInTicks := v\<rparr>) s2
              in configASSERT (v > 0) (Returns (snd (prvInsertTimerInActiveList t (xTimeNow + v) xTimeNow xTimeNow s3)))
         else if xMessageID msg = tmrCOMMAND_DELETE
         then obind (vPortFree t (theap s2)) (\<lambda>h. Returns (s2\<lparr>theap := h\<rparr>))
         else Returns s2))"

definition command_pass ::
  "timer_callback \<Rightarrow> (nat \<Rightarrow> nat \<Rightarrow> u32 \<Rightarrow> tmsys \<Rightarrow> tmsys outcome) \<Rightarrow> u32 \<Rightarrow> tmsys \<Rightarrow> (bool \<times> tmsys) outcome" where
  "command_pass cb pf uninit s =
     obind (xQueueReceive [] (xTimerQueue s) True 0 (tsys s)) (\<lambda>(item, qs).
       let s1 = s\<lparr>tsys := qs\<rparr>
       in case item of None \<Rightarrow> Returns (False, s1)
          | Some bs \<Rightarrow>
              let msg = bytes_message bs
              in obind (if sint (xMessageID msg) < 0
                        then pf (unat (msg_word0 msg)) (unat (msg_word1 msg)) (msg_word2 msg) s1
                        else timer_command cb uninit msg s1)
                   (\<lambda>s2. Returns (True, s2)))"

definition prvProcessReceivedCommands ::
  "timer_callback \<Rightarrow> (nat \<Rightarrow> nat \<Rightarrow> u32 \<Rightarrow> tmsys \<Rightarrow> tmsys outcome) \<Rightarrow> u32 \<Rightarrow> tmsys \<Rightarrow> tmsys outcome" where
  "prvProcessReceivedCommands cb pf uninit s = ojoin (orepeat (command_pass cb pf uninit) s)"

definition prvGetNextExpireTime :: "tmsys \<Rightarrow> tick \<times> bool" where
  "prvGetNextExpireTime s =
     (case active_timers s (pxCurrentTimerList s) of [] \<Rightarrow> (0, True) | t # ts \<Rightarrow> (expiry s t, False))"

definition resume_all_t :: "tmsys \<Rightarrow> (bool \<times> tmsys) outcome" where
  "resume_all_t s = obind (xTaskResumeAll (kern (tsys s))) (\<lambda>(already, k). Returns (already, s\<lparr>tsys := (tsys s)\<lparr>kern := k\<rparr>\<rparr>))"

definition prvProcessTimerOrBlockTask ::
  "timer_callback \<Rightarrow> u32 \<Rightarrow> gaps \<Rightarrow> (tmsys \<Rightarrow> tmsys) \<Rightarrow> tick \<Rightarrow> bool \<Rightarrow> tmsys \<Rightarrow> tmsys outcome" where
  "prvProcessTimerOrBlockTask cb uninit g others xNextExpireTime xListWasEmpty s =
     (let s0 = s\<lparr>tsys := (tsys s)\<lparr>kern := vTaskSuspendAll (kern (tsys s))\<rparr>\<rparr>
      in obind (prvSampleTimeNow cb uninit s0) (\<lambda>(xTimeNow, switched, s1).
         if \<not> switched
         then if \<not> xListWasEmpty \<and> xNextExpireTime \<le> xTimeNow
              then obind (resume_all_t s1) (\<lambda>(already, s2). prvProcessExpiredTimer cb uninit xNextExpireTime xTimeNow s2)
              else let forever = (if xListWasEmpty then active_timers s1 (pxOverflowTimerList s1) = [] else False)
                   in obind (vQueueWaitForMessageRestricted g (xTimerQueue s1) (xNextExpireTime - xTimeNow) forever (tsys s1)) (\<lambda>qs.
                      obind (resume_all_t (s1\<lparr>tsys := g_unlocked g qs\<rparr>)) (\<lambda>(already, s2).
                      obind (if \<not> already then portYIELD (kern (tsys s2)) else Returns (kern (tsys s2))) (\<lambda>k.
                      Returns (others (s2\<lparr>tsys := (tsys s2)\<lparr>kern := k\<rparr>\<rparr>)))))
         else obind (resume_all_t s1) (\<lambda>(already, s2). Returns s2)))"

text \<open>One pass of the endless loop of the task.\<close>

definition prvTimerTask ::
  "timer_callback \<Rightarrow> (nat \<Rightarrow> nat \<Rightarrow> u32 \<Rightarrow> tmsys \<Rightarrow> tmsys outcome) \<Rightarrow> u32 \<Rightarrow> gaps \<Rightarrow> (tmsys \<Rightarrow> tmsys) \<Rightarrow> tmsys \<Rightarrow> tmsys outcome" where
  "prvTimerTask cb pf uninit g others s =
     (let (xNextExpireTime, xListWasEmpty) = prvGetNextExpireTime s
      in obind (prvProcessTimerOrBlockTask cb uninit g others xNextExpireTime xListWasEmpty s)
           (prvProcessReceivedCommands cb pf uninit))"

end
