(* ===== verification/Timers_Spec.thy ===== *)
theory Timers_Spec
  imports Timers Queue_Mutex
begin

text \<open>
  The properties of the software timers: a timer goes on the list of the lap of the tick count in which
  it expires, or is processed at once when it has expired already; switching the lists at the end of a
  lap ends, whatever the periods, and leaves no timer of the old lap behind; a command posted to the
  service task is the one it carries out.
\<close>

section \<open>Where a timer goes\<close>

text \<open>
  Times are counted without bound; the words are what the code has of them. The lap of a time is how
  often the tick count has wrapped by then.
\<close>

abbreviation lap :: "nat \<Rightarrow> nat" where "lap t \<equiv> t div 2 ^ 32"

lemma unat_time: "unat (of_nat t :: tick) = t mod 2 ^ 32"
  by (simp add: unat_of_nat)

lemma sum_lap:
  assumes "(a :: nat) mod P + d < 2 * P" "0 < P"
  shows "(a + d) mod P = (if a mod P + d < P then a mod P + d else a mod P + d - P)"
    "(a + d) div P = a div P + (if a mod P + d < P then 0 else 1)"
proof -
  obtain q r where a: "a = r + q * P" "r < P" using assms(2) by (metis mod_div_mult_eq mod_less_divisor)
  then have m: "a mod P = r" "a div P = q" by simp_all
  have "(r + d + q * P) mod P = (if r + d < P then r + d else r + d - P)"
    "(r + d + q * P) div P = q + (if r + d < P then 0 else 1)"
  proof -
    have "(r + d) mod P = (if r + d < P then r + d else r + d - P)" "(r + d) div P = (if r + d < P then 0 else 1)"
      using assms(1) unfolding m by (auto simp: le_mod_geq le_div_geq not_less)
    then show "(r + d + q * P) mod P = (if r + d < P then r + d else r + d - P)"
      "(r + d + q * P) div P = q + (if r + d < P then 0 else 1)" using assms(2) by simp_all
  qed
  moreover have "a + d = r + d + q * P" using a(1) by simp
  ultimately show "(a + d) mod P = (if a mod P + d < P then a mod P + d else a mod P + d - P)"
    "(a + d) div P = a div P + (if a mod P + d < P then 0 else 1)" unfolding m by (simp_all only: if_splits)
qed

lemma lap_cases:
  assumes d: "now = cmd + d" "d < P" and p: "p < P" "0 < (p :: nat)"
  defines "e \<equiv> (cmd + p) mod P"
  shows "(e \<le> now mod P \<and> p \<le> d \<longrightarrow> cmd + p \<le> now)
    \<and> (e \<le> now mod P \<and> \<not> p \<le> d \<longrightarrow> now < cmd + p \<and> (cmd + p) div P = now div P + 1)
    \<and> (\<not> e \<le> now mod P \<and> now mod P < cmd mod P \<and> cmd mod P \<le> e \<longrightarrow> cmd + p \<le> now)
    \<and> (\<not> e \<le> now mod P \<and> \<not> (now mod P < cmd mod P \<and> cmd mod P \<le> e) \<longrightarrow>
         now < cmd + p \<and> (cmd + p) div P = now div P)"
proof -
  have P: "0 < P" using p by simp
  have c: "cmd mod P < P" using P by simp
  have b: "cmd mod P + d < 2 * P" "cmd mod P + p < 2 * P" using c d p by linarith+
  note n = sum_lap [OF b(1) P] and q = sum_lap [OF b(2) P]
  show ?thesis unfolding e_def d(1) n q using c d(2) p
    by (cases "cmd mod P + d < P"; cases "cmd mod P + p < P"; simp; linarith?)
qed


text \<open>
  C26. A timer whose command was given at time \<open>cmd\<close>, handled at time \<open>now\<close> less than a lap later, is
  due at \<open>cmd\<close> plus its period. \<open>prvInsertTimerInActiveList\<close> says it is to be processed at once exactly
  when that time has come, however the tick count has wrapped in between; otherwise it puts the timer on
  the list of the current lap or on the overflow list, by the lap in which it is due, in order of expiry.
\<close>

theorem prvInsertTimerInActiveList_decides:
  assumes d: "cmd \<le> now" "now - cmd < 2 ^ 32" and p: "xTimerPeriodInTicks (timers s t) = period" "period \<noteq> 0"
    and r: "prvInsertTimerInActiveList t (of_nat cmd + period) (of_nat now) (of_nat cmd) s = (late, s')"
  defines "expires \<equiv> cmd + unat period"
  shows "expiry s' t = of_nat expires \<and> (late \<longleftrightarrow> expires \<le> now)
     \<and> (late \<longrightarrow> s' = set_expiry t (of_nat expires) s)
     \<and> (\<not> late \<longrightarrow> lap expires \<in> {lap now, lap now + 1}
          \<and> s' = insert_timer (if lap expires = lap now then pxCurrentTimerList s else pxOverflowTimerList s) t
                   (set_expiry t (of_nat expires) s))"
proof -
  let ?P = "2 ^ 32 :: nat" and ?s = "set_expiry t (of_nat expires) s"
  have e: "of_nat cmd + period = (of_nat expires :: tick)" by (simp add: expires_def)
  have pn: "unat period < ?P" "0 < unat period" using unsigned_less [of period, where 'a = nat] p(2)
    by (simp_all add: unat_gt_0)
  have el: "unat (of_nat now - of_nat cmd :: tick) = now - cmd"
  proof -
    have "of_nat now - of_nat cmd = (of_nat (now - cmd) :: tick)" using d(1) by (simp add: of_nat_diff)
    then show ?thesis using d(2) by (simp add: unat_of_nat_small del: of_nat_diff)
  qed
  have le: "(of_nat a :: tick) \<le> of_nat b \<longleftrightarrow> a mod ?P \<le> b mod ?P" for a b
    unfolding word_le_nat_alt unat_time ..
  have ls: "(of_nat a :: tick) < of_nat b \<longleftrightarrow> a mod ?P < b mod ?P" for a b
    unfolding word_less_nat_alt unat_time ..
  have pe: "period \<le> of_nat now - of_nat cmd \<longleftrightarrow> unat period \<le> now - cmd" unfolding word_le_nat_alt el ..
  have f: "timers ?s = timers s" "pxCurrentTimerList ?s = pxCurrentTimerList s"
    "pxOverflowTimerList ?s = pxOverflowTimerList s" "expiry ?s t = of_nat expires"
    "expiry (insert_timer l t ?s) t = of_nat expires" for l
    by (simp_all add: set_expiry_def insert_timer_def)
  have now: "now = cmd + (now - cmd)" using d(1) by simp
  note c = lap_cases [OF now d(2) pn, folded expires_def]
  define A B C where "A \<longleftrightarrow> expires mod ?P \<le> now mod ?P" and "B \<longleftrightarrow> unat period \<le> now - cmd"
    and "C \<longleftrightarrow> now mod ?P < cmd mod ?P \<and> cmd mod ?P \<le> expires mod ?P"
  note abs = A_def [symmetric] B_def [symmetric] C_def [symmetric]
  have R: "(if A then if B then (True, ?s) else (False, insert_timer (pxOverflowTimerList s) t ?s)
      else if C then (True, ?s) else (False, insert_timer (pxCurrentTimerList s) t ?s)) = (late, s')"
    using r unfolding prvInsertTimerInActiveList_def Let_def e f p(1) le ls pe abs .
  have c: "A \<and> B \<longrightarrow> expires \<le> now" "A \<and> \<not> B \<longrightarrow> now < expires \<and> lap expires = lap now + 1"
    "\<not> A \<and> C \<longrightarrow> expires \<le> now" "\<not> A \<and> \<not> C \<longrightarrow> now < expires \<and> lap expires = lap now"
    using c unfolding abs by blast+
  have ne: "lap now + 1 \<noteq> lap now" by simp
  show ?thesis
  proof (cases "A \<and> B \<or> \<not> A \<and> C")
    case True
    then have r1: "late" "s' = ?s" using R by (auto split: if_splits)
    have "expires \<le> now" using True c(1,3) by blast
    then show ?thesis unfolding r1(2) f(4) using r1(1) by blast
  next
    case False
    then have r1: "\<not> late" "s' = insert_timer (if A then pxOverflowTimerList s else pxCurrentTimerList s) t ?s"
      using R by (auto split: if_splits)
    have x: "\<not> expires \<le> now" using False c(2,4) not_le by blast
    have "lap expires \<in> {lap now, lap now + 1} \<and> (lap expires = lap now \<longleftrightarrow> \<not> A)"
    proof (cases A)
      case True
      then have "lap expires = lap now + 1" using False c(2) by blast
      then show ?thesis using True ne by (metis insert_iff)
    next
      case False
      then have "lap expires = lap now" using \<open>\<not> (A \<and> B \<or> \<not> A \<and> C)\<close> c(4) by blast
      then show ?thesis using False by blast
    qed
    then show ?thesis unfolding r1(2) f(5) using r1(1) x by (cases A) (auto simp only: if_True if_False not_True_eq_False not_False_eq_True)
  qed
qed


section \<open>Switching the lists\<close>

text \<open>Posting a command without waiting always comes back, if only to fail an assertion.\<close>

lemma ends_pair: "ends r \<Longrightarrow> (\<And>x y. ends (f x y)) \<Longrightarrow> ends (obind r (\<lambda>(x, y). f x y))"
  and ends_triple: "ends t \<Longrightarrow> (\<And>x y z. ends (h x y z)) \<Longrightarrow> ends (obind t (\<lambda>(x, y, z). h x y z))"
  by (auto intro!: ends_bind)

lemma ends_if: "ends r \<Longrightarrow> ends q \<Longrightarrow> ends (if c then r else q)"
  by simp

lemma ends_let_pair: "(\<And>x y. ends (f x y)) \<Longrightarrow> ends (let (x, y) = p in f x y)"
  by (simp add: case_prod_unfold)

lemmas ends_intros = ends_assert ends_triple ends_pair ends_if ends_let_pair ends_bind ends_simps

lemma ends_yield: "ends (queueYIELD_IF b s)"
  by (auto simp: queueYIELD_IF_def portYIELD_def vTaskSwitchContext_def taskSELECT_HIGHEST_PRIORITY_TASK_def Let_def
      split: option.splits prod.splits intro!: ends_bind)

lemma ends_disinherit: "ends (xTaskPriorityDisinherit h k)"
  by (cases h) (auto simp: xTaskPriorityDisinherit_def Let_def)

lemma ends_copy: "ends (prvCopyDataToQueue q pv pos s)"
  unfolding prvCopyDataToQueue_def Let_def by (intro ends_intros ends_disinherit)

lemma ends_notify: "ends (prvNotifyQueueSetContainer q pos s)"
  unfolding prvNotifyQueueSetContainer_def
  by (cases "pxQueueSetContainer (queues s q)") (simp_all, unfold Let_def [of "cTxLock _"], intro ends_intros ends_copy)

lemma ends_send_now: "ends (queue_send_now q pv pos s)"
  unfolding queue_send_now_def by (intro ends_intros ends_copy ends_notify ends_yield)

lemma ends_send: "ends (xQueueGenericSend gs q pv 0 pos s)"
  unfolding xQueueGenericSend_def
  by (subst queue_send_loop.simps, unfold if_P [OF refl, of "0 :: tick"]) (intro ends_intros ends_send_now)

lemma repost_effect:
  "repost uninit t v s = Asserts \<or> (\<exists>qs. repost uninit t v s = Returns (s\<lparr>tsys := qs\<rparr>))"
proof -
  have "ends (repost uninit t v s)"
    unfolding repost_def xTimerGenericCommand_def Let_def
    by (simp add: tmrCOMMAND_START_DONT_TRACE_def tmrFIRST_FROM_ISR_COMMAND_def) (intro conjI impI ends_intros ends_send)
  then show ?thesis
    by (cases "repost uninit t v s")
      (auto simp: ends_def repost_def xTimerGenericCommand_def Let_def tmrCOMMAND_START_DONT_TRACE_def
        tmrFIRST_FROM_ISR_COMMAND_def split: if_splits)
qed

text \<open>
  What the documentation asks of a callback: it uses the kernel only through its calls, which leave the
  timer lists and the periods to the service task, and it returns.
\<close>

definition timer_frame :: "tmsys \<Rightarrow> tmsys \<Rightarrow> bool" where
  "timer_frame s s' \<longleftrightarrow> tlists s' = tlists s \<and> pxCurrentTimerList s' = pxCurrentTimerList s
     \<and> pxOverflowTimerList s' = pxOverflowTimerList s \<and> xTimerQueue s' = xTimerQueue s
     \<and> (\<forall>t. xTimerPeriodInTicks (timers s' t) = xTimerPeriodInTicks (timers s t)
          \<and> uxAutoReload (timers s' t) = uxAutoReload (timers s t)
          \<and> pxCallbackFunction (timers s' t) = pxCallbackFunction (timers s t))"

definition well_behaved :: "timer_callback \<Rightarrow> bool" where
  "well_behaved cb \<longleftrightarrow> (\<forall>fn t s. cb fn t s = Asserts \<or> (\<exists>s'. cb fn t s = Returns s' \<and> timer_frame s s'))"

lemma call_back_effect:
  "well_behaved cb \<Longrightarrow> call_back cb t s = Asserts \<or> (\<exists>s'. call_back cb t s = Returns s' \<and> timer_frame s s')"
  by (simp add: well_behaved_def call_back_def)

definition lap_left :: "tmsys \<Rightarrow> nat" where
  "lap_left s = (\<Sum>t\<in>set (active_timers s (pxCurrentTimerList s)). 2 ^ 32 - unat (expiry s t))"

definition timers_ok :: "tmsys \<Rightarrow> bool" where
  "timers_ok s \<longleftrightarrow> alists_ok (tlists s) \<and> pxCurrentTimerList s \<noteq> pxOverflowTimerList s"

lemma remove_timer_content:
  "alists_ok (tlists s) \<Longrightarrow> active_timers (remove_timer t s) l = filter (\<lambda>u. u \<noteq> t) (active_timers s l)"
  by (simp add: remove_timer_def content_remove)

text \<open>What is left of the old lap, and that no timer comes onto another list.\<close>

definition switching :: "tmsys \<Rightarrow> tmsys \<Rightarrow> bool" where
  "switching s0 s \<longleftrightarrow> timers_ok s
     \<and> pxCurrentTimerList s = pxCurrentTimerList s0 \<and> pxOverflowTimerList s = pxOverflowTimerList s0
     \<and> active_timers s (pxOverflowTimerList s0) = active_timers s0 (pxOverflowTimerList s0)
     \<and> set (active_timers s (pxCurrentTimerList s0)) \<subseteq> set (active_timers s0 (pxCurrentTimerList s0))
     \<and> (\<forall>t\<in>set (active_timers s0 (pxOverflowTimerList s0)). expiry s t = expiry s0 t)"

lemma switching_tsys: "switching s0 (s\<lparr>tsys := qs\<rparr>) = switching s0 s"
  by (simp add: switching_def timers_ok_def)

lemma switch_pass_step:
  assumes cb: "well_behaved cb" and s: "switching s0 s"
  shows "switch_pass cb u s = Asserts
     \<or> (\<exists>s'. switch_pass cb u s = Returns (False, s') \<and> switching s0 s' \<and> active_timers s' (pxCurrentTimerList s0) = [])
     \<or> (\<exists>s'. switch_pass cb u s = Returns (True, s') \<and> switching s0 s' \<and> lap_left s' < lap_left s)"
proof (cases "active_timers s (pxCurrentTimerList s)")
  case Nil
  then show ?thesis using s by (simp add: switch_pass_def switching_def)
next
  case (Cons t ts)
  let ?l = "pxCurrentTimerList s0" and ?o = "pxOverflowTimerList s0"
  have ok: "alists_ok (tlists s)" "?l \<noteq> ?o" "pxCurrentTimerList s = ?l" "pxOverflowTimerList s = ?o"
    using s unfolding switching_def timers_ok_def by metis+
  have l: "active_timers s ?l = t # ts" using Cons ok(3) by simp
  have tn: "t \<notin> set ts" "t \<notin> set (active_timers s ?o)"
  proof -
    have "t \<in> set (active_timers s ?l)" "distinct (active_timers s ?l)" using l alists_okD(1) [OF ok(1), of ?l] by simp_all
    then show "t \<notin> set ts" "t \<notin> set (active_timers s ?o)" using l ok(2) unfolding alists_ok_mem [OF ok(1)] by auto
  qed
  have rm: "active_timers (remove_timer t s) ?l = ts" "active_timers (remove_timer t s) ?o = active_timers s ?o"
    using tn l by (auto simp: remove_timer_content [OF ok(1)] filter_id_conv)
  show ?thesis
  proof (cases "call_back cb t (remove_timer t s)")
    case (Returns s1)
    then have fr: "timer_frame (remove_timer t s) s1" using call_back_effect [OF cb, of t "remove_timer t s"] by simp
    then have f: "tlists s1 = a_remove t (tlists s)" "pxCurrentTimerList s1 = ?l" "pxOverflowTimerList s1 = ?o"
      using ok by (simp_all add: timer_frame_def remove_timer_def)
    have c1: "active_timers s1 ?l = ts" "active_timers s1 ?o = active_timers s ?o" "avalue (tlists s1) = avalue (tlists s)"
      "alists_ok (tlists s1)" "acontainer (tlists s1) t = None"
      using rm f(1) alists_ok_remove [OF ok(1)] by (simp_all add: remove_timer_def)
    have sw1: "switching s0 s1"
      using s c1 f l ok(2) by (auto simp: switching_def timers_ok_def)
    have left: "lap_left s = (2 ^ 32 - unat (expiry s t)) + (\<Sum>u\<in>set ts. 2 ^ 32 - unat (expiry s u))"
      using tn(1) by (simp add: lap_left_def Cons)
    have lt: "unat (expiry s t) < 2 ^ 32" using unsigned_less [of "expiry s t", where 'a = nat] by simp
    have left1: "lap_left s1 < lap_left s" using left lt unfolding lap_left_def [of s1] f(2) c1(1,3) by linarith
    let ?v = "expiry s t + xTimerPeriodInTicks (timers s1 t)"
    let ?s2 = "insert_timer ?l t (set_expiry t ?v s1)"
    have sw2: "switching s0 ?s2"
    proof -
      have "alists_ok (tlists ?s2)"
        unfolding insert_timer_def set_expiry_def using c1 by (simp add: alists_ok_insert alists_ok_value)
      then show ?thesis using sw1 s f c1 l tn ok(2)
        by (auto simp: switching_def timers_ok_def insert_timer_def set_expiry_def content_insert)
    qed
    have left2: "lap_left ?s2 < lap_left s" if "expiry s t < ?v"
    proof -
      have c: "pxCurrentTimerList ?s2 = ?l" "set (active_timers ?s2 ?l) = insert t (set ts)"
        "expiry ?s2 t = ?v" "\<And>u. u \<noteq> t \<Longrightarrow> expiry ?s2 u = expiry s u"
        using c1 f by (simp_all add: insert_timer_def set_expiry_def content_insert)
      have "(\<Sum>u\<in>set ts. 2 ^ 32 - unat (expiry ?s2 u)) = (\<Sum>u\<in>set ts. 2 ^ 32 - unat (expiry s u))"
        by (rule sum.cong [OF refl]) (use c(4) tn(1) in metis)
      then have "lap_left ?s2 = (2 ^ 32 - unat ?v) + (\<Sum>u\<in>set ts. 2 ^ 32 - unat (expiry s u))"
        using tn(1) unfolding lap_left_def c(1,2) by (simp add: c(3))
      moreover have "2 ^ 32 - unat ?v < 2 ^ 32 - unat (expiry s t)"
        using that lt unfolding word_less_nat_alt by linarith
      ultimately show ?thesis unfolding left by linarith
    qed
    have "switch_pass cb u s = obind (if uxAutoReload (timers s1 t) = 1
        then if ?v > expiry s t then Returns ?s2 else repost u t (expiry s t) s1 else Returns s1) (\<lambda>s2. Returns (True, s2))"
      using Returns Cons f by (simp add: switch_pass_def Let_def)
    moreover have "switching s0 (s1\<lparr>tsys := qs\<rparr>)" "lap_left (s1\<lparr>tsys := qs\<rparr>) = lap_left s1" for qs
      using sw1 by (simp_all add: switching_tsys lap_left_def)
    ultimately show ?thesis
      using repost_effect [of u t "expiry s t" s1] sw1 sw2 left1 left2 by auto
  qed (use call_back_effect [OF cb, of t "remove_timer t s"] Cons in \<open>auto simp: switch_pass_def Let_def\<close>)
qed


text \<open>
  C27. At the end of a lap of the tick count the service task switches its lists, having processed every
  timer of the old lap: an auto-reload timer as often as it was due in it. This ends for any number of
  timers and any periods, unless an assertion fails: one of a callback, or that the task can post the
  commands for the new lap to its own queue. Afterwards the timers of the new lap are those of the
  overflow list, in the same order and with the same expiry times, and the new overflow list is empty.
\<close>

theorem prvSwitchTimerLists_ends:
  assumes cb: "well_behaved cb" and ok: "timers_ok s"
  shows "prvSwitchTimerLists cb uninit s = Asserts
     \<or> (\<exists>s'. prvSwitchTimerLists cb uninit s = Returns s' \<and> timers_ok s'
          \<and> pxCurrentTimerList s' = pxOverflowTimerList s \<and> pxOverflowTimerList s' = pxCurrentTimerList s
          \<and> active_timers s' (pxCurrentTimerList s') = active_timers s (pxOverflowTimerList s)
          \<and> active_timers s' (pxOverflowTimerList s') = []
          \<and> (\<forall>t\<in>set (active_timers s' (pxCurrentTimerList s')). expiry s' t = expiry s t))"
proof -
  have "switching s s" using ok by (simp add: switching_def)
  then have "orepeat (switch_pass cb uninit) s = Some Asserts
      \<or> (\<exists>s1. orepeat (switch_pass cb uninit) s = Some (Returns s1)
           \<and> (switching s s1 \<and> active_timers s1 (pxCurrentTimerList s) = []))"
    by (rule orepeat_ends [where f = lap_left]) (use switch_pass_step [OF cb] in blast)
  then show ?thesis
  proof (elim disjE exE conjE)
    fix s1 assume r: "orepeat (switch_pass cb uninit) s = Some (Returns s1)" "switching s s1"
      "active_timers s1 (pxCurrentTimerList s) = []"
    let ?s' = "s1\<lparr>pxCurrentTimerList := pxOverflowTimerList s1, pxOverflowTimerList := pxCurrentTimerList s1\<rparr>"
    have "prvSwitchTimerLists cb uninit s = Returns ?s'" using r(1) by (simp add: prvSwitchTimerLists_def)
    moreover have "timers_ok ?s'" "pxCurrentTimerList ?s' = pxOverflowTimerList s"
      "pxOverflowTimerList ?s' = pxCurrentTimerList s"
      "active_timers ?s' (pxOverflowTimerList s) = active_timers s (pxOverflowTimerList s)"
      "\<forall>t\<in>set (active_timers s (pxOverflowTimerList s)). expiry ?s' t = expiry s t"
      using r(2) unfolding switching_def timers_ok_def by (simp_all, metis+)
    ultimately show ?thesis using r(3) by (intro disjI2 exI [of _ ?s']) simp
  qed (simp add: prvSwitchTimerLists_def)
qed

section \<open>Commands\<close>

lemma message_roundtrip: "bytes_message (message_bytes msg) = msg"
  by (cases msg) (simp add: bytes_message_def message_bytes_def bytes_word_bytes)

lemma length_message [simp]: "length (message_bytes msg) = 16"
  by (simp add: message_bytes_def)

lemma send_accepted:
  assumes g: "good i T (kern s)" and s: "uxSchedulerSuspended (kern s) = 0"
    and h: "queue_holds q s xs" "pxQueueSetContainer (queues s q) = None" "q \<noteq> 0"
    and room: "has_room q queueSEND_TO_BACK s" and item: "length item = isz (queues s q)"
  shows "\<exists>s'. xQueueGenericSend gs q (Some item) wait queueSEND_TO_BACK s = Returns (True, s')
     \<and> queue_holds q s' (xs @ [item]) \<and> good i T (kern s')"
proof -
  have m: "\<not> queue_is_mutex (queues s q)" using h(1) by (simp add: queue_holds_def)
  let ?s1 = "update_queue q (copy_in (Some item) queueSEND_TO_BACK) s"
  obtain k where k: "(let (y, s2) = remove_waiter (xTasksWaitingToReceive q) ?s1 in queueYIELD_IF y s2)
      = Returns (?s1\<lparr>kern := k\<rparr>)" "good i T k"
    using remove_then_yield_good [of i T ?s1] g by auto
  have "queue_send_now q (Some item) queueSEND_TO_BACK s = Returns (?s1\<lparr>kern := k\<rparr>)"
    using m h(2) k(1) by (auto simp: queue_send_now_def copy_to_queue remove_waiter_def split: if_splits)
  moreover have "queue_holds q (?s1\<lparr>kern := k\<rparr>) (xs @ [item])"
    by (rule queue_holds_copy_in [OF h(1) item room]) simp
  ultimately show ?thesis using k(2) h(3) room may_wait_running [OF s]
    by (simp add: xQueueGenericSend_def queue_send_loop.simps)
qed

text \<open>
  C28. A command that a task posts to the service task while there is room in its queue is put behind
  the commands before it, and when its turn comes the service task carries out that command on that
  timer with that value; the calls between leave it in the queue unchanged.
\<close>

theorem timer_command_delivered:
  fixes s :: tmsys and t :: nat and cmd v uninit :: u32
  defines "q \<equiv> xTimerQueue s"
    and "msg \<equiv> \<lparr>xMessageID = cmd, msg_word0 = v, msg_word1 = of_nat t, msg_word2 = uninit\<rparr>"
  assumes g: "good i T (kern (tsys s))" and u: "uxSchedulerSuspended (kern (tsys s)) = 0"
    and h: "queue_holds q (tsys s) xs" "pxQueueSetContainer (queues (tsys s) q) = None" "q \<noteq> 0"
    and room: "has_room q queueSEND_TO_BACK (tsys s)" and z: "isz (queues (tsys s) q) = 16"
    and c: "cmd < tmrFIRST_FROM_ISR_COMMAND" "t \<noteq> 0"
  shows "\<exists>qs. xTimerGenericCommand gs uninit t cmd v hpw wait s = Returns (True, hpw, s\<lparr>tsys := qs\<rparr>)
     \<and> queue_holds q qs (xs @ [message_bytes msg]) \<and> good i T (kern qs)
     \<and> (\<forall>s2 ys. queue_holds q (tsys s2) (message_bytes msg # ys) \<and> good i T (kern (tsys s2))
            \<and> uxSchedulerSuspended (kern (tsys s2)) = 0 \<and> xTimerQueue s2 = q \<longrightarrow>
          (\<exists>qs2. queue_holds q qs2 ys \<and> good i T (kern qs2)
             \<and> command_pass cb pf uninit' s2 =
                 obind (timer_command cb uninit' msg (s2\<lparr>tsys := qs2\<rparr>)) (\<lambda>s3. Returns (True, s3))))"
proof -
  have sc: "sint cmd < sint tmrFIRST_FROM_ISR_COMMAND" "\<not> sint cmd < 0"
  proof -
    have "uint cmd < 6" using c(1) by (simp add: tmrFIRST_FROM_ISR_COMMAND_def word_less_def)
    moreover have "- 2147483648 \<le> uint cmd" by (rule order_trans [OF _ unsigned_greater_eq]) simp
    ultimately have "sint cmd = uint cmd" by (simp add: sint_uint signed_take_bit_int_eq_self_iff)
    then show "sint cmd < sint tmrFIRST_FROM_ISR_COMMAND" "\<not> sint cmd < 0"
      using \<open>uint cmd < 6\<close> by (simp_all add: tmrFIRST_FROM_ISR_COMMAND_def)
  qed
  have len: "length (message_bytes msg) = isz (queues (tsys s) q)" using z by simp
  obtain qs where qs: "xQueueGenericSend gs q (Some (message_bytes msg))
        (if xTaskGetSchedulerState (kern (tsys s)) = taskSCHEDULER_RUNNING then wait else 0) queueSEND_TO_BACK (tsys s)
      = Returns (True, qs)"
    "queue_holds q qs (xs @ [message_bytes msg])" "good i T (kern qs)"
    using send_accepted [OF g u h room len] by metis
  have call: "xTimerGenericCommand gs uninit t cmd v hpw wait s = Returns (True, hpw, s\<lparr>tsys := qs\<rparr>)"
    using qs(1) h(3) c(2) sc(1) by (simp add: xTimerGenericCommand_def Let_def q_def msg_def)
  have "\<exists>qs2. queue_holds q qs2 ys \<and> good i T (kern qs2)
      \<and> command_pass cb pf uninit' s2 = obind (timer_command cb uninit' msg (s2\<lparr>tsys := qs2\<rparr>)) (\<lambda>s3. Returns (True, s3))"
    if s2: "queue_holds q (tsys s2) (message_bytes msg # ys)" "good i T (kern (tsys s2))" "xTimerQueue s2 = q"
      "uxSchedulerSuspended (kern (tsys s2)) = 0" for s2 ys
  proof -
    obtain qs2 where r: "queue_receive_now q (tsys s2) = Returns (message_bytes msg, qs2)" "queue_holds q qs2 ys" "good i T (kern qs2)"
      using receive_now_returns [OF s2(2,1)] by blast
    have "uxMessagesWaiting (queues (tsys s2) q) \<noteq> 0"
      using s2(1) queue_rep_empty [of _ "message_bytes msg # ys"] by (auto simp: queue_holds_def)
    then have "xQueueReceive [] q True 0 (tsys s2) = Returns (Some (message_bytes msg), qs2)"
      using r(1) h(3) may_wait_running [OF s2(4)]
      by (simp add: xQueueReceive_def queue_receive_loop.simps word_neq_0_conv)
    then show ?thesis using r(2,3) sc(2) s2(3)
      by (intro exI [of _ qs2]) (simp add: command_pass_def Let_def message_roundtrip msg_def)
  qed
  then show ?thesis using call qs(2,3) by blast
qed

section \<open>Two timers\<close>

definition demo_timer :: timer_control where
  "demo_timer = \<lparr>pcTimerName = [], xTimerPeriodInTicks = 10, uxAutoReload = 0, pvTimerID = 0, pxCallbackFunction = 0\<rparr>"

definition demo_timers :: tmsys where
  "demo_timers = \<lparr>tsys = demo_sys, theap = \<lparr>ucHeap = 4096, xStart = 16, pxEnd = 0, pxNextFreeBlock = (\<lambda>p. 0),
       xBlockSize = (\<lambda>p. 0), xFreeBytesRemaining = 0, xMinimumEverFreeBytesRemaining = 0, xBlockAllocatedBit = 0\<rparr>,
     tregistry = [], timers = (\<lambda>t. demo_timer),
     tlists = \<lparr>content = (\<lambda>l. [])(xActiveTimerList1 := [100], xActiveTimerList2 := [200]), cursor = (\<lambda>l. None),
       avalue = (\<lambda>t. 0)(100 := 0xfffffff0, 200 := 5),
       acontainer = (\<lambda>t. None)(100 := Some xActiveTimerList1, 200 := Some xActiveTimerList2)\<rparr>,
     pxCurrentTimerList = xActiveTimerList1, pxOverflowTimerList = xActiveTimerList2,
     xTimerQueue = 80, xLastTime = 0xffffffff\<rparr>"

theorem prvInsertTimerInActiveList_decides_witness:
  "\<exists>s'. prvInsertTimerInActiveList 300 5 1 0xfffffffb demo_timers = (False, s')
     \<and> expiry s' 300 = 5 \<and> s' = insert_timer xActiveTimerList1 300 (set_expiry 300 5 demo_timers)"
proof -
  obtain late s' where r: "prvInsertTimerInActiveList 300 (of_nat (2 ^ 32 - 5) + 10) (of_nat (2 ^ 32 + 1)) (of_nat (2 ^ 32 - 5)) demo_timers
      = (late, s')" by fastforce
  have w: "(4294967301 :: tick) = 5" "(4294967297 :: tick) = 1" by simp_all
  have p: "xTimerPeriodInTicks (timers demo_timers 300) = 10" "pxCurrentTimerList demo_timers = xActiveTimerList1"
    by (simp_all add: demo_timers_def demo_timer_def)
  have "\<not> late \<and> expiry s' 300 = 5 \<and> s' = insert_timer xActiveTimerList1 300 (set_expiry 300 5 demo_timers)"
    using prvInsertTimerInActiveList_decides [OF _ _ p(1) _ r] w by (auto simp: p(2))
  then show ?thesis using r w by (intro exI [of _ s']) auto
qed

theorem prvSwitchTimerLists_ends_witness:
  "\<exists>s'. prvSwitchTimerLists (\<lambda>fn t s. Returns s) 0 demo_timers = Returns s'
     \<and> pxCurrentTimerList s' = xActiveTimerList2 \<and> active_timers s' xActiveTimerList2 = [200]
     \<and> active_timers s' xActiveTimerList1 = []"
proof -
  let ?cb = "\<lambda>fn t s. Returns s" and ?s1 = "remove_timer 100 demo_timers"
  have ok: "timers_ok demo_timers" "well_behaved ?cb"
    by (auto simp: timers_ok_def alists_ok_def demo_timers_def well_behaved_def timer_frame_def)
  have f: "pxCurrentTimerList demo_timers = xActiveTimerList1" "pxOverflowTimerList demo_timers = xActiveTimerList2"
    "active_timers demo_timers xActiveTimerList2 = [200]" by (simp_all add: demo_timers_def)
  have p1: "switch_pass ?cb 0 demo_timers = Returns (True, ?s1)"
    by (simp add: switch_pass_def demo_timers_def call_back_def demo_timer_def remove_timer_def)
  have p2: "switch_pass ?cb 0 ?s1 = Returns (False, ?s1)"
    by (simp add: switch_pass_def demo_timers_def remove_timer_def a_remove_def)
  have "prvSwitchTimerLists ?cb 0 demo_timers \<noteq> Asserts"
    by (simp add: prvSwitchTimerLists_def orepeat_step [of "switch_pass ?cb 0", OF p1] orepeat_stop [of "switch_pass ?cb 0", OF p2])
  then show ?thesis using prvSwitchTimerLists_ends [OF ok(2,1), of 0] unfolding f by auto
qed

definition demo_timer_queue :: queue where
  "demo_timer_queue = demo_queue\<lparr>pcTail := 32, pcReadFrom := 16, pucQueueStorage := replicate 32 0, uxItemSize := 16\<rparr>"

theorem timer_command_delivered_witness:
  "\<exists>qs. xTimerGenericCommand [] 7 100 tmrCOMMAND_START 1 None 0
        (demo_timers\<lparr>tsys := update_queue 80 (\<lambda>_. demo_timer_queue) demo_sys\<rparr>)
        = Returns (True, None, demo_timers\<lparr>tsys := qs\<rparr>)
     \<and> queue_holds 80 qs [message_bytes \<lparr>xMessageID = tmrCOMMAND_START, msg_word0 = 1, msg_word1 = 100, msg_word2 = 7\<rparr>]"
proof -
  let ?s = "demo_timers\<lparr>tsys := update_queue 80 (\<lambda>_. demo_timer_queue) demo_sys\<rparr>"
  have h: "queue_holds 80 (tsys ?s) []"
    by (simp add: queue_holds_def queue_rep_def demo_timer_queue_def demo_queue_def positions_def cap_def)
  have q: "xTimerQueue ?s = 80" by (simp add: demo_timers_def)
  show ?thesis
    using timer_command_delivered [of 0 "{0, 4, 8}" ?s "[]" tmrCOMMAND_START 100 "[]" 7 1 None 0] h demo_good
    unfolding q by (simp add: demo_timer_queue_def demo_queue_def has_room_def tmrCOMMAND_START_def tmrFIRST_FROM_ISR_COMMAND_def) blast
qed

end
