(* ===== verification/Lwip_Prelude.thy ===== *)
theory Lwip_Prelude
  imports Prelude
begin

text \<open>
  Shared vocabulary of the LwIP components: the integer types of \<open>arch/cc.h\<close>, the assertion macros
  of \<open>lwip/debug.h\<close>, alignment (\<open>lwip/arch.h\<close>), byte order (\<open>lwip/def.h\<close>, \<open>core/def.c\<close>) and the
  byte memory the payload pointers point into. Pointers are addresses (\<open>nat\<close>, NULL is 0).

  Whether \<open>LWIP_DEBUG\<close> is defined decides what a failing \<open>LWIP_ASSERT\<close> does (\<open>arch/cc.h\<close>): without
  it the macro spins for ever, with it, as \<open>Rules.mak\<close> builds the stack, the code prints a line and
  goes on. Every definition that asserts has the flag as its first argument, and the properties hold
  for both builds.
\<close>

type_synonym u16 = "16 word"
type_synonym s16 = "16 word"

section \<open>Assertions (lwip/debug.h)\<close>

definition LWIP_ASSERT :: "bool \<Rightarrow> bool \<Rightarrow> 'a outcome \<Rightarrow> 'a outcome" where
  "LWIP_ASSERT debug c k = (if c \<or> debug then k else Asserts)"

text \<open>\<open>LWIP_ERROR\<close> runs its handler when the condition is false and the assertion went on.\<close>

definition LWIP_ERROR :: "bool \<Rightarrow> bool \<Rightarrow> 'a outcome \<Rightarrow> 'a outcome \<Rightarrow> 'a outcome" where
  "LWIP_ERROR debug c handler k = (if c then k else LWIP_ASSERT debug c handler)"

lemma LWIP_ASSERT_True [simp]: "c \<Longrightarrow> LWIP_ASSERT d c k = k"
  by (simp add: LWIP_ASSERT_def)

lemma LWIP_ASSERT_debug [simp]: "LWIP_ASSERT True c k = k"
  by (simp add: LWIP_ASSERT_def)

lemma LWIP_ASSERT_False: "\<not> c \<Longrightarrow> LWIP_ASSERT False c k = Asserts"
  by (simp add: LWIP_ASSERT_def)

lemma LWIP_ERROR_True [simp]: "c \<Longrightarrow> LWIP_ERROR d c h k = k"
  by (simp add: LWIP_ERROR_def)

lemma LWIP_ERROR_False: "\<not> c \<Longrightarrow> LWIP_ERROR d c h k = (if d then h else Asserts)"
  by (simp add: LWIP_ERROR_def LWIP_ASSERT_def)

section \<open>Alignment (lwip/arch.h)\<close>

definition MEM_ALIGNMENT :: u32 where "MEM_ALIGNMENT = 4"

definition LWIP_MEM_ALIGN_SIZE :: "u32 \<Rightarrow> u32" where
  "LWIP_MEM_ALIGN_SIZE n = (n + MEM_ALIGNMENT - 1) AND NOT (MEM_ALIGNMENT - 1)"

definition LWIP_MEM_ALIGN :: "nat \<Rightarrow> nat" where
  "LWIP_MEM_ALIGN addr = unat ((of_nat addr + MEM_ALIGNMENT - 1) AND NOT (MEM_ALIGNMENT - 1))"

lemma align4: "unat (x + 3) = unat x + 3 \<Longrightarrow> unat ((x + MEM_ALIGNMENT - 1) AND NOT (MEM_ALIGNMENT - 1)) = (unat x + 3) div 4 * 4"
proof -
  assume x: "unat (x + 3) = unat x + 3"
  have "(x + MEM_ALIGNMENT - 1) AND NOT (MEM_ALIGNMENT - 1) = (x + 3) AND NOT 3"
    by (simp add: MEM_ALIGNMENT_def flip: add_diff_eq)
  then show ?thesis by (simp only: mask3_round x) (simp only: minus_mod_eq_div_mult)
qed

lemma LWIP_MEM_ALIGN_SIZE_unat:
  "unat n < 2 ^ 32 - 3 \<Longrightarrow> unat (LWIP_MEM_ALIGN_SIZE n) = (unat n + 3) div 4 * 4"
  unfolding LWIP_MEM_ALIGN_SIZE_def by (rule align4) (simp add: unat_word_ariths)

lemma LWIP_MEM_ALIGN_nat: "a < 2 ^ 32 - 3 \<Longrightarrow> LWIP_MEM_ALIGN a = (a + 3) div 4 * 4"
proof -
  assume a: "a < 2 ^ 32 - 3"
  then have u: "unat (of_nat a :: u32) = a" by (simp add: unat_of_nat)
  have "unat (of_nat a + 3 :: u32) = unat (of_nat a :: u32) + 3" using a by (simp add: unat_word_ariths u)
  from align4 [OF this] show ?thesis unfolding LWIP_MEM_ALIGN_def u .
qed

section \<open>Small numbers as words\<close>

text \<open>Numbers below 64 K are distinct words.\<close>

lemma of_nat_u16_eq: "a < 65536 \<Longrightarrow> b < 65536 \<Longrightarrow> (of_nat a :: u16) = of_nat b \<longleftrightarrow> a = b"
  by (simp add: of_nat_eq_iff word_of_nat_eq_iff take_bit_eq_mod)

lemma unat_of_nat_u16: "a < 65536 \<Longrightarrow> unat (of_nat a :: u16) = a"
  by (simp add: unat_of_nat)

lemma u16_less: "a < 65536 \<Longrightarrow> b < 65536 \<Longrightarrow> (of_nat a :: u16) < of_nat b \<longleftrightarrow> a < b"
  by (simp add: word_less_nat_alt unat_of_nat_u16)

lemma ucast_of_nat_u16: "a < 65536 \<Longrightarrow> (ucast (of_nat a :: u16) :: u32) = of_nat a"
  by (rule word_unat_eq_iff [THEN iffD2]) (simp add: unsigned_ucast_eq unat_of_nat take_bit_eq_mod)

lemma u32_of_nat_le: "a < 65536 \<Longrightarrow> b < 65536 \<Longrightarrow> (of_nat a :: u32) \<le> of_nat b \<longleftrightarrow> a \<le> b"
  by (simp add: word_le_nat_alt unat_of_nat)

lemma u32_of_nat_less: "a < 65536 \<Longrightarrow> b < 65536 \<Longrightarrow> (of_nat a :: u32) < of_nat b \<longleftrightarrow> a < b"
  by (simp add: word_less_nat_alt unat_of_nat)

section \<open>Bytes in memory\<close>

type_synonym memory = "nat \<Rightarrow> u8"

definition rd :: "memory \<Rightarrow> nat \<Rightarrow> nat \<Rightarrow> u8 list" where
  "rd m a n = map m [a..<a + n]"

text \<open>\<open>MEMCPY\<close> of a list of bytes to an address.\<close>

definition wr :: "memory \<Rightarrow> nat \<Rightarrow> u8 list \<Rightarrow> memory" where
  "wr m a xs = (\<lambda>x. if a \<le> x \<and> x < a + length xs then xs ! (x - a) else m x)"

lemma length_rd [simp]: "length (rd m a n) = n"
  by (simp add: rd_def)

lemma rd_0 [simp]: "rd m a 0 = []"
  by (simp add: rd_def)

lemma rd_Suc: "rd m a (Suc n) = m a # rd m (Suc a) n"
  by (simp add: rd_def upt_conv_Cons del: upt_Suc)

lemma nth_rd [simp]: "i < n \<Longrightarrow> rd m a n ! i = m (a + i)"
  by (simp add: rd_def)

lemma rd_add: "rd m a (i + j) = rd m a i @ rd m (a + i) j"
  by (induction i arbitrary: a) (simp_all add: rd_Suc)

lemma take_rd [simp]: "take k (rd m a n) = rd m a (min k n)"
  by (rule nth_equalityI) auto

lemma drop_rd [simp]: "drop k (rd m a n) = rd m (a + k) (n - k)"
  by (rule nth_equalityI) (auto simp: add.assoc)

lemma rd_cong: "(\<And>x. a \<le> x \<Longrightarrow> x < a + n \<Longrightarrow> m x = m' x) \<Longrightarrow> rd m a n = rd m' a n"
  by (simp add: rd_def)

lemma rd_wr_same [simp]: "n = length xs \<Longrightarrow> rd (wr m a xs) a n = xs"
  by (rule nth_equalityI) (auto simp: wr_def)

lemma rd_wr_disjoint: "a + length xs \<le> b \<or> b + n \<le> a \<Longrightarrow> rd (wr m a xs) b n = rd m b n"
  by (rule rd_cong) (auto simp: wr_def)

lemma wr_Nil [simp]: "wr m a [] = m"
  by (rule ext) (auto simp: wr_def)

lemma wr_append: "wr m a (xs @ ys) = wr (wr m a xs) (a + length xs) ys"
  by (rule ext) (auto simp: wr_def nth_append)

lemma wr_outside: "x < a \<or> a + length xs \<le> x \<Longrightarrow> wr m a xs x = m x"
  by (auto simp: wr_def)

section \<open>Byte order (lwip/def.h, core/def.c)\<close>

definition lwip_htons :: "u16 \<Rightarrow> u16" where
  "lwip_htons n = push_bit 8 (n AND 0x00ff) OR drop_bit 8 (n AND 0xff00)"

definition lwip_htonl :: "u32 \<Rightarrow> u32" where
  "lwip_htonl n = (push_bit 24 (n AND 0x000000ff) OR push_bit 8 (n AND 0x0000ff00)
     OR drop_bit 8 (n AND 0x00ff0000)) OR drop_bit 24 (n AND 0xff000000)"

section \<open>Linked lists\<close>

text \<open>\<open>links nx p xs\<close>: from \<open>p\<close> the links \<open>nx\<close> lead through \<open>xs\<close> to NULL.\<close>

fun links :: "(nat \<Rightarrow> nat) \<Rightarrow> nat \<Rightarrow> nat list \<Rightarrow> bool" where
  "links nx p [] \<longleftrightarrow> p = 0"
| "links nx p (x # xs) \<longleftrightarrow> p = x \<and> x \<noteq> 0 \<and> links nx (nx x) xs"

lemma links_cong: "links nx p xs \<Longrightarrow> (\<And>x. x \<in> set xs \<Longrightarrow> nx' x = nx x) \<Longrightarrow> links nx' p xs"
  by (induction nx p xs rule: links.induct) auto

lemma links_upd [simp]: "a \<notin> set xs \<Longrightarrow> links (nx(a := b)) p xs \<longleftrightarrow> links nx p xs"
  by (induction nx p xs rule: links.induct) auto

lemma links_unique: "links nx p xs \<Longrightarrow> links nx p ys \<Longrightarrow> xs = ys"
  by (induction nx p xs arbitrary: ys rule: links.induct) (case_tac ys; auto)+

lemma links_suffix: "links nx p (xs @ y # ys) \<Longrightarrow> links nx y (y # ys)"
  by (induction nx p xs rule: links.induct) auto

lemma links_distinct: "links nx p xs \<Longrightarrow> distinct xs"
proof (induction nx p xs rule: links.induct)
  case (2 nx p x xs)
  have "x \<notin> set xs"
  proof
    assume "x \<in> set xs"
    then obtain as bs where "xs = as @ x # bs" by (meson split_list)
    moreover have "links nx x (x # xs)" using 2(2) by simp
    moreover have "links nx x (x # bs)" using 2(2) calculation(1) links_suffix [of nx "nx x" as x bs] by simp
    ultimately have "length xs = length bs" using links_unique by (metis list.inject)
    then show False using \<open>xs = as @ x # bs\<close> by simp
  qed
  then show ?case using 2 by simp
qed simp

lemma links_nonzero: "links nx p xs \<Longrightarrow> 0 \<notin> set xs"
  by (induction nx p xs rule: links.induct) auto

lemma links_append:
  "links nx p (xs @ ys) \<longleftrightarrow>
     (if xs = [] then links nx p ys
      else hd xs = p \<and> 0 \<notin> set xs \<and> (\<forall>i. Suc i < length xs \<longrightarrow> nx (xs ! i) = xs ! Suc i) \<and> links nx (nx (last xs)) ys)"
proof (induction xs arbitrary: p)
  case (Cons x xs)
  show ?case
  proof (cases xs)
    case (Cons y zs)
    have "(\<forall>i. Suc i < length (x # xs) \<longrightarrow> nx ((x # xs) ! i) = (x # xs) ! Suc i) \<longleftrightarrow>
        nx x = y \<and> (\<forall>i. Suc i < length xs \<longrightarrow> nx (xs ! i) = xs ! Suc i)"
      unfolding Cons by (auto simp: nth_Cons split: nat.splits)
    then show ?thesis using Cons.IH [of "nx x"] Cons by auto
  qed auto
qed simp

section \<open>Loops over outcomes\<close>

lemma obind_cong [fundef_cong]:
  "m = m' \<Longrightarrow> (\<And>x. m' = Returns x \<Longrightarrow> f x = g x) \<Longrightarrow> obind m f = obind m' g"
  by (cases m') auto

end
