(* ===== verification/Mem.thy ===== *)
theory Mem
  imports Lwip_Prelude
begin

text \<open>
  The heap of LwIP, \<open>lwip/src/core/mem.c\<close> with \<open>MEM_SIZE\<close> 16 KB (\<open>lwipopts.h\<close>), so \<open>mem_size_t\<close> is
  16 bits wide, \<open>MEM_LIBC_MALLOC\<close>, \<open>MEM_USE_POOLS\<close> and \<open>LWIP_ALLOW_MEM_FREE_FROM_OTHER_CONTEXT\<close> 0.
  Every block starts with a \<open>struct mem\<close> holding the offsets of the next and the previous block; the
  state gives the header at every offset into \<open>ram\<close>. Pointers into the heap are addresses, the
  code's \<open>struct mem *\<close> are the offsets it converts them to. The mutex around each call makes it one
  step.
\<close>

section \<open>State\<close>

record smem =
  mem_next :: u16
  mem_prev :: u16
  mem_used :: u8

record lwheap =
  ram :: nat
  mem_at :: "u16 \<Rightarrow> smem"
  lfree :: u16

definition MIN_SIZE :: u32 where "MIN_SIZE = 12"
definition MIN_SIZE_ALIGNED :: u32 where "MIN_SIZE_ALIGNED = LWIP_MEM_ALIGN_SIZE MIN_SIZE"

text \<open>\<open>sizeof( struct mem )\<close> is 6.\<close>

definition SIZEOF_STRUCT_MEM :: u32 where "SIZEOF_STRUCT_MEM = LWIP_MEM_ALIGN_SIZE 6"
definition MEM_SIZE :: u32 where "MEM_SIZE = 16 * 1024"
definition MEM_SIZE_ALIGNED :: u32 where "MEM_SIZE_ALIGNED = LWIP_MEM_ALIGN_SIZE MEM_SIZE"

text \<open>The offset of \<open>ram_end\<close>, and the address of the header at an offset.\<close>

definition ram_end :: u16 where "ram_end = ucast MEM_SIZE_ALIGNED"

definition at_ram :: "lwheap \<Rightarrow> u16 \<Rightarrow> nat" where "at_ram h off = ram h + unat off"

abbreviation set_mem :: "u16 \<Rightarrow> (smem \<Rightarrow> smem) \<Rightarrow> lwheap \<Rightarrow> lwheap" where
  "set_mem p f h \<equiv> h\<lparr>mem_at := (mem_at h)(p := f (mem_at h p))\<rparr>"

section \<open>Operations\<close>

definition mem_init :: "nat \<Rightarrow> lwheap \<Rightarrow> lwheap" where
  "mem_init ram_heap h =
     (let h = h\<lparr>ram := LWIP_MEM_ALIGN ram_heap\<rparr>;
          h = set_mem 0 (\<lambda>m. m\<lparr>mem_next := ucast MEM_SIZE_ALIGNED, mem_prev := 0, mem_used := 0\<rparr>) h;
          h = set_mem ram_end (\<lambda>m. m\<lparr>mem_used := 1, mem_next := ucast MEM_SIZE_ALIGNED,
                mem_prev := ucast MEM_SIZE_ALIGNED\<rparr>) h
      in h\<lparr>lfree := 0\<rparr>)"

definition plug_forward :: "u16 \<Rightarrow> lwheap \<Rightarrow> lwheap" where
  "plug_forward mem h =
     (let nmem = mem_next (mem_at h mem)
      in if mem \<noteq> nmem \<and> mem_used (mem_at h nmem) = 0 \<and> nmem \<noteq> ram_end
         then let h = (if lfree h = nmem then h\<lparr>lfree := mem\<rparr> else h);
                  h = set_mem mem (\<lambda>m. m\<lparr>mem_next := mem_next (mem_at h nmem)\<rparr>) h
              in set_mem (mem_next (mem_at h nmem)) (\<lambda>m. m\<lparr>mem_prev := mem\<rparr>) h
         else h)"

definition plug_backward :: "u16 \<Rightarrow> lwheap \<Rightarrow> lwheap" where
  "plug_backward mem h =
     (let pmem = mem_prev (mem_at h mem)
      in if pmem \<noteq> mem \<and> mem_used (mem_at h pmem) = 0
         then let h = (if lfree h = mem then h\<lparr>lfree := pmem\<rparr> else h);
                  h = set_mem pmem (\<lambda>m. m\<lparr>mem_next := mem_next (mem_at h mem)\<rparr>) h
              in set_mem (mem_next (mem_at h mem)) (\<lambda>m. m\<lparr>mem_prev := pmem\<rparr>) h
         else h)"

definition plug_holes :: "bool \<Rightarrow> u16 \<Rightarrow> lwheap \<Rightarrow> lwheap outcome" where
  "plug_holes debug mem h =
     LWIP_ASSERT debug (mem < ram_end)
       (LWIP_ASSERT debug (mem_used (mem_at h mem) = 0)
         (LWIP_ASSERT debug (ucast (mem_next (mem_at h mem)) \<le> MEM_SIZE_ALIGNED)
           (Returns (plug_backward mem (plug_forward mem h)))))"

definition in_ram :: "lwheap \<Rightarrow> nat \<Rightarrow> bool" where
  "in_ram h rmem \<longleftrightarrow> ram h \<le> rmem \<and> rmem < at_ram h ram_end"

text \<open>\<open>(mem_size_t)((u8_t *)mem - ram)\<close> of the header in front of a block.\<close>

definition mem_of :: "lwheap \<Rightarrow> nat \<Rightarrow> u16" where
  "mem_of h rmem = of_int (int rmem - uint SIZEOF_STRUCT_MEM - int (ram h))"

definition mem_free :: "bool \<Rightarrow> nat \<Rightarrow> lwheap \<Rightarrow> lwheap outcome" where
  "mem_free debug rmem h =
     (if rmem = 0 then Returns h
      else LWIP_ASSERT debug (rmem mod 4 = 0)
        (LWIP_ASSERT debug (in_ram h rmem)
          (if \<not> in_ram h rmem then Returns h
           else let mem = mem_of h rmem
                in LWIP_ASSERT debug (mem_used (mem_at h mem) \<noteq> 0)
                     (let h = set_mem mem (\<lambda>m. m\<lparr>mem_used := 0\<rparr>) h;
                          h = (if mem < lfree h then h\<lparr>lfree := mem\<rparr> else h)
                      in plug_holes debug mem h))))"

text \<open>The size of a request, in \<open>mem_size_t\<close>, after alignment and the minimum.\<close>

definition request_size :: "u16 \<Rightarrow> u16" where
  "request_size n =
     (let size = (ucast (LWIP_MEM_ALIGN_SIZE (ucast n)) :: u16)
      in if ucast size < MIN_SIZE_ALIGNED then ucast MIN_SIZE_ALIGNED else size)"

text \<open>The two parts of \<open>mem_trim\<close> that give memory back: to the free block after it, or as a block.\<close>

definition trim_into_next :: "u16 \<Rightarrow> u16 \<Rightarrow> lwheap \<Rightarrow> lwheap" where
  "trim_into_next ptr newsize h =
     (let mem2 = mem_next (mem_at h ptr);
          nxt = mem_next (mem_at h mem2);
          ptr2 = ptr + ucast SIZEOF_STRUCT_MEM + newsize;
          h = (if lfree h = mem2 then h\<lparr>lfree := ptr2\<rparr> else h);
          h = set_mem ptr2 (\<lambda>m. m\<lparr>mem_used := 0, mem_next := nxt, mem_prev := ptr\<rparr>) h;
          h = set_mem ptr (\<lambda>m. m\<lparr>mem_next := ptr2\<rparr>) h
      in if ucast (mem_next (mem_at h ptr2)) \<noteq> MEM_SIZE_ALIGNED
         then set_mem (mem_next (mem_at h ptr2)) (\<lambda>m. m\<lparr>mem_prev := ptr2\<rparr>) h else h)"

definition trim_new_block :: "u16 \<Rightarrow> u16 \<Rightarrow> lwheap \<Rightarrow> lwheap" where
  "trim_new_block ptr newsize h =
     (let ptr2 = ptr + ucast SIZEOF_STRUCT_MEM + newsize;
          h = (if ptr2 < lfree h then h\<lparr>lfree := ptr2\<rparr> else h);
          h = set_mem ptr2 (\<lambda>m. m\<lparr>mem_used := 0, mem_next := mem_next (mem_at h ptr), mem_prev := ptr\<rparr>) h;
          h = set_mem ptr (\<lambda>m. m\<lparr>mem_next := ptr2\<rparr>) h
      in if ucast (mem_next (mem_at h ptr2)) \<noteq> MEM_SIZE_ALIGNED
         then set_mem (mem_next (mem_at h ptr2)) (\<lambda>m. m\<lparr>mem_prev := ptr2\<rparr>) h else h)"

definition mem_trim :: "bool \<Rightarrow> nat \<Rightarrow> u16 \<Rightarrow> lwheap \<Rightarrow> (nat \<times> lwheap) outcome" where
  "mem_trim debug rmem newsize h =
     (let newsize = request_size newsize
      in if ucast newsize > MEM_SIZE_ALIGNED then Returns (0, h)
         else LWIP_ASSERT debug (in_ram h rmem)
           (if \<not> in_ram h rmem then Returns (rmem, h)
            else let ptr = mem_of h rmem;
                     size = mem_next (mem_at h ptr) - ptr - ucast SIZEOF_STRUCT_MEM
                 in LWIP_ASSERT debug (newsize \<le> size)
                   (if newsize > size then Returns (0, h)
                    else if newsize = size then Returns (rmem, h)
                    else if mem_used (mem_at h (mem_next (mem_at h ptr))) = 0
                    then Returns (rmem, trim_into_next ptr newsize h)
                    else if ucast newsize + SIZEOF_STRUCT_MEM + MIN_SIZE_ALIGNED \<le> ucast size
                    then Returns (rmem, trim_new_block ptr newsize h)
                    else Returns (rmem, h))))"

text \<open>The room behind the header at an offset, and the search of \<open>mem_malloc\<close>.\<close>

definition mem_room :: "lwheap \<Rightarrow> u16 \<Rightarrow> u32" where
  "mem_room h ptr = ucast (mem_next (mem_at h ptr)) - (ucast ptr + SIZEOF_STRUCT_MEM)"

partial_function (option) mem_search :: "lwheap \<Rightarrow> u16 \<Rightarrow> u16 \<Rightarrow> u16 option option" where
  "mem_search h n ptr =
     (if ucast ptr < MEM_SIZE_ALIGNED - ucast n
      then if mem_used (mem_at h ptr) = 0 \<and> mem_room h ptr \<ge> ucast n
           then Some (Some ptr)
           else mem_search h n (mem_next (mem_at h ptr))
      else Some None)"

definition mem_take :: "u16 \<Rightarrow> u16 \<Rightarrow> lwheap \<Rightarrow> lwheap" where
  "mem_take ptr n h =
     (if mem_room h ptr \<ge> ucast n + SIZEOF_STRUCT_MEM + MIN_SIZE_ALIGNED
      then let ptr2 = ptr + ucast SIZEOF_STRUCT_MEM + n;
               h = set_mem ptr2 (\<lambda>m. m\<lparr>mem_used := 0, mem_next := mem_next (mem_at h ptr), mem_prev := ptr\<rparr>) h;
               h = set_mem ptr (\<lambda>m. m\<lparr>mem_next := ptr2, mem_used := 1\<rparr>) h
           in if ucast (mem_next (mem_at h ptr2)) \<noteq> MEM_SIZE_ALIGNED
              then set_mem (mem_next (mem_at h ptr2)) (\<lambda>m. m\<lparr>mem_prev := ptr2\<rparr>) h else h
      else set_mem ptr (\<lambda>m. m\<lparr>mem_used := 1\<rparr>) h)"

text \<open>Advancing \<open>lfree\<close> when the lowest free block was taken.\<close>

partial_function (option) next_unused :: "lwheap \<Rightarrow> u16 \<Rightarrow> u16 option" where
  "next_unused h cur =
     (if mem_used (mem_at h cur) \<noteq> 0 \<and> cur \<noteq> ram_end then next_unused h (mem_next (mem_at h cur))
      else Some cur)"

definition mem_malloc :: "bool \<Rightarrow> u16 \<Rightarrow> lwheap \<Rightarrow> (nat \<times> lwheap) outcome" where
  "mem_malloc debug n h =
     (if n = 0 then Returns (0, h)
      else let size = request_size n
           in if ucast size > MEM_SIZE_ALIGNED then Returns (0, h)
              else obind (oreturns (mem_search h size (lfree h))) (\<lambda>found.
                case found of
                  None \<Rightarrow> Returns (0, h)
                | Some ptr \<Rightarrow>
                    let h = mem_take ptr size h
                    in obind (if ptr = lfree h
                              then obind (oreturns (next_unused h (lfree h))) (\<lambda>cur.
                                let h = h\<lparr>lfree := cur\<rparr>
                                in LWIP_ASSERT debug (lfree h = ram_end \<or> mem_used (mem_at h (lfree h)) = 0)
                                     (Returns h))
                              else Returns h) (\<lambda>h.
                        let p = at_ram h ptr + unat SIZEOF_STRUCT_MEM
                        in LWIP_ASSERT debug (p + unat size \<le> at_ram h ram_end)
                            (LWIP_ASSERT debug (p mod 4 = 0)
                              (LWIP_ASSERT debug (at_ram h ptr mod 4 = 0)
                                (Returns (p, h)))))))"

text \<open>\<open>mem_calloc\<close> passes the product as a \<open>mem_size_t\<close>, and clears it as a \<open>size_t\<close>.\<close>

definition mem_calloc ::
  "bool \<Rightarrow> u16 \<Rightarrow> u16 \<Rightarrow> lwheap \<Rightarrow> memory \<Rightarrow> (nat \<times> lwheap \<times> memory) outcome" where
  "mem_calloc debug count n h m =
     obind (mem_malloc debug (count * n) h) (\<lambda>(p, h).
       Returns (p, h, if p \<noteq> 0 then wr m p (replicate (unat (ucast count * ucast n :: u32)) 0) else m))"

end
