(* ===== verification/Mem_Spec.thy ===== *)
theory Mem_Spec
  imports Mem Tiling
begin

text \<open>
  The abstract heap of \<open>mem.c\<close>: the 16 KB from \<open>ram\<close> to \<open>ram_end\<close> are tiled by free and used
  blocks (theory Tiling). \<open>mem_inv h segs\<close> says that the block headers of the state describe the
  tiling \<open>segs\<close>, that no two free blocks are adjacent and that \<open>lfree\<close> is the lowest free block.
  Allocation is first fit on the tiling, freeing gives the block back and joins it with the free
  neighbours, trimming gives back the end of a block.
\<close>

section \<open>Headers and tilings\<close>

lemma mem_constants [simp]:
  "MEM_SIZE_ALIGNED = 16384" "SIZEOF_STRUCT_MEM = 8" "MIN_SIZE_ALIGNED = 12" "ram_end = 16384"
  by code_simp+

abbreviation mem_hdr :: "(u16 \<Rightarrow> smem) \<Rightarrow> nat \<Rightarrow> smem" where
  "mem_hdr f a \<equiv> f (of_nat a)"

definition hdr_ok :: "(u16 \<Rightarrow> smem) \<Rightarrow> nat \<Rightarrow> nat \<Rightarrow> seg \<Rightarrow> bool" where
  "hdr_ok f p a s \<longleftrightarrow> mem_next (mem_hdr f a) = of_nat (a + seg_size s)
     \<and> mem_prev (mem_hdr f a) = of_nat p \<and> (mem_used (mem_hdr f a) \<noteq> 0 \<longleftrightarrow> is_Used s)"

fun hdrs_ok :: "(u16 \<Rightarrow> smem) \<Rightarrow> nat \<Rightarrow> nat \<Rightarrow> seg list \<Rightarrow> bool" where
  "hdrs_ok f p a [] \<longleftrightarrow> True"
| "hdrs_ok f p a (s # ss) \<longleftrightarrow> hdr_ok f p a s \<and> hdrs_ok f a (a + seg_size s) ss"

text \<open>The address of the last block of a tiling.\<close>

fun last_at :: "nat \<Rightarrow> nat \<Rightarrow> seg list \<Rightarrow> nat" where
  "last_at p a [] = p"
| "last_at p a (s # ss) = last_at a (a + seg_size s) ss"

definition first_free :: "seg list \<Rightarrow> nat" where
  "first_free segs = total (takeWhile is_Used segs)"

definition mem_segs :: "seg list \<Rightarrow> bool" where
  "mem_segs segs \<longleftrightarrow> (\<forall>s\<in>set segs. 20 \<le> seg_size s \<and> 4 dvd seg_size s)"

definition mem_inv :: "lwheap \<Rightarrow> seg list \<Rightarrow> bool" where
  "mem_inv h segs \<longleftrightarrow> hdrs_ok (mem_at h) 0 0 segs \<and> mem_used (mem_at h 16384) \<noteq> 0
     \<and> mem_segs segs \<and> total segs = 16384 \<and> coalesced segs
     \<and> lfree h = of_nat (first_free segs) \<and> 4 dvd ram h \<and> 0 < ram h"

lemma hdrs_ok_append:
  "hdrs_ok f p a (xs @ ys) \<longleftrightarrow> hdrs_ok f p a xs \<and> hdrs_ok f (last_at p a xs) (a + total xs) ys"
  by (induction f p a xs rule: hdrs_ok.induct) (simp_all add: add.assoc)

lemma last_at_append: "last_at p a (xs @ ys) = last_at (last_at p a xs) (a + total xs) ys"
  by (induction p a xs rule: last_at.induct) (simp_all add: add.assoc)

lemma mem_segs_simps [simp]:
  "mem_segs []" "mem_segs (s # ss) \<longleftrightarrow> 20 \<le> seg_size s \<and> 4 dvd seg_size s \<and> mem_segs ss"
  "mem_segs (xs @ ys) \<longleftrightarrow> mem_segs xs \<and> mem_segs ys"
  by (auto simp: mem_segs_def)

lemma mem_segs_total: "mem_segs segs \<Longrightarrow> 4 dvd total segs"
  by (induction segs) auto

lemma last_at_bounds: "mem_segs xs \<Longrightarrow> xs \<noteq> [] \<Longrightarrow> a \<le> last_at p a xs \<and> last_at p a xs + 20 \<le> a + total xs"
proof (induction p a xs rule: last_at.induct)
  case (2 p a s ss)
  then show ?case by (cases ss) auto
qed simp

lemma hdrs_ok_cong:
  assumes "hdrs_ok f p a segs" and "mem_segs segs" and "a + total segs \<le> 16384"
    and "\<And>x. a \<le> x \<Longrightarrow> x < a + total segs \<Longrightarrow> mem_hdr f x = mem_hdr g x"
  shows "hdrs_ok g p a segs"
  using assms
proof (induction f p a segs rule: hdrs_ok.induct)
  case (2 f p a s ss)
  have "mem_hdr f a = mem_hdr g a" using 2(3,5) by auto
  moreover have "hdrs_ok g a (a + seg_size s) ss" using 2 by auto
  ultimately show ?case using 2(2) by (simp add: hdr_ok_def)
qed simp

lemma first_free_simps [simp]:
  "first_free [] = 0" "first_free (Free k # ss) = 0" "first_free (Used k # ss) = k + first_free ss"
  by (simp_all add: first_free_def)

lemma first_free_le: "first_free segs \<le> total segs"
  by (induction segs; simp) (case_tac a; simp)

lemma first_free_append:
  "first_free (xs @ ys) = (if \<exists>k. Free k \<in> set xs then first_free xs else total xs + first_free ys)"
proof (induction xs)
  case (Cons s ss)
  then show ?case by (cases s) auto
qed simp

lemma first_free_lt: "Free k \<in> set xs \<Longrightarrow> mem_segs xs \<Longrightarrow> first_free xs < total xs"
proof (induction xs)
  case (Cons s ss)
  then show ?case by (cases s) auto
qed simp

section \<open>The search\<close>

lemma mem_room_eq:
  assumes "hdr_ok (mem_at h) p a s" and "a + seg_size s \<le> 16384" and "8 \<le> seg_size s"
  shows "mem_room h (of_nat a) = of_nat (seg_size s - 8)"
proof -
  obtain j where j: "seg_size s = j + 8" using assms(3) by (metis add.commute le_Suc_ex)
  have "mem_room h (of_nat a) = ucast (of_nat (a + seg_size s) :: u16) - (ucast (of_nat a :: u16) + 8)"
    using assms(1) by (simp only: mem_room_def hdr_ok_def mem_constants)
  also have "\<dots> = of_nat (a + seg_size s) - (of_nat a + 8)"
    using assms(2) ucast_of_nat_u16 [of "a + seg_size s"] ucast_of_nat_u16 [of a] by simp
  also have "\<dots> = of_nat (seg_size s - 8)" by (simp add: j)
  finally show ?thesis .
qed

lemma fit_first_beyond: "total segs < w \<Longrightarrow> fit_first r w segs = None"
  by (auto simp: fit_first_None_iff dest!: split_list)

lemma mem_search_finds:
  assumes "hdrs_ok (mem_at h) p a bs" and "mem_segs bs" and "a + total bs = 16384"
    and "mem_used (mem_at h 16384) \<noteq> 0" and n: "n = of_nat k" "k \<le> 16384"
  shows "mem_search h n (of_nat a) =
           Some (map_option (\<lambda>(off, _). of_nat (a + off)) (fit_first 19 (k + 8) bs))"
  using assms(1-3)
proof (induction bs arbitrary: p a)
  case Nil
  have "\<not> (ucast (of_nat a :: u16) :: u32) < 16384 - ucast n"
    using Nil n by (simp add: ucast_of_nat_u16 word_less_nat_alt unat_sub word_le_nat_alt unat_of_nat)
  then show ?case by (subst mem_search.simps) simp
next
  case (Cons s ss)
  have a: "a \<le> 16384" "a + seg_size s \<le> 16384" "20 \<le> seg_size s" using Cons.prems by auto
  have hd: "hdr_ok (mem_at h) p a s" and tl: "hdrs_ok (mem_at h) a (a + seg_size s) ss" using Cons.prems by auto
  have g: "(ucast (of_nat a :: u16) :: u32) < 16384 - ucast n \<longleftrightarrow> a < 16384 - k"
    using a n by (simp add: ucast_of_nat_u16 word_less_nat_alt unat_sub word_le_nat_alt unat_of_nat)
  have nx: "mem_next (mem_hdr (mem_at h) a) = of_nat (a + seg_size s)" using hd by (simp add: hdr_ok_def)
  show ?case
  proof (cases "a < 16384 - k")
    case False
    have "total (s # ss) < k + 8" using False Cons.prems(3) n(2) by auto
    then have "fit_first 19 (k + 8) (s # ss) = None" by (rule fit_first_beyond)
    then show ?thesis using False g by (subst mem_search.simps) simp
  next
    case True
    have r: "mem_room h (of_nat a) \<ge> ucast n \<longleftrightarrow> k + 8 \<le> seg_size s"
    proof -
      have "mem_room h (of_nat a) = of_nat (seg_size s - 8)" using mem_room_eq [OF hd] a by simp
      moreover have "(of_nat k :: u32) \<le> of_nat (seg_size s - 8) \<longleftrightarrow> k \<le> seg_size s - 8"
        by (rule u32_of_nat_le) (use a n in auto)
      ultimately show ?thesis using a n ucast_of_nat_u16 [of k] by auto
    qed
    have rec: "mem_search h n (of_nat (a + seg_size s)) =
        Some (map_option (\<lambda>(off, _). of_nat (a + seg_size s + off)) (fit_first 19 (k + 8) ss))"
      using Cons.IH [OF tl] Cons.prems by simp
    have u: "mem_used (mem_hdr (mem_at h) a) \<noteq> 0 \<longleftrightarrow> is_Used s" using hd by (simp add: hdr_ok_def)
    show ?thesis
    proof (cases s)
      case (Free j)
      then show ?thesis using True g r rec u nx
        by (subst mem_search.simps) (auto simp: option.map_comp comp_def case_prod_unfold add.assoc)
    next
      case (Used j)
      then show ?thesis using True g rec u nx
        by (subst mem_search.simps) (auto simp: option.map_comp comp_def case_prod_unfold add.assoc)
    qed
  qed
qed

lemma next_unused_finds:
  assumes "hdrs_ok (mem_at h) p a bs" and "mem_segs bs" and "a + total bs = 16384"
    and "mem_used (mem_at h 16384) \<noteq> 0"
  shows "next_unused h (of_nat a) = Some (of_nat (a + first_free bs))"
  using assms(1-3)
proof (induction bs arbitrary: p a)
  case Nil
  then show ?case by (subst next_unused.simps) simp
next
  case (Cons s ss)
  have a: "(of_nat a :: u16) \<noteq> 16384" using Cons.prems of_nat_u16_eq [of a 16384] by simp
  have IH: "next_unused h (of_nat (a + seg_size s)) = Some (of_nat (a + seg_size s + first_free ss))"
    by (rule Cons.IH [of a]) (use Cons.prems in auto)
  have hd: "mem_next (mem_hdr (mem_at h) a) = of_nat (a + seg_size s)"
    "mem_used (mem_hdr (mem_at h) a) \<noteq> 0 \<longleftrightarrow> is_Used s" using Cons.prems by (auto simp: hdr_ok_def)
  show ?case
  proof (cases s)
    case (Free k)
    then show ?thesis using hd by (subst next_unused.simps) simp
  next
    case (Used k)
    have "next_unused h (of_nat a) = next_unused h (of_nat (a + seg_size s))"
      using a hd Used by (subst next_unused.simps) simp
    then show ?thesis using IH Used by (simp add: add.assoc)
  qed
qed

section \<open>Replacing a run of blocks\<close>

lemma upd_hdr:
  "x < 65536 \<Longrightarrow> y < 65536 \<Longrightarrow> mem_hdr (f(of_nat y := v)) x = (if x = y then v else mem_hdr f x)"
  by (simp add: of_nat_u16_eq)

lemma hdrs_ok_relink:
  assumes "hdrs_ok f p b bs" and "mem_segs bs" and "b + total bs \<le> 16384"
    and "\<And>x. b < x \<Longrightarrow> x < b + total bs \<Longrightarrow> mem_hdr g x = mem_hdr f x"
    and "bs \<noteq> [] \<Longrightarrow> mem_hdr g b = (mem_hdr f b)\<lparr>mem_prev := of_nat p'\<rparr>"
  shows "hdrs_ok g p' b bs"
proof (cases bs)
  case (Cons s ss)
  have "hdrs_ok g b (b + seg_size s) ss"
    by (rule hdrs_ok_cong [of f]) (use assms Cons in auto)
  then show ?thesis using assms Cons by (simp add: hdr_ok_def)
qed simp

lemma tile_replace:
  assumes ok: "hdrs_ok f 0 0 (as @ mid @ bs)" and segs: "mem_segs (as @ mid @ bs)"
    and tot: "total (as @ mid @ bs) = 16384" "total mid' = total mid"
    and low: "\<And>x. x < total as \<Longrightarrow> mem_hdr g x = mem_hdr f x"
    and new: "hdrs_ok g (last_at 0 0 as) (total as) mid'"
    and high: "\<And>x. total as + total mid < x \<Longrightarrow> x < 16384 \<Longrightarrow> mem_hdr g x = mem_hdr f x"
    and link: "bs \<noteq> [] \<Longrightarrow> mem_hdr g (total as + total mid) =
        (mem_hdr f (total as + total mid))\<lparr>mem_prev := of_nat (last_at (last_at 0 0 as) (total as) mid')\<rparr>"
  shows "hdrs_ok g 0 0 (as @ mid' @ bs)"
proof -
  have f: "hdrs_ok f 0 0 as"
    "hdrs_ok f (last_at (last_at 0 0 as) (total as) mid) (total as + total mid) bs"
    using ok by (simp_all add: hdrs_ok_append)
  have "hdrs_ok g 0 0 as" by (rule hdrs_ok_cong [OF f(1)]) (use segs tot low in auto)
  moreover have "hdrs_ok g (last_at (last_at 0 0 as) (total as) mid') (total as + total mid) bs"
    by (rule hdrs_ok_relink [OF f(2)]) (use segs tot high link in auto)
  ultimately show ?thesis using new tot by (simp add: hdrs_ok_append)
qed

section \<open>Splitting a block\<close>

text \<open>The headers after the block at \<open>a\<close>, which ends at \<open>b\<close>, is split at \<open>c\<close>.\<close>

definition split_hdrs :: "nat \<Rightarrow> nat \<Rightarrow> nat \<Rightarrow> u8 \<Rightarrow> (u16 \<Rightarrow> smem) \<Rightarrow> u16 \<Rightarrow> smem" where
  "split_hdrs a c b u f =
     (let f = f(of_nat c := \<lparr>mem_next = of_nat b, mem_prev = of_nat a, mem_used = 0\<rparr>);
          f = f(of_nat a := (f (of_nat a))\<lparr>mem_next := of_nat c, mem_used := u\<rparr>)
      in if b \<noteq> 16384 then f(of_nat b := (f (of_nat b))\<lparr>mem_prev := of_nat c\<rparr>) else f)"

lemma split_hdrs_at:
  assumes "a < c" and "c < b" and "b \<le> 16384" and "x \<le> 16384"
  shows "mem_hdr (split_hdrs a c b u f) x =
    (if x = c then \<lparr>mem_next = of_nat b, mem_prev = of_nat a, mem_used = 0\<rparr>
     else if x = a then (mem_hdr f a)\<lparr>mem_next := of_nat c, mem_used := u\<rparr>
     else if x = b \<and> b \<noteq> 16384 then (mem_hdr f b)\<lparr>mem_prev := of_nat c\<rparr> else mem_hdr f x)"
  using assms by (simp add: split_hdrs_def Let_def of_nat_u16_eq)

lemma split_hdrs_ok:
  assumes ok: "hdrs_ok f 0 0 (as @ mid @ bs)" and segs: "mem_segs (as @ mid @ bs)"
    and tot: "total (as @ mid @ bs) = 16384" and w: "w < total mid" "0 < w"
    and mid: "mem_prev (mem_hdr f (total as)) = of_nat (last_at 0 0 as)" and u: "u \<noteq> 0"
  shows "hdrs_ok (split_hdrs (total as) (total as + w) (total as + total mid) u f) 0 0
           (as @ [Used w, Free (total mid - w)] @ bs)"
proof -
  have bs: "total as + total mid \<noteq> 16384" if "bs \<noteq> []"
    using tot segs that by (cases bs) auto
  obtain k where k: "total mid = k" by simp
  show ?thesis
    unfolding k
    by (rule tile_replace [OF ok segs tot, of "[Used w, Free (k - w)]", unfolded k])
      (use w [unfolded k] tot k u mid bs [unfolded k] in \<open>auto simp: split_hdrs_at hdr_ok_def simp del: of_nat_add\<close>)
qed

lemma ucast_end: "b \<le> 16384 \<Longrightarrow> (ucast (of_nat b :: u16) :: u32) = 16384 \<longleftrightarrow> b = 16384"
proof -
  assume b: "b \<le> 16384"
  have "(ucast (of_nat b :: u16) :: u32) = of_nat b" by (rule ucast_of_nat_u16) (use b in simp)
  moreover have "(of_nat b :: u32) = 16384 \<longleftrightarrow> unat (of_nat b :: u32) = 16384"
    by (simp add: word_unat_eq_iff)
  moreover have "unat (of_nat b :: u32) = b" using b by (simp add: unat_of_nat)
  ultimately show ?thesis by simp
qed

lemma smem_full: "m\<lparr>mem_used := u, mem_next := x, mem_prev := p\<rparr> = \<lparr>mem_next = x, mem_prev = p, mem_used = u\<rparr>"
  by (cases m) simp

lemma mem_take_eq:
  assumes hd: "hdr_ok (mem_at h) p a (Free k)" and a: "a + k \<le> 16384" and k: "n + 8 \<le> k"
  shows "mem_take (of_nat a) (of_nat n) h =
    (if n + 28 \<le> k then h\<lparr>mem_at := split_hdrs a (a + (n + 8)) (a + k) 1 (mem_at h)\<rparr>
     else set_mem (of_nat a) (\<lambda>m. m\<lparr>mem_used := 1\<rparr>) h)"
proof -
  have r: "mem_room h (of_nat a) = of_nat (k - 8)" using mem_room_eq [OF hd] a k by simp
  have n: "(ucast (of_nat n :: u16) :: u32) + 8 + 12 = of_nat (n + 20)"
    using ucast_of_nat_u16 [of n] a k by simp
  have c: "(ucast (of_nat n :: u16) :: u32) + 8 + 12 \<le> mem_room h (of_nat a) \<longleftrightarrow> n + 28 \<le> k"
    unfolding r n using a k by (subst u32_of_nat_le) auto
  have nx: "mem_next (mem_hdr (mem_at h) a) = of_nat (a + k)" using hd by (simp add: hdr_ok_def)
  have p2: "(of_nat a :: u16) + ucast (8 :: u32) + of_nat n = of_nat (a + (n + 8))" by simp
  have ne: "(of_nat (a + (n + 8)) :: u16) \<noteq> of_nat a" using a k by (subst of_nat_u16_eq) auto
  show ?thesis
    unfolding mem_take_def mem_constants c p2 Let_def
    by (auto simp: smem_full nx ne ne [symmetric] ucast_end a split_hdrs_def Let_def simp del: of_nat_add)
qed

section \<open>mem_malloc\<close>

text \<open>The size a block takes for a request, and first fit on the tiling.\<close>

definition m_size :: "nat \<Rightarrow> nat" where
  "m_size n = max 12 ((n + 3) div 4 * 4) + 8"

definition m_malloc :: "nat \<Rightarrow> seg list \<Rightarrow> (nat \<times> seg list) option" where
  "m_malloc n segs = (if n = 0 then None else fit_first 19 (m_size n) segs)"

lemma m_size_bounds: "n + 8 \<le> m_size n" "20 \<le> m_size n" "4 dvd m_size n"
  by (auto simp: m_size_def max_def)

lemma request_size_eq:
  assumes "unat n \<le> 65532"
  shows "request_size n = of_nat (m_size (unat n) - 8)"
proof -
  let ?k = "(unat n + 3) div 4 * 4"
  have "j \<le> 65532 \<Longrightarrow> (j + 3) div 4 * 4 < 65536" for j :: nat by presburger
  from this [OF assms] have k: "?k < 65536" .
  have u: "unat (ucast n :: u32) = unat n"
    using assms by (simp add: unsigned_ucast_eq take_bit_eq_mod)
  have a: "unat (LWIP_MEM_ALIGN_SIZE (ucast n)) = ?k"
    using LWIP_MEM_ALIGN_SIZE_unat [of "ucast n"] assms by (simp add: u)
  then have "unat (ucast (LWIP_MEM_ALIGN_SIZE (ucast n)) :: u16) = ?k mod 65536"
    by (simp add: unsigned_ucast_eq take_bit_eq_mod)
  also have "\<dots> = ?k" by (rule mod_less [OF k])
  finally have c: "(ucast (LWIP_MEM_ALIGN_SIZE (ucast n)) :: u16) = of_nat ?k"
    by (rule word_of_nat_of_unat)
  have l: "(ucast (of_nat ?k :: u16) :: u32) < 12 \<longleftrightarrow> ?k < 12"
    using ucast_of_nat_u16 [OF k] u32_of_nat_less [OF k, of 12] by simp
  show ?thesis
    unfolding request_size_def Let_def c mem_constants l
    by (auto simp: m_size_def max_def simp del: of_nat_mult)
qed

lemma fit_first_used:
  "\<forall>s\<in>set us. is_Used s \<Longrightarrow>
     fit_first r w (us @ rest) = map_option (\<lambda>(o', ss). (total us + o', us @ ss)) (fit_first r w rest)"
proof (induction us)
  case (Cons s us)
  then show ?case
    by (cases s) (auto simp: option.map_comp comp_def case_prod_unfold add.assoc)
qed (simp add: option.map_ident case_prod_unfold)

lemma first_free_split:
  obtains us rest where "segs = us @ rest" "\<forall>s\<in>set us. is_Used s" "total us = first_free segs"
    "us = takeWhile is_Used segs"
  by (metis first_free_def set_takeWhileD takeWhile_dropWhile_id)

lemma mem_search_lfree:
  assumes i: "mem_inv h segs" and k: "k \<le> 16384"
  shows "mem_search h (of_nat k) (lfree h) = Some (map_option (\<lambda>(off, _). of_nat off) (fit_first 19 (k + 8) segs))"
proof -
  obtain us rest where s: "segs = us @ rest" "\<forall>s\<in>set us. is_Used s" "total us = first_free segs"
    using first_free_split by metis
  have h: "hdrs_ok (mem_at h) (last_at 0 0 us) (total us) rest" "mem_segs rest" "total us + total rest = 16384"
    "mem_used (mem_at h 16384) \<noteq> 0" "lfree h = of_nat (total us)"
    using i s by (auto simp: mem_inv_def hdrs_ok_append)
  have "fit_first 19 (k + 8) segs = map_option (\<lambda>(o', ss). (total us + o', us @ ss)) (fit_first 19 (k + 8) rest)"
    unfolding s(1) by (rule fit_first_used [OF s(2)])
  then show ?thesis
    using mem_search_finds [OF h(1-4) refl k] h(5) by (simp add: option.map_comp comp_def case_prod_unfold)
qed

text \<open>Taking the block: the headers describe the tiling with the block used.\<close>

lemma mem_take_tiles:
  assumes i: "mem_inv h (as @ Free k # bs)" and n: "n + 8 \<le> k" and n4: "12 \<le> n" "4 dvd n"
  defines "h' \<equiv> mem_take (of_nat (total as)) (of_nat n) h"
    and "segs' \<equiv> as @ cut_above 19 (n + 8) k @ bs"
  shows "hdrs_ok (mem_at h') 0 0 segs' \<and> mem_used (mem_at h' 16384) \<noteq> 0 \<and> mem_segs segs'
    \<and> total segs' = 16384 \<and> coalesced segs' \<and> ram h' = ram h \<and> lfree h' = lfree h"
proof -
  let ?a = "total as" and ?f = "mem_at h"
  have I: "hdrs_ok ?f 0 0 (as @ [Free k] @ bs)" "mem_segs (as @ [Free k] @ bs)"
    "total (as @ [Free k] @ bs) = 16384" "mem_used (?f 16384) \<noteq> 0" "coalesced (as @ Free k # bs)"
    using i by (simp_all add: mem_inv_def)
  have hd: "hdr_ok ?f (last_at 0 0 as) ?a (Free k)" using I(1) by (simp add: hdrs_ok_append)
  have k: "?a + k \<le> 16384" "20 \<le> k" "4 dvd k" using I(2,3) by auto
  have h': "h' = (if n + 28 \<le> k then h\<lparr>mem_at := split_hdrs ?a (?a + (n + 8)) (?a + k) 1 ?f\<rparr>
      else set_mem (of_nat ?a) (\<lambda>m. m\<lparr>mem_used := 1\<rparr>) h)"
    unfolding h'_def by (rule mem_take_eq [OF hd k(1) n])
  have co: "coalesced segs'"
    using I(5) unfolding segs'_def by (auto simp: cut_above_def coalesced_append starts_free_def ends_free_def)
  have tot: "total segs' = 16384" using I(3) n by (simp add: segs'_def)
  have sg: "mem_segs segs'"
    using I(2) n n4 k unfolding segs'_def by (auto simp: cut_above_def intro: dvd_diff_nat)
  show ?thesis
  proof (cases "n + 28 \<le> k")
    case True
    have "hdrs_ok (split_hdrs ?a (?a + (n + 8)) (?a + total [Free k]) 1 ?f) 0 0
        (as @ [Used (n + 8), Free (total [Free k] - (n + 8))] @ bs)"
      by (rule split_hdrs_ok [OF I(1-3)]) (use True hd in \<open>auto simp: hdr_ok_def\<close>)
    moreover have "segs' = as @ [Used (n + 8), Free (k - (n + 8))] @ bs"
      using True by (simp add: segs'_def cut_above_def)
    moreover have "mem_used (mem_at h' 16384) \<noteq> 0"
      using h' True k I(4) split_hdrs_at [of ?a "?a + (n + 8)" "?a + k" 16384 1 ?f] by (auto split: if_splits)
    ultimately show ?thesis using h' True co tot sg by simp
  next
    case False
    have s: "segs' = as @ [Used k] @ bs" using False by (simp add: segs'_def cut_above_def)
    have h: "h' = set_mem (of_nat ?a) (\<lambda>m. m\<lparr>mem_used := 1\<rparr>) h" using h' False by simp
    have g: "mem_hdr (mem_at h') x = (if x = ?a then (mem_hdr ?f x)\<lparr>mem_used := 1\<rparr> else mem_hdr ?f x)"
      if "x \<le> 16384" for x
      using that k by (simp add: h of_nat_u16_eq)
    have lk: "mem_prev (mem_hdr ?f (?a + k)) = of_nat ?a" if "bs \<noteq> []"
      using that I(1) by (cases bs) (auto simp: hdrs_ok_append hdr_ok_def)
    have "hdrs_ok (mem_at h') 0 0 (as @ [Used k] @ bs)"
      by (rule tile_replace [OF I(1-3)])
        (use I(2,3) k hd lk in \<open>auto simp: g hdr_ok_def simp del: of_nat_add\<close>)
    moreover have "mem_used (mem_at h' 16384) \<noteq> 0" using g [of 16384] I(4) k by (simp split: if_splits)
    ultimately show ?thesis using s h co tot sg by simp
  qed
qed

lemma mem_invD:
  assumes "mem_inv h segs"
  shows "hdrs_ok (mem_at h) 0 0 segs" "mem_used (mem_at h 16384) \<noteq> 0" "mem_segs segs"
    "total segs = 16384" "coalesced segs" "lfree h = of_nat (first_free segs)" "4 dvd ram h" "0 < ram h"
  using assms by (simp_all add: mem_inv_def)

lemma at_ram_of_nat: "a \<le> 16384 \<Longrightarrow> at_ram h (of_nat a) = ram h + a"
  by (simp add: at_ram_def unat_of_nat_u16)

lemma first_free_unused:
  "hdrs_ok f p a segs \<Longrightarrow> mem_segs segs \<Longrightarrow> first_free segs < total segs \<Longrightarrow>
     mem_used (mem_hdr f (a + first_free segs)) = 0"
proof (induction f p a segs rule: hdrs_ok.induct)
  case (2 f p a s ss)
  then show ?case by (cases s) (auto simp: hdr_ok_def add.assoc simp del: of_nat_add)
qed simp

text \<open>After the lowest free block was taken, \<open>lfree\<close> moves on to the next one.\<close>

lemma lfree_advances:
  assumes "hdrs_ok (mem_at t) 0 0 (as @ bs)" and "mem_used (mem_at t 16384) \<noteq> 0"
    and "mem_segs (as @ bs)" and "total (as @ bs) = 16384" and "\<nexists>j. Free j \<in> set as"
  shows "next_unused t (of_nat (total as)) = Some (of_nat (first_free (as @ bs)))"
    and "(of_nat (first_free (as @ bs)) :: u16) = 16384 \<or> mem_used (mem_at t (of_nat (first_free (as @ bs)))) = 0"
proof -
  have b: "hdrs_ok (mem_at t) (last_at 0 0 as) (total as) bs" "mem_segs bs" "total as + total bs = 16384"
    using assms by (simp_all add: hdrs_ok_append)
  show "next_unused t (of_nat (total as)) = Some (of_nat (first_free (as @ bs)))"
    using next_unused_finds [OF b assms(2)] assms(5) by (simp add: first_free_append del: of_nat_add)
  show "(of_nat (first_free (as @ bs)) :: u16) = 16384 \<or> mem_used (mem_at t (of_nat (first_free (as @ bs)))) = 0"
  proof (cases "first_free (as @ bs) < total (as @ bs)")
    case True
    then show ?thesis using first_free_unused [OF assms(1,3) True] by simp
  next
    case False
    then have "first_free (as @ bs) = 16384" using first_free_le [of "as @ bs"] assms(4) by simp
    then show ?thesis by simp
  qed
qed

lemma first_free_taken:
  assumes "mem_inv h segs" and "segs = as @ Free k # bs" and "segs' = as @ cs"
  shows "total as = first_free segs \<Longrightarrow> \<nexists>j. Free j \<in> set as"
    and "total as \<noteq> first_free segs \<Longrightarrow> first_free segs' = first_free segs"
proof -
  have "mem_segs as" using mem_invD(3) [OF assms(1)] assms(2) by simp
  then show "total as = first_free segs \<Longrightarrow> \<nexists>j. Free j \<in> set as"
    using assms(2) first_free_lt [of _ as] by (fastforce simp: first_free_append split: if_splits)
  show "total as \<noteq> first_free segs \<Longrightarrow> first_free segs' = first_free segs"
    using assms(2,3) by (auto simp: first_free_append)
qed

lemma mem_malloc_succeeds:
  assumes i: "mem_inv h segs" and n: "unat n \<le> 65532"
    and al: "m_malloc (unat n) segs = Some (off, segs')"
  obtains h' where "mem_malloc debug n h = Returns (ram h + off + 8, h')" "mem_inv h' segs'" "ram h' = ram h"
proof -
  define q where "q = m_size (unat n) - 8"
  have q: "m_size (unat n) = q + 8" "12 \<le> q" "4 dvd q"
    using m_size_bounds [of "unat n"] by (auto simp: q_def elim: dvd_diff_nat)
  have n0: "n \<noteq> 0" and ff: "fit_first 19 (q + 8) segs = Some (off, segs')"
    using al q(1) by (auto simp: m_malloc_def split: if_splits)
  obtain as k bs where s: "segs = as @ Free k # bs" "off = total as" "q + 8 \<le> k"
    "segs' = as @ cut_above 19 (q + 8) k @ bs"
    using fit_first_Some [OF ff] by blast
  have b: "off + k \<le> 16384" "4 dvd off" using mem_invD(3,4) [OF i] s mem_segs_total [of as] by auto
  have rq: "request_size n = of_nat q" using request_size_eq [OF n] q(1) by simp
  have se: "mem_search h (of_nat q) (lfree h) = Some (Some (of_nat off))"
    using mem_search_lfree [OF i, of q] b s(3) ff by simp
  have uq: "unat (of_nat q :: u16) = q" using b s(3) by (simp add: unat_of_nat_u16)
  have cap: "\<not> (16384 :: u32) < ucast (of_nat q :: u16)"
    using ucast_of_nat_u16 [of q] u32_of_nat_less [of 16384 q] b s(3) by simp
  define t where "t = mem_take (of_nat off) (of_nat q) h"
  have T: "hdrs_ok (mem_at t) 0 0 segs'" "mem_used (mem_at t 16384) \<noteq> 0" "mem_segs segs'"
    "total segs' = 16384" "coalesced segs'" "ram t = ram h" "lfree t = lfree h"
    using mem_take_tiles [OF i [unfolded s(1)] s(3) q(2,3)] unfolding t_def s(2) s(4) by simp_all
  define h' where "h' = t\<lparr>lfree := of_nat (first_free segs')\<rparr>"
  have adv: "(if of_nat off = lfree t then obind (oreturns (next_unused t (lfree t))) (\<lambda>cur.
      let h = t\<lparr>lfree := cur\<rparr> in LWIP_ASSERT debug (lfree h = ram_end \<or> mem_used (mem_at h (lfree h)) = 0) (Returns h))
      else Returns t) = Returns h'"
  proof (cases "off = first_free segs")
    case True
    have "(of_nat off :: u16) = lfree t" using True T(7) mem_invD(6) [OF i] by simp
    moreover have "\<nexists>j. Free j \<in> set as" by (rule first_free_taken(1) [OF i s(1)]) (use True s(2) in simp_all)
    ultimately show ?thesis
      using lfree_advances [of t as "cut_above 19 (q + 8) k @ bs"] T(1-4) s(2,4) by (simp add: h'_def)
  next
    case False
    have "(of_nat off :: u16) \<noteq> lfree t"
      using False T(7) mem_invD(4,6) [OF i] b first_free_le [of segs] by (simp add: of_nat_u16_eq)
    moreover have "first_free segs' = first_free segs"
      by (rule first_free_taken(2) [OF i s(1,4)]) (use False s(2) in simp)
    then have "h' = t" using T(7) mem_invD(6) [OF i] by (simp add: h'_def)
    ultimately show ?thesis by simp
  qed
  have al4: "(ram h + off) mod 4 = 0" "(ram h + off + 8) mod 4 = 0"
    using mem_invD(7) [OF i] b(2) by presburger+
  have at: "at_ram h' (of_nat off) = ram h + off" "at_ram h' 16384 = ram h + 16384" "ram h' = ram h"
    using b at_ram_of_nat [of off h'] at_ram_of_nat [of 16384 h'] T(6) by (simp_all add: h'_def)
  have "mem_malloc debug n h = Returns (ram h + off + 8, h')"
    using n0 adv al4 at b s(3) unfolding t_def
    by (simp add: mem_malloc_def rq cap se uq)
  moreover have "mem_inv h' segs'" using T mem_invD(7,8) [OF i] by (simp add: mem_inv_def h'_def)
  ultimately show ?thesis using that at(3) by blast
qed

lemma mem_malloc_fails:
  assumes i: "mem_inv h segs" and n: "unat n \<le> 65532" and al: "m_malloc (unat n) segs = None"
  shows "mem_malloc debug n h = Returns (0, h)"
proof (cases "n = 0")
  case False
  define q where "q = m_size (unat n) - 8"
  have q: "m_size (unat n) = q + 8" using m_size_bounds [of "unat n"] by (auto simp: q_def)
  have ff: "fit_first 19 (q + 8) segs = None" using al q False by (simp add: m_malloc_def unat_eq_0)
  have rq: "request_size n = of_nat q" using request_size_eq [OF n] q by simp
  have qb: "q < 65536" using n q unfolding m_size_def by (simp add: max_def split: if_splits)
  show ?thesis
  proof (cases "q \<le> 16384")
    case True
    have "mem_search h (of_nat q) (lfree h) = Some None" using mem_search_lfree [OF i True] ff by simp
    then show ?thesis using False \<open>n \<noteq> 0\<close> ucast_of_nat_u16 [OF qb] by (simp add: mem_malloc_def rq Let_def)
  next
    case False
    then have "(16384 :: u32) < ucast (of_nat q :: u16)"
      using ucast_of_nat_u16 [OF qb] u32_of_nat_less [of 16384 q] qb by simp
    then show ?thesis by (simp add: mem_malloc_def rq Let_def)
  qed
qed (simp add: mem_malloc_def)

section \<open>mem_free\<close>

text \<open>Headers that describe a tiling with \<open>lfree\<close> in place, whether or not free blocks touch.\<close>

definition mem_desc :: "lwheap \<Rightarrow> seg list \<Rightarrow> bool" where
  "mem_desc h segs \<longleftrightarrow> hdrs_ok (mem_at h) 0 0 segs \<and> mem_used (mem_at h 16384) \<noteq> 0
     \<and> mem_segs segs \<and> total segs = 16384
     \<and> lfree h = of_nat (first_free segs) \<and> 4 dvd ram h \<and> 0 < ram h"

lemma mem_inv_desc: "mem_inv h segs \<longleftrightarrow> mem_desc h segs \<and> coalesced segs"
  by (auto simp: mem_inv_def mem_desc_def)

definition merge_hdrs :: "nat \<Rightarrow> nat \<Rightarrow> (u16 \<Rightarrow> smem) \<Rightarrow> u16 \<Rightarrow> smem" where
  "merge_hdrs a e f =
     (let f = f(of_nat a := (f (of_nat a))\<lparr>mem_next := of_nat e\<rparr>)
      in f(of_nat e := (f (of_nat e))\<lparr>mem_prev := of_nat a\<rparr>))"

lemma merge_hdrs_at:
  assumes "a < e" and "e \<le> 16384" and "x \<le> 16384"
  shows "mem_hdr (merge_hdrs a e f) x =
    (if x = a then (mem_hdr f a)\<lparr>mem_next := of_nat e\<rparr>
     else if x = e then (mem_hdr f e)\<lparr>mem_prev := of_nat a\<rparr> else mem_hdr f x)"
  using assms by (simp add: merge_hdrs_def Let_def of_nat_u16_eq)

lemma merge_hdrs_desc:
  assumes d: "mem_desc h (as @ [Free m, Free n] @ bs)"
    and h': "mem_at h' = merge_hdrs (total as) (total as + (m + n)) (mem_at h)"
      "lfree h' = lfree h" "ram h' = ram h"
  shows "mem_desc h' (as @ [Free (m + n)] @ bs)"
proof -
  have D: "hdrs_ok (mem_at h) 0 0 (as @ [Free m, Free n] @ bs)" "mem_segs (as @ [Free m, Free n] @ bs)"
    "total (as @ [Free m, Free n] @ bs) = 16384" "mem_used (mem_at h 16384) \<noteq> 0"
    using d by (simp_all add: mem_desc_def)
  have b: "total as + (m + n) \<le> 16384" "20 \<le> m" "20 \<le> n" using D(2,3) by auto
  have u: "mem_used (mem_hdr (mem_at h) (total as)) = 0" "mem_prev (mem_hdr (mem_at h) (total as)) = of_nat (last_at 0 0 as)"
    using D(1) by (auto simp: hdrs_ok_append hdr_ok_def)
  have "hdrs_ok (mem_at h') 0 0 (as @ [Free (m + n)] @ bs)"
    by (rule tile_replace [OF D(1-3)]) (use b u in \<open>auto simp: h' merge_hdrs_at hdr_ok_def simp del: of_nat_add\<close>)
  moreover have "mem_used (mem_at h' 16384) \<noteq> 0"
    using merge_hdrs_at [of "total as" "total as + (m + n)" 16384 "mem_at h"] b D(4) by (simp add: h'(1))
  ultimately show ?thesis using d h'(2,3) by (auto simp: mem_desc_def first_free_append)
qed

lemma plug_forward_desc:
  assumes d: "mem_desc h (as @ Free n # bs)"
  shows "mem_desc (plug_forward (of_nat (total as)) h) (as @ join_right n bs)
     \<and> ram (plug_forward (of_nat (total as)) h) = ram h"
proof -
  let ?f = "mem_at h"
  have D: "hdrs_ok ?f 0 0 (as @ Free n # bs)" "mem_segs (as @ Free n # bs)"
    "total (as @ Free n # bs) = 16384" "mem_used (?f 16384) \<noteq> 0" "lfree h = of_nat (first_free (as @ Free n # bs))"
    using d by (simp_all add: mem_desc_def)
  have nx: "mem_next (mem_hdr ?f (total as)) = of_nat (total as + n)"
    using D(1) by (simp add: hdrs_ok_append hdr_ok_def)
  have ne: "(of_nat (total as) :: u16) \<noteq> of_nat (total as + n)" using D(2,3) by (subst of_nat_u16_eq) auto
  show ?thesis
  proof (cases "starts_free bs")
    case True
    then obtain k cs where bs: "bs = Free k # cs" by (cases bs; cases "hd bs") (auto simp: starts_free_def)
    have e: "mem_next (mem_hdr ?f (total as + n)) = of_nat (total as + (n + k))" "mem_used (mem_hdr ?f (total as + n)) = 0"
      using D(1) by (simp_all add: bs hdrs_ok_append hdr_ok_def add.assoc)
    have n_end: "(of_nat (total as + n) :: u16) \<noteq> 16384"
      using D(2,3) of_nat_u16_eq [of "total as + n" 16384] by (simp add: bs)
    have lf: "lfree h \<noteq> of_nat (total as + n)"
    proof -
      have "first_free (as @ Free n # bs) < total as + n"
        using D(2) first_free_le [of as] by (auto simp: first_free_append)
      then show ?thesis using D(2,3,5) by (simp add: of_nat_u16_eq del: of_nat_add)
    qed
    have "mem_at (plug_forward (of_nat (total as)) h) = merge_hdrs (total as) (total as + (n + k)) ?f"
      "lfree (plug_forward (of_nat (total as)) h) = lfree h" "ram (plug_forward (of_nat (total as)) h) = ram h"
      using nx ne e n_end lf by (simp_all add: plug_forward_def merge_hdrs_def Let_def del: of_nat_add)
    from merge_hdrs_desc [OF _ this, of cs] this(3) show ?thesis using d
      by (simp add: bs join_right_def)
  next
    case False
    have "mem_used (mem_hdr ?f (total as + n)) \<noteq> 0"
    proof (cases bs)
      case Nil
      then show ?thesis using D(3,4) by simp
    next
      case (Cons s ss)
      then show ?thesis using D(1) False
        by (cases s) (simp_all add: hdrs_ok_append hdr_ok_def starts_free_def del: of_nat_add)
    qed
    then have "plug_forward (of_nat (total as)) h = h" using nx by (simp add: plug_forward_def Let_def)
    moreover have "join_right n bs = Free n # bs"
      using False by (auto simp: join_right_def starts_free_def split: list.splits seg.splits)
    ultimately show ?thesis using d by simp
  qed
qed

lemma plug_backward_desc:
  assumes d: "mem_desc h (as @ [Free m, Free n] @ bs)"
  shows "mem_desc (plug_backward (of_nat (total as + m)) h) (as @ Free (m + n) # bs)
    \<and> ram (plug_backward (of_nat (total as + m)) h) = ram h"
proof -
  let ?f = "mem_at h"
  have D: "hdrs_ok ?f 0 0 (as @ [Free m, Free n] @ bs)" "mem_segs (as @ [Free m, Free n] @ bs)"
    "total (as @ [Free m, Free n] @ bs) = 16384" "lfree h = of_nat (first_free (as @ [Free m, Free n] @ bs))"
    using d by (simp_all add: mem_desc_def)
  have hd: "mem_next (mem_hdr ?f (total as + m)) = of_nat (total as + (m + n))"
    "mem_prev (mem_hdr ?f (total as + m)) = of_nat (total as)" "mem_used (mem_hdr ?f (total as)) = 0"
    using D(1) by (simp_all add: hdrs_ok_append hdr_ok_def add.assoc)
  have ne: "(of_nat (total as) :: u16) \<noteq> of_nat (total as + m)" using D(2,3) by (subst of_nat_u16_eq) auto
  have "first_free (as @ [Free m, Free n] @ bs) < total as + m"
    using D(2) first_free_le [of as] by (auto simp: first_free_append)
  then have lf: "lfree h \<noteq> of_nat (total as + m)" using D(2-4) by (simp add: of_nat_u16_eq del: of_nat_add)
  have "mem_at (plug_backward (of_nat (total as + m)) h) = merge_hdrs (total as) (total as + (m + n)) ?f"
    "lfree (plug_backward (of_nat (total as + m)) h) = lfree h" "ram (plug_backward (of_nat (total as + m)) h) = ram h"
    using hd ne lf by (simp_all add: plug_backward_def merge_hdrs_def Let_def del: of_nat_add)
  from merge_hdrs_desc [OF d this] this(3) show ?thesis by simp
qed

lemma plug_backward_used:
  assumes d: "mem_desc h (as @ Free n # bs)" and "\<not> ends_free as"
  shows "plug_backward (of_nat (total as)) h = h"
proof (cases as rule: rev_cases)
  case Nil
  then show ?thesis using d by (simp add: mem_desc_def hdr_ok_def plug_backward_def)
next
  case (snoc cs s)
  then have "mem_prev (mem_hdr (mem_at h) (total as)) = of_nat (total cs)" "mem_used (mem_hdr (mem_at h) (total cs)) \<noteq> 0"
    using d assms(2) by (cases s; simp add: mem_desc_def hdrs_ok_append hdr_ok_def ends_free_def last_at_append)+
  then show ?thesis by (simp add: plug_backward_def Let_def)
qed

text \<open>Marking the block free, with \<open>lfree\<close> moved down to it when it is the lowest.\<close>

lemma mem_mark_free:
  assumes i: "mem_inv h (as @ Used n # bs)"
  defines "a \<equiv> total as"
  defines "h1 \<equiv> set_mem (of_nat a) (\<lambda>m. m\<lparr>mem_used := 0\<rparr>) h"
  defines "h2 \<equiv> (if of_nat a < lfree h1 then h1\<lparr>lfree := of_nat a\<rparr> else h1)"
  shows "mem_desc h2 (as @ Free n # bs) \<and> ram h2 = ram h"
proof -
  let ?f = "mem_at h"
  have I: "hdrs_ok ?f 0 0 (as @ [Used n] @ bs)" "mem_segs (as @ [Used n] @ bs)"
    "total (as @ [Used n] @ bs) = 16384" "mem_used (?f 16384) \<noteq> 0"
    "lfree h = of_nat (first_free (as @ Used n # bs))"
    using i by (simp_all add: mem_inv_def)
  have b: "a + n \<le> 16384" "20 \<le> n" using I(2,3) by (auto simp: a_def)
  have g: "mem_hdr (mem_at h2) x = (if x = a then (mem_hdr ?f x)\<lparr>mem_used := 0\<rparr> else mem_hdr ?f x)"
    if "x \<le> 16384" for x
    using that b by (simp add: h2_def h1_def of_nat_u16_eq)
  have hd: "hdr_ok ?f (last_at 0 0 as) a (Used n)" using I(1) by (simp add: hdrs_ok_append a_def)
  have lk: "mem_prev (mem_hdr ?f (a + n)) = of_nat a" if "bs \<noteq> []"
    using that I(1) by (cases bs) (auto simp: hdrs_ok_append hdr_ok_def a_def)
  have "hdrs_ok (mem_at h2) 0 0 (as @ [Free n] @ bs)"
    by (rule tile_replace [OF I(1-3)])
      (use I(2,3) b hd lk in \<open>auto simp: g hdr_ok_def simp flip: a_def simp del: of_nat_add\<close>)
  moreover have "mem_used (mem_at h2 16384) \<noteq> 0" using g [of 16384] I(4) b by (simp split: if_splits)
  moreover have "lfree h2 = of_nat (first_free (as @ Free n # bs))"
  proof -
    have ff: "first_free (as @ Used n # bs) \<le> 16384" using first_free_le [of "as @ Used n # bs"] I(3) by simp
    have le: "(of_nat a :: u16) < lfree h \<longleftrightarrow> a < first_free (as @ Used n # bs)"
      unfolding I(5) by (rule u16_less) (use ff b in auto)
    show ?thesis
    proof (cases "\<exists>j. Free j \<in> set as")
      case True
      then have "first_free as < a" using first_free_lt [of _ as] I(2) by (auto simp: a_def)
      then show ?thesis using True le I(5) by (simp add: first_free_append h2_def h1_def)
    next
      case False
      then show ?thesis using le b I(5) by (simp add: first_free_append h2_def h1_def flip: a_def)
    qed
  qed
  ultimately show ?thesis using I(2,3) mem_invD(7,8) [OF i] by (auto simp: mem_desc_def h2_def h1_def)
qed

lemma join_right_shape:
  obtains k ds where "\<And>i. join_right i bs = Free (i + k) # ds"
proof (cases bs)
  case Nil
  then show ?thesis using that [of 0 "[]"] by (simp add: join_right_def)
next
  case (Cons s ss)
  then show ?thesis using that [of 0 bs] that [of "seg_size s" ss] by (cases s) (simp_all add: join_right_def)
qed

lemma plug_holes_desc:
  assumes d: "mem_desc h (as @ Free n # bs)" and c: "coalesced as" "coalesced bs"
  obtains h' where "plug_holes debug (of_nat (total as)) h = Returns h'"
    "mem_inv h' (coalesce (as @ Free n # bs))" "ram h' = ram h"
proof -
  let ?a = "of_nat (total as) :: u16"
  have D: "hdrs_ok (mem_at h) 0 0 (as @ Free n # bs)" "total (as @ Free n # bs) = 16384" "mem_segs (as @ Free n # bs)"
    using d by (simp_all add: mem_desc_def)
  have lt: "?a < 16384" using D(2,3) u16_less [of "total as" 16384] by simp
  have nx: "mem_next (mem_at h ?a) = of_nat (total as + n)" "mem_used (mem_at h ?a) = 0"
    using D(1) by (simp_all add: hdrs_ok_append hdr_ok_def)
  have le: "(ucast (of_nat (total as + n) :: u16) :: u32) \<le> 16384"
    using D(2) ucast_of_nat_u16 [of "total as + n"] u32_of_nat_le [of "total as + n" 16384] by (simp del: of_nat_add)
  have r: "plug_holes debug ?a h = Returns (plug_backward ?a (plug_forward ?a h))"
    using lt nx le by (simp add: plug_holes_def del: of_nat_add)
  note F = plug_forward_desc [OF d]
  have "mem_desc (plug_backward ?a (plug_forward ?a h)) (coalesce (as @ Free n # bs))
      \<and> ram (plug_backward ?a (plug_forward ?a h)) = ram h"
  proof (cases "ends_free as")
    case True
    then obtain cs m where as: "as = cs @ [Free m]"
      by (cases as rule: rev_cases; cases "last as") (auto simp: ends_free_def)
    obtain k ds where j: "\<forall>i. join_right i bs = Free (i + k) # ds" using join_right_shape [of bs] by metis
    have "coalesce (as @ Free n # bs) = cs @ Free (m + (n + k)) # ds"
      using coalesce_around [of cs m bs n] c as j by (simp add: add.assoc)
    then show ?thesis
      using plug_backward_desc [of "plug_forward ?a h" cs m "n + k" ds] F as j by simp
  next
    case False
    obtain k ds where j: "\<forall>i. join_right i bs = Free (i + k) # ds" using join_right_shape [of bs] by metis
    have "coalesce (as @ Free n # bs) = as @ Free (n + k) # ds" using coalesce_left_used [OF c(1) False c(2)] j by simp
    then show ?thesis using plug_backward_used [of "plug_forward ?a h" as "n + k" ds] F False j by simp
  qed
  then show ?thesis using that r coalesced_coalesce by (auto simp: mem_inv_desc)
qed

lemma mem_of_block: "a \<le> 16384 \<Longrightarrow> mem_of h (ram h + a + 8) = of_nat a"
  by (simp add: mem_of_def)

lemma mem_free_gives_back:
  assumes i: "mem_inv h segs" and f: "a_free off segs = Some segs'"
  obtains h' where "mem_free debug (ram h + off + 8) h = Returns h'" "mem_inv h' (coalesce segs')" "ram h' = ram h"
proof -
  obtain as n bs where s: "segs = as @ Used n # bs" "off = total as" "segs' = as @ Free n # bs"
    using a_free_Some [OF f] by blast
  have b: "off + 20 \<le> 16384" "4 dvd off" using mem_invD(3,4) [OF i] s mem_segs_total [of as] by auto
  have u: "mem_used (mem_at h (of_nat off)) \<noteq> 0"
    using mem_invD(1) [OF i] s by (simp add: hdrs_ok_append hdr_ok_def)
  have c: "coalesced as" "coalesced bs" using mem_invD(5) [OF i] s(1) by (simp_all add: coalesced_append)
  have al: "(ram h + off + 8) mod 4 = 0" using mem_invD(7) [OF i] b(2) by presburger
  have ir: "in_ram h (ram h + off + 8)" using b at_ram_of_nat [of 16384 h] by (simp add: in_ram_def)
  note M = mem_mark_free [OF i [unfolded s(1)]]
  obtain h' where h': "plug_holes debug (of_nat (total as)) (if of_nat (total as) < lfree h
        then (set_mem (of_nat (total as)) (\<lambda>m. m\<lparr>mem_used := 0\<rparr>) h)\<lparr>lfree := of_nat (total as)\<rparr>
        else set_mem (of_nat (total as)) (\<lambda>m. m\<lparr>mem_used := 0\<rparr>) h) = Returns h'"
    "mem_inv h' (coalesce (as @ Free n # bs))" "ram h' = ram h"
    using plug_holes_desc [OF conjunct1 [OF M] c, of debug] M by auto
  have "mem_free debug (ram h + off + 8) h = Returns h'"
    using h'(1) u al ir mem_of_block [of off h] b by (simp add: mem_free_def s(2) Let_def)
  then show ?thesis using that h'(2,3) s(3) by simp
qed

section \<open>mem_trim\<close>

text \<open>Trimming a used block of size \<open>k\<close> to \<open>w\<close>: the rest joins a free block after it, or becomes a block.\<close>

definition trimmed :: "nat \<Rightarrow> nat \<Rightarrow> seg list \<Rightarrow> seg list" where
  "trimmed w k bs =
     (if w = k then Used k # bs
      else case bs of Free j # cs \<Rightarrow> Used w # Free (k - w + j) # cs | _ \<Rightarrow> cut_above 19 w k @ bs)"

lemma split_hdrs_full:
  assumes "a < c" and "c < b" and "b \<le> 16384"
    and "f1 = f(of_nat c := (f (of_nat c))\<lparr>mem_used := 0, mem_next := of_nat b, mem_prev := of_nat a\<rparr>)"
    and "f2 = f1(of_nat a := (f1 (of_nat a))\<lparr>mem_next := of_nat c\<rparr>)"
  shows "(if ucast (mem_next (mem_hdr f2 c)) \<noteq> (16384 :: u32)
      then f2(mem_next (mem_hdr f2 c) := (f2 (mem_next (mem_hdr f2 c)))\<lparr>mem_prev := of_nat c\<rparr>) else f2) =
    split_hdrs a c b (mem_used (mem_hdr f a)) f"
proof -
  have ne: "(of_nat a :: u16) \<noteq> of_nat c" using assms(1-3) by (simp add: of_nat_u16_eq)
  have u: "(f (of_nat a))\<lparr>mem_next := x\<rparr> = (f (of_nat a))\<lparr>mem_next := x, mem_used := mem_used (f (of_nat a))\<rparr>" for x
    by (cases "f (of_nat a)") simp
  have nx: "mem_next (mem_hdr f2 c) = of_nat b" using ne by (simp add: assms(4,5))
  show ?thesis
    unfolding nx ucast_end [OF assms(3)]
    using ne u by (auto simp: split_hdrs_def Let_def assms(4,5) smem_full)
qed

lemma trim_split_inv:
  assumes i: "mem_inv h (as @ mid @ bs)" and w: "20 \<le> w" "w + 20 \<le> total mid" "4 dvd w"
    and mid: "mid = [Used k] \<and> \<not> starts_free bs \<or> (\<exists>j. mid = [Used k, Free j])"
    and h': "mem_at h' = split_hdrs (total as) (total as + w) (total as + total mid)
        (mem_used (mem_hdr (mem_at h) (total as))) (mem_at h)"
      "ram h' = ram h" "lfree h' = of_nat (first_free (as @ [Used w, Free (total mid - w)] @ bs))"
  shows "mem_inv h' (as @ [Used w, Free (total mid - w)] @ bs)"
proof -
  note I = mem_invD [OF i]
  have hd: "mem_prev (mem_hdr (mem_at h) (total as)) = of_nat (last_at 0 0 as)"
    "mem_used (mem_hdr (mem_at h) (total as)) \<noteq> 0"
    using I(1) mid by (auto simp: hdrs_ok_append hdr_ok_def)
  have b: "total as + total mid \<le> 16384" "4 dvd total mid" using I(3,4) mem_segs_total [of mid] by auto
  have "hdrs_ok (mem_at h') 0 0 (as @ [Used w, Free (total mid - w)] @ bs)"
    unfolding h'(1) by (rule split_hdrs_ok [OF I(1,3,4)]) (use w hd in auto)
  moreover have "mem_used (mem_at h' 16384) \<noteq> 0"
    using split_hdrs_at [of "total as" "total as + w" "total as + total mid" 16384] w b I(2) hd(2)
    by (auto simp: h'(1) split: if_splits)
  moreover have "mem_segs (as @ [Used w, Free (total mid - w)] @ bs)"
    using I(3) w b by (auto intro: dvd_diff_nat)
  moreover have "coalesced (as @ [Used w, Free (total mid - w)] @ bs)"
    using I(5) mid by (auto simp: coalesced_append starts_free_def ends_free_def)
  moreover have "total (as @ [Used w, Free (total mid - w)] @ bs) = 16384" using I(4) w by simp
  ultimately show ?thesis using I(7,8) h'(2,3) by (simp add: mem_inv_def)
qed

lemma trim_into_next_inv:
  assumes i: "mem_inv h (as @ [Used k, Free j] @ bs)" and w: "m + 8 < k" "12 \<le> m" "4 dvd m"
  shows "mem_inv (trim_into_next (of_nat (total as)) (of_nat m) h) (as @ [Used (m + 8), Free (k + j - (m + 8))] @ bs)
    \<and> ram (trim_into_next (of_nat (total as)) (of_nat m) h) = ram h"
proof -
  let ?a = "total as" and ?f = "mem_at h" and ?h = "trim_into_next (of_nat (total as)) (of_nat m) h"
  note I = mem_invD [OF i]
  have b: "?a + (k + j) \<le> 16384" "20 \<le> j" using I(3,4) by auto
  have hd: "mem_next (mem_hdr ?f ?a) = of_nat (?a + k)" "mem_next (mem_hdr ?f (?a + k)) = of_nat (?a + (k + j))"
    using I(1) by (simp_all add: hdrs_ok_append hdr_ok_def add.assoc)
  have p2: "(of_nat ?a :: u16) + ucast (8 :: u32) + of_nat m = of_nat (?a + (m + 8))" by simp
  have at: "mem_at ?h = split_hdrs ?a (?a + (m + 8)) (?a + (k + j)) (mem_used (mem_hdr ?f ?a)) ?f"
  proof -
    note sp = split_hdrs_full [of ?a "?a + (m + 8)" "?a + (k + j)" _ ?f, OF _ _ b(1) refl refl]
    show ?thesis
      unfolding trim_into_next_def mem_constants Let_def hd p2
      by (subst sp [symmetric]) (use w b in \<open>simp_all del: of_nat_add\<close>)
  qed
  have lf: "lfree h = of_nat (?a + k) \<longleftrightarrow> (\<nexists>x. Free x \<in> set as)"
  proof -
    have "first_free as < ?a" if "Free x \<in> set as" for x using first_free_lt [OF that] I(3) by simp
    then have "first_free (as @ [Used k, Free j] @ bs) = ?a + k \<longleftrightarrow> (\<nexists>x. Free x \<in> set as)"
      by (auto simp: first_free_append)
    then show ?thesis
      using I(4,6) b first_free_le [of "as @ [Used k, Free j] @ bs"] by (simp add: of_nat_u16_eq del: of_nat_add)
  qed
  have r: "ram ?h = ram h" and l: "lfree ?h = (if lfree h = of_nat (?a + k) then of_nat (?a + (m + 8)) else lfree h)"
    unfolding trim_into_next_def mem_constants Let_def hd p2 by (simp_all del: of_nat_add)
  have "mem_inv ?h (as @ [Used (m + 8), Free (total [Used k, Free j] - (m + 8))] @ bs)"
    by (rule trim_split_inv [OF i _ _ _ disjI2])
      (use w b at r l lf I(6) in \<open>auto simp: first_free_append simp del: of_nat_add\<close>)
  then show ?thesis using r by simp
qed

lemma trim_new_block_inv:
  assumes i: "mem_inv h (as @ [Used k] @ bs)" and w: "m + 28 \<le> k" "12 \<le> m" "4 dvd m"
    and bs: "\<not> starts_free bs"
  shows "mem_inv (trim_new_block (of_nat (total as)) (of_nat m) h) (as @ [Used (m + 8), Free (k - (m + 8))] @ bs)
    \<and> ram (trim_new_block (of_nat (total as)) (of_nat m) h) = ram h"
proof -
  let ?a = "total as" and ?f = "mem_at h" and ?h = "trim_new_block (of_nat (total as)) (of_nat m) h"
  note I = mem_invD [OF i]
  have b: "?a + k \<le> 16384" using I(4) by simp
  have hd: "mem_next (mem_hdr ?f ?a) = of_nat (?a + k)"
    using I(1) by (simp add: hdrs_ok_append hdr_ok_def)
  have p2: "(of_nat ?a :: u16) + ucast (8 :: u32) + of_nat m = of_nat (?a + (m + 8))" by simp
  have at: "mem_at ?h = split_hdrs ?a (?a + (m + 8)) (?a + k) (mem_used (mem_hdr ?f ?a)) ?f"
  proof -
    note sp = split_hdrs_full [of ?a "?a + (m + 8)" "?a + k" _ ?f, OF _ _ b(1) refl refl]
    show ?thesis
      unfolding trim_new_block_def mem_constants Let_def hd p2
      by (subst sp [symmetric]) (use w b hd in \<open>simp_all del: of_nat_add\<close>)
  qed
  have r: "ram ?h = ram h" and l: "lfree ?h = (if of_nat (?a + (m + 8)) < lfree h then of_nat (?a + (m + 8)) else lfree h)"
    unfolding trim_new_block_def mem_constants Let_def hd p2 by (simp_all del: of_nat_add)
  have lf: "of_nat (?a + (m + 8)) < lfree h \<longleftrightarrow> (\<nexists>x. Free x \<in> set as)"
  proof -
    have "first_free as < ?a" if "Free x \<in> set as" for x using first_free_lt [OF that] I(3) by simp
    then have "?a + (m + 8) < first_free (as @ [Used k] @ bs) \<longleftrightarrow> (\<nexists>x. Free x \<in> set as)"
      using w by (cases "\<exists>x. Free x \<in> set as") (force simp: first_free_append)+
    then show ?thesis
      using I(4,6) b w first_free_le [of "as @ [Used k] @ bs"] by (simp add: u16_less del: of_nat_add)
  qed
  have "mem_inv ?h (as @ [Used (m + 8), Free (total [Used k] - (m + 8))] @ bs)"
    by (rule trim_split_inv [OF i _ _ _ disjI1])
      (use w b bs at r l lf I(6) in \<open>auto simp: first_free_append simp del: of_nat_add\<close>)
  then show ?thesis using r by simp
qed

lemma mem_trim_shrinks:
  assumes i: "mem_inv h (as @ Used k # bs)" and n: "m_size (unat n) \<le> k"
  obtains h' where "mem_trim debug (ram h + total as + 8) n h = Returns (ram h + total as + 8, h')"
    "mem_inv h' (as @ trimmed (m_size (unat n)) k bs)" "ram h' = ram h"
proof -
  let ?a = "total as" and ?f = "mem_at h"
  define m where "m = m_size (unat n) - 8"
  have m: "m_size (unat n) = m + 8" "12 \<le> m" "4 dvd m"
    using m_size_bounds [of "unat n"] by (auto simp: m_def elim: dvd_diff_nat)
  note I = mem_invD [OF i]
  have b: "?a + k \<le> 16384" "20 \<le> k" "4 dvd k" using I(3,4) by auto
  have n': "unat n \<le> 65532" using n b m_size_bounds(1) [of "unat n"] by simp
  have rq: "request_size n = of_nat m" using request_size_eq [OF n'] m(1) by simp
  have mb: "m \<le> 16384" "m + 8 \<le> k" using n m(1) b by auto
  have cap: "\<not> (16384 :: u32) < ucast (of_nat m :: u16)"
    using ucast_of_nat_u16 [of m] u32_of_nat_less [of 16384 m] mb by simp
  have ir: "in_ram h (ram h + ?a + 8)" using b at_ram_of_nat [of 16384 h] by (simp add: in_ram_def)
  have ptr: "mem_of h (ram h + ?a + 8) = of_nat ?a" using mem_of_block b by simp
  have nx: "mem_next (mem_hdr ?f ?a) = of_nat (?a + k)" using I(1) by (simp add: hdrs_ok_append hdr_ok_def)
  have sz: "mem_next (mem_at h (of_nat ?a)) - of_nat ?a - ucast (8 :: u32) = (of_nat (k - 8) :: u16)"
    using b unfolding nx by (simp add: of_nat_diff)
  have cmp: "(of_nat m :: u16) \<le> of_nat (k - 8)" "\<not> (of_nat (k - 8) :: u16) < of_nat m"
    "(of_nat m :: u16) = of_nat (k - 8) \<longleftrightarrow> m + 8 = k"
  proof -
    have "k - 8 < 65536" "m < 65536" using mb b by auto
    then show "(of_nat m :: u16) \<le> of_nat (k - 8)" "\<not> (of_nat (k - 8) :: u16) < of_nat m"
      "(of_nat m :: u16) = of_nat (k - 8) \<longleftrightarrow> m + 8 = k"
      using mb b u16_less [of "k - 8" m] of_nat_u16_eq [of m "k - 8"] by (auto simp: not_less simp del: of_nat_diff)
  qed
  have room: "(ucast (of_nat m :: u16) :: u32) + 8 + 12 \<le> ucast (of_nat (k - 8) :: u16) \<longleftrightarrow> m + 28 \<le> k"
  proof -
    have "(ucast (of_nat m :: u16) :: u32) + 8 + 12 = of_nat (m + 20)" using ucast_of_nat_u16 [of m] mb by simp
    moreover have "(ucast (of_nat (k - 8) :: u16) :: u32) = of_nat (k - 8)"
      by (rule ucast_of_nat_u16) (use b in simp)
    moreover have "(of_nat (m + 20) :: u32) \<le> of_nat (k - 8) \<longleftrightarrow> m + 20 \<le> k - 8"
      by (rule u32_of_nat_le) (use mb b in auto)
    ultimately show ?thesis using b by (simp only:) arith
  qed
  have un: "mem_used (mem_hdr ?f (?a + k)) = 0 \<longleftrightarrow> starts_free bs"
  proof (cases bs)
    case Nil
    then show ?thesis using I(2,4) by (simp add: starts_free_def)
  next
    case (Cons s ss)
    then show ?thesis using I(1) by (cases s) (auto simp: hdrs_ok_append hdr_ok_def starts_free_def simp del: of_nat_add)
  qed
  have tr: "mem_trim debug (ram h + ?a + 8) n h = Returns (ram h + ?a + 8,
      if m + 8 = k then h else if starts_free bs then trim_into_next (of_nat ?a) (of_nat m) h
      else if m + 28 \<le> k then trim_new_block (of_nat ?a) (of_nat m) h else h)"
    unfolding mem_trim_def rq mem_constants Let_def ptr sz room cmp(3)
    using ir cap cmp un nx by (simp del: of_nat_add)
  consider "m + 8 = k" | "m + 8 \<noteq> k" "starts_free bs" | "\<not> starts_free bs" "m + 28 \<le> k"
    | "m + 8 \<noteq> k" "\<not> starts_free bs" "\<not> m + 28 \<le> k" by blast
  then show ?thesis
  proof cases
    case 1
    then show ?thesis using tr that i by (simp add: trimmed_def m(1))
  next
    case 2
    then obtain j cs where "bs = Free j # cs" by (cases bs; cases "hd bs") (auto simp: starts_free_def)
    then show ?thesis using 2 tr that trim_into_next_inv [of h as k j cs m] i mb m(2,3)
      by (simp add: trimmed_def m(1))
  next
    case 3
    then have "trimmed (m + 8) k bs = [Used (m + 8), Free (k - (m + 8))] @ bs"
      by (auto simp: trimmed_def cut_above_def starts_free_def split: list.splits seg.splits)
    then show ?thesis using 3 tr that trim_new_block_inv [of h as k bs m] i m by simp
  next
    case 4
    then have "trimmed (m + 8) k bs = Used k # bs"
      by (auto simp: trimmed_def cut_above_def starts_free_def split: list.splits seg.splits)
    then show ?thesis using 4 tr that i m(1) by simp
  qed
qed

end
