(* ===== verification/Mem_Run.thy ===== *)
theory Mem_Run
  imports Mem_Spec
begin

text \<open>
  The promises of the LwIP heap over whole runs: from \<open>mem_init\<close> on, whatever is allocated, freed
  and trimmed, no assertion of \<open>mem.c\<close> fails, live blocks are aligned, lie inside the heap, have
  the size asked for and are disjoint, and after everything was freed the heap is one free block.
\<close>

section \<open>Initialisation\<close>

lemma mem_init_inv:
  assumes "0 < ram_heap" and "ram_heap < 2 ^ 31"
  shows "mem_inv (mem_init ram_heap h) [Free 16384]" "ram (mem_init ram_heap h) = (ram_heap + 3) div 4 * 4"
proof -
  have "0 < (ram_heap + 3) div 4" using assms(1) by presburger
  then show "mem_inv (mem_init ram_heap h) [Free 16384]" "ram (mem_init ram_heap h) = (ram_heap + 3) div 4 * 4"
    using assms by (simp_all add: mem_init_def mem_inv_def hdr_ok_def LWIP_MEM_ALIGN_nat starts_free_def)
qed

section \<open>Runs\<close>

text \<open>\<open>live\<close> gives the size asked for at every pointer the client holds.\<close>

inductive mem_run :: "bool \<Rightarrow> lwheap \<Rightarrow> lwheap \<Rightarrow> (nat \<Rightarrow> nat option) \<Rightarrow> bool" for debug h0 where
  boot: "mem_run debug h0 h0 Map.empty"
| malloc: "mem_run debug h0 h live \<Longrightarrow> unat n \<le> 65532 \<Longrightarrow> mem_malloc debug n h = Returns (p, h') \<Longrightarrow>
     mem_run debug h0 h' (if p = 0 then live else live(p \<mapsto> unat n))"
| free: "mem_run debug h0 h live \<Longrightarrow> live p = Some n \<Longrightarrow> mem_free debug p h = Returns h' \<Longrightarrow>
     mem_run debug h0 h' (live(p := None))"
| trim: "mem_run debug h0 h live \<Longrightarrow> live p = Some k \<Longrightarrow> unat n \<le> k \<Longrightarrow>
     mem_trim debug p n h = Returns (q, h') \<Longrightarrow> mem_run debug h0 h' (live(p \<mapsto> unat n))"

definition live_ok :: "nat \<Rightarrow> seg list \<Rightarrow> (nat \<Rightarrow> nat option) \<Rightarrow> bool" where
  "live_ok a segs live \<longleftrightarrow> dom live = (\<lambda>p. p + 8) ` fst ` set (ublocks a segs)
     \<and> (\<forall>(p, k)\<in>set (ublocks a segs). \<exists>n. live (p + 8) = Some n \<and> m_size n \<le> k)"

definition mem_state :: "lwheap \<Rightarrow> (nat \<Rightarrow> nat option) \<Rightarrow> bool" where
  "mem_state h live \<longleftrightarrow> (\<exists>segs. mem_inv h segs \<and> live_ok (ram h) segs live)"

lemma m_size_mono: "n \<le> k \<Longrightarrow> m_size n \<le> m_size k"
  unfolding m_size_def by (meson add_le_mono add_right_mono div_le_mono le_refl max.mono mult_le_mono1)

lemma live_ok_at:
  assumes "live_ok a segs live" and "live p = Some n"
  obtains k where "8 \<le> p" "(p - 8, k) \<in> set (ublocks a segs)" "m_size n \<le> k"
proof -
  have "p \<in> dom live" using assms(2) by blast
  then obtain q k where "p = q + 8" "(q, k) \<in> set (ublocks a segs)" using assms(1) by (auto simp: live_ok_def)
  then show ?thesis using assms that [of k] by (fastforce simp: live_ok_def)
qed

lemma live_ok_new:
  assumes "live_ok a segs live" and "set (ublocks a segs') = insert (q, k) (set (ublocks a segs))"
    and "\<forall>(p, j)\<in>set (ublocks a segs). p \<noteq> q" and "m_size n \<le> k"
  shows "live_ok a segs' (live(q + 8 \<mapsto> n))"
  using assms by (auto simp: live_ok_def image_iff)

lemma live_ok_gone:
  assumes "live_ok a segs live" and "set (ublocks a segs) = insert (q, k) (set (ublocks a segs'))"
    and "q \<notin> fst ` set (ublocks a segs')"
  shows "live_ok a segs' (live(q + 8 := None))"
proof -
  have "dom live = insert (q + 8) ((\<lambda>p. p + 8) ` fst ` set (ublocks a segs'))"
    using assms(1,2) by (simp add: live_ok_def)
  moreover have "q + 8 \<notin> (\<lambda>p. p + 8) ` fst ` set (ublocks a segs')"
    using assms(3) by (simp add: image_iff)
  ultimately have a: "dom (live(q + 8 := None)) = (\<lambda>p. p + 8) ` fst ` set (ublocks a segs')" by simp
  moreover have "p \<noteq> q" if "(p, j) \<in> set (ublocks a segs')" for p j using assms(3) that by force
  have b: "\<exists>n. (live(q + 8 := None)) (p + 8) = Some n \<and> m_size n \<le> j" if "(p, j) \<in> set (ublocks a segs')" for p j
  proof -
    have "p \<noteq> q" using assms(3) that by force
    then show ?thesis using assms(1,2) that by (force simp: live_ok_def)
  qed
  then show ?thesis using a by (auto simp: live_ok_def)
qed

lemma mem_segs_pos: "mem_segs as \<Longrightarrow> \<forall>s\<in>set as. 0 < seg_size s"
  by (auto simp: mem_segs_def)

text \<open>The block of a live pointer.\<close>

lemma live_block:
  assumes "mem_inv h segs" and "live_ok (ram h) segs live" and "live p = Some n"
  obtains as k bs where "segs = as @ Used k # bs" "p = ram h + total as + 8" "m_size n \<le> k"
proof -
  obtain k where k: "8 \<le> p" "(p - 8, k) \<in> set (ublocks (ram h) segs)" "m_size n \<le> k"
    by (rule live_ok_at [OF assms(2,3)])
  show ?thesis
    by (rule split_used_block [OF k(2)], rule that) (use k in auto)
qed

section \<open>Every call keeps the invariant\<close>

lemma malloc_state:
  assumes s: "mem_state h live" and n: "unat n \<le> 65532"
  shows "\<exists>p h'. mem_malloc debug n h = Returns (p, h')
           \<and> mem_state h' (if p = 0 then live else live(p \<mapsto> unat n)) \<and> ram h' = ram h
           \<and> (p \<noteq> 0 \<longrightarrow> p \<notin> dom live)"
proof -
  obtain segs where i: "mem_inv h segs" "live_ok (ram h) segs live" using s by (auto simp: mem_state_def)
  show ?thesis
  proof (cases "m_malloc (unat n) segs")
    case None
    then show ?thesis using mem_malloc_fails [OF i(1) n] s by simp
  next
    case (Some r)
    obtain off segs' where r: "m_malloc (unat n) segs = Some (off, segs')" using Some by (cases r) simp
    obtain h' where h': "mem_malloc debug n h = Returns (ram h + off + 8, h')" "mem_inv h' segs'" "ram h' = ram h"
      by (rule mem_malloc_succeeds [OF i(1) n r])
    have ff: "fit_first 19 (m_size (unat n)) segs = Some (off, segs')"
      using r by (simp add: m_malloc_def split: if_splits)
    obtain m where m: "m_size (unat n) \<le> m" "set (ublocks (ram h) segs') = insert (ram h + off, m) (set (ublocks (ram h) segs))"
      "\<forall>(q, j)\<in>set (ublocks (ram h) segs). q + j \<le> ram h + off \<or> ram h + off + m \<le> q"
      using fit_first_blocks [OF ff, of "ram h"] by blast
    have "0 < m" using m(1) m_size_bounds(2) [of "unat n"] by simp
    have pos: "0 < j" if "(q, j) \<in> set (ublocks (ram h) segs)" for q j
      using ublocks_bounds [OF that] mem_segs_pos [OF mem_invD(3) [OF i(1)]] by force
    have nq: "\<forall>(p, j)\<in>set (ublocks (ram h) segs). p \<noteq> ram h + off"
      using m(3) pos \<open>0 < m\<close> by fastforce
    have "live_ok (ram h) segs' (live(ram h + off + 8 \<mapsto> unat n))"
      by (rule live_ok_new [OF i(2) m(2) nq m(1)])
    moreover have "ram h + off \<notin> fst ` set (ublocks (ram h) segs)" using nq by force
    then have "ram h + off + 8 \<notin> dom live"
      using i(2) by (simp add: live_ok_def image_iff)
    ultimately show ?thesis using h' by (auto simp: mem_state_def)
  qed
qed

lemma free_state:
  assumes s: "mem_state h live" and p: "live p = Some n"
  shows "\<exists>h'. mem_free debug p h = Returns h' \<and> mem_state h' (live(p := None)) \<and> ram h' = ram h"
proof -
  obtain segs where i: "mem_inv h segs" "live_ok (ram h) segs live" using s by (auto simp: mem_state_def)
  obtain as k bs where b: "segs = as @ Used k # bs" "p = ram h + total as + 8" by (rule live_block [OF i p])
  have pos: "\<forall>s\<in>set as. 0 < seg_size s" "0 < k"
    using mem_segs_pos [of as] mem_invD(3) [OF i(1)] b(1) by auto
  obtain h' where h': "mem_free debug (ram h + total as + 8) h = Returns h'"
    "mem_inv h' (coalesce (as @ Free k # bs))" "ram h' = ram h"
    by (rule mem_free_gives_back [OF i(1) a_free_at [OF pos(1), of k bs, folded b(1)]])
  have "live_ok (ram h) (coalesce (as @ Free k # bs)) (live(ram h + total as + 8 := None))"
    by (rule live_ok_gone [OF i(2)])
      (use ublocks_free_mid [of "ram h" as k bs] ublocks_free_addr [OF pos(2,1), of "ram h" bs] b(1) in simp_all)
  then show ?thesis using h' b(2) by (auto simp: mem_state_def)
qed

lemma trimmed_blocks:
  assumes "w \<le> k"
  shows "\<exists>k'. w \<le> k' \<and> k' \<le> k \<and> set (ublocks a (as @ trimmed w k bs)) =
           insert (a + total as, k') (set (ublocks a (as @ Free k # bs)))"
  using assms by (auto simp: trimmed_def cut_above_def ublocks_append add.assoc split: list.splits seg.splits)

lemma trim_state:
  assumes s: "mem_state h live" and p: "live p = Some k" and n: "unat n \<le> k"
  shows "\<exists>h'. mem_trim debug p n h = Returns (p, h') \<and> mem_state h' (live(p \<mapsto> unat n)) \<and> ram h' = ram h"
proof -
  obtain segs where i: "mem_inv h segs" "live_ok (ram h) segs live" using s by (auto simp: mem_state_def)
  obtain as j bs where b: "segs = as @ Used j # bs" "p = ram h + total as + 8" "m_size k \<le> j"
    by (rule live_block [OF i p])
  have w: "m_size (unat n) \<le> j" using m_size_mono [OF n] b(3) by simp
  have pos: "\<forall>s\<in>set as. 0 < seg_size s" "0 < j"
    using mem_segs_pos [of as] mem_invD(3) [OF i(1)] b(1) by auto
  obtain h' where h': "mem_trim debug (ram h + total as + 8) n h = Returns (ram h + total as + 8, h')"
    "mem_inv h' (as @ trimmed (m_size (unat n)) j bs)" "ram h' = ram h"
    by (rule mem_trim_shrinks [OF i(1) [unfolded b(1)] w])
  have fr: "ram h + total as \<notin> fst ` set (ublocks (ram h) (as @ Free j # bs))"
    by (rule ublocks_free_addr [OF pos(2,1)])
  have gone: "live_ok (ram h) (as @ Free j # bs) (live(p := None))"
    using live_ok_gone [OF i(2) _ fr, of j] ublocks_free_mid [of "ram h" as j bs] b by simp
  obtain k' where k': "m_size (unat n) \<le> k'" "set (ublocks (ram h) (as @ trimmed (m_size (unat n)) j bs)) =
      insert (ram h + total as, k') (set (ublocks (ram h) (as @ Free j # bs)))"
    using trimmed_blocks [OF w, of "ram h" as bs] by blast
  have "live_ok (ram h) (as @ trimmed (m_size (unat n)) j bs) ((live(p := None))(p \<mapsto> unat n))"
    using live_ok_new [OF gone k'(2) _ k'(1)] fr b(2) by force
  then show ?thesis using h' b(2) by (auto simp: mem_state_def)
qed

lemma mem_run_state:
  assumes "mem_run debug h0 h live" and "mem_state h0 Map.empty"
  shows "mem_state h live \<and> ram h = ram h0"
  using assms
proof (induction rule: mem_run.induct)
  case (malloc h live n p h')
  then obtain q h'' where "mem_malloc debug n h = Returns (q, h'')"
    "mem_state h'' (if q = 0 then live else live(q \<mapsto> unat n))" "ram h'' = ram h"
    using malloc_state by blast
  then show ?case using malloc by auto
next
  case (free h live p n h')
  then show ?case using free_state [of h live p n debug] by (auto simp: fun_upd_def)
next
  case (trim h live p k n q h')
  then show ?case using trim_state [of h live p k n debug] by (auto simp: fun_upd_def)
qed simp

lemma init_state:
  assumes "0 < ram_heap" and "ram_heap < 2 ^ 31"
  shows "mem_state (mem_init ram_heap h) Map.empty"
proof -
  have "live_ok (ram (mem_init ram_heap h)) [Free 16384] Map.empty" by (simp add: live_ok_def)
  then show ?thesis using mem_init_inv(1) [OF assms] by (auto simp: mem_state_def)
qed

lemma live_bounds:
  assumes "mem_inv h segs" and "live_ok (ram h) segs live" and "live p = Some n"
  shows "4 dvd p \<and> ram h + 8 \<le> p \<and> p + n \<le> ram h + 16384 \<and> p \<noteq> 0"
proof -
  obtain as k bs where b: "segs = as @ Used k # bs" "p = ram h + total as + 8" "m_size n \<le> k"
    by (rule live_block [OF assms])
  have "total as + k \<le> 16384" "4 dvd total as"
    using mem_invD(3,4) [OF assms(1)] b(1) mem_segs_total [of as] by auto
  then show ?thesis using b(2,3) m_size_bounds(1) [of n] mem_invD(7) [OF assms(1)] by presburger
qed

lemma live_inside:
  assumes "mem_state h live" and "p \<in> dom live"
  shows "ram h \<le> p \<and> p < ram h + 16384 \<and> p \<noteq> 0"
proof -
  obtain segs where i: "mem_inv h segs" "live_ok (ram h) segs live" using assms(1) by (auto simp: mem_state_def)
  obtain n where n: "live p = Some n" using assms(2) by blast
  obtain as k bs where b: "segs = as @ Used k # bs" "p = ram h + total as + 8" "m_size n \<le> k"
    by (rule live_block [OF i n])
  then show ?thesis using mem_invD(3,4) [OF i(1)] by auto
qed

lemma live_disjoint:
  assumes "live_ok a segs live" and "live p = Some n" and "live q = Some m" and "p \<noteq> q"
  shows "p + n \<le> q \<or> q + m \<le> p"
proof -
  obtain j where j: "8 \<le> p" "(p - 8, j) \<in> set (ublocks a segs)" "m_size n \<le> j"
    by (rule live_ok_at [OF assms(1,2)])
  obtain k where k: "8 \<le> q" "(q - 8, k) \<in> set (ublocks a segs)" "m_size m \<le> k"
    by (rule live_ok_at [OF assms(1,3)])
  show ?thesis
    using ublocks_disjoint [OF j(2) k(2)] assms(4) j(1,3) k(1,3) m_size_bounds(1) [of n] m_size_bounds(1) [of m]
    by (cases "p - 8 = q - 8") auto
qed

lemma all_given_back:
  assumes "mem_inv h segs" and "live_ok (ram h) segs Map.empty"
  shows "segs = [Free 16384]"
proof -
  have u: "ublocks (ram h) segs = []" using assms(2) by (auto simp: live_ok_def)
  have "ublocks a xs = [] \<Longrightarrow> \<forall>s\<in>set xs. is_Free s" for a xs
    by (induction a xs rule: ublocks.induct) auto
  from this [OF u] have "\<forall>s\<in>set segs. is_Free s" .
  then show ?thesis
    using mem_invD(4,5) [OF assms(1)]
    by (cases segs; cases "tl segs"; cases "hd segs") (auto simp: starts_free_def)
qed

text \<open>Memory as the loader leaves it, for the concrete applications of the properties.\<close>

definition lwheap_0 :: lwheap where
  "lwheap_0 = \<lparr>ram = 0, mem_at = (\<lambda>_. \<lparr>mem_next = 0, mem_prev = 0, mem_used = 0\<rparr>), lfree = 0\<rparr>"

lemma boot_malloc:
  "\<exists>h'. mem_malloc False 100 (mem_init 4096 lwheap_0) = Returns (4104, h') \<and> mem_inv h' [Used 108, Free 16276]"
proof -
  have "m_malloc (unat (100 :: u16)) [Free 16384] = Some (0, [Used 108, Free 16276])"
    by (simp add: m_malloc_def m_size_def cut_above_def)
  then show ?thesis
    using mem_malloc_succeeds [OF mem_init_inv(1) [of 4096 lwheap_0], of 100 0 "[Used 108, Free 16276]" False]
      mem_init_inv(2) [of 4096 lwheap_0] by auto
qed

section \<open>The properties of the LwIP heap\<close>

text \<open>
  C29. A request of up to 65532 bytes is first fit: with a free block that is large enough, the
  lowest such block is used and split when what is left can hold a block, and the pointer is behind
  its header; without one the call returns NULL and changes nothing.
\<close>

theorem mem_malloc_first_fit:
  assumes "mem_inv h segs" and "unat n \<le> 65532"
  shows "case m_malloc (unat n) segs of
      None \<Rightarrow> mem_malloc debug n h = Returns (0, h)
    | Some (off, segs') \<Rightarrow> \<exists>h'. mem_malloc debug n h = Returns (ram h + off + 8, h')
        \<and> mem_inv h' segs' \<and> ram h' = ram h"
proof (cases "m_malloc (unat n) segs")
  case None
  then show ?thesis using mem_malloc_fails [OF assms None] by simp
next
  case (Some r)
  obtain off segs' where r: "r = (off, segs')" by (cases r)
  then show ?thesis using mem_malloc_succeeds [OF assms, of off segs' debug] Some by auto
qed

theorem mem_malloc_first_fit_witness:
  "m_malloc (unat (100 :: u16)) [Free 16384] = Some (0, [Used 108, Free 16276])
   \<and> (\<exists>h'. mem_malloc False 100 (mem_init 4096 lwheap_0) = Returns (4104, h') \<and> mem_inv h' [Used 108, Free 16276])"
proof -
  have m: "m_malloc (unat (100 :: u16)) [Free 16384] = Some (0, [Used 108, Free 16276])"
    by (simp add: m_malloc_def m_size_def cut_above_def)
  show ?thesis
    using mem_malloc_first_fit [OF mem_init_inv(1) [of 4096 lwheap_0], of 100 False] m mem_init_inv(2) [of 4096 lwheap_0]
    by auto
qed

text \<open>
  \<open>mem_trim\<close>
  keeps a block where it is and gives its end back: to the free block behind it
  when there is one, and otherwise as a new free block when a block fits into what is left.\<close>

theorem mem_trim_gives_back:
  assumes "mem_inv h (as @ Used k # bs)" and "m_size (unat n) \<le> k"
  shows "\<exists>h'. mem_trim debug (ram h + total as + 8) n h = Returns (ram h + total as + 8, h')
           \<and> mem_inv h' (as @ trimmed (m_size (unat n)) k bs) \<and> ram h' = ram h"
  by (rule mem_trim_shrinks [OF assms, of debug]) blast

theorem mem_trim_gives_back_witness:
  "\<exists>h h'. mem_inv h [Used 108, Free 16276] \<and> mem_trim False (ram h + 8) 40 h = Returns (ram h + 8, h')
     \<and> mem_inv h' [Used 48, Free 16336]"
proof -
  obtain h where h: "mem_inv h [Used 108, Free 16276]"
    using boot_malloc by blast
  have m: "m_size (unat (40 :: u16)) = 48" by (simp add: m_size_def)
  show ?thesis
    using mem_trim_gives_back [of h "[]" 108 "[Free 16276]" 40 False] h m by (auto simp: trimmed_def)
qed

text \<open>What a client relies on: its blocks are aligned, inside the heap, and disjoint.\<close>

definition blocks_safe :: "lwheap \<Rightarrow> (nat \<Rightarrow> nat option) \<Rightarrow> bool" where
  "blocks_safe h live \<longleftrightarrow>
     (\<forall>p n. live p = Some n \<longrightarrow> p \<noteq> 0 \<and> 4 dvd p \<and> ram h + 8 \<le> p \<and> p + n \<le> ram h + 16384) \<and>
     (\<forall>p n q m. live p = Some n \<and> live q = Some m \<and> p \<noteq> q \<longrightarrow> p + n \<le> q \<or> q + m \<le> p)"

text \<open>
  C30. In every run after \<open>mem_init\<close>
  the live blocks are aligned, inside the heap, as large as
  asked for and pairwise disjoint, every further allocation or free returns (no assertion fails, no
  loop hangs), and once everything was freed the whole heap is one free block again.\<close>

theorem mem_run_safe:
  assumes "mem_run debug (mem_init ram_heap h0) h live" and "0 < ram_heap" and "ram_heap < 2 ^ 31"
  shows "blocks_safe h live
    \<and> (\<forall>n. unat n \<le> 65532 \<longrightarrow> (\<exists>r. mem_malloc debug n h = Returns r))
    \<and> (\<forall>p\<in>dom live. \<exists>h'. mem_free debug p h = Returns h')
    \<and> (live = Map.empty \<longrightarrow> mem_inv h [Free 16384])"
proof -
  have s: "mem_state h live" using mem_run_state [OF assms(1) init_state [OF assms(2,3)]] by blast
  then obtain segs where i: "mem_inv h segs" "live_ok (ram h) segs live" by (auto simp: mem_state_def)
  have "blocks_safe h live"
    unfolding blocks_safe_def using live_bounds [OF i] live_disjoint [OF i(2)] by blast
  moreover have "\<forall>n. unat n \<le> 65532 \<longrightarrow> (\<exists>r. mem_malloc debug n h = Returns r)"
    using malloc_state [OF s] by blast
  moreover have "\<forall>p\<in>dom live. \<exists>h'. mem_free debug p h = Returns h'" using free_state [OF s] by blast
  moreover have "live = Map.empty \<longrightarrow> mem_inv h [Free 16384]" using all_given_back [OF i(1)] i by auto
  ultimately show ?thesis by blast
qed

theorem mem_run_safe_witness:
  "\<exists>h. mem_run False (mem_init 4096 lwheap_0) h [4104 \<mapsto> 100] \<and> blocks_safe h [4104 \<mapsto> 100]
     \<and> (\<exists>r. mem_malloc False 16000 h = Returns r) \<and> (\<exists>h'. mem_free False 4104 h = Returns h')"
proof -
  obtain h where h: "mem_malloc False 100 (mem_init 4096 lwheap_0) = Returns (4104, h)"
    using boot_malloc by blast
  have "mem_run False (mem_init 4096 lwheap_0) h (if (4104 :: nat) = 0 then Map.empty else Map.empty(4104 \<mapsto> unat (100 :: u16)))"
    by (rule mem_run.malloc [OF mem_run.boot _ h]) simp
  then have r: "mem_run False (mem_init 4096 lwheap_0) h [4104 \<mapsto> 100]" by simp
  have "unat (16000 :: u16) \<le> 65532" by simp
  then show ?thesis using mem_run_safe [OF r] r by auto
qed

text \<open>
  C31. A request of more than 65532 bytes is rounded up to 0 in \<open>mem_size_t\<close>:
  it is served as a
  request of one byte, so the caller gets a block of 12 bytes.\<close>

theorem mem_malloc_wraps:
  assumes "65532 < unat n"
  shows "mem_malloc debug n h = mem_malloc debug 1 h"
proof -
  have "n = 65533 \<or> n = 65534 \<or> n = 65535"
  proof -
    have "unat n < 65536" using unsigned_less [of n, where 'a = nat] by simp
    then have "unat n = 65533 \<or> unat n = 65534 \<or> unat n = 65535" using assms by auto
    then show ?thesis by (auto simp: word_unat_eq_iff)
  qed
  moreover have "request_size 65533 = request_size 1" "request_size 65534 = request_size 1"
    "request_size 65535 = request_size 1" by code_simp+
  ultimately show ?thesis by (auto simp: mem_malloc_def)
qed

theorem mem_malloc_wraps_witness:
  "\<exists>h'. mem_malloc False 65535 (mem_init 4096 lwheap_0) = Returns (4104, h') \<and> mem_inv h' [Used 20, Free 16364]"
proof -
  have "m_malloc (unat (1 :: u16)) [Free 16384] = Some (0, [Used 20, Free 16364])"
    by (simp add: m_malloc_def m_size_def cut_above_def)
  then obtain h' where "mem_malloc False 1 (mem_init 4096 lwheap_0) = Returns (4104, h')" "mem_inv h' [Used 20, Free 16364]"
    using mem_malloc_succeeds [OF mem_init_inv(1) [of 4096 lwheap_0], of 1 0 "[Used 20, Free 16364]" False]
      mem_init_inv(2) [of 4096 lwheap_0] by auto
  then show ?thesis using mem_malloc_wraps [of 65535 False "mem_init 4096 lwheap_0"] by simp
qed

end
