(* ===== verification/Memp.thy ===== *)
theory Memp
  imports Lwip_Prelude
begin

text \<open>
  The memory pools of LwIP, \<open>lwip/src/core/memp.c\<close>, with \<open>MEMP_OVERFLOW_CHECK\<close> 1 (\<open>lwipopts.h\<close>) and
  \<open>MEMP_MEM_MALLOC\<close>, \<open>MEMP_STATS\<close> and \<open>MEMP_SANITY_CHECK\<close> 0. A pool is an array of elements; every
  element has a \<open>struct memp\<close> and 16 guard bytes before it and 16 guard bytes after it, and the free
  elements are linked from \<open>*desc->tab\<close>. The \<open>file\<close> and \<open>line\<close> of an element are for the debugger and
  are left out. Each call is one step: \<open>SYS_ARCH_PROTECT\<close> is empty here (\<open>SYS_LIGHTWEIGHT_PROT\<close> 0 in
  \<open>lwipopts.h\<close>), so the model is of calls that no other thread interrupts.
\<close>

section \<open>State\<close>

text \<open>
  The pools of \<open>memp_std.h\<close> in this configuration: \<open>LWIP_NETIF_TX_SINGLE_PBUF\<close> and
  \<open>LWIP_TCPIP_CORE_LOCKING_INPUT\<close> are 1, so there is no pool of fragments or of input messages.
\<close>

datatype memp_t = MEMP_RAW_PCB | MEMP_UDP_PCB | MEMP_TCP_PCB | MEMP_TCP_PCB_LISTEN | MEMP_TCP_SEG
  | MEMP_REASSDATA | MEMP_TCPIP_MSG_API | MEMP_ARP_QUEUE | MEMP_IGMP_GROUP
  | MEMP_SYS_TIMEOUT | MEMP_PBUF | MEMP_PBUF_POOL

record memp_desc =
  d_size :: u16
  d_num :: u16
  d_base :: nat

text \<open>The descriptors are constants whose addresses the linker chooses; they are part of the state.\<close>

record memps =
  memp_pools :: "memp_t \<Rightarrow> memp_desc"
  memp_tab :: "memp_t \<Rightarrow> nat"
  memp_next :: "nat \<Rightarrow> nat"

text \<open>\<open>sizeof( struct memp )\<close> is 12: \<open>next\<close>, \<open>file\<close>, \<open>line\<close>.\<close>

definition MEMP_SANITY_REGION_BEFORE_ALIGNED :: nat where
  "MEMP_SANITY_REGION_BEFORE_ALIGNED = unat (LWIP_MEM_ALIGN_SIZE 16)"
definition MEMP_SANITY_REGION_AFTER_ALIGNED :: nat where
  "MEMP_SANITY_REGION_AFTER_ALIGNED = unat (LWIP_MEM_ALIGN_SIZE 16)"
definition MEMP_SIZE :: nat where
  "MEMP_SIZE = unat (LWIP_MEM_ALIGN_SIZE 12) + MEMP_SANITY_REGION_BEFORE_ALIGNED"

lemma memp_constants [simp]:
  "MEMP_SANITY_REGION_BEFORE_ALIGNED = 16" "MEMP_SANITY_REGION_AFTER_ALIGNED = 16" "MEMP_SIZE = 28"
  by code_simp+

section \<open>Guard bytes\<close>

definition memp_overflow_check_element_overflow ::
  "bool \<Rightarrow> nat \<Rightarrow> memp_desc \<Rightarrow> memory \<Rightarrow> 'a outcome \<Rightarrow> 'a outcome" where
  "memp_overflow_check_element_overflow debug p desc m k =
     LWIP_ASSERT debug
       (\<forall>b\<in>set (rd m (p + MEMP_SIZE + unat (d_size desc)) MEMP_SANITY_REGION_AFTER_ALIGNED). b = 0xcd) k"

definition memp_overflow_check_element_underflow ::
  "bool \<Rightarrow> nat \<Rightarrow> memp_desc \<Rightarrow> memory \<Rightarrow> 'a outcome \<Rightarrow> 'a outcome" where
  "memp_overflow_check_element_underflow debug p desc m k =
     LWIP_ASSERT debug
       (\<forall>b\<in>set (rd m (p + MEMP_SIZE - MEMP_SANITY_REGION_BEFORE_ALIGNED) MEMP_SANITY_REGION_BEFORE_ALIGNED). b = 0xcd) k"

definition memp_overflow_init_element :: "nat \<Rightarrow> memp_desc \<Rightarrow> memory \<Rightarrow> memory" where
  "memp_overflow_init_element p desc m =
     (let m = wr m (p + MEMP_SIZE - MEMP_SANITY_REGION_BEFORE_ALIGNED) (replicate MEMP_SANITY_REGION_BEFORE_ALIGNED 0xcd)
      in wr m (p + MEMP_SIZE + unat (d_size desc)) (replicate MEMP_SANITY_REGION_AFTER_ALIGNED 0xcd))"

section \<open>Operations\<close>

definition memp_stride :: "memp_desc \<Rightarrow> nat" where
  "memp_stride desc = MEMP_SIZE + unat (d_size desc) + MEMP_SANITY_REGION_AFTER_ALIGNED"

fun memp_init_elements :: "nat \<Rightarrow> memp_t \<Rightarrow> nat \<Rightarrow> memps \<times> memory \<Rightarrow> memps \<times> memory" where
  "memp_init_elements 0 ty memp s = s"
| "memp_init_elements (Suc n) ty memp (st, m) =
     memp_init_elements n ty (memp + memp_stride (memp_pools st ty))
       (st\<lparr>memp_next := (memp_next st)(memp := memp_tab st ty), memp_tab := (memp_tab st)(ty := memp)\<rparr>,
        memp_overflow_init_element memp (memp_pools st ty) m)"

definition memp_init_pool :: "memp_t \<Rightarrow> memps \<times> memory \<Rightarrow> memps \<times> memory" where
  "memp_init_pool ty = (\<lambda>(st, m).
     memp_init_elements (unat (d_num (memp_pools st ty))) ty (LWIP_MEM_ALIGN (d_base (memp_pools st ty)))
       (st\<lparr>memp_tab := (memp_tab st)(ty := 0)\<rparr>, m))"

definition memp_init :: "memps \<times> memory \<Rightarrow> memps \<times> memory" where
  "memp_init s = fold memp_init_pool
     [MEMP_RAW_PCB, MEMP_UDP_PCB, MEMP_TCP_PCB, MEMP_TCP_PCB_LISTEN, MEMP_TCP_SEG, MEMP_REASSDATA,
      MEMP_TCPIP_MSG_API, MEMP_ARP_QUEUE, MEMP_IGMP_GROUP, MEMP_SYS_TIMEOUT,
      MEMP_PBUF, MEMP_PBUF_POOL] s"

text \<open>\<open>memp_malloc\<close> of a pool that is empty asserts: without \<open>LWIP_DEBUG\<close> it does not return.\<close>

definition memp_malloc :: "bool \<Rightarrow> memp_t \<Rightarrow> memory \<Rightarrow> memps \<Rightarrow> (nat \<times> memps) outcome" where
  "memp_malloc debug ty m st =
     (let memp = memp_tab st ty; desc = memp_pools st ty
      in if memp \<noteq> 0
         then memp_overflow_check_element_overflow debug memp desc m
           (memp_overflow_check_element_underflow debug memp desc m
             (let st = st\<lparr>memp_tab := (memp_tab st)(ty := memp_next st memp)\<rparr>;
                  st = st\<lparr>memp_next := (memp_next st)(memp := 0)\<rparr>
              in LWIP_ASSERT debug (memp mod 4 = 0) (Returns (memp + MEMP_SIZE, st))))
         else LWIP_ASSERT debug False (Returns (0, st)))"

definition do_memp_free_pool :: "bool \<Rightarrow> memp_t \<Rightarrow> nat \<Rightarrow> memory \<Rightarrow> memps \<Rightarrow> memps outcome" where
  "do_memp_free_pool debug ty mem m st =
     LWIP_ASSERT debug (mem mod 4 = 0)
       (let memp = mem - MEMP_SIZE; desc = memp_pools st ty
        in memp_overflow_check_element_overflow debug memp desc m
          (memp_overflow_check_element_underflow debug memp desc m
            (Returns (st\<lparr>memp_next := (memp_next st)(memp := memp_tab st ty),
                         memp_tab := (memp_tab st)(ty := memp)\<rparr>))))"

definition memp_free :: "bool \<Rightarrow> memp_t \<Rightarrow> nat \<Rightarrow> memory \<Rightarrow> memps \<Rightarrow> memps outcome" where
  "memp_free debug ty mem m st =
     (if mem = 0 then Returns st else do_memp_free_pool debug ty mem m st)"

section \<open>The free elements of a pool\<close>

definition guards_ok :: "memp_desc \<Rightarrow> memory \<Rightarrow> nat \<Rightarrow> bool" where
  "guards_ok desc m memp \<longleftrightarrow> memp mod 4 = 0
     \<and> (\<forall>b\<in>set (rd m (memp + 28 + unat (d_size desc)) 16). b = 0xcd) \<and> (\<forall>b\<in>set (rd m (12 + memp) 16). b = 0xcd)"

definition pool_free :: "memps \<Rightarrow> memp_t \<Rightarrow> nat list \<Rightarrow> bool" where
  "pool_free st ty xs \<longleftrightarrow> links (memp_next st) (memp_tab st ty) xs"

lemma memp_malloc_pops:
  assumes "pool_free st ty (x # xs)" and "guards_ok (memp_pools st ty) m x"
  defines "st' \<equiv> st\<lparr>memp_tab := (memp_tab st)(ty := memp_next st x), memp_next := (memp_next st)(x := 0)\<rparr>"
  shows "memp_malloc debug ty m st = Returns (x + 28, st')" and "pool_free st' ty xs"
proof -
  show "memp_malloc debug ty m st = Returns (x + 28, st')"
    using assms(1,2) by (simp add: memp_malloc_def pool_free_def guards_ok_def Let_def st'_def
        memp_overflow_check_element_overflow_def memp_overflow_check_element_underflow_def)
  show "pool_free st' ty xs"
    using assms(1) links_distinct [OF assms(1) [unfolded pool_free_def]] by (simp add: pool_free_def st'_def)
qed

lemma memp_malloc_empty:
  "pool_free st ty [] \<Longrightarrow> memp_malloc debug ty m st = (if debug then Returns (0, st) else Asserts)"
  by (simp add: memp_malloc_def pool_free_def LWIP_ASSERT_def)

lemma memp_free_pushes:
  assumes "pool_free st ty xs" and "guards_ok (memp_pools st ty) m x" and "0 < x" and "x \<notin> set xs"
  defines "st' \<equiv> st\<lparr>memp_next := (memp_next st)(x := memp_tab st ty), memp_tab := (memp_tab st)(ty := x)\<rparr>"
  shows "memp_free debug ty (x + 28) m st = Returns st'" and "pool_free st' ty (x # xs)"
proof -
  have "x mod 4 = 0" using assms(2) by (simp add: guards_ok_def)
  then have "(x + 28) mod 4 = 0" by presburger
  then show "memp_free debug ty (x + 28) m st = Returns st'"
    using assms(1-3) by (simp add: memp_free_def do_memp_free_pool_def pool_free_def guards_ok_def Let_def st'_def
        memp_overflow_check_element_overflow_def memp_overflow_check_element_underflow_def)
  show "pool_free st' ty (x # xs)" using assms(1,3,4) by (simp add: pool_free_def st'_def)
qed

lemma pool_free_other:
  assumes "pool_free st ty xs" and "ty \<noteq> ty'" and "x \<notin> set xs"
  shows "pool_free (st\<lparr>memp_tab := (memp_tab st)(ty' := a), memp_next := (memp_next st)(x := b)\<rparr>) ty xs"
    and "pool_free (st\<lparr>memp_next := (memp_next st)(x := b), memp_tab := (memp_tab st)(ty' := a)\<rparr>) ty xs"
  using assms by (simp_all add: pool_free_def)

end
