(* ===== verification/Pbuf.thy ===== *)
theory Pbuf
  imports Mem Memp Loops
begin

text \<open>
  Packet buffers, \<open>lwip/src/core/pbuf.c\<close> and \<open>lwip/pbuf.h\<close>, with \<open>LWIP_SUPPORT_CUSTOM_PBUF\<close> 0,
  \<open>TCP_QUEUE_OOSEQ\<close> 0 and \<open>LWIP_PTP\<close> 1 (\<open>lwip/opt.h\<close>), so \<open>sizeof( struct pbuf )\<close> is 24. A packet is
  a chain of pbufs; each has a reference count and points to a run of payload bytes.

  The memory of the stack is split by type: the \<open>struct pbuf\<close>s, the pools of \<open>memp.c\<close>, the heap of
  \<open>mem.c\<close>, and the bytes that payload pointers and guard bytes are in. The time stamps of
  \<open>LWIP_PTP\<close> are not written by this file and are left out. Loops that follow \<open>next\<close> may never end
  on a cyclic chain; they are partial functions, and \<open>Diverges\<close> is then their outcome.
\<close>

section \<open>Data\<close>

datatype pbuf_layer = PBUF_TRANSPORT | PBUF_IP | PBUF_LINK | PBUF_RAW_TX | PBUF_RAW

datatype pbuf_type = PBUF_RAM | PBUF_ROM | PBUF_REF | PBUF_POOL

datatype err_t = ERR_OK | ERR_MEM | ERR_BUF | ERR_TIMEOUT | ERR_RTE | ERR_INPROGRESS | ERR_VAL
  | ERR_WOULDBLOCK | ERR_USE | ERR_ALREADY | ERR_ISCONN | ERR_CONN | ERR_IF | ERR_ABRT | ERR_RST
  | ERR_CLSD | ERR_ARG

record pbuf =
  pb_next :: nat
  payload :: nat
  tot_len :: u16
  len :: u16
  pb_type :: pbuf_type
  flags :: u8
  ref :: u16

record lwip =
  pbufs :: "nat \<Rightarrow> pbuf"
  memps_of :: memps
  heap_of :: lwheap
  bytes :: memory

abbreviation set_pbuf :: "nat \<Rightarrow> (pbuf \<Rightarrow> pbuf) \<Rightarrow> lwip \<Rightarrow> lwip" where
  "set_pbuf p f s \<equiv> s\<lparr>pbufs := (pbufs s)(p := f (pbufs s p))\<rparr>"

definition SIZEOF_STRUCT_PBUF :: u32 where "SIZEOF_STRUCT_PBUF = LWIP_MEM_ALIGN_SIZE 24"
definition PBUF_POOL_BUFSIZE_ALIGNED :: u32 where "PBUF_POOL_BUFSIZE_ALIGNED = LWIP_MEM_ALIGN_SIZE 1536"

definition PBUF_TRANSPORT_HLEN :: u16 where "PBUF_TRANSPORT_HLEN = 20"
definition PBUF_IP_HLEN :: u16 where "PBUF_IP_HLEN = 20"
definition PBUF_LINK_HLEN :: u16 where "PBUF_LINK_HLEN = 16"
definition PBUF_LINK_ENCAPSULATION_HLEN :: u16 where "PBUF_LINK_ENCAPSULATION_HLEN = 0"

section \<open>Freeing\<close>

text \<open>Giving the memory of a pbuf back to where its type says it came from.\<close>

definition pbuf_dealloc :: "bool \<Rightarrow> nat \<Rightarrow> lwip \<Rightarrow> lwip outcome" where
  "pbuf_dealloc debug p s =
     (case pb_type (pbufs s p) of
        PBUF_POOL \<Rightarrow> obind (memp_free debug MEMP_PBUF_POOL p (bytes s) (memps_of s)) (\<lambda>m. Returns (s\<lparr>memps_of := m\<rparr>))
      | PBUF_ROM \<Rightarrow> obind (memp_free debug MEMP_PBUF p (bytes s) (memps_of s)) (\<lambda>m. Returns (s\<lparr>memps_of := m\<rparr>))
      | PBUF_REF \<Rightarrow> obind (memp_free debug MEMP_PBUF p (bytes s) (memps_of s)) (\<lambda>m. Returns (s\<lparr>memps_of := m\<rparr>))
      | PBUF_RAM \<Rightarrow> obind (mem_free debug p (heap_of s)) (\<lambda>h. Returns (s\<lparr>heap_of := h\<rparr>)))"

definition pbuf_free_pass :: "bool \<Rightarrow> nat \<times> u8 \<times> lwip \<Rightarrow> (bool \<times> nat \<times> u8 \<times> lwip) outcome" where
  "pbuf_free_pass debug = (\<lambda>(p, count, s).
     if p = 0 then Returns (False, p, count, s)
     else LWIP_ASSERT debug (ref (pbufs s p) > 0)
       (let s = set_pbuf p (\<lambda>b. b\<lparr>ref := ref b - 1\<rparr>) s
        in if ref (pbufs s p) = 0
           then let q = pb_next (pbufs s p)
                in obind (pbuf_dealloc debug p s) (\<lambda>s. Returns (True, q, count + 1, s))
           else Returns (True, 0, count, s)))"

definition pbuf_free :: "bool \<Rightarrow> nat \<Rightarrow> lwip \<Rightarrow> (u8 \<times> lwip) outcome" where
  "pbuf_free debug p s =
     (if p = 0 then LWIP_ASSERT debug False (Returns (0, s))
      else obind (ojoin (orepeat (pbuf_free_pass debug) (p, 0, s))) (\<lambda>(p, count, s). Returns (count, s)))"

section \<open>Allocating\<close>

definition layer_offset :: "pbuf_layer \<Rightarrow> u16" where
  "layer_offset l =
     (case l of
        PBUF_TRANSPORT \<Rightarrow> PBUF_LINK_ENCAPSULATION_HLEN + PBUF_LINK_HLEN + PBUF_IP_HLEN + PBUF_TRANSPORT_HLEN
      | PBUF_IP \<Rightarrow> PBUF_LINK_ENCAPSULATION_HLEN + PBUF_LINK_HLEN + PBUF_IP_HLEN
      | PBUF_LINK \<Rightarrow> PBUF_LINK_ENCAPSULATION_HLEN + PBUF_LINK_HLEN
      | PBUF_RAW_TX \<Rightarrow> PBUF_LINK_ENCAPSULATION_HLEN
      | PBUF_RAW \<Rightarrow> 0)"

definition pool_malloc :: "bool \<Rightarrow> memp_t \<Rightarrow> lwip \<Rightarrow> (nat \<times> lwip) outcome" where
  "pool_malloc debug ty s =
     obind (memp_malloc debug ty (bytes s) (memps_of s)) (\<lambda>(p, m). Returns (p, s\<lparr>memps_of := m\<rparr>))"

text \<open>
  The tail of a pool chain: \<open>r\<close> is the last pbuf so far and \<open>p\<close> the first. The result says whether
  the chain is complete; a chain that could not be completed was freed.
\<close>

function pbuf_alloc_tail :: "bool \<Rightarrow> nat \<Rightarrow> nat \<Rightarrow> nat \<Rightarrow> lwip \<Rightarrow> (bool \<times> lwip) outcome" where
  "pbuf_alloc_tail debug p r rem_len s =
     (if rem_len = 0 then Returns (True, s)
      else obind (pool_malloc debug MEMP_PBUF_POOL s) (\<lambda>(q, s).
        if q = 0 then obind (pbuf_free debug p s) (\<lambda>(c, s). Returns (False, s))
        else let s = set_pbuf q (\<lambda>b. b\<lparr>pb_type := PBUF_POOL, flags := 0, pb_next := 0\<rparr>) s;
                 s = set_pbuf r (\<lambda>b. b\<lparr>pb_next := q\<rparr>) s;
                 qlen = min rem_len (unat PBUF_POOL_BUFSIZE_ALIGNED)
             in LWIP_ASSERT debug (rem_len < 0xffff)
               (let s = set_pbuf q (\<lambda>b. b\<lparr>tot_len := of_nat rem_len, len := of_nat qlen,
                      payload := q + unat SIZEOF_STRUCT_PBUF\<rparr>) s
                in LWIP_ASSERT debug (payload (pbufs s q) mod 4 = 0)
                  (LWIP_ASSERT debug (payload (pbufs s p) + unat (len (pbufs s p))
                       \<le> p + unat SIZEOF_STRUCT_PBUF + unat PBUF_POOL_BUFSIZE_ALIGNED)
                    (let s = set_pbuf q (\<lambda>b. b\<lparr>ref := 1\<rparr>) s
                     in pbuf_alloc_tail debug p q (rem_len - qlen) s)))))"
  by pat_completeness auto
termination
  by (relation "measure (\<lambda>(_, _, _, rem_len, _). rem_len)")
    (auto simp: PBUF_POOL_BUFSIZE_ALIGNED_def LWIP_MEM_ALIGN_SIZE_def MEM_ALIGNMENT_def)

definition pbuf_alloc :: "bool \<Rightarrow> pbuf_layer \<Rightarrow> u16 \<Rightarrow> pbuf_type \<Rightarrow> lwip \<Rightarrow> (nat \<times> lwip) outcome" where
  "pbuf_alloc debug layer n ty s =
     (let offset = layer_offset layer;
          finish = (\<lambda>p s. Returns (p, set_pbuf p (\<lambda>b. b\<lparr>ref := 1, flags := 0\<rparr>) s))
      in case ty of
        PBUF_POOL \<Rightarrow>
          obind (pool_malloc debug MEMP_PBUF_POOL s) (\<lambda>(p, s).
            if p = 0 then Returns (0, s)
            else let s = set_pbuf p (\<lambda>b. b\<lparr>pb_type := ty, pb_next := 0,
                       payload := LWIP_MEM_ALIGN (p + (unat SIZEOF_STRUCT_PBUF + unat offset))\<rparr>) s;
                     room = PBUF_POOL_BUFSIZE_ALIGNED - LWIP_MEM_ALIGN_SIZE (ucast offset)
                 in LWIP_ASSERT debug (payload (pbufs s p) mod 4 = 0)
                   (let s = set_pbuf p (\<lambda>b. b\<lparr>tot_len := n, len := ucast (min (ucast n) room)\<rparr>) s
                    in LWIP_ASSERT debug (payload (pbufs s p) + unat (len (pbufs s p))
                         \<le> p + unat SIZEOF_STRUCT_PBUF + unat PBUF_POOL_BUFSIZE_ALIGNED)
                      (LWIP_ASSERT debug (room > 0)
                        (let s = set_pbuf p (\<lambda>b. b\<lparr>ref := 1\<rparr>) s
                         in obind (pbuf_alloc_tail debug p p (unat n - unat (len (pbufs s p))) s) (\<lambda>(ok, s).
                              if ok then finish p s else Returns (0, s))))))
      | PBUF_RAM \<Rightarrow>
          let alloc_len = ucast (LWIP_MEM_ALIGN_SIZE (SIZEOF_STRUCT_PBUF + ucast offset)
                                 + LWIP_MEM_ALIGN_SIZE (ucast n)) :: u16
          in if ucast alloc_len < LWIP_MEM_ALIGN_SIZE (ucast n) then Returns (0, s)
             else obind (mem_malloc debug alloc_len (heap_of s)) (\<lambda>(p, h).
               let s = s\<lparr>heap_of := h\<rparr>
               in if p = 0 then Returns (0, s)
                  else let s = set_pbuf p (\<lambda>b. b\<lparr>payload := LWIP_MEM_ALIGN (p + unat SIZEOF_STRUCT_PBUF + unat offset),
                             len := n, tot_len := n, pb_next := 0, pb_type := ty\<rparr>) s
                       in LWIP_ASSERT debug (payload (pbufs s p) mod 4 = 0) (finish p s))
      | _ \<Rightarrow>
          obind (pool_malloc debug MEMP_PBUF s) (\<lambda>(p, s).
            if p = 0 then Returns (0, s)
            else finish p (set_pbuf p (\<lambda>b. b\<lparr>payload := 0, len := n, tot_len := n, pb_next := 0, pb_type := ty\<rparr>) s)))"

section \<open>Resizing\<close>

definition realloc_pass :: "bool \<Rightarrow> u16 \<Rightarrow> nat \<times> u16 \<times> lwip \<Rightarrow> (bool \<times> nat \<times> u16 \<times> lwip) outcome" where
  "realloc_pass debug grow = (\<lambda>(q, rem_len, s).
     if rem_len > len (pbufs s q)
     then let rem_len = rem_len - len (pbufs s q);
              s = set_pbuf q (\<lambda>b. b\<lparr>tot_len := tot_len b + grow\<rparr>) s;
              q = pb_next (pbufs s q)
          in LWIP_ASSERT debug (q \<noteq> 0) (Returns (True, q, rem_len, s))
     else Returns (False, q, rem_len, s))"

definition pbuf_realloc :: "bool \<Rightarrow> nat \<Rightarrow> u16 \<Rightarrow> lwip \<Rightarrow> lwip outcome" where
  "pbuf_realloc debug p new_len s =
     LWIP_ASSERT debug (p \<noteq> 0)
       (if new_len \<ge> tot_len (pbufs s p) then Returns s
        else let grow = new_len - tot_len (pbufs s p)
             in obind (ojoin (orepeat (realloc_pass debug grow) (p, new_len, s))) (\<lambda>(q, rem_len, s).
               obind (if pb_type (pbufs s q) = PBUF_RAM \<and> rem_len \<noteq> len (pbufs s q)
                      then obind (mem_trim debug q (of_int (int (payload (pbufs s q)) - int q) + rem_len) (heap_of s))
                             (\<lambda>(q, h). LWIP_ASSERT debug (q \<noteq> 0) (Returns (q, s\<lparr>heap_of := h\<rparr>)))
                      else Returns (q, s)) (\<lambda>(q, s).
                 let s = set_pbuf q (\<lambda>b. b\<lparr>len := rem_len, tot_len := rem_len\<rparr>) s
                 in obind (if pb_next (pbufs s q) \<noteq> 0
                           then obind (pbuf_free debug (pb_next (pbufs s q)) s) (\<lambda>(c, s). Returns s)
                           else Returns s) (\<lambda>s.
                      Returns (set_pbuf q (\<lambda>b. b\<lparr>pb_next := 0\<rparr>) s)))))"

text \<open>Moving the payload pointer over a header; the result is 0 when it worked.\<close>

definition pbuf_header_impl :: "bool \<Rightarrow> nat \<Rightarrow> s16 \<Rightarrow> bool \<Rightarrow> lwip \<Rightarrow> (u8 \<times> lwip) outcome" where
  "pbuf_header_impl debug p inc force s =
     LWIP_ASSERT debug (p \<noteq> 0)
       (if inc = 0 \<or> p = 0 then Returns (0, s)
        else let magnitude = (if sint inc < 0 then - inc else inc);
                 move = (let moved = set_pbuf p (\<lambda>b. b\<lparr>payload := nat (int (payload b) - sint inc),
                           len := len b + inc, tot_len := tot_len b + inc\<rparr>) s
                         in case pb_type (pbufs s p) of
                              PBUF_RAM \<Rightarrow> if int (payload (pbufs s p)) - sint inc < int p + uint SIZEOF_STRUCT_PBUF
                                then Returns (1, s) else Returns (0, moved)
                            | PBUF_POOL \<Rightarrow> if int (payload (pbufs s p)) - sint inc < int p + uint SIZEOF_STRUCT_PBUF
                                then Returns (1, s) else Returns (0, moved)
                            | _ \<Rightarrow> if sint inc < 0 \<and> magnitude \<le> len (pbufs s p) then Returns (0, moved)
                                else if sint inc > 0 \<and> force then Returns (0, moved)
                                else Returns (1, s))
             in if sint inc < 0 then LWIP_ERROR debug (magnitude \<le> len (pbufs s p)) (Returns (1, s)) move
                else move)"

definition pbuf_header :: "bool \<Rightarrow> nat \<Rightarrow> s16 \<Rightarrow> lwip \<Rightarrow> (u8 \<times> lwip) outcome" where
  "pbuf_header debug p inc s = pbuf_header_impl debug p inc False s"

definition pbuf_header_force :: "bool \<Rightarrow> nat \<Rightarrow> s16 \<Rightarrow> lwip \<Rightarrow> (u8 \<times> lwip) outcome" where
  "pbuf_header_force debug p inc s = pbuf_header_impl debug p inc True s"

section \<open>Chains\<close>

partial_function (option) clen_loop :: "lwip \<Rightarrow> nat \<Rightarrow> u16 \<Rightarrow> u16 option" where
  "clen_loop s p n = (if p = 0 then Some n else clen_loop s (pb_next (pbufs s p)) (n + 1))"

definition pbuf_clen :: "nat \<Rightarrow> lwip \<Rightarrow> u16 outcome" where
  "pbuf_clen p s = oreturns (clen_loop s p 0)"

definition pbuf_ref :: "bool \<Rightarrow> nat \<Rightarrow> lwip \<Rightarrow> lwip outcome" where
  "pbuf_ref debug p s =
     (if p \<noteq> 0
      then let s = set_pbuf p (\<lambda>b. b\<lparr>ref := ref b + 1\<rparr>) s
           in LWIP_ASSERT debug (ref (pbufs s p) > 0) (Returns s)
      else Returns s)"

definition cat_pass :: "nat \<Rightarrow> nat \<times> lwip \<Rightarrow> (bool \<times> nat \<times> lwip) outcome" where
  "cat_pass t = (\<lambda>(p, s).
     if pb_next (pbufs s p) \<noteq> 0
     then Returns (True, pb_next (pbufs s p), set_pbuf p (\<lambda>b. b\<lparr>tot_len := tot_len b + tot_len (pbufs s t)\<rparr>) s)
     else Returns (False, p, s))"

definition pbuf_cat :: "bool \<Rightarrow> nat \<Rightarrow> nat \<Rightarrow> lwip \<Rightarrow> lwip outcome" where
  "pbuf_cat debug h t s =
     LWIP_ERROR debug (h \<noteq> 0 \<and> t \<noteq> 0) (Returns s)
       (obind (ojoin (orepeat (cat_pass t) (h, s))) (\<lambda>(p, s).
         LWIP_ASSERT debug (tot_len (pbufs s p) = len (pbufs s p))
           (LWIP_ASSERT debug (pb_next (pbufs s p) = 0)
             (let s = set_pbuf p (\<lambda>b. b\<lparr>tot_len := tot_len b + tot_len (pbufs s t)\<rparr>) s
              in Returns (set_pbuf p (\<lambda>b. b\<lparr>pb_next := t\<rparr>) s)))))"

definition pbuf_chain :: "bool \<Rightarrow> nat \<Rightarrow> nat \<Rightarrow> lwip \<Rightarrow> lwip outcome" where
  "pbuf_chain debug h t s = obind (pbuf_cat debug h t s) (\<lambda>s. pbuf_ref debug t s)"

definition pbuf_dechain :: "bool \<Rightarrow> nat \<Rightarrow> lwip \<Rightarrow> (nat \<times> lwip) outcome" where
  "pbuf_dechain debug p s =
     (let q = pb_next (pbufs s p)
      in obind (if q \<noteq> 0
                then LWIP_ASSERT debug (tot_len (pbufs s q) = tot_len (pbufs s p) - len (pbufs s p))
                  (let s = set_pbuf q (\<lambda>b. b\<lparr>tot_len := tot_len (pbufs s p) - len (pbufs s p)\<rparr>) s;
                       s = set_pbuf p (\<lambda>b. b\<lparr>pb_next := 0\<rparr>) s;
                       s = set_pbuf p (\<lambda>b. b\<lparr>tot_len := len b\<rparr>) s
                   in pbuf_free debug q s)
                else Returns (1, s)) (\<lambda>(tail_gone, s).
           LWIP_ASSERT debug (tot_len (pbufs s p) = len (pbufs s p))
             (Returns (if tail_gone > 0 then 0 else q, s))))"

end
