(* ===== verification/Pbuf_Data.thy ===== *)
theory Pbuf_Data
  imports Pbuf
begin

text \<open>
  The functions of \<open>pbuf.c\<close> that move and inspect the data of a chain: copying between chains and
  to and from flat memory, single bytes, comparison and search. They only read the \<open>struct pbuf\<close>s.
\<close>

section \<open>Copying a chain\<close>

text \<open>One round of \<open>pbuf_copy\<close>: offsets, the two positions and the bytes; \<open>Inl\<close> is an early return.\<close>

definition copy_pass ::
  "bool \<Rightarrow> lwip \<Rightarrow> err_t option \<times> nat \<times> nat \<times> nat \<times> nat \<times> memory
     \<Rightarrow> (bool \<times> err_t option \<times> nat \<times> nat \<times> nat \<times> nat \<times> memory) outcome" where
  "copy_pass debug s = (\<lambda>(_, offset_to, offset_from, p_to, p_from, m).
     let to_len = unat (len (pbufs s p_to)); from_len = unat (len (pbufs s p_from));
         n = (if int to_len - int offset_to \<ge> int from_len - int offset_from
              then from_len - offset_from else to_len - offset_to);
         m = wr m (payload (pbufs s p_to) + offset_to) (rd m (payload (pbufs s p_from) + offset_from) n);
         offset_to = offset_to + n; offset_from = offset_from + n
     in LWIP_ASSERT debug (offset_to \<le> to_len)
       (LWIP_ASSERT debug (offset_from \<le> from_len)
         (let (offset_from, p_from) = (if offset_from \<ge> from_len then (0, pb_next (pbufs s p_from)) else (offset_from, p_from));
              full = (offset_to = to_len);
              (offset_to, p_to) = (if full then (0, pb_next (pbufs s p_to)) else (offset_to, p_to));
              stop = (\<lambda>e. Returns (False, Some e, offset_to, offset_from, p_to, p_from, m));
              queue = (\<lambda>p k. if p \<noteq> 0 \<and> len (pbufs s p) = tot_len (pbufs s p)
                         then LWIP_ERROR debug (pb_next (pbufs s p) = 0) (stop ERR_VAL) k else k);
              rest = queue p_from (queue p_to (Returns (p_from \<noteq> 0, None, offset_to, offset_from, p_to, p_from, m)))
          in if full then LWIP_ERROR debug (p_to \<noteq> 0 \<or> p_from = 0) (stop ERR_ARG) rest else rest)))"

definition pbuf_copy :: "bool \<Rightarrow> nat \<Rightarrow> nat \<Rightarrow> lwip \<Rightarrow> (err_t \<times> lwip) outcome" where
  "pbuf_copy debug p_to p_from s =
     LWIP_ERROR debug (p_to \<noteq> 0 \<and> p_from \<noteq> 0 \<and> tot_len (pbufs s p_to) \<ge> tot_len (pbufs s p_from))
       (Returns (ERR_ARG, s))
       (obind (ojoin (orepeat (copy_pass debug s) (None, 0, 0, p_to, p_from, bytes s))) (\<lambda>(e, _, _, _, _, m).
          Returns (case e of Some err \<Rightarrow> err | None \<Rightarrow> ERR_OK, s\<lparr>bytes := m\<rparr>)))"

section \<open>Copying out and in\<close>

text \<open>\<open>pbuf_copy_partial\<close>: \<open>n\<close> bytes from \<open>offset\<close> on go to \<open>dataptr\<close>; \<open>left\<close> counts the copied ones.\<close>

partial_function (option) copy_partial_loop ::
  "lwip \<Rightarrow> nat \<Rightarrow> nat \<Rightarrow> u16 \<Rightarrow> u16 \<Rightarrow> u16 \<Rightarrow> memory \<Rightarrow> (u16 \<times> memory) option" where
  "copy_partial_loop s dataptr p n offset left m =
     (if n = 0 \<or> p = 0 then Some (left, m)
      else let b = pbufs s p
           in if offset \<noteq> 0 \<and> offset \<ge> len b
              then copy_partial_loop s dataptr (pb_next b) n (offset - len b) left m
              else let k = (if len b - offset > n then n else len b - offset)
                   in copy_partial_loop s dataptr (pb_next b) (n - k) 0 (left + k)
                        (wr m (dataptr + unat left) (rd m (payload b + unat offset) (unat k))))"

definition pbuf_copy_partial :: "bool \<Rightarrow> nat \<Rightarrow> nat \<Rightarrow> u16 \<Rightarrow> u16 \<Rightarrow> lwip \<Rightarrow> (u16 \<times> lwip) outcome" where
  "pbuf_copy_partial debug buf dataptr n offset s =
     LWIP_ERROR debug (buf \<noteq> 0) (Returns (0, s))
       (LWIP_ERROR debug (dataptr \<noteq> 0) (Returns (0, s))
         (obind (oreturns (copy_partial_loop s dataptr buf n offset 0 (bytes s))) (\<lambda>(k, m).
            Returns (k, s\<lparr>bytes := m\<rparr>))))"

partial_function (option) skip_loop :: "lwip \<Rightarrow> nat \<Rightarrow> u16 \<Rightarrow> (nat \<times> u16) option" where
  "skip_loop s q offset_left =
     (if q \<noteq> 0 \<and> len (pbufs s q) \<le> offset_left
      then skip_loop s (pb_next (pbufs s q)) (offset_left - len (pbufs s q))
      else Some (q, offset_left))"

text \<open>\<open>pbuf_skip_const\<close> and \<open>pbuf_skip\<close> give the pbuf and the offset in it.\<close>

definition pbuf_skip :: "nat \<Rightarrow> u16 \<Rightarrow> lwip \<Rightarrow> (nat \<times> u16) outcome" where
  "pbuf_skip p in_offset s = oreturns (skip_loop s p in_offset)"

definition take_pass :: "bool \<Rightarrow> lwip \<Rightarrow> nat \<Rightarrow> nat \<times> u16 \<times> u16 \<times> memory \<Rightarrow> (bool \<times> nat \<times> u16 \<times> u16 \<times> memory) outcome" where
  "take_pass debug s dataptr = (\<lambda>(p, total_copy_len, copied_total, m).
     if total_copy_len = 0 then Returns (False, p, total_copy_len, copied_total, m)
     else LWIP_ASSERT debug (p \<noteq> 0)
       (let k = (if total_copy_len > len (pbufs s p) then len (pbufs s p) else total_copy_len)
        in Returns (True, pb_next (pbufs s p), total_copy_len - k, copied_total + k,
             wr m (payload (pbufs s p)) (rd m (dataptr + unat copied_total) (unat k)))))"

definition pbuf_take :: "bool \<Rightarrow> nat \<Rightarrow> nat \<Rightarrow> u16 \<Rightarrow> lwip \<Rightarrow> (err_t \<times> lwip) outcome" where
  "pbuf_take debug buf dataptr n s =
     LWIP_ERROR debug (buf \<noteq> 0) (Returns (ERR_ARG, s))
       (LWIP_ERROR debug (dataptr \<noteq> 0) (Returns (ERR_ARG, s))
         (LWIP_ERROR debug (tot_len (pbufs s buf) \<ge> n) (Returns (ERR_MEM, s))
           (obind (ojoin (orepeat (take_pass debug s dataptr) (buf, n, 0, bytes s))) (\<lambda>(_, total_copy_len, copied_total, m).
             LWIP_ASSERT debug (total_copy_len = 0 \<and> copied_total = n) (Returns (ERR_OK, s\<lparr>bytes := m\<rparr>))))))"

definition pbuf_take_at :: "bool \<Rightarrow> nat \<Rightarrow> nat \<Rightarrow> u16 \<Rightarrow> u16 \<Rightarrow> lwip \<Rightarrow> (err_t \<times> lwip) outcome" where
  "pbuf_take_at debug buf dataptr n offset s =
     obind (pbuf_skip buf offset s) (\<lambda>(q, target_offset).
       if q \<noteq> 0 \<and> unat (tot_len (pbufs s q)) \<ge> unat target_offset + unat n
       then let first_copy_len = (if int (unat (len (pbufs s q))) - int (unat target_offset) < int (unat n)
                  then len (pbufs s q) - target_offset else n);
                s = s\<lparr>bytes := wr (bytes s) (payload (pbufs s q) + unat target_offset)
                       (rd (bytes s) dataptr (unat first_copy_len))\<rparr>;
                remaining_len = n - first_copy_len
            in if remaining_len > 0
               then pbuf_take debug (pb_next (pbufs s q)) (dataptr + unat first_copy_len) remaining_len s
               else Returns (ERR_OK, s)
       else Returns (ERR_MEM, s))"

definition pbuf_coalesce :: "bool \<Rightarrow> nat \<Rightarrow> pbuf_layer \<Rightarrow> lwip \<Rightarrow> (nat \<times> lwip) outcome" where
  "pbuf_coalesce debug p layer s =
     (if pb_next (pbufs s p) = 0 then Returns (p, s)
      else obind (pbuf_alloc debug layer (tot_len (pbufs s p)) PBUF_RAM s) (\<lambda>(q, s).
        if q = 0 then Returns (p, s)
        else obind (pbuf_copy debug q p s) (\<lambda>(err, s).
          LWIP_ASSERT debug (err = ERR_OK)
            (obind (pbuf_free debug p s) (\<lambda>(c, s). Returns (q, s))))))"

section \<open>Single bytes, comparison and search\<close>

text \<open>\<open>pbuf_try_get_at\<close> gives the byte or -1.\<close>

definition pbuf_try_get_at :: "nat \<Rightarrow> u16 \<Rightarrow> lwip \<Rightarrow> int outcome" where
  "pbuf_try_get_at p offset s =
     obind (pbuf_skip p offset s) (\<lambda>(q, q_idx).
       Returns (if q \<noteq> 0 \<and> len (pbufs s q) > q_idx then uint (bytes s (payload (pbufs s q) + unat q_idx)) else -1))"

definition pbuf_get_at :: "nat \<Rightarrow> u16 \<Rightarrow> lwip \<Rightarrow> u8 outcome" where
  "pbuf_get_at p offset s =
     obind (pbuf_try_get_at p offset s) (\<lambda>r. Returns (if r \<ge> 0 then of_int r else 0))"

definition pbuf_put_at :: "nat \<Rightarrow> u16 \<Rightarrow> u8 \<Rightarrow> lwip \<Rightarrow> lwip outcome" where
  "pbuf_put_at p offset data s =
     obind (pbuf_skip p offset s) (\<lambda>(q, q_idx).
       Returns (if q \<noteq> 0 \<and> len (pbufs s q) > q_idx
         then s\<lparr>bytes := (bytes s)(payload (pbufs s q) + unat q_idx := data)\<rparr> else s))"

fun memcmp_loop :: "lwip \<Rightarrow> nat \<Rightarrow> u16 \<Rightarrow> nat \<Rightarrow> nat \<Rightarrow> nat \<Rightarrow> u16 outcome" where
  "memcmp_loop s q start s2 i 0 = Returns 0"
| "memcmp_loop s q start s2 i (Suc k) =
     obind (pbuf_get_at q (start + of_nat i) s) (\<lambda>a.
       if a \<noteq> bytes s (s2 + i) then Returns (of_nat i + 1) else memcmp_loop s q start s2 (Suc i) k)"

definition pbuf_memcmp :: "nat \<Rightarrow> u16 \<Rightarrow> nat \<Rightarrow> u16 \<Rightarrow> lwip \<Rightarrow> u16 outcome" where
  "pbuf_memcmp p offset s2 n s =
     (if unat (tot_len (pbufs s p)) < unat offset + unat n then Returns 0xffff
      else obind (oreturns (skip_loop s p offset)) (\<lambda>(q, start). memcmp_loop s q start s2 0 (unat n)))"

text \<open>The search of \<open>pbuf_memfind\<close>; a counter that wraps around would never pass \<open>max\<close>.\<close>

definition memfind_pass :: "lwip \<Rightarrow> nat \<Rightarrow> nat \<Rightarrow> u16 \<Rightarrow> u16 \<Rightarrow> u16 \<times> u16 option \<Rightarrow> (bool \<times> u16 \<times> u16 option) outcome" where
  "memfind_pass s p mem mem_len maxi = (\<lambda>(i, r).
     if i \<le> maxi
     then obind (pbuf_memcmp p i mem mem_len s) (\<lambda>plus.
       if plus = 0 then Returns (False, i, Some i) else Returns (True, i + 1, None))
     else Returns (False, i, None))"

definition pbuf_memfind :: "nat \<Rightarrow> nat \<Rightarrow> u16 \<Rightarrow> u16 \<Rightarrow> lwip \<Rightarrow> u16 outcome" where
  "pbuf_memfind p mem mem_len start_offset s =
     (let maxi = tot_len (pbufs s p) - mem_len
      in if unat (tot_len (pbufs s p)) \<ge> unat mem_len + unat start_offset
         then obind (ojoin (orepeat (memfind_pass s p mem mem_len maxi) (start_offset, None))) (\<lambda>(_, r).
                Returns (case r of Some i \<Rightarrow> i | None \<Rightarrow> 0xFFFF))
         else Returns 0xFFFF)"

partial_function (option) strlen_loop :: "memory \<Rightarrow> nat \<Rightarrow> nat \<Rightarrow> nat option" where
  "strlen_loop m a n = (if m (a + n) = 0 then Some n else strlen_loop m a (Suc n))"

definition pbuf_strstr :: "nat \<Rightarrow> nat \<Rightarrow> lwip \<Rightarrow> u16 outcome" where
  "pbuf_strstr p substr s =
     (if substr = 0 \<or> bytes s substr = 0 \<or> tot_len (pbufs s p) = 0xFFFF then Returns 0xFFFF
      else obind (oreturns (strlen_loop (bytes s) substr 0)) (\<lambda>substr_len.
        if substr_len \<ge> 0xFFFF then Returns 0xFFFF
        else pbuf_memfind p substr (of_nat substr_len) 0 s))"

end
