(* ===== verification/Pbuf_Spec.thy ===== *)
theory Pbuf_Spec
  imports Pbuf_Data
begin

text \<open>
  What the data functions of \<open>pbuf.c\<close> do to the data of a packet: \<open>chain s p qs\<close> says that the
  chain from \<open>p\<close> consists of the pbufs \<open>qs\<close>, \<open>pdata\<close> is the concatenation of their payloads, and
  \<open>lens_ok\<close> is the invariant of \<open>lwip/pbuf.h\<close>, that \<open>tot_len\<close> is the length of the rest of the chain.
\<close>

section \<open>Chains and their data\<close>

definition chain :: "lwip \<Rightarrow> nat \<Rightarrow> nat list \<Rightarrow> bool" where
  "chain s p qs \<longleftrightarrow> links (\<lambda>q. pb_next (pbufs s q)) p qs"

definition region :: "lwip \<Rightarrow> nat \<Rightarrow> nat set" where
  "region s q = {payload (pbufs s q)..<payload (pbufs s q) + unat (len (pbufs s q))}"

definition data_in :: "lwip \<Rightarrow> memory \<Rightarrow> nat list \<Rightarrow> u8 list" where
  "data_in s m qs = concat (map (\<lambda>q. rd m (payload (pbufs s q)) (unat (len (pbufs s q)))) qs)"

abbreviation pdata :: "lwip \<Rightarrow> nat list \<Rightarrow> u8 list" where
  "pdata s qs \<equiv> data_in s (bytes s) qs"

definition plen :: "lwip \<Rightarrow> nat list \<Rightarrow> nat" where
  "plen s qs = sum_list (map (\<lambda>q. unat (len (pbufs s q))) qs)"

fun lens_ok :: "lwip \<Rightarrow> nat list \<Rightarrow> bool" where
  "lens_ok s [] \<longleftrightarrow> True"
| "lens_ok s (q # qs) \<longleftrightarrow> unat (tot_len (pbufs s q)) = plen s (q # qs) \<and> lens_ok s qs"

definition packet :: "lwip \<Rightarrow> nat \<Rightarrow> nat list \<Rightarrow> bool" where
  "packet s p qs \<longleftrightarrow> p \<noteq> 0 \<and> chain s p qs \<and> lens_ok s qs"

lemma chain_simps [simp]:
  "chain s p [] \<longleftrightarrow> p = 0"
  "chain s p (q # qs) \<longleftrightarrow> p = q \<and> q \<noteq> 0 \<and> chain s (pb_next (pbufs s q)) qs"
  by (simp_all add: chain_def)

lemma data_in_simps [simp]:
  "data_in s m [] = []"
  "data_in s m (q # qs) = rd m (payload (pbufs s q)) (unat (len (pbufs s q))) @ data_in s m qs"
  "data_in s m (xs @ ys) = data_in s m xs @ data_in s m ys"
  by (simp_all add: data_in_def)

lemma plen_simps [simp]:
  "plen s [] = 0" "plen s (q # qs) = unat (len (pbufs s q)) + plen s qs"
  "plen s (xs @ ys) = plen s xs + plen s ys"
  by (simp_all add: plen_def)

lemma length_data_in [simp]: "length (data_in s m qs) = plen s qs"
  by (induction qs) simp_all

lemma rd_wr_disj: "{a..<a + length xs} \<inter> {b..<b + n} = {} \<Longrightarrow> rd (wr m a xs) b n = rd m b n"
  by (rule rd_cong) (auto simp: wr_def disjoint_iff)

lemma data_in_wr:
  "(\<And>q. q \<in> set qs \<Longrightarrow> {a..<a + length xs} \<inter> region s q = {}) \<Longrightarrow> data_in s (wr m a xs) qs = data_in s m qs"
  by (induction qs) (simp_all add: region_def rd_wr_disj)

lemma region_mono: "{a..<b} \<inter> X = {} \<Longrightarrow> a \<le> c \<Longrightarrow> d \<le> b \<Longrightarrow> {c..<d} \<inter> X = ({} :: nat set)"
proof -
  assume "{a..<b} \<inter> X = {}" "a \<le> c" "d \<le> b"
  moreover from this have "{c..<d} \<subseteq> {a..<b}" by auto
  ultimately show ?thesis by blast
qed

lemma packet_neq: "packet s p qs \<Longrightarrow> qs \<noteq> [] \<and> p \<noteq> 0 \<and> unat (tot_len (pbufs s p)) = plen s qs"
  by (cases qs) (auto simp: packet_def)

section \<open>Copying out\<close>

lemma copy_partial_loop_copies:
  assumes "chain s p qs" and "unat left + unat n < 65536"
    and "\<And>q. q \<in> set qs \<Longrightarrow> {dst + unat left..<dst + unat left + unat n} \<inter> region s q = {}"
  shows "copy_partial_loop s dst p n offset left m =
    (let d = take (unat n) (drop (unat offset) (data_in s m qs))
     in Some (left + of_nat (length d), wr m (dst + unat left) d))"
  using assms
proof (induction qs arbitrary: p n offset left m)
  case Nil
  then show ?case by (subst copy_partial_loop.simps) simp
next
  case (Cons q qs)
  let ?b = "pbufs s q" let ?l = "unat (len (pbufs s q))"
  have p: "p = q" "q \<noteq> 0" "chain s (pb_next ?b) qs" using Cons.prems(1) by simp_all
  show ?case
  proof (cases "n = 0")
    case True
    then show ?thesis by (subst copy_partial_loop.simps) simp
  next
    case n: False
    show ?thesis
    proof (cases "offset \<noteq> 0 \<and> offset \<ge> len ?b")
      case True
      have u: "unat (offset - len ?b) = unat offset - ?l" using True by (simp add: unat_sub)
      have "?l \<le> unat offset" using True by (simp add: word_le_nat_alt)
      moreover have "copy_partial_loop s dst p n offset left m =
          copy_partial_loop s dst (pb_next ?b) n (offset - len ?b) left m"
        using p n True by (subst copy_partial_loop.simps) (simp add: Let_def)
      ultimately show ?thesis using Cons.IH [OF p(3), of left n "offset - len ?b" m] Cons.prems(2,3) by (simp add: u)
    next
      case False
      define k where "k = (if len ?b - offset > n then n else len ?b - offset)"
      have off: "unat offset \<le> ?l" using False by (auto simp: word_le_nat_alt)
      have ud: "unat (len ?b - offset) = ?l - unat offset" using off by (simp add: unat_sub word_le_nat_alt)
      have k: "unat k = min (unat n) (?l - unat offset)"
        unfolding k_def using ud by (auto simp: word_less_nat_alt)
      have un: "unat (n - k) = unat n - unat k" using k by (simp add: unat_sub word_le_nat_alt)
      have ul: "unat (left + k) = unat left + unat k" using k Cons.prems(2) by (simp add: unat_word_ariths)
      define c where "c = rd m (payload ?b + unat offset) (unat k)"
      have c: "length c = unat k" "c = take (unat n) (drop (unat offset) (rd m (payload ?b) ?l))"
        using k by (simp_all add: c_def min.commute)
      have step: "copy_partial_loop s dst p n offset left m =
          copy_partial_loop s dst (pb_next ?b) (n - k) 0 (left + k) (wr m (dst + unat left) c)"
        using p n False by (subst copy_partial_loop.simps) (auto simp: Let_def k_def c_def)
      have fr: "data_in s (wr m (dst + unat left) c) qs = data_in s m qs"
      proof (rule data_in_wr)
        fix q' assume "q' \<in> set qs"
        then show "{dst + unat left..<dst + unat left + length c} \<inter> region s q' = {}"
          by (intro region_mono [OF Cons.prems(3) [of q']]) (use k c(1) in auto)
      qed
      have "{dst + unat (left + k)..<dst + unat (left + k) + unat (n - k)} \<inter> region s q' = {}" if "q' \<in> set qs" for q'
        by (rule region_mono [OF Cons.prems(3) [of q']]) (use that k ul un in auto)
      then have IH: "copy_partial_loop s dst (pb_next ?b) (n - k) 0 (left + k) (wr m (dst + unat left) c) =
          (let d = take (unat (n - k)) (data_in s m qs)
           in Some (left + k + of_nat (length d), wr (wr m (dst + unat left) c) (dst + unat (left + k)) d))"
        using Cons.IH [OF p(3), of "left + k" "n - k" 0 "wr m (dst + unat left) c"] Cons.prems(2) ul un k fr by simp
      have all: "take (unat n) (drop (unat offset) (data_in s m (q # qs))) = c @ take (unat (n - k)) (data_in s m qs)"
        using off k un c by (cases "unat n \<le> ?l - unat offset") auto
      show ?thesis
        unfolding step IH Let_def all using c(1) ul by (simp add: wr_append add.assoc)
    qed
  qed
qed

section \<open>Bytes, comparison and search\<close>

lemma skip_loop_inside:
  assumes "chain s p qs" and "unat k < plen s qs"
  shows "\<exists>as q bs j. qs = as @ q # bs \<and> chain s q (q # bs) \<and> plen s as \<le> unat k
    \<and> skip_loop s p k = Some (q, j) \<and> unat j = unat k - plen s as \<and> unat j < unat (len (pbufs s q))"
  using assms
proof (induction qs arbitrary: p k)
  case (Cons q qs)
  let ?l = "len (pbufs s q)"
  show ?case
  proof (cases "?l \<le> k")
    case True
    have u: "unat (k - ?l) = unat k - unat ?l" "unat ?l \<le> unat k" using True by (simp_all add: unat_sub word_le_nat_alt)
    have c: "chain s (pb_next (pbufs s q)) qs" and lt: "unat (k - ?l) < plen s qs" using Cons.prems u by auto
    obtain as q' bs j where r: "qs = as @ q' # bs" "chain s q' (q' # bs)" "plen s as \<le> unat (k - ?l)"
      "skip_loop s (pb_next (pbufs s q)) (k - ?l) = Some (q', j)" "unat j = unat (k - ?l) - plen s as"
      "unat j < unat (len (pbufs s q'))"
      using Cons.IH [OF c lt] by blast
    have "skip_loop s p k = skip_loop s (pb_next (pbufs s q)) (k - ?l)"
      using Cons.prems True by (subst skip_loop.simps) simp
    then show ?thesis using r u by (intro exI [of _ "q # as"] exI [of _ q'] exI [of _ bs] exI [of _ j]) auto
  next
    case False
    then have "skip_loop s p k = Some (q, k)" using Cons.prems by (subst skip_loop.simps) simp
    then show ?thesis using Cons.prems False
      by (intro exI [of _ "[]"] exI [of _ q] exI [of _ qs] exI [of _ k]) (auto simp: word_le_nat_alt)
  qed
qed simp

lemma skip_loop_outside:
  assumes "chain s p qs" and "plen s qs \<le> unat k"
  shows "\<exists>j. skip_loop s p k = Some (0, j)"
  using assms
proof (induction qs arbitrary: p k)
  case Nil
  then show ?case by (subst skip_loop.simps) simp
next
  case (Cons q qs)
  let ?l = "len (pbufs s q)"
  have l: "?l \<le> k" using Cons.prems(2) by (simp add: word_le_nat_alt)
  then have u: "unat (k - ?l) = unat k - unat ?l" by (simp add: unat_sub)
  have "skip_loop s p k = skip_loop s (pb_next (pbufs s q)) (k - ?l)"
    using Cons.prems l by (subst skip_loop.simps) simp
  then show ?case using Cons.IH [of "pb_next (pbufs s q)" "k - ?l"] Cons.prems u by simp
qed

lemma pbuf_try_get_at_reads:
  assumes "chain s p qs"
  shows "pbuf_try_get_at p k s = Returns (if unat k < plen s qs then uint (pdata s qs ! unat k) else -1)"
proof (cases "unat k < plen s qs")
  case True
  obtain as q bs j where r: "qs = as @ q # bs" "chain s q (q # bs)" "plen s as \<le> unat k"
    "skip_loop s p k = Some (q, j)" "unat j = unat k - plen s as" "unat j < unat (len (pbufs s q))"
    using skip_loop_inside [OF assms True] by blast
  have "pdata s qs ! unat k = bytes s (payload (pbufs s q) + unat j)"
    using r(3,5,6) by (simp add: r(1) nth_append)
  then show ?thesis using r(2,4,6) True by (auto simp: pbuf_try_get_at_def pbuf_skip_def word_less_nat_alt)
next
  case False
  then obtain j where "skip_loop s p k = Some (0, j)" using skip_loop_outside [OF assms, of k] by auto
  then show ?thesis using False by (simp add: pbuf_try_get_at_def pbuf_skip_def)
qed

lemma pbuf_get_at_reads:
  "chain s p qs \<Longrightarrow> pbuf_get_at p k s = Returns (if unat k < plen s qs then pdata s qs ! unat k else 0)"
  by (simp add: pbuf_get_at_def pbuf_try_get_at_reads)

text \<open>The result of a comparison: 0, or the position after the first difference.\<close>

fun diff_at :: "nat \<Rightarrow> u8 list \<Rightarrow> u8 list \<Rightarrow> nat" where
  "diff_at i (x # xs) (y # ys) = (if x \<noteq> y then Suc i else diff_at (Suc i) xs ys)"
| "diff_at i _ _ = 0"

lemma diff_at_0_iff: "length xs = length ys \<Longrightarrow> diff_at i xs ys = 0 \<longleftrightarrow> xs = ys"
  by (induction i xs ys rule: diff_at.induct) auto

lemma diff_at_le: "diff_at i xs ys \<le> i + length xs"
  by (induction i xs ys rule: diff_at.induct) auto

lemma memcmp_loop_compares:
  assumes "chain s q qs" and "unat start + i + n \<le> plen s qs" and "unat start + i + n < 65536"
  shows "memcmp_loop s q start s2 i n =
    Returns (of_nat (diff_at i (take n (drop (unat start + i) (pdata s qs))) (rd (bytes s) (s2 + i) n)))"
  using assms(2,3)
proof (induction n arbitrary: i)
  case (Suc n)
  have u: "unat (start + of_nat i) = unat start + i" using Suc.prems by (simp add: unat_word_ariths unat_of_nat)
  have g: "pbuf_get_at q (start + of_nat i) s = Returns (pdata s qs ! (unat start + i))"
    using Suc.prems by (simp add: pbuf_get_at_reads [OF assms(1)] u)
  have d: "drop (unat start + i) (pdata s qs) = pdata s qs ! (unat start + i) # drop (Suc (unat start + i)) (pdata s qs)"
    using Suc.prems by (simp add: Cons_nth_drop_Suc)
  show ?case using Suc.IH [of "Suc i"] Suc.prems by (simp add: g d rd_Suc)
qed simp

lemma pbuf_memcmp_compares:
  assumes p: "packet s p qs" and "unat offset + unat n \<le> plen s qs"
  shows "pbuf_memcmp p offset s2 n s =
    Returns (of_nat (diff_at 0 (take (unat n) (drop (unat offset) (pdata s qs))) (rd (bytes s) s2 (unat n))))"
proof -
  have t: "unat (tot_len (pbufs s p)) = plen s qs" "chain s p qs" using packet_neq [OF p] p by (auto simp: packet_def)
  have b: "plen s qs < 65536" using t(1) unsigned_less [of "tot_len (pbufs s p)", where 'a = nat] by simp
  show ?thesis
  proof (cases "unat offset < plen s qs")
    case True
    obtain as q bs j where r: "qs = as @ q # bs" "chain s q (q # bs)" "plen s as \<le> unat offset"
      "skip_loop s p offset = Some (q, j)" "unat j = unat offset - plen s as"
      using skip_loop_inside [OF t(2) True] by blast
    have d: "drop (unat offset) (pdata s qs) = drop (unat j) (pdata s (q # bs))" using r(1,3,5) by simp
    have "memcmp_loop s q j s2 0 (unat n) = Returns (of_nat (diff_at 0
        (take (unat n) (drop (unat j + 0) (pdata s (q # bs)))) (rd (bytes s) (s2 + 0) (unat n))))"
      by (rule memcmp_loop_compares [OF r(2)]) (use assms(2) r(1,3,5) b in auto)
    then show ?thesis using r(4) assms(2) t(1) by (simp add: pbuf_memcmp_def d del: data_in_simps)
  next
    case False
    obtain j where "skip_loop s p offset = Some (0, j)" using False skip_loop_outside [OF t(2), of offset] by auto
    moreover have "unat n = 0" using False assms(2) by simp
    ultimately show ?thesis using assms(2) t(1) by (simp add: pbuf_memcmp_def)
  qed
qed

lemma pbuf_memcmp_too_long:
  assumes "packet s p qs" and "plen s qs < unat offset + unat n"
  shows "pbuf_memcmp p offset s2 n s = Returns 0xffff"
  using packet_neq [OF assms(1)] assms(2) by (simp add: pbuf_memcmp_def)

text \<open>Where a pattern begins.\<close>

definition occurs_at :: "u8 list \<Rightarrow> u8 list \<Rightarrow> nat \<Rightarrow> bool" where
  "occurs_at pat xs i \<longleftrightarrow> i + length pat \<le> length xs \<and> take (length pat) (drop i xs) = pat"

lemma memfind_loop_finds:
  assumes p: "packet s p qs" and mx: "unat maxi + unat k = plen s qs" and i: "unat i \<le> unat maxi + 1" "k = 0 \<longrightarrow> unat i \<le> unat maxi"
  shows "\<exists>j. orepeat (memfind_pass s p mem k maxi) (i, r) = Some (Returns (j,
    map_option of_nat (find (occurs_at (rd (bytes s) mem (unat k)) (pdata s qs)) [unat i..<unat maxi + 1])))"
  using i
proof (induction "unat maxi + 1 - unat i" arbitrary: i r)
  case 0
  then have "\<not> i \<le> maxi" by (simp add: word_le_nat_alt)
  then have "memfind_pass s p mem k maxi (i, r) = Returns (False, i, None)" by (simp add: memfind_pass_def)
  then show ?case using 0 by (simp add: orepeat_stop)
next
  case (Suc d)
  let ?pat = "rd (bytes s) mem (unat k)"
  have le: "i \<le> maxi" using Suc(2) by (simp add: word_le_nat_alt)
  have b: "plen s qs < 65536"
    using packet_neq [OF p] unsigned_less [of "tot_len (pbufs s p)", where 'a = nat] by simp
  have c: "pbuf_memcmp p i mem k s = Returns (of_nat (diff_at 0 (take (unat k) (drop (unat i) (pdata s qs))) ?pat))"
    by (rule pbuf_memcmp_compares [OF p]) (use le mx in \<open>simp add: word_le_nat_alt\<close>)
  have up: "[unat i..<Suc (unat maxi)] = unat i # [Suc (unat i)..<Suc (unat maxi)]"
    using le by (simp add: upt_rec word_le_nat_alt)
  have len: "length (take (unat k) (drop (unat i) (pdata s qs))) = unat k"
    using le mx by (simp add: word_le_nat_alt)
  have occ: "occurs_at ?pat (pdata s qs) (unat i) \<longleftrightarrow>
      (of_nat (diff_at 0 (take (unat k) (drop (unat i) (pdata s qs))) ?pat) :: u16) = 0"
  proof -
    have "diff_at 0 (take (unat k) (drop (unat i) (pdata s qs))) ?pat < 65536"
      using diff_at_le [of 0 "take (unat k) (drop (unat i) (pdata s qs))" ?pat] len mx b by simp
    then have "(of_nat (diff_at 0 (take (unat k) (drop (unat i) (pdata s qs))) ?pat) :: u16) = 0 \<longleftrightarrow>
        diff_at 0 (take (unat k) (drop (unat i) (pdata s qs))) ?pat = 0"
      using of_nat_u16_eq [of _ 0] by simp
    also have "\<dots> \<longleftrightarrow> take (unat k) (drop (unat i) (pdata s qs)) = ?pat"
      by (rule diff_at_0_iff) (use len in simp)
    finally show ?thesis using le mx by (auto simp: occurs_at_def word_le_nat_alt)
  qed
  show ?case
  proof (cases "occurs_at ?pat (pdata s qs) (unat i)")
    case True
    then have "memfind_pass s p mem k maxi (i, r) = Returns (False, i, Some i)"
      using le c occ by (simp add: memfind_pass_def)
    then show ?thesis using True by (simp add: orepeat_stop up del: upt_Suc)
  next
    case False
    then have st: "memfind_pass s p mem k maxi (i, r) = Returns (True, i + 1, None)"
      using le c occ by (simp add: memfind_pass_def)
    have k0: "k \<noteq> 0" using False le mx by (auto simp: occurs_at_def word_le_nat_alt)
    have "unat i + 1 < 65536"
    proof -
      have "0 < unat k" using k0 by (simp add: unat_gt_0)
      then show ?thesis using le mx b by (simp add: word_le_nat_alt)
    qed
    then have ui: "unat (i + 1) = unat i + 1" by (simp add: unat_word_ariths)
    have "\<exists>j. orepeat (memfind_pass s p mem k maxi) (i + 1, None) = Some (Returns (j,
        map_option of_nat (find (occurs_at ?pat (pdata s qs)) [unat (i + 1)..<unat maxi + 1])))"
      by (rule Suc(1)) (use Suc(2,3) ui k0 le in \<open>auto simp: word_le_nat_alt\<close>)
    then show ?thesis using False ui by (simp add: orepeat_step [of "memfind_pass s p mem k maxi", OF st] up del: upt_Suc)
  qed
qed

lemma find_append_split: "find P (xs @ ys) = (case find P xs of None \<Rightarrow> find P ys | Some x \<Rightarrow> Some x)"
  by (induction xs) simp_all

lemma pbuf_memfind_finds:
  assumes p: "packet s p qs"
  shows "pbuf_memfind p mem k start s = Returns
    (case find (occurs_at (rd (bytes s) mem (unat k)) (pdata s qs)) [unat start..<Suc (plen s qs)] of
       Some i \<Rightarrow> of_nat i | None \<Rightarrow> 0xFFFF)"
proof -
  let ?pat = "rd (bytes s) mem (unat k)"
  have t: "unat (tot_len (pbufs s p)) = plen s qs" using packet_neq [OF p] by simp
  show ?thesis
  proof (cases "unat k + unat start \<le> plen s qs")
    case True
    define maxi where "maxi = tot_len (pbufs s p) - k"
    have mx: "unat maxi + unat k = plen s qs" using True t by (simp add: maxi_def unat_sub word_le_nat_alt)
    obtain j where j: "orepeat (memfind_pass s p mem k maxi) (start, None) = Some (Returns (j,
        map_option of_nat (find (occurs_at ?pat (pdata s qs)) [unat start..<unat maxi + 1])))"
      using memfind_loop_finds [OF p mx, of start mem None] True mx by auto
    have sp: "[unat start..<Suc (plen s qs)] = [unat start..<unat maxi + 1] @ [unat maxi + 1..<Suc (plen s qs)]"
      using upt_add_eq_append [of "unat start" "unat maxi + 1" "unat k"] True mx by (simp add: add.commute)
    have "find (occurs_at ?pat (pdata s qs)) [unat maxi + 1..<Suc (plen s qs)] = None"
      using mx by (auto simp: find_None_iff occurs_at_def)
    then have "find (occurs_at ?pat (pdata s qs)) [unat start..<Suc (plen s qs)] =
        find (occurs_at ?pat (pdata s qs)) [unat start..<unat maxi + 1]"
      unfolding sp find_append_split by (simp del: upt_Suc split: option.split)
    then show ?thesis
      using j True t by (simp add: pbuf_memfind_def Let_def flip: maxi_def split: option.splits)
  next
    case False
    then have "find (occurs_at ?pat (pdata s qs)) [unat start..<Suc (plen s qs)] = None"
      by (auto simp: find_None_iff occurs_at_def)
    then show ?thesis using False t by (simp add: pbuf_memfind_def Let_def)
  qed
qed

section \<open>Copying in\<close>

text \<open>Chains whose payloads do not overlap.\<close>

fun regions_ok :: "lwip \<Rightarrow> nat list \<Rightarrow> bool" where
  "regions_ok s [] \<longleftrightarrow> True"
| "regions_ok s (q # qs) \<longleftrightarrow> (\<forall>q'\<in>set qs. region s q \<inter> region s q' = {}) \<and> regions_ok s qs"

definition space :: "lwip \<Rightarrow> nat list \<Rightarrow> nat set" where
  "space s qs = (\<Union>q\<in>set qs. region s q)"

lemma space_simps [simp]: "space s [] = {}" "space s (q # qs) = region s q \<union> space s qs"
  "space s (xs @ ys) = space s xs \<union> space s ys"
  by (auto simp: space_def)

lemma regions_ok_space: "regions_ok s (q # qs) \<longleftrightarrow> region s q \<inter> space s qs = {} \<and> regions_ok s qs"
  by (auto simp: space_def)

lemma regions_ok_append: "regions_ok s (xs @ ys) \<longleftrightarrow> regions_ok s xs \<and> regions_ok s ys \<and> space s xs \<inter> space s ys = {}"
  by (induction xs) (auto simp: space_def)

lemma data_in_cong: "(\<And>x. x \<in> space s qs \<Longrightarrow> m x = m' x) \<Longrightarrow> data_in s m qs = data_in s m' qs"
proof (induction qs)
  case (Cons q qs)
  have "rd m (payload (pbufs s q)) (unat (len (pbufs s q))) = rd m' (payload (pbufs s q)) (unat (len (pbufs s q)))"
    by (rule rd_cong) (use Cons.prems in \<open>simp add: region_def\<close>)
  then show ?case using Cons by simp
qed simp

lemma take_loop_writes:
  assumes "chain s p qs" and "unat k \<le> plen s qs" and "unat c + unat k < 65536" and "regions_ok s qs"
    and "{src + unat c..<src + unat c + unat k} \<inter> space s qs = {}"
  shows "\<exists>p' m'. orepeat (take_pass debug s src) (p, k, c, m) = Some (Returns (p', 0, c + k, m'))
    \<and> data_in s m' qs = rd m (src + unat c) (unat k) @ drop (unat k) (data_in s m qs)
    \<and> (\<forall>x. x \<notin> space s qs \<longrightarrow> m' x = m x)"
  using assms
proof (induction qs arbitrary: p k c m)
  case Nil
  then have "k = 0" by (simp add: unat_eq_0)
  then have "take_pass debug s src (p, k, c, m) = Returns (False, p, 0, c, m)" by (simp add: take_pass_def)
  then show ?case using \<open>k = 0\<close> by (simp add: orepeat_stop)
next
  case (Cons q qs)
  let ?b = "pbufs s q" let ?l = "unat (len (pbufs s q))"
  show ?case
  proof (cases "k = 0")
    case True
    then have "take_pass debug s src (p, k, c, m) = Returns (False, p, 0, c, m)" by (simp add: take_pass_def)
    then show ?thesis using True by (auto simp: orepeat_stop)
  next
    case False
    define j where "j = (if k > len ?b then len ?b else k)"
    have j: "unat j = min (unat k) ?l" by (auto simp: j_def word_less_nat_alt)
    have ukj: "unat (k - j) = unat k - unat j" using j by (simp add: unat_sub word_le_nat_alt)
    have ucj: "unat (c + j) = unat c + unat j" using j Cons.prems(3) by (simp add: unat_word_ariths)
    define d where "d = rd m (src + unat c) (unat j)"
    define m1 where "m1 = wr m (payload ?b) d"
    have st: "take_pass debug s src (p, k, c, m) = Returns (True, pb_next ?b, k - j, c + j, m1)"
      using Cons.prems(1) False by (simp add: take_pass_def j_def m1_def d_def Let_def)
    have dis: "region s q \<inter> space s qs = {}" "regions_ok s qs"
      using Cons.prems(4) unfolding regions_ok_space by auto
    have out: "m1 x = m x" if "x \<notin> region s q" for x
      using that j by (auto simp: m1_def d_def wr_def region_def)
    have q1: "rd m1 (payload ?b) ?l = d @ drop (unat j) (rd m (payload ?b) ?l)"
    proof -
      have sp: "?l = unat j + (?l - unat j)" using j by simp
      have "rd m1 (payload ?b) ?l = rd m1 (payload ?b) (unat j) @ rd m1 (payload ?b + unat j) (?l - unat j)"
        using rd_add [of m1 "payload ?b" "unat j" "?l - unat j"] sp by simp
      moreover have "rd m1 (payload ?b) (unat j) = d" by (simp add: m1_def d_def)
      moreover have "rd m1 (payload ?b + unat j) (?l - unat j) = rd m (payload ?b + unat j) (?l - unat j)"
        unfolding m1_def by (rule rd_wr_disjoint) (simp add: d_def)
      ultimately show ?thesis by simp
    qed
    have c2: "{src + unat (c + j)..<src + unat (c + j) + unat (k - j)} \<inter> space s qs = {}"
      by (rule region_mono [of _ "src + unat c + unat k"]) (use Cons.prems(5) j ucj ukj in auto)
    have "unat (k - j) \<le> plen s qs" "unat (c + j) + unat (k - j) < 65536"
      using Cons.prems(2,3) j ukj ucj by auto
    from Cons.IH [OF _ this dis(2) c2, of "pb_next ?b" m1] Cons.prems(1)
    obtain p' m' where r: "orepeat (take_pass debug s src) (pb_next ?b, k - j, c + j, m1) = Some (Returns (p', 0, c + k, m'))"
      "data_in s m' qs = rd m1 (src + unat (c + j)) (unat (k - j)) @ drop (unat (k - j)) (data_in s m1 qs)"
      "\<forall>x. x \<notin> space s qs \<longrightarrow> m' x = m1 x"
      by auto
    have a: "data_in s m1 qs = data_in s m qs" by (rule data_in_cong) (use out dis(1) in auto)
    have b: "rd m1 (src + unat (c + j)) (unat (k - j)) = rd m (src + unat (c + j)) (unat (k - j))"
    proof (rule rd_cong)
      fix x assume "src + unat (c + j) \<le> x" "x < src + unat (c + j) + unat (k - j)"
      then have "x \<in> {src + unat c..<src + unat c + unat k}" using ucj ukj j by auto
      then have "x \<notin> region s q" using Cons.prems(5) unfolding space_simps by blast
      then show "m1 x = m x" by (rule out)
    qed
    have h: "rd m' (payload ?b) ?l = rd m1 (payload ?b) ?l"
      by (rule rd_cong) (use r(3) dis(1) in \<open>auto simp: region_def\<close>)
    have "rd m (src + unat c) (unat k) = d @ rd m (src + unat (c + j)) (unat (k - j))"
      using rd_add [of m "src + unat c" "unat j" "unat (k - j)"] ukj ucj j by (simp add: d_def add.assoc)
    moreover have "drop (unat j) (rd m (payload ?b) ?l) @ [] = drop (unat k) (rd m (payload ?b) ?l)"
      if "unat k \<le> ?l" using that j by simp
    ultimately have "data_in s m' (q # qs) = rd m (src + unat c) (unat k) @ drop (unat k) (data_in s m (q # qs))"
      using r(2) q1 h a b j ukj by (cases "unat k \<le> ?l") simp_all
    moreover have "orepeat (take_pass debug s src) (p, k, c, m) = Some (Returns (p', 0, c + k, m'))"
      using orepeat_step [of "take_pass debug s src", OF st] r(1) by simp
    moreover have "\<forall>x. x \<notin> space s (q # qs) \<longrightarrow> m' x = m x" using r(3) out by simp
    ultimately show ?thesis by blast
  qed
qed

lemma pbuf_take_writes:
  assumes p: "packet s p qs" and n: "unat n \<le> plen s qs" and r: "regions_ok s qs" and src: "src \<noteq> 0"
    and d: "{src..<src + unat n} \<inter> space s qs = {}"
  obtains m' where "pbuf_take debug p src n s = Returns (ERR_OK, s\<lparr>bytes := m'\<rparr>)"
    "data_in s m' qs = rd (bytes s) src (unat n) @ drop (unat n) (pdata s qs)"
    "\<forall>x. x \<notin> space s qs \<longrightarrow> m' x = bytes s x"
proof -
  have t: "p \<noteq> 0" "tot_len (pbufs s p) \<ge> n" "chain s p qs"
    using packet_neq [OF p] p n by (auto simp: word_le_nat_alt packet_def)
  have "unat (0 :: u16) + unat n < 65536" using unsigned_less [of n, where 'a = nat] by simp
  from take_loop_writes [OF t(3) n this r, of src debug "bytes s"] d
  obtain p' m' where o: "orepeat (take_pass debug s src) (p, n, 0, bytes s) = Some (Returns (p', 0, n, m'))"
    "data_in s m' qs = rd (bytes s) src (unat n) @ drop (unat n) (pdata s qs)"
    "\<forall>x. x \<notin> space s qs \<longrightarrow> m' x = bytes s x" by auto
  have "pbuf_take debug p src n s = Returns (ERR_OK, s\<lparr>bytes := m'\<rparr>)"
    using t(1,2) src o(1) by (simp add: pbuf_take_def)
  then show ?thesis using that o(2,3) by blast
qed

lemma bytes_upd_simps [simp]:
  "data_in (s\<lparr>bytes := m\<rparr>) = data_in s" "plen (s\<lparr>bytes := m\<rparr>) = plen s" "region (s\<lparr>bytes := m\<rparr>) = region s"
  "space (s\<lparr>bytes := m\<rparr>) = space s" "chain (s\<lparr>bytes := m\<rparr>) = chain s"
  by (simp_all add: fun_eq_iff data_in_def plen_def region_def space_def chain_def)

lemma bytes_upd_lens [simp]: "lens_ok (s\<lparr>bytes := m\<rparr>) qs = lens_ok s qs"
  by (induction qs) simp_all

lemma bytes_upd_regions [simp]: "regions_ok (s\<lparr>bytes := m\<rparr>) qs = regions_ok s qs"
  by (induction qs) simp_all

lemma bytes_upd_packet [simp]: "packet (s\<lparr>bytes := m\<rparr>) p qs = packet s p qs"
  by (simp add: packet_def)

lemma lens_ok_append: "lens_ok s (as @ bs) \<Longrightarrow> lens_ok s bs"
  by (induction as) auto

text \<open>Overwriting the middle of one payload.\<close>

lemma rd_wr_middle:
  assumes "j + length d \<le> l"
  shows "rd (wr m (a + j) d) a l = take j (rd m a l) @ d @ drop (j + length d) (rd m a l)"
proof -
  have l: "l = j + (length d + (l - (j + length d)))" using assms by simp
  have "rd (wr m (a + j) d) a l = rd (wr m (a + j) d) a j @ rd (wr m (a + j) d) (a + j) (length d)
      @ rd (wr m (a + j) d) (a + j + length d) (l - (j + length d))"
    by (subst l) (simp only: rd_add add.assoc)
  also have "rd (wr m (a + j) d) a j = rd m a j" by (rule rd_wr_disjoint) simp
  also have "rd (wr m (a + j) d) (a + j + length d) (l - (j + length d)) = rd m (a + j + length d) (l - (j + length d))"
    by (rule rd_wr_disjoint) simp
  finally show ?thesis using assms by (simp add: add.assoc)
qed

text \<open>Writing inside the payload of one pbuf of a chain.\<close>

lemma data_in_wr_at:
  fixes m :: memory
  assumes "qs = as @ q # bs" and "regions_ok s qs" and "j + length d \<le> unat (len (pbufs s q))"
  defines "m' \<equiv> wr m (payload (pbufs s q) + j) d" and "i \<equiv> plen s as + j"
  shows "data_in s m' qs = take i (data_in s m qs) @ d @ drop (i + length d) (data_in s m qs)"
    and "\<And>x. x \<notin> region s q \<Longrightarrow> m' x = m x"
proof -
  show out: "m' x = m x" if "x \<notin> region s q" for x
    using that assms(3) by (auto simp: m'_def wr_def region_def)
  have sp: "space s as \<inter> region s q = {}" "space s bs \<inter> region s q = {}"
    using assms(1,2) by (auto simp: regions_ok_append regions_ok_space simp del: regions_ok.simps(2))
  have "data_in s m' as = data_in s m as" "data_in s m' bs = data_in s m bs"
    by (rule data_in_cong, use out sp in blast)+
  then show "data_in s m' qs = take i (data_in s m qs) @ d @ drop (i + length d) (data_in s m qs)"
    using assms(3) by (simp add: assms(1) i_def m'_def rd_wr_middle)
qed

lemma pbuf_take_at_writes:
  assumes p: "packet s p qs" and n: "unat offset + unat n \<le> plen s qs" "unat offset < plen s qs"
    and r: "regions_ok s qs" and src: "src \<noteq> 0" and d: "{src..<src + unat n} \<inter> space s qs = {}"
  obtains m' where "pbuf_take_at debug p src n offset s = Returns (ERR_OK, s\<lparr>bytes := m'\<rparr>)"
    "data_in s m' qs = take (unat offset) (pdata s qs) @ rd (bytes s) src (unat n)
       @ drop (unat offset + unat n) (pdata s qs)"
    "\<forall>x. x \<notin> space s qs \<longrightarrow> m' x = bytes s x"
proof -
  have c: "chain s p qs" "lens_ok s qs" using p by (auto simp: packet_def)
  obtain as q bs j where q: "qs = as @ q # bs" "chain s q (q # bs)" "plen s as \<le> unat offset"
    "skip_loop s p offset = Some (q, j)" "unat j = unat offset - plen s as" "unat j < unat (len (pbufs s q))"
    using skip_loop_inside [OF c(1) n(2)] by blast
  let ?b = "pbufs s q" let ?l = "unat (len (pbufs s q))" let ?D = "pdata s qs"
  have lq: "lens_ok s (q # bs)" using c(2) q(1) lens_ok_append by blast
  have tl: "unat (tot_len ?b) \<ge> unat j + unat n" using lq q(3,5) n(1) by (simp add: q(1))
  define f where "f = (if int ?l - int (unat j) < int (unat n) then len ?b - j else n)"
  have f: "unat f = min (?l - unat j) (unat n)"
  proof -
    have i: "int ?l - int (unat j) < int (unat n) \<longleftrightarrow> ?l - unat j < unat n" using q(6) by linarith
    show ?thesis unfolding f_def i using q(6) by (simp add: unat_sub word_le_nat_alt min_def)
  qed
  have uf: "unat (n - f) = unat n - unat f" using f by (simp add: unat_sub word_le_nat_alt)
  define d1 where "d1 = rd (bytes s) src (unat f)"
  define m1 where "m1 = wr (bytes s) (payload ?b + unat j) d1"
  have jd: "unat j + length d1 \<le> ?l" using f q(6) by (simp add: d1_def)
  note M = data_in_wr_at [OF q(1) r jd, where m = "bytes s", folded m1_def]
  have off: "plen s as + unat j = unat offset" using q(3,5) by simp
  have M1: "data_in s m1 qs = take (unat offset) ?D @ d1 @ drop (unat offset + unat f) ?D"
    using M(1) off by (simp add: d1_def)
  have call: "pbuf_take_at debug p src n offset s =
      (if n - f > 0 then pbuf_take debug (pb_next ?b) (src + unat f) (n - f) (s\<lparr>bytes := m1\<rparr>)
       else Returns (ERR_OK, s\<lparr>bytes := m1\<rparr>))"
    using q(2) tl by (simp add: pbuf_take_at_def pbuf_skip_def q(4) Let_def m1_def d1_def f_def)
  show ?thesis
  proof (cases "n - f > 0")
    case False
    then have "unat (n - f) = 0" by (simp add: word_less_nat_alt)
    then have "unat f = unat n" using uf f by simp
    moreover have "\<forall>x. x \<notin> space s qs \<longrightarrow> m1 x = bytes s x" using M(2) by (auto simp: q(1))
    ultimately show ?thesis using that [of m1] call False M1 by (simp add: d1_def)
  next
    case True
    then have nz: "0 < unat (n - f)" by (simp add: word_less_nat_alt)
    then have fl: "unat f = ?l - unat j" using f uf by (auto simp: min_def split: if_splits)
    have rem: "unat (n - f) \<le> plen s bs" using uf fl q(3,5,6) n(1) by (simp add: q(1))
    have bs: "bs \<noteq> []" using rem nz by auto
    have pk: "packet (s\<lparr>bytes := m1\<rparr>) (pb_next ?b) bs"
      using q(2) lq bs by (cases bs) (auto simp: packet_def)
    have rb: "regions_ok s bs" "region s q \<inter> space s bs = {}" "space s as \<inter> space s bs = {}"
      using r q(1) by (auto simp: regions_ok_append regions_ok_space simp del: regions_ok.simps(2))
    have sd: "{src + unat f..<src + unat f + unat (n - f)} \<inter> space s bs = {}"
      by (rule region_mono [of src "src + unat n"]) (use d uf f in \<open>auto simp: q(1)\<close>)
    obtain m' where m': "pbuf_take debug (pb_next ?b) (src + unat f) (n - f) (s\<lparr>bytes := m1\<rparr>) = Returns (ERR_OK, s\<lparr>bytes := m'\<rparr>)"
      "data_in s m' bs = rd m1 (src + unat f) (unat (n - f)) @ drop (unat (n - f)) (data_in s m1 bs)"
      "\<forall>x. x \<notin> space s bs \<longrightarrow> m' x = m1 x"
      using pbuf_take_writes [OF pk, of "n - f" "src + unat f" debug] rem rb sd src by auto
    have r1: "rd m1 (src + unat f) (unat (n - f)) = rd (bytes s) (src + unat f) (unat (n - f))"
    proof (rule rd_cong)
      fix x assume "src + unat f \<le> x" "x < src + unat f + unat (n - f)"
      then have "x \<in> {src..<src + unat n}" using uf f by auto
      then have "x \<notin> region s q" using d by (auto simp: q(1))
      then show "m1 x = bytes s x" by (rule M(2))
    qed
    have head: "data_in s m' (as @ [q]) = data_in s m1 (as @ [q])"
      by (rule data_in_cong) (use m'(3) rb in auto)
    have pl: "plen s (as @ [q]) = unat offset + unat f" using off fl q(6) by simp
    have hd1: "data_in s m1 (as @ [q]) = take (unat offset) ?D @ d1"
    proof -
      have "data_in s m1 (as @ [q]) = take (plen s (as @ [q])) (data_in s m1 qs)" by (simp add: q(1))
      also have "\<dots> = take (unat offset) ?D @ d1" unfolding pl M1 using n(2) by (simp add: d1_def)
      finally show ?thesis .
    qed
    have tl1: "data_in s m1 bs = drop (unat offset + unat f) ?D"
    proof -
      have "data_in s m1 bs = drop (plen s (as @ [q])) (data_in s m1 qs)" by (simp add: q(1))
      also have "\<dots> = drop (unat offset + unat f) ?D" unfolding pl M1 using n(2) by (simp add: d1_def)
      finally show ?thesis .
    qed
    have "rd (bytes s) src (unat n) = d1 @ rd (bytes s) (src + unat f) (unat (n - f))"
      using rd_add [of "bytes s" src "unat f" "unat (n - f)"] uf f by (simp add: d1_def)
    moreover have "data_in s m' qs = data_in s m' (as @ [q]) @ data_in s m' bs" by (simp add: q(1))
    moreover have "drop (unat (n - f)) (drop (unat offset + unat f) ?D) = drop (unat offset + unat n) ?D"
      using uf f by (simp add: add.commute)
    ultimately have "data_in s m' qs = take (unat offset) ?D @ rd (bytes s) src (unat n) @ drop (unat offset + unat n) ?D"
      by (simp only: head hd1 m'(2) r1 tl1 append_assoc)
    moreover have "\<forall>x. x \<notin> space s qs \<longrightarrow> m' x = bytes s x" using m'(3) M(2) by (auto simp: q(1))
    ultimately show ?thesis using that call True m'(1) by simp
  qed
qed

end
