(* ===== verification/Pbuf_Copy.thy ===== *)
theory Pbuf_Copy
  imports Pbuf_Spec
begin

text \<open>
  Copying one chain into another, \<open>pbuf_copy\<close>: however the data is split over the pbufs of the two
  chains, the target holds the source's data afterwards and the rest of its own.
\<close>

text \<open>A packet whose later pbufs are not empty; \<open>pbuf_copy\<close> takes other chains for packet queues.\<close>

definition no_empty :: "lwip \<Rightarrow> nat list \<Rightarrow> bool" where
  "no_empty s qs \<longleftrightarrow> (\<forall>q\<in>set (tl qs). 0 < unat (len (pbufs s q)))"

lemma queue_check:
  assumes "chain s p qs" and "lens_ok s qs" and "no_empty s qs"
  shows "p \<noteq> 0 \<and> len (pbufs s p) = tot_len (pbufs s p) \<longrightarrow> pb_next (pbufs s p) = 0"
proof (rule impI, elim conjE)
  assume l: "p \<noteq> 0" "len (pbufs s p) = tot_len (pbufs s p)"
  then obtain rest where q: "qs = p # rest" using assms(1) by (cases qs) auto
  have "plen s rest = 0" using assms(2) l(2) by (simp add: q)
  then have "rest = []" using assms(3) by (cases rest) (auto simp: q no_empty_def)
  then show "pb_next (pbufs s p) = 0" using assms(1) by (simp add: q)
qed

lemma no_empty_tl: "no_empty s (q # qs) \<Longrightarrow> no_empty s qs"
  by (cases qs) (auto simp: no_empty_def)

text \<open>One round: \<open>n\<close> bytes are copied, and the positions that reached the end of a pbuf move on.\<close>

lemma copy_pass_step:
  fixes m :: memory
  assumes t: "chain s pt (t # ts)" "lens_ok s (t # ts)" "no_empty s (t # ts)" "oa \<le> unat (len (pbufs s t))"
    and f: "chain s pf (f # fs)" "lens_ok s (f # fs)" "no_empty s (f # fs)" "ob \<le> unat (len (pbufs s f))"
    and room: "plen s (f # fs) - ob \<le> plen s (t # ts) - oa"
  defines "n \<equiv> min (unat (len (pbufs s t)) - oa) (unat (len (pbufs s f)) - ob)"
  defines "m1 \<equiv> wr m (payload (pbufs s t) + oa) (rd m (payload (pbufs s f) + ob) n)"
  defines "fend \<equiv> ob + n = unat (len (pbufs s f))" and "tend \<equiv> oa + n = unat (len (pbufs s t))"
  shows "copy_pass debug s (e, oa, ob, pt, pf, m) =
    Returns ((if fend then pb_next (pbufs s f) else f) \<noteq> 0, None,
      if tend then 0 else oa + n, if fend then 0 else ob + n,
      if tend then pb_next (pbufs s t) else t, if fend then pb_next (pbufs s f) else f, m1)"
proof -
  let ?tl = "unat (len (pbufs s t))" and ?fl = "unat (len (pbufs s f))"
  have p: "pt = t" "pf = f" "t \<noteq> 0" "f \<noteq> 0" using t(1) f(1) by simp_all
  have n: "(if int ?tl - int oa \<ge> int ?fl - int ob then ?fl - ob else ?tl - oa) = n"
  proof -
    have i: "int ?tl - int oa \<ge> int ?fl - int ob \<longleftrightarrow> ?fl - ob \<le> ?tl - oa" using t(4) f(4) by linarith
    show ?thesis unfolding i n_def by simp
  qed
  have b: "oa + n \<le> ?tl" "ob + n \<le> ?fl" using t(4) f(4) by (auto simp: n_def)
  have fe: "(?fl \<le> ob + n) = fend" using b by (auto simp: fend_def)
  define pf' where "pf' = (if fend then pb_next (pbufs s f) else f)"
  define pt' where "pt' = (if tend then pb_next (pbufs s t) else t)"
  have "chain s pf' (if fend then fs else f # fs)" "chain s pt' (if tend then ts else t # ts)"
    using f(1) t(1) by (simp_all add: pf'_def pt'_def)
  moreover have "lens_ok s (if fend then fs else f # fs)" "lens_ok s (if tend then ts else t # ts)"
    using f(2) t(2) by simp_all
  moreover have "no_empty s (if fend then fs else f # fs)" "no_empty s (if tend then ts else t # ts)"
    using f(3) t(3) no_empty_tl by auto
  ultimately have qf: "pf' \<noteq> 0 \<and> len (pbufs s pf') = tot_len (pbufs s pf') \<longrightarrow> pb_next (pbufs s pf') = 0"
    and qt: "pt' \<noteq> 0 \<and> len (pbufs s pt') = tot_len (pbufs s pt') \<longrightarrow> pb_next (pbufs s pt') = 0"
    using queue_check by blast+
  have fin: "pt' \<noteq> 0 \<or> pf' = 0" if "tend"
  proof (rule disjCI)
    assume "\<not> pf' = 0"
    show "pt' \<noteq> 0"
    proof
      assume "pt' = 0"
      then have "ts = []" using t(1) that by (cases ts) (auto simp: pt'_def)
      then have "plen s (f # fs) - ob \<le> n" using room that by (simp add: tend_def)
      then have "plen s fs = 0 \<and> ob + n = ?fl" using b f(4) by auto
      then have "fend" "fs = []" using f(3) by (cases fs; simp add: fend_def no_empty_def)+
      then show False using f(1) \<open>\<not> pf' = 0\<close> by (simp add: pf'_def)
    qed
  qed
  have te: "(oa + n = ?tl) = tend" by (simp add: tend_def)
  have G: "(if q \<noteq> 0 \<and> len (pbufs s q) = tot_len (pbufs s q)
      then LWIP_ERROR debug (pb_next (pbufs s q) = 0) r k else k) = k"
    if "q \<noteq> 0 \<and> len (pbufs s q) = tot_len (pbufs s q) \<longrightarrow> pb_next (pbufs s q) = 0" for q and r k :: "'a outcome"
    using that by (auto simp: LWIP_ERROR_def)
  have pairs: "(if fend then (0, pb_next (pbufs s f)) else (ob + n, f)) = (if fend then 0 else ob + n, pf')"
    "(if tend then (0, pb_next (pbufs s t)) else (oa + n, t)) = (if tend then 0 else oa + n, pt')"
    by (simp_all add: pf'_def pt'_def)
  show ?thesis
    unfolding copy_pass_def prod.case Let_def p(1,2) n fe te LWIP_ASSERT_True [OF b(1)] LWIP_ASSERT_True [OF b(2)]
      m1_def [symmetric] pairs G [OF qf] G [OF qt] pf'_def [symmetric] pt'_def [symmetric]
    by (cases tend) (simp_all only: if_True if_False LWIP_ERROR_True [OF fin])
qed

lemma copy_loop_copies:
  assumes t: "chain s pt (t # ts)" "lens_ok s (t # ts)" "no_empty s (t # ts)" "oa \<le> unat (len (pbufs s t))"
    and f: "chain s pf (f # fs)" "lens_ok s (f # fs)" "no_empty s (f # fs)" "ob \<le> unat (len (pbufs s f))"
    and room: "plen s (f # fs) - ob \<le> plen s (t # ts) - oa"
    and reg: "regions_ok s (t # ts)" "space s (t # ts) \<inter> space s (f # fs) = {}"
  shows "\<exists>x y p m'. orepeat (copy_pass debug s) (e, oa, ob, pt, pf, m) = Some (Returns (None, x, y, p, 0, m'))
    \<and> data_in s m' (t # ts) = take oa (data_in s m (t # ts)) @ drop ob (data_in s m (f # fs))
        @ drop (oa + (plen s (f # fs) - ob)) (data_in s m (t # ts))
    \<and> (\<forall>a. a \<notin> space s (t # ts) \<longrightarrow> m' a = m a)"
  using assms
proof (induction "length ts + length fs" arbitrary: t ts f fs oa ob pt pf e m rule: less_induct)
  case less
  note t = less.prems(1-4) and f = less.prems(5-8) and room = less.prems(9) and reg = less.prems(10,11)
  let ?tl = "unat (len (pbufs s t))" and ?fl = "unat (len (pbufs s f))"
  define n where "n = min (?tl - oa) (?fl - ob)"
  define c where "c = rd m (payload (pbufs s f) + ob) n"
  define m1 where "m1 = wr m (payload (pbufs s t) + oa) c"
  define fend where "fend \<longleftrightarrow> ob + n = ?fl"
  define tend where "tend \<longleftrightarrow> oa + n = ?tl"
  have n: "oa + n \<le> ?tl" "ob + n \<le> ?fl" "fend \<or> tend" using t(4) f(4) by (auto simp: n_def fend_def tend_def)
  have lc: "length c = n" by (simp add: c_def)
  note st = copy_pass_step [OF t f room, of debug e m, folded n_def, folded c_def, folded m1_def, folded fend_def tend_def]
  have jd: "oa + length c \<le> ?tl" using n lc by simp
  have tt: "t # ts = [] @ t # ts" by simp
  note M = data_in_wr_at [OF tt reg(1) jd, where m = m, folded m1_def]
  have D1: "data_in s m1 (t # ts) = take oa (data_in s m (t # ts)) @ c @ drop (oa + n) (data_in s m (t # ts))"
    using M(1) lc by simp
  have F1: "data_in s m1 (f # fs) = data_in s m (f # fs)"
    by (rule data_in_cong) (use M(2) reg(2) in auto)
  have c': "c = take n (drop ob (data_in s m (f # fs)))" 
  proof -
    have "n \<le> ?fl - ob" "ob \<le> ?fl" using n(2) by auto
    then show ?thesis by (simp add: c_def min_absorb1)
  qed
  have R: "drop ob (data_in s m (f # fs)) = c @ drop (ob + n) (data_in s m (f # fs))"
    unfolding c' by (metis add.commute append_take_drop_id drop_drop)
  have out: "m1 a = m a" if "a \<notin> space s (t # ts)" for a using M(2) [of a] that by simp
  define fs' where "fs' = (if fend then fs else f # fs)"
  define ts' where "ts' = (if tend then ts else t # ts)"
  define pf' where "pf' = (if fend then pb_next (pbufs s f) else f)"
  define pt' where "pt' = (if tend then pb_next (pbufs s t) else t)"
  define oa' where "oa' = (if tend then 0 else oa + n)"
  define ob' where "ob' = (if fend then 0 else ob + n)"
  have st': "copy_pass debug s (e, oa, ob, pt, pf, m) = Returns (pf' \<noteq> 0, None, oa', ob', pt', pf', m1)"
    unfolding st by (simp add: pf'_def pt'_def oa'_def ob'_def)
  have cs: "chain s pf' fs'" "chain s pt' ts'" using f(1) t(1) by (simp_all add: pf'_def pt'_def fs'_def ts'_def)
  have FD: "drop ob' (data_in s m fs') = drop (ob + n) (data_in s m (f # fs))"
    by (simp add: ob'_def fs'_def fend_def)
  have PF: "plen s fs' - ob' = plen s (f # fs) - (ob + n)" by (simp add: ob'_def fs'_def fend_def)
  have room': "plen s fs' - ob' \<le> plen s ts' - oa'"
    unfolding PF using room n by (auto simp: oa'_def ts'_def tend_def)
  show ?case
  proof (cases "fs' = []")
    case True
    then have p0: "pf' = 0" using cs(1) by simp
    have "orepeat (copy_pass debug s) (e, oa, ob, pt, pf, m) = Some (Returns (None, oa', ob', pt', 0, m1))"
      using st' p0 by (simp add: orepeat_stop)
    moreover have z: "plen s (f # fs) - ob = n" using True n(2) by (simp add: fs'_def fend_def split: if_splits)
    moreover have "drop ob (data_in s m (f # fs)) = c" using R z by simp
    ultimately show ?thesis using D1 out by auto
  next
    case False
    then have pn: "pf' \<noteq> 0" using cs(1) by (cases fs') auto
    have "ts' \<noteq> []"
    proof
      assume "ts' = []"
      then have "plen s fs' \<le> ob'" using room' by simp
      then show False using False f(3,4) n(2) by (cases fs) (auto simp: fs'_def ob'_def fend_def no_empty_def split: if_splits)
    qed
    then obtain t' tr where ts': "ts' = t' # tr" by (cases ts') auto
    obtain f' fr where fs': "fs' = f' # fr" using False by (cases fs') auto
    have ok: "lens_ok s ts'" "no_empty s ts'" "lens_ok s fs'" "no_empty s fs'" "oa' \<le> unat (len (pbufs s t'))"
      "ob' \<le> unat (len (pbufs s f'))" "regions_ok s ts'" "space s ts' \<inter> space s fs' = {}"
      using t f reg n no_empty_tl ts' fs'
      by (auto simp: ts'_def fs'_def oa'_def ob'_def split: if_splits simp del: regions_ok.simps(2) simp: regions_ok_space)
    have small: "length tr + length fr < length ts + length fs"
      using n(3) ts' fs' by (auto simp: ts'_def fs'_def split: if_splits)
    obtain x y p m' where IH: "orepeat (copy_pass debug s) (None, oa', ob', pt', pf', m1) = Some (Returns (None, x, y, p, 0, m'))"
      "data_in s m' ts' = take oa' (data_in s m1 ts') @ drop ob' (data_in s m1 fs') @ drop (oa' + (plen s fs' - ob')) (data_in s m1 ts')"
      "\<forall>a. a \<notin> space s ts' \<longrightarrow> m' a = m1 a"
      using less.hyps [OF small, of pt' t' oa' pf' f' ob' None m1] cs ok room' unfolding ts' fs' by blast
    have F2: "drop ob' (data_in s m1 fs') = drop (ob + n) (data_in s m (f # fs))"
      unfolding FD [symmetric] using F1 by (auto simp: fs'_def)
    have go: "orepeat (copy_pass debug s) (e, oa, ob, pt, pf, m) = Some (Returns (None, x, y, p, 0, m'))"
      using st' pn IH(1) by (simp add: orepeat_step [of "copy_pass debug s"])
    have rest: "\<forall>a. a \<notin> space s (t # ts) \<longrightarrow> m' a = m a"
      using IH(3) out by (auto simp: ts'_def)
    have r0: "plen s (f # fs) - ob = n + (plen s fs' - ob')" unfolding PF using n(2) by simp
    have "data_in s m' (t # ts) = take oa (data_in s m (t # ts)) @ drop ob (data_in s m (f # fs))
        @ drop (oa + (plen s (f # fs) - ob)) (data_in s m (t # ts))"
    proof (cases tend)
      case False
      then have ts'': "ts' = t # ts" "oa' = oa + n" by (simp_all add: ts'_def oa'_def)
      have "take (oa + n) (data_in s m1 (t # ts)) = take oa (data_in s m (t # ts)) @ c"
        unfolding D1 using n(1) lc by simp
      moreover have "drop (oa + n + k) (data_in s m1 (t # ts)) = drop (oa + n + k) (data_in s m (t # ts))" for k
        unfolding D1 using n(1) lc by (simp add: add.commute add.left_commute)
      ultimately show ?thesis
        using IH(2) unfolding ts'' F2 R r0 by (simp only: append_assoc add.assoc)
    next
      case True
      then have ts'': "ts' = ts" "oa' = 0" by (simp_all add: ts'_def oa'_def)
      have sep: "region s t \<inter> space s ts = {}" using reg(1) unfolding regions_ok_space by simp
      have h: "rd m' (payload (pbufs s t)) ?tl = rd m1 (payload (pbufs s t)) ?tl"
        by (rule rd_cong) (use IH(3) sep in \<open>auto simp: ts'' region_def\<close>)
      have h1: "rd m1 (payload (pbufs s t)) ?tl = take oa (data_in s m (t # ts)) @ c"
      proof -
        have "rd m1 (payload (pbufs s t)) ?tl = take ?tl (data_in s m1 (t # ts))" by simp
        also have "\<dots> = take oa (data_in s m (t # ts)) @ c" unfolding D1 using True n(1) lc by (simp add: tend_def)
        finally show ?thesis .
      qed
      have t1: "data_in s m1 ts = drop (oa + n) (data_in s m (t # ts))"
      proof -
        have "data_in s m1 ts = drop ?tl (data_in s m1 (t # ts))" by simp
        also have "\<dots> = drop (oa + n) (data_in s m (t # ts))" unfolding D1 using True n(1) lc by (simp add: tend_def)
        finally show ?thesis .
      qed
      have "data_in s m' (t # ts) = (take oa (data_in s m (t # ts)) @ c) @ data_in s m' ts" using h h1 by simp
      also have "data_in s m' ts = drop (ob + n) (data_in s m (f # fs)) @ drop (plen s fs' - ob') (drop (oa + n) (data_in s m (t # ts)))"
        using IH(2) unfolding ts'' F2 t1 by simp
      also have "drop (plen s fs' - ob') (drop (oa + n) (data_in s m (t # ts))) =
          drop (oa + (n + (plen s fs' - ob'))) (data_in s m (t # ts))"
        by (simp only: drop_drop ac_simps)
      finally show ?thesis unfolding R r0 by (simp only: append_assoc)
    qed
    then show ?thesis using go rest by blast
  qed
qed

lemma pbuf_copy_copies:
  assumes t: "packet s p_to ts" "no_empty s ts" and f: "packet s p_from fs" "no_empty s fs"
    and room: "plen s fs \<le> plen s ts" and reg: "regions_ok s ts" "space s ts \<inter> space s fs = {}"
  obtains m' where "pbuf_copy debug p_to p_from s = Returns (ERR_OK, s\<lparr>bytes := m'\<rparr>)"
    "data_in s m' ts = pdata s fs @ drop (plen s fs) (pdata s ts)"
    "\<forall>a. a \<notin> space s ts \<longrightarrow> m' a = bytes s a"
proof -
  obtain t' tr f' fr where q: "ts = t' # tr" "fs = f' # fr"
    using packet_neq [OF t(1)] packet_neq [OF f(1)] by (metis neq_Nil_conv)
  have g: "p_to \<noteq> 0 \<and> p_from \<noteq> 0 \<and> tot_len (pbufs s p_to) \<ge> tot_len (pbufs s p_from)"
    using packet_neq [OF t(1)] packet_neq [OF f(1)] room by (simp add: word_le_nat_alt)
  have "chain s p_to (t' # tr)" "lens_ok s (t' # tr)" "chain s p_from (f' # fr)" "lens_ok s (f' # fr)"
    using t(1) f(1) by (auto simp: packet_def q)
  from copy_loop_copies [of s p_to t' tr 0 p_from f' fr 0 debug None "bytes s"] this t(2) f(2) room reg
  obtain x y p m' where "orepeat (copy_pass debug s) (None, 0, 0, p_to, p_from, bytes s) = Some (Returns (None, x, y, p, 0, m'))"
    "data_in s m' ts = pdata s fs @ drop (plen s fs) (pdata s ts)" "\<forall>a. a \<notin> space s ts \<longrightarrow> m' a = bytes s a"
    unfolding q by auto
  then show ?thesis using that g by (simp add: pbuf_copy_def)
qed

end
