(* ===== verification/Pbuf_Laws.thy ===== *)
theory Pbuf_Laws
  imports Pbuf_Copy
begin

text \<open>
  The properties of the functions that move the data of packets, each applied to a packet of two
  pbufs, three bytes at 1000 and four bytes at 2000.
\<close>

definition two_pbufs :: lwip where
  "two_pbufs = \<lparr>pbufs = (\<lambda>_. \<lparr>pb_next = 0, payload = 0, tot_len = 0, len = 0, pb_type = PBUF_REF, flags = 0, ref = 1\<rparr>)
       (8 := \<lparr>pb_next = 16, payload = 1000, tot_len = 7, len = 3, pb_type = PBUF_REF, flags = 0, ref = 1\<rparr>,
        16 := \<lparr>pb_next = 0, payload = 2000, tot_len = 4, len = 4, pb_type = PBUF_REF, flags = 0, ref = 1\<rparr>,
        24 := \<lparr>pb_next = 0, payload = 3000, tot_len = 5, len = 5, pb_type = PBUF_REF, flags = 0, ref = 1\<rparr>),
     memps_of = \<lparr>memp_pools = (\<lambda>_. \<lparr>d_size = 0, d_num = 0, d_base = 0\<rparr>), memp_tab = (\<lambda>_. 0), memp_next = (\<lambda>_. 0)\<rparr>,
     heap_of = \<lparr>ram = 0, mem_at = (\<lambda>_. \<lparr>mem_next = 0, mem_prev = 0, mem_used = 0\<rparr>), lfree = 0\<rparr>,
     bytes = (\<lambda>a. of_nat a)\<rparr>"

lemma two_pbufs_packet:
  "packet two_pbufs 8 [8, 16]" "plen two_pbufs [8, 16] = 7" "regions_ok two_pbufs [8, 16]"
  "space two_pbufs [8, 16] = {1000..<1003} \<union> {2000..<2004}"
  "packet two_pbufs 24 [24]" "plen two_pbufs [24] = 5" "space two_pbufs [24] = {3000..<3005}"
  "bytes two_pbufs = (\<lambda>a. of_nat a)"
  by (auto simp: packet_def region_def two_pbufs_def)

text \<open>
  C35. What \<open>pbuf_take_at\<close> puts into a packet, \<open>pbuf_copy_partial\<close> gets out again, at any offset and
  across pbuf boundaries; the bytes of the packet before and behind the range stay as they are.
\<close>

theorem pbuf_take_at_copy_partial:
  assumes "packet s p qs" and "regions_ok s qs" and "unat offset + unat n \<le> plen s qs" and "unat offset < plen s qs"
    and "src \<noteq> 0" and "{src..<src + unat n} \<inter> space s qs = {}" and "dst \<noteq> 0" and "{dst..<dst + unat n} \<inter> space s qs = {}"
  shows "\<exists>m1 m2. pbuf_take_at debug p src n offset s = Returns (ERR_OK, s\<lparr>bytes := m1\<rparr>)
    \<and> data_in s m1 qs = take (unat offset) (pdata s qs) @ rd (bytes s) src (unat n) @ drop (unat offset + unat n) (pdata s qs)
    \<and> (\<forall>x. x \<notin> space s qs \<longrightarrow> m1 x = bytes s x)
    \<and> pbuf_copy_partial debug p dst n offset (s\<lparr>bytes := m1\<rparr>) = Returns (n, s\<lparr>bytes := m2\<rparr>)
    \<and> rd m2 dst (unat n) = rd (bytes s) src (unat n)"
proof -
  let ?D = "pdata s qs"
  obtain m1 where m1: "pbuf_take_at debug p src n offset s = Returns (ERR_OK, s\<lparr>bytes := m1\<rparr>)"
    "data_in s m1 qs = take (unat offset) ?D @ rd (bytes s) src (unat n) @ drop (unat offset + unat n) ?D"
    "\<forall>x. x \<notin> space s qs \<longrightarrow> m1 x = bytes s x"
    by (rule pbuf_take_at_writes [OF assms(1,3,4,2,5,6)])
  have p: "p \<noteq> 0" "chain s p qs" using packet_neq [OF assms(1)] assms(1) by (auto simp: packet_def)
  have n: "unat n < 65536" using unsigned_less [of n] by simp
  have d: "take (unat n) (drop (unat offset) (data_in s m1 qs)) = rd (bytes s) src (unat n)"
    using assms(3) by (simp add: m1(2))
  have "copy_partial_loop (s\<lparr>bytes := m1\<rparr>) dst p n offset 0 m1 = Some (n, wr m1 dst (rd (bytes s) src (unat n)))"
    using copy_partial_loop_copies [of "s\<lparr>bytes := m1\<rparr>" p qs 0 n dst offset m1] p(2) n assms(8)
    by (auto simp: d Let_def space_def disjoint_iff)
  then have "pbuf_copy_partial debug p dst n offset (s\<lparr>bytes := m1\<rparr>)
      = Returns (n, s\<lparr>bytes := wr m1 dst (rd (bytes s) src (unat n))\<rparr>)"
    using p(1) assms(7) by (simp add: pbuf_copy_partial_def)
  then show ?thesis
    using m1 by (intro exI [of _ m1] exI [of _ "wr m1 dst (rd (bytes s) src (unat n))"]) simp
qed

theorem pbuf_take_at_copy_partial_witness:
  "\<exists>m1 m2. pbuf_take_at False 8 100 4 2 two_pbufs = Returns (ERR_OK, two_pbufs\<lparr>bytes := m1\<rparr>)
     \<and> pbuf_copy_partial False 8 5000 4 2 (two_pbufs\<lparr>bytes := m1\<rparr>) = Returns (4, two_pbufs\<lparr>bytes := m2\<rparr>)
     \<and> rd m2 5000 4 = [100, 101, 102, 103]"
proof -
  have r: "rd (bytes two_pbufs) 100 4 = [100, 101, 102, 103]" by (simp add: two_pbufs_packet rd_def upt_rec)
  have d: "{100..<100 + unat (4 :: u16)} \<inter> space two_pbufs [8, 16] = {}" "{5000..<5000 + unat (4 :: u16)} \<inter> space two_pbufs [8, 16] = {}"
    unfolding two_pbufs_packet(4) by auto
  have l: "unat (2 :: u16) + unat (4 :: u16) \<le> plen two_pbufs [8, 16]" "unat (2 :: u16) < plen two_pbufs [8, 16]"
    unfolding two_pbufs_packet(2) by simp_all
  have u: "unat (4 :: u16) = 4" by simp
  obtain m1 m2 where "pbuf_take_at False 8 100 4 2 two_pbufs = Returns (ERR_OK, two_pbufs\<lparr>bytes := m1\<rparr>)"
    "pbuf_copy_partial False 8 5000 4 2 (two_pbufs\<lparr>bytes := m1\<rparr>) = Returns (4, two_pbufs\<lparr>bytes := m2\<rparr>)"
    "rd m2 5000 (unat (4 :: u16)) = rd (bytes two_pbufs) 100 (unat (4 :: u16))"
    using pbuf_take_at_copy_partial [OF two_pbufs_packet(1,3) l _ d(1) _ d(2), of False] by auto
  then show ?thesis unfolding u r by blast
qed

text \<open>
  C36. \<open>pbuf_copy\<close> copies data, not chains: however source and target are split into pbufs, the target
  packet begins with the source's data afterwards and keeps the rest of its own, and only its payload
  bytes have changed.
\<close>

theorem pbuf_copy_same_data:
  assumes "packet s p_to ts" and "no_empty s ts" and "packet s p_from fs" and "no_empty s fs"
    and "plen s fs \<le> plen s ts" and "regions_ok s ts" and "space s ts \<inter> space s fs = {}"
  shows "\<exists>m. pbuf_copy debug p_to p_from s = Returns (ERR_OK, s\<lparr>bytes := m\<rparr>)
    \<and> data_in s m ts = pdata s fs @ drop (plen s fs) (pdata s ts) \<and> (\<forall>a. a \<notin> space s ts \<longrightarrow> m a = bytes s a)"
  by (rule pbuf_copy_copies [OF assms]) blast

theorem pbuf_copy_same_data_witness:
  "\<exists>m. pbuf_copy False 8 24 two_pbufs = Returns (ERR_OK, two_pbufs\<lparr>bytes := m\<rparr>)
     \<and> rd m 1000 3 = map of_nat [3000, 3001, 3002] \<and> rd m 2000 4 = map of_nat [3003, 3004, 2002, 2003]"
proof -
  have ne: "no_empty two_pbufs [8, 16]" "no_empty two_pbufs [24]" by (simp_all add: no_empty_def two_pbufs_def)
  have le: "plen two_pbufs [24] \<le> plen two_pbufs [8, 16]" unfolding two_pbufs_packet(2,6) by simp
  have sp: "space two_pbufs [8, 16] \<inter> space two_pbufs [24] = {}" unfolding two_pbufs_packet(4,7) by auto
  obtain m where m: "pbuf_copy False 8 24 two_pbufs = Returns (ERR_OK, two_pbufs\<lparr>bytes := m\<rparr>)"
    "data_in two_pbufs m [8, 16] = pdata two_pbufs [24] @ drop (plen two_pbufs [24]) (pdata two_pbufs [8, 16])"
    using pbuf_copy_same_data [OF two_pbufs_packet(1) ne(1) two_pbufs_packet(5) ne(2) le two_pbufs_packet(3) sp, of False] by blast
  have "rd m 1000 3 @ rd m 2000 4 = map of_nat [3000, 3001, 3002] @ map of_nat [3003, 3004, 2002, 2003]"
    using m(2) by (simp add: two_pbufs_def rd_def upt_rec)
  then have "rd m 1000 3 = map of_nat [3000, 3001, 3002] \<and> rd m 2000 4 = map of_nat [3003, 3004, 2002, 2003]"
    by (subst (asm) append_eq_append_conv) simp_all
  then show ?thesis using m(1) by blast
qed

text \<open>
  C37. \<open>pbuf_memfind\<close> returns the first position at or behind \<open>start\<close> where the pattern is in the data of
  the packet, across pbuf boundaries, and \<open>0xFFFF\<close> when there is none.
\<close>

theorem pbuf_memfind_first:
  assumes "packet s p qs"
  shows "pbuf_memfind p mem k start s = Returns
    (case find (occurs_at (rd (bytes s) mem (unat k)) (pdata s qs)) [unat start..<Suc (plen s qs)] of
       Some i \<Rightarrow> of_nat i | None \<Rightarrow> 0xFFFF)"
  by (rule pbuf_memfind_finds [OF assms])

theorem pbuf_memfind_first_witness:
  "pbuf_memfind 8 2000 2 1 two_pbufs = Returns 3"
proof -
  have f: "find (occurs_at (rd (bytes two_pbufs) 2000 2) (pdata two_pbufs [8, 16])) [1..<Suc 7] = Some 3"
    by (simp add: two_pbufs_def rd_def upt_rec occurs_at_def)
  have u: "unat (2 :: u16) = 2" "unat (1 :: u16) = 1" by simp_all
  show ?thesis
    using pbuf_memfind_first [OF two_pbufs_packet(1), of 2000 2 1] by (simp only: two_pbufs_packet(2) u f option.case) simp
qed

end
