(* ===== verification/Pbuf_Mem.thy ===== *)
theory Pbuf_Mem
  imports Pbuf_Spec Mem_Run
begin

text \<open>
  The memory pbufs come from: \<open>mem_ok s L\<close> says that the two pools of pbufs and the heap are intact
  and that \<open>L\<close> are exactly the pbufs taken out of them. Giving a pbuf back and taking one out keep
  it, wherever the memory comes from.
\<close>

section \<open>Memory of pbufs\<close>

definition pool_elems :: "memp_desc \<Rightarrow> nat set" where
  "pool_elems desc = (\<lambda>i. LWIP_MEM_ALIGN (d_base desc) + i * memp_stride desc) ` {..<unat (d_num desc)}"

definition pool_of :: "pbuf_type \<Rightarrow> memp_t option" where
  "pool_of ty = (case ty of PBUF_RAM \<Rightarrow> None | PBUF_ROM \<Rightarrow> Some MEMP_PBUF | PBUF_REF \<Rightarrow> Some MEMP_PBUF
     | PBUF_POOL \<Rightarrow> Some MEMP_PBUF_POOL)"

definition of_pool :: "lwip \<Rightarrow> nat set \<Rightarrow> memp_t option \<Rightarrow> nat set" where
  "of_pool s L ty = {p \<in> L. pool_of (pb_type (pbufs s p)) = ty}"

text \<open>A pool: its elements are the free ones and, behind their \<open>struct memp\<close>, the used ones.\<close>

definition pool_ok :: "memps \<Rightarrow> memory \<Rightarrow> memp_t \<Rightarrow> nat set \<Rightarrow> bool" where
  "pool_ok st m ty used \<longleftrightarrow>
     (\<exists>xs. pool_free st ty xs \<and> set xs \<inter> (\<lambda>p. p - 28) ` used = {}
        \<and> set xs \<union> (\<lambda>p. p - 28) ` used = pool_elems (memp_pools st ty))
     \<and> (\<forall>p\<in>used. 28 \<le> p) \<and> (\<forall>e\<in>pool_elems (memp_pools st ty). 0 < e \<and> guards_ok (memp_pools st ty) m e)"

text \<open>The arrays of the two pools and the heap are different memory.\<close>

definition layout_ok :: "memps \<Rightarrow> nat \<Rightarrow> bool" where
  "layout_ok st r \<longleftrightarrow> pool_elems (memp_pools st MEMP_PBUF) \<inter> pool_elems (memp_pools st MEMP_PBUF_POOL) = {}
     \<and> (\<forall>e\<in>pool_elems (memp_pools st MEMP_PBUF) \<union> pool_elems (memp_pools st MEMP_PBUF_POOL). e + 28 \<notin> {r..<r + 16384})"

definition mem_ok :: "lwip \<Rightarrow> nat set \<Rightarrow> bool" where
  "mem_ok s L \<longleftrightarrow> finite L \<and> 0 \<notin> L \<and> layout_ok (memps_of s) (ram (heap_of s))
     \<and> pool_ok (memps_of s) (bytes s) MEMP_PBUF (of_pool s L (Some MEMP_PBUF))
     \<and> pool_ok (memps_of s) (bytes s) MEMP_PBUF_POOL (of_pool s L (Some MEMP_PBUF_POOL))
     \<and> (\<exists>live. mem_state (heap_of s) live \<and> dom live = of_pool s L None)"

lemma pool_ok_cong:
  assumes "pool_ok st m ty used" and "memp_tab st' ty = memp_tab st ty" and "memp_pools st' = memp_pools st"
    and "\<And>e. e \<in> pool_elems (memp_pools st ty) \<Longrightarrow> memp_next st' e = memp_next st e"
  shows "pool_ok st' m ty used"
proof -
  obtain xs where x: "pool_free st ty xs" "set xs \<inter> (\<lambda>p. p - 28) ` used = {}"
    "set xs \<union> (\<lambda>p. p - 28) ` used = pool_elems (memp_pools st ty)"
    using assms(1) by (auto simp: pool_ok_def)
  have "pool_free st' ty xs"
    using links_cong [OF x(1) [unfolded pool_free_def], of "memp_next st'"] assms(2,4) x(3) by (auto simp: pool_free_def)
  then show ?thesis using x(2,3) assms(1,3) by (auto simp: pool_ok_def)
qed

text \<open>Taking an element out of a pool and giving one back.\<close>

lemma pool_take:
  assumes ok: "pool_ok st m ty used" and ne: "memp_tab st ty \<noteq> 0"
  obtains st' where "memp_malloc debug ty m st = Returns (memp_tab st ty + 28, st')"
    "pool_ok st' m ty (insert (memp_tab st ty + 28) used)" "memp_tab st ty + 28 \<notin> used"
    "memp_tab st ty \<in> pool_elems (memp_pools st ty)" "memp_pools st' = memp_pools st"
    "\<forall>ty'. ty' \<noteq> ty \<longrightarrow> memp_tab st' ty' = memp_tab st ty'"
    "\<forall>e. e \<noteq> memp_tab st ty \<longrightarrow> memp_next st' e = memp_next st e"
proof -
  obtain xs where x: "pool_free st ty xs" "set xs \<inter> (\<lambda>p. p - 28) ` used = {}"
    "set xs \<union> (\<lambda>p. p - 28) ` used = pool_elems (memp_pools st ty)"
    using ok by (auto simp: pool_ok_def)
  let ?e = "memp_tab st ty"
  obtain ys where ys: "xs = ?e # ys" using x(1) ne by (cases xs) (auto simp: pool_free_def)
  have e: "?e \<in> pool_elems (memp_pools st ty)" using x(3) ys by (metis UnI1 list.set_intros(1))
  have g: "guards_ok (memp_pools st ty) m ?e" using ok e by (simp add: pool_ok_def)
  define st' where "st' = st\<lparr>memp_tab := (memp_tab st)(ty := memp_next st ?e), memp_next := (memp_next st)(?e := 0)\<rparr>"
  note P = memp_malloc_pops(1) [OF x(1) [unfolded ys] g, of debug, folded st'_def]
    and P2 = memp_malloc_pops(2) [OF x(1) [unfolded ys] g, folded st'_def]
  have d: "distinct (?e # ys)" using links_distinct [OF x(1) [unfolded pool_free_def ys]] .
  have nu: "?e + 28 \<notin> used"
  proof
    assume "?e + 28 \<in> used"
    then have "?e \<in> (\<lambda>p. p - 28) ` used" by (metis add_diff_cancel_right' imageI)
    then show False using x(2) ys by (metis IntI emptyE list.set_intros(1))
  qed
  have "pool_ok st' m ty (insert (?e + 28) used)"
    unfolding pool_ok_def
  proof (intro conjI exI [of _ ys])
    show "pool_free st' ty ys" by (rule P2)
    show "set ys \<inter> (\<lambda>p. p - 28) ` insert (?e + 28) used = {}" using x(2) ys d by auto
    show "set ys \<union> (\<lambda>p. p - 28) ` insert (?e + 28) used = pool_elems (memp_pools st' ty)"
      using x(3) ys by (auto simp: st'_def)
  qed (use ok in \<open>auto simp: pool_ok_def st'_def\<close>)
  then show ?thesis using that [of st'] P nu e by (simp add: st'_def)
qed

lemma pool_take_empty:
  assumes "pool_ok st m ty used" and "memp_tab st ty = 0"
  shows "memp_malloc debug ty m st = (if debug then Returns (0, st) else Asserts)"
    and "(\<lambda>p. p - 28) ` used = pool_elems (memp_pools st ty)"
proof -
  obtain xs where x: "pool_free st ty xs" "set xs \<union> (\<lambda>p. p - 28) ` used = pool_elems (memp_pools st ty)"
    using assms(1) by (auto simp: pool_ok_def)
  have "xs = []" using x(1) assms(2) by (cases xs) (auto simp: pool_free_def)
  then show "memp_malloc debug ty m st = (if debug then Returns (0, st) else Asserts)"
    "(\<lambda>p. p - 28) ` used = pool_elems (memp_pools st ty)"
    using x memp_malloc_empty by auto
qed

lemma pool_give:
  assumes ok: "pool_ok st m ty used" and p: "p \<in> used"
  obtains st' where "memp_free debug ty p m st = Returns st'" "pool_ok st' m ty (used - {p})"
    "p - 28 \<in> pool_elems (memp_pools st ty)" "memp_pools st' = memp_pools st"
    "\<forall>ty'. ty' \<noteq> ty \<longrightarrow> memp_tab st' ty' = memp_tab st ty'"
    "\<forall>e. e \<noteq> p - 28 \<longrightarrow> memp_next st' e = memp_next st e"
proof -
  obtain xs where x: "pool_free st ty xs" "set xs \<inter> (\<lambda>p. p - 28) ` used = {}"
    "set xs \<union> (\<lambda>p. p - 28) ` used = pool_elems (memp_pools st ty)"
    using ok by (auto simp: pool_ok_def)
  let ?e = "p - 28"
  have e: "?e \<in> pool_elems (memp_pools st ty)" using x(3) p by auto
  have p28: "28 \<le> p" "\<forall>q\<in>used. 28 \<le> q" using ok p by (auto simp: pool_ok_def)
  have g: "guards_ok (memp_pools st ty) m ?e" "0 < ?e" using ok e by (auto simp: pool_ok_def)
  have n: "?e \<notin> set xs" using x(2) p by auto
  define st' where "st' = st\<lparr>memp_next := (memp_next st)(?e := memp_tab st ty), memp_tab := (memp_tab st)(ty := ?e)\<rparr>"
  note P = memp_free_pushes(1) [OF x(1) g n, of debug, folded st'_def]
    and P2 = memp_free_pushes(2) [OF x(1) g n, folded st'_def]
  have inj: "(\<lambda>p. p - 28) ` (used - {p}) = (\<lambda>p. p - 28) ` used - {?e}"
  proof -
    have "inj_on (\<lambda>p. p - 28) used" using p28(2) by (auto simp: inj_on_def) (metis le_add_diff_inverse2)
    then show ?thesis using p by (simp add: inj_on_image_set_diff [of _ used])
  qed
  have "pool_ok st' m ty (used - {p})"
    unfolding pool_ok_def inj
  proof (intro conjI exI [of _ "?e # xs"])
    show "pool_free st' ty (?e # xs)" by (rule P2)
    show "set (?e # xs) \<inter> ((\<lambda>p. p - 28) ` used - {?e}) = {}" using x(2) by auto
    show "set (?e # xs) \<union> ((\<lambda>p. p - 28) ` used - {?e}) = pool_elems (memp_pools st' ty)"
      using x(3) e by (auto simp: st'_def)
  qed (use ok in \<open>auto simp: pool_ok_def st'_def\<close>)
  moreover have "?e + 28 = p" using p28(1) by simp
  ultimately show ?thesis using that [of st'] P e by (simp add: st'_def)
qed

section \<open>Taking and giving back the memory of a pbuf\<close>

lemma of_pool_cong:
  fixes s s' :: lwip
  shows "(\<And>p. p \<in> L \<Longrightarrow> pb_type (pbufs s' p) = pb_type (pbufs s p)) \<Longrightarrow> of_pool s' L ty = of_pool s L ty"
  by (auto simp: of_pool_def)

lemma mem_ok_cong:
  assumes "mem_ok s L" and "memps_of s' = memps_of s" and "heap_of s' = heap_of s" and "bytes s' = bytes s"
    and "\<And>p. p \<in> L \<Longrightarrow> pb_type (pbufs s' p) = pb_type (pbufs s p)"
  shows "mem_ok s' L"
proof -
  have "of_pool s' L ty = of_pool s L ty" for ty by (rule of_pool_cong) (fact assms(5))
  then show ?thesis using assms(1) by (simp add: mem_ok_def assms(2-4))
qed

lemma of_pool_remove:
  "of_pool s (L - {p}) ty = (if p \<in> L \<and> pool_of (pb_type (pbufs s p)) = ty then of_pool s L ty - {p} else of_pool s L ty)"
  by (auto simp: of_pool_def)

lemma of_pool_insert:
  "of_pool s (insert p L) ty = (if pool_of (pb_type (pbufs s p)) = ty then insert p (of_pool s L ty) else of_pool s L ty)"
  by (auto simp: of_pool_def)

lemma pool_of_cases: "pool_of ty = None \<or> pool_of ty = Some MEMP_PBUF \<or> pool_of ty = Some MEMP_PBUF_POOL"
  by (cases ty) (simp_all add: pool_of_def)

abbreviation other_pool :: "memp_t \<Rightarrow> memp_t" where
  "other_pool mt \<equiv> (if mt = MEMP_PBUF then MEMP_PBUF_POOL else MEMP_PBUF)"

lemma mem_okD:
  assumes "mem_ok s L" and "mt = MEMP_PBUF \<or> mt = MEMP_PBUF_POOL"
  shows "pool_ok (memps_of s) (bytes s) mt (of_pool s L (Some mt))"
    and "pool_ok (memps_of s) (bytes s) (other_pool mt) (of_pool s L (Some (other_pool mt)))"
    and "pool_elems (memp_pools (memps_of s) mt) \<inter> pool_elems (memp_pools (memps_of s) (other_pool mt)) = {}"
    and "\<forall>e\<in>pool_elems (memp_pools (memps_of s) mt). e + 28 \<notin> {ram (heap_of s)..<ram (heap_of s) + 16384}"
  using assms by (auto simp: mem_ok_def layout_ok_def)

text \<open>Every step on the pools leaves the layout, the other pool and the heap alone.\<close>

lemma mem_ok_pools:
  assumes ok: "mem_ok s L" and mt: "mt = MEMP_PBUF \<or> mt = MEMP_PBUF_POOL"
    and st: "pool_ok st (bytes s) mt (of_pool s' L' (Some mt))" "memp_pools st = memp_pools (memps_of s)"
      "\<forall>ty. ty \<noteq> mt \<longrightarrow> memp_tab st ty = memp_tab (memps_of s) ty"
      "e \<in> pool_elems (memp_pools (memps_of s) mt)" "\<forall>x. x \<noteq> e \<longrightarrow> memp_next st x = memp_next (memps_of s) x"
    and s': "memps_of s' = st" "heap_of s' = heap_of s" "bytes s' = bytes s" "finite L'" "0 \<notin> L'"
      "of_pool s' L' (Some (other_pool mt)) = of_pool s L (Some (other_pool mt))" "of_pool s' L' None = of_pool s L None"
  shows "mem_ok s' L'"
proof -
  have "pool_ok st (bytes s) (other_pool mt) (of_pool s L (Some (other_pool mt)))"
    by (rule pool_ok_cong [OF mem_okD(2) [OF ok mt]]) (use st mt mem_okD(3) [OF ok mt] in auto)
  then show ?thesis
    using ok mt st(1,2) s' by (auto simp: mem_ok_def layout_ok_def)
qed

lemma pbuf_dealloc_ok:
  assumes ok: "mem_ok s L" and p: "p \<in> L"
  obtains s' where "pbuf_dealloc debug p s = Returns s'" "mem_ok s' (L - {p})" "pbufs s' = pbufs s" "bytes s' = bytes s"
proof (cases "pool_of (pb_type (pbufs s p))")
  case None
  then have ty: "pb_type (pbufs s p) = PBUF_RAM" by (cases "pb_type (pbufs s p)") (simp_all add: pool_of_def)
  obtain live where live: "mem_state (heap_of s) live" "dom live = of_pool s L None" using ok by (auto simp: mem_ok_def)
  have "p \<in> dom live" using p None live(2) by (simp add: of_pool_def)
  then obtain n where "live p = Some n" by blast
  then obtain h' where h': "mem_free debug p (heap_of s) = Returns h'" "mem_state h' (live(p := None))" "ram h' = ram (heap_of s)"
    using free_state [OF live(1), of p n debug] by blast
  have "mem_ok (s\<lparr>heap_of := h'\<rparr>) (L - {p})"
  proof -
    have o: "of_pool (s\<lparr>heap_of := h'\<rparr>) (L - {p}) ty = of_pool s (L - {p}) ty" for ty by (simp add: of_pool_def)
    have "dom (live(p := None)) = of_pool s (L - {p}) None" using live(2) p None by (simp add: of_pool_remove)
    then have "\<exists>live. mem_state h' live \<and> dom live = of_pool s (L - {p}) None" using h'(2) by blast
    then show ?thesis using ok h'(3) None unfolding mem_ok_def o by (simp add: of_pool_remove)
  qed
  then show ?thesis using that [of "s\<lparr>heap_of := h'\<rparr>"] h'(1) ty by (simp add: pbuf_dealloc_def)
next
  case (Some mt)
  then have mt: "mt = MEMP_PBUF \<or> mt = MEMP_PBUF_POOL" using pool_of_cases [of "pb_type (pbufs s p)"] by auto
  have pm: "p \<in> of_pool s L (Some mt)" using p Some by (simp add: of_pool_def)
  obtain st where st: "memp_free debug mt p (bytes s) (memps_of s) = Returns st"
    "pool_ok st (bytes s) mt (of_pool s L (Some mt) - {p})" "p - 28 \<in> pool_elems (memp_pools (memps_of s) mt)"
    "memp_pools st = memp_pools (memps_of s)" "\<forall>ty. ty \<noteq> mt \<longrightarrow> memp_tab st ty = memp_tab (memps_of s) ty"
    "\<forall>e. e \<noteq> p - 28 \<longrightarrow> memp_next st e = memp_next (memps_of s) e"
    by (rule pool_give [OF mem_okD(1) [OF ok mt] pm])
  let ?s = "s\<lparr>memps_of := st\<rparr>"
  have o: "of_pool ?s M ty = of_pool s M ty" for M ty by (simp add: of_pool_def)
  have "mem_ok ?s (L - {p})"
    by (rule mem_ok_pools [OF ok mt, of st])
      (use ok st p Some mt in \<open>auto simp: o of_pool_remove mem_ok_def\<close>)
  moreover have "pbuf_dealloc debug p s = Returns ?s"
    using st(1) Some by (cases "pb_type (pbufs s p)") (auto simp: pbuf_dealloc_def pool_of_def)
  ultimately show ?thesis using that [of ?s] by simp
qed

lemma pool_malloc_ok:
  assumes ok: "mem_ok s L" and mt: "mt = MEMP_PBUF \<or> mt = MEMP_PBUF_POOL"
    and ne: "memp_tab (memps_of s) mt \<noteq> 0"
  obtains q st where "pool_malloc debug mt s = Returns (q, s\<lparr>memps_of := st\<rparr>)" "q \<noteq> 0" "q \<notin> L"
    "q mod 4 = 0"
    "\<forall>s' :: lwip. memps_of s' = st \<and> heap_of s' = heap_of s \<and> bytes s' = bytes s \<and> pool_of (pb_type (pbufs s' q)) = Some mt
       \<and> (\<forall>p\<in>L. pb_type (pbufs s' p) = pb_type (pbufs s p)) \<longrightarrow> mem_ok s' (insert q L)"
proof -
  let ?e = "memp_tab (memps_of s) mt"
  obtain st where st: "memp_malloc debug mt (bytes s) (memps_of s) = Returns (?e + 28, st)"
    "pool_ok st (bytes s) mt (insert (?e + 28) (of_pool s L (Some mt)))" "?e + 28 \<notin> of_pool s L (Some mt)"
    "?e \<in> pool_elems (memp_pools (memps_of s) mt)" "memp_pools st = memp_pools (memps_of s)"
    "\<forall>ty. ty \<noteq> mt \<longrightarrow> memp_tab st ty = memp_tab (memps_of s) ty"
    "\<forall>e. e \<noteq> ?e \<longrightarrow> memp_next st e = memp_next (memps_of s) e"
    by (rule pool_take [OF mem_okD(1) [OF ok mt] ne])
  have q: "?e + 28 \<notin> L"
  proof
    assume m: "?e + 28 \<in> L"
    consider "pool_of (pb_type (pbufs s (?e + 28))) = Some mt" | "pool_of (pb_type (pbufs s (?e + 28))) = Some (other_pool mt)"
      | "pool_of (pb_type (pbufs s (?e + 28))) = None"
      using pool_of_cases [of "pb_type (pbufs s (?e + 28))"] mt by auto
    then show False
    proof cases
      case 1
      then show ?thesis using m st(3) by (simp add: of_pool_def)
    next
      case 2
      then have "?e + 28 \<in> of_pool s L (Some (other_pool mt))" using m by (simp add: of_pool_def)
      then have "?e \<in> pool_elems (memp_pools (memps_of s) (other_pool mt))"
        using mem_okD(2) [OF ok mt] unfolding pool_ok_def by (metis UnI2 add_diff_cancel_right' imageI)
      then show ?thesis using mem_okD(3) [OF ok mt] st(4) by auto
    next
      case 3
      obtain live where live: "mem_state (heap_of s) live" "dom live = of_pool s L None" using ok by (auto simp: mem_ok_def)
      have "?e + 28 \<in> dom live" using 3 m live(2) by (simp add: of_pool_def)
      then have "?e + 28 \<in> {ram (heap_of s)..<ram (heap_of s) + 16384}" using live_inside [OF live(1)] by simp
      then show ?thesis using mem_okD(4) [OF ok mt] st(4) by blast
    qed
  qed
  have "?e mod 4 = 0" using mem_okD(1) [OF ok mt] st(4) by (simp add: pool_ok_def guards_ok_def)
  then have al: "(?e + 28) mod 4 = 0" by presburger
  show ?thesis
  proof (rule that [of "?e + 28" st])
    show "pool_malloc debug mt s = Returns (?e + 28, s\<lparr>memps_of := st\<rparr>)" using st(1) by (simp add: pool_malloc_def)
    show "\<forall>s' :: lwip. memps_of s' = st \<and> heap_of s' = heap_of s \<and> bytes s' = bytes s \<and> pool_of (pb_type (pbufs s' (?e + 28))) = Some mt
       \<and> (\<forall>p\<in>L. pb_type (pbufs s' p) = pb_type (pbufs s p)) \<longrightarrow> mem_ok s' (insert (?e + 28) L)"
    proof (intro allI impI, elim conjE)
    fix s' :: lwip
    assume a: "memps_of s' = st" "heap_of s' = heap_of s" "bytes s' = bytes s"
      "pool_of (pb_type (pbufs s' (?e + 28))) = Some mt" "\<forall>p\<in>L. pb_type (pbufs s' p) = pb_type (pbufs s p)"
    have o: "of_pool s' L t = of_pool s L t" for t by (rule of_pool_cong) (use a(5) in blast)
    show "mem_ok s' (insert (?e + 28) L)"
      by (rule mem_ok_pools [OF ok mt _ st(5,6,4,7) a(1-3)])
        (use ok st mt a(4) in \<open>auto simp: o of_pool_insert mem_ok_def\<close>)
    qed
  qed (use q al in auto)
qed

text \<open>The same for a pbuf of the heap.\<close>

lemma heap_malloc_ok:
  assumes ok: "mem_ok s L" and n: "unat n \<le> 65532"
  obtains q h where "mem_malloc debug n (heap_of s) = Returns (q, h)"
    "q = 0 \<Longrightarrow> mem_ok (s\<lparr>heap_of := h\<rparr>) L"
    "q \<noteq> 0 \<Longrightarrow> q \<notin> L"
    "q \<noteq> 0 \<Longrightarrow> \<forall>s' :: lwip. memps_of s' = memps_of s \<and> heap_of s' = h \<and> bytes s' = bytes s
       \<and> pb_type (pbufs s' q) = PBUF_RAM \<and> (\<forall>p\<in>L. pb_type (pbufs s' p) = pb_type (pbufs s p)) \<longrightarrow> mem_ok s' (insert q L)"
proof -
  obtain live where live: "mem_state (heap_of s) live" "dom live = of_pool s L None" using ok by (auto simp: mem_ok_def)
  obtain q h where h: "mem_malloc debug n (heap_of s) = Returns (q, h)"
    "mem_state h (if q = 0 then live else live(q \<mapsto> unat n))" "ram h = ram (heap_of s)" "q \<noteq> 0 \<longrightarrow> q \<notin> dom live"
    using malloc_state [OF live(1) n] by blast
  have q: "q \<notin> L" if "q \<noteq> 0"
  proof
    assume m: "q \<in> L"
    have "q \<in> {ram h..<ram h + 16384}" using live_inside [OF h(2), of q] that by simp
    moreover have "pool_of (pb_type (pbufs s q)) \<noteq> None" using m that h(4) live(2) by (auto simp: of_pool_def)
    then obtain mt where mt: "pool_of (pb_type (pbufs s q)) = Some mt" "mt = MEMP_PBUF \<or> mt = MEMP_PBUF_POOL"
      using pool_of_cases [of "pb_type (pbufs s q)"] by auto
    then have "q \<in> of_pool s L (Some mt)" using m by (simp add: of_pool_def)
    then have "q - 28 \<in> pool_elems (memp_pools (memps_of s) mt)" "28 \<le> q"
      using mem_okD(1) [OF ok mt(2)] unfolding pool_ok_def by blast+
    ultimately show False using mem_okD(4) [OF ok mt(2)] h(3) by fastforce
  qed
  show ?thesis
  proof (rule that [of q h])
    show "mem_ok (s\<lparr>heap_of := h\<rparr>) L" if "q = 0"
    proof -
      have o: "of_pool (s\<lparr>heap_of := h\<rparr>) L t = of_pool s L t" for t by (rule of_pool_cong) simp
      show ?thesis using ok that h live(2) unfolding mem_ok_def o by auto
    qed
    assume "q \<noteq> 0"
    show "\<forall>s' :: lwip. memps_of s' = memps_of s \<and> heap_of s' = h \<and> bytes s' = bytes s
       \<and> pb_type (pbufs s' q) = PBUF_RAM \<and> (\<forall>p\<in>L. pb_type (pbufs s' p) = pb_type (pbufs s p)) \<longrightarrow> mem_ok s' (insert q L)"
    proof (intro allI impI, elim conjE)
    fix s' :: lwip
    assume "memps_of s' = memps_of s" "heap_of s' = h" "bytes s' = bytes s"
      "pb_type (pbufs s' q) = PBUF_RAM" "\<forall>p\<in>L. pb_type (pbufs s' p) = pb_type (pbufs s p)"
    note a = \<open>q \<noteq> 0\<close> this
    have o: "of_pool s' L t = of_pool s L t" for t by (rule of_pool_cong) (use a(6) in blast)
    have d: "dom (live(q \<mapsto> unat n)) = of_pool s' (insert q L) None"
      using live(2) a(5) by (simp add: of_pool_insert o pool_of_def)
    have p: "of_pool s' (insert q L) (Some t) = of_pool s L (Some t)" for t
      using a(5) by (simp add: of_pool_insert o pool_of_def)
    show "mem_ok s' (insert q L)"
    proof -
      have "\<exists>live. mem_state (heap_of s') live \<and> dom live = of_pool s' (insert q L) None"
        using h(2) a(1,3) d by (intro exI [of _ "live(q \<mapsto> unat n)"]) auto
      then show ?thesis using ok a(1-4) h(3) unfolding mem_ok_def p by simp
    qed
    qed
  qed (use h q in auto)
qed

end
