(* ===== verification/Pbuf_Refs.thy ===== *)
theory Pbuf_Refs
  imports Pbuf_Mem
begin

text \<open>
  Who owns a pbuf: the reference counts of \<open>pbuf.c\<close>. \<open>counted s L H\<close> is the promise of
  \<open>lwip/pbuf.h\<close> that the count of a pbuf is the number of pointers to it: the \<open>H p\<close> pointers that
  clients hold, and the \<open>next\<close> pointers of the pbufs in \<open>L\<close>. \<open>owned\<close> adds that the memory is intact
  and that every chain ends.
\<close>

section \<open>Counts\<close>

definition preds :: "lwip \<Rightarrow> nat set \<Rightarrow> nat \<Rightarrow> nat set" where
  "preds s L p = {r \<in> L. pb_next (pbufs s r) = p}"

definition counted :: "lwip \<Rightarrow> nat set \<Rightarrow> (nat \<Rightarrow> nat) \<Rightarrow> bool" where
  "counted s L H \<longleftrightarrow> (\<forall>p\<in>L. unat (ref (pbufs s p)) = H p + card (preds s L p) \<and> 0 < ref (pbufs s p))
     \<and> (\<forall>r\<in>L. pb_next (pbufs s r) \<in> insert 0 L) \<and> (\<forall>p. p \<notin> L \<longrightarrow> H p = 0)"

text \<open>One pointer more, one pointer less.\<close>

definition hold :: "nat \<Rightarrow> (nat \<Rightarrow> nat) \<Rightarrow> nat \<Rightarrow> nat" where
  "hold p H = (if p = 0 then H else H(p := H p + 1))"
definition drop_ptr :: "nat \<Rightarrow> (nat \<Rightarrow> nat) \<Rightarrow> nat \<Rightarrow> nat" where
  "drop_ptr p H = H(p := H p - 1)"

text \<open>Only counts differ.\<close>

definition only_refs :: "lwip \<Rightarrow> lwip \<Rightarrow> bool" where
  "only_refs s s' \<longleftrightarrow> bytes s' = bytes s \<and> (\<forall>r. pbufs s' r = (pbufs s r)\<lparr>ref := ref (pbufs s' r)\<rparr>)"

lemma only_refs_eq: "only_refs s s' \<Longrightarrow> pb_next (pbufs s' r) = pb_next (pbufs s r)"
  "only_refs s s' \<Longrightarrow> pb_type (pbufs s' r) = pb_type (pbufs s r)"
  "only_refs s s' \<Longrightarrow> payload (pbufs s' r) = payload (pbufs s r)"
  "only_refs s s' \<Longrightarrow> len (pbufs s' r) = len (pbufs s r)"
  "only_refs s s' \<Longrightarrow> tot_len (pbufs s' r) = tot_len (pbufs s r)"
  unfolding only_refs_def by (metis pbuf.select_convs pbuf.ext_inject pbuf.surjective pbuf.update_convs(7))+

lemma only_refs_refl [simp]: "bytes s' = bytes s \<Longrightarrow> pbufs s' = pbufs s \<Longrightarrow> only_refs s s'"
  by (simp add: only_refs_def)

lemma only_refs_trans: "only_refs s t \<Longrightarrow> only_refs t u \<Longrightarrow> only_refs s u"
  unfolding only_refs_def by (metis pbuf.surjective pbuf.update_convs(7))

lemma counted_cong:
  assumes "counted s L H"
    and "\<And>p. p \<in> L \<Longrightarrow> ref (pbufs s' p) = ref (pbufs s p) \<and> pb_next (pbufs s' p) = pb_next (pbufs s p)"
  shows "counted s' L H"
proof -
  have "preds s' L p = preds s L p" for p using assms(2) by (auto simp: preds_def)
  then show ?thesis using assms by (simp add: counted_def)
qed

lemma countedD:
  assumes "counted s L H"
  shows "p \<in> L \<Longrightarrow> unat (ref (pbufs s p)) = H p + card (preds s L p)" and "p \<in> L \<Longrightarrow> 0 < ref (pbufs s p)"
    and "p \<in> L \<Longrightarrow> pb_next (pbufs s p) \<noteq> 0 \<Longrightarrow> pb_next (pbufs s p) \<in> L" and "0 < H p \<Longrightarrow> p \<in> L"
  using assms by (auto simp: counted_def)

text \<open>The last pointer to a pbuf is gone: its memory goes, and its \<open>next\<close> pointer is held instead.\<close>

lemma counted_last:
  assumes c: "counted s L H" and f: "finite L" "0 \<notin> L" and p: "p \<in> L" "0 < H p" "ref (pbufs s p) = 1"
  shows "counted s (L - {p}) (hold (pb_next (pbufs s p)) (drop_ptr p H))" and "H p = 1" and "pb_next (pbufs s p) \<noteq> p"
proof -
  let ?q = "pb_next (pbufs s p)"
  have fp: "finite (preds s L r)" for r using f(1) by (simp add: preds_def)
  have one: "H p + card (preds s L p) = 1" using countedD(1) [OF c p(1)] p(3) by simp
  then show H: "H p = 1" using p(2) by simp
  then have e: "preds s L p = {}" using one fp by simp
  then show np: "?q \<noteq> p" using p(1) by (auto simp: preds_def)
  have pr: "preds s (L - {p}) r = preds s L r - {p}" for r by (auto simp: preds_def)
  have m: "p \<in> preds s L r \<longleftrightarrow> r = ?q" for r using p(1) by (auto simp: preds_def)
  have k: "card (preds s L r) = card (preds s L r - {p}) + (if r = ?q then 1 else 0)" for r
    using fp [of r] m [of r] card.remove [of "preds s L r" p] by (cases "r = ?q") simp_all
  show "counted s (L - {p}) (hold ?q (drop_ptr p H))"
    unfolding counted_def
  proof (intro conjI ballI allI impI)
    fix r assume r: "r \<in> L - {p}"
    have "r \<noteq> 0" using r f(2) by (metis DiffD1)
    have "r \<noteq> p" using r by blast
    then show "unat (ref (pbufs s r)) = hold ?q (drop_ptr p H) r + card (preds s (L - {p}) r)"
      using countedD(1) [OF c, of r] r k [of r] np \<open>r \<noteq> 0\<close> \<open>r \<noteq> p\<close> by (simp add: pr hold_def drop_ptr_def)
    show "0 < ref (pbufs s r)" using countedD(2) [OF c, of r] r by simp
    show "pb_next (pbufs s r) \<in> insert 0 (L - {p})" using countedD(3) [OF c, of r] r e by (auto simp: preds_def)
  next
    fix r assume r: "r \<notin> L - {p}"
    then have n: "?q = 0 \<or> r \<noteq> ?q" using countedD(3) [OF c p(1)] np by blast
    have d: "drop_ptr p H r = 0" using r H c by (cases "r = p") (simp_all add: drop_ptr_def counted_def)
    show "hold ?q (drop_ptr p H) r = 0"
    proof (cases "?q = 0")
      case True
      then show ?thesis using d by (simp add: hold_def)
    next
      case False
      then have "r \<noteq> ?q" using n by blast
      then show ?thesis using d False by (simp only: hold_def if_False fun_upd_apply)
    qed
  qed
qed

text \<open>Counting a pointer up or down.\<close>

lemma counted_drop:
  assumes c: "counted s L H" and p: "0 < H p" "ref (pbufs s p) \<noteq> 1"
  shows "counted (set_pbuf p (\<lambda>b. b\<lparr>ref := ref b - 1\<rparr>) s) L (drop_ptr p H)"
proof -
  have m: "p \<in> L" by (rule countedD(4) [OF c p(1)])
  have "unat (ref (pbufs s p)) \<noteq> 1" using p(2) by (simp add: word_unat_eq_iff)
  then have u: "unat (ref (pbufs s p) - 1) = unat (ref (pbufs s p)) - 1" "0 < ref (pbufs s p) - 1"
    using countedD(2) [OF c m] unat_minus_one [of "ref (pbufs s p)"] by (auto simp: word_less_nat_alt word_neq_0_conv)
  have "preds (set_pbuf p (\<lambda>b. b\<lparr>ref := ref b - 1\<rparr>) s) L r = preds s L r" for r by (auto simp: preds_def)
  then show ?thesis using c p(1) u countedD(1) [OF c m] unfolding counted_def by (auto simp: drop_ptr_def)
qed

lemma counted_hold:
  assumes c: "counted s L H" and p: "p \<in> L" "ref (pbufs s p) \<noteq> 0xffff" "0 \<notin> L"
  shows "counted (set_pbuf p (\<lambda>b. b\<lparr>ref := ref b + 1\<rparr>) s) L (hold p H)" and "ref (pbufs s p) + 1 > 0"
proof -
  have "ref (pbufs s p) + 1 \<noteq> 0"
  proof
    assume "ref (pbufs s p) + 1 = 0"
    then have "ref (pbufs s p) = -1" by (simp add: eq_neg_iff_add_eq_0)
    then show False using p(2) by simp
  qed
  then have u: "unat (ref (pbufs s p) + 1) = unat (ref (pbufs s p)) + 1" "0 < ref (pbufs s p) + 1"
    using unatSuc [of "ref (pbufs s p)"] by (simp_all add: add.commute word_neq_0_conv)
  then show "ref (pbufs s p) + 1 > 0" by simp
  have "preds (set_pbuf p (\<lambda>b. b\<lparr>ref := ref b + 1\<rparr>) s) L r = preds s L r" for r by (auto simp: preds_def)
  then show "counted (set_pbuf p (\<lambda>b. b\<lparr>ref := ref b + 1\<rparr>) s) L (hold p H)"
    using c p u countedD(1) [OF c p(1)] unfolding counted_def by (auto simp: hold_def)
qed

section \<open>Freeing\<close>

lemma drop_hold: "q \<noteq> 0 \<Longrightarrow> drop_ptr q (hold q H) = H"
  by (rule ext) (simp add: drop_ptr_def hold_def)

lemma pbuf_free_pass_last:
  assumes ok: "mem_ok s L" and c: "counted s L H" and p: "0 < H p" "ref (pbufs s p) = 1"
  obtains s' where "pbuf_free_pass debug (p, count, s) = Returns (True, pb_next (pbufs s p), count + 1, s')"
    "mem_ok s' (L - {p})" "counted s' (L - {p}) (hold (pb_next (pbufs s p)) (drop_ptr p H))" "only_refs s s'"
    "\<forall>q. q \<noteq> p \<longrightarrow> pbufs s' q = pbufs s q"
proof -
  have m: "p \<in> L" by (rule countedD(4) [OF c p(1)])
  have f: "finite L" "0 \<notin> L" using ok by (simp_all add: mem_ok_def)
  let ?s = "set_pbuf p (\<lambda>b. b\<lparr>ref := ref b - 1\<rparr>) s"
  have ok': "mem_ok ?s L" by (rule mem_ok_cong [OF ok]) auto
  obtain s' where s': "pbuf_dealloc debug p ?s = Returns s'" "mem_ok s' (L - {p})" "pbufs s' = pbufs ?s" "bytes s' = bytes ?s"
    by (rule pbuf_dealloc_ok [OF ok' m])
  have "counted s' (L - {p}) (hold (pb_next (pbufs s p)) (drop_ptr p H))"
    by (rule counted_cong [OF counted_last(1) [OF c f m p]]) (simp add: s'(3))
  moreover have "only_refs s s'" using s'(3,4) by (simp add: only_refs_def)
  moreover have "p \<noteq> 0" using m f(2) by metis
  moreover have "pbuf_free_pass debug (p, count, s) = Returns (True, pb_next (pbufs s p), count + 1, s')"
    using s'(1) p(2) \<open>p \<noteq> 0\<close> by (simp add: pbuf_free_pass_def Let_def LWIP_ASSERT_def)
  moreover have "\<forall>q. q \<noteq> p \<longrightarrow> pbufs s' q = pbufs s q" using s'(3) by simp
  ultimately show ?thesis using that s'(2) by blast
qed

lemma pbuf_free_pass_more:
  assumes ok: "mem_ok s L" and c: "counted s L H" and p: "0 < H p" "ref (pbufs s p) \<noteq> 1"
  defines "s' \<equiv> set_pbuf p (\<lambda>b. b\<lparr>ref := ref b - 1\<rparr>) s"
  shows "pbuf_free_pass debug (p, count, s) = Returns (True, 0, count, s')"
    and "mem_ok s' L" and "counted s' L (drop_ptr p H)" and "only_refs s s'"
    and "\<forall>q. q \<noteq> p \<longrightarrow> pbufs s' q = pbufs s q"
proof -
  have m: "p \<in> L" by (rule countedD(4) [OF c p(1)])
  have "p \<noteq> 0" using m ok by (metis mem_ok_def)
  moreover have "ref (pbufs s p) - 1 \<noteq> 0" using p(2) by simp
  ultimately show "pbuf_free_pass debug (p, count, s) = Returns (True, 0, count, s')"
    using countedD(2) [OF c m] by (simp add: pbuf_free_pass_def Let_def LWIP_ASSERT_def s'_def)
  show "mem_ok s' L" unfolding s'_def by (rule mem_ok_cong [OF ok]) auto
  show "counted s' L (drop_ptr p H)" unfolding s'_def by (rule counted_drop [OF c p])
  show "only_refs s s'" by (simp add: s'_def only_refs_def)
  show "\<forall>q. q \<noteq> p \<longrightarrow> pbufs s' q = pbufs s q" by (simp add: s'_def)
qed

lemma pbuf_free_pass_0: "orepeat (pbuf_free_pass debug) (0, count, s) = Some (Returns (0, count, s))"
  by (rule orepeat_stop) (simp add: pbuf_free_pass_def)

text \<open>
  The pbufs at the head of a chain that nobody else holds, and what happens to the others: the first
  of them loses one pointer.
\<close>

abbreviation sole :: "lwip \<Rightarrow> nat list \<Rightarrow> nat list" where
  "sole s \<equiv> takeWhile (\<lambda>q. ref (pbufs s q) = 1)"

definition refs_after :: "lwip \<Rightarrow> nat list \<Rightarrow> nat \<Rightarrow> u16" where
  "refs_after s xs = (case dropWhile (\<lambda>q. ref (pbufs s q) = 1) xs of
     [] \<Rightarrow> (\<lambda>q. ref (pbufs s q)) | x # _ \<Rightarrow> (\<lambda>q. ref (pbufs s q))(x := ref (pbufs s x) - 1))"

lemma refs_after_simps [simp]:
  "refs_after s [] q = ref (pbufs s q)"
  "refs_after s (x # xs) q = (if ref (pbufs s x) = 1 then refs_after s xs q
     else if q = x then ref (pbufs s x) - 1 else ref (pbufs s q))"
  by (simp_all add: refs_after_def)

lemma refs_after_cong:
  "(\<And>x. x \<in> set xs \<Longrightarrow> ref (pbufs t x) = ref (pbufs s x)) \<Longrightarrow> ref (pbufs t q) = ref (pbufs s q) \<Longrightarrow>
     refs_after t xs q = refs_after s xs q"
  by (induction xs) auto

lemma free_loop:
  assumes "mem_ok s L" and "counted s L H" and "0 < H p" and "chain s p xs"
  shows "\<exists>s'. orepeat (pbuf_free_pass debug) (p, count, s) = Some (Returns (0, count + of_nat (length (sole s xs)), s'))
           \<and> mem_ok s' (L - set (sole s xs)) \<and> counted s' (L - set (sole s xs)) (drop_ptr p H) \<and> only_refs s s'
           \<and> (\<forall>q. q \<notin> set (sole s xs) \<longrightarrow> ref (pbufs s' q) = refs_after s xs q)"
  using assms
proof (induction xs arbitrary: s L H p count)
  case Nil
  then show ?case using countedD(4) [OF Nil(2,3)] by (simp add: mem_ok_def)
next
  case (Cons x xs)
  note ok = Cons.prems(1) and c = Cons.prems(2) and p = Cons.prems(3)
  have x: "p = x" "x \<noteq> 0" "chain s (pb_next (pbufs s x)) xs" using Cons.prems(4) by simp_all
  have nx: "x \<notin> set xs" using links_distinct [OF Cons.prems(4) [unfolded chain_def]] by simp
  let ?q = "pb_next (pbufs s p)"
  show ?case
  proof (cases "ref (pbufs s p) = 1")
    case False
    note st = pbuf_free_pass_more [OF ok c p False]
    show ?thesis
      by (intro exI [of _ "set_pbuf p (\<lambda>b. b\<lparr>ref := ref b - 1\<rparr>) s"])
        (use st x False orepeat_step [of "pbuf_free_pass debug", OF st(1)] in \<open>auto simp: pbuf_free_pass_0 refs_after_def\<close>)
  next
    case True
    obtain t where t: "pbuf_free_pass debug (p, count, s) = Returns (True, ?q, count + 1, t)"
      "mem_ok t (L - {p})" "counted t (L - {p}) (hold ?q (drop_ptr p H))" "only_refs s t" "\<forall>q. q \<noteq> p \<longrightarrow> pbufs t q = pbufs s q"
      by (rule pbuf_free_pass_last [OF ok c p True])
    note step = orepeat_step [of "pbuf_free_pass debug", OF t(1)]
    have tx: "pbufs t y = pbufs s y" if "y \<in> set xs" for y using t(5) nx x(1) that by metis
    have sole: "sole t xs = sole s xs" by (rule takeWhile_cong) (simp_all add: tx)
    have after: "refs_after t xs y = refs_after s (x # xs) y" if "y \<noteq> x" for y
      using refs_after_cong [of xs t s y] tx t(5) x(1) that True by simp
    show ?thesis
    proof (cases "?q = 0")
      case q: True
      have "xs = []" using x q by (cases xs) auto
      then show ?thesis
        using t q step True x after by (intro exI [of _ t]) (auto simp: pbuf_free_pass_0 hold_def)
    next
      case q: False
      have hq: "0 < hold ?q (drop_ptr p H) ?q" using q by (simp add: hold_def)
      have ct: "chain t ?q xs" using x only_refs_eq(1) [OF t(4)] by (simp add: chain_def)
      obtain s' where r: "orepeat (pbuf_free_pass debug) (?q, count + 1, t) = Some (Returns (0, count + 1 + of_nat (length (sole s xs)), s'))"
        "mem_ok s' (L - {p} - set (sole s xs))" "counted s' (L - {p} - set (sole s xs)) (drop_ptr p H)" "only_refs t s'"
        "\<forall>q. q \<notin> set (sole s xs) \<longrightarrow> ref (pbufs s' q) = refs_after t xs q"
        using Cons.IH [OF t(2,3) hq ct, of "count + 1"] unfolding sole drop_hold [OF q] by blast
      have e: "L - set (sole s (x # xs)) = L - {p} - set (sole s xs)" using True x(1) by auto
      show ?thesis
        unfolding e
        by (intro exI [of _ s'])
          (use r step True x(1) only_refs_trans [OF t(4) r(4)] after in \<open>auto simp: add.assoc\<close>)
    qed
  qed
qed

lemma pbuf_free_ok:
  assumes "mem_ok s L" and "counted s L H" and "0 < H p" and "chain s p xs"
  obtains s' where "pbuf_free debug p s = Returns (of_nat (length (sole s xs)), s')" "mem_ok s' (L - set (sole s xs))"
    "counted s' (L - set (sole s xs)) (drop_ptr p H)" "only_refs s s'"
    "\<forall>q. q \<notin> set (sole s xs) \<longrightarrow> ref (pbufs s' q) = refs_after s xs q"
proof -
  have "p \<noteq> 0" using countedD(4) [OF assms(2,3)] assms(1) by (metis mem_ok_def)
  obtain s' where r: "orepeat (pbuf_free_pass debug) (p, 0, s) = Some (Returns (0, of_nat (length (sole s xs)), s'))"
    "mem_ok s' (L - set (sole s xs))" "counted s' (L - set (sole s xs)) (drop_ptr p H)" "only_refs s s'"
    "\<forall>q. q \<notin> set (sole s xs) \<longrightarrow> ref (pbufs s' q) = refs_after s xs q"
    using free_loop [OF assms, of debug 0] by auto
  have "pbuf_free debug p s = Returns (of_nat (length (sole s xs)), s')" using r(1) \<open>p \<noteq> 0\<close> by (simp add: pbuf_free_def)
  then show ?thesis using r(2-5) by (rule that)
qed

section \<open>Links\<close>

text \<open>A \<open>next\<close> pointer that was NULL takes over a pointer that a client held, and the reverse.\<close>

lemma counted_link:
  assumes c: "counted s L H" and f: "finite L" "0 \<notin> L" and r: "r \<in> L" "pb_next (pbufs s r) = 0" and q: "0 < H q"
    and s': "\<And>p. p \<in> L \<Longrightarrow> ref (pbufs s' p) = ref (pbufs s p)" "pb_next (pbufs s' r) = q"
      "\<And>p. p \<in> L \<Longrightarrow> p \<noteq> r \<Longrightarrow> pb_next (pbufs s' p) = pb_next (pbufs s p)"
  shows "counted s' L (drop_ptr q H)"
proof -
  have m: "q \<in> L" by (rule countedD(4) [OF c q])
  have n: "q \<noteq> 0" using m f(2) by metis
  have pr: "preds s' L p = (if p = q then insert r (preds s L q) else preds s L p)" if "p \<in> L" for p
    using that r s'(2,3) f(2) unfolding preds_def by (auto split: if_splits) (metis)+
  have "r \<notin> preds s L q" using r(2) n by (simp add: preds_def)
  then have k: "card (preds s' L p) = card (preds s L p) + (if p = q then 1 else 0)" if "p \<in> L" for p
    using pr [OF that] f(1) by (simp add: preds_def)
  show ?thesis
    unfolding counted_def
  proof (intro conjI ballI allI impI)
    fix p assume p: "p \<in> L"
    show "unat (ref (pbufs s' p)) = drop_ptr q H p + card (preds s' L p)"
      using countedD(1) [OF c p] k [OF p] q s'(1) [OF p] by (simp add: drop_ptr_def)
    show "0 < ref (pbufs s' p)" using countedD(2) [OF c p] s'(1) [OF p] by simp
    show "pb_next (pbufs s' p) \<in> insert 0 L"
      using countedD(3) [OF c p] s'(2,3) m p by (cases "p = r") auto
  next
    fix p assume "p \<notin> L"
    then have "H p = 0" using c unfolding counted_def by blast
    then show "drop_ptr q H p = 0" by (cases "p = q") (simp_all add: drop_ptr_def)
  qed
qed

lemma counted_unlink:
  assumes c: "counted s L H" and f: "finite L" "0 \<notin> L" and r: "r \<in> L" "pb_next (pbufs s r) = q" "q \<noteq> 0"
    and s': "\<And>p. p \<in> L \<Longrightarrow> ref (pbufs s' p) = ref (pbufs s p)" "pb_next (pbufs s' r) = 0"
      "\<And>p. p \<in> L \<Longrightarrow> p \<noteq> r \<Longrightarrow> pb_next (pbufs s' p) = pb_next (pbufs s p)"
  shows "counted s' L (hold q H)"
proof -
  have m: "q \<in> L" using countedD(3) [OF c r(1)] r by simp
  have pr: "preds s' L p = preds s L p - (if p = q then {r} else {})" if "p \<in> L" for p
    using that r s'(2,3) f(2) unfolding preds_def by (auto split: if_splits) (metis)+
  have "r \<in> preds s L q" using r by (simp add: preds_def)
  moreover have "finite (preds s L q)" using f(1) by (simp add: preds_def)
  ultimately have k: "card (preds s L p) = card (preds s' L p) + (if p = q then 1 else 0)" if "p \<in> L" for p
    using pr [OF that] card.remove [of "preds s L q" r] by simp
  show ?thesis
    unfolding counted_def
  proof (intro conjI ballI allI impI)
    fix p assume p: "p \<in> L"
    show "unat (ref (pbufs s' p)) = hold q H p + card (preds s' L p)"
      using countedD(1) [OF c p] k [OF p] r(3) s'(1) [OF p] by (simp add: hold_def)
    show "0 < ref (pbufs s' p)" using countedD(2) [OF c p] s'(1) [OF p] by simp
    show "pb_next (pbufs s' p) \<in> insert 0 L"
      using countedD(3) [OF c p] s'(2,3) p by (cases "p = r") auto
  next
    fix p assume "p \<notin> L"
    then show "hold q H p = 0" using c m by (auto simp: counted_def hold_def)
  qed
qed

text \<open>A pbuf that has just been allocated.\<close>

lemma counted_new:
  assumes c: "counted s L H" and q: "q \<notin> L" "q \<noteq> 0" "0 \<notin> L"
    and s': "\<And>p. p \<in> L \<Longrightarrow> ref (pbufs s' p) = ref (pbufs s p) \<and> pb_next (pbufs s' p) = pb_next (pbufs s p)"
      "ref (pbufs s' q) = 1" "pb_next (pbufs s' q) = 0"
  shows "counted s' (insert q L) (hold q H)"
proof -
  have none: "pb_next (pbufs s r) \<noteq> q" if "r \<in> L" for r using countedD(3) [OF c that] q by metis
  have pr: "preds s' (insert q L) p = (if p = q then {} else preds s L p)" if "p \<in> insert q L" for p
  proof (cases "p = q")
    case True
    have "pb_next (pbufs s' r) \<noteq> q" if "r \<in> insert q L" for r
      using that s'(1,3) none [of r] q(2) by (cases "r = q") (simp_all add: s'(1))
    then show ?thesis using True unfolding preds_def by auto
  next
    case False
    have "p \<noteq> 0" using that False q(3) by (metis insertE)
    then show ?thesis using False s' q(1) unfolding preds_def by (auto split: if_splits)
  qed
  have "H q = 0" using c q(1) by (simp add: counted_def)
  show ?thesis
    unfolding counted_def
  proof (intro conjI ballI allI impI)
    fix p assume p: "p \<in> insert q L"
    show "unat (ref (pbufs s' p)) = hold q H p + card (preds s' (insert q L) p)"
      using countedD(1) [OF c, of p] pr [OF p] p s' q \<open>H q = 0\<close> by (auto simp: hold_def)
    show "0 < ref (pbufs s' p)" using countedD(2) [OF c, of p] p s' by (cases "p = q") auto
    show "pb_next (pbufs s' p) \<in> insert 0 (insert q L)"
      using countedD(3) [OF c, of p] p s' by (cases "p = q") auto
  next
    fix p assume "p \<notin> insert q L"
    then show "hold q H p = 0" using c by (simp add: counted_def hold_def)
  qed
qed

end
