(* ===== verification/Pbuf_Own.thy ===== *)
theory Pbuf_Own
  imports Pbuf_Refs
begin

text \<open>
  The calls of \<open>pbuf.c\<close> that allocate, free, share, join and split packets keep \<open>owned\<close>: the counts
  are right, the memory is intact and every chain ends. \<open>pbuf_run\<close> is a client that makes such calls
  in any order with the pointers it holds.
\<close>

section \<open>Ownership\<close>

definition owned :: "lwip \<Rightarrow> nat set \<Rightarrow> (nat \<Rightarrow> nat) \<Rightarrow> bool" where
  "owned s L H \<longleftrightarrow> mem_ok s L \<and> counted s L H \<and> (\<forall>p\<in>L. \<exists>xs. chain s p xs)"

lemma ownedD:
  assumes "owned s L H"
  shows "mem_ok s L" and "counted s L H" and "finite L" and "0 \<notin> L" and "p \<in> L \<Longrightarrow> \<exists>xs. chain s p xs"
  using assms by (simp_all add: owned_def mem_ok_def)

lemma chain_cong: "(\<And>p. pb_next (pbufs s' p) = pb_next (pbufs s p)) \<Longrightarrow> chain s' p xs = chain s p xs"
  by (simp add: chain_def)

lemma chain_only_refs: "only_refs s s' \<Longrightarrow> chain s' p xs = chain s p xs"
  by (rule chain_cong) (rule only_refs_eq)

lemma chain_in: "counted s L H \<Longrightarrow> p \<in> insert 0 L \<Longrightarrow> chain s p xs \<Longrightarrow> set xs \<subseteq> L"
proof (induction xs arbitrary: p)
  case (Cons x xs)
  then have "x \<in> L" by auto
  moreover have "set xs \<subseteq> L"
    using Cons.IH [of "pb_next (pbufs s x)"] Cons.prems countedD(3) [OF Cons.prems(1) \<open>x \<in> L\<close>] by auto
  ultimately show ?case by simp
qed simp

text \<open>A chain goes on behind its last pbuf.\<close>

lemma links_join:
  "links nx p xs \<Longrightarrow> links (nx(r := t)) t ys \<Longrightarrow> nx r = 0 \<Longrightarrow> \<exists>zs. links (nx(r := t)) p zs"
proof (induction nx p xs rule: links.induct)
  case (1 nx p)
  then show ?case by (intro exI [of _ "[]"]) simp
next
  case (2 nx p x xs)
  show ?case
  proof (cases "x = r")
    case True
    then show ?thesis using 2 by (intro exI [of _ "r # ys"]) simp
  next
    case False
    have "links nx (nx x) xs" using 2(2) by simp
    then obtain zs where "links (nx(r := t)) (nx x) zs" using 2(1) [OF _ 2(3,4)] by blast
    then have "links (nx(r := t)) p (x # zs)" using 2(2) False by (simp only: links.simps) simp
    then show ?thesis by blast
  qed
qed

lemma chains_join:
  assumes "chain s p xs" and "chain s t ys" and "r \<notin> set ys" and "pb_next (pbufs s r) = 0"
    and "\<And>q. pb_next (pbufs s' q) = (if q = r then t else pb_next (pbufs s q))"
  shows "\<exists>zs. chain s' p zs"
proof -
  have e: "(\<lambda>q. pb_next (pbufs s' q)) = (\<lambda>q. pb_next (pbufs s q))(r := t)" using assms(5) by auto
  show ?thesis
    using links_join [of "\<lambda>q. pb_next (pbufs s q)" p xs r t ys] assms(1-4) unfolding chain_def e by simp
qed

text \<open>A chain cut behind one of its pbufs.\<close>

lemma chain_cut:
  "chain s p xs \<Longrightarrow> (\<And>q. pb_next (pbufs s' q) = (if q = r then 0 else pb_next (pbufs s q))) \<Longrightarrow> \<exists>zs. chain s' p zs"
proof (induction xs arbitrary: p)
  case (Cons x xs)
  show ?case
  proof (cases "x = r")
    case True
    then show ?thesis using Cons.prems by (intro exI [of _ "[r]"]) simp
  next
    case False
    obtain zs where "chain s' (pb_next (pbufs s x)) zs" using Cons by auto
    then show ?thesis using Cons.prems False by (intro exI [of _ "x # zs"]) simp
  qed
qed (auto intro: exI [of _ "[]"])

section \<open>Free and share\<close>

lemma owned_free:
  assumes "owned s L H" and "0 < H p" and "chain s p xs"
  obtains s' where "pbuf_free debug p s = Returns (of_nat (length (sole s xs)), s')"
    "owned s' (L - set (sole s xs)) (drop_ptr p H)" "only_refs s s'"
    "\<forall>q. q \<notin> set (sole s xs) \<longrightarrow> ref (pbufs s' q) = refs_after s xs q"
proof -
  obtain s' where r: "pbuf_free debug p s = Returns (of_nat (length (sole s xs)), s')" "mem_ok s' (L - set (sole s xs))"
    "counted s' (L - set (sole s xs)) (drop_ptr p H)" "only_refs s s'"
    "\<forall>q. q \<notin> set (sole s xs) \<longrightarrow> ref (pbufs s' q) = refs_after s xs q"
    by (rule pbuf_free_ok [OF ownedD(1,2) [OF assms(1)] assms(2,3)])
  have "\<forall>p\<in>L - set (sole s xs). \<exists>xs. chain s' p xs" using assms(1) chain_only_refs [OF r(4)] by (auto simp: owned_def)
  then have "owned s' (L - set (sole s xs)) (drop_ptr p H)" using r(2,3) by (simp add: owned_def)
  then show ?thesis using r that by blast
qed

lemma owned_same:
  assumes "owned s L H" and "memps_of s' = memps_of s" and "heap_of s' = heap_of s" and "bytes s' = bytes s"
    and "\<And>p. pb_type (pbufs s' p) = pb_type (pbufs s p)" and "\<And>p. ref (pbufs s' p) = ref (pbufs s p)"
    and "\<And>p. pb_next (pbufs s' p) = pb_next (pbufs s p)"
  shows "owned s' L H"
proof -
  have "mem_ok s' L" by (rule mem_ok_cong [OF ownedD(1) [OF assms(1)] assms(2-5)])
  moreover have "counted s' L H" by (rule counted_cong [OF ownedD(2) [OF assms(1)]]) (simp add: assms(6,7))
  ultimately show ?thesis using assms(1) chain_cong [of s' s, OF assms(7)] by (simp add: owned_def)
qed

lemma owned_ref:
  assumes o: "owned s L H" and p: "0 < H p" "ref (pbufs s p) \<noteq> 0xffff"
  obtains s' where "pbuf_ref debug p s = Returns s'" "owned s' L (hold p H)" "only_refs s s'"
proof -
  let ?s = "set_pbuf p (\<lambda>b. b\<lparr>ref := ref b + 1\<rparr>) s"
  have m: "p \<in> L" by (rule countedD(4) [OF ownedD(2) [OF o] p(1)])
  note h = counted_hold [OF ownedD(2) [OF o] m p(2) ownedD(4) [OF o]]
  have "p \<noteq> 0" using m ownedD(4) [OF o] by metis
  then have "pbuf_ref debug p s = Returns ?s" using h(2) by (simp add: pbuf_ref_def LWIP_ASSERT_def)
  moreover have oref: "only_refs s ?s" by (simp add: only_refs_def)
  moreover have "mem_ok ?s L" by (rule mem_ok_cong [OF ownedD(1) [OF o]]) auto
  then have "owned ?s L (hold p H)" using h(1) o chain_only_refs [OF oref] by (simp add: owned_def)
  ultimately show ?thesis using that by blast
qed

section \<open>Join and split\<close>

lemma cat_loop:
  assumes "chain s p xs" and "p \<noteq> 0"
  shows "\<exists>r s'. orepeat (cat_pass t) (p, s) = Some (Returns (r, s')) \<and> r \<in> set xs \<and> pb_next (pbufs s r) = 0
           \<and> memps_of s' = memps_of s \<and> heap_of s' = heap_of s \<and> bytes s' = bytes s
           \<and> (\<forall>q. pbufs s' q = (pbufs s q)\<lparr>tot_len := tot_len (pbufs s' q)\<rparr>)"
  using assms
proof (induction xs arbitrary: p s)
  case (Cons x xs)
  show ?case
  proof (cases "pb_next (pbufs s p) = 0")
    case True
    then have "orepeat (cat_pass t) (p, s) = Some (Returns (p, s))" by (intro orepeat_stop) (simp add: cat_pass_def)
    then show ?thesis using Cons.prems True by auto
  next
    case False
    let ?s = "set_pbuf p (\<lambda>b. b\<lparr>tot_len := tot_len b + tot_len (pbufs s t)\<rparr>) s"
    have st: "cat_pass t (p, s) = Returns (True, pb_next (pbufs s p), ?s)" using False by (simp add: cat_pass_def)
    have c: "chain ?s (pb_next (pbufs s p)) xs" using Cons.prems chain_cong [of ?s s] by simp
    obtain r s' where r: "orepeat (cat_pass t) (pb_next (pbufs s p), ?s) = Some (Returns (r, s'))" "r \<in> set xs"
      "pb_next (pbufs ?s r) = 0" "memps_of s' = memps_of s" "heap_of s' = heap_of s" "bytes s' = bytes s"
      "\<forall>q. pbufs s' q = (pbufs ?s q)\<lparr>tot_len := tot_len (pbufs s' q)\<rparr>"
      using Cons.IH [OF c False] by auto
    have e: "\<forall>q. pbufs s' q = (pbufs s q)\<lparr>tot_len := tot_len (pbufs s' q)\<rparr>"
    proof
      fix q
      show "pbufs s' q = (pbufs s q)\<lparr>tot_len := tot_len (pbufs s' q)\<rparr>" using spec [OF r(7), of q] by (cases "q = p") simp_all
    qed
    have "pb_next (pbufs s r) = 0" using r(3) by (auto split: if_splits)
    then show ?thesis using r(1,2,4-6) e orepeat_step [of "cat_pass t", OF st] by auto
  qed
qed simp

lemma owned_link:
  assumes o: "owned s L H" and r: "r \<in> L" "pb_next (pbufs s r) = 0" and t: "0 < H t" "chain s t ys" "r \<notin> set ys"
    and s': "memps_of s' = memps_of s" "heap_of s' = heap_of s" "bytes s' = bytes s"
    and e: "\<And>q. pb_type (pbufs s' q) = pb_type (pbufs s q)" "\<And>q. ref (pbufs s' q) = ref (pbufs s q)"
      "\<And>q. pb_next (pbufs s' q) = (if q = r then t else pb_next (pbufs s q))"
  shows "owned s' L (drop_ptr t H)"
proof -
  note O = ownedD [OF o]
  have "mem_ok s' L" by (rule mem_ok_cong [OF O(1) s' e(1)])
  moreover have "counted s' L (drop_ptr t H)" by (rule counted_link [OF O(2-4) r t(1)]) (simp_all add: e)
  moreover have "\<exists>zs. chain s' p zs" if pL: "p \<in> L" for p
  proof -
    obtain zs where "chain s p zs" using O(5) [OF pL] by blast
    then show ?thesis by (rule chains_join [OF _ t(2,3) r(2) e(3)])
  qed
  ultimately show ?thesis by (simp add: owned_def)
qed

lemma owned_cat:
  assumes o: "owned s L H" and h: "h \<in> L" "0 < H t" and c: "chain s h xs" "chain s t ys" "set xs \<inter> set ys = {}"
  shows "pbuf_cat debug h t s = Asserts \<and> \<not> debug
    \<or> (\<exists>s'. pbuf_cat debug h t s = Returns s' \<and> owned s' L (drop_ptr t H) \<and> (\<forall>q. ref (pbufs s' q) = ref (pbufs s q)))"
proof -
  note O = ownedD [OF o]
  have nz: "h \<noteq> 0" "t \<noteq> 0" using h countedD(4) [OF O(2) h(2)] O(4) by metis+
  obtain r s1 where r: "orepeat (cat_pass t) (h, s) = Some (Returns (r, s1))" "r \<in> set xs" "pb_next (pbufs s r) = 0"
    "memps_of s1 = memps_of s" "heap_of s1 = heap_of s" "bytes s1 = bytes s"
    "\<forall>q. pbufs s1 q = (pbufs s q)\<lparr>tot_len := tot_len (pbufs s1 q)\<rparr>"
    using cat_loop [OF c(1) nz(1), of t] by blast
  have rL: "r \<in> L" using chain_in [OF O(2) _ c(1)] h(1) r(2) by blast
  have e: "pb_next (pbufs s1 q) = pb_next (pbufs s q)" "ref (pbufs s1 q) = ref (pbufs s q)" "pb_type (pbufs s1 q) = pb_type (pbufs s q)" for q
    using spec [OF r(7), of q] by (metis pbuf.select_convs pbuf.surjective pbuf.update_convs(3))+
  define s' where "s' = set_pbuf r (\<lambda>b. b\<lparr>pb_next := t\<rparr>) (set_pbuf r (\<lambda>b. b\<lparr>tot_len := tot_len b + tot_len (pbufs s1 t)\<rparr>) s1)"
  have e': "pb_next (pbufs s' q) = (if q = r then t else pb_next (pbufs s q))" "ref (pbufs s' q) = ref (pbufs s q)"
    "pb_type (pbufs s' q) = pb_type (pbufs s q)" for q
    by (simp_all add: s'_def e)
  have m: "memps_of s' = memps_of s" "heap_of s' = heap_of s" "bytes s' = bytes s" by (simp_all add: s'_def r(4-6))
  have "r \<notin> set ys" using c(3) r(2) by blast
  then have "owned s' L (drop_ptr t H)"
    by (rule owned_link [OF o rL r(3) h(2) c(2) _ m e'(3,2,1)])
  moreover have "pbuf_cat debug h t s = (if \<not> debug \<and> tot_len (pbufs s1 r) \<noteq> len (pbufs s1 r) then Asserts else Returns s')"
    using r(1,3) nz e(1) [of r] by (simp add: pbuf_cat_def LWIP_ERROR_def LWIP_ASSERT_def s'_def Let_def)
  ultimately show ?thesis using e'(2) by auto
qed

lemma owned_dechain:
  assumes o: "owned s L H" and p: "p \<in> L" and xs: "chain s (pb_next (pbufs s p)) xs"
  defines "q \<equiv> pb_next (pbufs s p)"
  shows "pbuf_dechain debug p s = Asserts \<and> \<not> debug
    \<or> (\<exists>s'. pbuf_dechain debug p s = Returns (if (of_nat (length (sole s xs)) :: u8) > 0 then 0 else q, s')
         \<and> owned s' (L - set (sole s xs)) H)"
proof (cases "q = 0")
  case True
  then have "pbuf_dechain debug p s = LWIP_ASSERT debug (tot_len (pbufs s p) = len (pbufs s p)) (Returns (0, s))"
    by (simp add: pbuf_dechain_def q_def Let_def)
  moreover have "xs = []" using xs True unfolding q_def by (cases xs) auto
  ultimately show ?thesis using o True by (auto simp: LWIP_ASSERT_def intro!: exI [of _ s])
next
  case False
  note O = ownedD [OF o]
  let ?t = "tot_len (pbufs s p) - len (pbufs s p)"
  define s1 where "s1 = set_pbuf q (\<lambda>b. b\<lparr>tot_len := ?t\<rparr>) s"
  define s2 where "s2 = set_pbuf p (\<lambda>b. b\<lparr>tot_len := len b\<rparr>) (set_pbuf p (\<lambda>b. b\<lparr>pb_next := 0\<rparr>) s1)"
  have e: "pb_next (pbufs s2 r) = (if r = p then 0 else pb_next (pbufs s r))" "ref (pbufs s2 r) = ref (pbufs s r)"
    "pb_type (pbufs s2 r) = pb_type (pbufs s r)" "tot_len (pbufs s2 p) = len (pbufs s2 p)" for r
    by (simp_all add: s1_def s2_def)
  have m: "memps_of s2 = memps_of s" "heap_of s2 = heap_of s" "bytes s2 = bytes s" by (simp_all add: s1_def s2_def)
  have "mem_ok s2 L" by (rule mem_ok_cong [OF O(1) m]) (simp add: e)
  moreover have "counted s2 L (hold q H)"
    by (rule counted_unlink [OF O(2-4) p _ False]) (simp_all add: e q_def)
  moreover have "\<exists>zs. chain s2 a zs" if "a \<in> L" for a
    using O(5) [OF that] chain_cut [of s a _ s2 p] e(1) by blast
  ultimately have o2: "owned s2 L (hold q H)" by (simp add: owned_def)
  have "p \<notin> set xs"
  proof -
    have "chain s p (p # xs)" using p O(4) xs by (metis chain_simps(2))
    then show ?thesis using links_distinct [OF _] unfolding chain_def by fastforce
  qed
  then have "chain s2 q xs" using xs links_cong [of "\<lambda>q. pb_next (pbufs s q)" q xs "\<lambda>q. pb_next (pbufs s2 q)"] e(1)
      \<open>p \<notin> set xs\<close> unfolding chain_def q_def by metis
  have sole: "sole s2 xs = sole s xs" by (rule takeWhile_cong) (simp_all add: e(2))
  have "0 < hold q H q" using False by (simp add: hold_def)
  then obtain s' where r: "pbuf_free debug q s2 = Returns (of_nat (length (sole s xs)), s')"
    "owned s' (L - set (sole s xs)) (drop_ptr q (hold q H))" "only_refs s2 s'"
    using owned_free [OF o2 _ \<open>chain s2 q xs\<close>, of debug] unfolding sole by metis
  have "tot_len (pbufs s' p) = len (pbufs s' p)" using only_refs_eq [OF r(3)] e(4) by simp
  then have "pbuf_dechain debug p s = LWIP_ASSERT debug (tot_len (pbufs s q) = ?t)
    (Returns (if (of_nat (length (sole s xs)) :: u8) > 0 then 0 else q, s'))"
    using False r(1) unfolding pbuf_dechain_def Let_def q_def [symmetric] s1_def [symmetric]
    by (simp add: LWIP_ASSERT_def s2_def s1_def [symmetric])
  then show ?thesis using r False drop_hold [OF False] e(2) by (auto simp: LWIP_ASSERT_def)
qed

section \<open>Allocate\<close>

lemma owned_new:
  assumes o: "owned s L H" and q: "q \<notin> L" "q \<noteq> 0" and m: "mem_ok s' (insert q L)"
    and e: "\<And>p. p \<in> L \<Longrightarrow> pbufs s' p = pbufs s p" "ref (pbufs s' q) = 1" "pb_next (pbufs s' q) = 0"
  shows "owned s' (insert q L) (hold q H)"
proof -
  note O = ownedD [OF o]
  have "counted s' (insert q L) (hold q H)" by (rule counted_new [OF O(2) q O(4) _ e(2,3)]) (simp add: e(1))
  moreover have "\<exists>zs. chain s' p zs" if pL: "p \<in> insert q L" for p
  proof (cases "p = q")
    case True
    then show ?thesis using q(2) e(3) by (intro exI [of _ "[q]"]) simp
  next
    case False
    obtain zs where z: "chain s p zs" using O(5) [of p] pL False by blast
    have "set zs \<subseteq> L" using chain_in [OF O(2) _ z] pL False by blast
    then have "chain s' p zs"
      using z e(1) links_cong [of "\<lambda>q. pb_next (pbufs s q)" p zs "\<lambda>q. pb_next (pbufs s' q)"]
      unfolding chain_def by (metis subsetD)
    then show ?thesis by blast
  qed
  ultimately show ?thesis using m by (simp add: owned_def)
qed

lemma pool_malloc_none:
  assumes "mem_ok s L" and "mt = MEMP_PBUF \<or> mt = MEMP_PBUF_POOL" and "memp_tab (memps_of s) mt = 0"
  shows "pool_malloc debug mt s = (if debug then Returns (0, s) else Asserts)"
  using pool_take_empty(1) [OF mem_okD(1) [OF assms(1,2)] assms(3)] by (simp add: pool_malloc_def)

lemma pool_constants [simp]: "PBUF_POOL_BUFSIZE_ALIGNED = 1536" "SIZEOF_STRUCT_PBUF = 24"
  by code_simp+

lemma alloc_tail_ok:
  assumes "owned s L H" and "0 < H p" and "ref (pbufs s p) = 1" and "r \<in> L" and "pb_next (pbufs s r) = 0"
    and "payload (pbufs s p) + unat (len (pbufs s p)) \<le> p + 1560" and "rem_len < 0xffff"
  shows "pbuf_alloc_tail debug p r rem_len s = Asserts \<and> \<not> debug
    \<or> (\<exists>s' L'. pbuf_alloc_tail debug p r rem_len s = Returns (True, s') \<and> owned s' L' H \<and> ref (pbufs s' p) = 1)
    \<or> (\<exists>s' L'. pbuf_alloc_tail debug p r rem_len s = Returns (False, s') \<and> owned s' L' (drop_ptr p H))"
  using assms
proof (induction rem_len arbitrary: s r L rule: less_induct)
  case (less rem_len)
  note o = less.prems(1) and O = ownedD [OF less.prems(1)]
  show ?case
  proof (cases "rem_len = 0")
    case True
    then show ?thesis using o less.prems(3) by auto
  next
    case rem: False
    show ?thesis
    proof (cases "memp_tab (memps_of s) MEMP_PBUF_POOL = 0")
      case True
      note e = pool_malloc_none [OF O(1) _ True, of debug]
      obtain xs where "chain s p xs" using O(5) [OF countedD(4) [OF O(2) less.prems(2)]] by blast
      then obtain s' where "pbuf_free debug p s = Returns (of_nat (length (sole s xs)), s')"
        "owned s' (L - set (sole s xs)) (drop_ptr p H)"
        by (rule owned_free [OF o less.prems(2)])
      then show ?thesis using e rem by auto
    next
      case False
      obtain q st where q: "pool_malloc debug MEMP_PBUF_POOL s = Returns (q, s\<lparr>memps_of := st\<rparr>)" "q \<noteq> 0" "q \<notin> L" "q mod 4 = 0"
        "\<forall>s' :: lwip. memps_of s' = st \<and> heap_of s' = heap_of s \<and> bytes s' = bytes s \<and> pool_of (pb_type (pbufs s' q)) = Some MEMP_PBUF_POOL
           \<and> (\<forall>p\<in>L. pb_type (pbufs s' p) = pb_type (pbufs s p)) \<longrightarrow> mem_ok s' (insert q L)"
        by (rule pool_malloc_ok [where debug = debug, OF O(1) disjI2 [OF refl] False]) (rule that)
      define qlen where "qlen = min rem_len 1536"
      define s1 where "s1 = s\<lparr>memps_of := st, pbufs := (pbufs s)(q := (pbufs s q)\<lparr>pb_type := PBUF_POOL, flags := 0, pb_next := 0,
        tot_len := of_nat rem_len, len := of_nat qlen, payload := q + 24, ref := 1\<rparr>)\<rparr>"
      define s2 where "s2 = set_pbuf r (\<lambda>b. b\<lparr>pb_next := q\<rparr>) s1"
      have pL: "p \<in> L" by (rule countedD(4) [OF O(2) less.prems(2)])
      have ne: "p \<noteq> q" "r \<noteq> q" using pL less.prems(4) q(3) by metis+
      have o1: "owned s1 (insert q L) (hold q H)"
      proof (rule owned_new [OF o q(3,2)])
        show "mem_ok s1 (insert q L)"
          by (rule q(5) [rule_format]) (use q(3) in \<open>auto simp: s1_def pool_of_def\<close>)
      qed (use q(3) in \<open>auto simp: s1_def\<close>)
      have "owned s2 (insert q L) (drop_ptr q (hold q H))"
        by (rule owned_link [OF o1, of r q "[q]"]) (use less.prems(4,5) q(2) ne in \<open>auto simp: s1_def s2_def hold_def\<close>)
      then have o2: "owned s2 (insert q L) H" by (simp only: drop_hold [OF q(2)])
      have "pbuf_alloc_tail debug p r rem_len s = pbuf_alloc_tail debug p q (rem_len - qlen) s2"
      proof -
        have "(q + 24) mod 4 = 0" using q(4) by presburger
        moreover have "payload (pbufs s2 p) + unat (len (pbufs s2 p)) \<le> p + 1560" using less.prems(6) ne by (auto simp: s1_def s2_def)
        ultimately show ?thesis
          using q(1,2) rem ne less.prems(7)
          by (subst pbuf_alloc_tail.simps)
            (auto simp: LWIP_ASSERT_def s1_def s2_def qlen_def fun_upd_twist Let_def simp del: pbuf_alloc_tail.simps)
      qed
      moreover have "rem_len - qlen < rem_len" "rem_len - qlen < 0xffff" using rem less.prems(7) by (simp_all add: qlen_def)
      moreover have "payload (pbufs s2 p) + unat (len (pbufs s2 p)) \<le> p + 1560" "ref (pbufs s2 p) = 1" "pb_next (pbufs s2 q) = 0"
        using less.prems(3,6) ne by (auto simp: s1_def s2_def)
      ultimately show ?thesis
        using less.IH [OF _ o2 less.prems(2), of "rem_len - qlen" q] by simp
    qed
  qed
qed

text \<open>An aligned address is not moved, even where the addition in the macro wraps.\<close>

lemma LWIP_MEM_ALIGN_round: "LWIP_MEM_ALIGN x = (x + 3) mod 2 ^ 32 - (x + 3) mod 4"
proof -
  have "(of_nat x + MEM_ALIGNMENT - 1) AND NOT (MEM_ALIGNMENT - 1) = (of_nat (x + 3) :: u32) AND NOT 3"
    by (simp add: MEM_ALIGNMENT_def flip: add_diff_eq)
  moreover have "unat (of_nat (x + 3) :: u32) = (x + 3) mod 2 ^ 32" by (simp only: unat_of_nat) simp
  moreover have "(x + 3) mod 2 ^ 32 mod 4 = (x + 3) mod 4" by (simp add: mod_mod_cancel)
  ultimately show ?thesis unfolding LWIP_MEM_ALIGN_def by (simp only: mask3_round)
qed

lemma LWIP_MEM_ALIGN_mod4: "LWIP_MEM_ALIGN x mod 4 = 0"
proof -
  have "(x + 3) mod 2 ^ 32 mod 4 = (x + 3) mod 4" by (simp add: mod_mod_cancel)
  then show ?thesis unfolding LWIP_MEM_ALIGN_round by (metis minus_mod_eq_mult_div mod_mult_self1_is_0)
qed

lemma LWIP_MEM_ALIGN_le: "x mod 4 = 0 \<Longrightarrow> LWIP_MEM_ALIGN x \<le> x"
proof -
  assume "x mod 4 = 0"
  then have "(x + 3) mod 4 = 3" by presburger
  moreover have "(x + 3) mod 2 ^ 32 \<le> x + 3" by (rule mod_less_eq_dividend)
  ultimately show ?thesis unfolding LWIP_MEM_ALIGN_round by simp
qed

lemma LWIP_MEM_ALIGN_SIZE_mod4: "unat (LWIP_MEM_ALIGN_SIZE n) mod 4 = 0"
proof -
  have "(n + MEM_ALIGNMENT - 1) AND NOT (MEM_ALIGNMENT - 1) = (n + 3) AND NOT 3"
    by (simp add: MEM_ALIGNMENT_def flip: add_diff_eq)
  then have "unat (LWIP_MEM_ALIGN_SIZE n) = unat (n + 3) - unat (n + 3) mod 4"
    unfolding LWIP_MEM_ALIGN_SIZE_def by (simp only: mask3_round)
  then show ?thesis by (metis minus_mod_eq_mult_div mod_mult_self1_is_0)
qed

lemma unat_u16_bound: "unat (n :: u16) < 65536"
  using unsigned_less [of n] by simp

lemma unat_ucast_u16: "unat w < 65536 \<Longrightarrow> unat (ucast (w :: u32) :: u16) = unat w"
  by (simp add: unsigned_ucast_eq take_bit_eq_mod)

lemma layer_offset_cases: "layer_offset l \<in> {0, 16, 36, 56}"
  by (cases l) (simp_all add: layer_offset_def PBUF_TRANSPORT_HLEN_def PBUF_IP_HLEN_def PBUF_LINK_HLEN_def
      PBUF_LINK_ENCAPSULATION_HLEN_def)

lemma owned_alloc_pool:
  assumes o: "owned s L H"
  shows "pbuf_alloc debug l n PBUF_POOL s = Asserts \<and> \<not> debug
    \<or> (\<exists>p s' L'. pbuf_alloc debug l n PBUF_POOL s = Returns (p, s') \<and> owned s' L' (hold p H))"
proof (cases "memp_tab (memps_of s) MEMP_PBUF_POOL = 0")
  case True
  then show ?thesis
    using o pool_malloc_none [OF ownedD(1) [OF o] _ True, of debug]
    by (cases debug) (auto simp: pbuf_alloc_def Let_def hold_def intro: exI [of _ "0::nat"])
next
  case False
  note O = ownedD [OF o]
  obtain p st where p: "pool_malloc debug MEMP_PBUF_POOL s = Returns (p, s\<lparr>memps_of := st\<rparr>)" "p \<noteq> 0" "p \<notin> L" "p mod 4 = 0"
    "\<forall>s' :: lwip. memps_of s' = st \<and> heap_of s' = heap_of s \<and> bytes s' = bytes s \<and> pool_of (pb_type (pbufs s' p)) = Some MEMP_PBUF_POOL
       \<and> (\<forall>p\<in>L. pb_type (pbufs s' p) = pb_type (pbufs s p)) \<longrightarrow> mem_ok s' (insert p L)"
    by (rule pool_malloc_ok [where debug = debug, OF O(1) disjI2 [OF refl] False]) (rule that)
  define off where "off = unat (layer_offset l)"
  define a where "a = LWIP_MEM_ALIGN (p + (24 + off))"
  define room where "room = (1536 :: u32) - LWIP_MEM_ALIGN_SIZE (ucast (layer_offset l))"
  have room: "unat room = 1536 - off" "off \<le> 56"
    using layer_offset_cases [of l] by (auto simp: room_def off_def LWIP_MEM_ALIGN_SIZE_def MEM_ALIGNMENT_def)
  have "(p + (24 + off)) mod 4 = 0"
    using p(4) layer_offset_cases [of l] by (auto simp: off_def mod_add_left_eq [symmetric])
  then have a: "a mod 4 = 0" "a \<le> p + (24 + off)"
    by (simp_all add: a_def LWIP_MEM_ALIGN_mod4 LWIP_MEM_ALIGN_le)
  define k where "k = (ucast (min (ucast n) room) :: u16)"
  have "unat (ucast n :: u32) = unat n"
  proof -
    have "unat n < 65536" using unsigned_less [of n] by simp
    then show ?thesis by (simp add: unsigned_ucast_eq take_bit_eq_mod)
  qed
  then have "unat (min (ucast n) room) = min (unat n) (1536 - off)"
    using room(1) by (simp add: min_def word_le_nat_alt)
  then have k: "unat k = min (unat n) (1536 - off)"
    unfolding k_def using unat_ucast_u16 [of "min (ucast n) room"] by simp
  define s1 where "s1 = s\<lparr>memps_of := st, pbufs := (pbufs s)(p := (pbufs s p)\<lparr>pb_type := PBUF_POOL, pb_next := 0, payload := a,
    tot_len := n, len := k, ref := 1\<rparr>)\<rparr>"
  have o1: "owned s1 (insert p L) (hold p H)"
  proof (rule owned_new [OF o p(3,2)])
    show "mem_ok s1 (insert p L)"
      by (rule p(5) [rule_format]) (use p(3) in \<open>auto simp: s1_def pool_of_def\<close>)
  qed (use p(3) in \<open>auto simp: s1_def\<close>)
  let ?finish = "\<lambda>s. set_pbuf p (\<lambda>b. b\<lparr>ref := 1, flags := 0\<rparr>) s"
  have e: "pbuf_alloc debug l n PBUF_POOL s = obind (pbuf_alloc_tail debug p p (unat n - unat k) s1)
      (\<lambda>(ok, s). if ok then Returns (p, ?finish s) else Returns (0, s))"
  proof -
    have "a + unat k \<le> p + 1560" using a(2) k room(2) by simp
    moreover have "room > 0" using room by (simp add: word_less_nat_alt)
    ultimately show ?thesis
      using p(1,2) a(1) by (simp add: pbuf_alloc_def Let_def LWIP_ASSERT_def s1_def fun_upd_twist
        a_def [symmetric] off_def [symmetric] room_def [symmetric] k_def [symmetric] del: pbuf_alloc_tail.simps)
  qed
  have "hold p H p > 0" "p \<in> insert p L" using p(2) by (simp_all add: hold_def)
  moreover have "ref (pbufs s1 p) = 1" "pb_next (pbufs s1 p) = 0" "payload (pbufs s1 p) + unat (len (pbufs s1 p)) \<le> p + 1560"
    using a(2) k room(2) by (simp_all add: s1_def)
  moreover have "unat n - unat k < 0xffff" using k room(2) unat_u16_bound [of n] by linarith
  ultimately consider "pbuf_alloc_tail debug p p (unat n - unat k) s1 = Asserts" "\<not> debug"
    | s' L' where "pbuf_alloc_tail debug p p (unat n - unat k) s1 = Returns (True, s')" "owned s' L' (hold p H)" "ref (pbufs s' p) = 1"
    | s' L' where "pbuf_alloc_tail debug p p (unat n - unat k) s1 = Returns (False, s')" "owned s' L' (drop_ptr p (hold p H))"
    using alloc_tail_ok [OF o1, of p p "unat n - unat k" debug] by blast
  then show ?thesis
  proof cases
    case 1
    then show ?thesis using e by simp
  next
    case (2 s' L')
    have "owned (?finish s') L' (hold p H)" by (rule owned_same [OF 2(2)]) (use 2(3) in auto)
    then show ?thesis using e 2(1) by auto
  next
    case (3 s' L')
    then have "owned s' L' (hold 0 H)" by (simp add: drop_hold [OF p(2)]) (simp add: hold_def)
    then show ?thesis using e 3(1) by auto
  qed
qed

lemma owned_alloc_ref:
  assumes o: "owned s L H" and ty: "ty = PBUF_ROM \<or> ty = PBUF_REF"
  shows "pbuf_alloc debug l n ty s = Asserts \<and> \<not> debug
    \<or> (\<exists>p s' L'. pbuf_alloc debug l n ty s = Returns (p, s') \<and> owned s' L' (hold p H))"
proof (cases "memp_tab (memps_of s) MEMP_PBUF = 0")
  case True
  then show ?thesis
    using o ty pool_malloc_none [OF ownedD(1) [OF o] _ True, of debug]
    by (cases debug) (auto simp: pbuf_alloc_def Let_def hold_def intro: exI [of _ "0::nat"])
next
  case False
  note O = ownedD [OF o]
  obtain p st where p: "pool_malloc debug MEMP_PBUF s = Returns (p, s\<lparr>memps_of := st\<rparr>)" "p \<noteq> 0" "p \<notin> L" "p mod 4 = 0"
    "\<forall>s' :: lwip. memps_of s' = st \<and> heap_of s' = heap_of s \<and> bytes s' = bytes s \<and> pool_of (pb_type (pbufs s' p)) = Some MEMP_PBUF
       \<and> (\<forall>p\<in>L. pb_type (pbufs s' p) = pb_type (pbufs s p)) \<longrightarrow> mem_ok s' (insert p L)"
    by (rule pool_malloc_ok [where debug = debug, OF O(1) disjI1 [OF refl] False]) (rule that)
  define s1 where "s1 = s\<lparr>memps_of := st, pbufs := (pbufs s)(p := (pbufs s p)\<lparr>payload := 0, len := n, tot_len := n, pb_next := 0,
    pb_type := ty, ref := 1, flags := 0\<rparr>)\<rparr>"
  have "owned s1 (insert p L) (hold p H)"
  proof (rule owned_new [OF o p(3,2)])
    show "mem_ok s1 (insert p L)"
      by (rule p(5) [rule_format]) (use p(3) ty in \<open>auto simp: s1_def pool_of_def\<close>)
  qed (use p(3) in \<open>auto simp: s1_def\<close>)
  moreover have "pbuf_alloc debug l n ty s = Returns (p, s1)"
    using p(1,2) ty by (auto simp: pbuf_alloc_def Let_def s1_def)
  ultimately show ?thesis by blast
qed

lemma owned_alloc_ram:
  assumes o: "owned s L H"
  shows "\<exists>p s' L'. pbuf_alloc debug l n PBUF_RAM s = Returns (p, s') \<and> owned s' L' (hold p H)"
proof -
  note O = ownedD [OF o]
  define off where "off = layer_offset l"
  define k where "k = (ucast (LWIP_MEM_ALIGN_SIZE (24 + ucast off) + LWIP_MEM_ALIGN_SIZE (ucast n)) :: u16)"
  define a where "a p = LWIP_MEM_ALIGN (p + 24 + unat off)" for p
  have a: "a p mod 4 = 0" for p by (simp add: a_def LWIP_MEM_ALIGN_mod4)
  define x where "x = LWIP_MEM_ALIGN_SIZE (24 + ucast off) + LWIP_MEM_ALIGN_SIZE (ucast n)"
  have "unat x mod 4 = (unat (LWIP_MEM_ALIGN_SIZE (24 + ucast off)) + unat (LWIP_MEM_ALIGN_SIZE (ucast n))) mod 4"
    by (simp add: x_def unat_word_ariths mod_mod_cancel)
  also have "\<dots> = 0" using LWIP_MEM_ALIGN_SIZE_mod4 by (simp add: mod_add_eq [symmetric])
  finally have "unat k mod 4 = 0" by (simp add: k_def x_def [symmetric] unsigned_ucast_eq take_bit_eq_mod mod_mod_cancel)
  moreover have "unat k < 65536" using unsigned_less [of k] by simp
  ultimately have k: "unat k \<le> 65532" by presburger
  show ?thesis
  proof (cases "ucast k < LWIP_MEM_ALIGN_SIZE (ucast n)")
    case True
    then have "pbuf_alloc debug l n PBUF_RAM s = Returns (0, s)"
      by (simp add: pbuf_alloc_def Let_def off_def [symmetric] k_def [symmetric])
    then show ?thesis using o by (auto simp: hold_def)
  next
    case False
    obtain p h where p: "mem_malloc debug k (heap_of s) = Returns (p, h)"
      "p = 0 \<Longrightarrow> mem_ok (s\<lparr>heap_of := h\<rparr>) L" "p \<noteq> 0 \<Longrightarrow> p \<notin> L"
      "p \<noteq> 0 \<Longrightarrow> \<forall>s' :: lwip. memps_of s' = memps_of s \<and> heap_of s' = h \<and> bytes s' = bytes s
         \<and> pb_type (pbufs s' p) = PBUF_RAM \<and> (\<forall>p\<in>L. pb_type (pbufs s' p) = pb_type (pbufs s p)) \<longrightarrow> mem_ok s' (insert p L)"
      by (rule heap_malloc_ok [OF O(1) k]) (rule that)
    define s1 where "s1 = s\<lparr>heap_of := h, pbufs := (pbufs s)(p := (pbufs s p)\<lparr>payload := a p, len := n, tot_len := n, pb_next := 0,
      pb_type := PBUF_RAM, ref := 1, flags := 0\<rparr>)\<rparr>"
    have e: "pbuf_alloc debug l n PBUF_RAM s = (if p = 0 then Returns (0, s\<lparr>heap_of := h\<rparr>) else Returns (p, s1))"
      using False p(1) a [of p]
      by (simp add: pbuf_alloc_def Let_def LWIP_ASSERT_def off_def [symmetric] k_def [symmetric] a_def [symmetric] s1_def)
    show ?thesis
    proof (cases "p = 0")
      case True
      have "owned (s\<lparr>heap_of := h\<rparr>) L H"
        unfolding owned_def
      proof (intro conjI)
        show "mem_ok (s\<lparr>heap_of := h\<rparr>) L" by (rule p(2) [OF True])
        show "counted (s\<lparr>heap_of := h\<rparr>) L H" by (rule counted_cong [OF O(2)]) simp
        show "\<forall>p\<in>L. \<exists>xs. chain (s\<lparr>heap_of := h\<rparr>) p xs" using o by (simp add: owned_def chain_def)
      qed
      then show ?thesis using e True by (auto simp: hold_def)
    next
      case False
      have "owned s1 (insert p L) (hold p H)"
      proof (rule owned_new [OF o p(3) [OF False] False])
        show "mem_ok s1 (insert p L)"
          by (rule p(4) [OF False, rule_format]) (use p(3) False in \<open>auto simp: s1_def\<close>)
      qed (use p(3) False in \<open>auto simp: s1_def\<close>)
      then show ?thesis using e False by auto
    qed
  qed
qed

end
