(* ===== verification/Memp_Init.thy ===== *)
theory Memp_Init
  imports Pbuf_Own
begin

text \<open>
  The memory that \<open>lwip_init\<close> sets up: after \<open>memp_init\<close> and \<open>mem_init\<close> the two pools of pbufs hold
  all their elements, all guard bytes are in place and the heap is one free block, so \<open>mem_ok\<close> holds
  with no pbuf in use.
\<close>

section \<open>One pool\<close>

lemma memp_init_elements_pools [simp]:
  "memp_pools (fst (memp_init_elements n ty e s)) = memp_pools (fst s)"
  by (induction n ty e s rule: memp_init_elements.induct) simp_all

lemma memp_init_elements_tab:
  "ty' \<noteq> ty \<Longrightarrow> memp_tab (fst (memp_init_elements n ty e s)) ty' = memp_tab (fst s) ty'"
  by (induction n ty e s rule: memp_init_elements.induct) simp_all

lemma overflow_init_outside:
  "x < e + 12 \<or> e + memp_stride d \<le> x \<Longrightarrow> memp_overflow_init_element e d m x = m x"
  by (auto simp: memp_overflow_init_element_def Let_def memp_stride_def wr_def)

lemma overflow_init_guards: "e mod 4 = 0 \<Longrightarrow> guards_ok d (memp_overflow_init_element e d m) e"
proof -
  assume "e mod 4 = 0"
  moreover have "rd (memp_overflow_init_element e d m) (e + 28 + unat (d_size d)) 16 = replicate 16 0xcd"
    unfolding memp_overflow_init_element_def Let_def by (simp only: memp_constants) (rule rd_wr_same, simp)
  moreover have "rd (memp_overflow_init_element e d m) (12 + e) 16 = replicate 16 0xcd"
    unfolding memp_overflow_init_element_def Let_def
    by (rule nth_equalityI) (auto simp: wr_def)
  ultimately show ?thesis by (simp add: guards_ok_def)
qed

lemma guards_ok_cong:
  "guards_ok d m e \<Longrightarrow> (\<And>x. e + 12 \<le> x \<Longrightarrow> x < e + memp_stride d \<Longrightarrow> m' x = m x) \<Longrightarrow> guards_ok d m' e"
proof -
  assume g: "guards_ok d m e" and c: "\<And>x. e + 12 \<le> x \<Longrightarrow> x < e + memp_stride d \<Longrightarrow> m' x = m x"
  have "rd m' (e + 28 + unat (d_size d)) 16 = rd m (e + 28 + unat (d_size d)) 16" "rd m' (12 + e) 16 = rd m (12 + e) 16"
    by (rule rd_cong, rule c, simp_all add: memp_stride_def)+
  then show ?thesis using g by (simp add: guards_ok_def)
qed

definition elems_from :: "nat \<Rightarrow> nat \<Rightarrow> memp_desc \<Rightarrow> nat set" where
  "elems_from e n d = (\<lambda>i. e + i * memp_stride d) ` {..<n}"

lemma elems_from_Suc: "elems_from e (Suc n) d = insert e (elems_from (e + memp_stride d) n d)"
proof -
  have "{..<Suc n} = insert 0 (Suc ` {..<n})" using lessThan_Suc_eq_insert_0 by blast
  then show ?thesis by (auto simp: elems_from_def image_image add.assoc)
qed

lemma elems_from_ge: "x \<in> elems_from e n d \<Longrightarrow> e \<le> x"
  by (auto simp: elems_from_def)

lemma elems_from_le: "x \<in> elems_from e n d \<Longrightarrow> x + memp_stride d \<le> e + n * memp_stride d"
proof -
  assume "x \<in> elems_from e n d"
  then obtain i where i: "i < n" "x = e + i * memp_stride d" by (auto simp: elems_from_def)
  then have "Suc i * memp_stride d \<le> n * memp_stride d" by (intro mult_le_mono1) simp
  then show ?thesis using i(2) by simp
qed

lemma stride_pos: "0 < memp_stride d"
  by (simp add: memp_stride_def)

lemma memp_init_elements_outside:
  "(x < e \<or> e + n * memp_stride (memp_pools (fst s) ty) \<le> x \<Longrightarrow> snd (memp_init_elements n ty e s) x = snd s x)"
  "(x < e \<or> e + n * memp_stride (memp_pools (fst s) ty) \<le> x \<Longrightarrow>
     memp_next (fst (memp_init_elements n ty e s)) x = memp_next (fst s) x)"
proof (induction n ty e s rule: memp_init_elements.induct)
  case (2 n ty e st m)
  note pos = stride_pos [of "memp_pools st ty"]
  {
    case 1
    then have "x < e + memp_stride (memp_pools st ty) \<or> e + memp_stride (memp_pools st ty) + n * memp_stride (memp_pools st ty) \<le> x"
      "x < e + 12 \<or> e + memp_stride (memp_pools st ty) \<le> x" by auto
    then show ?case using 2(1) overflow_init_outside [of x e "memp_pools st ty" m] by simp
  next
    case 2
    then have "x < e + memp_stride (memp_pools st ty) \<or> e + memp_stride (memp_pools st ty) + n * memp_stride (memp_pools st ty) \<le> x"
      "x \<noteq> e" using pos by auto
    then show ?case using "2.IH"(2) by simp
  }
qed simp_all

lemma memp_init_elements_ok:
  assumes "pool_free st ty xs" and "0 < e" and "e mod 4 = 0" and "unat (d_size (memp_pools st ty)) mod 4 = 0"
    and "\<forall>x\<in>set xs. x < e"
  defines "d \<equiv> memp_pools st ty"
  shows "\<exists>ys. pool_free (fst (memp_init_elements n ty e (st, m))) ty (ys @ xs) \<and> set ys = elems_from e n d
    \<and> (\<forall>x\<in>set ys. guards_ok d (snd (memp_init_elements n ty e (st, m))) x)"
  using assms(1-5) unfolding d_def
proof (induction n arbitrary: e st m xs)
  case 0
  then show ?case by (intro exI [of _ "[]"]) (simp add: elems_from_def)
next
  case (Suc n)
  let ?d = "memp_pools st ty"
  let ?st = "st\<lparr>memp_next := (memp_next st)(e := memp_tab st ty), memp_tab := (memp_tab st)(ty := e)\<rparr>"
  let ?m = "memp_overflow_init_element e ?d m" and ?e = "e + memp_stride ?d"
  have "e \<notin> set xs" using Suc.prems(5) by blast
  then have "pool_free ?st ty (e # xs)" using Suc.prems(1,2) by (simp add: pool_free_def)
  moreover have "?e mod 4 = 0" using Suc.prems(3,4) unfolding memp_stride_def by simp presburger
  moreover have "\<forall>x\<in>set (e # xs). x < ?e" using Suc.prems(5) stride_pos [of ?d] by auto
  ultimately obtain ys where ys: "pool_free (fst (memp_init_elements n ty ?e (?st, ?m))) ty (ys @ e # xs)"
    "set ys = elems_from ?e n ?d" "\<forall>x\<in>set ys. guards_ok ?d (snd (memp_init_elements n ty ?e (?st, ?m))) x"
    using Suc.IH [of ?st "e # xs" ?e ?m] Suc.prems(2,4) by auto
  have "guards_ok ?d (snd (memp_init_elements n ty ?e (?st, ?m))) e"
    by (rule guards_ok_cong [OF overflow_init_guards [OF Suc.prems(3), of ?d m]])
      (simp add: memp_init_elements_outside(1))
  then show ?case
    using ys by (intro exI [of _ "ys @ [e]"]) (simp add: elems_from_Suc)
qed

section \<open>The pools of pbufs and the heap\<close>

lemma pool_elems_from: "pool_elems d = elems_from (LWIP_MEM_ALIGN (d_base d)) (unat (d_num d)) d"
  by (simp add: pool_elems_def elems_from_def)

lemma memp_init_pool_pools [simp]: "memp_pools (fst (memp_init_pool ty s)) = memp_pools (fst s)"
  by (cases s) (simp add: memp_init_pool_def)

lemma memp_init_pool_ok:
  assumes "0 < LWIP_MEM_ALIGN (d_base (memp_pools (fst s) ty))" and "unat (d_size (memp_pools (fst s) ty)) mod 4 = 0"
  shows "pool_ok (fst (memp_init_pool ty s)) (snd (memp_init_pool ty s)) ty {}"
proof -
  obtain st m where s: "s = (st, m)" by (cases s)
  let ?d = "memp_pools st ty" and ?st = "st\<lparr>memp_tab := (memp_tab st)(ty := 0)\<rparr>"
  have "pool_free ?st ty []" by (simp add: pool_free_def)
  then obtain ys where ys: "pool_free (fst (memp_init_pool ty s)) ty ys" "set ys = pool_elems ?d"
    "\<forall>x\<in>set ys. guards_ok ?d (snd (memp_init_pool ty s)) x"
    using memp_init_elements_ok [of ?st ty "[]" "LWIP_MEM_ALIGN (d_base ?d)" "unat (d_num ?d)" m] assms
    by (auto simp: s memp_init_pool_def pool_elems_from LWIP_MEM_ALIGN_mod4)
  moreover have "\<forall>x\<in>set ys. 0 < x" using links_nonzero [OF ys(1) [unfolded pool_free_def]] by (metis gr0I)
  ultimately show ?thesis by (auto simp: pool_ok_def s)
qed

lemma memp_init_pool_other:
  assumes ok: "pool_ok (fst s) (snd s) ty {}" and ty: "ty' \<noteq> ty"
    and apart: "\<forall>e\<in>pool_elems (memp_pools (fst s) ty). \<forall>x\<in>{e..<e + memp_stride (memp_pools (fst s) ty)}.
      x < LWIP_MEM_ALIGN (d_base (memp_pools (fst s) ty')) \<or>
      LWIP_MEM_ALIGN (d_base (memp_pools (fst s) ty')) + unat (d_num (memp_pools (fst s) ty')) * memp_stride (memp_pools (fst s) ty') \<le> x"
  shows "pool_ok (fst (memp_init_pool ty' s)) (snd (memp_init_pool ty' s)) ty {}"
proof -
  obtain st m where s: "s = (st, m)" by (cases s)
  let ?st = "st\<lparr>memp_tab := (memp_tab st)(ty' := 0)\<rparr>"
  let ?r = "memp_init_elements (unat (d_num (memp_pools st ty'))) ty' (LWIP_MEM_ALIGN (d_base (memp_pools st ty'))) (?st, m)"
  have r: "memp_init_pool ty' s = ?r" by (simp add: s memp_init_pool_def)
  have out: "snd ?r x = m x" "memp_next (fst ?r) x = memp_next st x"
    if "e \<in> pool_elems (memp_pools st ty)" "e \<le> x" "x < e + memp_stride (memp_pools st ty)" for e x
    using memp_init_elements_outside [of x _ _ "(?st, m)" ty'] apart that by (auto simp: s)
  have "pool_ok (fst ?r) m ty {}"
    by (rule pool_ok_cong [OF ok [unfolded s fst_conv snd_conv]])
      (use ty out(2) stride_pos [of "memp_pools st ty"] in \<open>auto simp: memp_init_elements_tab s\<close>)
  moreover have "guards_ok (memp_pools st ty) (snd ?r) e" if e: "e \<in> pool_elems (memp_pools st ty)" for e
  proof (rule guards_ok_cong)
    show "guards_ok (memp_pools st ty) m e" using ok e by (simp add: pool_ok_def s)
  qed (use out(1) [OF e] in auto)
  ultimately show ?thesis by (auto simp: r pool_ok_def)
qed

text \<open>
  What the linker does with the arrays: the elements are whole words, and the arrays of the two pools
  and the heap do not overlap.
\<close>

definition pool_area :: "memp_desc \<Rightarrow> nat \<times> nat" where
  "pool_area d = (LWIP_MEM_ALIGN (d_base d), LWIP_MEM_ALIGN (d_base d) + unat (d_num d) * memp_stride d)"

definition apart :: "nat \<times> nat \<Rightarrow> nat \<times> nat \<Rightarrow> bool" where
  "apart a b \<longleftrightarrow> snd a \<le> fst b \<or> snd b \<le> fst a"

definition linked_ok :: "memps \<Rightarrow> nat \<Rightarrow> bool" where
  "linked_ok st ram_heap \<longleftrightarrow> 0 < ram_heap \<and> ram_heap < 2 ^ 31
     \<and> (\<forall>ty\<in>{MEMP_PBUF, MEMP_PBUF_POOL}. unat (d_size (memp_pools st ty)) mod 4 = 0 \<and> 0 < fst (pool_area (memp_pools st ty))
         \<and> apart (pool_area (memp_pools st ty)) ((ram_heap + 3) div 4 * 4, (ram_heap + 3) div 4 * 4 + 16384))
     \<and> apart (pool_area (memp_pools st MEMP_PBUF)) (pool_area (memp_pools st MEMP_PBUF_POOL))"

text \<open>The two calls of \<open>lwip_init\<close> that set up memory.\<close>

definition lwip_boot :: "nat \<Rightarrow> lwip \<Rightarrow> lwip" where
  "lwip_boot ram_heap s =
     (let s = s\<lparr>heap_of := mem_init ram_heap (heap_of s)\<rparr>;
          (st, m) = memp_init (memps_of s, bytes s)
      in s\<lparr>memps_of := st, bytes := m\<rparr>)"

lemma fold_memp_init_pools: "memp_pools (fst (fold memp_init_pool tys s)) = memp_pools (fst s)"
  by (induction tys arbitrary: s) simp_all

lemma elem_in_area:
  "e \<in> pool_elems d \<Longrightarrow> fst (pool_area d) \<le> e \<and> e + memp_stride d \<le> snd (pool_area d)"
  using elems_from_ge elems_from_le by (fastforce simp: pool_elems_from pool_area_def)

lemma boot_mem_ok:
  assumes "linked_ok (memps_of s) ram_heap"
  shows "mem_ok (lwip_boot ram_heap s) {}"
proof -
  let ?h = "mem_init ram_heap (heap_of s)"
  define s11 where "s11 = fold memp_init_pool [MEMP_RAW_PCB, MEMP_UDP_PCB, MEMP_TCP_PCB, MEMP_TCP_PCB_LISTEN,
    MEMP_TCP_SEG, MEMP_REASSDATA, MEMP_TCPIP_MSG_API, MEMP_ARP_QUEUE, MEMP_IGMP_GROUP,
    MEMP_SYS_TIMEOUT] (memps_of s, bytes s)"
  define s12 where "s12 = memp_init_pool MEMP_PBUF s11"
  define s13 where "s13 = memp_init_pool MEMP_PBUF_POOL s12"
  have i: "memp_init (memps_of s, bytes s) = s13" by (simp add: memp_init_def s11_def s12_def s13_def)
  have p11: "memp_pools (fst s11) = memp_pools (memps_of s)" unfolding s11_def by (simp add: fold_memp_init_pools)
  then have p: "memp_pools (fst s12) = memp_pools (memps_of s)" "memp_pools (fst s13) = memp_pools (memps_of s)"
    by (simp_all add: s12_def s13_def)
  let ?d1 = "memp_pools (memps_of s) MEMP_PBUF" and ?d2 = "memp_pools (memps_of s) MEMP_PBUF_POOL"
  note L = assms [unfolded linked_ok_def pool_area_def, simplified]
  have o1: "pool_ok (fst s12) (snd s12) MEMP_PBUF {}"
    unfolding s12_def by (rule memp_init_pool_ok) (use L in \<open>simp_all add: p11\<close>)
  have ap: "apart (pool_area ?d1) (pool_area ?d2)" using assms by (simp add: linked_ok_def)
  have "pool_ok (fst s13) (snd s13) MEMP_PBUF {}"
    unfolding s13_def
    by (rule memp_init_pool_other [OF o1]) (use ap elem_in_area [of _ ?d1] in \<open>fastforce simp: p apart_def pool_area_def\<close>)+
  moreover have "pool_ok (fst s13) (snd s13) MEMP_PBUF_POOL {}"
    unfolding s13_def by (rule memp_init_pool_ok) (use L in \<open>simp_all add: p\<close>)
  moreover have "layout_ok (fst s13) (ram ?h)"
  proof -
    have r: "ram ?h = (ram_heap + 3) div 4 * 4" using mem_init_inv(2) [of ram_heap] assms by (simp add: linked_ok_def)
    have "pool_elems ?d1 \<inter> pool_elems ?d2 = {}"
      using ap elem_in_area [of _ ?d1] elem_in_area [of _ ?d2] stride_pos [of ?d1] stride_pos [of ?d2]
      unfolding apart_def by fastforce
    moreover have "e + 28 \<notin> {ram ?h..<ram ?h + 16384}" if e: "e \<in> pool_elems d" and d: "d = ?d1 \<or> d = ?d2" for e d
    proof -
      have "apart (pool_area d) (ram ?h, ram ?h + 16384)" using assms d r by (auto simp: linked_ok_def)
      then show ?thesis using elem_in_area [OF e] by (auto simp: apart_def memp_stride_def)
    qed
    ultimately show ?thesis by (auto simp: layout_ok_def p)
  qed
  moreover have "mem_state ?h Map.empty" by (rule init_state) (use assms in \<open>simp_all add: linked_ok_def\<close>)
  ultimately show ?thesis
    by (auto simp: mem_ok_def lwip_boot_def i of_pool_def split: prod.splits)
qed

end
