(* ===== verification/Pbuf_Run.thy ===== *)
theory Pbuf_Run
  imports Memp_Init
begin

text \<open>
  Runs of the packet buffers: clients allocate, share, free, join and split packets, move their
  headers and write payloads, in any order, through the pointers they hold. In every such run the
  counts are the numbers of pointers, no packet is lost, and freeing a packet frees just the pbufs at
  the head of its chain that nobody else holds.
\<close>

section \<open>Runs\<close>

text \<open>The guard bytes of the pools, which no client may write.\<close>

definition guard_bytes :: "memps \<Rightarrow> nat set" where
  "guard_bytes st = (\<Union>ty\<in>{MEMP_PBUF, MEMP_PBUF_POOL}. \<Union>e\<in>pool_elems (memp_pools st ty).
     {e + 12..<e + 28} \<union> {e + 28 + unat (d_size (memp_pools st ty))..<e + memp_stride (memp_pools st ty)})"

text \<open>
  \<open>H p\<close> is the number of pointers to \<open>p\<close> that clients hold. Joining two packets takes chains that do
  not share a pbuf, and a count must not be at its limit when it is raised.
\<close>

inductive pbuf_run :: "bool \<Rightarrow> lwip \<Rightarrow> lwip \<Rightarrow> (nat \<Rightarrow> nat) \<Rightarrow> bool" for debug s0 where
  boot: "pbuf_run debug s0 s0 (\<lambda>_. 0)"
| alloc: "pbuf_run debug s0 s H \<Longrightarrow> pbuf_alloc debug l n ty s = Returns (p, s') \<Longrightarrow> pbuf_run debug s0 s' (hold p H)"
| refer: "pbuf_run debug s0 s H \<Longrightarrow> 0 < H p \<Longrightarrow> ref (pbufs s p) \<noteq> 0xffff \<Longrightarrow> pbuf_ref debug p s = Returns s' \<Longrightarrow>
     pbuf_run debug s0 s' (hold p H)"
| free: "pbuf_run debug s0 s H \<Longrightarrow> 0 < H p \<Longrightarrow> pbuf_free debug p s = Returns (n, s') \<Longrightarrow>
     pbuf_run debug s0 s' (drop_ptr p H)"
| cat: "pbuf_run debug s0 s H \<Longrightarrow> 0 < H h \<Longrightarrow> 0 < H t \<Longrightarrow> chain s h xs \<Longrightarrow> chain s t ys \<Longrightarrow> set xs \<inter> set ys = {} \<Longrightarrow>
     pbuf_cat debug h t s = Returns s' \<Longrightarrow> pbuf_run debug s0 s' (drop_ptr t H)"
| chain: "pbuf_run debug s0 s H \<Longrightarrow> 0 < H h \<Longrightarrow> 0 < H t \<Longrightarrow> chain s h xs \<Longrightarrow> chain s t ys \<Longrightarrow> set xs \<inter> set ys = {} \<Longrightarrow>
     ref (pbufs s t) \<noteq> 0xffff \<Longrightarrow> pbuf_chain debug h t s = Returns s' \<Longrightarrow> pbuf_run debug s0 s' H"
| dechain: "pbuf_run debug s0 s H \<Longrightarrow> 0 < H p \<Longrightarrow> pbuf_dechain debug p s = Returns (q, s') \<Longrightarrow> pbuf_run debug s0 s' H"
| header: "pbuf_run debug s0 s H \<Longrightarrow> 0 < H p \<Longrightarrow> pbuf_header debug p i s = Returns (r, s') \<Longrightarrow> pbuf_run debug s0 s' H"
| fill: "pbuf_run debug s0 s H \<Longrightarrow> \<forall>x\<in>guard_bytes (memps_of s). m x = bytes s x \<Longrightarrow>
     pbuf_run debug s0 (s\<lparr>bytes := m\<rparr>) H"

section \<open>Every call keeps ownership\<close>

lemma owned_alloc:
  assumes "owned s L H"
  shows "pbuf_alloc debug l n ty s = Asserts \<and> \<not> debug
    \<or> (\<exists>p s' L'. pbuf_alloc debug l n ty s = Returns (p, s') \<and> owned s' L' (hold p H))"
  using owned_alloc_pool [OF assms] owned_alloc_ram [OF assms] owned_alloc_ref [OF assms]
  by (cases ty) blast+

lemma header_fields:
  assumes "pbuf_header debug p i s = Returns (r, s')"
  shows "memps_of s' = memps_of s \<and> heap_of s' = heap_of s \<and> bytes s' = bytes s
    \<and> pb_type (pbufs s' q) = pb_type (pbufs s q) \<and> ref (pbufs s' q) = ref (pbufs s q) \<and> pb_next (pbufs s' q) = pb_next (pbufs s q)"
  using assms
  by (auto simp: pbuf_header_def pbuf_header_impl_def Let_def LWIP_ASSERT_def LWIP_ERROR_def
      split: if_splits pbuf_type.splits)

lemma owned_header:
  assumes "owned s L H" and "pbuf_header debug p i s = Returns (r, s')"
  shows "owned s' L H"
  by (rule owned_same [OF assms(1)]) (use header_fields [OF assms(2)] in auto)

lemma owned_write:
  assumes o: "owned s L H" and m: "\<forall>x\<in>guard_bytes (memps_of s). m x = bytes s x"
  shows "owned (s\<lparr>bytes := m\<rparr>) L H"
proof -
  have "pool_ok (memps_of s) m ty used"
    if ty: "ty \<in> {MEMP_PBUF, MEMP_PBUF_POOL}" and ok: "pool_ok (memps_of s) (bytes s) ty used" for ty used
  proof -
    have "guards_ok (memp_pools (memps_of s) ty) m e" if e: "e \<in> pool_elems (memp_pools (memps_of s) ty)" for e
    proof -
      let ?d = "memp_pools (memps_of s) ty"
      have g: "guards_ok ?d (bytes s) e" using ok e by (simp add: pool_ok_def)
      have sub: "{e + 12..<e + 28} \<union> {e + 28 + unat (d_size ?d)..<e + memp_stride ?d} \<subseteq> guard_bytes (memps_of s)"
        using ty e by (auto simp: guard_bytes_def)
      have "rd m (e + 28 + unat (d_size ?d)) 16 = rd (bytes s) (e + 28 + unat (d_size ?d)) 16"
        "rd m (12 + e) 16 = rd (bytes s) (12 + e) 16"
        by (rule rd_cong, rule m [rule_format], rule subsetD [OF sub], simp add: memp_stride_def)+
      then show ?thesis using g by (simp add: guards_ok_def)
    qed
    then show ?thesis using ok by (simp add: pool_ok_def)
  qed
  moreover have "of_pool (s\<lparr>bytes := m\<rparr>) L ty = of_pool s L ty" for ty by (simp add: of_pool_def)
  ultimately have "mem_ok (s\<lparr>bytes := m\<rparr>) L" using ownedD(1) [OF o] by (simp add: mem_ok_def)
  moreover have "counted (s\<lparr>bytes := m\<rparr>) L H" by (rule counted_cong [OF ownedD(2) [OF o]]) simp
  ultimately show ?thesis using o by (simp add: owned_def chain_def)
qed

lemma hold_drop: "0 < H t \<Longrightarrow> t \<noteq> 0 \<Longrightarrow> hold t (drop_ptr t H) = H"
  by (rule ext) (simp add: hold_def drop_ptr_def)

lemma owned_chain:
  assumes o: "owned s L H" and h: "0 < H h" "0 < H t" and c: "chain s h xs" "chain s t ys" "set xs \<inter> set ys = {}"
    and r: "ref (pbufs s t) \<noteq> 0xffff"
  shows "pbuf_chain debug h t s = Asserts \<and> \<not> debug \<or> (\<exists>s'. pbuf_chain debug h t s = Returns s' \<and> owned s' L H)"
proof -
  have hL: "h \<in> L" "t \<in> L" using countedD(4) [OF ownedD(2) [OF o]] h by blast+
  then have t0: "t \<noteq> 0" using ownedD(4) [OF o] by metis
  consider "pbuf_cat debug h t s = Asserts" "\<not> debug"
    | s1 where "pbuf_cat debug h t s = Returns s1" "owned s1 L (drop_ptr t H)" "\<forall>q. ref (pbufs s1 q) = ref (pbufs s q)"
    using owned_cat [OF o hL(1) h(2) c, of debug] by blast
  then show ?thesis
  proof cases
    case 1
    then show ?thesis by (simp add: pbuf_chain_def)
  next
    case (2 s1)
    let ?s = "set_pbuf t (\<lambda>b. b\<lparr>ref := ref b + 1\<rparr>) s1"
    note O = ownedD [OF 2(2)]
    have r1: "ref (pbufs s1 t) \<noteq> 0xffff" using 2(3) r by simp
    note ch = counted_hold [OF O(2) hL(2) r1 O(4)]
    have "mem_ok ?s L" by (rule mem_ok_cong [OF O(1)]) auto
    then have "owned ?s L (hold t (drop_ptr t H))"
      using ch(1) 2(2) chain_cong [of ?s s1] by (simp add: owned_def)
    then have "owned ?s L H" by (simp only: hold_drop [of H t, OF h(2) t0])
    moreover have "pbuf_chain debug h t s = Returns ?s"
      using 2(1) t0 ch(2) by (simp add: pbuf_chain_def pbuf_ref_def LWIP_ASSERT_def)
    ultimately show ?thesis by blast
  qed
qed

lemma pbuf_run_owned:
  assumes "pbuf_run debug s0 s H" and "mem_ok s0 {}"
  shows "\<exists>L. owned s L H"
  using assms
proof (induction rule: pbuf_run.induct)
  case boot
  then show ?case by (auto simp: owned_def counted_def)
next
  case (alloc s H l n ty p s')
  then show ?case using owned_alloc [of s _ H debug l n ty] by fastforce
next
  case (refer s H p s')
  then obtain L where o: "owned s L H" by blast
  show ?case by (rule owned_ref [OF o refer(2,3), of debug]) (use refer(4) in auto)
next
  case (free s H p n s')
  then obtain L where o: "owned s L H" by blast
  obtain xs where "chain s p xs" using ownedD(5) [OF o countedD(4) [OF ownedD(2) [OF o] free(2)]] by blast
  then show ?case by (rule owned_free [OF o free(2), of _ debug]) (use free(3) in auto)
next
  case (cat s H h t xs ys s')
  then obtain L where o: "owned s L H" by blast
  show ?case using owned_cat [OF o countedD(4) [OF ownedD(2) [OF o] cat(2)] cat(3-6), of debug] cat(7) by auto
next
  case (chain s H h t xs ys s')
  then obtain L where o: "owned s L H" by blast
  show ?case using owned_chain [OF o chain(2-7), of debug] chain(8) by auto
next
  case (dechain s H p q s')
  then obtain L where o: "owned s L H" by blast
  note c = ownedD(2) [OF o]
  have p: "p \<in> L" by (rule countedD(4) [OF c dechain(2)])
  have "\<exists>xs. chain s (pb_next (pbufs s p)) xs"
    using ownedD(5) [OF o, of "pb_next (pbufs s p)"] countedD(3) [OF c p]
    by (cases "pb_next (pbufs s p) = 0") (auto intro: exI [of _ "[]"])
  then show ?case using owned_dechain [OF o p, of _ debug] dechain(3) by fastforce
next
  case (header s H p i r s')
  then show ?case using owned_header by blast
next
  case (fill s H m)
  then show ?case using owned_write by blast
qed

text \<open>Every pbuf in use is in the chain of a pbuf that a client holds.\<close>

lemma links_length: "counted s L H \<Longrightarrow> finite L \<Longrightarrow> p \<in> L \<Longrightarrow> chain s p xs \<Longrightarrow> length xs \<le> card L"
  using chain_in [of s L H p xs] links_distinct [of "\<lambda>q. pb_next (pbufs s q)" p xs] card_mono [of L "set xs"]
  by (simp add: chain_def distinct_card)

lemma owned_reached:
  assumes o: "owned s L H" and p: "p \<in> L"
  shows "\<exists>h xs. 0 < H h \<and> chain s h xs \<and> p \<in> set xs"
proof -
  note O = ownedD [OF o]
  have "\<forall>xs. chain s p xs \<longrightarrow> p \<in> set xs" using p O(4) by (metis chain_simps(1) list.exhaust chain_simps(2) list.set_intros(1))
  moreover have "r \<in> L \<Longrightarrow> chain s r xs \<Longrightarrow> p \<in> set xs \<Longrightarrow> \<exists>h ys. 0 < H h \<and> chain s h ys \<and> p \<in> set ys" for r xs
  proof (induction "card L - length xs" arbitrary: r xs rule: less_induct)
    case less
    show ?case
    proof (cases "0 < H r")
      case True
      then show ?thesis using less.prems by blast
    next
      case False
      have "0 < card (preds s L r)"
        using countedD(1,2) [OF O(2) less.prems(1)] False by (simp add: word_less_nat_alt)
      then obtain a where a: "a \<in> L" "pb_next (pbufs s a) = r" by (auto simp: preds_def card_gt_0_iff)
      have "a \<noteq> 0" using a(1) O(4) by metis
      then have c: "chain s a (a # xs)" using less.prems(2) a(2) by simp
      have "length (a # xs) \<le> card L" by (rule links_length [OF O(2,3) a(1) c])
      then show ?thesis using less.hyps [of "a # xs" a] c a(1) less.prems(3) by simp
    qed
  qed
  ultimately show ?thesis using O(5) [OF p] p by blast
qed

section \<open>A small system, for the concrete applications of the properties\<close>

text \<open>Two elements in each pool, the arrays at 64 and 200 and the heap at 4096.\<close>

definition lwip_0 :: lwip where
  "lwip_0 = \<lparr>pbufs = (\<lambda>_. \<lparr>pb_next = 0, payload = 0, tot_len = 0, len = 0, pb_type = PBUF_RAM, flags = 0, ref = 0\<rparr>),
     memps_of = \<lparr>memp_pools = (\<lambda>ty. if ty = MEMP_PBUF then \<lparr>d_size = 24, d_num = 2, d_base = 64\<rparr>
         else if ty = MEMP_PBUF_POOL then \<lparr>d_size = 1560, d_num = 2, d_base = 200\<rparr>
         else \<lparr>d_size = 0, d_num = 0, d_base = 0\<rparr>),
       memp_tab = (\<lambda>_. 0), memp_next = (\<lambda>_. 0)\<rparr>,
     heap_of = lwheap_0, bytes = (\<lambda>_. 0)\<rparr>"

definition boot_0 :: lwip where "boot_0 = lwip_boot 4096 lwip_0"

lemma linked_0: "linked_ok (memps_of lwip_0) 4096"
  by (simp add: linked_ok_def lwip_0_def pool_area_def apart_def memp_stride_def LWIP_MEM_ALIGN_round)

text \<open>\<open>memp_init\<close> leaves the last element of a pool at the head of its list.\<close>

lemma memp_init_elements_head:
  "memp_tab (fst (memp_init_elements n ty e s)) ty =
     (if n = 0 then memp_tab (fst s) ty else e + (n - 1) * memp_stride (memp_pools (fst s) ty))"
proof (induction n ty e s rule: memp_init_elements.induct)
  case (2 n ty e st m)
  then show ?case by (cases n) simp_all
qed simp

lemma memp_init_pool_tab:
  "memp_tab (fst (memp_init_pool ty s)) ty' =
     (let d = memp_pools (fst s) ty in
      if ty' \<noteq> ty then memp_tab (fst s) ty' else if unat (d_num d) = 0 then 0
      else LWIP_MEM_ALIGN (d_base d) + (unat (d_num d) - 1) * memp_stride d)"
  by (cases s) (simp add: memp_init_pool_def memp_init_elements_head memp_init_elements_tab Let_def del: memp_init_elements.simps)

lemma boot_0_simps:
  "heap_of boot_0 = mem_init 4096 lwheap_0" "memp_pools (memps_of boot_0) = memp_pools (memps_of lwip_0)"
  "memp_tab (memps_of boot_0) MEMP_PBUF = 132" "pbufs boot_0 = pbufs lwip_0"
proof -
  show "heap_of boot_0 = mem_init 4096 lwheap_0" "pbufs boot_0 = pbufs lwip_0"
    by (simp_all add: boot_0_def lwip_boot_def lwip_0_def Let_def split: prod.splits)
  obtain st m where r: "memp_init (memps_of lwip_0, bytes lwip_0) = (st, m)" by (cases "memp_init (memps_of lwip_0, bytes lwip_0)")
  have b: "memps_of boot_0 = st" by (simp add: boot_0_def lwip_boot_def r Let_def)
  have "memp_pools (fst (memp_init (memps_of lwip_0, bytes lwip_0))) = memp_pools (memps_of lwip_0)"
    by (simp only: memp_init_def fold_memp_init_pools fst_conv)
  then show "memp_pools (memps_of boot_0) = memp_pools (memps_of lwip_0)" by (simp add: r b)
  have "memp_tab (fst (memp_init (memps_of lwip_0, bytes lwip_0))) MEMP_PBUF = 132"
    by (simp add: memp_init_def memp_init_pool_tab Let_def) (simp add: lwip_0_def LWIP_MEM_ALIGN_round memp_stride_def)
  then show "memp_tab (memps_of boot_0) MEMP_PBUF = 132" by (simp add: r b)
qed

text \<open>A run: 76 bytes from the heap, a reference to 50 bytes, and the second packet appended to the first.\<close>

lemma demo_run:
  "\<exists>s. pbuf_run False boot_0 s (\<lambda>p. if p = 4104 then 1 else 0) \<and> chain s 4104 [4104, 160]
     \<and> ref (pbufs s 4104) = 1 \<and> ref (pbufs s 160) = 1"
proof -
  obtain h where h: "mem_malloc False 100 (mem_init 4096 lwheap_0) = Returns (4104, h)" using boot_malloc by blast
  define s1 where "s1 = boot_0\<lparr>heap_of := h, pbufs := (pbufs boot_0)(4104 := (pbufs boot_0 4104)\<lparr>payload := 4128, len := 76,
    tot_len := 76, pb_next := 0, pb_type := PBUF_RAM, ref := 1, flags := 0\<rparr>)\<rparr>"
  have len: "ucast (LWIP_MEM_ALIGN_SIZE (24 + ucast (layer_offset PBUF_RAW)) + LWIP_MEM_ALIGN_SIZE (ucast (76 :: u16))) = (100 :: u16)"
    "\<not> (ucast (100 :: u16) :: u32) < LWIP_MEM_ALIGN_SIZE (ucast (76 :: u16))" by code_simp+
  have lo: "unat (layer_offset PBUF_RAW) = 0" by (simp add: layer_offset_def)
  have a1: "pbuf_alloc False PBUF_RAW 76 PBUF_RAM boot_0 = Returns (4104, s1)"
    using h len lo by (simp add: pbuf_alloc_def Let_def boot_0_simps s1_def LWIP_MEM_ALIGN_round)
  have r1: "pbuf_run False boot_0 s1 (hold 4104 (\<lambda>_. 0))" by (rule pbuf_run.alloc [OF pbuf_run.boot a1])
  have ok: "mem_ok boot_0 {}" unfolding boot_0_def by (rule boot_mem_ok [OF linked_0])
  obtain st where st: "memp_malloc False MEMP_PBUF (bytes boot_0) (memps_of boot_0) = Returns (132 + 28, st)"
    by (rule pool_take [OF mem_okD(1) [OF ok disjI1 [OF refl]], of False]) (simp_all add: boot_0_simps)
  define s2 where "s2 = s1\<lparr>memps_of := st, pbufs := (pbufs s1)(160 := (pbufs s1 160)\<lparr>payload := 0, len := 50,
    tot_len := 50, pb_next := 0, pb_type := PBUF_REF, ref := 1, flags := 0\<rparr>)\<rparr>"
  have a2: "pbuf_alloc False PBUF_RAW 50 PBUF_REF s1 = Returns (160, s2)"
    using st by (simp add: pbuf_alloc_def pool_malloc_def Let_def s1_def s2_def)
  note r2 = pbuf_run.alloc [OF r1 a2]
  have c: "chain s2 4104 [4104]" "chain s2 160 [160]" by (simp_all add: s1_def s2_def)
  define s3 where "s3 = set_pbuf 4104 (\<lambda>b. b\<lparr>tot_len := 126, pb_next := 160\<rparr>) s2"
  have "orepeat (cat_pass 160) (4104, s2) = Some (Returns (4104, s2))"
    by (rule orepeat_stop) (simp add: cat_pass_def s1_def s2_def)
  then have a3: "pbuf_cat False 4104 160 s2 = Returns s3"
    by (simp add: pbuf_cat_def Let_def s1_def s2_def s3_def)
  have "pbuf_run False boot_0 s3 (drop_ptr 160 (hold 160 (hold 4104 (\<lambda>_. 0))))"
    by (rule pbuf_run.cat [OF r2 _ _ c _ a3]) (simp_all add: hold_def)
  moreover have "drop_ptr 160 (hold 160 (hold 4104 (\<lambda>_. 0))) = (\<lambda>p. if p = 4104 then 1 else 0)"
    by (rule ext) (simp add: hold_def drop_ptr_def)
  moreover have "chain s3 4104 [4104, 160]" "ref (pbufs s3 4104) = 1" "ref (pbufs s3 160) = 1"
    by (simp_all add: s1_def s2_def s3_def)
  ultimately show ?thesis by auto
qed

section \<open>The properties of the packet buffers\<close>

text \<open>
  C32. After every run from \<open>lwip_init\<close>, the count of every pbuf in use is the number of pointers to it: those
  that clients hold and those in the \<open>next\<close> fields of pbufs in use. No count is 0, every chain ends, and
  a chain leads only through pbufs in use.
\<close>

theorem pbuf_refs_counted:
  assumes "pbuf_run debug (lwip_boot ram_heap s0) s H" and "linked_ok (memps_of s0) ram_heap"
  shows "\<exists>L. finite L \<and> (\<forall>p. p \<notin> L \<longrightarrow> H p = 0)
    \<and> (\<forall>p\<in>L. unat (ref (pbufs s p)) = H p + card {r \<in> L. pb_next (pbufs s r) = p} \<and> 0 < ref (pbufs s p)
         \<and> (\<exists>xs. chain s p xs \<and> set xs \<subseteq> L))"
proof -
  obtain L where o: "owned s L H" using pbuf_run_owned [OF assms(1) boot_mem_ok [OF assms(2)]] by blast
  note O = ownedD [OF o]
  have "\<exists>xs. chain s p xs \<and> set xs \<subseteq> L" if "p \<in> L" for p
    using O(5) [OF that] chain_in [OF O(2)] that by blast
  then show ?thesis
    using O(2,3) by (intro exI [of _ L]) (auto simp: counted_def preds_def)
qed

theorem pbuf_refs_counted_witness:
  "\<exists>s. pbuf_run False boot_0 s (\<lambda>p. if p = 4104 then 1 else 0) \<and> chain s 4104 [4104, 160]
     \<and> (\<exists>L. finite L \<and> 4104 \<in> L \<and> unat (ref (pbufs s 4104)) = 1 + card {r \<in> L. pb_next (pbufs s r) = 4104})"
proof -
  obtain s where s: "pbuf_run False boot_0 s (\<lambda>p. if p = 4104 then 1 else 0)" "chain s 4104 [4104, 160]"
    using demo_run by blast
  obtain L where L: "finite L" "\<forall>p. p \<notin> L \<longrightarrow> (if p = 4104 then 1 else 0) = (0 :: nat)"
    "\<forall>p\<in>L. unat (ref (pbufs s p)) = (if p = 4104 then 1 else 0) + card {r \<in> L. pb_next (pbufs s r) = p}"
    using pbuf_refs_counted [OF s(1) [unfolded boot_0_def] linked_0] by blast
  have m: "4104 \<in> L" using spec [OF L(2), of 4104] by auto
  have "unat (ref (pbufs s 4104)) = 1 + card {r \<in> L. pb_next (pbufs s r) = 4104}" using bspec [OF L(3) m] by simp
  then show ?thesis using s L(1) m by blast
qed

text \<open>
  C33. No pbuf is lost: after every run each pbuf in use is in the chain of a pbuf that a client holds,
  and when clients hold no pointer any more, both pools have all their elements back and the heap is
  one free block.
\<close>

theorem pbuf_no_leak:
  assumes "pbuf_run debug (lwip_boot ram_heap s0) s H" and "linked_ok (memps_of s0) ram_heap"
  shows "\<exists>L. mem_ok s L \<and> (\<forall>p\<in>L. \<exists>h xs. 0 < H h \<and> chain s h xs \<and> p \<in> set xs)
    \<and> ((\<forall>p. H p = 0) \<longrightarrow> mem_inv (heap_of s) [Free 16384]
        \<and> (\<forall>ty\<in>{MEMP_PBUF, MEMP_PBUF_POOL}. \<exists>xs. pool_free (memps_of s) ty xs \<and> set xs = pool_elems (memp_pools (memps_of s) ty)))"
proof -
  obtain L where o: "owned s L H" using pbuf_run_owned [OF assms(1) boot_mem_ok [OF assms(2)]] by blast
  note O = ownedD [OF o]
  have reach: "\<forall>p\<in>L. \<exists>h xs. 0 < H h \<and> chain s h xs \<and> p \<in> set xs" using owned_reached [OF o] by blast
  have "mem_inv (heap_of s) [Free 16384]
        \<and> (\<forall>ty\<in>{MEMP_PBUF, MEMP_PBUF_POOL}. \<exists>xs. pool_free (memps_of s) ty xs \<and> set xs = pool_elems (memp_pools (memps_of s) ty))"
    if "\<forall>p. H p = 0"
  proof -
    have "L = {}" using reach that by auto
    then have e: "of_pool s L t = {}" for t by (simp add: of_pool_def)
    obtain live where "mem_state (heap_of s) live" "dom live = {}" using O(1) by (auto simp: mem_ok_def e)
    then have "mem_inv (heap_of s) [Free 16384]" using all_given_back by (fastforce simp: mem_state_def)
    then show ?thesis using O(1) by (auto simp: mem_ok_def e pool_ok_def)
  qed
  then show ?thesis using O(1) reach by blast
qed

theorem pbuf_no_leak_witness:
  "\<exists>s s'. pbuf_run False boot_0 s (\<lambda>p. if p = 4104 then 1 else 0) \<and> pbuf_free False 4104 s = Returns (2, s')
     \<and> mem_inv (heap_of s') [Free 16384]"
proof -
  obtain s where s: "pbuf_run False boot_0 s (\<lambda>p. if p = 4104 then 1 else 0)" "chain s 4104 [4104, 160]"
    "ref (pbufs s 4104) = 1" "ref (pbufs s 160) = 1" using demo_run by blast
  obtain L where o: "owned s L (\<lambda>p. if p = 4104 then 1 else 0)"
    using pbuf_run_owned [OF s(1) [unfolded boot_0_def] boot_mem_ok [OF linked_0]] by blast
  obtain s' where s': "pbuf_free False 4104 s = Returns (2, s')"
    by (rule owned_free [OF o _ s(2), of False]) (simp_all add: s(3,4))
  have "pbuf_run False boot_0 s' (drop_ptr 4104 (\<lambda>p. if p = 4104 then 1 else 0))"
    by (rule pbuf_run.free [OF s(1) _ s']) simp
  moreover have "drop_ptr 4104 (\<lambda>p. if p = 4104 then 1 else 0) = (\<lambda>_. 0)" by (rule ext) (simp add: drop_ptr_def)
  ultimately have r: "pbuf_run False boot_0 s' (\<lambda>_. 0)" by simp
  show ?thesis using pbuf_no_leak [OF r [unfolded boot_0_def] linked_0] s(1) s' by auto
qed

text \<open>
  C34. Freeing a packet after any run: the call returns, whatever the assertions do, and frees exactly the
  pbufs at the head of the chain that have no other pointer; its result is their number modulo 256.
  The first pbuf that has another pointer loses one, and nothing else changes in the pbufs left.
\<close>

theorem pbuf_free_frees:
  assumes "pbuf_run debug (lwip_boot ram_heap s0) s H" and "linked_ok (memps_of s0) ram_heap"
    and "0 < H p" and "chain s p xs"
  shows "\<exists>s' L. pbuf_free debug p s = Returns (of_nat (length (sole s xs)), s')
    \<and> mem_ok s L \<and> set (sole s xs) \<subseteq> L \<and> mem_ok s' (L - set (sole s xs)) \<and> bytes s' = bytes s
    \<and> (\<forall>q. q \<notin> set (sole s xs) \<longrightarrow> pbufs s' q = (pbufs s q)\<lparr>ref := refs_after s xs q\<rparr>)"
proof -
  obtain L where o: "owned s L H" using pbuf_run_owned [OF assms(1) boot_mem_ok [OF assms(2)]] by blast
  note O = ownedD [OF o]
  obtain s' where r: "pbuf_free debug p s = Returns (of_nat (length (sole s xs)), s')"
    "owned s' (L - set (sole s xs)) (drop_ptr p H)" "only_refs s s'"
    "\<forall>q. q \<notin> set (sole s xs) \<longrightarrow> ref (pbufs s' q) = refs_after s xs q"
    by (rule owned_free [OF o assms(3,4)])
  have "set (sole s xs) \<subseteq> L"
    using chain_in [OF O(2) _ assms(4)] countedD(4) [OF O(2) assms(3)] set_takeWhileD by fast
  moreover have "\<forall>q. q \<notin> set (sole s xs) \<longrightarrow> pbufs s' q = (pbufs s q)\<lparr>ref := refs_after s xs q\<rparr>"
    using r(3,4) unfolding only_refs_def by metis
  ultimately show ?thesis using r(1-3) O(1) ownedD(1) [OF r(2)] by (auto simp: only_refs_def)
qed

theorem pbuf_free_frees_witness:
  "\<exists>s s'. chain s 4104 [4104, 160] \<and> pbuf_free False 4104 s = Returns (2, s') \<and> bytes s' = bytes s"
proof -
  obtain s where s: "pbuf_run False boot_0 s (\<lambda>p. if p = 4104 then 1 else 0)" "chain s 4104 [4104, 160]"
    "ref (pbufs s 4104) = 1" "ref (pbufs s 160) = 1" using demo_run by blast
  show ?thesis
    using pbuf_free_frees [OF s(1) [unfolded boot_0_def] linked_0 _ s(2)] s by auto
qed

end
