(* ===== verification/Chksum.thy ===== *)
theory Chksum
  imports Pbuf_Spec
begin

text \<open>
  The Internet checksum, \<open>lwip/src/core/inet_chksum.c\<close>, with \<open>LWIP_CHKSUM_ALGORITHM\<close> 2,
  \<open>LWIP_CHECKSUM_ON_COPY\<close> 0 and IPv4 only, on a little-endian machine. The length of
  \<open>lwip_standard_chksum\<close> is an \<open>int\<close> that no caller makes negative; here it is a \<open>nat\<close>.
\<close>

unbundle bit_operations_syntax

section \<open>The code\<close>

definition SWAP_BYTES_IN_WORD :: "u32 \<Rightarrow> u32" where
  "SWAP_BYTES_IN_WORD w = push_bit 8 (w AND 0xff) OR drop_bit 8 (w AND 0xff00)"

definition FOLD_U32T :: "u32 \<Rightarrow> u32" where
  "FOLD_U32T u = drop_bit 16 u + (u AND 0x0000ffff)"

text \<open>Reading through a \<open>u16_t\<close> pointer.\<close>

definition rd16 :: "memory \<Rightarrow> nat \<Rightarrow> u16" where
  "rd16 m a = ucast (m a) OR push_bit 8 (ucast (m (a + 1)))"

function chksum_words :: "memory \<Rightarrow> nat \<Rightarrow> nat \<Rightarrow> u32 \<Rightarrow> nat \<times> nat \<times> u32" where
  "chksum_words m ps n acc =
     (if n > 1 then chksum_words m (ps + 2) (n - 2) (acc + ucast (rd16 m ps)) else (ps, n, acc))"
  by pat_completeness auto
termination by (relation "measure (\<lambda>(_, _, n, _). n)") auto

declare chksum_words.simps [simp del]

definition lwip_standard_chksum :: "memory \<Rightarrow> nat \<Rightarrow> nat \<Rightarrow> u16" where
  "lwip_standard_chksum m dataptr n =
     (let odd = (dataptr mod 2 = 1);
          t = 0 :: u16;
          (t, pb, n) = (if odd \<and> n > 0 then ((t AND 0x00ff) OR push_bit 8 (ucast (m dataptr)), dataptr + 1, n - 1)
                        else (t, dataptr, n));
          (ps, n, sum) = chksum_words m pb n 0;
          t = (if n > 0 then (t AND 0xff00) OR ucast (m ps) else t);
          sum = sum + ucast t;
          sum = FOLD_U32T sum;
          sum = FOLD_U32T sum;
          sum = (if odd then SWAP_BYTES_IN_WORD sum else sum)
      in ucast sum)"

definition inet_chksum :: "memory \<Rightarrow> nat \<Rightarrow> u16 \<Rightarrow> u16" where
  "inet_chksum m dataptr n = NOT (lwip_standard_chksum m dataptr (unat n))"

text \<open>The loop over a chain, the same in \<open>inet_chksum_pbuf\<close> and \<open>inet_cksum_pseudo_base\<close>.\<close>

partial_function (option) chksum_chain :: "lwip \<Rightarrow> nat \<Rightarrow> u32 \<Rightarrow> bool \<Rightarrow> (u32 \<times> bool) option" where
  "chksum_chain s q acc swapped =
     (if q = 0 then Some (acc, swapped)
      else let b = pbufs s q;
               acc = acc + ucast (lwip_standard_chksum (bytes s) (payload b) (unat (len b)));
               acc = FOLD_U32T acc;
               (swapped, acc) = (if unat (len b) mod 2 \<noteq> 0 then (\<not> swapped, SWAP_BYTES_IN_WORD acc) else (swapped, acc))
           in chksum_chain s (pb_next b) acc swapped)"

definition inet_chksum_pbuf :: "nat \<Rightarrow> lwip \<Rightarrow> u16 outcome" where
  "inet_chksum_pbuf p s =
     obind (oreturns (chksum_chain s p 0 False)) (\<lambda>(acc, swapped).
       let acc = (if swapped then SWAP_BYTES_IN_WORD acc else acc)
       in Returns (NOT (ucast (acc AND 0xffff))))"

text \<open>The end of the two pseudo header functions: protocol and length are added.\<close>

definition pseudo_finish :: "u8 \<Rightarrow> u16 \<Rightarrow> u32 \<times> bool \<Rightarrow> u16" where
  "pseudo_finish proto proto_len = (\<lambda>(acc, swapped).
     let acc = (if swapped then SWAP_BYTES_IN_WORD acc else acc);
         acc = acc + ucast (lwip_htons (ucast proto));
         acc = acc + ucast (lwip_htons proto_len);
         acc = FOLD_U32T acc;
         acc = FOLD_U32T acc
     in NOT (ucast (acc AND 0xffff)))"

definition inet_cksum_pseudo_base :: "nat \<Rightarrow> u8 \<Rightarrow> u16 \<Rightarrow> u32 \<Rightarrow> lwip \<Rightarrow> u16 outcome" where
  "inet_cksum_pseudo_base p proto proto_len acc s =
     obind (oreturns (chksum_chain s p acc False)) (\<lambda>r. Returns (pseudo_finish proto proto_len r))"

definition pseudo_addrs :: "u32 \<Rightarrow> u32 \<Rightarrow> u32" where
  "pseudo_addrs src dest =
     (let acc = src AND 0xffff;
          acc = acc + (drop_bit 16 src AND 0xffff);
          acc = acc + (dest AND 0xffff);
          acc = acc + (drop_bit 16 dest AND 0xffff);
          acc = FOLD_U32T acc
      in FOLD_U32T acc)"

definition inet_chksum_pseudo :: "nat \<Rightarrow> u8 \<Rightarrow> u16 \<Rightarrow> u32 \<Rightarrow> u32 \<Rightarrow> lwip \<Rightarrow> u16 outcome" where
  "inet_chksum_pseudo p proto proto_len src dest s =
     inet_cksum_pseudo_base p proto proto_len (pseudo_addrs src dest) s"

definition ip_chksum_pseudo :: "nat \<Rightarrow> u8 \<Rightarrow> u16 \<Rightarrow> u32 \<Rightarrow> u32 \<Rightarrow> lwip \<Rightarrow> u16 outcome" where
  "ip_chksum_pseudo p proto proto_len src dest s = inet_chksum_pseudo p proto proto_len src dest s"

text \<open>The partial checksum: only the first \<open>chksum_len\<close> bytes count.\<close>

definition partial_pass ::
  "bool \<Rightarrow> lwip \<Rightarrow> nat \<times> u16 \<times> u32 \<times> bool \<Rightarrow> (bool \<times> nat \<times> u16 \<times> u32 \<times> bool) outcome" where
  "partial_pass debug s = (\<lambda>(q, chksum_len, acc, swapped).
     if q \<noteq> 0 \<and> chksum_len > 0
     then let b = pbufs s q;
              chklen = (if len b > chksum_len then chksum_len else len b);
              acc = acc + ucast (lwip_standard_chksum (bytes s) (payload b) (unat chklen));
              chksum_len = chksum_len - chklen
          in LWIP_ASSERT debug (chksum_len < 0x7fff)
            (let acc = FOLD_U32T acc;
                 (swapped, acc) = (if unat (len b) mod 2 \<noteq> 0 then (\<not> swapped, SWAP_BYTES_IN_WORD acc) else (swapped, acc))
             in Returns (True, pb_next b, chksum_len, acc, swapped))
     else Returns (False, q, chksum_len, acc, swapped))"

definition inet_cksum_pseudo_partial_base ::
  "bool \<Rightarrow> nat \<Rightarrow> u8 \<Rightarrow> u16 \<Rightarrow> u16 \<Rightarrow> u32 \<Rightarrow> lwip \<Rightarrow> u16 outcome" where
  "inet_cksum_pseudo_partial_base debug p proto proto_len chksum_len acc s =
     obind (ojoin (orepeat (partial_pass debug s) (p, chksum_len, acc, False))) (\<lambda>(_, _, acc, swapped).
       Returns (pseudo_finish proto proto_len (acc, swapped)))"

definition inet_chksum_pseudo_partial ::
  "bool \<Rightarrow> nat \<Rightarrow> u8 \<Rightarrow> u16 \<Rightarrow> u16 \<Rightarrow> u32 \<Rightarrow> u32 \<Rightarrow> lwip \<Rightarrow> u16 outcome" where
  "inet_chksum_pseudo_partial debug p proto proto_len chksum_len src dest s =
     inet_cksum_pseudo_partial_base debug p proto proto_len chksum_len (pseudo_addrs src dest) s"

definition ip_chksum_pseudo_partial ::
  "bool \<Rightarrow> nat \<Rightarrow> u8 \<Rightarrow> u16 \<Rightarrow> u16 \<Rightarrow> u32 \<Rightarrow> u32 \<Rightarrow> lwip \<Rightarrow> u16 outcome" where
  "ip_chksum_pseudo_partial debug p proto proto_len chksum_len src dest s =
     inet_chksum_pseudo_partial debug p proto proto_len chksum_len src dest s"

end
