(* ===== verification/Chksum_Spec.thy ===== *)
theory Chksum_Spec
  imports Chksum
begin

text \<open>
  The Internet checksum of RFC 1071: the one's complement sum of the 16-bit words of the data, a last
  odd byte padded with 0. The checksums of \<open>inet_chksum.c\<close> are its complement, whatever the alignment
  of the data and however it is split over a chain of pbufs.
\<close>

section \<open>One's complement sums\<close>

text \<open>Adding 16-bit numbers with the carry added back in: 0 only for 0, otherwise 1 to 65535.\<close>

definition ones_sum :: "nat \<Rightarrow> nat" where
  "ones_sum n = (if n = 0 then 0 else (n - 1) mod 65535 + 1)"

fun words_sum :: "u8 list \<Rightarrow> nat" where
  "words_sum (a # b # xs) = unat a + 256 * unat b + words_sum xs"
| "words_sum [a] = unat a"
| "words_sum [] = 0"

lemma ones_sum_mod: "ones_sum n mod 65535 = n mod 65535"
proof (cases n)
  case (Suc k)
  then show ?thesis by (simp add: ones_sum_def mod_Suc_eq)
qed (simp add: ones_sum_def)

lemma ones_sum_0 [simp]: "ones_sum n = 0 \<longleftrightarrow> n = 0"
  by (simp add: ones_sum_def)

lemma ones_sum_le: "ones_sum n \<le> 65535"
proof -
  have "(n - 1) mod 65535 < 65535" by simp
  then have "(n - 1) mod 65535 + 1 \<le> 65535" by linarith
  then show ?thesis by (cases "n = 0") (simp_all only: ones_sum_def simp_thms if_True if_False le0)
qed

lemma ones_sum_unique:
  assumes "v \<le> 65535" and "v mod 65535 = n mod 65535" and "v = 0 \<longleftrightarrow> n = 0"
  shows "ones_sum n = v"
proof (cases "n = 0")
  case False
  then have v: "0 < v" "v \<le> 65535" using assms by auto
  have "(n + 65534) mod 65535 = (v + 65534) mod 65535" by (rule mod_add_cong) (simp_all add: assms(2))
  moreover have "n + 65534 = (n - 1) + 65535" "v + 65534 = (v - 1) + 65535" using False v by simp_all
  ultimately have "(n - 1) mod 65535 = (v - 1) mod 65535" by (simp only: mod_add_self2)
  then show ?thesis using v False by (simp add: ones_sum_def)
qed (use assms in simp)

lemma ones_sum_cong: "x mod 65535 = y mod 65535 \<Longrightarrow> (x = 0 \<longleftrightarrow> y = 0) \<Longrightarrow> ones_sum x = ones_sum y"
  by (rule ones_sum_unique) (simp_all add: ones_sum_mod ones_sum_le)

lemma ones_sum_id [simp]: "ones_sum (ones_sum x) = ones_sum x"
  by (rule ones_sum_cong) (simp_all add: ones_sum_mod)

lemma ones_sum_add1 [simp]: "ones_sum (ones_sum x + y) = ones_sum (x + y)"
proof (rule ones_sum_cong)
  show "(ones_sum x + y) mod 65535 = (x + y) mod 65535" by (rule mod_add_cong) (simp_all only: ones_sum_mod)
qed simp

lemma ones_sum_add2 [simp]: "ones_sum (x + ones_sum y) = ones_sum (x + y)"
  using ones_sum_add1 [of y x] by (simp add: add.commute)

lemma ones_sum_mult [simp]: "ones_sum (k * ones_sum x) = ones_sum (k * x)"
proof (rule ones_sum_cong)
  show "(k * ones_sum x) mod 65535 = (k * x) mod 65535" by (rule mod_mult_cong) (simp_all only: ones_sum_mod)
qed simp

lemma ones_sum_carry: "ones_sum (65536 * x + y) = ones_sum (x + y)"
proof (rule ones_sum_cong)
  have "65536 * x + y = 65535 * x + (x + y)" by simp
  then show "(65536 * x + y) mod 65535 = (x + y) mod 65535" by (simp only: mod_mult_self4)
qed auto

text \<open>The sum of the words is the sum of the number the bytes spell.\<close>

fun spelled :: "u8 list \<Rightarrow> nat" where
  "spelled [] = 0"
| "spelled (x # xs) = unat x + 256 * spelled xs"

lemma words_spelled: "ones_sum (words_sum xs) = ones_sum (spelled xs)"
proof (induction xs rule: words_sum.induct)
  case (1 a b xs)
  have "ones_sum (words_sum (a # b # xs)) = ones_sum (unat a + 256 * unat b + ones_sum (words_sum xs))" by simp
  also have "\<dots> = ones_sum (unat a + 256 * unat b + spelled xs)" using 1 by simp
  also have "\<dots> = ones_sum (65536 * spelled xs + (unat a + 256 * unat b))"
    by (subst ones_sum_carry) (simp only: add.commute)
  finally show ?case by (simp add: algebra_simps)
qed simp_all

lemma spelled_append: "spelled (xs @ ys) = spelled xs + 256 ^ length xs * spelled ys"
  by (induction xs) (simp_all add: algebra_simps)

lemma power_256_mod: "ones_sum (256 ^ n * x + y) = ones_sum (256 ^ (n mod 2) * x + y)"
proof -
  have "(256 :: nat) ^ n = 256 ^ (2 * (n div 2) + n mod 2)" by simp
  also have "\<dots> = (256 ^ 2) ^ (n div 2) * 256 ^ (n mod 2)" by (simp only: power_add power_mult)
  finally have e: "(256 :: nat) ^ n = 65536 ^ (n div 2) * 256 ^ (n mod 2)" by simp
  have "ones_sum (65536 ^ k * z + y) = ones_sum (z + y)" for k z
  proof (induction k)
    case (Suc k)
    then show ?case using ones_sum_carry [of "65536 ^ k * z" y] by (simp add: mult.assoc)
  qed simp
  then show ?thesis unfolding e by (simp only: mult.assoc)
qed

section \<open>The macros as arithmetic\<close>

lemma u8_lt: "unat (a :: u8) < 256"
  using unsigned_less [of a, where 'a = nat] by simp

lemma u16_lt: "unat (a :: u16) < 65536"
  using unsigned_less [of a, where 'a = nat] by simp

lemma u32_lt: "unat (a :: u32) < 4294967296"
  using unsigned_less [of a, where 'a = nat] by simp

lemma unat_push8_u32: "unat (w :: u32) < 2 ^ 24 \<Longrightarrow> unat (push_bit 8 w) = push_bit 8 (unat w)"
  unfolding unsigned_push_bit_eq by (simp add: take_bit_nat_eq_self_iff push_bit_eq_mult)

lemma unat_push8_u16: "unat (w :: u16) < 256 \<Longrightarrow> unat (push_bit 8 w) = push_bit 8 (unat w)"
  unfolding unsigned_push_bit_eq by (simp add: take_bit_nat_eq_self_iff push_bit_eq_mult)

lemma nat_or_push:
  "(b :: nat) < 256 \<Longrightarrow> push_bit 8 a OR b = 256 * a + b"
  "(b :: nat) < 256 \<Longrightarrow> b OR push_bit 8 a = 256 * a + b"
proof -
  assume "b < 256"
  then have b: "take_bit 8 b = b" by (simp add: take_bit_nat_eq_self_iff)
  have "push_bit 8 a AND take_bit 8 b = 0" by (rule bit_eqI) (auto simp: bit_simps)
  then have "push_bit 8 a AND b = 0" unfolding b .
  then have "push_bit 8 a OR b = push_bit 8 a + b" by (rule disjunctive_add_eq_or [symmetric])
  moreover have "push_bit 8 a = 256 * a" by (simp add: push_bit_eq_mult)
  ultimately show "push_bit 8 a OR b = 256 * a + b" by metis
  then show "b OR push_bit 8 a = 256 * a + b" by (simp add: or.commute)
qed

lemma unat_and_byte: "unat ((w :: u32) AND 0xff) = unat w mod 256"
proof -
  have "w AND 0xff = take_bit 8 w" by (simp add: take_bit_eq_mask mask_eq_exp_minus_1)
  then have "unat (w AND 0xff) = take_bit 8 (unat w)" by (simp only: unsigned_take_bit_eq)
  then show ?thesis by (simp add: take_bit_eq_mod)
qed

lemma unat_and_word: "unat ((w :: u32) AND 0xffff) = unat w mod 65536"
proof -
  have "w AND 0xffff = take_bit 16 w" by (simp add: take_bit_eq_mask mask_eq_exp_minus_1)
  then have "unat (w AND 0xffff) = take_bit 16 (unat w)" by (simp only: unsigned_take_bit_eq)
  then show ?thesis by (simp add: take_bit_eq_mod)
qed

lemma unat_fold: "unat (FOLD_U32T u) = unat u div 65536 + unat u mod 65536"
proof -
  have "unat (drop_bit 16 u) = drop_bit 16 (unat u)" by (rule unat_drop_bit_eq)
  then have d: "unat (drop_bit 16 u) = unat u div 65536" by (simp only: drop_bit_eq_div) simp
  have "unat u < 2 ^ 32" using unsigned_less [of u] by simp
  then have "unat u div 65536 + unat u mod 65536 < 2 ^ 32" by linarith
  then show ?thesis unfolding FOLD_U32T_def unat_word_ariths unat_and_word d by simp
qed

lemma ones_sum_small: "v \<le> 65535 \<Longrightarrow> ones_sum v = v"
  by (rule ones_sum_unique) simp_all

lemma ones_sum_halves: "ones_sum (u div 65536 + u mod 65536) = ones_sum u"
  using ones_sum_carry [of "u div 65536" "u mod 65536"] by simp

lemma fold_once:
  assumes "unat u \<le> 0x1fffe"
  shows "unat (FOLD_U32T u) = ones_sum (unat u)"
proof -
  have "unat u div 65536 + unat u mod 65536 \<le> 65535"
  proof -
    have "unat u = 65536 * (unat u div 65536) + unat u mod 65536" "unat u mod 65536 < 65536" by simp_all
    then show ?thesis using assms by (cases "unat u div 65536 = 0") linarith+
  qed
  then show ?thesis using ones_sum_small ones_sum_halves [of "unat u"] unat_fold [of u] by metis
qed

lemma fold_twice: "unat (FOLD_U32T (FOLD_U32T u)) = ones_sum (unat u)"
proof -
  have "unat u div 65536 < 65536" "unat u mod 65536 < 65536" using u32_lt [of u] by (simp_all add: less_mult_imp_div_less)
  then have "unat (FOLD_U32T u) \<le> 0x1fffe" unfolding unat_fold by linarith
  then show ?thesis using fold_once [of "FOLD_U32T u"] ones_sum_halves [of "unat u"] by (simp add: unat_fold)
qed

lemma swap_256:
  assumes "unat w \<le> 65535"
  shows "unat (SWAP_BYTES_IN_WORD w) = ones_sum (256 * unat w)"
proof -
  have d: "unat (drop_bit 8 (w AND 0xff00)) = unat w div 256"
  proof -
    have "drop_bit 8 (w AND 0xff00) = take_bit 8 (drop_bit 8 w)"
    proof -
      have "drop_bit 8 (0xff00 :: u32) = 0xff" "x AND 0xff = take_bit 8 x" for x :: u32
        by (simp_all add: take_bit_eq_mask mask_eq_exp_minus_1)
      then show ?thesis by (simp only: drop_bit_and)
    qed
    also have "unat \<dots> = take_bit 8 (drop_bit 8 (unat w))" by (simp only: unsigned_take_bit_eq unat_drop_bit_eq)
    also have "\<dots> = unat w div 256 mod 256" by (simp add: take_bit_eq_mod drop_bit_eq_div)
    finally show ?thesis using assms by simp
  qed
  have "unat w mod 256 < 256" by simp
  have p: "unat (push_bit 8 (w AND 0xff)) = push_bit 8 (unat w mod 256)"
    unfolding unat_and_byte [symmetric] by (rule unat_push8_u32) (simp add: unat_and_byte)
  have "unat (SWAP_BYTES_IN_WORD w) = 256 * (unat w mod 256) + unat w div 256"
    unfolding SWAP_BYTES_IN_WORD_def unsigned_or_eq p d by (rule nat_or_push(1)) (use assms in linarith)
  also have "\<dots> = ones_sum (256 * (unat w mod 256) + unat w div 256)"
    by (rule ones_sum_small [symmetric]) (use assms in linarith)
  also have "\<dots> = ones_sum (65536 * (unat w div 256) + 256 * (unat w mod 256))"
    by (subst ones_sum_carry) (simp only: add.commute)
  also have "65536 * (unat w div 256) + 256 * (unat w mod 256) = 256 * unat w"
  proof -
    have "unat w = 256 * (unat w div 256) + unat w mod 256" by simp
    then show ?thesis by linarith
  qed
  finally show ?thesis .
qed

section \<open>The sum of flat memory\<close>

lemma unat_rd16: "unat (rd16 m a) = unat (m a) + 256 * unat (m (a + 1))"
proof -
  have lt: "unat (m x) < 256" for x by (rule u8_lt)
  have c: "unat (ucast (m x) :: u16) = unat (m x)" for x
    using lt [of x] by (simp add: unsigned_ucast_eq take_bit_eq_mod)
  have p: "unat (push_bit 8 (ucast (m (a + 1)) :: u16)) = push_bit 8 (unat (m (a + 1)))"
    unfolding c [symmetric] by (rule unat_push8_u16) (simp only: c lt)
  show ?thesis unfolding rd16_def unsigned_or_eq c p nat_or_push(2) [OF lt] by simp
qed

lemma rd_2: "rd m a (Suc (Suc n)) = m a # m (a + 1) # rd m (a + 2) n"
  by (simp add: rd_Suc)

lemma words_sum_le: "words_sum xs \<le> 65535 * ((length xs + 1) div 2)"
proof (induction xs rule: words_sum.induct)
  case (1 a b xs)
  then show ?case using u8_lt [of a] u8_lt [of b] by simp
next
  case (2 a)
  then show ?case using u8_lt [of a] by simp
qed simp

lemma chksum_words_sum:
  assumes "unat acc + words_sum (rd m ps (n - n mod 2)) < 2 ^ 32"
  shows "\<exists>acc'. chksum_words m ps n acc = (ps + (n - n mod 2), n mod 2, acc') \<and>
    unat acc' = unat acc + words_sum (rd m ps (n - n mod 2))"
  using assms
proof (induction m ps n acc rule: chksum_words.induct)
  case (1 m ps n acc)
  show ?case
  proof (cases "n > 1")
    case True
    define k where "k = n - 2"
    have k: "n = Suc (Suc k)" using True unfolding k_def by linarith
    have "k mod 2 \<le> k" by (rule mod_less_eq_dividend)
    then have e: "n - n mod 2 = Suc (Suc (k - k mod 2))" unfolding k by simp
    have w: "words_sum (rd m ps (n - n mod 2)) = unat (rd16 m ps) + words_sum (rd m (ps + 2) (k - k mod 2))"
      by (simp add: e rd_2 unat_rd16)
    have c: "unat (ucast (rd16 m ps) :: u32) = unat (rd16 m ps)"
      using u16_lt [of "rd16 m ps"] by (simp add: unsigned_ucast_eq take_bit_eq_mod)
    have s: "unat (acc + ucast (rd16 m ps)) = unat acc + unat (rd16 m ps)"
    proof -
      have "unat acc + unat (rd16 m ps) < 2 ^ 32" using 1(2) w by linarith
      then show ?thesis unfolding unat_word_ariths c by simp
    qed
    have k2: "n - 2 = k" "n mod 2 = k mod 2" by (simp_all add: k)
    have "unat (acc + ucast (rd16 m ps)) + words_sum (rd m (ps + 2) (k - k mod 2)) < 2 ^ 32" using 1(2) s w by simp
    then obtain acc' where a: "chksum_words m (ps + 2) k (acc + ucast (rd16 m ps)) = (ps + 2 + (k - k mod 2), k mod 2, acc')"
      "unat acc' = unat (acc + ucast (rd16 m ps)) + words_sum (rd m (ps + 2) (k - k mod 2))"
      using 1(1) [OF True] unfolding k2 by blast
    have "chksum_words m ps n acc = chksum_words m (ps + 2) k (acc + ucast (rd16 m ps))"
      using True by (subst chksum_words.simps) (simp only: k2 if_True)
    moreover have "ps + 2 + (k - k mod 2) = ps + (n - n mod 2)" by (simp add: e)
    ultimately show ?thesis using a s w k2(2) by (intro exI [of _ acc']) (simp only: add.assoc simp_thms)
  next
    case False
    then show ?thesis by (subst chksum_words.simps) (cases n, auto)
  qed
qed

lemma words_sum_append: "even (length xs) \<Longrightarrow> words_sum (xs @ ys) = words_sum xs + words_sum ys"
  by (induction xs rule: words_sum.induct) simp_all

lemma words_sum_tail:
  "words_sum (rd m a n) = words_sum (rd m a (n - n mod 2)) + (if n mod 2 > 0 then unat (m (a + (n - n mod 2))) else 0)"
proof -
  have n: "n = (n - n mod 2) + n mod 2" by simp
  have e: "even (length (rd m a (n - n mod 2)))" by simp
  have t: "words_sum (rd m b (n mod 2)) = (if n mod 2 > 0 then unat (m b) else 0)" for b
  proof -
    have "n mod 2 = 0 \<or> n mod 2 = Suc 0" by linarith
    then show ?thesis by (elim disjE) (simp_all only: rd_Suc rd_0 words_sum.simps less_irrefl zero_less_Suc if_True if_False)
  qed
  have "words_sum (rd m a n) = words_sum (rd m a (n - n mod 2) @ rd m (a + (n - n mod 2)) (n mod 2))"
    using rd_add [of m a "n - n mod 2" "n mod 2"] by (simp only: n [symmetric])
  then show ?thesis by (simp only: words_sum_append [OF e] t)
qed

lemma words_sum_bound: "words_sum (rd m a (n - n mod 2)) \<le> 65535 * (n div 2)"
proof -
  have "(n - n mod 2 + 1) div 2 = n div 2" by presburger
  then show ?thesis using words_sum_le [of "rd m a (n - n mod 2)"] by simp
qed

lemma ucast_fold: "unat (u :: u32) \<le> 65535 \<Longrightarrow> unat (ucast u :: u16) = unat u"
  by (simp add: unsigned_ucast_eq take_bit_eq_mod)

lemma unat_ucast_u32: "unat (ucast (x :: u16) :: u32) = unat x"
  using u16_lt [of x] by (simp add: unsigned_ucast_eq take_bit_eq_mod)

lemma unat_ucast_byte: "unat (ucast (x :: u8) :: u16) = unat x"
  using u8_lt [of x] by (simp add: unsigned_ucast_eq take_bit_eq_mod)

text \<open>Data at an even address is summed as it stands.\<close>

lemma standard_chksum_even:
  assumes n: "n \<le> 0x20000" and e: "dataptr mod 2 = 0"
  shows "unat (lwip_standard_chksum m dataptr n) = ones_sum (words_sum (rd m dataptr n))"
proof -
  have b: "words_sum (rd m dataptr (n - n mod 2)) \<le> 65535 * (n div 2)" by (rule words_sum_bound)
  have d: "n div 2 \<le> 65536" using n by simp
  then have lt: "words_sum (rd m dataptr (n - n mod 2)) < 2 ^ 32" using b by simp
  then obtain acc where a: "chksum_words m dataptr n 0 = (dataptr + (n - n mod 2), n mod 2, acc)"
    "unat acc = words_sum (rd m dataptr (n - n mod 2))"
    using chksum_words_sum [of 0 m dataptr n] by auto
  define t where "t = (if n mod 2 > 0 then (0 AND 0xff00) OR ucast (m (dataptr + (n - n mod 2))) else 0 :: u16)"
  have t: "unat t = (if n mod 2 > 0 then unat (m (dataptr + (n - n mod 2))) else 0)"
    by (simp add: t_def unat_ucast_byte)
  have "unat acc + unat t < 2 ^ 32"
  proof (cases "n mod 2 > 0")
    case True
    then have "n div 2 \<le> 65535" using n by presburger
    then show ?thesis using a(2) b u16_lt [of t] by simp
  next
    case False
    then show ?thesis using a(2) lt t by simp
  qed
  then have "unat (acc + ucast t) = unat acc + unat t" unfolding unat_word_ariths unat_ucast_u32 by simp
  then have s: "unat (acc + ucast t) = words_sum (rd m dataptr n)"
    using words_sum_tail [of m dataptr n] a(2) t by linarith
  have "lwip_standard_chksum m dataptr n = ucast (FOLD_U32T (FOLD_U32T (acc + ucast t)))"
    using e a(1) by (simp add: lwip_standard_chksum_def Let_def t_def)
  then show ?thesis using fold_twice [of "acc + ucast t"] s ones_sum_le by (simp add: ucast_fold)
qed

text \<open>Data at an odd address is summed with its bytes swapped, and the sum is swapped back.\<close>

lemma standard_chksum_odd:
  assumes n: "n \<le> 0x20000" and e: "dataptr mod 2 = 1"
  shows "unat (lwip_standard_chksum m dataptr n) = ones_sum (words_sum (rd m dataptr n))"
proof (cases n)
  case 0
  have "chksum_words m dataptr 0 0 = (dataptr, 0, 0)" by (subst chksum_words.simps) simp
  then have "lwip_standard_chksum m dataptr n = 0"
    using e 0 by (simp add: lwip_standard_chksum_def FOLD_U32T_def SWAP_BYTES_IN_WORD_def)
  then show ?thesis using 0 by simp
next
  case (Suc k)
  let ?r = "rd m (dataptr + 1) k"
  have b: "words_sum (rd m (dataptr + 1) (k - k mod 2)) \<le> 65535 * (k div 2)" by (rule words_sum_bound)
  have d: "k div 2 \<le> 65535" using n Suc by simp
  then have lt: "words_sum (rd m (dataptr + 1) (k - k mod 2)) < 2 ^ 32" using b by simp
  then obtain acc where a: "chksum_words m (dataptr + 1) k 0 = (dataptr + 1 + (k - k mod 2), k mod 2, acc)"
    "unat acc = words_sum (rd m (dataptr + 1) (k - k mod 2))"
    using chksum_words_sum [of 0 m "dataptr + 1" k] by auto
  define t0 where "t0 = (((0 :: u16) AND 0x00ff) OR push_bit 8 (ucast (m dataptr)))"
  have p: "unat (push_bit 8 (ucast (m dataptr) :: u16)) = push_bit 8 (unat (m dataptr))"
    unfolding unat_ucast_byte [symmetric] by (rule unat_push8_u16) (simp only: unat_ucast_byte u8_lt)
  have t0: "unat t0 = 256 * unat (m dataptr)"
    unfolding t0_def unsigned_or_eq p by (simp add: push_bit_eq_mult)
  define t where "t = (if k mod 2 > 0 then (t0 AND 0xff00) OR ucast (m (dataptr + 1 + (k - k mod 2))) else t0)"
  have c: "(0xff00 :: u16) = push_bit 8 (mask 8)" by (simp add: mask_eq_exp_minus_1)
  have t0a: "t0 AND 0xff00 = t0"
    unfolding t0_def c by (rule bit_word_eqI) (auto simp: bit_simps dest: bit_imp_le_length)
  have t: "unat t = 256 * unat (m dataptr) + (if k mod 2 > 0 then unat (m (dataptr + 1 + (k - k mod 2))) else 0)"
  proof (cases "k mod 2 > 0")
    case True
    have "unat (t0 OR ucast (m (dataptr + 1 + (k - k mod 2)))) = 256 * unat (m dataptr) + unat (m (dataptr + 1 + (k - k mod 2)))"
      unfolding t0_def unsigned_or_eq p unat_ucast_byte by (simp add: nat_or_push(1) [OF u8_lt])
    then show ?thesis using True by (simp add: t_def t0a)
  qed (simp add: t_def t0)
  have "unat acc + unat t < 2 ^ 32" using a(2) b d u16_lt [of t] by simp
  then have "unat (acc + ucast t) = unat acc + unat t" unfolding unat_word_ariths unat_ucast_u32 by simp
  then have s: "unat (acc + ucast t) = 256 * unat (m dataptr) + words_sum ?r"
    using words_sum_tail [of m "dataptr + 1" k] a(2) t by linarith
  let ?f = "FOLD_U32T (FOLD_U32T (acc + ucast t))"
  have f: "unat ?f = ones_sum (256 * unat (m dataptr) + words_sum ?r)" using fold_twice [of "acc + ucast t"] s by simp
  have w: "unat (SWAP_BYTES_IN_WORD ?f) = ones_sum (256 * (256 * unat (m dataptr) + words_sum ?r))"
    using swap_256 [of ?f] f ones_sum_le by simp
  also have "\<dots> = ones_sum (65536 * unat (m dataptr) + 256 * words_sum ?r)" by (simp add: algebra_simps)
  also have "\<dots> = ones_sum (unat (m dataptr) + 256 * words_sum ?r)" by (rule ones_sum_carry)
  also have "\<dots> = ones_sum (unat (m dataptr) + ones_sum (256 * ones_sum (words_sum ?r)))" by (simp only: ones_sum_mult ones_sum_add2)
  also have "\<dots> = ones_sum (spelled (m dataptr # ?r))" by (simp add: words_spelled)
  also have "\<dots> = ones_sum (words_sum (rd m dataptr n))" by (simp add: Suc rd_Suc words_spelled)
  finally have w: "unat (SWAP_BYTES_IN_WORD ?f) = ones_sum (words_sum (rd m dataptr n))" .
  have "lwip_standard_chksum m dataptr n = ucast (SWAP_BYTES_IN_WORD ?f)"
    using e a(1) Suc by (simp add: lwip_standard_chksum_def Let_def t_def t0_def)
  then show ?thesis using w ones_sum_le by (simp add: ucast_fold)
qed

lemma standard_chksum_sum:
  "n \<le> 0x20000 \<Longrightarrow> unat (lwip_standard_chksum m dataptr n) = ones_sum (words_sum (rd m dataptr n))"
  using standard_chksum_even standard_chksum_odd by (cases "dataptr mod 2 = 0") (simp_all add: odd_iff_mod_2_eq_one)

section \<open>Chains of pbufs\<close>

text \<open>
  What the loops know after the data \<open>xs\<close> of some pbufs with \<open>l\<close> bytes in all: the sum, swapped when
  \<open>l\<close> is odd.
\<close>

lemma power_256_twice: "ones_sum (256 ^ (2 * l + k) * z + y) = ones_sum (256 ^ k * z + y)"
  using power_256_mod [of "2 * l + k" z y] power_256_mod [of k z y] by simp

lemma chksum_pass:
  fixes m :: memory and a :: nat
  assumes acc: "unat acc = ones_sum x" and n: "n \<le> 0x20000"
  defines "acc1 \<equiv> FOLD_U32T (acc + ucast (lwip_standard_chksum m a n))"
  shows "unat acc1 = ones_sum (x + spelled (rd m a n))"
    and "unat (if l mod 2 \<noteq> 0 then SWAP_BYTES_IN_WORD acc1 else acc1) = ones_sum (256 ^ l * (x + spelled (rd m a n)))"
proof -
  let ?c = "lwip_standard_chksum m a n"
  have "unat acc + unat ?c \<le> 0x1fffe" using acc standard_chksum_sum [OF n, of m a] ones_sum_le [of x] ones_sum_le [of "words_sum (rd m a n)"]
    by simp
  moreover from this have "unat (acc + ucast ?c) = unat acc + unat ?c" unfolding unat_word_ariths unat_ucast_u32 by simp
  ultimately have "unat acc1 = ones_sum (unat acc + unat ?c)" unfolding acc1_def using fold_once [of "acc + ucast ?c"] by simp
  then show a1: "unat acc1 = ones_sum (x + spelled (rd m a n))"
    by (simp add: acc standard_chksum_sum [OF n] words_spelled)
  have l: "l mod 2 = 0 \<or> l mod 2 = 1" by linarith
  have "ones_sum (256 ^ l * (x + spelled (rd m a n))) = ones_sum (256 ^ (l mod 2) * (x + spelled (rd m a n)))"
    using power_256_mod [of l "x + spelled (rd m a n)" 0] by simp
  then show "unat (if l mod 2 \<noteq> 0 then SWAP_BYTES_IN_WORD acc1 else acc1) = ones_sum (256 ^ l * (x + spelled (rd m a n)))"
    using l swap_256 [of acc1] a1 ones_sum_le [of "x + spelled (rd m a n)"] by (elim disjE) simp_all
qed

text \<open>Unswapping at the end.\<close>

lemma unswap:
  assumes "unat acc = ones_sum (256 ^ l * x)"
  shows "unat (if odd l then SWAP_BYTES_IN_WORD acc else acc) = ones_sum x"
proof (cases "odd l")
  case True
  have "unat (SWAP_BYTES_IN_WORD acc) = ones_sum (256 * (256 ^ l * x))"
    using swap_256 [of acc] assms ones_sum_le by simp
  also have "\<dots> = ones_sum (256 ^ Suc l * x)" by (simp add: mult.assoc)
  also have "\<dots> = ones_sum x" using power_256_mod [of "Suc l" x 0] True by (simp add: mod2_eq_if)
  finally show ?thesis using True by simp
next
  case False
  then show ?thesis using assms power_256_mod [of l x 0] by (simp add: mod2_eq_if)
qed

end
