(* ===== verification/Chksum_Laws.thy ===== *)
theory Chksum_Laws
  imports Chksum_Spec Pbuf_Laws
begin

text \<open>
  The properties of the checksums of \<open>inet_chksum.c\<close>: over memory, over a chain of pbufs and with the
  pseudo header of TCP and UDP they are the checksum of RFC 1071, and a checksum in its place makes the
  sum of a header check.
\<close>

section \<open>The loops over a chain\<close>

lemma chksum_chain_sum:
  assumes "chain s q qs" and "unat acc = ones_sum x"
  shows "\<exists>acc'. chksum_chain s q acc sw = Some (acc', sw \<noteq> odd (plen s qs)) \<and>
    unat acc' = ones_sum (256 ^ plen s qs * (x + spelled (pdata s qs)))"
  using assms
proof (induction qs arbitrary: q acc x sw)
  case Nil
  then show ?case by (subst chksum_chain.simps) simp
next
  case (Cons p qs)
  let ?l = "unat (len (pbufs s p))" and ?d = "rd (bytes s) (payload (pbufs s p)) (unat (len (pbufs s p)))"
  define acc1 where "acc1 = FOLD_U32T (acc + ucast (lwip_standard_chksum (bytes s) (payload (pbufs s p)) ?l))"
  define acc2 where "acc2 = (if ?l mod 2 \<noteq> 0 then SWAP_BYTES_IN_WORD acc1 else acc1)"
  have "?l \<le> 0x20000" using u16_lt [of "len (pbufs s p)"] by simp
  then have a2: "unat acc2 = ones_sum (256 ^ ?l * (x + spelled ?d))"
    unfolding acc2_def acc1_def by (rule chksum_pass(2) [OF Cons.prems(2)])
  have c: "chain s (pb_next (pbufs s p)) qs" "q = p" "p \<noteq> 0" using Cons.prems(1) by simp_all
  obtain acc' where r: "chksum_chain s (pb_next (pbufs s p)) acc2 (sw \<noteq> odd ?l) = Some (acc', (sw \<noteq> odd ?l) \<noteq> odd (plen s qs))"
    "unat acc' = ones_sum (256 ^ plen s qs * (256 ^ ?l * (x + spelled ?d) + spelled (pdata s qs)))"
    using Cons.IH [OF c(1) a2] by blast
  have "chksum_chain s q acc sw = chksum_chain s (pb_next (pbufs s p)) acc2 (sw \<noteq> odd ?l)"
    using c by (subst chksum_chain.simps) (auto simp: Let_def acc1_def acc2_def mod2_eq_if)
  moreover have "((sw \<noteq> odd ?l) \<noteq> odd (plen s qs)) = (sw \<noteq> odd (plen s (p # qs)))" by auto
  moreover have "unat acc' = ones_sum (256 ^ plen s (p # qs) * (x + spelled (pdata s (p # qs))))"
  proof -
    let ?L = "plen s qs" and ?S = "spelled (pdata s qs)"
    have "256 ^ ?L * (256 ^ ?l * (x + spelled ?d) + ?S) = 256 ^ ?L * ?S + 256 ^ (?l + ?L) * (x + spelled ?d)"
      by (simp add: power_add algebra_simps)
    also have "ones_sum \<dots> = ones_sum (256 ^ (2 * ?l + ?L) * ?S + 256 ^ (?l + ?L) * (x + spelled ?d))"
      by (simp only: power_256_twice)
    also have "256 ^ (2 * ?l + ?L) * ?S + 256 ^ (?l + ?L) * (x + spelled ?d)
        = 256 ^ plen s (p # qs) * (x + spelled (pdata s (p # qs)))"
      by (simp add: spelled_append power_add power2_eq_square mult_2 algebra_simps)
    finally show ?thesis using r(2) by simp
  qed
  ultimately show ?case using r(1) by auto
qed

lemma ones_sum_word: "unat (acc :: u32) = ones_sum x \<Longrightarrow> (ucast (acc AND 0xffff) :: u16) = of_nat (ones_sum x)"
proof -
  assume a: "unat acc = ones_sum x"
  have "unat (acc AND 0xffff) = ones_sum x" using a ones_sum_le [of x] by (simp add: unat_and_word)
  then have "unat (ucast (acc AND 0xffff) :: u16) = ones_sum x" using ones_sum_le [of x] by (simp add: ucast_fold)
  then show ?thesis using unat_of_nat_u16 [of "ones_sum x"] ones_sum_le [of x] by (simp add: word_unat_eq_iff)
qed

section \<open>The pseudo header\<close>

text \<open>A word in network byte order, as it lies in memory, and the pseudo header of RFC 768 and 793.\<close>

definition word_bytes :: "u32 \<Rightarrow> u8 list" where
  "word_bytes w = [ucast w, ucast (drop_bit 8 w), ucast (drop_bit 16 w), ucast (drop_bit 24 w)]"

definition pseudo_header :: "u32 \<Rightarrow> u32 \<Rightarrow> u8 \<Rightarrow> u16 \<Rightarrow> u8 list" where
  "pseudo_header src dest proto proto_len =
     word_bytes src @ word_bytes dest @ [0, proto, ucast (drop_bit 8 proto_len), ucast proto_len]"

lemma unat_ucast_u8: "unat (ucast (w :: 'a::len word) :: u8) = unat w mod 256"
  by (simp add: unsigned_ucast_eq take_bit_eq_mod)

lemma unat_drop_bits:
  "unat (drop_bit 8 (w :: 'a::len word)) = unat w div 256" "unat (drop_bit 16 w) = unat w div 65536"
  "unat (drop_bit 24 w) = unat w div 16777216"
proof -
  have "unat (drop_bit k w) = drop_bit k (unat w)" for k by (rule unat_drop_bit_eq)
  then show "unat (drop_bit 8 w) = unat w div 256" "unat (drop_bit 16 w) = unat w div 65536"
    "unat (drop_bit 24 w) = unat w div 16777216"
    by (simp_all add: drop_bit_eq_div [of _ "unat w"])
qed

lemma words_sum_word_bytes: "words_sum (word_bytes w) = unat w mod 65536 + unat w div 65536"
proof -
  let ?v = "unat w div 65536"
  have "?v < 65536" using u32_lt [of w] by (simp add: less_mult_imp_div_less)
  then have "?v div 256 < 256" by (simp add: less_mult_imp_div_less)
  moreover have d: "unat w div 16777216 = ?v div 256" by (simp add: div_mult2_eq [symmetric])
  moreover have "unat w mod 65536 = 256 * (unat w div 256 mod 256) + unat w mod 256"
    using mod_mult2_eq [of "unat w" 256 256] by simp
  ultimately have "unat w mod 256 + 256 * (unat w div 256 mod 256) + (?v mod 256 + 256 * (unat w div 16777216 mod 256))
      = unat w mod 65536 + ?v"
    by simp
  then show ?thesis by (simp add: word_bytes_def unat_ucast_u8 unat_drop_bits)
qed

lemma unat_htons: "unat (lwip_htons n) = 256 * (unat n mod 256) + unat n div 256"
proof -
  have b: "unat (n AND 0x00ff) = unat n mod 256"
  proof -
    have "n AND 0x00ff = take_bit 8 n" by (simp add: take_bit_eq_mask mask_eq_exp_minus_1)
    then have "unat (n AND 0x00ff) = take_bit 8 (unat n)" by (simp only: unsigned_take_bit_eq)
    then show ?thesis by (simp add: take_bit_eq_mod)
  qed
  have d: "drop_bit 8 (n AND 0xff00) = drop_bit 8 n"
  proof -
    have e: "(0xff00 :: u16) = NOT (mask 8)" by (simp add: mask_eq_exp_minus_1)
    show ?thesis unfolding e by (rule bit_word_eqI) (auto simp: bit_simps dest: bit_imp_le_length)
  qed
  have p: "unat (push_bit 8 (n AND 0x00ff)) = push_bit 8 (unat n mod 256)"
    unfolding b [symmetric] by (rule unat_push8_u16) (simp add: b)
  have "unat n div 256 < 256" using u16_lt [of n] by (simp add: less_mult_imp_div_less)
  then show ?thesis
    unfolding lwip_htons_def unsigned_or_eq p d unat_drop_bits(1) by (rule nat_or_push(1))
qed

lemma pseudo_addrs_sum: "unat (pseudo_addrs src dest) = ones_sum (words_sum (word_bytes src @ word_bytes dest))"
proof -
  have m: "unat (drop_bit 16 w) mod 65536 = unat w div 65536" for w :: u32
    using u32_lt [of w] by (simp add: unat_drop_bits less_mult_imp_div_less)
  let ?s = "(src AND 0xffff) + (drop_bit 16 src AND 0xffff) + (dest AND 0xffff) + (drop_bit 16 dest AND 0xffff)"
  have b: "unat w mod 65536 < 65536" "unat w div 65536 < 65536" for w :: u32
    using u32_lt [of w] by (simp_all add: less_mult_imp_div_less)
  have "unat ?s = unat src mod 65536 + unat src div 65536 + unat dest mod 65536 + unat dest div 65536"
    unfolding unat_word_ariths unat_and_word m using b [of src] b [of dest] by simp
  moreover have "words_sum (word_bytes src @ word_bytes dest)
      = unat src mod 65536 + unat src div 65536 + (unat dest mod 65536 + unat dest div 65536)"
    using words_sum_append [of "word_bytes src" "word_bytes dest"]
    by (simp only: words_sum_word_bytes) (simp add: word_bytes_def)
  ultimately show ?thesis unfolding pseudo_addrs_def Let_def fold_twice by (simp only: add.assoc)
qed

lemma pseudo_finish_sum:
  assumes acc: "unat acc = ones_sum (256 ^ l * (words_sum (word_bytes src @ word_bytes dest) + spelled d))" and sw: "sw = odd l"
  shows "pseudo_finish proto proto_len (acc, sw) = NOT (of_nat (ones_sum (words_sum (pseudo_header src dest proto proto_len @ d))))"
proof -
  define acc1 where "acc1 = (if sw then SWAP_BYTES_IN_WORD acc else acc)"
  let ?x = "words_sum (word_bytes src @ word_bytes dest) + spelled d"
  let ?p = "unat (lwip_htons (ucast proto))" and ?n = "unat (lwip_htons proto_len)"
  have a1: "unat acc1 = ones_sum ?x" using unswap [OF acc] sw by (simp add: acc1_def)
  have "unat acc1 + ?p + ?n < 2 ^ 32"
    using a1 ones_sum_le [of ?x] u16_lt [of "lwip_htons (ucast proto)"] u16_lt [of "lwip_htons proto_len"] by simp
  then have "unat (acc1 + ucast (lwip_htons (ucast proto)) + ucast (lwip_htons proto_len)) = unat acc1 + ?p + ?n"
    unfolding unat_word_ariths unat_ucast_u32 by simp
  then have f: "unat (FOLD_U32T (FOLD_U32T (acc1 + ucast (lwip_htons (ucast proto)) + ucast (lwip_htons proto_len))))
      = ones_sum (?x + (?p + ?n))"
    unfolding fold_twice by (simp only: a1 add.assoc ones_sum_add1)
  have h: "words_sum ([0, proto, ucast (drop_bit 8 proto_len), ucast proto_len] @ d) = ?p + ?n + words_sum d"
  proof -
    have "unat proto_len div 256 < 256" using u16_lt [of proto_len] by (simp add: less_mult_imp_div_less)
    then show ?thesis
      using u8_lt [of proto] by (simp add: unat_htons unat_ucast_byte unat_ucast_u8 unat_drop_bits)
  qed
  have e: "even (length (word_bytes src @ word_bytes dest))" by (simp add: word_bytes_def)
  have w: "words_sum (pseudo_header src dest proto proto_len @ d)
      = words_sum (word_bytes src @ word_bytes dest) + (?p + ?n + words_sum d)"
    using words_sum_append [OF e, of "[0, proto, ucast (drop_bit 8 proto_len), ucast proto_len] @ d"] h
    by (simp add: pseudo_header_def)
  have "ones_sum (?x + (?p + ?n)) = ones_sum (words_sum (word_bytes src @ word_bytes dest) + (?p + ?n) + ones_sum (spelled d))"
    by (simp add: algebra_simps)
  also have "\<dots> = ones_sum (words_sum (pseudo_header src dest proto proto_len @ d))"
    unfolding words_spelled [symmetric] w ones_sum_add2 by (simp add: algebra_simps)
  finally show ?thesis
    using ones_sum_word [OF f] by (simp add: pseudo_finish_def Let_def acc1_def)
qed

section \<open>The partial checksum\<close>

text \<open>Sums of two pieces of data, the first with the number of bytes \<open>l\<close> it was swapped for.\<close>

lemma sum_pieces:
  assumes "length d = l \<or> r = []"
  shows "ones_sum (256 ^ k * (256 ^ l * (x + spelled d) + spelled r)) = ones_sum (256 ^ (l + k) * (x + spelled (d @ r)))"
proof -
  have "256 ^ k * (256 ^ l * (x + spelled d) + spelled r) = 256 ^ k * spelled r + 256 ^ (l + k) * (x + spelled d)"
    by (simp add: power_add algebra_simps)
  also have "ones_sum \<dots> = ones_sum (256 ^ (2 * l + k) * spelled r + 256 ^ (l + k) * (x + spelled d))"
    by (simp only: power_256_twice)
  also have "256 ^ (2 * l + k) * spelled r + 256 ^ (l + k) * (x + spelled d) = 256 ^ (l + k) * (x + spelled (d @ r))"
  proof -
    have p: "(256 :: nat) ^ (2 * l + k) = 256 ^ (l + k) * 256 ^ l" by (simp add: power_add mult_2)
    show ?thesis unfolding p using assms by (auto simp: spelled_append distrib_left mult.assoc)
  qed
  finally show ?thesis .
qed

lemma partial_loop_sum:
  assumes "chain s q qs" and "unat acc = ones_sum x" and "debug \<or> unat c < 0x7fff"
  shows "\<exists>q' c' acc' k. orepeat (partial_pass debug s) (q, c, acc, sw) = Some (Returns (q', c', acc', sw \<noteq> odd k)) \<and>
    unat acc' = ones_sum (256 ^ k * (x + spelled (take (unat c) (pdata s qs))))"
  using assms
proof (induction qs arbitrary: q acc x sw c)
  case Nil
  then have "orepeat (partial_pass debug s) (q, c, acc, sw) = Some (Returns (q, c, acc, sw \<noteq> odd (0 :: nat)))"
    by (intro orepeat_stop) (simp add: partial_pass_def)
  then show ?case using Nil(2) by (intro exI [of _ q] exI [of _ c] exI [of _ acc] exI [of _ 0]) simp
next
  case (Cons p qs)
  show ?case
  proof (cases "c = 0")
    case True
    then have "orepeat (partial_pass debug s) (q, c, acc, sw) = Some (Returns (q, c, acc, sw \<noteq> odd (0 :: nat)))"
      by (intro orepeat_stop) (simp add: partial_pass_def)
    then show ?thesis using Cons.prems(2) True by (intro exI [of _ q] exI [of _ c] exI [of _ acc] exI [of _ 0]) simp
  next
    case False
    let ?l = "unat (len (pbufs s p))" and ?a = "payload (pbufs s p)"
    define n where "n = (if len (pbufs s p) > c then c else len (pbufs s p))"
    have n: "unat n = min (unat c) ?l" by (simp add: n_def min_def word_less_nat_alt)
    define acc1 where "acc1 = FOLD_U32T (acc + ucast (lwip_standard_chksum (bytes s) ?a (unat n)))"
    define acc2 where "acc2 = (if ?l mod 2 \<noteq> 0 then SWAP_BYTES_IN_WORD acc1 else acc1)"
    let ?d = "rd (bytes s) ?a (unat n)"
    have "unat n \<le> 0x20000" using u16_lt [of n] by simp
    then have a2: "unat acc2 = ones_sum (256 ^ ?l * (x + spelled ?d))"
      unfolding acc2_def acc1_def by (rule chksum_pass(2) [OF Cons.prems(2)])
    have cn: "unat (c - n) = unat c - unat n" using n by (simp add: unat_sub word_le_nat_alt)
    have d: "debug \<or> unat (c - n) < 0x7fff" using Cons.prems(3) cn by auto
    have ch: "chain s (pb_next (pbufs s p)) qs" "q = p" "p \<noteq> 0" using Cons.prems(1) by simp_all
    have st: "partial_pass debug s (q, c, acc, sw) = Returns (True, pb_next (pbufs s p), c - n, acc2, sw \<noteq> odd ?l)"
    proof -
      have "c - n < 0x7fff \<or> debug" "c > 0" using d False by (auto simp: word_less_nat_alt word_neq_0_conv)
      then show ?thesis
        using ch by (cases "odd ?l")
          (simp_all add: partial_pass_def Let_def LWIP_ASSERT_def n_def [symmetric] acc1_def [symmetric] acc2_def mod2_eq_if)
    qed
    obtain q' c' acc' k where r: "orepeat (partial_pass debug s) (pb_next (pbufs s p), c - n, acc2, sw \<noteq> odd ?l)
        = Some (Returns (q', c', acc', (sw \<noteq> odd ?l) \<noteq> odd k))"
      "unat acc' = ones_sum (256 ^ k * (256 ^ ?l * (x + spelled ?d) + spelled (take (unat (c - n)) (pdata s qs))))"
      using Cons.IH [OF ch(1) a2 d] by blast
    have t: "take (unat c) (pdata s (p # qs)) = ?d @ take (unat (c - n)) (pdata s qs)"
      using n cn by (auto simp: min_def)
    have "length ?d = ?l \<or> take (unat (c - n)) (pdata s qs) = []" using n cn by (auto simp: min_def)
    from sum_pieces [OF this, of k x] have "unat acc' = ones_sum (256 ^ (?l + k) * (x + spelled (take (unat c) (pdata s (p # qs)))))"
      unfolding t r(2) .
    moreover have "((sw \<noteq> odd ?l) \<noteq> odd k) = (sw \<noteq> odd (?l + k))" by auto
    ultimately show ?thesis
      using r(1) orepeat_step [of "partial_pass debug s", OF st]
      by (intro exI [of _ q'] exI [of _ c'] exI [of _ acc'] exI [of _ "?l + k"]) (simp only: simp_thms)
  qed
qed

section \<open>The properties of the checksums\<close>

text \<open>
  C38. The checksum of a packet is the one's complement of the one's complement sum of its data as 16-bit
  words, whatever the alignment of the payloads and however the data is split over pbufs.
\<close>

theorem inet_chksum_pbuf_rfc1071:
  assumes "packet s p qs"
  shows "inet_chksum_pbuf p s = Returns (NOT (of_nat (ones_sum (words_sum (pdata s qs)))))"
proof -
  have c: "chain s p qs" using assms by (simp add: packet_def)
  have "unat (0 :: u32) = ones_sum 0" by (simp add: ones_sum_def)
  then obtain acc where a: "chksum_chain s p 0 False = Some (acc, odd (plen s qs))"
    "unat acc = ones_sum (256 ^ plen s qs * spelled (pdata s qs))"
    using chksum_chain_sum [OF c, of 0 0 False] by auto
  have "unat (if odd (plen s qs) then SWAP_BYTES_IN_WORD acc else acc) = ones_sum (words_sum (pdata s qs))"
    using unswap [OF a(2)] by (simp add: words_spelled)
  from ones_sum_word [OF this] show ?thesis using a(1) by (simp add: inet_chksum_pbuf_def Let_def)
qed

theorem inet_chksum_pbuf_rfc1071_witness:
  "inet_chksum_pbuf 8 two_pbufs = Returns 29063"
proof -
  have "words_sum (pdata two_pbufs [8, 16]) = 167542" by (simp add: two_pbufs_def rd_def upt_rec)
  then show ?thesis using inet_chksum_pbuf_rfc1071 [OF two_pbufs_packet(1)] by (simp add: ones_sum_def del: data_in_simps)
qed

text \<open>
  C39. The checksum of TCP and UDP is the RFC 1071 checksum of the pseudo header (addresses, protocol and
  length in network byte order) followed by the data of the packet.
\<close>

theorem inet_chksum_pseudo_rfc1071:
  assumes "packet s p qs"
  shows "inet_chksum_pseudo p proto proto_len src dest s =
    Returns (NOT (of_nat (ones_sum (words_sum (pseudo_header src dest proto proto_len @ pdata s qs)))))"
proof -
  have c: "chain s p qs" using assms by (simp add: packet_def)
  obtain acc where a: "chksum_chain s p (pseudo_addrs src dest) False = Some (acc, odd (plen s qs))"
    "unat acc = ones_sum (256 ^ plen s qs * (words_sum (word_bytes src @ word_bytes dest) + spelled (pdata s qs)))"
    using chksum_chain_sum [OF c pseudo_addrs_sum [of src dest], where sw = False] by auto
  show ?thesis
    using a(1) pseudo_finish_sum [OF a(2) refl] by (simp add: inet_chksum_pseudo_def inet_cksum_pseudo_base_def)
qed

theorem inet_chksum_pseudo_rfc1071_witness:
  "inet_chksum_pseudo 8 17 7 0x0100007f 0x0200007f two_pbufs = Returns 21897"
proof -
  have "words_sum (pseudo_header 0x0100007f 0x0200007f 17 7 @ pdata two_pbufs [8, 16]) = 174708"
    by (simp add: pseudo_header_def word_bytes_def two_pbufs_def rd_def upt_rec)
  then show ?thesis
    using inet_chksum_pseudo_rfc1071 [OF two_pbufs_packet(1), of 17 7 "0x0100007f" "0x0200007f"]
    by (simp add: ones_sum_def del: data_in_simps)
qed

text \<open>
  The partial checksum is the checksum of the pseudo header and the first \<open>chksum_len\<close> bytes of the
  packet, as long as the assertion in its loop does not stop it.
\<close>

theorem inet_chksum_pseudo_partial_rfc1071:
  assumes "packet s p qs" and "debug \<or> unat chksum_len < 0x7fff"
  shows "inet_chksum_pseudo_partial debug p proto proto_len chksum_len src dest s =
    Returns (NOT (of_nat (ones_sum (words_sum (pseudo_header src dest proto proto_len @ take (unat chksum_len) (pdata s qs))))))"
proof -
  have c: "chain s p qs" using assms(1) by (simp add: packet_def)
  obtain q' c' acc k where a: "orepeat (partial_pass debug s) (p, chksum_len, pseudo_addrs src dest, False)
      = Some (Returns (q', c', acc, odd k))"
    "unat acc = ones_sum (256 ^ k * (words_sum (word_bytes src @ word_bytes dest) + spelled (take (unat chksum_len) (pdata s qs))))"
    using partial_loop_sum [OF c pseudo_addrs_sum [of src dest] assms(2), where sw = False] by auto
  show ?thesis
    using a(1) pseudo_finish_sum [OF a(2) refl] by (simp add: inet_chksum_pseudo_partial_def inet_cksum_pseudo_partial_base_def)
qed

theorem inet_chksum_pseudo_partial_rfc1071_witness:
  "inet_chksum_pseudo_partial False 8 136 7 5 0x0100007f 0x0200007f two_pbufs = Returns 45404"
proof -
  have w: "words_sum (pseudo_header 0x0100007f 0x0200007f 136 7 @ take 5 (pdata two_pbufs [8, 16])) = 151201"
    by (simp add: pseudo_header_def word_bytes_def two_pbufs_def rd_def upt_rec)
  show ?thesis
    using inet_chksum_pseudo_partial_rfc1071 [OF two_pbufs_packet(1), of False 5 136 7 "0x0100007f" "0x0200007f"]
    by (simp add: ones_sum_def w del: data_in_simps)
qed

lemma inet_chksum_sum: "inet_chksum m a n = NOT (of_nat (ones_sum (words_sum (rd m a (unat n)))))"
proof -
  let ?x = "words_sum (rd m a (unat n))"
  have "unat (lwip_standard_chksum m a (unat n)) = ones_sum ?x" using standard_chksum_sum u16_lt [of n] by simp
  then have "lwip_standard_chksum m a (unat n) = of_nat (ones_sum ?x)"
    using unat_of_nat_u16 [of "ones_sum ?x"] ones_sum_le [of ?x] by (simp add: word_unat_eq_iff)
  then show ?thesis by (simp add: inet_chksum_def)
qed

lemma unat_not_u16: "unat (NOT (c :: u16)) = 65535 - unat c"
proof -
  have "NOT c = - 1 - c" by (simp add: not_eq_complement)
  then show ?thesis by (simp add: unat_sub [of c "- 1"] unsigned_minus_1_eq_mask mask_eq_exp_minus_1)
qed

text \<open>Storing a \<open>u16_t\<close>.\<close>

definition u16_bytes :: "u16 \<Rightarrow> u8 list" where
  "u16_bytes c = [ucast c, ucast (drop_bit 8 c)]"

lemma words_sum_u16_bytes: "words_sum (u16_bytes c) = unat c"
proof -
  have "unat c div 256 < 256" using u16_lt [of c] by (simp add: less_mult_imp_div_less)
  then show ?thesis by (simp add: u16_bytes_def unat_ucast_u8 unat_drop_bits)
qed

lemma words_sum_field:
  assumes "even k" and "k + 2 \<le> n"
  shows "words_sum (rd (wr m (a + k) (u16_bytes c)) a n) = words_sum (rd m a k) + unat c + words_sum (drop (k + 2) (rd m a n))"
proof -
  have l: "k + length (u16_bytes c) \<le> n" using assms(2) by (simp add: u16_bytes_def)
  have e: "even (length (rd m a k))" "even (length (u16_bytes c))" using assms(1) by (simp_all add: u16_bytes_def)
  have "rd (wr m (a + k) (u16_bytes c)) a n = rd m a k @ u16_bytes c @ drop (k + 2) (rd m a n)"
    using rd_wr_middle [OF l, of m a] assms(2) by (simp add: u16_bytes_def min_def)
  then show ?thesis by (simp only: words_sum_append [OF e(1)] words_sum_append [OF e(2)] words_sum_u16_bytes add.assoc)
qed

text \<open>
  C40. A checksum verifies: with the checksum of a block, computed while its checksum field at an even
  offset is 0, stored in that field, the checksum of the block is 0, which is what receivers test.
\<close>

theorem inet_chksum_verifies:
  assumes "even k" and "k + 2 \<le> unat n"
  shows "inet_chksum (wr m (a + k) (u16_bytes (inet_chksum (wr m (a + k) (u16_bytes 0)) a n))) a n = 0"
proof -
  let ?x = "words_sum (rd m a k)" and ?y = "words_sum (drop (k + 2) (rd m a (unat n)))"
  let ?o = "ones_sum (?x + ?y)"
  define c where "c = inet_chksum (wr m (a + k) (u16_bytes 0)) a n"
  have "c = NOT (of_nat ?o)" unfolding c_def inet_chksum_sum words_sum_field [OF assms] by simp
  moreover have "unat (of_nat ?o :: u16) = ?o" by (rule unat_of_nat_u16) (use ones_sum_le [of "?x + ?y"] in simp)
  ultimately have c: "unat c = 65535 - ?o" by (simp add: unat_not_u16)
  have "ones_sum (?x + unat c + ?y) = ones_sum (?o + unat c)" by (simp add: algebra_simps)
  also have "?o + unat c = 65535" using c ones_sum_le [of "?x + ?y"] by simp
  finally have "ones_sum (?x + unat c + ?y) = 65535" by (simp add: ones_sum_def)
  then have "inet_chksum (wr m (a + k) (u16_bytes c)) a n = NOT (of_nat 65535)"
    by (simp only: inet_chksum_sum words_sum_field [OF assms])
  then show ?thesis unfolding c_def by simp
qed

theorem inet_chksum_verifies_witness:
  "inet_chksum (wr (\<lambda>a. of_nat a) 1010 (u16_bytes (inet_chksum (wr (\<lambda>a. of_nat a) 1010 (u16_bytes 0)) 1000 20))) 1000 20 = 0"
  using inet_chksum_verifies [of 10 20 "\<lambda>a. of_nat a" 1000] by simp

end
