(* ===== verification/Spec2Isabelle.thy ===== *)
theory Spec2Isabelle
  imports Prelude List_Store List_Refine List_Spec Heap4 Tiling Heap4_Insert Heap4_Spec Ring
    Stream_Buffer Stream_Buffer_Spec List_Effects Tasks Tasks_Control Tasks_Inv Tasks_Steps
    Tasks_Tick Tasks_Sched Tasks_Resume Tasks_Run Tasks_Calls Tasks_Wake Tasks_Safe Tasks_Time
    Tasks_Spec Tasks_Sync_Spec Fifo Queue Queue_Semaphore Queue_Data Queue_Effects Queue_Spec
    Queue_Wake Queue_Block Queue_Locks Queue_Mutex Loops Event_Groups Event_Groups_Spec Timers
    Timers_Spec Lwip_Prelude Mem Mem_Spec Mem_Run Memp Pbuf Pbuf_Data Pbuf_Spec Pbuf_Copy Pbuf_Laws
    Pbuf_Mem Pbuf_Refs Pbuf_Own Memp_Init Pbuf_Run Chksum Chksum_Spec Chksum_Laws
begin

text \<open>
  The FreeRTOS kernel and the memory and packet layers of LwIP, verified

  The repository is a TCP/IP stack, LwIP 2 (\<open>lwip/src\<close>), on a real time kernel, FreeRTOS 10.0.1
  (\<open>freeRtos/Source\<close>), with applications above them. This development models the kernel
  and, of the stack, what every packet passes through: the heap, the memory pools, the packet buffers
  and the Internet checksum. File names are relative to src/.

  How the parts interact. The lists of \<open>list.c\<close> carry everything the kernel orders: ready tasks by
  priority, delayed tasks by wake time, the waiters of a queue, the timers by expiry. The scheduler,
  \<open>tasks.c\<close>, owns these lists; a task that has to wait moves itself from its ready list to a delayed list
  and an event list, and whoever makes its condition true, or the tick, moves it back. Queues,
  event groups, stream buffers and notifications are built from that; the service task of \<open>timers.c\<close> is
  a client of a queue. \<open>heap_4.c\<close> allocates under all of them. In the stack \<open>pbuf.c\<close> takes its memory from
  the pools of \<open>memp.c\<close> and the heap of \<open>mem.c\<close>, counts the references to each buffer, and chains buffers
  to packets; \<open>inet_chksum.c\<close> reads these chains.

  The build. The library the stack is linked with (\<open>freeRtos/Source/Makefile\<close>) contains \<open>heap_4.c\<close> and the
  POSIX port; \<open>lwip/project/FreeRTOSConfig.h\<close> configures the kernel, \<open>lwip/ports/freeRtos/lwipopts.h\<close> the
  stack. The target has 32 bits and is little-endian: \<open>size_t\<close>, \<open>UBaseType_t\<close> and \<open>TickType_t\<close> are words of
  32 bits (\<open>mem_size_t\<close> and the lengths of a pbuf of 16) and wrap around in the model as they do in C. A
  pointer is an address, a natural number, and \<open>NULL\<close> is 0. A critical section is one step, and so is a call
  that does its work in one; what other tasks and interrupts do at the points where a call of \<open>queue.c\<close>
  lets them (the record \<open>gaps\<close>), what a call that blocks meets when it runs again, application callbacks
  and hooks are arguments of the definitions. The pools and the packet buffers rely on
  \<open>SYS_ARCH_PROTECT\<close>, which this configuration leaves empty (\<open>SYS_LIGHTWEIGHT_PROT\<close> is 0), and the stream
  buffers on having one writer and one reader: there a whole call is one step of the model.

  Outcomes (type \<open>outcome\<close> of theory Prelude). A call \<open>Returns\<close> a value, \<open>Asserts\<close> when an assertion stops
  the program, or \<open>Diverges\<close>. \<open>configASSERT\<close> always ends the program; \<open>LWIP_ASSERT\<close> spins in a build without
  \<open>LWIP_DEBUG\<close> and otherwise (so \<open>Rules.mak\<close> builds the stack) prints and goes on, hence the flag every
  definition that asserts has as its first argument. Loops whose end depends on pointers or lists (list
  walks, the free lists of the heaps, chains of pbufs, the switch of the timer lists) are partial
  functions or \<open>orepeat\<close> (theory Loops) with \<open>Diverges\<close> as a value: nothing is cut off by fuel, and that they
  end is part of the theorems that say a call returns. A loop over the gaps of a blocking call diverges
  when the gaps are used up: the task never runs again.

  The theories, bottom up:

  Prelude (machine types, constants of \<open>portmacro.h\<close> and \<open>projdefs.h\<close>, theorem collections),
  Loops (repetition with failing bodies), Ring (bytes in a circular array, for Stream_Buffer and
  Queue), Tiling (memory tiled by segments, for \<open>heap_4.c\<close> and \<open>mem.c\<close>), Fifo (the locale \<open>fifo\<close>).

  List_Store is \<open>list.c\<close> on a store of pointers, one definition per function. List_Refine proves that
  every operation refines one on the sequence of the items and the position of \<open>pxIndex\<close> (the \<open>alists\<close> the other
  kernel theories use). List_Effects holds the effect of these on consistent lists, List_Spec the
  locale \<open>sorted_list\<close>, what \<open>vListInsert\<close> promises, interpreted on the code's lists, and the fairness of the round
  robin walk.

  Heap4 is \<open>heap_4.c\<close> on the block headers. Heap4_Insert proves \<open>prvInsertBlockIntoFreeList\<close>, Heap4_Spec
  that \<open>pvPortMalloc\<close> is first fit and \<open>vPortFree\<close> coalesces on the tiling, and what follows for runs:
  live blocks are aligned, disjoint and inside the heap, and the byte counts are right.

  Tasks, Tasks_Control are \<open>tasks.c\<close> on existing tasks: task control blocks and kernel variables as the
  records \<open>tcb\<close> and \<open>kernel\<close>, one definition per function, one per loop body. Tasks_Inv states the invariant,
  Tasks_Steps, Tasks_Wake and Tasks_Calls that each step keeps it, Tasks_Sched and Tasks_Tick what the
  context switch and the tick do (time without wrapping is the tick count plus 2^32 times the overflows),
  Tasks_Resume and Tasks_Time the pended ticks and the delays, Tasks_Run and Tasks_Safe runs of arbitrary
  calls. Tasks_Spec and Tasks_Sync_Spec hold the properties: safety of all runs, the highest priority
  runs, round robin, waking on time over tick overflow, the time-out arithmetic, priority
  inheritance, notifications.

  Queue, Queue_Semaphore are \<open>queue.c\<close>: the record queue with its storage as bytes. Queue_Data relates the
  ring to the list of its items, Queue_Effects says what each operation does to the items, Queue_Spec
  interprets the locale \<open>fifo\<close> on it and proves the order of items in all interleavings, Queue_Wake follows
  the tasks that wait, Queue_Block a blocking call through its \<open>gaps\<close>: it takes effect once or not at all.
  Queue_Locks is about the lock counts and whom unlocking wakes, Queue_Mutex about mutexes and recursive
  mutexes.

  Stream_Buffer is \<open>stream_buffer.c\<close>; Stream_Buffer_Spec proves its copy routines to be append and drop on a
  list of bytes, that messages sent are received whole, and interprets \<open>fifo\<close>. Event_Groups is \<open>event_groups.c\<close>;
  Event_Groups_Spec says which tasks setting bits wakes, with what, and what a wait returns. Timers is
  \<open>timers.c\<close>; Timers_Spec proves on which list a timer goes, that the switch of the lists at an overflow ends
  and leaves none behind, and that a posted command is carried out.

  Lwip_Prelude is \<open>lwip/def.h\<close>, \<open>arch.h\<close> and \<open>debug.h\<close> with the byte order functions of \<open>def.c\<close>. Mem is \<open>mem.c\<close> on
  the block headers of the 16 KB heap; Mem_Spec proves it first fit and coalescing on the tiling,
  Mem_Run that no assertion fails in any run and everything freed is one block again; the sizes are 16
  bits, and requests up to 65532 bytes are handled right. Memp is \<open>memp.c\<close> with its guard
  bytes; Memp_Init proves that \<open>lwip_boot\<close> sets up pools and heap.

  Pbuf, Pbuf_Data are \<open>pbuf.c\<close>: allocation, headers, reference counts and chains, and the functions on
  the data. Pbuf_Spec relates a chain to the bytes of the packet, Pbuf_Copy proves \<open>pbuf_copy\<close>, Pbuf_Laws
  the properties of the data functions. Pbuf_Mem is the memory of pbufs, Pbuf_Refs the meaning of the
  counts, Pbuf_Own that every call keeps both, and Pbuf_Run the properties of all runs of clients:
  counts equal pointers, nothing leaks, freeing frees what nobody else holds.

  Chksum is \<open>inet_chksum.c\<close>; Chksum_Spec is the checksum of RFC 1071 on a list of bytes and the algebra
  of one's complement sums; Chksum_Laws proves them equal over memory (up to 0x20000 bytes, where the
  32-bit accumulator cannot overflow), over chains with odd pieces and with a pseudo header.

  Not modelled:

  Task creation and deletion, statistics and listings of \<open>tasks.c\<close>, \<open>xTimerCreateTimerTask\<close>: they allocate stacks
  and format text; the runs start from existing tasks. Memory is not reclaimed from deleted tasks.

  \<open>croutine.c\<close>, and what the configurations leave out: static allocation, trace, the list integrity
  bytes, custom pbufs, IPv6, PPP, sockets and netconns. The POSIX port (threads, signals and timers of
  the host), whose critical sections and switches are the atomic steps of the model. The other kernel
  allocators, not in the kernel library.

  The protocols of the stack, TCP, UDP, IPv4, ICMP, IGMP, ARP, DHCP and DNS, network interfaces and the
  thread of \<open>tcpip.c\<close>: control blocks shared with application callbacks and hardware, beyond this
  development, which holds the memory, buffers and checksums they rest on. Drivers, simulator,
  demos, tests and host tools do I/O; the applications under \<open>lwip/exts\<close> are clients, partly third-party.
\<close>

end
